(* ===== verification/Pj_Prelude.thy ===== *)
theory Pj_Prelude
  imports Main "HOL-Library.Word" "HOL-Library.Multiset"
begin

unbundle bit_operations_syntax

text \<open>
  Shared vocabulary of the development: the machine integer types of
  \<^verbatim>\<open>pj/types.h\<close>, the status codes of \<^verbatim>\<open>pj/errno.h\<close> that the modelled functions
  return, the conversions C performs between \<^verbatim>\<open>int\<close> and \<^verbatim>\<open>unsigned\<close>, byte order
  conversion, time values, and the list lemmas that the ring buffer, the timer heap
  and the hash table share.

  Conventions. A C \<^verbatim>\<open>int\<close> is an \<open>int\<close>: signed overflow is undefined in C, so the model
  computes the mathematical value. A C \<^verbatim>\<open>unsigned\<close> that only counts is a \<open>32 word\<close>; one that
  is used as an array index is a \<open>nat\<close>, and wherever the source subtracts below zero or mixes
  the two signednesses the conversion is written out with the operations below.
\<close>

section \<open>Collections\<close>

named_theorems pj_defs \<open>definitions of plain operations, unfolded together\<close>
named_theorems pj_inv \<open>preservation of component invariants\<close>
named_theorems pj_bounds \<open>bounds on machine integers\<close>

section \<open>Status codes\<close>

text \<open>
  The \<^verbatim>\<open>pj_status_t\<close> values the modelled functions return, as values of a datatype.
  \<open>PJ_OTHER\<close> stands for a code passed through from a layer below (a socket or transport error).
\<close>

datatype pj_status =
    PJ_SUCCESS
  | PJ_EUNKNOWN | PJ_EPENDING | PJ_ENOTFOUND | PJ_EINVAL | PJ_ENOMEM | PJ_EBUG
  | PJ_ERESOLVE | PJLIB_UTIL_EDNS_NXDOMAIN
  | PJ_ETOOMANY | PJ_ETOOBIG | PJ_ETOOSMALL | PJ_EBUSY | PJ_EEXISTS | PJ_EINVALIDOP | PJ_EIGNORED
  | PJMEDIA_RTP_EINVER | PJMEDIA_RTP_EINLEN
  | PJSIP_ENOTREQUESTMSG | PJSIP_ENOTRESPONSEMSG | PJSIP_EINVALIDMETHOD | PJSIP_EMISSINGHDR | PJSIP_EINVALIDHDR
  | PJ_OTHER int

section \<open>Machine integers\<close>

type_synonym u8 = "8 word"
type_synonym u16 = "16 word"
type_synonym u32 = "32 word"
type_synonym u64 = "64 word"

text \<open>Implicit conversion of a C \<^verbatim>\<open>int\<close> to \<^verbatim>\<open>unsigned\<close>, and the unsigned arithmetic on values kept as \<open>nat\<close>.\<close>

definition to_u32 :: "int \<Rightarrow> nat" where
  "to_u32 i = nat (i mod 2 ^ 32)"

definition u32_sub :: "nat \<Rightarrow> nat \<Rightarrow> nat" where
  "u32_sub a b = to_u32 (int a - int b)"

definition u32_add :: "nat \<Rightarrow> nat \<Rightarrow> nat" where
  "u32_add a b = to_u32 (int a + int b)"

definition u32_mul :: "nat \<Rightarrow> nat \<Rightarrow> nat" where
  "u32_mul a b = to_u32 (int a * int b)"

text \<open>Conversion of an \<^verbatim>\<open>unsigned\<close> to \<^verbatim>\<open>int\<close> (two's complement).\<close>

definition to_s32 :: "nat \<Rightarrow> int" where
  "to_s32 n = (let k = int n mod 2 ^ 32 in if k < 2 ^ 31 then k else k - 2 ^ 32)"

text \<open>C division and remainder truncate towards zero.\<close>

definition cdiv :: "int \<Rightarrow> int \<Rightarrow> int" where
  "cdiv a b = sgn a * sgn b * (\<bar>a\<bar> div \<bar>b\<bar>)"

definition cmod :: "int \<Rightarrow> int \<Rightarrow> int" where
  "cmod a b = a - b * cdiv a b"

lemma to_u32_less [pj_bounds]: "to_u32 i < 2 ^ 32"
  unfolding to_u32_def by (simp add: nat_less_iff)

lemma to_u32_id: "0 \<le> i \<Longrightarrow> i < 2 ^ 32 \<Longrightarrow> to_u32 i = nat i"
  by (simp add: to_u32_def)

lemma u32_sub_le: "b \<le> a \<Longrightarrow> a < 2 ^ 32 \<Longrightarrow> u32_sub a b = a - b"
  unfolding u32_sub_def by (subst to_u32_id) (auto simp: nat_diff_distrib)

lemma u32_add_small: "a + b < 2 ^ 32 \<Longrightarrow> u32_add a b = a + b"
  unfolding u32_add_def by (subst to_u32_id) auto

lemma u32_mul_small: "a * b < 2 ^ 32 \<Longrightarrow> u32_mul a b = a * b"
  unfolding u32_mul_def by (subst to_u32_id) (simp_all flip: of_nat_mult)

lemma to_s32_small: "n < 2 ^ 31 \<Longrightarrow> to_s32 n = int n"
  by (simp add: to_s32_def)

lemma to_s32_to_u32: "- (2 ^ 31) \<le> i \<Longrightarrow> i < 2 ^ 31 \<Longrightarrow> to_s32 (to_u32 i) = i"
proof -
  assume i: "- (2 ^ 31) \<le> i" "i < 2 ^ 31"
  show ?thesis
  proof (cases "i < 0")
    case True
    have "(i + 2 ^ 32) mod 2 ^ 32 = i + 2 ^ 32" by (rule mod_pos_pos_trivial) (use i True in simp_all)
    then have "i mod 2 ^ 32 = i + 2 ^ 32" by simp
    then show ?thesis using i True by (simp add: to_s32_def to_u32_def)
  qed (use i in \<open>simp add: to_s32_def to_u32_def\<close>)
qed

lemma cdiv_nonneg: "0 \<le> a \<Longrightarrow> 0 < b \<Longrightarrow> cdiv a b = a div b"
  by (cases "a = 0") (auto simp: cdiv_def)

lemma cmod_nonneg: "0 \<le> a \<Longrightarrow> 0 < b \<Longrightarrow> cmod a b = a mod b"
  by (simp add: cmod_def cdiv_nonneg minus_mult_div_eq_mod)

section \<open>Byte order\<close>

text \<open>
  \<^verbatim>\<open>pj_htons\<close> and \<^verbatim>\<open>pj_htonl\<close> on a little-endian host, which is what every iOS target is:
  the bytes are reversed. The inverse functions are the same permutation.
\<close>

definition pj_htons :: "u16 \<Rightarrow> u16" where
  "pj_htons w = push_bit 8 w OR drop_bit 8 w"

definition pj_ntohs :: "u16 \<Rightarrow> u16" where
  "pj_ntohs w = push_bit 8 w OR drop_bit 8 w"

definition pj_htonl :: "u32 \<Rightarrow> u32" where
  "pj_htonl w = push_bit 24 w OR (push_bit 8 w AND 0xFF0000) OR (drop_bit 8 w AND 0xFF00) OR drop_bit 24 w"

definition pj_ntohl :: "u32 \<Rightarrow> u32" where
  "pj_ntohl w = push_bit 24 w OR (push_bit 8 w AND 0xFF0000) OR (drop_bit 8 w AND 0xFF00) OR drop_bit 24 w"

lemma bit_pj_htons:
  "bit (pj_htons w) n \<longleftrightarrow> (if n < 8 then bit w (n + 8) else n < 16 \<and> bit w (n - 8))"
  using bit_imp_le_length [of w "n + 8"]
  by (simp add: pj_htons_def bit_or_iff bit_push_bit_iff bit_drop_bit_eq) (auto simp: add.commute)

lemma pj_htons_involution: "pj_htons (pj_htons w) = w"
proof (rule bit_word_eqI)
  fix n assume "n < LENGTH(16)"
  then consider "n < 8" | "8 \<le> n" "n < 16" by fastforce
  then show "bit (pj_htons (pj_htons w)) n = bit w n"
    by cases (auto simp: bit_pj_htons)
qed

lemma pj_ntohs_htons [simp]: "pj_ntohs (pj_htons w) = w"
  using pj_htons_involution by (simp add: pj_htons_def pj_ntohs_def)

lemma pj_htons_ntohs [simp]: "pj_htons (pj_ntohs w) = w"
  using pj_htons_involution by (simp add: pj_htons_def pj_ntohs_def)

lemma byte_masks:
  "(0xFF0000 :: u32) = push_bit 16 (mask 8)" "(0xFF00 :: u32) = push_bit 8 (mask 8)"
  by (simp_all add: mask_eq_exp_minus_1 push_bit_eq_mult)

lemma bit_pj_htonl:
  "bit (pj_htonl w) n \<longleftrightarrow>
     (if n < 8 then bit w (n + 24) else if n < 16 then bit w (n + 8)
      else if n < 24 then bit w (n - 8) else n < 32 \<and> bit w (n - 24))"
proof -
  consider "n < 8" | "8 \<le> n" "n < 16" | "16 \<le> n" "n < 24" | "24 \<le> n" by linarith
  moreover have "bit w (n + 24) \<Longrightarrow> n < 8"
    using bit_imp_le_length [of w "n + 24"] by simp
  ultimately show ?thesis
    unfolding pj_htonl_def byte_masks
    by cases (auto simp: bit_or_iff bit_and_iff bit_push_bit_iff bit_drop_bit_eq bit_mask_iff
        less_diff_conv2 add.commute)
qed

lemma pj_htonl_involution: "pj_htonl (pj_htonl w) = w"
proof (rule bit_word_eqI)
  fix n assume n: "n < LENGTH(32)"
  then consider "n < 8" | "8 \<le> n" "n < 16" | "16 \<le> n" "n < 24" | "24 \<le> n" "n < 32" by fastforce
  then show "bit (pj_htonl (pj_htonl w)) n = bit w n"
    by cases (auto simp: bit_pj_htonl)
qed

lemma pj_ntohl_htonl [simp]: "pj_ntohl (pj_htonl w) = w"
  using pj_htonl_involution by (simp add: pj_htonl_def pj_ntohl_def)

lemma pj_htonl_ntohl [simp]: "pj_htonl (pj_ntohl w) = w"
  using pj_htonl_involution by (simp add: pj_htonl_def pj_ntohl_def)

section \<open>Time values\<close>

text \<open>
  \<^verbatim>\<open>pj_time_val\<close>: seconds and milliseconds. The comparison macros of \<^verbatim>\<open>pj/types.h\<close> compare the
  pair lexicographically, so the type is made an instance of the library's linear orders and
  every later proof uses \<open><\<close> and \<open>\<le>\<close>.
\<close>

datatype pj_time_val = Time_Val (tv_sec: int) (tv_msec: int)

definition PJ_TIME_VAL_EQ :: "pj_time_val \<Rightarrow> pj_time_val \<Rightarrow> bool" where
  "PJ_TIME_VAL_EQ t1 t2 \<longleftrightarrow> tv_sec t1 = tv_sec t2 \<and> tv_msec t1 = tv_msec t2"

definition PJ_TIME_VAL_GT :: "pj_time_val \<Rightarrow> pj_time_val \<Rightarrow> bool" where
  "PJ_TIME_VAL_GT t1 t2 \<longleftrightarrow>
     tv_sec t1 > tv_sec t2 \<or> tv_sec t1 = tv_sec t2 \<and> tv_msec t1 > tv_msec t2"

definition PJ_TIME_VAL_GTE :: "pj_time_val \<Rightarrow> pj_time_val \<Rightarrow> bool" where
  "PJ_TIME_VAL_GTE t1 t2 \<longleftrightarrow> PJ_TIME_VAL_GT t1 t2 \<or> PJ_TIME_VAL_EQ t1 t2"

definition PJ_TIME_VAL_LT :: "pj_time_val \<Rightarrow> pj_time_val \<Rightarrow> bool" where
  "PJ_TIME_VAL_LT t1 t2 \<longleftrightarrow> \<not> PJ_TIME_VAL_GTE t1 t2"

definition PJ_TIME_VAL_LTE :: "pj_time_val \<Rightarrow> pj_time_val \<Rightarrow> bool" where
  "PJ_TIME_VAL_LTE t1 t2 \<longleftrightarrow> \<not> PJ_TIME_VAL_GT t1 t2"

instantiation pj_time_val :: linorder
begin

definition less_eq_pj_time_val :: "pj_time_val \<Rightarrow> pj_time_val \<Rightarrow> bool" where
  "less_eq_pj_time_val s t \<longleftrightarrow>
     tv_sec s < tv_sec t \<or> tv_sec s = tv_sec t \<and> tv_msec s \<le> tv_msec t"

definition less_pj_time_val :: "pj_time_val \<Rightarrow> pj_time_val \<Rightarrow> bool" where
  "less_pj_time_val s t \<longleftrightarrow>
     tv_sec s < tv_sec t \<or> tv_sec s = tv_sec t \<and> tv_msec s < tv_msec t"

instance
  by standard (auto simp: less_eq_pj_time_val_def less_pj_time_val_def pj_time_val.expand)

end

lemma time_val_macros [simp]:
  "PJ_TIME_VAL_EQ s t \<longleftrightarrow> s = t"
  "PJ_TIME_VAL_GT s t \<longleftrightarrow> t < s"
  "PJ_TIME_VAL_GTE s t \<longleftrightarrow> t \<le> s"
  "PJ_TIME_VAL_LT s t \<longleftrightarrow> s < t"
  "PJ_TIME_VAL_LTE s t \<longleftrightarrow> s \<le> t"
  by (auto simp: PJ_TIME_VAL_EQ_def PJ_TIME_VAL_GT_def PJ_TIME_VAL_GTE_def PJ_TIME_VAL_LT_def
      PJ_TIME_VAL_LTE_def less_eq_pj_time_val_def less_pj_time_val_def pj_time_val.expand)

text \<open>
  \<^verbatim>\<open>pj_time_val_normalize\<close> of \<^verbatim>\<open>types.c\<close>. The \<^verbatim>\<open>do ... while\<close> loop that borrows seconds until the
  milliseconds exceed -1000 is the recursive function \<open>normalize_borrow\<close>.
\<close>

function normalize_borrow :: "int \<Rightarrow> int \<Rightarrow> int \<times> int" where
  "normalize_borrow s ms =
     (let s' = s - 1; ms' = ms + 1000
      in if ms' \<le> -1000 then normalize_borrow s' ms' else (s', ms'))"
  by pat_completeness auto
termination
  by (relation "measure (\<lambda>(s, ms). nat (- ms))") auto

declare normalize_borrow.simps [simp del]

definition normalize_carry :: "pj_time_val \<Rightarrow> int \<times> int" where
  "normalize_carry t =
     (if tv_msec t \<ge> 1000 then (tv_sec t + cdiv (tv_msec t) 1000, cmod (tv_msec t) 1000)
      else if tv_msec t \<le> -1000 then normalize_borrow (tv_sec t) (tv_msec t)
      else (tv_sec t, tv_msec t))"

definition pj_time_val_normalize :: "pj_time_val \<Rightarrow> pj_time_val" where
  "pj_time_val_normalize t =
     (let (s, ms) = normalize_carry t
      in if s \<ge> 1 \<and> ms < 0 then Time_Val (s - 1) (ms + 1000)
         else if s < 0 \<and> ms > 0 then Time_Val (s + 1) (ms - 1000)
         else Time_Val s ms)"

definition PJ_TIME_VAL_ADD :: "pj_time_val \<Rightarrow> pj_time_val \<Rightarrow> pj_time_val" where
  "PJ_TIME_VAL_ADD t1 t2 =
     pj_time_val_normalize (Time_Val (tv_sec t1 + tv_sec t2) (tv_msec t1 + tv_msec t2))"

definition PJ_TIME_VAL_SUB :: "pj_time_val \<Rightarrow> pj_time_val \<Rightarrow> pj_time_val" where
  "PJ_TIME_VAL_SUB t1 t2 =
     pj_time_val_normalize (Time_Val (tv_sec t1 - tv_sec t2) (tv_msec t1 - tv_msec t2))"

definition PJ_TIME_VAL_MSEC :: "pj_time_val \<Rightarrow> int" where
  "PJ_TIME_VAL_MSEC t = tv_sec t * 1000 + tv_msec t"

lemma normalize_borrow_props:
  assumes "ms \<le> -1000" and "normalize_borrow s ms = (s', ms')"
  shows "s' * 1000 + ms' = s * 1000 + ms \<and> -1000 < ms' \<and> ms' \<le> 0"
  using assms
proof (induction s ms rule: normalize_borrow.induct)
  case (1 s ms)
  show ?case
  proof (cases "ms + 1000 \<le> -1000")
    case True
    with "1.prems" have "normalize_borrow (s - 1) (ms + 1000) = (s', ms')"
      by (simp add: normalize_borrow.simps [of s ms])
    with True "1.IH" [OF refl refl] show ?thesis by simp
  next
    case False
    with 1 show ?thesis by (auto simp: normalize_borrow.simps [of s ms] Let_def)
  qed
qed

lemma normalize_carry_props:
  "fst (normalize_carry t) * 1000 + snd (normalize_carry t) = PJ_TIME_VAL_MSEC t
   \<and> -1000 < snd (normalize_carry t) \<and> snd (normalize_carry t) < 1000"
proof -
  consider "tv_msec t \<ge> 1000" | "tv_msec t \<le> -1000" | "-1000 < tv_msec t" "tv_msec t < 1000"
    by linarith
  then show ?thesis
  proof cases
    case 1
    then have "cdiv (tv_msec t) 1000 * 1000 + cmod (tv_msec t) 1000 = tv_msec t"
      and "0 \<le> cmod (tv_msec t) 1000" and "cmod (tv_msec t) 1000 < 1000"
      by (simp_all add: cmod_nonneg cdiv_nonneg)
    with 1 show ?thesis unfolding normalize_carry_def PJ_TIME_VAL_MSEC_def by simp
  next
    case 2
    with normalize_borrow_props [OF 2, of "tv_sec t" "fst (normalize_carry t)" "snd (normalize_carry t)"]
    show ?thesis by (simp add: normalize_carry_def PJ_TIME_VAL_MSEC_def)
  qed (simp add: normalize_carry_def PJ_TIME_VAL_MSEC_def)
qed

lemma normalize_msec [simp]: "PJ_TIME_VAL_MSEC (pj_time_val_normalize t) = PJ_TIME_VAL_MSEC t"
  using normalize_carry_props [of t]
  by (simp add: pj_time_val_normalize_def PJ_TIME_VAL_MSEC_def case_prod_beta)

lemma normalize_range:
  assumes "0 \<le> PJ_TIME_VAL_MSEC t"
  shows "0 \<le> tv_msec (pj_time_val_normalize t) \<and> tv_msec (pj_time_val_normalize t) < 1000
    \<and> 0 \<le> tv_sec (pj_time_val_normalize t)"
  using assms normalize_carry_props [of t]
  by (auto simp: pj_time_val_normalize_def case_prod_beta)

section \<open>Rings\<close>

text \<open>Position \<open>i\<close> of a ring of \<open>m\<close> slots that starts at slot \<open>h\<close>.\<close>

definition ring_pos :: "nat \<Rightarrow> nat \<Rightarrow> nat \<Rightarrow> nat" where
  "ring_pos m h i = (h + i) mod m"

lemma ring_pos_less [simp]: "0 < m \<Longrightarrow> ring_pos m h i < m"
  by (simp add: ring_pos_def)

lemma ring_pos_if: "h < m \<Longrightarrow> i < m \<Longrightarrow> ring_pos m h i = (if h + i < m then h + i else h + i - m)"
  by (auto simp: ring_pos_def mod_if)

lemma ring_pos_inj: "h < m \<Longrightarrow> i < m \<Longrightarrow> j < m \<Longrightarrow> ring_pos m h i = ring_pos m h j \<longleftrightarrow> i = j"
  by (auto simp: ring_pos_if split: if_splits)

lemma ring_pos_advance: "ring_pos m ((h + n) mod m) i = ring_pos m h (i + n)"
  unfolding ring_pos_def mod_add_left_eq by (simp add: ac_simps)

lemma ring_pos_wrap: "m \<le> i \<Longrightarrow> ring_pos m h i = ring_pos m h (i - m)"
  unfolding ring_pos_def by (metis le_add_diff_inverse add.left_commute mod_add_self1)

lemma ring_pos_0 [simp]: "h < m \<Longrightarrow> ring_pos m h 0 = h"
  by (simp add: ring_pos_def)

text \<open>Every slot of the ring is some position.\<close>

lemma ring_pos_surj:
  assumes "h < m" and "p < m"
  obtains i where "i < m" and "ring_pos m h i = p"
proof (cases "h \<le> p")
  case True
  then show ?thesis using assms that [of "p - h"] by (simp add: ring_pos_def)
next
  case False
  then show ?thesis using assms that [of "p + m - h"] by (simp add: ring_pos_def)
qed

text \<open>A window of the ring read as the source does, in one or two contiguous pieces.\<close>

lemma ring_window_pieces:
  assumes "h < m" and "n \<le> m" and "length xs = m"
  shows "(if h + n > m then take (m - h) (drop h xs) @ take (n - (m - h)) xs else take n (drop h xs))
    = map (\<lambda>i. xs ! ring_pos m h i) [0..<n]"
proof (rule nth_equalityI)
  show "length (if h + n > m then take (m - h) (drop h xs) @ take (n - (m - h)) xs
      else take n (drop h xs)) = length (map (\<lambda>i. xs ! ring_pos m h i) [0..<n])"
    using assms by auto
next
  fix i
  assume "i < length (if h + n > m then take (m - h) (drop h xs) @ take (n - (m - h)) xs
      else take n (drop h xs))"
  then have "i < n" using assms by (auto split: if_splits)
  then show "(if h + n > m then take (m - h) (drop h xs) @ take (n - (m - h)) xs
      else take n (drop h xs)) ! i = map (\<lambda>i. xs ! ring_pos m h i) [0..<n] ! i"
    using assms by (auto simp: ring_pos_if nth_append add.commute)
qed

section \<open>Lists\<close>

lemma map_upt_shift: "map f [n..<m] = map (\<lambda>i. f (i + n)) [0..<m - n]"
  by (rule nth_equalityI) (auto simp: add.commute)

lemma count_list_replicate_other: "x \<noteq> y \<Longrightarrow> count_list (replicate n y) x = 0"
  by (induction n) auto

lemma count_list_update:
  assumes "i < length xs"
  shows "count_list (xs[i := y]) x + (if xs ! i = x then 1 else 0) = count_list xs x + (if y = x then 1 else 0)"
  using assms
proof (induction xs arbitrary: i)
  case (Cons a xs)
  show ?case
  proof (cases i)
    case (Suc j)
    then show ?thesis using Cons.IH [of j] Cons.prems by auto
  qed (use Cons.prems in auto)
qed simp

end
