(* ===== verification/Pj_String.thy ===== *)
theory Pj_String
  imports Pj_Prelude
begin

text \<open>
  Strings of PJLIB: \<^verbatim>\<open>pjlib/src/pj/string.c\<close>, \<^verbatim>\<open>pjlib/include/pj/string_i.h\<close> and \<^verbatim>\<open>pjlib/include/pj/ctype.h\<close>. A \<^verbatim>\<open>pj_str_t\<close>, a pointer and a
  length, is the list of its characters; a C string is the list of the characters from its pointer on, of which those
  before the first null count (\<open>cstr\<close>). \<^verbatim>\<open>char\<close> is signed: \<open>schar\<close> is the value it has in arithmetic, \<open>byte\<close> the
  value as \<^verbatim>\<open>unsigned char\<close>. \<^verbatim>\<open>unsigned long\<close> has 64 bits, as on every target of the application. The classes of characters are those of
  the C locale. Strings are shorter than \<open>2^32\<close>: \<^verbatim>\<open>pj_strtoul\<close> and \<^verbatim>\<open>pj_strtoul3\<close> compare their index with \<^verbatim>\<open>(unsigned)slen\<close>, and the cut that
  makes of a longer one is not modelled.
\<close>

section \<open>Characters\<close>

definition byte :: "char \<Rightarrow> int" where
  "byte c = of_char c"

definition schar :: "char \<Rightarrow> int" where
  "schar c = (if byte c < 128 then byte c else byte c - 256)"

abbreviation NUL :: char where
  "NUL \<equiv> CHR 0x00"

definition cstr :: "string \<Rightarrow> string" where
  "cstr s = takeWhile (\<lambda>c. c \<noteq> NUL) s"

definition pj_isdigit :: "char \<Rightarrow> bool" where
  "pj_isdigit c \<longleftrightarrow> 48 \<le> byte c \<and> byte c \<le> 57"

definition pj_isxdigit :: "char \<Rightarrow> bool" where
  "pj_isxdigit c \<longleftrightarrow> pj_isdigit c \<or> (65 \<le> byte c \<and> byte c \<le> 70) \<or> (97 \<le> byte c \<and> byte c \<le> 102)"

definition pj_isspace :: "char \<Rightarrow> bool" where
  "pj_isspace c \<longleftrightarrow> byte c = 32 \<or> (9 \<le> byte c \<and> byte c \<le> 13)"

definition pj_tolower :: "char \<Rightarrow> char" where
  "pj_tolower c = (if 65 \<le> byte c \<and> byte c \<le> 90 then char_of (byte c + 32) else c)"

definition pj_hex_digits :: string where
  "pj_hex_digits = ''0123456789abcdef''"

definition pj_val_to_hex_digit :: "u32 \<Rightarrow> string" where
  "pj_val_to_hex_digit v = [pj_hex_digits ! unat (drop_bit 4 (v AND 0xF0)), pj_hex_digits ! unat (v AND 0x0F)]"

definition pj_hex_digit_to_val :: "char \<Rightarrow> int" where
  "pj_hex_digit_to_val c =
     (if byte c \<le> 57 then (byte c - 48) AND 0x0F
      else if byte c \<le> 70 then (byte c - 65 + 10) AND 0x0F
      else (byte c - 97 + 10) AND 0x0F)"

section \<open>Comparison\<close>

text \<open>
  \<^verbatim>\<open>memcmp\<close>, \<^verbatim>\<open>strncmp\<close> and \<^verbatim>\<open>strncasecmp\<close> of the C library, for memory that holds at least \<open>n\<close> characters; they fix the
  sign of the result only, which is \<open>-1\<close>, \<open>0\<close> or \<open>1\<close> here. The last two stop behind a null.
\<close>

fun memcmp :: "nat \<Rightarrow> string \<Rightarrow> string \<Rightarrow> int" where
  "memcmp (Suc n) (a # s) (b # t) = (if a \<noteq> b then sgn (byte a - byte b) else memcmp n s t)"
| "memcmp _ _ _ = 0"

fun strncmp :: "nat \<Rightarrow> string \<Rightarrow> string \<Rightarrow> int" where
  "strncmp (Suc n) (a # s) (b # t) =
     (if a \<noteq> b then sgn (byte a - byte b) else if a = NUL then 0 else strncmp n s t)"
| "strncmp _ _ _ = 0"

fun strnicmp :: "nat \<Rightarrow> string \<Rightarrow> string \<Rightarrow> int" where
  "strnicmp (Suc n) (a # s) (b # t) =
     (if pj_tolower a \<noteq> pj_tolower b then sgn (byte (pj_tolower a) - byte (pj_tolower b))
      else if a = NUL then 0 else strnicmp n s t)"
| "strnicmp _ _ _ = 0"

definition pj_strcmp :: "string \<Rightarrow> string \<Rightarrow> int" where
  "pj_strcmp str1 str2 =
     (if str1 = [] then (if str2 = [] then 0 else -1)
      else if str2 = [] then 1
      else
        (let res = memcmp (min (length str1) (length str2)) str1 str2
         in if res = 0 then (if length str1 < length str2 then -1 else if length str1 = length str2 then 0 else 1) else res))"

definition pj_strncmp :: "string \<Rightarrow> string \<Rightarrow> nat \<Rightarrow> int" where
  "pj_strncmp str1 str2 len =
     (let str1 = (if len < length str1 \<and> length str1 > 0 then take len str1 else str1);
          str2 = (if len < length str2 \<and> length str2 > 0 then take len str2 else str2)
      in pj_strcmp str1 str2)"

definition pj_strcmp2 :: "string \<Rightarrow> string \<Rightarrow> int" where
  "pj_strcmp2 str1 str2 = pj_strcmp str1 (cstr str2)"

definition pj_strncmp2 :: "string \<Rightarrow> string \<Rightarrow> nat \<Rightarrow> int" where
  "pj_strncmp2 str1 str2 len = pj_strncmp str1 (cstr str2) len"

definition pj_stricmp :: "string \<Rightarrow> string \<Rightarrow> int" where
  "pj_stricmp str1 str2 =
     (if str1 = [] then (if str2 = [] then 0 else -1)
      else if str2 = [] then 1
      else
        (let res = strnicmp (min (length str1) (length str2)) str1 str2
         in if res = 0 then (if length str1 < length str2 then -1 else if length str1 = length str2 then 0 else 1) else res))"

definition pj_strnicmp :: "string \<Rightarrow> string \<Rightarrow> nat \<Rightarrow> int" where
  "pj_strnicmp str1 str2 len =
     (let str1 = (if len < length str1 \<and> length str1 > 0 then take len str1 else str1);
          str2 = (if len < length str2 \<and> length str2 > 0 then take len str2 else str2)
      in pj_stricmp str1 str2)"

definition pj_stricmp2 :: "string \<Rightarrow> string \<Rightarrow> int" where
  "pj_stricmp2 str1 str2 = pj_stricmp str1 (cstr str2)"

definition pj_strnicmp2 :: "string \<Rightarrow> string \<Rightarrow> nat \<Rightarrow> int" where
  "pj_strnicmp2 str1 str2 len = pj_strnicmp str1 (cstr str2) len"

section \<open>Searching and trimming\<close>

text \<open>The inner loop of \<^verbatim>\<open>pj_strspn\<close> counts every occurrence of the character in the set.\<close>

fun strspn_loop :: "string \<Rightarrow> string \<Rightarrow> nat \<Rightarrow> nat \<Rightarrow> nat" where
  "strspn_loop set_char [] i cnt = cnt"
| "strspn_loop set_char (c # s) i cnt =
     (if cnt \<noteq> i then cnt else strspn_loop set_char s (i + 1) (cnt + count_list set_char c))"

definition pj_strspn :: "string \<Rightarrow> string \<Rightarrow> nat" where
  "pj_strspn str set_char = strspn_loop set_char str 0 0"

definition pj_strspn2 :: "string \<Rightarrow> string \<Rightarrow> nat" where
  "pj_strspn2 str set_char = strspn_loop (cstr set_char) str 0 0"

fun pj_strcspn :: "string \<Rightarrow> string \<Rightarrow> nat" where
  "pj_strcspn [] set_char = 0"
| "pj_strcspn (c # s) set_char = (if c \<in> set set_char then 0 else 1 + pj_strcspn s set_char)"

definition pj_strcspn2 :: "string \<Rightarrow> string \<Rightarrow> nat" where
  "pj_strcspn2 str set_char = pj_strcspn str (cstr set_char)"

text \<open>
  \<^verbatim>\<open>pj_strtok\<close> gives the index of the token, or the length of the string when there is none, and the token as the place it
  starts at (\<open>None\<close>: the pointer is left alone) and its length.
\<close>

definition pj_strtok :: "string \<Rightarrow> string \<Rightarrow> nat \<Rightarrow> nat \<times> nat option \<times> nat" where
  "pj_strtok str delim start_idx =
     (if length str \<le> 0 \<or> length str < start_idx then (length str, None, 0)
      else
        (let str_idx = pj_strspn (drop start_idx str) delim
         in if start_idx + str_idx = length str then (length str, Some start_idx, length str - start_idx)
            else (start_idx + str_idx, Some (start_idx + str_idx), pj_strcspn (drop (start_idx + str_idx) str) delim)))"

definition pj_strtok2 :: "string \<Rightarrow> string \<Rightarrow> nat \<Rightarrow> nat \<times> nat option \<times> nat" where
  "pj_strtok2 str delim start_idx = pj_strtok str (cstr delim) start_idx"

text \<open>The loop of \<^verbatim>\<open>pj_strstr\<close> and \<^verbatim>\<open>pj_stristr\<close> from place \<open>i\<close> on, with the comparison as argument.\<close>

function strstr_loop :: "(nat \<Rightarrow> string \<Rightarrow> string \<Rightarrow> int) \<Rightarrow> string \<Rightarrow> string \<Rightarrow> nat \<Rightarrow> nat option" where
  "strstr_loop cmp str substr i =
     (if i + length substr \<le> length str then
        (if cmp (length substr) (drop i str) substr = 0 then Some i else strstr_loop cmp str substr (i + 1))
      else None)"
  by pat_completeness auto
termination
  by (relation "measure (\<lambda>(cmp, str, substr, i). length str + 1 - (i + length substr))") auto

declare strstr_loop.simps [simp del]

definition pj_strstr :: "string \<Rightarrow> string \<Rightarrow> nat option" where
  "pj_strstr str substr =
     (if str = [] then None else if substr = [] then Some 0 else strstr_loop strncmp str substr 0)"

definition pj_stristr :: "string \<Rightarrow> string \<Rightarrow> nat option" where
  "pj_stristr str substr =
     (if str = [] then None else if substr = [] then Some 0 else strstr_loop strnicmp str substr 0)"

definition pj_strltrim :: "string \<Rightarrow> string" where
  "pj_strltrim str = dropWhile pj_isspace str"

text \<open>The loop of \<^verbatim>\<open>pj_strrtrim\<close> looks at the last character first.\<close>

fun rtrim_len :: "string \<Rightarrow> nat \<Rightarrow> nat" where
  "rtrim_len str 0 = 0"
| "rtrim_len str (Suc n) = (if pj_isspace (str ! n) then rtrim_len str n else Suc n)"

definition pj_strrtrim :: "string \<Rightarrow> string" where
  "pj_strrtrim str = take (rtrim_len str (length str)) str"

definition pj_strtrim :: "string \<Rightarrow> string" where
  "pj_strtrim str = pj_strrtrim (pj_strltrim str)"

section \<open>Copying\<close>

text \<open>
  These functions write into the memory \<open>buf\<close> of the destination; a write behind its end is
  \<open>None\<close>. The other results are the memory afterwards and the new length.
\<close>

definition mem_write :: "string \<Rightarrow> nat \<Rightarrow> string \<Rightarrow> string option" where
  "mem_write buf i s = (if i + length s \<le> length buf then Some (take i buf @ s @ drop (i + length s) buf) else None)"

definition pj_strncpy :: "string \<Rightarrow> string \<Rightarrow> int \<Rightarrow> (string \<times> nat) option" where
  "pj_strncpy buf src max0 =
     (let m = nat (min max0 (int (length src)))
      in map_option (\<lambda>buf. (buf, m)) (mem_write buf 0 (take m src)))"

definition pj_strncpy_with_null :: "string \<Rightarrow> string \<Rightarrow> int \<Rightarrow> (string \<times> nat) option" where
  "pj_strncpy_with_null buf src max0 =
     (let m = nat (if max0 \<le> int (length src) then (if max0 > 0 then max0 - 1 else 0) else int (length src))
      in map_option (\<lambda>buf. (buf, m)) (mem_write buf 0 (take m src @ [NUL])))"

definition pj_strcpy :: "string \<Rightarrow> string \<Rightarrow> (string \<times> nat) option" where
  "pj_strcpy buf src = map_option (\<lambda>buf. (buf, length src)) (mem_write buf 0 src)"

definition pj_strcpy2 :: "string \<Rightarrow> string option \<Rightarrow> (string \<times> nat) option" where
  "pj_strcpy2 buf src = pj_strcpy buf (case src of None \<Rightarrow> [] | Some s \<Rightarrow> cstr s)"

definition pj_strcat :: "string \<Rightarrow> nat \<Rightarrow> string \<Rightarrow> (string \<times> nat) option" where
  "pj_strcat buf slen src =
     (if length src > 0 then map_option (\<lambda>buf. (buf, slen + length src)) (mem_write buf slen src) else Some (buf, slen))"

definition pj_strcat2 :: "string \<Rightarrow> nat \<Rightarrow> string option \<Rightarrow> (string \<times> nat) option" where
  "pj_strcat2 buf slen src = pj_strcat buf slen (case src of None \<Rightarrow> [] | Some s \<Rightarrow> cstr s)"

text \<open>\<open>rand\<close> is the sequence of what \<^verbatim>\<open>pj_rand\<close> gives: one number for eight digits, and one for each digit that remains.\<close>

definition pj_create_random_string :: "nat \<Rightarrow> (nat \<Rightarrow> u32) \<Rightarrow> string" where
  "pj_create_random_string len rand =
     concat (map (\<lambda>i. let v = rand i
                       in pj_val_to_hex_digit (drop_bit 24 (v AND 0xFF000000))
                          @ pj_val_to_hex_digit (drop_bit 16 (v AND 0x00FF0000))
                          @ pj_val_to_hex_digit (drop_bit 8 (v AND 0x0000FF00))
                          @ pj_val_to_hex_digit (v AND 0x000000FF)) [0 ..< len div 8])
     @ map (\<lambda>i. pj_hex_digits ! unat (rand (len div 8 + (i - len div 8 * 8)) AND 0x0F)) [len div 8 * 8 ..< len]"

section \<open>Numbers\<close>

definition PJ_MAXULONG :: u64 where
  "PJ_MAXULONG = 0xFFFFFFFFFFFFFFFF"

definition PJ_MAXLONG :: int where
  "PJ_MAXLONG = 0x7FFFFFFFFFFFFFFF"

definition PJ_MINLONG :: int where
  "PJ_MINLONG = - PJ_MAXLONG - 1"

fun strtoul_loop :: "u64 \<Rightarrow> string \<Rightarrow> u64" where
  "strtoul_loop v [] = v"
| "strtoul_loop v (c # s) = (if \<not> pj_isdigit c then v else strtoul_loop (v * 10 + word_of_int (schar c - 48)) s)"

definition pj_strtoul :: "string \<Rightarrow> u64" where
  "pj_strtoul str = strtoul_loop 0 str"

definition pj_strtol :: "string \<Rightarrow> int" where
  "pj_strtol str =
     (case str of
        [] \<Rightarrow> sint (pj_strtoul str)
      | c # s \<Rightarrow>
          if c = CHR ''+'' \<or> c = CHR ''-''
          then (if c = CHR ''-'' then - sint (pj_strtoul s) else sint (pj_strtoul s))
          else sint (pj_strtoul str))"

text \<open>\<^verbatim>\<open>pj_strtoul2\<close>: the value, and the rest of the string for \<^verbatim>\<open>endptr\<close>. The digit is computed in \<^verbatim>\<open>unsigned\<close>.\<close>

fun strtoul2_dec :: "u32 \<Rightarrow> u64 \<Rightarrow> string \<Rightarrow> u64 \<times> string" where
  "strtoul2_dec base v [] = (v, [])"
| "strtoul2_dec base v (ch # s) =
     (let c = word_of_int (schar ch - 48) :: u32
      in if c \<ge> base then (v, ch # s) else strtoul2_dec base (v * ucast base + ucast c) s)"

fun strtoul2_hex :: "u64 \<Rightarrow> string \<Rightarrow> u64 \<times> string" where
  "strtoul2_hex v [] = (v, [])"
| "strtoul2_hex v (ch # s) =
     (if \<not> pj_isxdigit ch then (v, ch # s) else strtoul2_hex (v * 16 + word_of_int (pj_hex_digit_to_val ch)) s)"

definition pj_strtoul2 :: "string \<Rightarrow> u32 \<Rightarrow> u64 \<times> string" where
  "pj_strtoul2 str base =
     (if base \<le> 10 then strtoul2_dec base 0 str
      else if base = 16 then strtoul2_hex 0 str
      else (0xFFFFFFFF, str))"

text \<open>
  \<^verbatim>\<open>pj_strtoul3\<close> for base 2 to 10 and 16: the status and what it stores, if anything. \<open>strtoul3_digit\<close> is the body of both loops behind the
  test for a digit.
\<close>

definition strtoul3_digit :: "u64 \<Rightarrow> u64 \<Rightarrow> u64 \<Rightarrow> u64 option" where
  "strtoul3_digit base v c =
     (if v > PJ_MAXULONG div base then None
      else (let v = v * base in if PJ_MAXULONG - v < c then None else Some (v + c)))"

definition is_digit_of :: "u32 \<Rightarrow> char \<Rightarrow> bool" where
  "is_digit_of base ch \<longleftrightarrow>
     (if base \<le> 10 then \<not> (schar ch < 48 \<or> word_of_int (schar ch) > (47 + base)) else pj_isxdigit ch)"

definition digit_of :: "u32 \<Rightarrow> char \<Rightarrow> u64" where
  "digit_of base ch = (if base \<le> 10 then ucast (word_of_int (schar ch - 48) :: u32) else word_of_int (pj_hex_digit_to_val ch))"

fun strtoul3_loop :: "u32 \<Rightarrow> u64 \<Rightarrow> string \<Rightarrow> pj_status \<times> u64" where
  "strtoul3_loop base v [] = (PJ_SUCCESS, v)"
| "strtoul3_loop base v (ch # s) =
     (if \<not> is_digit_of base ch then (PJ_SUCCESS, v)
      else case strtoul3_digit (ucast base) v (digit_of base ch) of
             None \<Rightarrow> (PJ_ETOOBIG, PJ_MAXULONG)
           | Some v \<Rightarrow> strtoul3_loop base v s)"

definition pj_strtoul3 :: "string \<Rightarrow> u32 \<Rightarrow> pj_status \<times> u64 option" where
  "pj_strtoul3 str base =
     (case pj_strltrim str of
        [] \<Rightarrow> (PJ_EINVAL, None)
      | ch # s \<Rightarrow>
          if schar ch < 48 \<or> (base \<le> 10 \<and> word_of_int (schar ch) > (47 + base)) \<or> (base = 16 \<and> \<not> pj_isxdigit ch)
          then (PJ_EINVAL, None)
          else if base \<le> 10 \<or> base = 16 then map_prod id Some (strtoul3_loop base 0 (ch # s))
          else (PJ_EINVAL, Some 0))"

definition pj_strtol2 :: "string \<Rightarrow> pj_status \<times> int option" where
  "pj_strtol2 str =
     (case pj_strltrim str of
        [] \<Rightarrow> (PJ_EINVAL, None)
      | ch # t \<Rightarrow>
          (let (is_negative, s) = (if ch = CHR ''+'' \<or> ch = CHR ''-'' then (ch = CHR ''-'', t) else (False, ch # t));
               (rc, r) = pj_strtoul3 s 10;
               retval = uint (case r of None \<Rightarrow> 0 | Some v \<Rightarrow> v)
           in if rc = PJ_EINVAL then (rc, None)
              else if rc \<noteq> PJ_SUCCESS then (if is_negative then (PJ_ETOOSMALL, Some PJ_MINLONG) else (PJ_ETOOBIG, Some PJ_MAXLONG))
              else if retval > PJ_MAXLONG \<and> \<not> is_negative then (PJ_ETOOBIG, Some PJ_MAXLONG)
              else if retval > PJ_MAXLONG + 1 \<and> is_negative then (PJ_ETOOSMALL, Some PJ_MINLONG)
              else (PJ_SUCCESS, Some (if is_negative then - retval else retval))))"

text \<open>
  \<^verbatim>\<open>pj_utoa_pad\<close> writes the digits from the last to the first, pads, and turns the buffer around by swapping. The result is what the
  buffer then holds before its null, whose length is the return value.
\<close>

function utoa_digits :: "u64 \<Rightarrow> string" where
  "utoa_digits v =
     char_of (uint (v mod 10) + 48) # (if v div 10 > 0 then utoa_digits (v div 10) else [])"
  by pat_completeness auto
termination
proof (relation "measure unat")
  fix v :: u64
  assume "v div 10 > 0"
  then have "unat v \<noteq> 0" by (metis div_0 less_irrefl unat_eq_zero word_gt_0)
  then have "unat v div 10 < unat v" by simp
  then show "(v div 10, v) \<in> measure unat" by (simp add: unat_div)
qed simp

declare utoa_digits.simps [simp del]

function swap_loop :: "nat \<Rightarrow> nat \<Rightarrow> string \<Rightarrow> string" where
  "swap_loop b p xs =
     (let xs = xs[p := xs ! b, b := xs ! p]
      in if b + 1 < p - 1 then swap_loop (b + 1) (p - 1) xs else xs)"
  by pat_completeness auto
termination
  by (relation "measure (\<lambda>(b, p, xs). p - b)") auto

declare swap_loop.simps [simp del]

definition pj_utoa_pad :: "u64 \<Rightarrow> nat \<Rightarrow> char \<Rightarrow> string" where
  "pj_utoa_pad v min_dig pad =
     (let ds = utoa_digits v; ds = ds @ replicate (min_dig - length ds) pad
      in swap_loop 0 (length ds - 1) ds)"

definition pj_utoa :: "u64 \<Rightarrow> string" where
  "pj_utoa v = pj_utoa_pad v 0 NUL"

section \<open>Lemmas on characters and comparison\<close>

lemma byte_bounds [pj_bounds]: "0 \<le> byte c" "byte c < 256"
  by (cases c; simp add: byte_def)+

lemma byte_inject [simp]: "byte a = byte b \<longleftrightarrow> a = b"
  by (simp add: byte_def)

lemma byte_char_of [simp]: "byte (char_of i) = i mod 256"
  by (simp add: byte_def)

lemma byte_NUL_iff [simp]: "byte c = 0 \<longleftrightarrow> c = NUL"
  using byte_inject [of c NUL] by (simp add: byte_def del: byte_inject)

lemma byte_pj_tolower: "byte (pj_tolower c) = (if 65 \<le> byte c \<and> byte c \<le> 90 then byte c + 32 else byte c)"
  by (simp add: pj_tolower_def)

lemma pj_tolower_NUL [simp]: "pj_tolower c = NUL \<longleftrightarrow> c = NUL"
  using byte_bounds [of c] by (auto simp: byte_pj_tolower simp flip: byte_NUL_iff)

lemma pj_tolower_idem [simp]: "pj_tolower (pj_tolower c) = pj_tolower c"
  by (subst byte_inject [symmetric], simp only: byte_pj_tolower) simp

lemma sgn_byte_diff [simp]: "sgn (byte a - byte b) = 0 \<longleftrightarrow> a = b"
  by (simp add: sgn_0_0)

lemma memcmp_0: "length s = n \<Longrightarrow> length t = n \<Longrightarrow> memcmp n s t = 0 \<longleftrightarrow> s = t"
  by (induction n s t rule: memcmp.induct) auto

lemma memcmp_prefix:
  "n \<le> length s \<Longrightarrow> n \<le> length t \<Longrightarrow> memcmp n s t = memcmp n (take n s) (take n t)"
  by (induction n s t rule: memcmp.induct) auto

text \<open>The comparison without case is right when only the last character may be a null.\<close>

definition key_ok :: "string \<Rightarrow> bool" where
  "key_ok s \<longleftrightarrow> NUL \<notin> set (butlast s)"

lemma key_ok_Cons: "key_ok (c # s) \<longleftrightarrow> s = [] \<or> (c \<noteq> NUL \<and> key_ok s)"
  by (auto simp: key_ok_def)

lemma strnicmp_0:
  "length s = n \<Longrightarrow> length t = n \<Longrightarrow> key_ok s \<Longrightarrow> strnicmp n s t = 0 \<longleftrightarrow> map pj_tolower s = map pj_tolower t"
  by (induction n s t rule: strnicmp.induct) (auto simp: key_ok_Cons)

lemma strnicmp_refl: "length s = n \<Longrightarrow> length t = n \<Longrightarrow> map pj_tolower s = map pj_tolower t \<Longrightarrow> strnicmp n s t = 0"
  by (induction n s t rule: strnicmp.induct) auto

lemma strnicmp_prefix:
  "n \<le> length s \<Longrightarrow> n \<le> length t \<Longrightarrow> strnicmp n s t = strnicmp n (take n s) (take n t)"
  by (induction n s t rule: strnicmp.induct) auto

lemma strncmp_0: "length s = n \<Longrightarrow> length t = n \<Longrightarrow> key_ok s \<Longrightarrow> strncmp n s t = 0 \<longleftrightarrow> s = t"
  by (induction n s t rule: strncmp.induct) (auto simp: key_ok_Cons)

lemma pj_strcmp_0: "pj_strcmp s t = 0 \<longleftrightarrow> s = t"
  by (auto simp: pj_strcmp_def Let_def memcmp_0)

lemma pj_stricmp_0:
  assumes "key_ok s"
  shows "pj_stricmp s t = 0 \<longleftrightarrow> map pj_tolower s = map pj_tolower t"
  using assms by (auto simp: pj_stricmp_def Let_def strnicmp_0 dest: map_eq_imp_length_eq)

lemma pj_strnicmp_0:
  assumes "key_ok (take n s)"
  shows "pj_strnicmp s t n = 0 \<longleftrightarrow> map pj_tolower (take n s) = map pj_tolower (take n t)"
proof -
  have "(if n < length s \<and> length s > 0 then take n s else s) = take n s" for s :: string by auto
  then show ?thesis by (simp only: pj_strnicmp_def Let_def pj_stricmp_0 [OF assms])
qed

text \<open>The same when it is the second string that has no other null.\<close>

lemma strnicmp_0_right:
  "length s = n \<Longrightarrow> length t = n \<Longrightarrow> key_ok t \<Longrightarrow> strnicmp n s t = 0 \<longleftrightarrow> map pj_tolower s = map pj_tolower t"
  by (induction n s t rule: strnicmp.induct) (auto simp: key_ok_Cons, metis pj_tolower_NUL)

lemma pj_strnicmp_0_right:
  assumes "key_ok (take n t)"
  shows "pj_strnicmp s t n = 0 \<longleftrightarrow> map pj_tolower (take n s) = map pj_tolower (take n t)"
proof -
  have "(if n < length s \<and> length s > 0 then take n s else s) = take n s" for s :: string by auto
  moreover have "pj_stricmp u v = 0 \<longleftrightarrow> map pj_tolower u = map pj_tolower v" if "key_ok v" for u v
    using that by (auto simp: pj_stricmp_def Let_def strnicmp_0_right dest: map_eq_imp_length_eq)
  ultimately show ?thesis using assms by (simp only: pj_strnicmp_def Let_def)
qed

section \<open>Lemmas on numbers\<close>

text \<open>The number a sequence of digits stands for, without bound.\<close>

definition num_of :: "u32 \<Rightarrow> string \<Rightarrow> nat" where
  "num_of base ds = foldl (\<lambda>v c. v * unat base + unat (digit_of base c)) 0 ds"

lemma num_of_snoc [simp]: "num_of base (ds @ [c]) = num_of base ds * unat base + unat (digit_of base c)"
  by (simp add: num_of_def)

lemma num_of_Nil [simp]: "num_of base [] = 0"
  by (simp add: num_of_def)

lemma foldl_num_mono: "v \<le> foldl (\<lambda>v c. v * b + f c) v ds" if "b > 0" for v b :: nat and f :: "'c \<Rightarrow> nat"
proof (induction ds arbitrary: v)
  case (Cons d ds)
  have "v \<le> v * b + f d" using that by (simp add: trans_le_add1)
  then show ?case using Cons [of "v * b + f d"] by simp
qed simp

lemma u64_less [pj_bounds]: "unat (v :: u64) < 2 ^ 64"
  using unsigned_less [where ?'a = nat, of v] by simp

lemma unat_ucast_u64: "unat (ucast (b :: u32) :: u64) = unat b"
proof -
  have "unat b < 2 ^ 64" using unsigned_less [where ?'a = nat, of b] by simp
  then show ?thesis by (simp add: unsigned_ucast_eq take_bit_nat_eq_self)
qed

lemma ucast_word_of_int: "0 \<le> d \<Longrightarrow> d < 2 ^ 32 \<Longrightarrow> ucast (word_of_int d :: u32) = (word_of_int d :: u64)"
  by transfer (simp add: take_bit_int_eq_self)

lemma unat_of_int_u64: "0 \<le> d \<Longrightarrow> d < 2 ^ 64 \<Longrightarrow> unat (word_of_int d :: u64) = nat d"
  by (simp add: unat_eq_nat_uint uint_word_of_int_eq take_bit_int_eq_self)

lemma strtoul3_digit_spec:
  assumes "base > 0"
  shows "strtoul3_digit base v c =
           (if unat v * unat base + unat c < 2 ^ 64 then Some (v * base + c) else None)"
    and "unat v * unat base + unat c < 2 ^ 64 \<Longrightarrow> unat (v * base + c) = unat v * unat base + unat c"
proof -
  have max: "unat PJ_MAXULONG = 2 ^ 64 - 1" by (simp add: PJ_MAXULONG_def)
  have b: "unat base > 0" using assms by (simp add: word_less_nat_alt)
  have le: "v > PJ_MAXULONG div base \<longleftrightarrow> 2 ^ 64 \<le> unat v * unat base"
    using b by (simp add: word_less_nat_alt unat_div max div_less_iff_less_mult) linarith
  have mul: "unat (v * base) = unat v * unat base" if "unat v * unat base < 2 ^ 64"
    using that by (simp add: unat_word_ariths)
  have add: "PJ_MAXULONG - v * base < c \<longleftrightarrow> 2 ^ 64 \<le> unat v * unat base + unat c" if "unat v * unat base < 2 ^ 64"
  proof -
    have "unat (PJ_MAXULONG - v * base) = 2 ^ 64 - 1 - unat v * unat base"
      using that mul max by (subst unat_sub) (simp_all add: word_le_nat_alt)
    then show ?thesis using that by (simp add: word_less_nat_alt) linarith
  qed
  show "strtoul3_digit base v c = (if unat v * unat base + unat c < 2 ^ 64 then Some (v * base + c) else None)"
    using le add by (auto simp: strtoul3_digit_def Let_def)
  show "unat (v * base + c) = unat v * unat base + unat c" if "unat v * unat base + unat c < 2 ^ 64"
    using that mul by (simp add: unat_word_ariths)
qed

lemma strtoul3_loop_spec:
  assumes "base > 0"
  shows "strtoul3_loop base v s =
    (let n = foldl (\<lambda>v c. v * unat base + unat (digit_of base c)) (unat v) (takeWhile (is_digit_of base) s)
     in if n < 2 ^ 64 then (PJ_SUCCESS, of_nat n) else (PJ_ETOOBIG, PJ_MAXULONG))"
proof (induction s arbitrary: v)
  case Nil
  have "unat v < 2 ^ 64" by (rule u64_less)
  then show ?case by simp
next
  case (Cons ch s)
  have b: "(ucast base :: u64) > 0" "unat (ucast base :: u64) = unat base"
    using assms by (simp_all add: unat_ucast_u64 word_less_nat_alt)
  let ?n = "unat v * unat base + unat (digit_of base ch)"
  have big: "2 ^ 64 \<le> foldl (\<lambda>v c. v * unat base + unat (digit_of base c)) ?n ds" if "2 ^ 64 \<le> ?n" for ds
    using that by (rule order_trans) (rule foldl_num_mono, use assms in \<open>simp add: word_less_nat_alt\<close>)
  have v: "unat v < 2 ^ 64" by (rule u64_less)
  show ?case
    using strtoul3_digit_spec [OF b(1), of v "digit_of base ch"] Cons big v
    by (auto simp: b(2) Let_def not_less)
qed

text \<open>
  Digits: \<open>pj_isdigit\<close> and the tests of \<^verbatim>\<open>pj_strtoul3\<close> for base 10 agree.
\<close>

lemma is_digit_of_10: "is_digit_of 10 c \<longleftrightarrow> pj_isdigit c"
proof -
  have "word_of_int (schar c) > (57 :: u32) \<longleftrightarrow> schar c > 57" if "0 \<le> schar c"
    using that byte_bounds [of c] by (simp add: word_less_alt schar_def uint_word_of_int_eq take_bit_int_eq_self split: if_splits)
  then show ?thesis
    using byte_bounds [of c] by (auto simp: is_digit_of_def pj_isdigit_def schar_def split: if_splits)
qed

lemma digit_of_10:
  assumes "pj_isdigit c"
  shows "digit_of 10 c = word_of_int (byte c - 48)" "unat (digit_of 10 c) = nat (byte c - 48)"
    "word_of_int (schar c - 48) = (word_of_int (byte c - 48) :: u64)"
proof -
  have s: "schar c = byte c" and d: "0 \<le> byte c - 48" "byte c - 48 < 10"
    using assms by (auto simp: schar_def pj_isdigit_def)
  show "digit_of 10 c = word_of_int (byte c - 48)"
    using d by (simp add: digit_of_def s ucast_word_of_int del: of_int_diff)
  then show "unat (digit_of 10 c) = nat (byte c - 48)" using d by (simp add: unat_of_int_u64 del: of_int_diff)
  show "word_of_int (schar c - 48) = (word_of_int (byte c - 48) :: u64)" by (simp add: s)
qed

text \<open>Printing: the buffer is turned around, and its digits stand for the number.\<close>

lemma length_swap_loop [simp]: "length (swap_loop b p xs) = length xs"
  by (induction b p xs rule: swap_loop.induct) (subst swap_loop.simps, simp add: Let_def)

lemma swap_loop_nth:
  "b \<le> p \<Longrightarrow> p < length xs \<Longrightarrow> i < length xs \<Longrightarrow>
   swap_loop b p xs ! i = (if b \<le> i \<and> i \<le> p then xs ! (b + p - i) else xs ! i)"
proof (induction b p xs rule: swap_loop.induct)
  case (1 b p xs)
  let ?ys = "xs[p := xs ! b, b := xs ! p]"
  show ?case
  proof (cases "b + 1 < p - 1")
    case True
    then have "swap_loop b p xs ! i = (if b + 1 \<le> i \<and> i \<le> p - 1 then ?ys ! (b + p - i) else ?ys ! i)"
      using "1.IH" [OF refl] "1.prems" by (subst swap_loop.simps) (simp add: Let_def)
    then show ?thesis using True "1.prems" by (auto simp: nth_list_update)
  next
    case False
    then have "swap_loop b p xs = ?ys" by (subst swap_loop.simps) (simp add: Let_def)
    moreover have "i = b \<or> i = p \<or> b + p - i = i" if "b \<le> i" "i \<le> p" using False that "1.prems" by linarith
    ultimately show ?thesis using "1.prems" by (auto simp: nth_list_update)
  qed
qed

lemma swap_loop_rev: "xs \<noteq> [] \<Longrightarrow> swap_loop 0 (length xs - 1) xs = rev xs"
  by (rule nth_equalityI) (auto simp: swap_loop_nth rev_nth)

lemma utoa_digits_ne [simp]: "utoa_digits v \<noteq> []"
  by (subst utoa_digits.simps) simp

lemma pj_utoa_pad_eq:
  "pj_utoa_pad v min_dig pad = replicate (min_dig - length (utoa_digits v)) pad @ rev (utoa_digits v)"
  using swap_loop_rev [of "utoa_digits v @ replicate (min_dig - length (utoa_digits v)) pad"]
  by (simp add: pj_utoa_pad_def Let_def)

lemma pj_utoa_eq: "pj_utoa v = rev (utoa_digits v)"
  by (simp add: pj_utoa_def pj_utoa_pad_eq)

lemma uint_mod_10: "0 \<le> uint (v mod 10 :: u64)" "uint (v mod 10 :: u64) < 10"
  by (simp_all add: uint_mod)

lemma pj_utoa_unfold:
  "pj_utoa v = (if v div 10 > 0 then pj_utoa (v div 10) else []) @ [char_of (uint (v mod 10) + 48)]"
  unfolding pj_utoa_eq by (subst utoa_digits.simps) simp

lemma digit_char: "byte (char_of (uint (v mod 10 :: u64) + 48)) = uint (v mod 10) + 48"
  using uint_mod_10 [of v] by simp

lemma pj_utoa_digits: "c \<in> set (pj_utoa v) \<Longrightarrow> pj_isdigit c"
proof (induction v rule: utoa_digits.induct)
  case (1 v)
  then consider "v div 10 > 0" "c \<in> set (pj_utoa (v div 10))" | "c = char_of (uint (v mod 10) + 48)"
    using pj_utoa_unfold [of v] by (auto split: if_splits)
  then show ?case
    using 1 uint_mod_10 [of v] by cases (auto simp: pj_isdigit_def digit_char simp del: byte_char_of)
qed

lemma div10_pos: "v div 10 > 0 \<longleftrightarrow> unat v div 10 > 0" for v :: u64
  by (simp add: word_less_nat_alt unat_div)

lemma num_of_utoa: "num_of 10 (pj_utoa v) = unat v"
proof (induction v rule: utoa_digits.induct)
  case (1 v)
  have d: "pj_isdigit (char_of (uint (v mod 10) + 48))"
    using uint_mod_10 [of v] by (simp add: pj_isdigit_def digit_char del: byte_char_of)
  have last: "unat (digit_of 10 (char_of (uint (v mod 10) + 48))) = unat v mod 10"
    using digit_of_10(2) [OF d] unfolding digit_char by (simp add: uint_mod nat_mod_distrib flip: unat_eq_nat_uint)
  show ?case
  proof (cases "v div 10 > 0")
    case True
    then show ?thesis using 1 last by (subst pj_utoa_unfold) (simp add: unat_div)
  next
    case False
    then have "unat v div 10 = 0" by (simp add: div10_pos)
    then show ?thesis using False last by (subst pj_utoa_unfold) (simp add: num_of_def)
  qed
qed

lemma length_pj_utoa: "unat v < 10 ^ k \<Longrightarrow> k > 0 \<Longrightarrow> length (pj_utoa v) \<le> k"
proof (induction v arbitrary: k rule: utoa_digits.induct)
  case (1 v)
  show ?case
  proof (cases "v div 10 > 0")
    case True
    then have "unat v \<ge> 10" by (simp add: div10_pos div_greater_zero_iff)
    then have "k \<noteq> 1" using "1.prems" by auto
    then obtain j where k: "k = Suc j" "j > 0" using "1.prems" by (cases k) auto
    then have "unat (v div 10) < 10 ^ j" using "1.prems" by (simp add: unat_div div_less_iff_less_mult mult.commute)
    then show ?thesis using 1(1) [OF True, of j] True k by (subst pj_utoa_unfold) simp
  qed (use "1.prems" in \<open>subst pj_utoa_unfold, simp\<close>)
qed

section \<open>Tokens\<close>

lemma strspn_loop_stop: "i \<noteq> j \<Longrightarrow> strspn_loop set_char s i j = j"
  by (cases s) auto

lemma count_list_distinct: "distinct xs \<Longrightarrow> count_list xs c = (if c \<in> set xs then 1 else 0)"
  by (induction xs) auto

lemma strspn_loop_distinct:
  "distinct set_char \<Longrightarrow> strspn_loop set_char s i i = i + length (takeWhile (\<lambda>c. c \<in> set set_char) s)"
  by (induction s arbitrary: i) (auto simp: count_list_distinct strspn_loop_stop)

lemma pj_strspn_distinct: "distinct set_char \<Longrightarrow> pj_strspn s set_char = length (takeWhile (\<lambda>c. c \<in> set set_char) s)"
  by (simp add: pj_strspn_def strspn_loop_distinct)

lemma pj_strcspn_eq: "pj_strcspn s set_char = length (takeWhile (\<lambda>c. c \<notin> set set_char) s)"
  by (induction s) auto

lemma hd_dropWhile_takeWhile: "dropWhile P s \<noteq> [] \<Longrightarrow> takeWhile (\<lambda>c. \<not> P c) (dropWhile P s) \<noteq> []"
  by (induction s) auto

section \<open>Properties\<close>

lemma strtoul_loop_spec:
  "strtoul_loop (of_nat n) s =
     of_nat (foldl (\<lambda>v c. v * 10 + unat (digit_of 10 c)) n (takeWhile pj_isdigit s))"
proof (induction s arbitrary: n)
  case (Cons c s)
  have "of_nat n * 10 + word_of_int (schar c - 48) = (of_nat (n * 10 + unat (digit_of 10 c)) :: u64)" if "pj_isdigit c"
    using that by (simp only: digit_of_10(3)) (simp add: digit_of_10(1))
  then show ?case using Cons [of "n * 10 + unat (digit_of 10 c)"] by simp
qed simp

lemma pj_strtoul_spec: "pj_strtoul s = of_nat (num_of 10 (takeWhile pj_isdigit s))"
  using strtoul_loop_spec [of 0 s] by (simp add: pj_strtoul_def num_of_def)

lemma pj_strtoul3_spec:
  assumes "0 < base" "base \<le> 10 \<or> base = 16"
  shows "pj_strtoul3 str base =
    (let ds = takeWhile (is_digit_of base) (pj_strltrim str)
     in if ds = [] then (PJ_EINVAL, None)
        else if num_of base ds < 2 ^ 64 then (PJ_SUCCESS, Some (of_nat (num_of base ds)))
        else (PJ_ETOOBIG, Some PJ_MAXULONG))"
proof (cases "pj_strltrim str")
  case Nil
  then show ?thesis by (simp add: pj_strtoul3_def)
next
  case (Cons ch s)
  have "schar ch < 48 \<or> (base \<le> 10 \<and> word_of_int (schar ch) > (47 + base)) \<or> (base = 16 \<and> \<not> pj_isxdigit ch)
        \<longleftrightarrow> \<not> is_digit_of base ch"
    using assms(2) byte_bounds [of ch]
    by (auto simp: is_digit_of_def pj_isxdigit_def pj_isdigit_def schar_def split: if_splits)
  then show ?thesis
    using assms Cons strtoul3_loop_spec [OF assms(1), of 0 "ch # s"]
    by (auto simp: pj_strtoul3_def num_of_def Let_def)
qed

lemma pj_strtoul3_10:
  "pj_strtoul3 str 10 =
    (let ds = takeWhile pj_isdigit (pj_strltrim str)
     in if ds = [] then (PJ_EINVAL, None)
        else if num_of 10 ds < 2 ^ 64 then (PJ_SUCCESS, Some (of_nat (num_of 10 ds)))
        else (PJ_ETOOBIG, Some PJ_MAXULONG))"
proof -
  have "is_digit_of 10 = pj_isdigit" by (rule ext) (rule is_digit_of_10)
  then show ?thesis using pj_strtoul3_spec [of 10 str] by simp
qed

lemma pj_isdigit_not_space: "pj_isdigit c \<Longrightarrow> \<not> pj_isspace c"
  by (auto simp: pj_isdigit_def pj_isspace_def)

lemma takeWhile_run: "list_all P ds \<Longrightarrow> rest = [] \<or> \<not> P (hd rest) \<Longrightarrow> takeWhile P (ds @ rest) = ds"
  by (cases rest) (auto simp: list_all_iff)

lemma ltrim_digits: "list_all pj_isdigit ds \<Longrightarrow> ds \<noteq> [] \<Longrightarrow> pj_strltrim (ds @ rest) = ds @ rest"
  by (cases ds) (auto simp: pj_strltrim_def pj_isdigit_not_space)

text \<open>
C29. The digits that pj_utoa prints for an unsigned long are digits only, at most twenty, and are
read back as that number by pj_strtoul and pj_strtoul3 in base ten, whatever follows them that
does not begin with a digit.
\<close>

theorem string_number_roundtrip:
  assumes "rest = [] \<or> \<not> pj_isdigit (hd rest)"
  shows "pj_strtoul (pj_utoa v @ rest) = v \<and> pj_strtoul3 (pj_utoa v @ rest) 10 = (PJ_SUCCESS, Some v)
    \<and> list_all pj_isdigit (pj_utoa v) \<and> length (pj_utoa v) \<le> 20"
proof -
  have d: "list_all pj_isdigit (pj_utoa v)" "pj_utoa v \<noteq> []"
    by (auto simp: list_all_iff pj_utoa_digits pj_utoa_eq)
  note tw = takeWhile_run [OF d(1) assms]
  have "length (pj_utoa v) \<le> 20" using u64_less [of v] by (intro length_pj_utoa) simp_all
  then show ?thesis
    using d u64_less [of v] by (simp add: pj_strtoul_spec pj_strtoul3_10 ltrim_digits [OF d] tw num_of_utoa Let_def)
qed

theorem string_number_roundtrip_witness:
  "pj_strtoul (pj_utoa 4294967296 @ '' rest'') = 4294967296 \<and> pj_utoa 4294967296 = ''4294967296''"
  using string_number_roundtrip [of "'' rest''" 4294967296] by (simp add: pj_isdigit_def byte_def) code_simp

text \<open>
C30. pj_strtol2 on white space, an optional sign and a sequence of digits gives the number they
stand for when it fits a long, and otherwise the nearest bound of long with the error that says on
which side it lies.
\<close>

theorem pj_strtol2_exact:
  assumes "list_all pj_isspace sp" "sign \<in> {'''', ''+'', ''-''}" "ds \<noteq> []" "list_all pj_isdigit ds"
    and "rest = [] \<or> \<not> pj_isdigit (hd rest)"
  shows "pj_strtol2 (sp @ sign @ ds @ rest) =
    (let n = (if sign = ''-'' then - int (num_of 10 ds) else int (num_of 10 ds))
     in if n > PJ_MAXLONG then (PJ_ETOOBIG, Some PJ_MAXLONG)
        else if n < PJ_MINLONG then (PJ_ETOOSMALL, Some PJ_MINLONG)
        else (PJ_SUCCESS, Some n))"
proof -
  obtain d t where ds: "ds = d # t" using assms(3) by (cases ds) auto
  have d: "pj_isdigit d" "d \<noteq> CHR ''+''" "d \<noteq> CHR ''-''" "\<not> pj_isspace d"
    using assms(4) by (auto simp: ds pj_isdigit_def pj_isspace_def byte_def)
  have sign: "\<not> pj_isspace CHR ''+''" "\<not> pj_isspace CHR ''-''" by (simp_all add: pj_isspace_def byte_def)
  have trim: "pj_strltrim (sp @ c # s) = c # s" if "\<not> pj_isspace c" for c s
    using assms(1) that by (simp add: pj_strltrim_def list_all_iff dropWhile_append2)
  have tw: "takeWhile pj_isdigit (d # t @ rest) = d # t"
    using takeWhile_run [OF assms(4,5)] by (simp add: ds)
  have r: "pj_strtoul3 (d # t @ rest) 10 =
      (if num_of 10 ds < 2 ^ 64 then (PJ_SUCCESS, Some (of_nat (num_of 10 ds))) else (PJ_ETOOBIG, Some PJ_MAXULONG))"
    using tw d by (simp add: pj_strtoul3_10 pj_strltrim_def ds Let_def)
  have u: "uint (of_nat (num_of 10 ds) :: u64) = int (num_of 10 ds)" if "num_of 10 ds < 2 ^ 64"
    using that by (simp add: uint_nat unat_of_nat)
  define n where "n = num_of 10 ds"
  note defs = pj_strtol2_def Let_def PJ_MAXLONG_def PJ_MINLONG_def
  consider "sign = ''''" | "sign = ''+''" | "sign = ''-''" using assms(2) by blast
  then show ?thesis
  proof cases
    case 1
    have "sp @ sign @ ds @ rest = sp @ d # t @ rest" by (simp add: 1 ds)
    then show ?thesis using 1 d r u by (simp add: defs trim flip: n_def)
  next
    case 2
    have "sp @ sign @ ds @ rest = sp @ CHR ''+'' # d # t @ rest" by (simp add: 2 ds)
    then show ?thesis using 2 sign r u by (simp add: defs trim flip: n_def)
  next
    case 3
    have "sp @ sign @ ds @ rest = sp @ CHR ''-'' # d # t @ rest" by (simp add: 3 ds)
    then show ?thesis using 3 sign r u by (simp add: defs trim flip: n_def)
  qed
qed

theorem pj_strtok_finds:
  assumes "distinct delim" "start \<le> length str" "\<exists>c \<in> set (drop start str). c \<notin> set delim"
  shows "\<exists>pre tok post. drop start str = pre @ tok @ post \<and> set pre \<subseteq> set delim \<and> tok \<noteq> [] \<and> set tok \<inter> set delim = {}
           \<and> (post = [] \<or> hd post \<in> set delim)
           \<and> pj_strtok str delim start = (start + length pre, Some (start + length pre), length tok)"
proof -
  define rest where "rest = drop start str"
  define pre where "pre = takeWhile (\<lambda>c. c \<in> set delim) rest"
  define s where "s = dropWhile (\<lambda>c. c \<in> set delim) rest"
  define tok where "tok = takeWhile (\<lambda>c. c \<notin> set delim) s"
  have rest: "rest = pre @ s" by (simp add: pre_def s_def)
  have s: "s \<noteq> []" using assms(3) by (auto simp: s_def rest_def)
  have len: "length str = start + length pre + length s"
    using assms(2) arg_cong [OF rest, of length] by (simp add: rest_def)
  have "pj_strspn rest delim = length pre" by (simp add: pj_strspn_distinct assms(1) pre_def)
  moreover have "drop (start + length pre) str = s"
    using rest by (metis add.commute append_eq_conv_conj drop_drop rest_def)
  ultimately have "pj_strtok str delim start = (start + length pre, Some (start + length pre), length tok)"
    using s len by (auto simp: pj_strtok_def Let_def pj_strcspn_eq tok_def simp flip: rest_def)
  moreover have "rest = pre @ tok @ dropWhile (\<lambda>c. c \<notin> set delim) s" by (simp add: rest tok_def)
  moreover have "tok \<noteq> []" using s hd_dropWhile_takeWhile [of "\<lambda>c. c \<in> set delim" rest] by (simp add: tok_def s_def)
  moreover have "set pre \<subseteq> set delim" "set tok \<inter> set delim = {}"
    by (auto simp: pre_def tok_def dest: set_takeWhileD)
  moreover have "dropWhile (\<lambda>c. c \<notin> set delim) s = [] \<or> hd (dropWhile (\<lambda>c. c \<notin> set delim) s) \<in> set delim"
    using hd_dropWhile [of "\<lambda>c. c \<notin> set delim" s] by auto
  ultimately show ?thesis unfolding rest_def by blast
qed

theorem pj_strtok_repeated_delimiter:
  "pj_strtok '',b'' '',,'' 0 = (2, Some 0, 2)"
  by code_simp

theorem pj_strtol2_exact_witness:
  "num_of 10 ''9223372036854775809'' = 2 ^ 63 + 1
   \<and> pj_strtol2 ('' '' @ ''-'' @ ''9223372036854775809'' @ '','') = (PJ_ETOOSMALL, Some PJ_MINLONG)"
proof -
  have n: "num_of 10 ''9223372036854775809'' = 2 ^ 63 + 1"
    by (simp add: num_of_def digit_of_10(2) pj_isdigit_def byte_def)
  then show ?thesis
    using pj_strtol2_exact [of "'' ''" "''-''" "''9223372036854775809''" "'',''"]
    by (simp add: pj_isdigit_def pj_isspace_def byte_def PJ_MAXLONG_def PJ_MINLONG_def)
qed

theorem pj_strtok_finds_witness:
  "\<exists>pre tok post. '' ,ab c'' = pre @ tok @ post \<and> pj_strtok '' ,ab c'' '', '' 0 = (length pre, Some (length pre), length tok)
    \<and> pj_strtok '' ,ab c'' '', '' 0 = (2, Some 2, 2)"
proof -
  have "pj_strtok '' ,ab c'' '', '' 0 = (2, Some 2, 2)" by code_simp
  then show ?thesis using pj_strtok_finds [of "'', ''" 0 "'' ,ab c''"] by auto
qed

end
