(* ===== verification/Pj_Hash.thy ===== *)
theory Pj_Hash
  imports Pj_String
begin

text \<open>
  The hash table of PJLIB, \<^verbatim>\<open>pjlib/src/pj/hash.c\<close>. A table is an array of chains of entries; the pointer to the place where an
  entry is linked, \<^verbatim>\<open>p_entry\<close>, is its position in its chain, and the end of the chain where none matches. Values are pointers
  that are not null. The key an entry refers to is the memory it had when it was entered: with a pool it is a copy, without one
  the caller must leave it alone, as the interface demands.
\<close>

section \<open>Model\<close>

record 'v pj_hash_entry =
  he_key :: string
  he_hash :: u32
  he_keylen :: nat
  he_value :: 'v

record 'v pj_hash_table =
  ht_table :: "'v pj_hash_entry list list"
  ht_count :: nat
  ht_rows :: u32

definition PJ_HASH_MULTIPLIER :: u32 where
  "PJ_HASH_MULTIPLIER = 33"

text \<open>The length of a key is \<open>None\<close> for \<^verbatim>\<open>PJ_HASH_KEY_STRING\<close>, a key that ends with a null.\<close>

definition key_chars :: "string \<Rightarrow> nat option \<Rightarrow> string" where
  "key_chars key keylen = (case keylen of None \<Rightarrow> cstr key | Some n \<Rightarrow> take n key)"

fun hash_loop :: "(char \<Rightarrow> char) \<Rightarrow> u32 \<Rightarrow> string \<Rightarrow> u32" where
  "hash_loop f hash [] = hash"
| "hash_loop f hash (c # s) = hash_loop f (hash * PJ_HASH_MULTIPLIER + word_of_int (byte (f c))) s"

definition pj_hash_calc :: "u32 \<Rightarrow> string \<Rightarrow> nat option \<Rightarrow> u32" where
  "pj_hash_calc hash key keylen = hash_loop (\<lambda>c. c) hash (key_chars key keylen)"

text \<open>The second result is what is stored at \<^verbatim>\<open>result\<close>, if that is not null.\<close>

fun pj_hash_calc_tolower :: "u32 \<Rightarrow> string \<Rightarrow> u32 \<times> string" where
  "pj_hash_calc_tolower hval [] = (hval, [])"
| "pj_hash_calc_tolower hval (c # s) =
     (let lower = pj_tolower c;
          (hval, result) = pj_hash_calc_tolower (hval * PJ_HASH_MULTIPLIER + word_of_int (byte lower)) s
      in (hval, lower # result))"

text \<open>
  The loop that finds the number of rows doubles a 32-bit number until it has reached the size; it does not end (\<open>None\<close>) when
  the size is above \<open>2\<^sup>3\<^sup>1\<close>, where the number becomes zero.
\<close>

partial_function (option) table_size_loop :: "u32 \<Rightarrow> u32 \<Rightarrow> u32 option" where
  "table_size_loop sz table_size =
     (let table_size = push_bit 1 table_size
      in if table_size < sz then table_size_loop sz table_size else Some table_size)"

declare table_size_loop.simps [code]

definition pj_hash_create :: "u32 \<Rightarrow> 'v pj_hash_table option" where
  "pj_hash_create sz =
     map_option (\<lambda>table_size. \<lparr>ht_table = replicate (unat table_size) [], ht_count = 0, ht_rows = table_size - 1\<rparr>)
       (table_size_loop sz 8)"

text \<open>
  \<^verbatim>\<open>find_entry\<close>: the hash of the key (taken from \<open>hval\<close> unless that is zero), which is what the caller gets back, and the row and
  the place in the chain.
\<close>

definition key_hash :: "string \<Rightarrow> u32 \<Rightarrow> bool \<Rightarrow> u32" where
  "key_hash key hval lower = (if hval \<noteq> 0 then hval else hash_loop (if lower then pj_tolower else (\<lambda>c. c)) 0 key)"

definition entry_matches :: "u32 \<Rightarrow> string \<Rightarrow> bool \<Rightarrow> 'v pj_hash_entry \<Rightarrow> bool" where
  "entry_matches hash key lower entry \<longleftrightarrow>
     he_hash entry = hash \<and> he_keylen entry = length key
     \<and> ((lower \<and> strnicmp (length key) (he_key entry) key = 0) \<or> (\<not> lower \<and> memcmp (length key) (he_key entry) key = 0))"

fun scan_chain :: "('e \<Rightarrow> bool) \<Rightarrow> 'e list \<Rightarrow> nat" where
  "scan_chain match [] = 0"
| "scan_chain match (e # es) = (if match e then 0 else 1 + scan_chain match es)"

definition hash_row :: "'v pj_hash_table \<Rightarrow> u32 \<Rightarrow> nat" where
  "hash_row ht hash = unat (hash AND ht_rows ht)"

text \<open>
  The entry is created at the end of the chain when the key is not there and a value is given. Memory for it comes from the
  pool or from the caller; a new entry with neither is the null pointer that \<open>hash_set\<close> then follows (\<open>None\<close>).
\<close>

definition find_entry ::
    "bool \<Rightarrow> 'v pj_hash_table \<Rightarrow> string \<Rightarrow> nat option \<Rightarrow> 'v option \<Rightarrow> u32 \<Rightarrow> bool \<Rightarrow> bool
      \<Rightarrow> ('v pj_hash_table \<times> u32 \<times> nat \<times> nat) option" where
  "find_entry pool ht key0 keylen0 val hval entry_buf lower =
     (let key = key_chars key0 keylen0;
          hash = key_hash key hval lower;
          row = hash_row ht hash;
          chain = ht_table ht ! row;
          i = scan_chain (entry_matches hash key lower) chain
      in case val of
           None \<Rightarrow> Some (ht, hash, row, i)
         | Some v \<Rightarrow>
             if i < length chain then Some (ht, hash, row, i)
             else if \<not> entry_buf \<and> \<not> pool then None
             else
               (let entry = \<lparr>he_key = key, he_hash = hash, he_keylen = length key, he_value = v\<rparr>
                in Some (ht\<lparr>ht_table := (ht_table ht)[row := chain @ [entry]], ht_count := ht_count ht + 1\<rparr>, hash, row, i)))"

definition entry_at :: "'v pj_hash_table \<Rightarrow> nat \<Rightarrow> nat \<Rightarrow> 'v pj_hash_entry option" where
  "entry_at ht row i = (let chain = ht_table ht ! row in if i < length chain then Some (chain ! i) else None)"

definition hash_get :: "'v pj_hash_table \<Rightarrow> string \<Rightarrow> nat option \<Rightarrow> u32 \<Rightarrow> bool \<Rightarrow> 'v option" where
  "hash_get ht key keylen hval lower =
     (case find_entry False ht key keylen None hval False lower of
        None \<Rightarrow> None
      | Some (ht, hash, row, i) \<Rightarrow> map_option he_value (entry_at ht row i))"

definition pj_hash_get :: "'v pj_hash_table \<Rightarrow> string \<Rightarrow> nat option \<Rightarrow> u32 \<Rightarrow> 'v option" where
  "pj_hash_get ht key keylen hval = hash_get ht key keylen hval False"

definition pj_hash_get_lower :: "'v pj_hash_table \<Rightarrow> string \<Rightarrow> nat option \<Rightarrow> u32 \<Rightarrow> 'v option" where
  "pj_hash_get_lower ht key keylen hval = hash_get ht key keylen hval True"

definition hash_set ::
    "bool \<Rightarrow> 'v pj_hash_table \<Rightarrow> string \<Rightarrow> nat option \<Rightarrow> u32 \<Rightarrow> 'v option \<Rightarrow> bool \<Rightarrow> bool \<Rightarrow> 'v pj_hash_table option" where
  "hash_set pool ht key keylen hval val entry_buf lower =
     map_option
       (\<lambda>(ht, hash, row, i).
          let chain = ht_table ht ! row
          in if i < length chain then
               (case val of
                  None \<Rightarrow> ht\<lparr>ht_table := (ht_table ht)[row := take i chain @ drop (i + 1) chain], ht_count := ht_count ht - 1\<rparr>
                | Some v \<Rightarrow> ht\<lparr>ht_table := (ht_table ht)[row := chain[i := (chain ! i)\<lparr>he_value := v\<rparr>]]\<rparr>)
             else ht)
       (find_entry pool ht key keylen val hval entry_buf lower)"

definition pj_hash_set :: "bool \<Rightarrow> 'v pj_hash_table \<Rightarrow> string \<Rightarrow> nat option \<Rightarrow> u32 \<Rightarrow> 'v option \<Rightarrow> 'v pj_hash_table option" where
  "pj_hash_set pool ht key keylen hval val = hash_set pool ht key keylen hval val False False"

definition pj_hash_set_lower :: "bool \<Rightarrow> 'v pj_hash_table \<Rightarrow> string \<Rightarrow> nat option \<Rightarrow> u32 \<Rightarrow> 'v option \<Rightarrow> 'v pj_hash_table option" where
  "pj_hash_set_lower pool ht key keylen hval val = hash_set pool ht key keylen hval val False True"

definition pj_hash_set_np :: "'v pj_hash_table \<Rightarrow> string \<Rightarrow> nat option \<Rightarrow> u32 \<Rightarrow> 'v option \<Rightarrow> 'v pj_hash_table option" where
  "pj_hash_set_np ht key keylen hval val = hash_set False ht key keylen hval val True False"

definition pj_hash_set_np_lower :: "'v pj_hash_table \<Rightarrow> string \<Rightarrow> nat option \<Rightarrow> u32 \<Rightarrow> 'v option \<Rightarrow> 'v pj_hash_table option" where
  "pj_hash_set_np_lower ht key keylen hval val = hash_set False ht key keylen hval val True True"

definition pj_hash_count :: "'v pj_hash_table \<Rightarrow> nat" where
  "pj_hash_count ht = ht_count ht"

text \<open>
  An iterator is a row and the chain from the current entry on, which is what the pointer to an entry reaches; \<open>None\<close> is the
  null pointer the functions return at the end.
\<close>

type_synonym 'v pj_hash_iterator = "nat \<times> 'v pj_hash_entry list"

function next_row :: "'v pj_hash_table \<Rightarrow> nat \<Rightarrow> 'v pj_hash_iterator option" where
  "next_row ht index =
     (if index \<le> unat (ht_rows ht) then
        (if ht_table ht ! index \<noteq> [] then Some (index, ht_table ht ! index) else next_row ht (index + 1))
      else None)"
  by pat_completeness auto
termination
  by (relation "measure (\<lambda>(ht, index). unat (ht_rows ht) + 1 - index)") auto

declare next_row.simps [simp del]

definition pj_hash_first :: "'v pj_hash_table \<Rightarrow> 'v pj_hash_iterator option" where
  "pj_hash_first ht = next_row ht 0"

definition pj_hash_next :: "'v pj_hash_table \<Rightarrow> 'v pj_hash_iterator \<Rightarrow> 'v pj_hash_iterator option" where
  "pj_hash_next ht it = (if tl (snd it) \<noteq> [] then Some (fst it, tl (snd it)) else next_row ht (fst it + 1))"

definition pj_hash_this :: "'v pj_hash_iterator \<Rightarrow> 'v" where
  "pj_hash_this it = he_value (hd (snd it))"

section \<open>Chains and rows\<close>

lemma scan_chain_eq: "scan_chain P es = length (takeWhile (\<lambda>e. \<not> P e) es)"
  by (induction es) auto

lemma scan_chain_cases:
  obtains (none) "scan_chain P es = length es" "\<forall>e \<in> set es. \<not> P e"
  | (found) a e b where "es = a @ e # b" "scan_chain P es = length a" "P e" "\<forall>x \<in> set a. \<not> P x"
proof (cases "\<exists>e \<in> set es. P e")
  case True
  then obtain a e b where "es = a @ e # b" "P e" "\<forall>x \<in> set a. \<not> P x" by (metis split_list_first_prop)
  then show ?thesis using that(2) by (simp add: scan_chain_eq takeWhile_append)
next
  case False
  then show ?thesis using that(1) by (metis scan_chain_eq takeWhile_eq_all_conv)
qed

text \<open>Rows of key-value pairs, where \<open>g\<close> gives the row of a key.\<close>

definition rows_ok :: "('k \<Rightarrow> nat) \<Rightarrow> ('k \<times> 'v) list list \<Rightarrow> bool" where
  "rows_ok g rows \<longleftrightarrow>
     (\<forall>k. g k < length rows) \<and> (\<forall>i < length rows. distinct (map fst (rows ! i)) \<and> (\<forall>x \<in> set (rows ! i). g (fst x) = i))"

lemma in_concat_nth: "x \<in> set (concat rows) \<longleftrightarrow> (\<exists>i < length rows. x \<in> set (rows ! i))"
  by (simp add: in_set_conv_nth [of _ rows] set_eq_iff [symmetric]) (metis nth_mem in_set_conv_nth)

lemma rows_ok_distinct:
  assumes "rows_ok g rows"
  shows "distinct (map fst (concat rows))"
proof -
  have "distinct (map fst (concat (take n rows)))" if "n \<le> length rows" for n
    using that
  proof (induction n)
    case (Suc n)
    have "fst x \<noteq> fst y" if x: "x \<in> set (concat (take n rows))" and y: "y \<in> set (rows ! n)" for x y
    proof -
      obtain i where "i < n" "x \<in> set (rows ! i)" using iffD1 [OF in_concat_nth x] Suc.prems by auto
      then have "g (fst x) = i" using assms Suc.prems by (simp add: rows_ok_def)
      moreover have "g (fst y) = n" using assms Suc.prems y by (simp add: rows_ok_def)
      ultimately show ?thesis using \<open>i < n\<close> by auto
    qed
    then have "fst ` set (concat (take n rows)) \<inter> fst ` set (rows ! n) = {}" by blast
    then show ?case using Suc assms by (simp add: take_Suc_conv_app_nth rows_ok_def)
  qed simp
  then show ?thesis by (metis order_refl take_all_iff)
qed

lemma rows_ok_lookup:
  assumes "rows_ok g rows"
  shows "map_of (concat rows) k = map_of (rows ! g k) k"
proof -
  have g: "g k < length rows" "distinct (map fst (rows ! g k))" using assms by (auto simp: rows_ok_def)
  have "map_of (concat rows) k = Some v \<longleftrightarrow> map_of (rows ! g k) k = Some v" for v
  proof -
    have "map_of (concat rows) k = Some v \<longleftrightarrow> (\<exists>i < length rows. (k, v) \<in> set (rows ! i))"
      using rows_ok_distinct [OF assms] by (simp only: map_of_eq_Some_iff in_concat_nth)
    also have "\<dots> \<longleftrightarrow> (k, v) \<in> set (rows ! g k)" using assms g by (fastforce simp: rows_ok_def)
    finally show ?thesis using g by (simp only: map_of_eq_Some_iff)
  qed
  then show ?thesis by (metis option.exhaust)
qed

lemma rows_ok_update:
  assumes "rows_ok g rows" "r < length rows" "distinct (map fst row)" "\<And>x. x \<in> set row \<Longrightarrow> g (fst x) = r"
  shows "rows_ok g (rows[r := row])"
    and "map_of (concat (rows[r := row])) k = (if g k = r then map_of row k else map_of (concat rows) k)"
proof -
  show ok: "rows_ok g (rows[r := row])" using assms by (auto simp: rows_ok_def nth_list_update)
  show "map_of (concat (rows[r := row])) k = (if g k = r then map_of row k else map_of (concat rows) k)"
    using rows_ok_lookup [OF ok, of k] rows_ok_lookup [OF assms(1), of k] assms(2) by (auto simp: nth_list_update)
qed

text \<open>The three ways in which a chain changes, on the pairs of its keys and values.\<close>

lemma chain_put:
  assumes "distinct (map fst row)" "row = a @ (k, w) # b"
  shows "distinct (map fst (row[length a := (k, v)]))" "map_of (row[length a := (k, v)]) = (map_of row)(k \<mapsto> v)"
proof -
  have "map_of a k = None" using assms by (simp add: map_of_eq_None_iff)
  then show "map_of (row[length a := (k, v)]) = (map_of row)(k \<mapsto> v)"
    using assms(2) by (auto simp: map_add_def fun_eq_iff split: option.splits)
qed (use assms in simp)

lemma chain_del:
  assumes "distinct (map fst row)" "row = a @ (k, w) # b"
  shows "distinct (map fst (take (length a) row @ drop (length a + 1) row))"
    "map_of (take (length a) row @ drop (length a + 1) row) = (map_of row)(k := None)"
proof -
  have "map_of a k = None" "map_of b k = None" using assms by (simp_all add: map_of_eq_None_iff)
  then show "map_of (take (length a) row @ drop (length a + 1) row) = (map_of row)(k := None)"
    using assms(2) by (auto simp: map_add_def fun_eq_iff split: option.splits)
qed (use assms in auto)

lemma chain_new:
  assumes "distinct (map fst row)" "k \<notin> fst ` set row"
  shows "distinct (map fst (row @ [(k, v)]))" "map_of (row @ [(k, v)]) = (map_of row)(k \<mapsto> v)"
proof -
  have "map_of row k = None" using assms by (simp add: map_of_eq_None_iff)
  then show "map_of (row @ [(k, v)]) = (map_of row)(k \<mapsto> v)"
    by (auto simp: map_add_def fun_eq_iff split: option.splits)
qed (use assms in auto)

section \<open>Invariant and abstraction\<close>

text \<open>
  A table is used either with the functions that ignore case or with those that do not. \<open>norm\<close> is what the keys are
  compared by, and \<open>ht_abs\<close> the map from such keys to values that a table stands for.
\<close>

definition norm :: "bool \<Rightarrow> string \<Rightarrow> string" where
  "norm lower key = (if lower then map pj_tolower key else key)"

definition kv :: "bool \<Rightarrow> 'v pj_hash_entry \<Rightarrow> string \<times> 'v" where
  "kv lower e = (norm lower (he_key e), he_value e)"

definition ht_pairs :: "bool \<Rightarrow> 'v pj_hash_table \<Rightarrow> (string \<times> 'v) list list" where
  "ht_pairs lower ht = map (map (kv lower)) (ht_table ht)"

definition ht_abs :: "bool \<Rightarrow> 'v pj_hash_table \<Rightarrow> string \<rightharpoonup> 'v" where
  "ht_abs lower ht = map_of (concat (ht_pairs lower ht))"

definition entry_ok :: "bool \<Rightarrow> 'v pj_hash_entry \<Rightarrow> bool" where
  "entry_ok lower e \<longleftrightarrow>
     he_keylen e = length (he_key e) \<and> he_hash e = key_hash (he_key e) 0 lower \<and> (lower \<longrightarrow> key_ok (he_key e))"

definition row_of :: "'v pj_hash_table \<Rightarrow> string \<Rightarrow> nat" where
  "row_of ht nkey = hash_row ht (hash_loop (\<lambda>c. c) 0 nkey)"

definition ht_inv :: "bool \<Rightarrow> 'v pj_hash_table \<Rightarrow> bool" where
  "ht_inv lower ht \<longleftrightarrow>
     length (ht_table ht) = unat (ht_rows ht) + 1
     \<and> rows_ok (row_of ht) (ht_pairs lower ht)
     \<and> (\<forall>row \<in> set (ht_table ht). list_all (entry_ok lower) row)
     \<and> ht_count ht = length (concat (ht_table ht))"

lemma hash_loop_map: "hash_loop f h s = hash_loop (\<lambda>c. c) h (map f s)"
  by (induction s arbitrary: h) auto

lemma key_hash_norm: "key_hash key 0 lower = hash_loop (\<lambda>c. c) 0 (norm lower key)"
  by (simp add: key_hash_def norm_def hash_loop_map [of pj_tolower])

lemma length_norm [simp]: "length (norm lower key) = length key"
  by (simp add: norm_def)

lemma entry_matches_iff:
  assumes "entry_ok lower e" "hash = key_hash key 0 lower"
  shows "entry_matches hash key lower e \<longleftrightarrow> norm lower (he_key e) = norm lower key"
proof -
  have "length (he_key e) = length key" if "norm lower (he_key e) = norm lower key"
    using that by (metis length_norm)
  moreover have "(lower \<and> strnicmp (length key) (he_key e) key = 0) \<or> (\<not> lower \<and> memcmp (length key) (he_key e) key = 0)
      \<longleftrightarrow> norm lower (he_key e) = norm lower key" if "length (he_key e) = length key"
    using that assms(1) by (auto simp: entry_ok_def strnicmp_0 memcmp_0 norm_def)
  ultimately show ?thesis
    using assms by (auto simp: entry_matches_def entry_ok_def key_hash_norm)
qed

lemma scan_matches:
  assumes "list_all (entry_ok lower) chain" "hash = key_hash key 0 lower"
  shows "scan_chain (entry_matches hash key lower) chain = scan_chain (\<lambda>p. fst p = norm lower key) (map (kv lower) chain)"
  using assms(1) by (induction chain) (auto simp: entry_matches_iff [OF _ assms(2)] kv_def)

lemma key_hash_given: "hval = 0 \<or> hval = key_hash key 0 lower \<Longrightarrow> key_hash key hval lower = key_hash key 0 lower"
  by (auto simp: key_hash_def)

lemma ht_inv_row:
  assumes "ht_inv lower ht"
  shows "row_of ht nkey < length (ht_table ht)" "list_all (entry_ok lower) (ht_table ht ! row_of ht nkey)"
    "ht_pairs lower ht ! row_of ht nkey = map (kv lower) (ht_table ht ! row_of ht nkey)"
    "hash_row ht (key_hash key 0 lower) = row_of ht (norm lower key)"
proof -
  show "row_of ht nkey < length (ht_table ht)" using assms unfolding ht_inv_def rows_ok_def ht_pairs_def by (metis length_map)
  then show "list_all (entry_ok lower) (ht_table ht ! row_of ht nkey)"
    "ht_pairs lower ht ! row_of ht nkey = map (kv lower) (ht_table ht ! row_of ht nkey)"
    using assms by (auto simp: ht_inv_def ht_pairs_def)
qed (simp add: row_of_def key_hash_norm)

text \<open>Where a key is found, in terms of the pairs: the place \<open>find_entry\<close> looks at.\<close>

lemma find_entry_eq:
  assumes "ht_inv lower ht" "hval = 0 \<or> hval = key_hash (key_chars key keylen) 0 lower"
  defines "nkey \<equiv> norm lower (key_chars key keylen)"
  shows "find_entry pool ht key keylen val hval entry_buf lower =
    (let row = row_of ht nkey; chain = ht_table ht ! row;
         i = scan_chain (\<lambda>p. fst p = nkey) (map (kv lower) chain); hash = key_hash (key_chars key keylen) 0 lower
     in if val = None \<or> i < length chain then Some (ht, hash, row, i)
        else if \<not> entry_buf \<and> \<not> pool then None
        else Some (ht\<lparr>ht_table := (ht_table ht)[row := chain @ [\<lparr>he_key = key_chars key keylen, he_hash = hash,
                       he_keylen = length (key_chars key keylen), he_value = the val\<rparr>]],
                      ht_count := ht_count ht + 1\<rparr>, hash, row, i))"
proof -
  note hash = key_hash_given [OF assms(2)]
  note row = ht_inv_row(4) [OF assms(1), of "key_chars key keylen", folded nkey_def]
  note scan = scan_matches [OF ht_inv_row(2) [OF assms(1)] refl, where key = "key_chars key keylen", folded nkey_def]
  show ?thesis by (simp add: find_entry_def hash row scan Let_def split: option.splits)
qed

lemma hash_get_abs:
  assumes "ht_inv lower ht" "hval = 0 \<or> hval = key_hash (key_chars key keylen) 0 lower"
  shows "hash_get ht key keylen hval lower = ht_abs lower ht (norm lower (key_chars key keylen))"
proof -
  let ?n = "norm lower (key_chars key keylen)"
  let ?chain = "ht_table ht ! row_of ht ?n"
  have abs: "ht_abs lower ht ?n = map_of (map (kv lower) ?chain) ?n"
    unfolding ht_abs_def using assms(1) rows_ok_lookup [of "row_of ht" "ht_pairs lower ht"] ht_inv_row(3) [OF assms(1)]
    by (simp add: ht_inv_def)
  have get: "hash_get ht key keylen hval lower =
      (let i = scan_chain (\<lambda>p. fst p = ?n) (map (kv lower) ?chain)
       in if i < length ?chain then Some (he_value (?chain ! i)) else None)"
    by (simp add: hash_get_def find_entry_eq [OF assms] entry_at_def Let_def)
  show ?thesis
  proof (cases rule: scan_chain_cases [of "\<lambda>p. fst p = ?n" "map (kv lower) ?chain"])
    case none
    then have "map_of (map (kv lower) ?chain) ?n = None" by (auto simp: map_of_eq_None_iff)
    then show ?thesis using none(1) by (simp add: get abs Let_def)
  next
    case (found a e b)
    have "length ?chain = length (a @ e # b)" using found(1) by (metis length_map)
    then have i: "length a < length ?chain" "kv lower (?chain ! length a) = e"
      using arg_cong [OF found(1), of "\<lambda>xs. xs ! length a"] by simp_all
    have "map_of a ?n = None" using found(4) by (auto simp: map_of_eq_None_iff)
    then have "map_of (map (kv lower) ?chain) ?n = Some (snd e)" using found(1,3) by (cases e) (simp add: map_add_def)
    then show ?thesis using get abs found(2) i by (auto simp: kv_def)
  qed
qed

lemma ht_inv_distinct:
  "ht_inv lower ht \<Longrightarrow> row = row_of ht nk \<Longrightarrow> distinct (map fst (map (kv lower) (ht_table ht ! row)))"
  using ht_inv_row(1,3) [of lower ht nk] unfolding ht_inv_def rows_ok_def by (metis length_map ht_pairs_def)

lemma concat_row_length:
  assumes "row < length xss"
  shows "length (concat (xss[row := xs])) + length (xss ! row) = length (concat xss) + length xs"
    "length (xss ! row) \<le> length (concat xss)"
proof -
  have c: "concat xss = concat (take row xss) @ xss ! row @ concat (drop (Suc row) xss)"
    by (subst id_take_nth_drop [OF assms]) simp
  have "concat (xss[row := xs]) = concat (take row xss) @ xs @ concat (drop (Suc row) xss)"
    by (simp add: upd_conv_take_nth_drop [OF assms])
  then show "length (concat (xss[row := xs])) + length (xss ! row) = length (concat xss) + length xs"
    "length (xss ! row) \<le> length (concat xss)"
    by (simp_all only: c length_append)
qed

text \<open>A chain replaced by one whose entries are in order leaves the table in order.\<close>

lemma ht_inv_replace:
  assumes inv: "ht_inv lower ht" and row: "row = row_of ht nkey" and ok: "list_all (entry_ok lower) chain"
    and "distinct (map fst (map (kv lower) chain))" "fst ` set (map (kv lower) chain) \<subseteq> insert nkey (fst ` set (map (kv lower) (ht_table ht ! row)))"
    and "map_of (map (kv lower) chain) = (map_of (map (kv lower) (ht_table ht ! row)))(nkey := v)"
    and cnt: "int n = int (ht_count ht) + int (length chain) - int (length (ht_table ht ! row))"
  shows "ht_inv lower (ht\<lparr>ht_table := (ht_table ht)[row := chain], ht_count := n\<rparr>)" (is "ht_inv lower ?ht")
    and "ht_abs lower (ht\<lparr>ht_table := (ht_table ht)[row := chain], ht_count := n\<rparr>) = (ht_abs lower ht)(nkey := v)"
proof -
  have rows: "rows_ok (row_of ht) (ht_pairs lower ht)" using inv by (simp add: ht_inv_def)
  have r: "row < length (ht_table ht)" using ht_inv_row(1) [OF inv] row by simp
  have pairs: "ht_pairs lower ?ht = (ht_pairs lower ht)[row := map (kv lower) chain]"
    by (simp add: ht_pairs_def map_update)
  have old: "row_of ht k = row" if "k \<in> fst ` set (map (kv lower) (ht_table ht ! row))" for k
    using rows r that by (auto simp: rows_ok_def ht_pairs_def)
  have g: "row_of ht (fst x) = row" if "x \<in> set (map (kv lower) chain)" for x
  proof -
    have "fst x \<in> insert nkey (fst ` set (map (kv lower) (ht_table ht ! row)))"
      using subsetD [OF assms(5) imageI [OF that]] .
    then show ?thesis by (rule insertE) (use row in \<open>simp only:\<close>, rule old)
  qed
  have row_of: "row_of ?ht = row_of ht" by (rule ext) (simp add: row_of_def hash_row_def)
  note upd = rows_ok_update [OF rows _ assms(4) g]
  have ok_rows: "rows_ok (row_of ?ht) (ht_pairs lower ?ht)"
    unfolding pairs row_of by (rule upd(1)) (use r in \<open>simp_all add: ht_pairs_def\<close>)
  have "n = length (concat ((ht_table ht)[row := chain]))"
    using cnt inv concat_row_length(1) [OF r, of chain] by (simp add: ht_inv_def)
  moreover have "\<forall>c \<in> set ((ht_table ht)[row := chain]). list_all (entry_ok lower) c"
    using inv ok set_update_subset_insert [of "ht_table ht" row chain] unfolding ht_inv_def by blast
  moreover have "length (ht_table ht) = unat (ht_rows ht) + 1" using inv unfolding ht_inv_def by blast
  ultimately show "ht_inv lower ?ht"
    using ok_rows by (simp add: ht_inv_def)
  show "ht_abs lower ?ht = (ht_abs lower ht)(nkey := v)"
  proof (rule ext)
    fix k
    have "ht_abs lower ?ht k = (if row_of ht k = row then map_of (map (kv lower) chain) k else ht_abs lower ht k)"
      unfolding ht_abs_def pairs by (rule upd(2)) (use r in \<open>simp_all add: ht_pairs_def\<close>)
    moreover have "ht_abs lower ht k = map_of (map (kv lower) (ht_table ht ! row)) k" if "row_of ht k = row"
      using rows_ok_lookup [OF rows, of k] that r by (simp add: ht_abs_def ht_pairs_def)
    ultimately show "ht_abs lower ?ht k = ((ht_abs lower ht)(nkey := v)) k"
      unfolding assms(6) using row [symmetric] by (cases "row_of ht k = row"; cases "k = nkey") simp_all
  qed
qed

lemma hash_set_eq:
  assumes inv: "ht_inv lower ht" and hval: "hval = 0 \<or> hval = key_hash (key_chars key keylen) 0 lower"
    and mem: "val = None \<or> pool \<or> entry_buf"
  defines "k \<equiv> key_chars key keylen" and "row \<equiv> row_of ht (norm lower (key_chars key keylen))"
  defines "chain \<equiv> ht_table ht ! row"
  defines "i \<equiv> scan_chain (\<lambda>p. fst p = norm lower k) (map (kv lower) chain)"
  shows "hash_set pool ht key keylen hval val entry_buf lower = Some
    (case val of
       None \<Rightarrow>
         if i < length chain
         then ht\<lparr>ht_table := (ht_table ht)[row := take i chain @ drop (i + 1) chain], ht_count := ht_count ht - 1\<rparr> else ht
     | Some v \<Rightarrow>
         if i < length chain then ht\<lparr>ht_table := (ht_table ht)[row := chain[i := (chain ! i)\<lparr>he_value := v\<rparr>]], ht_count := ht_count ht\<rparr>
         else ht\<lparr>ht_table := (ht_table ht)[row := chain @ [\<lparr>he_key = k, he_hash = key_hash k 0 lower, he_keylen = length k, he_value = v\<rparr>]],
                 ht_count := ht_count ht + 1\<rparr>)"
proof -
  note find = find_entry_eq [OF inv hval, of pool val entry_buf, unfolded Let_def,
      folded k_def row_def, folded chain_def, folded k_def i_def]
  have r: "row < length (ht_table ht)" using ht_inv_row(1) [OF inv] by (simp add: row_def)
  have "i \<le> length chain" unfolding i_def scan_chain_eq by (metis length_map length_takeWhile_le)
  then show ?thesis
    using find mem r by (cases val) (auto simp: hash_set_def Let_def chain_def [symmetric] nth_append list_update_append)
qed

text \<open>The three ways a table changes: a key is overwritten, removed, or new.\<close>

lemma ht_overwrite:
  fixes v :: 'v
  assumes inv: "ht_inv lower ht" and i: "row = row_of ht nk" "map (kv lower) (ht_table ht ! row) = a @ (nk, w) # b"
  defines "e \<equiv> (ht_table ht ! row ! length a)\<lparr>he_value := v\<rparr>"
  defines "ht' \<equiv> ht\<lparr>ht_table := (ht_table ht)[row := (ht_table ht ! row)[length a := e]], ht_count := ht_count ht\<rparr>"
  shows "ht_inv lower ht'" "ht_abs lower ht' = (ht_abs lower ht)(nk \<mapsto> v)"
proof -
  let ?c = "ht_table ht ! row"
  have len: "length a < length ?c" using arg_cong [OF i(2), of length] by simp
  have kv_e: "kv lower e = (nk, v)"
    using arg_cong [OF i(2), of "\<lambda>xs. xs ! length a"] len by (simp add: kv_def e_def)
  have ok: "list_all (entry_ok lower) ?c" using ht_inv_row(2) [OF inv] i(1) by simp
  then have "entry_ok lower e" using len by (simp add: list_all_length entry_ok_def e_def)
  then have okc: "list_all (entry_ok lower) (?c[length a := e])" using ok set_update_subset_insert [of ?c "length a" e] by (auto simp: list_all_iff)
  have m: "map (kv lower) (?c[length a := e]) = (map (kv lower) ?c)[length a := (nk, v)]" by (simp add: map_update kv_e)
  note put = chain_put [OF ht_inv_distinct [OF inv i(1)] i(2), of v, folded m]
  have "fst ` set (map (kv lower) (?c[length a := e])) \<subseteq> insert nk (fst ` set (map (kv lower) ?c))"
    unfolding m using set_update_subset_insert by fastforce
  then show "ht_inv lower ht'" "ht_abs lower ht' = (ht_abs lower ht)(nk \<mapsto> v)"
    unfolding ht'_def using ht_inv_replace [OF inv i(1) okc put(1) _ put(2), of "ht_count ht"] by simp_all
qed

lemma ht_remove:
  assumes inv: "ht_inv lower ht" and i: "row = row_of ht nk" "map (kv lower) (ht_table ht ! row) = a @ (nk, w) # b"
  defines "chain \<equiv> take (length a) (ht_table ht ! row) @ drop (length a + 1) (ht_table ht ! row)"
  defines "ht' \<equiv> ht\<lparr>ht_table := (ht_table ht)[row := chain], ht_count := ht_count ht - 1\<rparr>"
  shows "ht_inv lower ht'" "ht_abs lower ht' = (ht_abs lower ht)(nk := None)"
proof -
  let ?c = "ht_table ht ! row"
  have r: "row < length (ht_table ht)" using ht_inv_row(1) [OF inv] i(1) by simp
  have len: "length a < length ?c" using arg_cong [OF i(2), of length] by simp
  have sub: "set chain \<subseteq> set ?c" by (auto simp: chain_def dest: in_set_takeD in_set_dropD)
  have okc: "list_all (entry_ok lower) chain"
    using ht_inv_row(2) [OF inv] i(1) sub by (auto simp: list_all_iff)
  have m: "map (kv lower) chain = take (length a) (map (kv lower) ?c) @ drop (length a + 1) (map (kv lower) ?c)"
    by (simp add: chain_def take_map drop_map)
  note del = chain_del [OF ht_inv_distinct [OF inv i(1)] i(2), folded m]
  have "ht_count ht \<ge> length ?c" using inv concat_row_length(2) [OF r] by (simp add: ht_inv_def)
  then have "int (ht_count ht - 1) = int (ht_count ht) + int (length chain) - int (length ?c)"
    using len by (auto simp: chain_def)
  moreover have "fst ` set (map (kv lower) chain) \<subseteq> insert nk (fst ` set (map (kv lower) ?c))" using sub by auto
  ultimately show "ht_inv lower ht'" "ht_abs lower ht' = (ht_abs lower ht)(nk := None)"
    unfolding ht'_def using ht_inv_replace [OF inv i(1) okc del(1) _ del(2)] by simp_all
qed

lemma ht_insert:
  assumes inv: "ht_inv lower ht" and i: "row = row_of ht nk" "nk \<notin> fst ` set (map (kv lower) (ht_table ht ! row))"
    and e: "entry_ok lower e" "kv lower e = (nk, v)"
  defines "ht' \<equiv> ht\<lparr>ht_table := (ht_table ht)[row := ht_table ht ! row @ [e]], ht_count := ht_count ht + 1\<rparr>"
  shows "ht_inv lower ht'" "ht_abs lower ht' = (ht_abs lower ht)(nk \<mapsto> v)"
proof -
  let ?c = "ht_table ht ! row"
  have okc: "list_all (entry_ok lower) (?c @ [e])" using ht_inv_row(2) [OF inv] i(1) e by simp
  have m: "map (kv lower) (?c @ [e]) = map (kv lower) ?c @ [(nk, v)]" by (simp add: e(2))
  note new = chain_new [OF ht_inv_distinct [OF inv i(1)] i(2), of v, folded m]
  have "fst ` set (map (kv lower) (?c @ [e])) \<subseteq> insert nk (fst ` set (map (kv lower) ?c))" by (auto simp: e(2))
  then show "ht_inv lower ht'" "ht_abs lower ht' = (ht_abs lower ht)(nk \<mapsto> v)"
    unfolding ht'_def using ht_inv_replace [OF inv i(1) okc new(1) _ new(2), of "ht_count ht + 1"] by simp_all
qed

lemma hash_set_refines:
  assumes inv: "ht_inv lower ht" and hval: "hval = 0 \<or> hval = key_hash (key_chars key keylen) 0 lower"
    and mem: "val = None \<or> pool \<or> entry_buf" and ok: "val \<noteq> None \<longrightarrow> lower \<longrightarrow> key_ok (key_chars key keylen)"
  shows "\<exists>ht'. hash_set pool ht key keylen hval val entry_buf lower = Some ht' \<and> ht_inv lower ht'
           \<and> ht_abs lower ht' = (ht_abs lower ht)(norm lower (key_chars key keylen) := val)"
proof -
  define k where "k = key_chars key keylen"
  define nk where "nk = norm lower k"
  define row where "row = row_of ht nk"
  define chain where "chain = ht_table ht ! row"
  note eq = hash_set_eq [OF inv hval mem, folded k_def, folded nk_def, folded row_def, folded chain_def]
  show ?thesis
  proof (cases rule: scan_chain_cases [of "\<lambda>p. fst p = nk" "map (kv lower) chain"])
    case none
    then have fresh: "nk \<notin> fst ` set (map (kv lower) (ht_table ht ! row))" by (auto simp: chain_def)
    show ?thesis
    proof (cases val)
      case None
      have "ht_abs lower ht nk = None"
        using rows_ok_lookup [of "row_of ht" "ht_pairs lower ht" nk] inv fresh ht_inv_row(3) [OF inv, of nk]
        by (auto simp: ht_inv_def ht_abs_def row_def map_of_eq_None_iff)
      then show ?thesis using eq none None inv by (simp add: nk_def k_def fun_upd_idem)
    next
      case (Some v)
      let ?e = "\<lparr>he_key = k, he_hash = key_hash k 0 lower, he_keylen = length k, he_value = v\<rparr>"
      have "entry_ok lower ?e" "kv lower ?e = (nk, v)" using ok Some by (simp_all add: entry_ok_def kv_def nk_def k_def)
      then show ?thesis
        using eq none Some ht_insert [OF inv row_def fresh, of ?e v] by (simp add: chain_def k_def nk_def)
    qed
  next
    case (found a p b)
    then obtain w where w: "map (kv lower) (ht_table ht ! row) = a @ (nk, w) # b" by (cases p) (auto simp: chain_def)
    have "length a < length chain" using arg_cong [OF w, of length] by (simp add: chain_def)
    then show ?thesis
      using eq found(2) ht_overwrite [OF inv row_def w] ht_remove [OF inv row_def w]
      by (cases val) (simp_all add: chain_def k_def nk_def)
  qed
qed

section \<open>Creation and count\<close>

lemma unat_pow2: "m \<le> 31 \<Longrightarrow> unat (2 ^ m :: u32) = 2 ^ m"
proof -
  assume "m \<le> 31"
  then have "(2 :: nat) ^ m < 2 ^ 32" by (intro power_strict_increasing) simp_all
  then have "unat (of_nat (2 ^ m) :: u32) = 2 ^ m" by (subst unat_of_nat) (simp add: take_bit_nat_eq_self)
  then show ?thesis by simp
qed

lemma table_size_loop_pow:
  assumes "sz \<le> 2 ^ 31" "n \<le> 30"
  shows "\<exists>m. n < m \<and> m \<le> 31 \<and> table_size_loop sz (2 ^ n) = Some (2 ^ m) \<and> sz \<le> 2 ^ m \<and> (m = n + 1 \<or> 2 ^ (m - 1) < sz)"
  using assms(2)
proof (induction "30 - n" arbitrary: n)
  case 0
  then have "n = 30" by simp
  moreover have "table_size_loop sz (2 ^ 30) = Some (2 ^ 31)"
    using assms(1) by (subst table_size_loop.simps) (auto simp: Let_def push_bit_eq_mult not_less)
  ultimately show ?case using assms(1) by (intro exI [of _ 31]) simp
next
  case (Suc d)
  have dbl: "push_bit 1 (2 ^ n :: u32) = 2 ^ (n + 1)" by (simp add: push_bit_eq_mult)
  show ?case
  proof (cases "2 ^ (n + 1) < sz")
    case True
    then have "table_size_loop sz (2 ^ n) = table_size_loop sz (2 ^ (n + 1))"
      by (subst table_size_loop.simps) (simp add: Let_def dbl mult.commute)
    moreover obtain m where "n + 1 < m" "m \<le> 31" "table_size_loop sz (2 ^ (n + 1)) = Some (2 ^ m)" "sz \<le> 2 ^ m"
      "m = n + 2 \<or> 2 ^ (m - 1) < sz"
    proof -
      have "d = 30 - (n + 1)" "n + 1 \<le> 30" using Suc.hyps(2) by simp_all
      then show thesis using Suc.hyps(1) [of "n + 1"] that by (auto simp: numeral_2_eq_2)
    qed
    ultimately show ?thesis using True by (intro exI [of _ m]) auto
  next
    case False
    then have "table_size_loop sz (2 ^ n) = Some (2 ^ (n + 1))"
      by (subst table_size_loop.simps) (simp add: Let_def dbl mult.commute)
    then show ?thesis using False Suc.prems Suc.hyps(2) by (intro exI [of _ "n + 1"]) auto
  qed
qed

lemma pj_hash_create_inv:
  assumes "sz \<le> 2 ^ 31"
  obtains ht m where "pj_hash_create sz = Some ht" "ht_inv lower ht" "ht_abs lower ht = Map.empty"
    "4 \<le> m" "m \<le> 31" "unat (ht_rows ht) = 2 ^ m - 1" "unat sz \<le> 2 ^ m"
proof -
  obtain m where m: "3 < m" "m \<le> 31" "table_size_loop sz (2 ^ 3) = Some (2 ^ m)" "sz \<le> 2 ^ m"
    using table_size_loop_pow [OF assms, of 3] by auto
  have two: "unat (2 ^ m :: u32) = 2 ^ m" using m(2) by (simp add: unat_pow2)
  let ?ht = "\<lparr>ht_table = replicate (2 ^ m) [], ht_count = 0, ht_rows = 2 ^ m - 1\<rparr> :: 'v pj_hash_table"
  have rows: "unat (2 ^ m - 1 :: u32) = 2 ^ m - 1"
    using two unat_minus_one [of "2 ^ m :: u32"] by (auto simp flip: unat_0_iff)
  have "row_of ?ht k < 2 ^ m" for k
  proof -
    have "unat (hash_loop (\<lambda>c. c) 0 k AND (2 ^ m - 1)) \<le> 2 ^ m - 1"
      using rows word_and_le1 [of "hash_loop (\<lambda>c. c) 0 k" "2 ^ m - 1"] by (simp add: word_le_nat_alt)
    also have "\<dots> < 2 ^ m" by simp
    finally show ?thesis by (simp add: row_of_def hash_row_def)
  qed
  then have "ht_inv lower ?ht"
    using rows by (auto simp: ht_inv_def rows_ok_def ht_pairs_def concat_replicate_trivial)
  moreover have "ht_abs lower ?ht = Map.empty" by (simp add: ht_abs_def ht_pairs_def)
  moreover have "pj_hash_create sz = Some ?ht" using m(3) two by (simp add: pj_hash_create_def)
  moreover have "unat sz \<le> 2 ^ m" using m(4) two by (simp add: word_le_nat_alt)
  ultimately show thesis using that [of ?ht m] m rows by simp
qed

lemma table_size_loop_stuck:
  assumes "sz > 2 ^ 31"
  shows "table_size_loop sz 8 = None"
proof -
  have small: "2 ^ n < sz" if "n \<le> 31" for n
  proof -
    have "(2 :: nat) ^ n \<le> 2 ^ 31" using that by (intro power_increasing) simp_all
    then show ?thesis using assms unat_pow2 [OF that] unat_pow2 [of 31] by (simp add: word_less_nat_alt)
  qed
  define P where "P ts \<longleftrightarrow> ts = 0 \<or> (\<exists>n \<le> 31. ts = 2 ^ n)" for ts :: u32
  have step: "P (push_bit 1 ts) \<and> push_bit 1 ts < sz" if P: "P ts" for ts
  proof -
    consider "ts = 0" | n where "n < 31" "ts = 2 ^ n" | "ts = 2 ^ 31" using P by (auto simp: P_def le_less)
    then show ?thesis
    proof cases
      case (2 n)
      have "push_bit 1 ts = 2 ^ (n + 1)" by (simp add: 2 push_bit_eq_mult mult.commute)
      moreover have "P (2 ^ (n + 1))" unfolding P_def using 2(1) by (intro disjI2 exI [of _ "n + 1"]) simp
      ultimately show ?thesis using small [of "n + 1"] 2(1) by (simp only:)
    next
      case 3
      have e: "push_bit 1 ts = 0" unfolding 3 by code_simp
      show ?thesis unfolding e P_def using small [of 0] by (auto simp: word_gt_0)
    qed (use small [of 0] in \<open>auto simp: P_def word_gt_0\<close>)
  qed
  have "s = sz \<longrightarrow> P ts \<longrightarrow> False" if "table_size_loop s ts = Some y" for s ts y
  proof (rule table_size_loop.raw_induct [where P = "\<lambda>s ts y. s = sz \<longrightarrow> P ts \<longrightarrow> False", OF _ that])
    fix f s ts y
    assume IH: "\<And>s ts y. f s ts = Some y \<Longrightarrow> s = sz \<longrightarrow> P ts \<longrightarrow> False"
      and "(let table_size = push_bit 1 ts in if table_size < s then f s table_size else Some table_size) = Some (y :: u32)"
    then show "s = sz \<longrightarrow> P ts \<longrightarrow> False" using step [of ts] IH [of s "push_bit 1 ts" y] by (auto simp: Let_def)
  qed
  moreover have "P 8" unfolding P_def by (intro disjI2 exI [of _ 3]) simp
  ultimately show ?thesis by (cases "table_size_loop sz 8") auto
qed

lemma ht_count_abs:
  assumes "ht_inv lower ht"
  shows "finite (dom (ht_abs lower ht))" "ht_count ht = card (dom (ht_abs lower ht))"
proof -
  have "distinct (map fst (concat (ht_pairs lower ht)))" using assms rows_ok_distinct by (auto simp: ht_inv_def)
  then have "card (fst ` set (concat (ht_pairs lower ht))) = length (concat (ht_pairs lower ht))"
    by (metis distinct_card length_map set_map)
  moreover have "length (concat (ht_pairs lower ht)) = length (concat (ht_table ht))"
    by (simp add: ht_pairs_def length_concat comp_def)
  ultimately show "ht_count ht = card (dom (ht_abs lower ht))"
    using assms by (simp add: ht_inv_def ht_abs_def dom_map_of_conv_image_fst)
qed (simp add: ht_abs_def finite_dom_map_of)

lemma pj_hash_calc_tolower_eq: "pj_hash_calc_tolower h s = (hash_loop pj_tolower h s, map pj_tolower s)"
  by (induction h s rule: pj_hash_calc_tolower.induct) (simp_all add: Let_def)

lemma precalculated_hash: "fst (pj_hash_calc_tolower 0 key) = key_hash key 0 True"
  by (simp add: pj_hash_calc_tolower_eq key_hash_def)

section \<open>Iteration\<close>

text \<open>The loop clients write: take the first, then the next until there is none.\<close>

partial_function (option) hash_walk :: "'v pj_hash_table \<Rightarrow> 'v pj_hash_iterator option \<Rightarrow> 'v list option" where
  "hash_walk ht it =
     (case it of
        None \<Rightarrow> Some []
      | Some it \<Rightarrow> Option.bind (hash_walk ht (pj_hash_next ht it)) (\<lambda>vs. Some (pj_hash_this it # vs)))"

declare hash_walk.simps [code]

definition it_rest :: "'v pj_hash_table \<Rightarrow> 'v pj_hash_iterator option \<Rightarrow> 'v pj_hash_entry list" where
  "it_rest ht it = (case it of None \<Rightarrow> [] | Some (index, es) \<Rightarrow> es @ concat (drop (index + 1) (ht_table ht)))"

definition it_ok :: "'v pj_hash_iterator option \<Rightarrow> bool" where
  "it_ok it \<longleftrightarrow> (case it of None \<Rightarrow> True | Some (index, es) \<Rightarrow> es \<noteq> [])"

lemma next_row_rest:
  assumes "length (ht_table ht) = unat (ht_rows ht) + 1"
  shows "it_ok (next_row ht index) \<and> it_rest ht (next_row ht index) = concat (drop index (ht_table ht))"
  using assms
proof (induction ht index rule: next_row.induct)
  case (1 ht index)
  show ?case
  proof (cases "index \<le> unat (ht_rows ht)")
    case True
    then have "drop index (ht_table ht) = ht_table ht ! index # drop (index + 1) (ht_table ht)"
      using "1.prems" by (simp add: Cons_nth_drop_Suc)
    then show ?thesis using 1 True by (subst (1 2) next_row.simps) (simp add: it_rest_def it_ok_def)
  next
    case False
    then show ?thesis using "1.prems" by (subst (1 2) next_row.simps) (simp add: it_rest_def it_ok_def)
  qed
qed

lemma pj_hash_next_rest:
  assumes "length (ht_table ht) = unat (ht_rows ht) + 1" "es \<noteq> []"
  shows "it_ok (pj_hash_next ht (index, es)) \<and> it_rest ht (pj_hash_next ht (index, es)) = tl (it_rest ht (Some (index, es)))"
  using assms next_row_rest [OF assms(1), of "index + 1"]
  by (cases es; cases "tl es") (auto simp: pj_hash_next_def it_rest_def [of ht "Some _"] it_ok_def)

lemma hash_walk_all:
  assumes "length (ht_table ht) = unat (ht_rows ht) + 1" "it_ok it"
  shows "hash_walk ht it = Some (map he_value (it_rest ht it))"
  using assms(2)
proof (induction "it_rest ht it" arbitrary: it)
  case Nil
  then have "it = None" by (auto simp: it_rest_def it_ok_def split: option.splits)
  then show ?case by (subst hash_walk.simps) (simp add: it_rest_def)
next
  case (Cons e rest)
  then obtain index es where it: "it = Some (index, es)" by (auto simp: it_rest_def split: option.splits)
  then have es: "es \<noteq> []" using Cons.prems by (simp add: it_ok_def)
  note nxt = pj_hash_next_rest [OF assms(1) es, of index]
  have "hd es = e" "rest = it_rest ht (pj_hash_next ht (index, es))"
    using Cons.hyps(2) es nxt it by (auto simp: it_rest_def neq_Nil_conv)
  then have "hash_walk ht (pj_hash_next ht (index, es)) = Some (map he_value rest)" using Cons.hyps(1) nxt by metis
  then have "hash_walk ht it = Some (map he_value (e # rest))"
    using \<open>hd es = e\<close> it by (subst hash_walk.simps) (simp add: pj_hash_this_def)
  then show ?case by (simp only: Cons.hyps(2))
qed

text \<open>
  A client may remove the entry it is at, if it has taken the next one before: what is left is then a table of which that is the
  first.
\<close>

lemma next_row_cong:
  assumes "ht_rows ht' = ht_rows ht" "\<And>k. index \<le> k \<Longrightarrow> ht_table ht' ! k = ht_table ht ! k"
  shows "next_row ht' index = next_row ht index"
  using assms
proof (induction ht index rule: next_row.induct)
  case (1 ht index)
  then show ?case by (subst (1 2) next_row.simps) simp
qed

lemma next_row_found:
  assumes "next_row ht j = Some (index, es)"
  shows "j \<le> index \<and> index \<le> unat (ht_rows ht) \<and> es = ht_table ht ! index \<and> es \<noteq> []"
  using assms
proof (induction ht j rule: next_row.induct)
  case (1 ht j)
  show ?case using 1 next_row.simps [of ht j] by (auto split: if_splits)
qed

lemma next_row_del:
  assumes "next_row ht j = Some (index, es)" "length (ht_table ht) = unat (ht_rows ht) + 1"
  shows "next_row (ht\<lparr>ht_table := (ht_table ht)[index := tl es], ht_count := n\<rparr>) j = pj_hash_next ht (index, es)" (is "next_row ?ht' j = _")
  using assms
proof (induction ht j rule: next_row.induct)
  case (1 ht j)
  let ?ht' = "ht\<lparr>ht_table := (ht_table ht)[index := tl es], ht_count := n\<rparr>"
  note found = next_row_found [OF "1.prems"(1)]
  show ?case
  proof (cases "ht_table ht ! j = []")
    case True
    then have "next_row ht (j + 1) = Some (index, es)" "index \<noteq> j" using "1.prems"(1) found next_row.simps [of ht j] by (auto split: if_splits)
    then show ?thesis using 1 True found by (subst next_row.simps) simp
  next
    case False
    then have j: "index = j" "es = ht_table ht ! j" using "1.prems"(1) found next_row.simps [of ht j] by (auto split: if_splits)
    have "next_row ?ht' (j + 1) = next_row ht (j + 1)" using j by (intro next_row_cong) simp_all
    then show ?thesis using j found "1.prems"(2) by (subst next_row.simps) (auto simp: pj_hash_next_def)
  qed
qed

lemma first_after_del:
  assumes inv: "ht_inv lower ht" and first: "pj_hash_first ht = Some it" and hval: "hval = 0 \<or> hval = key_hash key 0 lower"
    and key: "norm lower key = norm lower (he_key (hd (snd it)))"
  shows "pj_hash_first (the (hash_set pool ht key (Some (length key)) hval None eb lower)) = pj_hash_next ht it"
proof -
  obtain index es where it: "it = (index, es)" by (cases it)
  have len: "length (ht_table ht) = unat (ht_rows ht) + 1" using inv by (simp add: ht_inv_def)
  have f: "index < length (ht_table ht)" "es = ht_table ht ! index" "es \<noteq> []"
    using next_row_found [OF first [unfolded pj_hash_first_def it]] len by auto
  let ?nk = "norm lower key"
  have "row_of ht (fst (kv lower (hd es))) = index"
    using inv f by (auto simp: ht_inv_def rows_ok_def ht_pairs_def)
  then have row: "row_of ht ?nk = index" using key it by (simp add: kv_def)
  have "scan_chain (\<lambda>p. fst p = ?nk) (map (kv lower) es) = 0"
    using f(3) key it by (cases es) (simp_all add: scan_chain_eq kv_def)
  then have "hash_set pool ht key (Some (length key)) hval None eb lower =
      Some (ht\<lparr>ht_table := (ht_table ht)[index := tl es], ht_count := ht_count ht - 1\<rparr>)"
    using hash_set_eq [OF inv, of hval key "Some (length key)" None pool eb] hval f row
    by (simp add: key_chars_def drop_Suc)
  then show ?thesis
    using next_row_del [OF first [unfolded pj_hash_first_def it] len] by (simp add: pj_hash_first_def it)
qed

lemma first_in_table:
  assumes "ht_inv lower ht" "pj_hash_first ht = Some it"
  shows "ht_abs lower ht (norm lower (he_key (hd (snd it)))) = Some (pj_hash_this it)"
proof -
  obtain index es where it: "it = (index, es)" by (cases it)
  have len: "length (ht_table ht) = unat (ht_rows ht) + 1" using assms(1) by (simp add: ht_inv_def)
  have f: "index < length (ht_table ht)" "es = ht_table ht ! index" "es \<noteq> []"
    using next_row_found [OF assms(2) [unfolded pj_hash_first_def it]] len by auto
  then have "kv lower (hd es) \<in> set (concat (ht_pairs lower ht))" by (auto simp: ht_pairs_def intro!: bexI [of _ "ht_table ht ! index"])
  moreover have "distinct (map fst (concat (ht_pairs lower ht)))" using assms(1) rows_ok_distinct by (auto simp: ht_inv_def)
  ultimately show ?thesis by (simp add: ht_abs_def it kv_def pj_hash_this_def)
qed

lemma first_none: "ht_inv lower ht \<Longrightarrow> pj_hash_first ht = None \<Longrightarrow> ht_abs lower ht = Map.empty"
  using next_row_rest [of ht 0] by (auto simp: ht_inv_def pj_hash_first_def it_rest_def ht_abs_def ht_pairs_def)

section \<open>The interface of a table\<close>

text \<open>
  What clients rely on: a table stands for a map from keys, up to what \<open>nrm\<close> identifies, and the operations act on that map.
\<close>

locale keyed_table =
  fixes inv :: "'t \<Rightarrow> bool" and abs :: "'t \<Rightarrow> 'n \<rightharpoonup> 'v" and ok :: "'k \<Rightarrow> bool" and nrm :: "'k \<Rightarrow> 'n"
    and get :: "'t \<Rightarrow> 'k \<Rightarrow> 'v option" and put :: "'t \<Rightarrow> 'k \<Rightarrow> 'v \<Rightarrow> 't" and del :: "'t \<Rightarrow> 'k \<Rightarrow> 't"
    and cnt :: "'t \<Rightarrow> nat"
  assumes get_law: "inv t \<Longrightarrow> get t k = abs t (nrm k)"
    and put_law: "inv t \<Longrightarrow> ok k \<Longrightarrow> inv (put t k v) \<and> abs (put t k v) = (abs t)(nrm k \<mapsto> v)"
    and del_law: "inv t \<Longrightarrow> inv (del t k) \<and> abs (del t k) = (abs t)(nrm k := None)"
    and cnt_law: "inv t \<Longrightarrow> finite (dom (abs t)) \<and> cnt t = card (dom (abs t))"
begin

lemma get_put: "inv t \<Longrightarrow> ok k \<Longrightarrow> get (put t k v) k' = (if nrm k' = nrm k then Some v else get t k')"
  using put_law [of t k v] by (simp add: get_law)

lemma get_del: "inv t \<Longrightarrow> get (del t k) k' = (if nrm k' = nrm k then None else get t k')"
  using del_law [of t k] by (simp add: get_law)

lemma cnt_put: "inv t \<Longrightarrow> ok k \<Longrightarrow> cnt (put t k v) = cnt t + (if get t k = None then 1 else 0)"
  using put_law [of t k v] cnt_law [of t] cnt_law [of "put t k v"]
  by (auto simp: get_law card_insert_if domIff insert_absorb)

lemma cnt_del: "inv t \<Longrightarrow> cnt (del t k) = cnt t - (if get t k = None then 0 else 1)"
  using del_law [of t k] cnt_law [of t] cnt_law [of "del t k"]
  by (auto simp: get_law card_Diff_singleton_if domIff)

lemma empty_iff: "inv t \<Longrightarrow> cnt t = 0 \<longleftrightarrow> (\<forall>k. abs t k = None)"
  using cnt_law [of t] by (auto simp: dom_def)

end

lemma set_some:
  assumes "ht_inv lower ht" "hval = 0 \<or> hval = key_hash key 0 lower" "val = None \<or> pool \<or> entry_buf"
    "val \<noteq> None \<longrightarrow> lower \<longrightarrow> key_ok key"
  shows "ht_inv lower (the (hash_set pool ht key (Some (length key)) hval val entry_buf lower))
    \<and> ht_abs lower (the (hash_set pool ht key (Some (length key)) hval val entry_buf lower)) = (ht_abs lower ht)(norm lower key := val)"
  using hash_set_refines [of lower ht hval key "Some (length key)" val pool entry_buf] assms
  by (auto simp: key_chars_def)

lemma get_some:
  assumes "ht_inv lower ht"
  shows "hash_get ht key (Some (length key)) 0 lower = ht_abs lower ht (norm lower key)"
  using hash_get_abs [OF assms, of 0 key "Some (length key)"] by (simp add: key_chars_def)

interpretation exact_table: keyed_table "ht_inv False" "ht_abs False" "\<lambda>_. True" "norm False"
  "\<lambda>t k. pj_hash_get t k (Some (length k)) 0" "\<lambda>t k v. the (pj_hash_set True t k (Some (length k)) 0 (Some v))"
  "\<lambda>t k. the (pj_hash_set False t k (Some (length k)) 0 None)" pj_hash_count
proof unfold_locales
  fix t :: "'v pj_hash_table" and k v
  assume inv: "ht_inv False t"
  show "pj_hash_get t k (Some (length k)) 0 = ht_abs False t (norm False k)"
    using get_some [OF inv] by (simp add: pj_hash_get_def)
  show "ht_inv False (the (pj_hash_set False t k (Some (length k)) 0 None))
      \<and> ht_abs False (the (pj_hash_set False t k (Some (length k)) 0 None)) = (ht_abs False t)(norm False k := None)"
    using set_some [OF inv, of 0 k None False False] by (simp add: pj_hash_set_def)
  show "finite (dom (ht_abs False t)) \<and> pj_hash_count t = card (dom (ht_abs False t))"
    using ht_count_abs [OF inv] by (simp add: pj_hash_count_def)
  show "ht_inv False (the (pj_hash_set True t k (Some (length k)) 0 (Some v)))
      \<and> ht_abs False (the (pj_hash_set True t k (Some (length k)) 0 (Some v))) = (ht_abs False t)(norm False k \<mapsto> v)"
    using set_some [OF inv, of 0 k "Some v" True False] by (simp add: pj_hash_set_def)
qed

text \<open>As the transaction layer uses it: the hash is calculated beforehand for updates, and not for lookups.\<close>

interpretation lower_table: keyed_table "ht_inv True" "ht_abs True" key_ok "norm True"
  "\<lambda>t k. pj_hash_get_lower t k (Some (length k)) 0"
  "\<lambda>t k v. the (pj_hash_set_lower True t k (Some (length k)) (fst (pj_hash_calc_tolower 0 k)) (Some v))"
  "\<lambda>t k. the (pj_hash_set_lower False t k (Some (length k)) (fst (pj_hash_calc_tolower 0 k)) None)" pj_hash_count
proof unfold_locales
  fix t :: "'v pj_hash_table" and k v
  assume inv: "ht_inv True t"
  let ?h = "fst (pj_hash_calc_tolower 0 k)"
  show "pj_hash_get_lower t k (Some (length k)) 0 = ht_abs True t (norm True k)"
    using get_some [OF inv] by (simp add: pj_hash_get_lower_def)
  show "ht_inv True (the (pj_hash_set_lower False t k (Some (length k)) ?h None))
      \<and> ht_abs True (the (pj_hash_set_lower False t k (Some (length k)) ?h None)) = (ht_abs True t)(norm True k := None)"
    using set_some [OF inv, of ?h k None False False] by (simp add: pj_hash_set_lower_def precalculated_hash)
  show "finite (dom (ht_abs True t)) \<and> pj_hash_count t = card (dom (ht_abs True t))"
    using ht_count_abs [OF inv] by (simp add: pj_hash_count_def)
  show "ht_inv True (the (pj_hash_set_lower True t k (Some (length k)) ?h (Some v)))
      \<and> ht_abs True (the (pj_hash_set_lower True t k (Some (length k)) ?h (Some v))) = (ht_abs True t)(norm True k \<mapsto> v)"
    if "key_ok k"
    using set_some [OF inv, of ?h k "Some v" True False] that by (simp add: pj_hash_set_lower_def precalculated_hash)
qed

section \<open>Properties\<close>

theorem hash_get_after_set:
  assumes "ht_inv lower ht" "hval = 0 \<or> hval = key_hash (key_chars key keylen) 0 lower"
    and "val = None \<or> pool \<or> entry_buf" "lower \<longrightarrow> key_ok (key_chars key keylen)"
  shows "\<exists>ht'. hash_set pool ht key keylen hval val entry_buf lower = Some ht' \<and> ht_inv lower ht'
    \<and> (\<forall>key2 keylen2. hash_get ht' key2 keylen2 0 lower =
         (if norm lower (key_chars key2 keylen2) = norm lower (key_chars key keylen) then val
          else hash_get ht key2 keylen2 0 lower))
    \<and> int (pj_hash_count ht') = int (pj_hash_count ht) + of_bool (val \<noteq> None) - of_bool (hash_get ht key keylen 0 lower \<noteq> None)"
proof -
  let ?n = "norm lower (key_chars key keylen)"
  obtain ht' where ht': "hash_set pool ht key keylen hval val entry_buf lower = Some ht'" "ht_inv lower ht'"
      "ht_abs lower ht' = (ht_abs lower ht)(?n := val)"
    using hash_set_refines [OF assms(1,2,3)] assms(4) by blast
  have "int (card (dom ((ht_abs lower ht)(?n := val)))) =
      int (card (dom (ht_abs lower ht))) + of_bool (val \<noteq> None) - of_bool (ht_abs lower ht ?n \<noteq> None)"
    using ht_count_abs(1) [OF assms(1)] card_gt_0_iff [of "dom (ht_abs lower ht)"]
    by (cases val) (auto simp: card_Diff_singleton_if card_insert_if domIff of_nat_diff Suc_le_eq)
  then show ?thesis
    using ht' assms(1) ht_count_abs(2) [OF assms(1)] ht_count_abs(2) [OF ht'(2)]
    by (intro exI [of _ ht']) (simp add: hash_get_abs pj_hash_count_def)
qed

text \<open>A sequence of updates by a client, and the same on a map.\<close>

fun hash_run :: "bool \<Rightarrow> 'v pj_hash_table \<Rightarrow> (string \<times> 'v option) list \<Rightarrow> 'v pj_hash_table option" where
  "hash_run lower ht [] = Some ht"
| "hash_run lower ht ((key, val) # ops) =
     (case (if lower then pj_hash_set_lower else pj_hash_set) True ht key (Some (length key)) 0 val of
        None \<Rightarrow> None
      | Some ht \<Rightarrow> hash_run lower ht ops)"

fun map_run :: "bool \<Rightarrow> (string \<rightharpoonup> 'v) \<Rightarrow> (string \<times> 'v option) list \<Rightarrow> (string \<rightharpoonup> 'v)" where
  "map_run lower m [] = m"
| "map_run lower m ((key, val) # ops) = map_run lower (m(norm lower key := val)) ops"

lemma hash_run_refines:
  assumes "ht_inv lower ht" "\<forall>(key, val) \<in> set ops. lower \<longrightarrow> key_ok key"
  shows "\<exists>ht'. hash_run lower ht ops = Some ht' \<and> ht_inv lower ht' \<and> ht_abs lower ht' = map_run lower (ht_abs lower ht) ops"
  using assms
proof (induction lower ht ops rule: hash_run.induct)
  case (2 lower ht key val ops)
  obtain ht1 where ht1: "hash_set True ht key (Some (length key)) 0 val False lower = Some ht1" "ht_inv lower ht1"
      "ht_abs lower ht1 = (ht_abs lower ht)(norm lower key := val)"
    using hash_set_refines [of lower ht 0 key "Some (length key)" val True False] 2(2,3) by (auto simp: key_chars_def)
  have "(if lower then pj_hash_set_lower else pj_hash_set) True ht key (Some (length key)) 0 val = Some ht1"
    using ht1(1) by (cases lower) (simp_all add: pj_hash_set_def pj_hash_set_lower_def)
  then show ?case using 2(1) [OF _ ht1(2)] 2(3) by (simp add: ht1(3) fun_upd_def)
qed simp

text \<open>
C4. A hash table of any size up to 2^31 after any sequence of settings and removals, with keys
compared exactly or without case, gives for every key what a map updated by the same sequence
gives, counts its keys, and the loop over first and next visits each of its values exactly once
and ends.
\<close>

theorem hash_table_equals_map:
  assumes "sz \<le> 2 ^ 31" "\<forall>(key, val) \<in> set ops. lower \<longrightarrow> key_ok key"
  shows "\<exists>ht0 ht vs. pj_hash_create sz = Some ht0 \<and> hash_run lower ht0 ops = Some ht
    \<and> (\<forall>key. (if lower then pj_hash_get_lower else pj_hash_get) ht key (Some (length key)) 0
              = map_run lower Map.empty ops (norm lower key))
    \<and> pj_hash_count ht = card (dom (map_run lower Map.empty ops))
    \<and> hash_walk ht (pj_hash_first ht) = Some vs
    \<and> mset vs = image_mset (\<lambda>k. the (map_run lower Map.empty ops k)) (mset_set (dom (map_run lower Map.empty ops)))"
proof -
  obtain ht0 :: "'a pj_hash_table" where ht0: "pj_hash_create sz = Some ht0" "ht_inv lower ht0" "ht_abs lower ht0 = Map.empty"
    using pj_hash_create_inv [OF assms(1)] by metis
  obtain ht where ht: "hash_run lower ht0 ops = Some ht" "ht_inv lower ht" "ht_abs lower ht = map_run lower Map.empty ops"
    using hash_run_refines [OF ht0(2) assms(2)] ht0(3) by metis
  have len: "length (ht_table ht) = unat (ht_rows ht) + 1" using ht(2) by (simp add: ht_inv_def)
  let ?vs = "map he_value (concat (ht_table ht))"
  have "hash_walk ht (pj_hash_first ht) = Some ?vs"
    using hash_walk_all [OF len] next_row_rest [OF len, of 0] by (simp add: pj_hash_first_def)
  moreover have "mset ?vs = image_mset (\<lambda>k. the (ht_abs lower ht k)) (mset_set (dom (ht_abs lower ht)))"
  proof -
    let ?ps = "concat (ht_pairs lower ht)"
    have d: "distinct (map fst ?ps)" using ht(2) rows_ok_distinct by (auto simp: ht_inv_def)
    have "?vs = map snd ?ps" by (simp add: ht_pairs_def map_concat comp_def kv_def)
    also have "\<dots> = map (\<lambda>k. the (ht_abs lower ht k)) (map fst ?ps)"
      unfolding ht_abs_def map_map by (rule map_cong [OF refl]) (use d in \<open>auto simp del: set_concat\<close>)
    finally have "mset ?vs = image_mset (\<lambda>k. the (ht_abs lower ht k)) (mset (map fst ?ps))" by (simp only: mset_map)
    moreover have "mset (map fst ?ps) = mset_set (dom (ht_abs lower ht))"
      using d by (simp only: ht_abs_def dom_map_of_conv_image_fst) (metis mset_set_set set_map)
    ultimately show ?thesis by simp
  qed
  moreover have "(if lower then pj_hash_get_lower else pj_hash_get) ht key (Some (length key)) 0 = ht_abs lower ht (norm lower key)" for key
    using get_some [OF ht(2), of key] by (cases lower) (simp_all add: pj_hash_get_def pj_hash_get_lower_def)
  ultimately show ?thesis
    using ht0(1) ht ht_count_abs(2) [OF ht(2)] by (intro exI [of _ ht0] exI [of _ ht] exI [of _ ?vs]) (simp add: pj_hash_count_def)
qed

theorem hash_create_never_returns:
  assumes "sz > 2 ^ 31"
  shows "pj_hash_create sz = None"
  using table_size_loop_stuck [OF assms] by (simp add: pj_hash_create_def)

theorem hash_get_after_set_witness:
  "\<exists>ht ht'. pj_hash_create 15 = Some ht \<and> hash_set True ht ''Key'' (Some 3) 0 (Some (7 :: nat)) False True = Some ht'
     \<and> hash_get ht' ''kEY'' (Some 3) 0 True = Some 7"
proof -
  obtain ht :: "nat pj_hash_table" where ht: "pj_hash_create 15 = Some ht" "ht_inv True ht"
    using pj_hash_create_inv [of 15 True] by auto
  have "norm True (key_chars ''kEY'' (Some 3)) = norm True (key_chars ''Key'' (Some 3))" "key_ok ''Key''" by code_simp+
  then show ?thesis
    using hash_get_after_set [OF ht(2), of 0 "''Key''" "Some 3" "Some 7" True False] ht(1)
    by (auto simp: key_chars_def)
qed

theorem hash_table_equals_map_witness:
  "\<exists>ht0 ht. pj_hash_create 31 = Some ht0 \<and> hash_run True ht0 [(''a'', Some (1 :: nat)), (''B'', Some 2), (''A'', None)] = Some ht
     \<and> pj_hash_get_lower ht ''b'' (Some 1) 0 = Some 2 \<and> pj_hash_get_lower ht ''a'' (Some 1) 0 = None"
proof -
  define ops where "ops = [(''a'', Some (1 :: nat)), (''B'', Some 2), (''A'', None)]"
  have "map_run True Map.empty ops (norm True ''b'') = Some 2" "map_run True Map.empty ops (norm True ''a'') = None"
    and "list_all (\<lambda>(key, val). key_ok key) ops" unfolding ops_def by code_simp+
  moreover from this(3) obtain ht0 ht where "pj_hash_create 31 = Some ht0" "hash_run True ht0 ops = Some ht"
    and get: "pj_hash_get_lower ht key (Some (length key)) 0 = map_run True Map.empty ops (norm True key)" for key
    using hash_table_equals_map [of 31 ops True] by (auto simp: list_all_iff)
  ultimately show ?thesis using get [of "''b''"] get [of "''a''"]
    unfolding ops_def [symmetric] by (intro exI [of _ ht0] exI [of _ ht]) simp
qed

theorem hash_create_never_returns_witness: "pj_hash_create 0x80000001 = (None :: nat pj_hash_table option)"
  by (rule hash_create_never_returns) code_simp

end
