(* ===== verification/Pj_List.thy ===== *)
theory Pj_List
  imports Pj_Prelude "HOL-Library.Monad_Syntax"
begin

text \<open>
  The doubly linked lists of pjlib, \<^verbatim>\<open>pjlib/include/pj/list.h\<close> and \<^verbatim>\<open>list_i.h\<close>: rings of nodes that are linked through their
  first two members, one of which is the head of the list. Nodes are addresses, and the links are a store that every operation updates in
  the order of its assignments, so that what happens when two arguments are the same node is what the code does. The loops over a
  ring that is not closed would not end: they are \<^theory_text>\<open>partial_function\<close>s.
\<close>

section \<open>Model\<close>

type_synonym node = nat

record links =
  nxt :: "node \<Rightarrow> node"
  prv :: "node \<Rightarrow> node"

definition set_next :: "node \<Rightarrow> node \<Rightarrow> links \<Rightarrow> links" where
  "set_next n v h = h\<lparr>nxt := (nxt h)(n := v)\<rparr>"

definition set_prev :: "node \<Rightarrow> node \<Rightarrow> links \<Rightarrow> links" where
  "set_prev n v h = h\<lparr>prv := (prv h)(n := v)\<rparr>"

definition pj_list_init :: "node \<Rightarrow> links \<Rightarrow> links" where
  "pj_list_init n h = set_next n n (set_prev n n h)"

definition pj_list_empty :: "node \<Rightarrow> links \<Rightarrow> bool" where
  "pj_list_empty n h \<longleftrightarrow> nxt h n = n"

definition pj_link_node :: "node \<Rightarrow> node \<Rightarrow> links \<Rightarrow> links" where
  "pj_link_node p n h = set_prev n p (set_next p n h)"

definition pj_list_insert_after :: "node \<Rightarrow> node \<Rightarrow> links \<Rightarrow> links" where
  "pj_list_insert_after pos n h =
     (let h = set_prev n pos h;
          h = set_next n (nxt h pos) h;
          h = set_prev (nxt h pos) n h
      in set_next pos n h)"

definition pj_list_insert_before :: "node \<Rightarrow> node \<Rightarrow> links \<Rightarrow> links" where
  "pj_list_insert_before pos n h = pj_list_insert_after (prv h pos) n h"

definition pj_list_push_back :: "node \<Rightarrow> node \<Rightarrow> links \<Rightarrow> links" where
  "pj_list_push_back l n h = pj_list_insert_before l n h"

definition pj_list_push_front :: "node \<Rightarrow> node \<Rightarrow> links \<Rightarrow> links" where
  "pj_list_push_front l n h = pj_list_insert_after l n h"

definition pj_list_insert_nodes_after :: "node \<Rightarrow> node \<Rightarrow> links \<Rightarrow> links" where
  "pj_list_insert_nodes_after pos lst h =
     (let lst_last = prv h lst; pos_next = nxt h pos
      in pj_link_node lst_last pos_next (pj_link_node pos lst h))"

definition pj_list_insert_nodes_before :: "node \<Rightarrow> node \<Rightarrow> links \<Rightarrow> links" where
  "pj_list_insert_nodes_before pos lst h = pj_list_insert_nodes_after (prv h pos) lst h"

definition pj_list_merge_last :: "node \<Rightarrow> node \<Rightarrow> links \<Rightarrow> links" where
  "pj_list_merge_last lst1 lst2 h =
     (if \<not> pj_list_empty lst2 h then
        (let h = pj_link_node (prv h lst1) (nxt h lst2) h;
             h = pj_link_node (prv h lst2) lst1 h
         in pj_list_init lst2 h)
      else h)"

definition pj_list_merge_first :: "node \<Rightarrow> node \<Rightarrow> links \<Rightarrow> links" where
  "pj_list_merge_first lst1 lst2 h =
     (if \<not> pj_list_empty lst2 h then
        (let h = pj_link_node (prv h lst2) (nxt h lst1) h;
             h = pj_link_node lst1 (nxt h lst2) h
         in pj_list_init lst2 h)
      else h)"

definition pj_list_erase :: "node \<Rightarrow> links \<Rightarrow> links" where
  "pj_list_erase n h = pj_list_init n (pj_link_node (prv h n) (nxt h n) h)"

partial_function (option) find_loop :: "links \<Rightarrow> node \<Rightarrow> node \<Rightarrow> node \<Rightarrow> node option" where
  "find_loop h l n p = (if p \<noteq> l \<and> p \<noteq> n then find_loop h l n (nxt h p) else Some p)"

text \<open>The result of a search is \<open>None\<close> when the loop does not end; the null pointer is an inner \<open>None\<close>.\<close>

definition pj_list_find_node :: "node \<Rightarrow> node \<Rightarrow> links \<Rightarrow> node option option" where
  "pj_list_find_node l n h = map_option (\<lambda>p. if p = n then Some p else None) (find_loop h l n (nxt h l))"

partial_function (option) search_loop :: "(node \<Rightarrow> int) \<Rightarrow> links \<Rightarrow> node \<Rightarrow> node \<Rightarrow> node option" where
  "search_loop cmp h l p = (if p \<noteq> l \<and> cmp p \<noteq> 0 then search_loop cmp h l (nxt h p) else Some p)"

definition pj_list_search :: "(node \<Rightarrow> int) \<Rightarrow> node \<Rightarrow> links \<Rightarrow> node option option" where
  "pj_list_search cmp l h = map_option (\<lambda>p. if p = l then None else Some p) (search_loop cmp h l (nxt h l))"

partial_function (option) size_loop :: "links \<Rightarrow> node \<Rightarrow> node \<Rightarrow> nat \<Rightarrow> nat option" where
  "size_loop h l n cnt = (if n \<noteq> l then size_loop h l (nxt h n) (cnt + 1) else Some cnt)"

definition pj_list_size :: "node \<Rightarrow> links \<Rightarrow> nat option" where
  "pj_list_size l h = size_loop h l (nxt h l) 0"

section \<open>Rings\<close>

text \<open>A ring is closed in both directions; the list with head \<open>l\<close> holds \<open>xs\<close> when \<open>l # xs\<close> is a ring.\<close>

definition linked :: "links \<Rightarrow> node \<Rightarrow> node \<Rightarrow> bool" where
  "linked h a b \<longleftrightarrow> nxt h a = b \<and> prv h b = a"

definition chain :: "links \<Rightarrow> node list \<Rightarrow> bool" where
  "chain h xs \<longleftrightarrow> successively (linked h) xs"

definition ring :: "links \<Rightarrow> node list \<Rightarrow> bool" where
  "ring h xs \<longleftrightarrow> xs \<noteq> [] \<and> distinct xs \<and> chain h (xs @ [hd xs])"

lemma chain_simps [simp]: "chain h []" "chain h [a]" "chain h (a # b # xs) \<longleftrightarrow> linked h a b \<and> chain h (b # xs)"
  by (simp_all add: chain_def)

lemma links_append: "xs \<noteq> [] \<Longrightarrow> ys \<noteq> [] \<Longrightarrow> chain h (xs @ ys) \<longleftrightarrow> chain h xs \<and> linked h (last xs) (hd ys) \<and> chain h ys"
  by (auto simp: chain_def successively_append_iff)

lemma chain_snoc: "chain h (xs @ [a, b]) \<longleftrightarrow> chain h (xs @ [a]) \<and> linked h a b"
  using links_append [of "xs @ [a]" "[b]" h] by simp

text \<open>A chain is settled by the next links of all but its last node and the previous links of all but its first.\<close>

lemma links_cong:
  "\<forall>a \<in> set (butlast xs). nxt h' a = nxt h a \<Longrightarrow> \<forall>b \<in> set (tl xs). prv h' b = prv h b \<Longrightarrow> chain h' xs \<longleftrightarrow> chain h xs"
proof (induction xs rule: induct_list012)
  case (3 a b xs)
  have "chain h' (b # xs) \<longleftrightarrow> chain h (b # xs)" using 3(2-) by (intro 3(2)) (auto split: if_splits)
  then show ?case using 3(3,4) by (simp add: linked_def)
qed simp_all

lemma ring_rotate: "ring h (xs @ ys) \<longleftrightarrow> ring h (ys @ xs)"
proof -
  have "ring h (ys @ xs)" if r: "ring h (xs @ ys)" for xs ys
  proof (cases "xs = [] \<or> ys = []")
    case True
    then show ?thesis using r by auto
  next
    case False
    then obtain x xs' y ys' where e: "xs = x # xs'" "ys = y # ys'" by (meson list.exhaust)
    have "chain h (xs @ ys @ [x])" using r by (simp add: ring_def e)
    then have "chain h xs \<and> linked h (last xs) y \<and> chain h (ys @ [x])" using links_append [of xs "ys @ [x]" h] by (simp add: e)
    then have "chain h (ys @ [x]) \<and> chain h (xs @ [y])" using links_append [of xs "[y]" h] by (simp add: e)
    then have "chain h ((ys @ xs) @ [y])"
      using links_append [of ys "xs @ [y]" h] links_append [of ys "[x]" h] by (simp add: e)
    then show ?thesis using r by (auto simp: ring_def e)
  qed
  then show ?thesis by blast
qed

lemma ring_Cons: "ring h (a # xs) \<longleftrightarrow> distinct (a # xs) \<and> chain h (a # xs @ [a])"
  by (simp add: ring_def)

lemma ring_frame:
  assumes "ring h xs" "\<forall>a \<in> set xs. nxt h' a = nxt h a \<and> prv h' a = prv h a"
  shows "ring h' xs"
proof -
  have "hd xs \<in> set xs" using assms(1) by (simp add: ring_def)
  then have "chain h' (xs @ [hd xs]) \<longleftrightarrow> chain h (xs @ [hd xs])" using assms
    by (intro links_cong) (auto simp: ring_def dest: in_set_butlastD list.set_sel(2))
  then show ?thesis using assms(1) by (simp add: ring_def)
qed

lemmas link_defs = set_next_def set_prev_def pj_list_init_def pj_link_node_def

lemma ring_init: "ring (pj_list_init n h) [n]"
  by (simp add: ring_def chain_def linked_def link_defs)

lemma ring_insert_after:
  assumes "ring h (a # xs)" "n \<notin> set (a # xs)"
  shows "ring (pj_list_insert_after a n h) (a # n # xs)"
proof -
  let ?h = "pj_list_insert_after a n h"
  obtain y ys where y: "xs @ [a] = y # ys" by (cases "xs @ [a]") auto
  have c: "linked h a y" "chain h (y # ys)" "distinct (a # xs)" using assms(1) by (simp_all add: ring_Cons y)
  have hy: "nxt h a = y" using c(1) by (simp add: linked_def)
  have e: "nxt ?h = (nxt h)(n := y, a := n)" "prv ?h = (prv h)(n := a, y := n)"
    using assms(2) hy by (simp_all add: pj_list_insert_after_def link_defs Let_def)
  have "y \<noteq> n" using assms(2) y by (cases xs) auto
  have "chain ?h (y # ys) \<longleftrightarrow> chain h (y # ys)"
  proof (rule links_cong)
    have "butlast (y # ys) = xs" using y by (metis butlast_snoc)
    then show "\<forall>b \<in> set (butlast (y # ys)). nxt ?h b = nxt h b" using c(3) assms(2) e(1) by auto
    have "set ys \<subseteq> insert a (set xs)" "y \<notin> set ys" using y c(3) by (cases xs; auto)+
    then show "\<forall>b \<in> set (tl (y # ys)). prv ?h b = prv h b" using assms(2) e(2) by auto
  qed
  then have "chain ?h (a # n # y # ys)" using c(2) e assms(2) \<open>y \<noteq> n\<close> by (auto simp: linked_def)
  then show ?thesis using c(3) assms(2) y by (simp add: ring_Cons)
qed

text \<open>A chain whose ends are linked is a ring, and so are two chains that are linked end to end.\<close>

lemma close_chain:
  assumes "xs \<noteq> []" "distinct xs" "chain h xs"
    and "\<forall>n \<in> set xs. nxt h' n = (if n = last xs then hd xs else nxt h n)" "\<forall>n \<in> set xs. prv h' n = (if n = hd xs then last xs else prv h n)"
  shows "ring h' xs"
proof -
  have "chain h' xs \<longleftrightarrow> chain h xs"
  proof (rule links_cong)
    have "last xs \<notin> set (butlast xs)" using assms(1,2) by (cases xs rule: rev_cases) auto
    then show "\<forall>a \<in> set (butlast xs). nxt h' a = nxt h a" using assms(4) by (metis in_set_butlastD)
    show "\<forall>b \<in> set (tl xs). prv h' b = prv h b" using assms(1,2,5) by (cases xs) auto
  qed
  moreover have "linked h' (last xs) (hd xs)" using assms(1,4,5) by (simp add: linked_def)
  ultimately show ?thesis using assms(1-3) links_append [of xs "[hd xs]" h'] by (simp add: ring_def)
qed

lemma splice:
  assumes ne: "us \<noteq> []" "vs \<noteq> []" and d: "distinct (us @ vs)" and c: "chain h us" "chain h vs"
    and n: "\<forall>n \<in> set (us @ vs). nxt h' n = (if n = last us then hd vs else if n = last vs then hd us else nxt h n)"
    and p: "\<forall>n \<in> set (us @ vs). prv h' n = (if n = hd us then last vs else if n = hd vs then last us else prv h n)"
  shows "ring h' (us @ vs)"
proof -
  have part: "chain h' ws \<longleftrightarrow> chain h ws"
    if "ws \<noteq> []" "distinct ws" "\<forall>n \<in> set ws. n \<noteq> last ws \<longrightarrow> nxt h' n = nxt h n" "\<forall>n \<in> set ws. n \<noteq> hd ws \<longrightarrow> prv h' n = prv h n" for ws
  proof (rule links_cong)
    have "last ws \<notin> set (butlast ws)" using that(1,2) by (cases ws rule: rev_cases) auto
    then show "\<forall>a \<in> set (butlast ws). nxt h' a = nxt h a" using that(3) by (metis in_set_butlastD)
    show "\<forall>b \<in> set (tl ws). prv h' b = prv h b" using that(1,2,4) by (cases ws) auto
  qed
  have ends: "hd us \<in> set us" "last us \<in> set us" "hd vs \<in> set vs" "last vs \<in> set vs" using ne by simp_all
  have dis: "distinct us" "distinct vs" "set us \<inter> set vs = {}" using d by simp_all
  have out: "last vs \<notin> set us" "hd vs \<notin> set us" "last us \<notin> set vs" "hd us \<notin> set vs" using ends dis(3) by blast+
  have "\<forall>n \<in> set us. n \<noteq> last us \<longrightarrow> nxt h' n = nxt h n" "\<forall>n \<in> set us. n \<noteq> hd us \<longrightarrow> prv h' n = prv h n"
    "\<forall>n \<in> set vs. n \<noteq> last vs \<longrightarrow> nxt h' n = nxt h n" "\<forall>n \<in> set vs. n \<noteq> hd vs \<longrightarrow> prv h' n = prv h n"
    using n p out by auto
  then have "chain h' us" "chain h' vs" using part [OF ne(1) dis(1)] part [OF ne(2) dis(2)] c by blast+
  moreover have "linked h' (last us) (hd vs)" "linked h' (last vs) (hd us)" using ends dis n p by (auto simp: linked_def)
  ultimately have "chain h' (us @ vs @ [hd us])"
    using ne links_append [of us "vs @ [hd us]" h'] links_append [of vs "[hd us]" h'] by simp
  then show ?thesis using ne d by (simp add: ring_def)
qed

lemma ring_ends:
  assumes "ring h (a # xs)"
  shows "nxt h a = hd (xs @ [a])" "prv h a = last (a # xs)" "chain h xs" "chain h (a # xs)" "distinct (a # xs)"
proof -
  have c: "chain h ((a # xs) @ [a])" "distinct (a # xs)" using assms by (simp_all add: ring_Cons)
  then have "linked h (last (a # xs)) a" "chain h (a # xs)" using links_append [of "a # xs" "[a]" h] by simp_all
  moreover have "chain h ([a] @ xs @ [a])" using c by simp
  then have "linked h a (hd (xs @ [a]))" using links_append [of "[a]" "xs @ [a]" h] by simp
  moreover have "chain h xs" using \<open>chain h (a # xs)\<close> by (cases xs) simp_all
  ultimately show "nxt h a = hd (xs @ [a])" "prv h a = last (a # xs)" "chain h xs" "chain h (a # xs)" "distinct (a # xs)"
    using c(2) by (simp_all add: linked_def)
qed

lemma ring_erase:
  assumes "ring h (a # xs)"
  shows "ring (pj_list_erase a h) [a]" and "xs \<noteq> [] \<Longrightarrow> ring (pj_list_erase a h) xs"
proof -
  show "ring (pj_list_erase a h) [a]" by (simp add: pj_list_erase_def ring_init)
  assume ne: "xs \<noteq> []"
  note e = ring_ends [OF assms]
  have v: "nxt h a = hd xs" "prv h a = last xs" "a \<notin> set xs" using e ne by simp_all
  then have "hd xs \<noteq> a" "last xs \<noteq> a" using ne by (metis hd_in_set, metis last_in_set)
  then show "ring (pj_list_erase a h) xs"
    using ne e v by (intro close_chain [of xs h]) (auto simp: pj_list_erase_def link_defs)
qed

lemma ring_insert_nodes_after:
  assumes "ring h (a # xs)" "ring h (b # ys)" "set (a # xs) \<inter> set (b # ys) = {}"
  shows "ring (pj_list_insert_nodes_after a b h) (a # (b # ys) @ xs)"
proof -
  note e = ring_ends [OF assms(1)] and f = ring_ends [OF assms(2)]
  have r: "ring h (xs @ [a])" using ring_rotate [of h "[a]" xs] assms(1) by simp
  then have c: "chain h (xs @ [a])" using links_append [of "xs @ [a]" "[hd (xs @ [a])]" h] by (simp add: ring_def)
  have "last (b # ys) \<in> set (b # ys)" by simp
  moreover have "hd (xs @ [a]) \<in> set (a # xs)" by (cases xs) simp_all
  ultimately have "ring (pj_list_insert_nodes_after a b h) ((b # ys) @ xs @ [a])"
    using e f c assms(3)
    by (intro splice [where h = h]) (auto simp: pj_list_insert_nodes_after_def link_defs Let_def simp del: last.simps)
  then show ?thesis using ring_rotate [of _ "(b # ys) @ xs" "[a]"] by simp
qed

lemma ring_empty: "ring h (a # xs) \<Longrightarrow> pj_list_empty a h \<longleftrightarrow> xs = []"
  using ring_ends(1,5) [of h a xs] by (cases xs) (auto simp: pj_list_empty_def)

lemma ring_merge_last:
  assumes "ring h (a # xs)" "ring h (b # ys)" "set (a # xs) \<inter> set (b # ys) = {}"
  shows "ring (pj_list_merge_last a b h) (a # xs @ ys)" "ring (pj_list_merge_last a b h) [b]"
proof -
  have "ring (pj_list_merge_last a b h) (a # xs @ ys) \<and> ring (pj_list_merge_last a b h) [b]"
  proof (cases "ys = []")
    case True
    then show ?thesis using assms ring_empty [OF assms(2)] by (simp add: pj_list_merge_last_def)
  next
    case False
    note e = ring_ends [OF assms(1)] and f = ring_ends [OF assms(2)]
    have y: "nxt h b = hd ys" "prv h b = last ys" "hd ys \<in> set ys" "last ys \<in> set ys" using f False by simp_all
    have "last (a # xs) \<in> set (a # xs)" by simp
    then have "ring (pj_list_merge_last a b h) ((a # xs) @ ys)"
      using e f y False assms(3) ring_empty [OF assms(2)]
      by (intro splice [where h = h]) (auto simp: pj_list_merge_last_def link_defs Let_def simp del: last.simps)
    moreover have "ring (pj_list_merge_last a b h) [b]"
      using False ring_empty [OF assms(2)] by (simp add: pj_list_merge_last_def Let_def ring_init)
    ultimately show ?thesis by simp
  qed
  then show "ring (pj_list_merge_last a b h) (a # xs @ ys)" "ring (pj_list_merge_last a b h) [b]" by simp_all
qed

lemma ring_merge_first:
  assumes "ring h (a # xs)" "ring h (b # ys)" "set (a # xs) \<inter> set (b # ys) = {}"
  shows "ring (pj_list_merge_first a b h) (a # ys @ xs)" "ring (pj_list_merge_first a b h) [b]"
proof -
  have "ring (pj_list_merge_first a b h) (a # ys @ xs) \<and> ring (pj_list_merge_first a b h) [b]"
  proof (cases "ys = []")
    case True
    then show ?thesis using assms ring_empty [OF assms(2)] by (simp add: pj_list_merge_first_def)
  next
    case False
    note e = ring_ends [OF assms(1)] and f = ring_ends [OF assms(2)]
    have y: "nxt h b = hd ys" "prv h b = last ys" "hd ys \<in> set ys" "last ys \<in> set ys" using f False by simp_all
    have r: "ring h (xs @ [a])" using ring_rotate [of h "[a]" xs] assms(1) by simp
    then have c: "chain h (xs @ [a])" using links_append [of "xs @ [a]" "[hd (xs @ [a])]" h] by (simp add: ring_def)
    have "hd (xs @ [a]) \<in> set (a # xs)" by (cases xs; simp)
    then have "ring (pj_list_merge_first a b h) (ys @ xs @ [a])"
      using e f c y False assms(3) ring_empty [OF assms(2)]
      by (intro splice [where h = h]) (auto simp: pj_list_merge_first_def link_defs Let_def simp del: last.simps)
    then have "ring (pj_list_merge_first a b h) (a # ys @ xs)" using ring_rotate [of _ "ys @ xs" "[a]"] by simp
    moreover have "ring (pj_list_merge_first a b h) [b]"
      using False ring_empty [OF assms(2)] by (simp add: pj_list_merge_first_def Let_def ring_init)
    ultimately show ?thesis by simp
  qed
  then show "ring (pj_list_merge_first a b h) (a # ys @ xs)" "ring (pj_list_merge_first a b h) [b]" by simp_all
qed

section \<open>Loops\<close>

lemma ring_next:
  assumes "ring h (l # ys @ z # zs)"
  shows "nxt h z = hd (zs @ [l])"
proof -
  have "ring h (z # zs @ l # ys)" using ring_rotate [of h "l # ys" "z # zs"] assms by simp
  then show ?thesis using ring_ends(1) [of h z "zs @ l # ys"] by (cases zs) simp_all
qed

lemma find_loop_ring:
  assumes "ring h (l # ys @ zs)" "n \<noteq> l"
  shows "find_loop h l n (hd (zs @ [l])) = Some (if n \<in> set zs then n else l)"
  using assms(1)
proof (induction zs arbitrary: ys)
  case Nil
  then show ?case by (simp add: find_loop.simps)
next
  case (Cons z zs)
  have z: "z \<noteq> l" using Cons.prems by (simp add: ring_Cons)
  show ?case
  proof (cases "z = n")
    case True
    then show ?thesis by (simp add: find_loop.simps)
  next
    case False
    then show ?thesis using Cons.IH [of "ys @ [z]"] Cons.prems z ring_next [OF Cons.prems] by (simp add: find_loop.simps [of h l n z])
  qed
qed

lemma search_loop_ring:
  assumes "ring h (l # ys @ zs)"
  shows "search_loop cmp h l (hd (zs @ [l])) = Some (case find (\<lambda>x. cmp x = 0) zs of None \<Rightarrow> l | Some x \<Rightarrow> x)"
  using assms
proof (induction zs arbitrary: ys)
  case Nil
  then show ?case by (simp add: search_loop.simps)
next
  case (Cons z zs)
  have z: "z \<noteq> l" using Cons.prems by (simp add: ring_Cons)
  show ?case
  proof (cases "cmp z = 0")
    case True
    then show ?thesis by (simp add: search_loop.simps)
  next
    case False
    then show ?thesis using Cons.IH [of "ys @ [z]"] Cons.prems z ring_next [OF Cons.prems] by (simp add: search_loop.simps [of cmp h l z])
  qed
qed

lemma size_loop_ring:
  assumes "ring h (l # ys @ zs)"
  shows "size_loop h l (hd (zs @ [l])) k = Some (k + length zs)"
  using assms
proof (induction zs arbitrary: ys k)
  case Nil
  then show ?case by (simp add: size_loop.simps)
next
  case (Cons z zs)
  have z: "z \<noteq> l" using Cons.prems by (simp add: ring_Cons)
  then show ?case using Cons.IH [of "ys @ [z]" "k + 1"] Cons.prems ring_next [OF Cons.prems] by (simp add: size_loop.simps [of h l z])
qed

section \<open>Many lists\<close>

text \<open>
  All rings of a store, each from its head; a node that is in no list is a ring of its own. What each operation does to them,
  with what a client has to see to: \<open>None\<close> when a node that is put in a list is in one already, or the arguments are of one list.
\<close>

datatype list_op =
    L_Init node | L_Insert_After node node | L_Insert_Before node node | L_Insert_Nodes_After node node
  | L_Erase node | L_Merge_Last node node | L_Merge_First node node

fun list_exec :: "list_op \<Rightarrow> links \<Rightarrow> links" where
  "list_exec (L_Init n) h = pj_list_init n h"
| "list_exec (L_Insert_After p n) h = pj_list_insert_after p n h"
| "list_exec (L_Insert_Before p n) h = pj_list_insert_before p n h"
| "list_exec (L_Insert_Nodes_After p l) h = pj_list_insert_nodes_after p l h"
| "list_exec (L_Erase n) h = pj_list_erase n h"
| "list_exec (L_Merge_Last a b) h = pj_list_merge_last a b h"
| "list_exec (L_Merge_First a b) h = pj_list_merge_first a b h"

definition ring_of :: "node \<Rightarrow> node list list \<Rightarrow> node list option" where
  "ring_of n A = find (\<lambda>xs. n \<in> set xs) A"

definition loose :: "node \<Rightarrow> node list list \<Rightarrow> bool" where
  "loose n A \<longleftrightarrow> n \<notin> set (concat A) \<or> [n] \<in> set A"

definition place_after :: "node \<Rightarrow> node list \<Rightarrow> node list \<Rightarrow> node list" where
  "place_after p ns xs = takeWhile (\<lambda>x. x \<noteq> p) xs @ p # ns @ tl (dropWhile (\<lambda>x. x \<noteq> p) xs)"

definition place_before :: "node \<Rightarrow> node list \<Rightarrow> node list \<Rightarrow> node list" where
  "place_before p ns xs = (if p = hd xs then xs @ ns else takeWhile (\<lambda>x. x \<noteq> p) xs @ ns @ dropWhile (\<lambda>x. x \<noteq> p) xs)"

fun list_spec :: "list_op \<Rightarrow> node list list \<Rightarrow> node list list option" where
  "list_spec (L_Init n) A = (if loose n A then Some ([n] # remove1 [n] A) else None)"
| "list_spec (L_Insert_After p n) A =
     do { xs \<leftarrow> ring_of p A; if loose n A \<and> p \<noteq> n then Some (place_after p [n] xs # remove1 xs (remove1 [n] A)) else None }"
| "list_spec (L_Insert_Before p n) A =
     do { xs \<leftarrow> ring_of p A; if loose n A \<and> p \<noteq> n then Some (place_before p [n] xs # remove1 xs (remove1 [n] A)) else None }"
| "list_spec (L_Insert_Nodes_After p l) A =
     do { xs \<leftarrow> ring_of p A; ys \<leftarrow> ring_of l A;
          if xs \<noteq> ys \<and> l = hd ys then Some (place_after p ys xs # remove1 xs (remove1 ys A)) else None }"
| "list_spec (L_Erase n) A =
     do { xs \<leftarrow> ring_of n A; Some ([n] # (if remove1 n xs = [] then [] else [remove1 n xs]) @ remove1 xs A) }"
| "list_spec (L_Merge_Last a b) A =
     do { xs \<leftarrow> ring_of a A; ys \<leftarrow> ring_of b A;
          if xs \<noteq> ys \<and> a = hd xs \<and> b = hd ys then Some ((xs @ tl ys) # [b] # remove1 xs (remove1 ys A)) else None }"
| "list_spec (L_Merge_First a b) A =
     do { xs \<leftarrow> ring_of a A; ys \<leftarrow> ring_of b A;
          if xs \<noteq> ys \<and> a = hd xs \<and> b = hd ys then Some ((a # tl ys @ tl xs) # [b] # remove1 xs (remove1 ys A)) else None }"

definition rings :: "links \<Rightarrow> node list list \<Rightarrow> bool" where
  "rings h A \<longleftrightarrow> distinct (concat A) \<and> (\<forall>xs \<in> set A. ring h xs)"

lemma ring_of_Some: "ring_of n A = Some xs \<Longrightarrow> xs \<in> set A \<and> n \<in> set xs"
  by (auto simp: ring_of_def find_Some_iff)

lemma remove_ring:
  assumes "distinct (concat A)" "xs \<in> set A" "xs \<noteq> []"
  shows "distinct (concat (remove1 xs A))" "set xs \<inter> set (concat (remove1 xs A)) = {}" "set (remove1 xs A) \<subseteq> set A"
    "set (concat A) = set xs \<union> set (concat (remove1 xs A))"
proof -
  obtain B C where s: "A = B @ xs # C" "xs \<notin> set B" using split_list_first [OF assms(2)] by blast
  then have r: "remove1 xs A = B @ C" by (simp add: remove1_append)
  show "distinct (concat (remove1 xs A))" "set xs \<inter> set (concat (remove1 xs A)) = {}" "set (remove1 xs A) \<subseteq> set A"
    "set (concat A) = set xs \<union> set (concat (remove1 xs A))"
    using assms(1) unfolding r by (auto simp: s(1))
qed

text \<open>The rings of a list that an operation leaves alone.\<close>

lemma rings_frame:
  assumes "rings h A" "set B \<subseteq> set A" "distinct (concat B)" "\<forall>n \<in> set (concat B). nxt h' n = nxt h n \<and> prv h' n = prv h n"
  shows "rings h' B"
  unfolding rings_def
proof (intro conjI ballI)
  fix xs assume x: "xs \<in> set B"
  then have "\<forall>n \<in> set xs. nxt h' n = nxt h n \<and> prv h' n = prv h n" using assms(4) by auto
  moreover have "ring h xs" using assms(1,2) x unfolding rings_def by blast
  ultimately show "ring h' xs" by (rule ring_frame [rotated])
qed (rule assms(3))

lemma rings_Cons: "rings h (xs # A) \<longleftrightarrow> ring h xs \<and> set xs \<inter> set (concat A) = {} \<and> rings h A"
  by (auto simp: rings_def ring_def)

lemma place_after_split: "p \<notin> set ys \<Longrightarrow> place_after p ns (ys @ p # zs) = ys @ p # ns @ zs"
  by (simp add: place_after_def takeWhile_append dropWhile_append)

lemma split_ring:
  assumes "rings h A" "xs \<in> set A" "p \<in> set xs"
  obtains ys zs where "xs = ys @ p # zs" "p \<notin> set ys" "ring h (p # zs @ ys)" "distinct xs" "nxt h p \<in> set xs" "prv h p \<in> set xs"
proof -
  obtain ys zs where s: "xs = ys @ p # zs" "p \<notin> set ys" using split_list_first [OF assms(3)] by blast
  have r: "ring h xs" using assms(1,2) by (simp add: rings_def)
  then have r': "ring h (p # zs @ ys)" using ring_rotate [of h ys "p # zs"] s(1) by simp
  note e = ring_ends [OF r']
  have "hd ((zs @ ys) @ [p]) \<in> set ((zs @ ys) @ [p])" by (rule hd_in_set) simp
  then have "hd ((zs @ ys) @ [p]) \<in> set xs" by (auto simp: s(1))
  moreover have "last (p # zs @ ys) \<in> set xs" using last_in_set [of "p # zs @ ys"] by (auto simp: s(1) simp del: last.simps)
  ultimately show ?thesis using that s r r' e(1,2) by (simp add: ring_def)
qed

lemma loose_removed:
  assumes "rings h A" "loose n A" "xs \<in> set A" "p \<in> set xs" "p \<noteq> n"
  shows "distinct (concat (remove1 [n] A))" "xs \<in> set (remove1 [n] A)" "n \<notin> set (concat (remove1 [n] A))" "set (remove1 [n] A) \<subseteq> set A"
proof -
  have d: "distinct (concat A)" using assms(1) by (simp add: rings_def)
  have "xs \<noteq> [n]" using assms(4,5) by auto
  then show "xs \<in> set (remove1 [n] A)" using assms(3) by simp
  show "set (remove1 [n] A) \<subseteq> set A" by (rule set_remove1_subset)
  show "distinct (concat (remove1 [n] A))" "n \<notin> set (concat (remove1 [n] A))"
    using remove_ring [OF d, of "[n]"] assms(2) d by (cases "[n] \<in> set A"; auto simp: loose_def remove1_idem)+
qed

text \<open>The rings that go in and the rings that come out, with the rest as it was.\<close>

lemma rings_replace:
  assumes h: "rings h A" and B: "set B \<subseteq> set A" "distinct (concat B)" and new: "\<forall>xs \<in> set N. ring h' xs" "distinct (concat N)"
    "set (concat N) \<inter> set (concat B) = {}"
    and frame: "\<And>n. n \<notin> set (concat N) \<Longrightarrow> nxt h' n = nxt h n \<and> prv h' n = prv h n"
  shows "rings h' (N @ B)"
proof -
  have "rings h' B" by (rule rings_frame [OF h B]) (use new(3) frame in blast)
  then show ?thesis using new by (auto simp: rings_def)
qed

lemma insert_after_step:
  assumes h: "rings h A" and x: "xs \<in> set A" "p \<in> set xs" and n: "loose n A" "p \<noteq> n"
  shows "rings (pj_list_insert_after p n h) (place_after p [n] xs # remove1 xs (remove1 [n] A))"
proof -
  obtain ys zs where s: "xs = ys @ p # zs" "p \<notin> set ys" "ring h (p # zs @ ys)" "distinct xs" "nxt h p \<in> set xs"
    using split_ring [OF h x] by blast
  note L = loose_removed [OF h n(1) x n(2)]
  note R = remove_ring [OF L(1,2)]
  have nx: "n \<notin> set xs" using L(2,3) by auto
  have "ring (pj_list_insert_after p n h) (p # n # zs @ ys)" by (rule ring_insert_after [OF s(3)]) (use nx s(1) in auto)
  then have r: "ring (pj_list_insert_after p n h) (ys @ p # n # zs)" using ring_rotate [of _ ys "p # n # zs"] by simp
  have "rings (pj_list_insert_after p n h) ([place_after p [n] xs] @ remove1 xs (remove1 [n] A))"
  proof (rule rings_replace [OF h])
    have ne: "xs \<noteq> []" using x(2) by auto
    show "set (remove1 xs (remove1 [n] A)) \<subseteq> set A" "distinct (concat (remove1 xs (remove1 [n] A)))" using R(1,3) [OF ne] L(4) by auto
    show "\<forall>xs \<in> set [place_after p [n] xs]. ring (pj_list_insert_after p n h) xs" using r s(1,2) by (simp add: place_after_split)
    show "distinct (concat [place_after p [n] xs])" using s nx by (auto simp: place_after_split)
    have "n \<notin> set (concat (remove1 xs (remove1 [n] A)))" using L(3) R(3) [OF ne] by auto
    then show "set (concat [place_after p [n] xs]) \<inter> set (concat (remove1 xs (remove1 [n] A))) = {}"
      using R(2) [OF ne] s(1,2) by (auto simp: place_after_split)
    fix a assume "a \<notin> set (concat [place_after p [n] xs])"
    then have "a \<noteq> n" "a \<noteq> p" "a \<noteq> nxt h p" using s by (auto simp: place_after_split)
    then show "nxt (pj_list_insert_after p n h) a = nxt h a \<and> prv (pj_list_insert_after p n h) a = prv h a"
      using n(2) by (auto simp: pj_list_insert_after_def link_defs Let_def)
  qed
  then show ?thesis by simp
qed

lemma place_before_after:
  assumes h: "rings h A" and x: "xs \<in> set A" "p \<in> set xs"
  shows "prv h p \<in> set xs" "place_before p ns xs = place_after (prv h p) ns xs"
proof -
  obtain ys zs where s: "xs = ys @ p # zs" "p \<notin> set ys" "ring h (p # zs @ ys)" "distinct xs" "prv h p \<in> set xs"
    using split_ring [OF h x] by blast
  show "prv h p \<in> set xs" by (rule s(5))
  have q: "prv h p = last (p # zs @ ys)" by (rule ring_ends(2) [OF s(3)])
  show "place_before p ns xs = place_after (prv h p) ns xs"
  proof (cases ys rule: rev_cases)
    case Nil
    then have "xs = butlast xs @ [prv h p]" using q s(1) by simp
    moreover have "prv h p \<notin> set (butlast xs)" using s(4) calculation by (metis distinct_append disjoint_iff list.set_intros(1))
    ultimately have "place_after (prv h p) ns xs = xs @ ns" using place_after_split [of "prv h p" "butlast xs" ns "[]"] by simp
    then show ?thesis using Nil s(1) by (simp add: place_before_def)
  next
    case (snoc us q')
    then have "xs = us @ prv h p # p # zs" "prv h p \<notin> set us" using q s(1,4) by simp_all
    then have "place_after (prv h p) ns xs = us @ prv h p # ns @ p # zs" by (simp add: place_after_split)
    moreover have "p \<noteq> hd xs" using s(1,2) snoc by (cases us) auto
    ultimately show ?thesis using s(1,2) snoc q by (simp add: place_before_def takeWhile_append dropWhile_append)
  qed
qed

lemma init_step:
  assumes h: "rings h A" and n: "loose n A"
  shows "rings (pj_list_init n h) ([n] # remove1 [n] A)"
proof -
  have d: "distinct (concat A)" using h by (simp add: rings_def)
  have r: "distinct (concat (remove1 [n] A))" "n \<notin> set (concat (remove1 [n] A))"
    using remove_ring [OF d, of "[n]"] n d by (cases "[n] \<in> set A"; auto simp: loose_def remove1_idem)+
  have "rings (pj_list_init n h) ([[n]] @ remove1 [n] A)"
  proof (rule rings_replace [OF h set_remove1_subset r(1)])
    show "\<forall>xs \<in> set [[n]]. ring (pj_list_init n h) xs" by (simp add: ring_init)
    show "nxt (pj_list_init n h) a = nxt h a \<and> prv (pj_list_init n h) a = prv h a" if "a \<notin> set (concat [[n]])" for a
      using that by (simp add: link_defs)
  qed (use r in auto)
  then show ?thesis by simp
qed

lemma two_rings:
  assumes h: "rings h A" and x: "xs \<in> set A" and y: "ys \<in> set A" and ne: "xs \<noteq> ys"
  shows "set xs \<inter> set ys = {}" "set (remove1 xs (remove1 ys A)) \<subseteq> set A" "distinct (concat (remove1 xs (remove1 ys A)))"
    "(set xs \<union> set ys) \<inter> set (concat (remove1 xs (remove1 ys A))) = {}"
proof -
  have d: "distinct (concat A)" and e: "xs \<noteq> []" "ys \<noteq> []" using h x y by (auto simp: rings_def ring_def)
  note Y = remove_ring [OF d y e(2)]
  have "xs \<in> set (remove1 ys A)" using x ne by simp
  note X = remove_ring [OF Y(1) this e(1)]
  show "set xs \<inter> set ys = {}" using Y(2) X(4) by blast
  show "set (remove1 xs (remove1 ys A)) \<subseteq> set A" using Y(3) X(3) by blast
  show "distinct (concat (remove1 xs (remove1 ys A)))" by (rule X(1))
  show "(set xs \<union> set ys) \<inter> set (concat (remove1 xs (remove1 ys A))) = {}" using Y(2) X(2,4) by blast
qed

lemma insert_nodes_step:
  assumes h: "rings h A" and x: "xs \<in> set A" "p \<in> set xs" and y: "ys \<in> set A" "l \<in> set ys" "l = hd ys" and ne: "xs \<noteq> ys"
  shows "rings (pj_list_insert_nodes_after p l h) (place_after p ys xs # remove1 xs (remove1 ys A))"
proof -
  obtain us vs where s: "xs = us @ p # vs" "p \<notin> set us" "ring h (p # vs @ us)" "distinct xs" "nxt h p \<in> set xs"
    using split_ring [OF h x] by blast
  obtain ws where w: "ys = l # ws" using y(2,3) by (cases ys) auto
  note T = two_rings [OF h x(1) y(1) ne]
  have ry: "ring h (l # ws)" using h y(1) w by (simp add: rings_def)
  have ly: "prv h l \<in> set ys" using ring_ends(2) [OF ry] last_in_set [of ys] w by auto
  have "ring (pj_list_insert_nodes_after p l h) (p # (l # ws) @ vs @ us)"
    by (rule ring_insert_nodes_after [OF s(3) ry]) (use T(1) s(1) w in auto)
  then have r: "ring (pj_list_insert_nodes_after p l h) (us @ p # ys @ vs)" using ring_rotate [of _ us "p # ys @ vs"] w by simp
  have "rings (pj_list_insert_nodes_after p l h) ([place_after p ys xs] @ remove1 xs (remove1 ys A))"
  proof (rule rings_replace [OF h T(2,3)])
    show "\<forall>xs \<in> set [place_after p ys xs]. ring (pj_list_insert_nodes_after p l h) xs" using r s(1,2) by (simp add: place_after_split)
    then show "distinct (concat [place_after p ys xs])" by (simp add: ring_def)
    show "set (concat [place_after p ys xs]) \<inter> set (concat (remove1 xs (remove1 ys A))) = {}"
      using T(4) s(1,2) by (auto simp: place_after_split)
    fix a assume "a \<notin> set (concat [place_after p ys xs])"
    then have "a \<noteq> p" "a \<noteq> nxt h p" "a \<noteq> l" "a \<noteq> prv h l" using s ly y(2) by (auto simp: place_after_split)
    then show "nxt (pj_list_insert_nodes_after p l h) a = nxt h a \<and> prv (pj_list_insert_nodes_after p l h) a = prv h a"
      by (simp add: pj_list_insert_nodes_after_def link_defs Let_def)
  qed
  then show ?thesis by simp
qed

lemma erase_step:
  assumes h: "rings h A" and x: "xs \<in> set A" "n \<in> set xs"
  shows "rings (pj_list_erase n h) ([n] # (if remove1 n xs = [] then [] else [remove1 n xs]) @ remove1 xs A)"
proof -
  obtain us vs where s: "xs = us @ n # vs" "n \<notin> set us" "ring h (n # vs @ us)" "distinct xs" "nxt h n \<in> set xs" "prv h n \<in> set xs"
    using split_ring [OF h x] by blast
  have d: "distinct (concat A)" and e: "xs \<noteq> []" using h x by (auto simp: rings_def)
  note R = remove_ring [OF d x(1) e]
  have rm: "remove1 n xs = us @ vs" using s(1,2) by (simp add: remove1_append)
  let ?N = "[n] # (if remove1 n xs = [] then [] else [remove1 n xs])"
  have ring: "ring (pj_list_erase n h) (us @ vs)" if "us @ vs \<noteq> []"
    using ring_erase(2) [OF s(3)] that ring_rotate [of _ us vs] by auto
  have "rings (pj_list_erase n h) (?N @ remove1 xs A)"
  proof (rule rings_replace [OF h R(3,1)])
    show "\<forall>xs \<in> set ?N. ring (pj_list_erase n h) xs" using ring ring_erase(1) [OF s(3)] rm by auto
    have N: "set (concat ?N) = set xs" using rm s(1) by auto
    show "distinct (concat ?N)" using s(1,4) rm by auto
    show "set (concat ?N) \<inter> set (concat (remove1 xs A)) = {}" unfolding N by (rule R(2))
    fix a assume "a \<notin> set (concat ?N)"
    then have "a \<noteq> n" "a \<noteq> nxt h n" "a \<noteq> prv h n" unfolding N using s x(2) by auto
    then show "nxt (pj_list_erase n h) a = nxt h a \<and> prv (pj_list_erase n h) a = prv h a" by (simp add: pj_list_erase_def link_defs)
  qed
  then show ?thesis by simp
qed

lemma merge_frame:
  assumes "ring h (a # xs)" "ring h (b # ys)" "c \<notin> set (a # xs)" "c \<notin> set (b # ys)"
  shows "nxt (pj_list_merge_last a b h) c = nxt h c \<and> prv (pj_list_merge_last a b h) c = prv h c"
    "nxt (pj_list_merge_first a b h) c = nxt h c \<and> prv (pj_list_merge_first a b h) c = prv h c"
proof -
  have m: "nxt h z \<in> set (z # zs)" "prv h z \<in> set (z # zs)" if "ring h (z # zs)" for z zs
  proof -
    have "hd (zs @ [z]) \<in> set (zs @ [z])" "last (z # zs) \<in> set (z # zs)" by (rule hd_in_set, simp, rule last_in_set, simp)
    then show "nxt h z \<in> set (z # zs)" "prv h z \<in> set (z # zs)" using ring_ends(1,2) [OF that] by auto
  qed
  have c: "c \<noteq> a" "c \<noteq> b" "c \<noteq> nxt h a" "c \<noteq> prv h a" "c \<noteq> nxt h b" "c \<noteq> prv h b" using m [OF assms(1)] m [OF assms(2)] assms(3,4) by auto
  show "nxt (pj_list_merge_last a b h) c = nxt h c \<and> prv (pj_list_merge_last a b h) c = prv h c"
    using c by (simp add: pj_list_merge_last_def link_defs Let_def)
  show "nxt (pj_list_merge_first a b h) c = nxt h c \<and> prv (pj_list_merge_first a b h) c = prv h c"
    using c by (simp add: pj_list_merge_first_def link_defs Let_def)
qed

lemma merge_step:
  assumes h: "rings h A" and x: "xs \<in> set A" "a \<in> set xs" "a = hd xs" and y: "ys \<in> set A" "b \<in> set ys" "b = hd ys" and ne: "xs \<noteq> ys"
  shows "rings (pj_list_merge_last a b h) ((xs @ tl ys) # [b] # remove1 xs (remove1 ys A))"
    and "rings (pj_list_merge_first a b h) ((a # tl ys @ tl xs) # [b] # remove1 xs (remove1 ys A))"
proof -
  have e: "xs \<noteq> []" "ys \<noteq> []" using x(2) y(2) by auto
  obtain us vs where s: "xs = a # us" "ys = b # vs" using x(3) y(3) e that [of "tl xs" "tl ys"] by simp
  have r: "ring h (a # us)" "ring h (b # vs)" using h x(1) y(1) s by (auto simp: rings_def)
  note T = two_rings [OF h x(1) y(1) ne]
  have dis: "set (a # us) \<inter> set (b # vs) = {}" using T(1) s by simp
  note L = ring_merge_last [OF r dis] and F = ring_merge_first [OF r dis] and G = merge_frame [OF r]
  have dd: "distinct (a # us)" "distinct (b # vs)" using r by (simp_all add: ring_Cons)
  have "rings (pj_list_merge_last a b h) ([xs @ tl ys, [b]] @ remove1 xs (remove1 ys A))"
    by (rule rings_replace [OF h T(2,3)]) (use L T(4) dd dis G(1) s in auto)
  then show "rings (pj_list_merge_last a b h) ((xs @ tl ys) # [b] # remove1 xs (remove1 ys A))" by simp
  have "rings (pj_list_merge_first a b h) ([a # tl ys @ tl xs, [b]] @ remove1 xs (remove1 ys A))"
    by (rule rings_replace [OF h T(2,3)]) (use F T(4) dd dis G(2) s in auto)
  then show "rings (pj_list_merge_first a b h) ((a # tl ys @ tl xs) # [b] # remove1 xs (remove1 ys A))" by simp
qed

lemma list_step:
  assumes h: "rings h A" and s: "list_spec x A = Some A'"
  shows "rings (list_exec x h) A'"
proof (cases x)
  case (L_Init n)
  then show ?thesis using init_step [OF h] s by (auto split: if_splits)
next
  case (L_Insert_After p n)
  then obtain xs where "ring_of p A = Some xs" "loose n A" "p \<noteq> n" "A' = place_after p [n] xs # remove1 xs (remove1 [n] A)"
    using s by (auto split: bind_splits if_splits)
  then show ?thesis using insert_after_step [OF h] ring_of_Some L_Insert_After by auto
next
  case (L_Insert_Before p n)
  then obtain xs where r: "ring_of p A = Some xs" "loose n A" "p \<noteq> n" "A' = place_before p [n] xs # remove1 xs (remove1 [n] A)"
    using s by (auto split: bind_splits if_splits)
  have x: "xs \<in> set A" "p \<in> set xs" using ring_of_Some [OF r(1)] by simp_all
  note B = place_before_after [OF h x]
  have "n \<notin> set xs" using loose_removed(2,3) [OF h r(2) x r(3)] by auto
  then have "prv h p \<noteq> n" using B(1) by auto
  from insert_after_step [OF h x(1) B(1) r(2) this] show ?thesis using r(4) B(2) L_Insert_Before by (simp add: pj_list_insert_before_def)
next
  case (L_Insert_Nodes_After p l)
  then obtain xs ys where r: "ring_of p A = Some xs" "ring_of l A = Some ys" "xs \<noteq> ys" "l = hd ys" "A' = place_after p ys xs # remove1 xs (remove1 ys A)"
    using s by (auto split: bind_splits if_splits)
  then show ?thesis using insert_nodes_step [OF h _ _ _ _ r(4,3), of p] ring_of_Some [OF r(1)] ring_of_Some [OF r(2)] L_Insert_Nodes_After by simp
next
  case (L_Erase n)
  then obtain xs where r: "ring_of n A = Some xs" "A' = [n] # (if remove1 n xs = [] then [] else [remove1 n xs]) @ remove1 xs A"
    using s by (auto split: bind_splits)
  then show ?thesis using erase_step [OF h] ring_of_Some [OF r(1)] L_Erase by simp
next
  case (L_Merge_Last a b)
  then obtain xs ys where r: "ring_of a A = Some xs" "ring_of b A = Some ys" "xs \<noteq> ys" "a = hd xs" "b = hd ys"
    "A' = (xs @ tl ys) # [b] # remove1 xs (remove1 ys A)" using s by (auto split: bind_splits if_splits)
  then show ?thesis using merge_step(1) [OF h _ _ r(4) _ _ r(5,3)] ring_of_Some [OF r(1)] ring_of_Some [OF r(2)] L_Merge_Last by simp
next
  case (L_Merge_First a b)
  then obtain xs ys where r: "ring_of a A = Some xs" "ring_of b A = Some ys" "xs \<noteq> ys" "a = hd xs" "b = hd ys"
    "A' = (a # tl ys @ tl xs) # [b] # remove1 xs (remove1 ys A)" using s by (auto split: bind_splits if_splits)
  then show ?thesis using merge_step(2) [OF h _ _ r(4) _ _ r(5,3)] ring_of_Some [OF r(1)] ring_of_Some [OF r(2)] L_Merge_First by simp
qed

section \<open>Properties\<close>

fun list_run :: "list_op list \<Rightarrow> links \<Rightarrow> links" where
  "list_run [] h = h"
| "list_run (x # xs) h = list_run xs (list_exec x h)"

fun list_spec_run :: "list_op list \<Rightarrow> node list list \<Rightarrow> node list list option" where
  "list_spec_run [] A = Some A"
| "list_spec_run (x # xs) A = do { A' \<leftarrow> list_spec x A; list_spec_run xs A' }"

lemma list_runs: "rings h A \<Longrightarrow> list_spec_run ops A = Some A' \<Longrightarrow> rings (list_run ops h) A'"
proof (induction ops arbitrary: h A)
  case (Cons x ops)
  then obtain B where "list_spec x A = Some B" "list_spec_run ops B = Some A'" by (auto split: bind_splits)
  then show ?case using Cons.IH [OF list_step [OF Cons.prems(1)]] by simp
qed simp

text \<open>
C5. Any sequence of initialising, inserting, moving, merging and erasing does to the links what
its specification does to lists of nodes, as long as every node that is put into a list is in none
or alone and the lists that are joined are different: the store holds, closed in both directions
and with no node in two of them, exactly the rings the specification gives.
\<close>

theorem list_refines:
  assumes "rings h A" and "list_spec_run ops A = Some A'"
  shows "rings (list_run ops h) A'"
  using assms by (rule list_runs)

theorem list_refines_witness:
  "rings (list_run [L_Init 0, L_Init 9, L_Insert_Before 0 1, L_Insert_Before 0 2, L_Insert_After 0 3, L_Insert_Before 9 4, L_Insert_After 9 5,
      L_Erase 1, L_Merge_Last 0 9, L_Insert_Nodes_After 3 9] \<lparr>nxt = \<lambda>_. 7, prv = \<lambda>_. 7\<rparr>)
    [[0, 3, 9, 2, 5, 4], [1]]"
proof (rule list_refines [where A = "[]"])
  show "rings \<lparr>nxt = \<lambda>_. 7, prv = \<lambda>_. 7\<rparr> []" by (simp add: rings_def)
qed (simp add: ring_of_def loose_def place_after_def place_before_def)

text \<open>
C35. On a list of a store whose rings are closed the loops end: the size is the number of nodes,
the search gives the first node that compares equal or the null pointer, and a node other than the
head is found exactly when it is in the list.
\<close>

theorem list_loops_end:
  assumes "rings h A" and "l # xs \<in> set A" and "n \<noteq> l"
  shows "pj_list_size l h = Some (length xs) \<and> (pj_list_empty l h \<longleftrightarrow> xs = [])
    \<and> pj_list_search cmp l h = Some (find (\<lambda>x. cmp x = 0) xs)
    \<and> pj_list_find_node l n h = Some (if n \<in> set xs then Some n else None)"
proof -
  have r: "ring h (l # xs)" using assms by (simp add: rings_def)
  have e: "nxt h l = hd (xs @ [l])" by (rule ring_ends(1) [OF r])
  have "pj_list_size l h = Some (length xs)" using size_loop_ring [of h l "[]" xs 0] r e by (simp add: pj_list_size_def)
  moreover have "pj_list_search cmp l h = Some (find (\<lambda>x. cmp x = 0) xs)"
  proof -
    have "l \<notin> set xs" using r by (simp add: ring_Cons)
    then have "x \<noteq> l" if "find (\<lambda>x. cmp x = 0) xs = Some x" for x using that by (auto simp: find_Some_iff)
    then show ?thesis using search_loop_ring [of h l "[]" xs cmp] r e
      by (cases "find (\<lambda>x. cmp x = 0) xs") (simp_all add: pj_list_search_def)
  qed
  moreover have "pj_list_find_node l n h = Some (if n \<in> set xs then Some n else None)"
    using find_loop_ring [of h l "[]" xs n] r e assms(3) by (simp add: pj_list_find_node_def)
  ultimately show ?thesis using ring_empty [OF r] by blast
qed

theorem list_loops_end_witness:
  "pj_list_size 0 (list_run [L_Init 0, L_Insert_Before 0 1, L_Insert_Before 0 2] \<lparr>nxt = \<lambda>_. 7, prv = \<lambda>_. 7\<rparr>) = Some 2
   \<and> pj_list_find_node 0 2 (list_run [L_Init 0, L_Insert_Before 0 1, L_Insert_Before 0 2] \<lparr>nxt = \<lambda>_. 7, prv = \<lambda>_. 7\<rparr>) = Some (Some 2)"
proof -
  let ?h = "list_run [L_Init 0, L_Insert_Before 0 1, L_Insert_Before 0 2] \<lparr>nxt = \<lambda>_. 7, prv = \<lambda>_. 7\<rparr>"
  have r: "rings ?h [[0, 1, 2]]"
    by (rule list_runs [where A = "[]"]) (simp_all add: rings_def ring_of_def loose_def place_after_def place_before_def)
  have m: "0 # [1, 2] \<in> set [[0, 1, 2 :: nat]]" by simp
  show ?thesis using list_loops_end [OF r m, of 2] by simp
qed

end
