(* ===== verification/Pj_Pool.thy ===== *)
theory Pj_Pool
  imports Pj_Prelude
begin

unbundle bit_operations_syntax

text \<open>
  Memory pools: \<^verbatim>\<open>pjlib/src/pj/pool.c\<close>, \<^verbatim>\<open>pool_i.h\<close> and \<^verbatim>\<open>pool_buf.c\<close>. A pool is a list of blocks from which areas are cut at the front; nothing is
  given back but everything at once. Addresses are integers. Sizes given by the caller are of type \<^verbatim>\<open>pj_size_t\<close>, 64 bits wide, and are wrapped where the code
  does arithmetic on them. What the factory answers when a pool asks for a block is the argument \<open>balloc\<close>, from the size to the
  address or nothing. Each operation also gives the requests it made to the factory, in order. Contents of memory, names and locks
  are left out.
\<close>

section \<open>Model\<close>

definition to_size :: "int \<Rightarrow> int" where
  "to_size x = x mod 2 ^ 64"

record pj_pool_block =
  blk_addr :: int
  blk_buf :: int
  blk_cur :: int
  blk_end :: int

record pj_pool =
  pool_addr :: int
  block_list :: "pj_pool_block list"
  pool_capacity :: int
  increment_size :: int
  factory_data :: nat

text \<open>The sizes of the two structures where pointers have 64 bits and names 32 characters.\<close>

definition sizeof_pool_block :: int where
  "sizeof_pool_block = 40"

definition sizeof_pool :: int where
  "sizeof_pool = 128"

definition PJ_POOL_ALIGNMENT :: int where
  "PJ_POOL_ALIGNMENT = 4"

definition ALIGN_PTR :: "int \<Rightarrow> int" where
  "ALIGN_PTR p = p + ((- p) AND (PJ_POOL_ALIGNMENT - 1))"

datatype block_event = Block_Alloc int "int option" | Block_Free int int

text \<open>
  What an allocation gives: an address; a null pointer after the callback of the pool was called, which by default throws; or a null
  pointer without that.
\<close>

datatype pool_result = Ptr int | No_Memory | Null

definition round_size :: "int \<Rightarrow> int" where
  "round_size n =
     (if n AND (PJ_POOL_ALIGNMENT - 1) \<noteq> 0 then to_size (n + PJ_POOL_ALIGNMENT) AND NOT (PJ_POOL_ALIGNMENT - 1) else n)"

definition pj_pool_alloc_from_block :: "pj_pool_block \<Rightarrow> int \<Rightarrow> int option \<times> pj_pool_block" where
  "pj_pool_alloc_from_block b n =
     (let n = round_size n
      in if to_size (blk_end b - blk_cur b) \<ge> n then (Some (blk_cur b), b\<lparr>blk_cur := blk_cur b + n\<rparr>) else (None, b))"

definition new_block :: "int \<Rightarrow> int \<Rightarrow> int \<Rightarrow> pj_pool_block" where
  "new_block start buf fin = \<lparr>blk_addr = start, blk_buf = buf, blk_cur = ALIGN_PTR buf, blk_end = fin\<rparr>"

definition pj_pool_create_block :: "(int \<Rightarrow> int option) \<Rightarrow> pj_pool \<Rightarrow> int \<Rightarrow> bool \<times> pj_pool" where
  "pj_pool_create_block balloc pool n =
     (case balloc n of
        None \<Rightarrow> (False, pool)
      | Some a \<Rightarrow>
          (True, pool\<lparr>pool_capacity := pool_capacity pool + n,
                      block_list := new_block a (a + sizeof_pool_block) (a + n) # block_list pool\<rparr>))"

text \<open>The search for a block with room.\<close>

fun find_block :: "pj_pool_block list \<Rightarrow> int \<Rightarrow> (int \<times> pj_pool_block list) option" where
  "find_block [] n = None"
| "find_block (b # bs) n =
     (case pj_pool_alloc_from_block b n of
        (Some p, b) \<Rightarrow> Some (p, b # bs)
      | (None, b) \<Rightarrow> map_option (\<lambda>(p, bs). (p, b # bs)) (find_block bs n))"

definition grow_size :: "int \<Rightarrow> int \<Rightarrow> int" where
  "grow_size inc n =
     (if inc < to_size (n + sizeof_pool_block + PJ_POOL_ALIGNMENT)
      then to_size (to_size (n + inc + sizeof_pool_block + PJ_POOL_ALIGNMENT) div inc * inc)
      else inc)"

definition pj_pool_allocate_find :: "(int \<Rightarrow> int option) \<Rightarrow> pj_pool \<Rightarrow> int \<Rightarrow> pool_result \<times> pj_pool \<times> block_event list" where
  "pj_pool_allocate_find balloc pool n =
     (case find_block (block_list pool) n of
        Some (p, bs) \<Rightarrow> (Ptr p, pool\<lparr>block_list := bs\<rparr>, [])
      | None \<Rightarrow>
          if increment_size pool = 0 then (No_Memory, pool, [])
          else
            (let block_size = grow_size (increment_size pool) n;
                 ev = [Block_Alloc block_size (balloc block_size)];
                 (ok, pool) = pj_pool_create_block balloc pool block_size
             in if \<not> ok then (No_Memory, pool, ev)
                else
                  (case pj_pool_alloc_from_block (hd (block_list pool)) n of
                     (Some p, b) \<Rightarrow> (Ptr p, pool\<lparr>block_list := b # tl (block_list pool)\<rparr>, ev)
                   | (None, b) \<Rightarrow> (Null, pool, ev))))"

text \<open>A pool always has its first block.\<close>

definition pj_pool_alloc :: "(int \<Rightarrow> int option) \<Rightarrow> pj_pool \<Rightarrow> int \<Rightarrow> pool_result \<times> pj_pool \<times> block_event list" where
  "pj_pool_alloc balloc pool n =
     (case pj_pool_alloc_from_block (hd (block_list pool)) n of
        (Some p, b) \<Rightarrow> (Ptr p, pool\<lparr>block_list := b # tl (block_list pool)\<rparr>, [])
      | (None, b) \<Rightarrow> pj_pool_allocate_find balloc pool n)"

definition pj_pool_calloc :: "(int \<Rightarrow> int option) \<Rightarrow> pj_pool \<Rightarrow> int \<Rightarrow> int \<Rightarrow> pool_result \<times> pj_pool \<times> block_event list" where
  "pj_pool_calloc balloc pool num n = pj_pool_alloc balloc pool (to_size (n * num))"

definition pj_pool_init_int :: "pj_pool \<Rightarrow> int \<Rightarrow> pj_pool" where
  "pj_pool_init_int pool inc = pool\<lparr>increment_size := inc\<rparr>"

definition pj_pool_create_int :: "(int \<Rightarrow> int option) \<Rightarrow> int \<Rightarrow> int \<Rightarrow> pj_pool option \<times> block_event list" where
  "pj_pool_create_int balloc initial_size inc =
     (if \<not> initial_size \<ge> sizeof_pool + sizeof_pool_block then (None, [])
      else
        (case balloc initial_size of
           None \<Rightarrow> (None, [Block_Alloc initial_size None])
         | Some buffer \<Rightarrow>
             (let block = buffer + sizeof_pool;
                  pool = \<lparr>pool_addr = buffer,
                          block_list = [new_block block (block + sizeof_pool_block) (buffer + initial_size)],
                          pool_capacity = 0, increment_size = 0, factory_data = 0\<rparr>
              in (Some ((pj_pool_init_int pool inc)\<lparr>pool_capacity := initial_size\<rparr>), [Block_Alloc initial_size (Some buffer)]))))"

text \<open>The first block, at the end of the list, lies in the memory of the pool itself and stays; the others are freed from the end on.\<close>

definition reset_pool :: "pj_pool \<Rightarrow> pj_pool \<times> block_event list" where
  "reset_pool pool =
     (case rev (block_list pool) of
        [] \<Rightarrow> (pool, [])
      | first # rest \<Rightarrow>
          (pool\<lparr>block_list := [first\<lparr>blk_cur := ALIGN_PTR (blk_buf first)\<rparr>], pool_capacity := blk_end first - pool_addr pool\<rparr>,
           map (\<lambda>b. Block_Free (blk_addr b) (blk_end b - blk_addr b)) rest))"

definition pj_pool_reset :: "pj_pool \<Rightarrow> pj_pool \<times> block_event list" where
  "pj_pool_reset pool = reset_pool pool"

definition pj_pool_destroy_int :: "pj_pool \<Rightarrow> block_event list" where
  "pj_pool_destroy_int pool =
     (let (pool, ev) = reset_pool pool;
          initial_size = blk_end (hd (block_list pool)) - pool_addr pool
      in ev @ [Block_Free (pool_addr pool) initial_size])"

definition pj_pool_get_capacity :: "pj_pool \<Rightarrow> int" where
  "pj_pool_get_capacity pool = pool_capacity pool"

fun used_loop :: "pj_pool_block list \<Rightarrow> int \<Rightarrow> int" where
  "used_loop [] used = used"
| "used_loop (b # bs) used = used_loop bs (used + (blk_cur b - blk_buf b) + sizeof_pool_block)"

definition pj_pool_get_used_size :: "pj_pool \<Rightarrow> int" where
  "pj_pool_get_used_size pool = used_loop (block_list pool) sizeof_pool"

text \<open>
  A pool on memory of the caller: the factory gives that memory once, if it is large enough, and nothing afterwards. The address may be
  any, a null pointer is 0.
\<close>

definition stack_alloc :: "int \<Rightarrow> int \<Rightarrow> int \<Rightarrow> int option" where
  "stack_alloc stack_buf stack_size n = (if n \<le> stack_size then Some stack_buf else None)"

definition pj_pool_create_on_buf :: "int \<Rightarrow> int \<Rightarrow> pj_pool option" where
  "pj_pool_create_on_buf buf n =
     (if buf = 0 \<or> n = 0 then None
      else
        (let diff = buf AND (PJ_POOL_ALIGNMENT - 1);
             (buf, n) = (if diff \<noteq> 0 then (buf + diff, to_size (n - diff)) else (buf, n))
         in fst (pj_pool_create_int (stack_alloc buf n) n 0)))"

section \<open>Alignment and rounding\<close>

lemma to_size_id: "0 \<le> x \<Longrightarrow> x < 2 ^ 64 \<Longrightarrow> to_size x = x"
  by (simp add: to_size_def)

lemma and_align: "(x :: int) AND (PJ_POOL_ALIGNMENT - 1) = x mod 4"
  using take_bit_eq_mask [of 2 x] by (simp add: PJ_POOL_ALIGNMENT_def take_bit_eq_mod mask_eq_exp_minus_1)

lemma and_not_align: "(x :: int) AND NOT (PJ_POOL_ALIGNMENT - 1) = x - x mod 4"
proof -
  have "x AND NOT (mask 2) = push_bit 2 (drop_bit 2 x)"
    by (rule bit_eqI) (auto simp: bit_simps not_less dest!: le_Suc_ex)
  also have "\<dots> = x div 4 * 4" by (simp add: push_bit_eq_mult drop_bit_eq_div)
  finally show ?thesis by (simp add: PJ_POOL_ALIGNMENT_def mask_eq_exp_minus_1 minus_mod_eq_div_mult)
qed

lemma ALIGN_PTR_eq: "ALIGN_PTR p = p + (- p) mod 4"
  by (simp only: ALIGN_PTR_def and_align)

lemma ALIGN_PTR_bounds: "p \<le> ALIGN_PTR p" "ALIGN_PTR p \<le> p + 3" "ALIGN_PTR p mod 4 = 0" "p mod 4 = 0 \<Longrightarrow> ALIGN_PTR p = p"
  unfolding ALIGN_PTR_eq by presburger+

lemma round_size_small:
  assumes "0 \<le> n" "n < 2 ^ 63"
  shows "n \<le> round_size n" "round_size n \<le> n + 3" "round_size n mod 4 = 0" "round_size n < 2 ^ 64"
proof -
  have "round_size n = (if n mod 4 \<noteq> 0 then (n + 4) - (n + 4) mod 4 else n)"
    using assms unfolding round_size_def and_align and_not_align by (simp add: to_size_id PJ_POOL_ALIGNMENT_def)
  then show "n \<le> round_size n" "round_size n \<le> n + 3" "round_size n mod 4 = 0" "round_size n < 2 ^ 64"
    using assms by (auto split: if_splits) presburger+
qed

section \<open>Invariant\<close>

text \<open>Areas of memory, from an address with a length, and when they are apart.\<close>

type_synonym area = "int \<times> int"

fun apart :: "area \<Rightarrow> area \<Rightarrow> bool" where
  "apart (a, n) (b, m) \<longleftrightarrow> a + n \<le> b \<or> b + m \<le> a"

lemma apart_sym: "apart x y \<Longrightarrow> apart y x"
  by (cases x; cases y) auto

lemma apart_sub: "apart (a, n) y \<Longrightarrow> a \<le> a' \<Longrightarrow> a' + n' \<le> a + n \<Longrightarrow> apart (a', n') y"
  by (cases y) auto

definition block_area :: "pj_pool_block \<Rightarrow> area" where
  "block_area b = (blk_addr b, blk_end b - blk_addr b)"

definition block_ok :: "pj_pool_block \<Rightarrow> bool" where
  "block_ok b \<longleftrightarrow> blk_addr b + sizeof_pool_block = blk_buf b \<and> blk_buf b \<le> blk_cur b \<and> blk_cur b \<le> blk_end b
     \<and> blk_cur b mod 4 = 0 \<and> blk_end b - blk_buf b < 2 ^ 63"

definition pool_inv :: "pj_pool \<Rightarrow> bool" where
  "pool_inv p \<longleftrightarrow> block_list p \<noteq> [] \<and> list_all block_ok (block_list p)
     \<and> sorted_wrt apart (map block_area (block_list p) @ [(pool_addr p, sizeof_pool)])
     \<and> blk_addr (last (block_list p)) = pool_addr p + sizeof_pool
     \<and> pool_capacity p = sizeof_pool + sum_list (map (\<lambda>b. blk_end b - blk_addr b) (block_list p))
     \<and> 0 \<le> increment_size p \<and> increment_size p < 2 ^ 62"

text \<open>The areas handed out: each lies in the used part of a block, none overlaps another.\<close>

definition live_inv :: "pj_pool \<Rightarrow> area list \<Rightarrow> bool" where
  "live_inv p as \<longleftrightarrow> sorted_wrt apart as
     \<and> (\<forall>(a, n) \<in> set as. 0 \<le> n \<and> a mod 4 = 0 \<and> (\<exists>b \<in> set (block_list p). blk_buf b \<le> a \<and> a + n \<le> blk_cur b))"

text \<open>The factory gives aligned memory that is apart from what the pool has, of a size that exists.\<close>

definition grants :: "(int \<Rightarrow> int option) \<Rightarrow> pj_pool \<Rightarrow> bool" where
  "grants balloc p \<longleftrightarrow>
     (\<forall>n a. balloc n = Some a \<longrightarrow> a mod 4 = 0 \<and> n < 2 ^ 63
       \<and> (\<forall>y \<in> set (map block_area (block_list p) @ [(pool_addr p, sizeof_pool)]). apart (a, n) y))"

section \<open>One allocation\<close>

lemma alloc_from_block_cases:
  assumes "block_ok b" "0 \<le> n" "n < 2 ^ 62"
  obtains (some) m where "pj_pool_alloc_from_block b n = (Some (blk_cur b), b\<lparr>blk_cur := blk_cur b + m\<rparr>)"
      "n \<le> m" "m \<le> n + 3" "m mod 4 = 0" "blk_cur b + m \<le> blk_end b"
  | (none) "pj_pool_alloc_from_block b n = (None, b)" "blk_end b - blk_cur b < n + 4"
proof -
  have r: "n \<le> round_size n" "round_size n \<le> n + 3" "round_size n mod 4 = 0" "round_size n < 2 ^ 64"
    using round_size_small [of n] assms by auto
  have e: "to_size (blk_end b - blk_cur b) = blk_end b - blk_cur b"
    using assms(1) by (intro to_size_id) (auto simp: block_ok_def)
  show thesis
  proof (cases "round_size n \<le> blk_end b - blk_cur b")
    case True
    then show thesis using some [of "round_size n"] r by (simp add: pj_pool_alloc_from_block_def e)
  next
    case False
    then show thesis using none r by (simp add: pj_pool_alloc_from_block_def e)
  qed
qed

text \<open>An area of at least \<open>n\<close> bytes is cut from the front of one block.\<close>

definition cut_blocks :: "pj_pool_block list \<Rightarrow> int \<Rightarrow> int \<Rightarrow> pj_pool_block list \<Rightarrow> bool" where
  "cut_blocks bs n a bs' \<longleftrightarrow> (\<exists>xs b ys m. bs = xs @ b # ys \<and> bs' = xs @ b\<lparr>blk_cur := blk_cur b + m\<rparr> # ys
     \<and> a = blk_cur b \<and> n \<le> m \<and> m mod 4 = 0 \<and> blk_cur b + m \<le> blk_end b)"

definition cut :: "pj_pool \<Rightarrow> int \<Rightarrow> int \<Rightarrow> pj_pool \<Rightarrow> bool" where
  "cut p n a p' \<longleftrightarrow> (\<exists>bs'. cut_blocks (block_list p) n a bs' \<and> p' = p\<lparr>block_list := bs'\<rparr>)"

lemma cutI: "cut_blocks (block_list p) n a bs' \<Longrightarrow> cut p n a (p\<lparr>block_list := bs'\<rparr>)"
  unfolding cut_def by blast

lemma cut_blocks_hd:
  "n \<le> m \<Longrightarrow> m mod 4 = 0 \<Longrightarrow> blk_cur b + m \<le> blk_end b \<Longrightarrow> cut_blocks (b # bs) n (blk_cur b) (b\<lparr>blk_cur := blk_cur b + m\<rparr> # bs)"
  unfolding cut_blocks_def by (rule exI [of _ "[]"], rule exI [of _ b], rule exI [of _ bs], rule exI [of _ m]) simp

lemma cut_blocks_tl: "cut_blocks bs n a bs' \<Longrightarrow> cut_blocks (b # bs) n a (b # bs')"
  unfolding cut_blocks_def by (metis append_Cons)

lemma find_block_cases:
  assumes "list_all block_ok bs" "0 \<le> n" "n < 2 ^ 62"
  shows "case find_block bs n of
           None \<Rightarrow> \<forall>b \<in> set bs. blk_end b - blk_cur b < n + 4
         | Some (a, bs') \<Rightarrow> cut_blocks bs n a bs'"
  using assms(1)
proof (induction bs)
  case (Cons b bs)
  then have b: "block_ok b" and bs: "list_all block_ok bs" by simp_all
  show ?case
  proof (cases rule: alloc_from_block_cases [OF b assms(2,3)])
    case (1 m)
    then show ?thesis using cut_blocks_hd by simp
  next
    case 2
    then show ?thesis using Cons.IH [OF bs] cut_blocks_tl by (cases "find_block bs n") auto
  qed
qed simp

lemma cut_inv:
  assumes inv: "pool_inv p" and cut: "cut p n a p'" and n: "0 \<le> n"
  shows "pool_inv p'" and "live_inv p as \<Longrightarrow> live_inv p' ((a, n) # as)"
    and "pool_capacity p' = pool_capacity p" "pool_addr p' = pool_addr p" "increment_size p' = increment_size p"
    and "map block_area (block_list p') = map block_area (block_list p)"
proof -
  obtain xs b ys m where c: "block_list p = xs @ b # ys" "p' = p\<lparr>block_list := xs @ b\<lparr>blk_cur := blk_cur b + m\<rparr> # ys\<rparr>"
      "a = blk_cur b" "n \<le> m" "m mod 4 = 0" "blk_cur b + m \<le> blk_end b"
    using cut by (auto simp: cut_def cut_blocks_def)
  let ?b = "b\<lparr>blk_cur := blk_cur b + m\<rparr>"
  have ok: "list_all block_ok (xs @ b # ys)" using inv c(1) by (simp add: pool_inv_def)
  have b: "block_ok b" using ok by simp
  have b': "block_ok ?b" using b c(4-6) n by (auto simp: block_ok_def mod_add_eq [symmetric])
  show areas: "map block_area (block_list p') = map block_area (block_list p)" using c(1,2) by (simp add: block_area_def)
  have "blk_addr (last (block_list p')) = blk_addr (last (block_list p))" using c(1,2) by auto
  then show "pool_inv p'" using inv areas ok b' c(1,2) unfolding pool_inv_def by simp
  show "pool_capacity p' = pool_capacity p" "pool_addr p' = pool_addr p" "increment_size p' = increment_size p"
    using c(2) by simp_all
  assume live: "live_inv p as"
  have in_b': "\<exists>b \<in> set (block_list p'). blk_buf b \<le> x \<and> x + k \<le> blk_cur b"
    if "\<exists>b \<in> set (block_list p). blk_buf b \<le> x \<and> x + k \<le> blk_cur b" for x k
    using that c(1,2) c(4) n by fastforce
  have apart: "apart (a, n) (x, k)" if xk: "(x, k) \<in> set as" for x k
  proof -
    obtain d where d: "d \<in> set (block_list p)" "blk_buf d \<le> x" "x + k \<le> blk_cur d" using live xk by (fastforce simp: live_inv_def)
    have dok: "block_ok d" using ok d(1) c(1) by (auto simp: list_all_iff)
    show ?thesis
    proof (cases "d = b")
      case True
      then show ?thesis using d c(3) by simp
    next
      case False
      have "sorted_wrt apart (map block_area (xs @ b # ys))" using inv c(1) by (simp add: pool_inv_def sorted_wrt_append)
      then have "apart (block_area b) (block_area d)"
        using False d(1) c(1) by (auto simp: sorted_wrt_append dest: apart_sym)
      then show ?thesis
        using d dok b c(3-6) n by (auto simp: block_area_def block_ok_def sizeof_pool_block_def)
    qed
  qed
  have "blk_buf ?b \<le> a \<and> a + n \<le> blk_cur ?b" using b c(3,4) by (auto simp: block_ok_def)
  moreover have "?b \<in> set (block_list p')" using c(2) by simp
  ultimately have "\<exists>b \<in> set (block_list p'). blk_buf b \<le> a \<and> a + n \<le> blk_cur b" by blast
  moreover have "a mod 4 = 0" using b c(3) by (simp add: block_ok_def)
  moreover have "\<forall>(x, k) \<in> set as. 0 \<le> k \<and> x mod 4 = 0 \<and> (\<exists>b \<in> set (block_list p'). blk_buf b \<le> x \<and> x + k \<le> blk_cur b)"
    using live in_b' unfolding live_inv_def by blast
  ultimately show "live_inv p' ((a, n) # as)" using live apart n by (auto simp: live_inv_def simp del: apart.simps)
qed

lemma new_block_ok:
  assumes "a mod 4 = 0" "sizeof_pool_block \<le> n" "n < 2 ^ 63"
  shows "block_ok (new_block a (a + sizeof_pool_block) (a + n))"
proof -
  have "(a + sizeof_pool_block) mod 4 = 0" using assms(1) by (simp add: sizeof_pool_block_def) presburger
  then show ?thesis
    using assms ALIGN_PTR_bounds(4) [of "a + sizeof_pool_block"] by (auto simp: block_ok_def new_block_def sizeof_pool_block_def)
qed

text \<open>The size of a new block suffices, unless the request is absurd.\<close>

lemma grow_size_enough:
  assumes "0 \<le> n" "n < 2 ^ 62" "0 < inc" "inc < 2 ^ 62"
  shows "n + sizeof_pool_block + PJ_POOL_ALIGNMENT \<le> grow_size inc n" "inc \<le> grow_size inc n" "grow_size inc n < 2 ^ 64"
proof -
  let ?k = "n + sizeof_pool_block + PJ_POOL_ALIGNMENT"
  have k: "to_size ?k = ?k" "to_size (?k + inc) = ?k + inc"
    using assms by (auto intro!: to_size_id simp: sizeof_pool_block_def PJ_POOL_ALIGNMENT_def)
  have mod: "(?k + inc) div inc * inc = ?k + inc - (?k + inc) mod inc" by (simp only: minus_mod_eq_div_mult)
  have m: "(?k + inc) mod inc < inc" "0 \<le> (?k + inc) mod inc" using assms by simp_all
  have g: "grow_size inc n = (if inc < ?k then to_size (?k + inc - (?k + inc) mod inc) else inc)"
  proof -
    have e: "n + inc + sizeof_pool_block + PJ_POOL_ALIGNMENT = ?k + inc" by simp
    show ?thesis by (simp only: grow_size_def e k mod)
  qed
  have "?k + inc < 2 ^ 64" "0 \<le> ?k" using assms by (simp_all add: sizeof_pool_block_def PJ_POOL_ALIGNMENT_def)
  then have t: "to_size (?k + inc - (?k + inc) mod inc) = ?k + inc - (?k + inc) mod inc" using m by (intro to_size_id) linarith+
  have "?k \<le> grow_size inc n \<and> inc \<le> grow_size inc n \<and> grow_size inc n < 2 ^ 64"
    unfolding g t using m assms \<open>?k + inc < 2 ^ 64\<close> power_strict_increasing [of 62 64 "2 :: int"]
    by (cases "inc < ?k") (simp_all only: if_True if_False, linarith+)
  then show "?k \<le> grow_size inc n" "inc \<le> grow_size inc n" "grow_size inc n < 2 ^ 64" by blast+
qed

lemma add_block_inv:
  assumes inv: "pool_inv p" and a: "\<forall>y \<in> set (map block_area (block_list p) @ [(pool_addr p, sizeof_pool)]). apart (a, n) y"
    and n: "a mod 4 = 0" "sizeof_pool_block \<le> n" "n < 2 ^ 63"
  defines "p' \<equiv> p\<lparr>pool_capacity := pool_capacity p + n, block_list := new_block a (a + sizeof_pool_block) (a + n) # block_list p\<rparr>"
  shows "pool_inv p'" and "live_inv p as \<Longrightarrow> live_inv p' as"
proof -
  have area: "block_area (new_block a (a + sizeof_pool_block) (a + n)) = (a, n)" by (simp add: block_area_def new_block_def)
  have "blk_end (new_block a (a + sizeof_pool_block) (a + n)) - blk_addr (new_block a (a + sizeof_pool_block) (a + n)) = n"
    by (simp add: new_block_def)
  then show "pool_inv p'"
    using inv new_block_ok [OF n] a unfolding pool_inv_def p'_def by (simp add: area del: apart.simps)
  show "live_inv p' as" if "live_inv p as"
    using that unfolding live_inv_def p'_def by fastforce
qed

text \<open>The outcomes of an allocation.\<close>

lemma pj_pool_alloc_cases:
  assumes inv: "pool_inv p" and n: "0 \<le> n" "n < 2 ^ 62" and g: "grants balloc p"
  obtains (here) a p' where "pj_pool_alloc balloc p n = (Ptr a, p', [])" "cut p n a p'"
  | (grown) a p1 p' sz c where "pj_pool_alloc balloc p n = (Ptr a, p', [Block_Alloc sz (Some c)])" "sz = grow_size (increment_size p) n"
      "p1 = p\<lparr>pool_capacity := pool_capacity p + sz, block_list := new_block c (c + sizeof_pool_block) (c + sz) # block_list p\<rparr>"
      "pool_inv p1" "cut p1 n a p'" "balloc sz = Some c" "sz < 2 ^ 63" "increment_size p > 0" "\<And>as. live_inv p as \<Longrightarrow> live_inv p1 as"
  | (full) ev where "pj_pool_alloc balloc p n = (No_Memory, p, ev)"
      "increment_size p = 0 \<and> ev = [] \<or> balloc (grow_size (increment_size p) n) = None \<and> ev = [Block_Alloc (grow_size (increment_size p) n) None]"
proof -
  have ok: "list_all block_ok (block_list p)" "block_list p \<noteq> []" using inv by (simp_all add: pool_inv_def)
  then obtain b bs where bs: "block_list p = b # bs" by (cases "block_list p") auto
  have b: "block_ok b" using ok bs by simp
  show thesis
  proof (cases rule: alloc_from_block_cases [OF b n])
    case (1 m)
    have "cut p n (blk_cur b) (p\<lparr>block_list := b\<lparr>blk_cur := blk_cur b + m\<rparr> # bs\<rparr>)"
      by (rule cutI) (use cut_blocks_hd [OF 1(2,4,5)] bs in simp)
    then show thesis using here 1(1) bs by (simp add: pj_pool_alloc_def)
  next
    case 2
    then have find: "pj_pool_alloc balloc p n = pj_pool_allocate_find balloc p n" using bs by (simp add: pj_pool_alloc_def)
    show thesis
    proof (cases "find_block (block_list p) n")
      case (Some r)
      then obtain a bs' where r: "find_block (block_list p) n = Some (a, bs')" by (cases r) simp
      then have "cut p n a (p\<lparr>block_list := bs'\<rparr>)" using find_block_cases [OF ok(1) n] by (auto intro: cutI)
      then show thesis using here find r by (simp add: pj_pool_allocate_find_def)
    next
      case None
      let ?sz = "grow_size (increment_size p) n"
      show thesis
      proof (cases "increment_size p = 0 \<or> balloc ?sz = None")
        case True
        then show thesis
          using full [of "[]"] full [of "[Block_Alloc ?sz None]"] find None
          by (cases "increment_size p = 0") (simp_all add: pj_pool_allocate_find_def pj_pool_create_block_def)
      next
        case False
        then obtain c where c: "balloc ?sz = Some c" "increment_size p > 0" using inv by (auto simp: pool_inv_def)
        have sz: "n + sizeof_pool_block + PJ_POOL_ALIGNMENT \<le> ?sz" "?sz < 2 ^ 63"
          using grow_size_enough(1) [OF n c(2)] inv g c(1) by (auto simp: pool_inv_def grants_def)
        define p1 where "p1 = p\<lparr>pool_capacity := pool_capacity p + ?sz, block_list := new_block c (c + sizeof_pool_block) (c + ?sz) # block_list p\<rparr>"
        have free: "\<forall>y \<in> set (map block_area (block_list p) @ [(pool_addr p, sizeof_pool)]). apart (c, ?sz) y"
          and al: "c mod 4 = 0" using g c(1) unfolding grants_def by blast+
        have big: "sizeof_pool_block \<le> ?sz" using sz(1) n by (simp add: PJ_POOL_ALIGNMENT_def)
        note add = add_block_inv [OF inv free al big sz(2), folded p1_def]
        let ?b = "new_block c (c + sizeof_pool_block) (c + ?sz)"
        have ok': "block_ok ?b" by (rule new_block_ok [OF al big sz(2)])
        have "(c + sizeof_pool_block) mod 4 = 0" using al by (simp add: sizeof_pool_block_def) presburger
        then have room: "n + 4 \<le> blk_end ?b - blk_cur ?b"
          using sz(1) ALIGN_PTR_bounds(4) [of "c + sizeof_pool_block"] by (simp add: new_block_def PJ_POOL_ALIGNMENT_def)
        show thesis
        proof (cases rule: alloc_from_block_cases [OF ok' n])
          case (1 m)
          have "cut p1 n (blk_cur ?b) (p1\<lparr>block_list := ?b\<lparr>blk_cur := blk_cur ?b + m\<rparr> # block_list p\<rparr>)"
            by (rule cutI) (use cut_blocks_hd [OF 1(2,4,5)] in \<open>simp add: p1_def\<close>)
          moreover have "pj_pool_alloc balloc p n = (Ptr (blk_cur ?b), p1\<lparr>block_list := ?b\<lparr>blk_cur := blk_cur ?b + m\<rparr> # block_list p\<rparr>,
              [Block_Alloc ?sz (Some c)])"
            using find None c 1(1) by (simp add: pj_pool_allocate_find_def pj_pool_create_block_def p1_def Let_def)
          ultimately show thesis using grown [OF _ refl p1_def add(1) _ c(1) sz(2) c(2) add(2)] by blast
        next
          case 2
          then show thesis using room by simp
        qed
      qed
    qed
  qed
qed

section \<open>Creation and reset\<close>

lemma create_int_cases:
  assumes "pj_pool_create_int balloc n inc = (Some p, ev)" "0 \<le> inc" "inc < 2 ^ 62"
    and grant: "\<And>m a. balloc m = Some a \<Longrightarrow> a mod 4 = 0 \<and> m < 2 ^ 63"
  shows "pool_inv p" "live_inv p []" "pool_capacity p = n" "increment_size p = inc" "ev = [Block_Alloc n (Some (pool_addr p))]"
    "length (block_list p) = 1" "balloc n = Some (pool_addr p)"
proof -
  obtain a where a: "sizeof_pool + sizeof_pool_block \<le> n" "balloc n = Some a"
      "p = \<lparr>pool_addr = a, block_list = [new_block (a + sizeof_pool) (a + sizeof_pool + sizeof_pool_block) (a + n)],
            pool_capacity = n, increment_size = inc, factory_data = 0\<rparr>" "ev = [Block_Alloc n (Some a)]"
    using assms(1) by (auto simp: pj_pool_create_int_def pj_pool_init_int_def Let_def split: if_splits option.splits)
  let ?b = "new_block (a + sizeof_pool) (a + sizeof_pool + sizeof_pool_block) (a + n)"
  have "(a + sizeof_pool) mod 4 = 0" using grant [OF a(2)] by (simp add: sizeof_pool_def) presburger
  then have ok: "block_ok ?b"
    using new_block_ok [of "a + sizeof_pool" "n - sizeof_pool"] a(1) grant [OF a(2)] by (simp add: sizeof_pool_def algebra_simps)
  have area: "block_area ?b = (a + sizeof_pool, n - sizeof_pool)" "blk_end ?b - blk_addr ?b = n - sizeof_pool" "blk_addr ?b = a + sizeof_pool"
    by (simp_all add: block_area_def new_block_def)
  show "pool_inv p"
    using ok area assms(2,3) a(1) by (simp add: pool_inv_def a(3))
  show "live_inv p []" by (simp add: live_inv_def)
  show "pool_capacity p = n" "increment_size p = inc" "ev = [Block_Alloc n (Some (pool_addr p))]" "length (block_list p) = 1" "balloc n = Some (pool_addr p)"
    using a by simp_all
qed

lemma reset_pool_eq:
  assumes "block_list p = bs @ [b]"
  shows "reset_pool p = (p\<lparr>block_list := [b\<lparr>blk_cur := ALIGN_PTR (blk_buf b)\<rparr>], pool_capacity := blk_end b - pool_addr p\<rparr>,
    map (\<lambda>b. Block_Free (blk_addr b) (blk_end b - blk_addr b)) (rev bs))"
  by (simp add: reset_pool_def assms)

lemma reset_pool_inv:
  assumes "pool_inv p" "pool_addr p mod 4 = 0"
  shows "pool_inv (fst (reset_pool p))" "live_inv (fst (reset_pool p)) []"
proof -
  obtain bs b where b: "block_list p = bs @ [b]" using assms(1) by (cases "block_list p" rule: rev_cases) (auto simp: pool_inv_def)
  have ok: "block_ok b" and at: "blk_addr b = pool_addr p + sizeof_pool" using assms(1) by (simp_all add: pool_inv_def b)
  have "blk_buf b = pool_addr p + sizeof_pool + sizeof_pool_block" using ok at by (simp add: block_ok_def)
  then have "blk_buf b mod 4 = 0" using assms(2) by (simp add: sizeof_pool_def sizeof_pool_block_def) presburger
  then have al: "ALIGN_PTR (blk_buf b) = blk_buf b" "blk_buf b mod 4 = 0" by (simp_all add: ALIGN_PTR_bounds)
  have "block_ok (b\<lparr>blk_cur := blk_buf b\<rparr>)" using ok al(2) by (auto simp: block_ok_def)
  then show "pool_inv (fst (reset_pool p))"
    using assms(1) at unfolding reset_pool_eq [OF b] al pool_inv_def
    by (simp add: b block_area_def sorted_wrt_append)
  show "live_inv (fst (reset_pool p)) []" by (simp add: live_inv_def)
qed

lemma reset_facts:
  assumes "pool_inv p" "reset_pool p = (p', ev)"
  shows "length (block_list p') = 1"
    and "ev = map (\<lambda>b. Block_Free (blk_addr b) (blk_end b - blk_addr b)) (rev (butlast (block_list p)))"
    and "pool_capacity p' = pool_capacity p - sum_list (map (\<lambda>b. blk_end b - blk_addr b) (butlast (block_list p)))"
    and "pj_pool_destroy_int p = ev @ [Block_Free (pool_addr p) (pool_capacity p')]"
    and "map block_area (block_list p') = [block_area (last (block_list p))]" "pool_addr p' = pool_addr p" "factory_data p' = factory_data p"
proof -
  obtain bs b where b: "block_list p = bs @ [b]" using assms(1) by (cases "block_list p" rule: rev_cases) (auto simp: pool_inv_def)
  have at: "blk_addr b = pool_addr p + sizeof_pool" using assms(1) by (simp add: pool_inv_def b)
  have cap: "pool_capacity p = sizeof_pool + sum_list (map (\<lambda>b. blk_end b - blk_addr b) bs) + (blk_end b - blk_addr b)"
    using assms(1) by (simp add: pool_inv_def b)
  note p' = assms(2) [unfolded reset_pool_eq [OF b]]
  show "length (block_list p') = 1" "ev = map (\<lambda>b. Block_Free (blk_addr b) (blk_end b - blk_addr b)) (rev (butlast (block_list p)))"
    "pool_capacity p' = pool_capacity p - sum_list (map (\<lambda>b. blk_end b - blk_addr b) (butlast (block_list p)))"
    "pj_pool_destroy_int p = ev @ [Block_Free (pool_addr p) (pool_capacity p')]"
    "map block_area (block_list p') = [block_area (last (block_list p))]" "pool_addr p' = pool_addr p" "factory_data p' = factory_data p"
    using p' at cap by (auto simp: b pj_pool_destroy_int_def reset_pool_eq [OF b] block_area_def)
qed

section \<open>Runs\<close>

text \<open>What happens to a pool between its creation and its end, with the areas its client has.\<close>

inductive pool_run :: "pj_pool \<Rightarrow> area list \<Rightarrow> bool" where
  pool_start: "pj_pool_create_int balloc n inc = (Some p, ev) \<Longrightarrow> 0 \<le> inc \<Longrightarrow> inc < 2 ^ 62 \<Longrightarrow>
     \<forall>m a. balloc m = Some a \<longrightarrow> a mod 4 = 0 \<and> m < 2 ^ 63 \<Longrightarrow> pool_run p []"
| pool_alloc: "pool_run p as \<Longrightarrow> 0 \<le> n \<Longrightarrow> n < 2 ^ 62 \<Longrightarrow> grants balloc p \<Longrightarrow> pj_pool_alloc balloc p n = (Ptr a, p', ev) \<Longrightarrow>
     pool_run p' ((a, n) # as)"
| pool_full: "pool_run p as \<Longrightarrow> 0 \<le> n \<Longrightarrow> n < 2 ^ 62 \<Longrightarrow> grants balloc p \<Longrightarrow> pj_pool_alloc balloc p n = (r, p', ev) \<Longrightarrow> r \<in> {No_Memory, Null} \<Longrightarrow>
     pool_run p' as"
| pool_reset: "pool_run p as \<Longrightarrow> pool_run (fst (pj_pool_reset p)) []"

lemma pool_run_inv:
  assumes "pool_run p as"
  shows "pool_inv p \<and> live_inv p as \<and> pool_addr p mod 4 = 0"
  using assms
proof (induction rule: pool_run.induct)
  case (pool_start balloc n inc p ev)
  then show ?case using create_int_cases [OF pool_start(1-3)] by metis
next
  case (pool_alloc p as n balloc a p' ev)
  then have p: "pool_inv p" "live_inv p as" "pool_addr p mod 4 = 0" by simp_all
  show ?case
  proof (cases rule: pj_pool_alloc_cases [OF p(1) pool_alloc.hyps(2-4)])
    case (1 a' p'')
    then show ?thesis using pool_alloc.hyps(5) cut_inv [OF p(1) _ pool_alloc.hyps(2)] p(2,3) by auto
  next
    case (2 a' p1 p'' sz c)
    note c = cut_inv [OF 2(4,5) pool_alloc.hyps(2)]
    have "pool_addr p1 = pool_addr p" by (simp add: 2(3))
    then show ?thesis using pool_alloc.hyps(5) c 2(1,9) p(2,3) by auto
  next
    case (3 ev)
    then show ?thesis using pool_alloc.hyps(5) by simp
  qed
next
  case (pool_full p as n balloc r p' ev)
  then have p: "pool_inv p" by simp
  show ?case
    by (cases rule: pj_pool_alloc_cases [OF p pool_full.hyps(2-4)]) (use pool_full in auto)
next
  case (pool_reset p as)
  then show ?case using reset_pool_inv [of p] by (auto simp: pj_pool_reset_def reset_pool_def split: list.splits)
qed

lemma sum_used:
  assumes "list_all block_ok bs"
  shows "used_loop bs u \<le> u + sum_list (map (\<lambda>b. blk_end b - blk_addr b) bs)" "u \<le> used_loop bs u"
proof -
  have "used_loop bs u = u + sum_list (map (\<lambda>b. blk_cur b - blk_addr b) bs)" if "list_all block_ok bs" for bs
    using that
  proof (induction bs arbitrary: u)
    case (Cons b bs)
    then show ?case by (simp add: block_ok_def)
  qed simp
  moreover have "0 \<le> blk_cur b - blk_addr b \<and> blk_cur b - blk_addr b \<le> blk_end b - blk_addr b" if "b \<in> set bs" for b
    using assms that by (auto simp: list_all_iff block_ok_def sizeof_pool_block_def)
  then have "0 \<le> sum_list (map (\<lambda>b. blk_cur b - blk_addr b) bs)"
    "sum_list (map (\<lambda>b. blk_cur b - blk_addr b) bs) \<le> sum_list (map (\<lambda>b. blk_end b - blk_addr b) bs)"
    by (auto intro!: sum_list_nonneg sum_list_mono)
  ultimately show "used_loop bs u \<le> u + sum_list (map (\<lambda>b. blk_end b - blk_addr b) bs)" "u \<le> used_loop bs u"
    using assms by simp_all
qed

section \<open>Properties\<close>

text \<open>
C6. In every sequence of creating, allocating and resetting a pool with sizes and increments below
2^62, beyond which the rounding of a size can wrap (pool_i.h:47), and with a factory that gives
aligned blocks apart from those held, the areas handed out since the last reset do not overlap,
begin at multiples of four and lie inside the usable part of a block of the pool, and the size
used never exceeds the capacity.
\<close>

theorem pool_areas_apart:
  assumes "pool_run p as"
  shows "(\<forall>i < length as. \<forall>j < length as. i \<noteq> j \<longrightarrow> apart (as ! i) (as ! j))
    \<and> (\<forall>(a, n) \<in> set as. a mod 4 = 0 \<and> (\<exists>b \<in> set (block_list p). blk_buf b \<le> a \<and> a + n \<le> blk_end b))
    \<and> sizeof_pool \<le> pj_pool_get_used_size p \<and> pj_pool_get_used_size p \<le> pj_pool_get_capacity p"
proof -
  have inv: "pool_inv p" "live_inv p as" using pool_run_inv [OF assms] by simp_all
  have ok: "list_all block_ok (block_list p)" using inv(1) by (simp add: pool_inv_def)
  have "apart (as ! i) (as ! j)" if "i < length as" "j < length as" "i \<noteq> j" for i j
    using inv(2) that apart_sym unfolding live_inv_def sorted_wrt_iff_nth_less by (metis nat_neq_iff)
  moreover have "\<forall>(a, n) \<in> set as. a mod 4 = 0 \<and> (\<exists>b \<in> set (block_list p). blk_buf b \<le> a \<and> a + n \<le> blk_end b)"
    using inv(2) ok by (fastforce simp: live_inv_def list_all_iff block_ok_def)
  moreover have "sizeof_pool \<le> pj_pool_get_used_size p \<and> pj_pool_get_used_size p \<le> pj_pool_get_capacity p"
    using sum_used [OF ok, of sizeof_pool] inv(1) by (simp add: pj_pool_get_used_size_def pj_pool_get_capacity_def pool_inv_def)
  ultimately show ?thesis by blast
qed

theorem pool_alloc_succeeds:
  assumes "pool_run p as" "0 \<le> n" "n < 2 ^ 62" "grants balloc p" "increment_size p > 0" "balloc (grow_size (increment_size p) n) \<noteq> None"
  shows "\<exists>a p' ev. pj_pool_alloc balloc p n = (Ptr a, p', ev)
    \<and> (ev = [] \<and> pool_capacity p' = pool_capacity p
       \<or> (\<exists>c. ev = [Block_Alloc (grow_size (increment_size p) n) (Some c)] \<and> pool_capacity p' = pool_capacity p + grow_size (increment_size p) n))"
proof -
  have p: "pool_inv p" using pool_run_inv [OF assms(1)] by simp
  show ?thesis
  proof (cases rule: pj_pool_alloc_cases [OF p assms(2-4)])
    case (1 a p')
    then show ?thesis using cut_inv(3) [OF p 1(2) assms(2)] by auto
  next
    case (2 a p1 p' sz c)
    then show ?thesis using cut_inv(3) [OF 2(4,5) assms(2)] by auto
  qed (use assms(5,6) in auto)
qed

theorem pool_reset_returns_blocks:
  assumes "pool_run p as" "pj_pool_reset p = (p', ev)"
  shows "length (block_list p') = 1
    \<and> ev = map (\<lambda>b. Block_Free (blk_addr b) (blk_end b - blk_addr b)) (rev (butlast (block_list p)))
    \<and> pool_capacity p' = pool_capacity p - sum_list (map (\<lambda>b. blk_end b - blk_addr b) (butlast (block_list p)))
    \<and> pj_pool_destroy_int p = ev @ [Block_Free (pool_addr p) (pool_capacity p')]"
  using reset_facts [of p p' ev] pool_run_inv [OF assms(1)] assms(2) by (simp add: pj_pool_reset_def)

text \<open>A buffer of the caller that is aligned and large enough makes a pool like any other.\<close>

lemma create_on_buf_run:
  assumes "0 < buf" "buf mod 4 = 0" "sizeof_pool + sizeof_pool_block \<le> n" "n < 2 ^ 63"
  shows "\<exists>p. pj_pool_create_on_buf buf n = Some p \<and> pool_run p [] \<and> pool_addr p = buf \<and> pool_capacity p = n"
proof -
  obtain p where p: "pj_pool_create_int (stack_alloc buf n) n 0 = (Some p, [Block_Alloc n (Some buf)])" "pool_addr p = buf" "pool_capacity p = n"
    using assms(3) by (simp add: pj_pool_create_int_def stack_alloc_def pj_pool_init_int_def Let_def)
  have "\<forall>m a. stack_alloc buf n m = Some a \<longrightarrow> a mod 4 = 0 \<and> m < 2 ^ 63" using assms(2,4) by (auto simp: stack_alloc_def)
  then have "pool_run p []" using pool_start [OF p(1)] by simp
  moreover have "pj_pool_create_on_buf buf n = Some p"
    using assms p(1) by (simp add: pj_pool_create_on_buf_def and_align sizeof_pool_def sizeof_pool_block_def)
  ultimately show ?thesis using p(2,3) by blast
qed

text \<open>What goes wrong: sizes that wrap around, and buffers that are not aligned.\<close>

theorem pool_alloc_wraps:
  assumes "pool_run p as" "2 ^ 64 - 4 < n" "n < 2 ^ 64"
  shows "pj_pool_alloc balloc p n = (Ptr (blk_cur (hd (block_list p))), p, [])
    \<and> pj_pool_calloc balloc p (2 ^ 32) (2 ^ 32) = (Ptr (blk_cur (hd (block_list p))), p, [])"
proof -
  have inv: "pool_inv p" using pool_run_inv [OF assms(1)] by simp
  then obtain b bs where b: "block_list p = b # bs" by (cases "block_list p") (auto simp: pool_inv_def)
  have ok: "block_ok b" using inv b by (simp add: pool_inv_def)
  have "to_size (n + 4) = n + 4 - 2 ^ 64" using assms(2,3) minus_mod_self2 [of "n + 4" "2 ^ 64"] by (simp add: to_size_def)
  moreover define k where "k = n - 4 * (2 ^ 62 - 1)"
  have n: "n = k + 4 * (2 ^ 62 - 1)" and k: "0 < k" "k < 4" using assms(2,3) by (simp_all add: k_def)
  have "n mod 4 = k" unfolding n using k by (simp only: mod_mult_self2 mod_pos_pos_trivial)
  ultimately have "to_size (n + PJ_POOL_ALIGNMENT) = k" "n mod 4 = k" by (simp_all add: k_def PJ_POOL_ALIGNMENT_def)
  then have "round_size n = 0" unfolding round_size_def and_align and_not_align using k by simp
  moreover have "round_size 0 = 0" by (simp add: round_size_def)
  moreover have "to_size (blk_end b - blk_cur b) \<ge> 0" by (simp add: to_size_def)
  moreover have "b\<lparr>blk_cur := blk_cur b + 0\<rparr> = b" "p\<lparr>block_list := b # bs\<rparr> = p" using b by simp_all
  moreover have "to_size (2 ^ 32 * 2 ^ 32) = 0" by (simp add: to_size_def)
  ultimately show ?thesis by (simp add: pj_pool_alloc_def pj_pool_calloc_def pj_pool_alloc_from_block_def b)
qed

theorem pool_on_buf_overruns:
  assumes "0 < buf" "buf mod 4 = 1"
  shows "\<exists>p. pj_pool_create_on_buf buf 169 = Some p
    \<and> (\<forall>n p' ev r. 0 \<le> n \<longrightarrow> n < 2 ^ 62 \<longrightarrow> pj_pool_alloc (\<lambda>_. None) p n = (r, p', ev) \<longrightarrow> r = Ptr (buf + 171))"
proof -
  let ?b = "\<lparr>blk_addr = buf + 129, blk_buf = buf + 169, blk_cur = buf + 171, blk_end = buf + 169\<rparr>"
  let ?p = "\<lparr>pool_addr = buf + 1, block_list = [?b], pool_capacity = 168, increment_size = 0, factory_data = 0\<rparr>"
  have "(- (buf + 169)) mod 4 = 2" using assms(2) by presburger
  then have "ALIGN_PTR (buf + 169) = buf + 171" "ALIGN_PTR (169 + buf) = buf + 171" by (simp_all add: ALIGN_PTR_eq add.commute)
  then have p: "pj_pool_create_on_buf buf 169 = Some ?p"
    using assms by (simp add: pj_pool_create_on_buf_def and_align to_size_def pj_pool_create_int_def stack_alloc_def sizeof_pool_def
        sizeof_pool_block_def new_block_def pj_pool_init_int_def Let_def)
  have "r = Ptr (buf + 171)" if "0 \<le> n" "n < 2 ^ 62" "pj_pool_alloc (\<lambda>_. None) ?p n = (r, p', ev)" for n p' ev r
  proof -
    have "round_size n \<le> to_size (- 2)" using round_size_small(2) [of n] that(1,2) by (simp add: to_size_def)
    then show ?thesis using that(3) by (simp add: pj_pool_alloc_def pj_pool_alloc_from_block_def Let_def)
  qed
  then show ?thesis using p by blast
qed

section \<open>Witnesses\<close>

text \<open>A pool of 256 bytes at address 4096, from which 10 and then 100 bytes are taken: the second needs a new block.\<close>

definition ex_balloc :: "int \<Rightarrow> int option" where
  "ex_balloc n = (if n = 256 then Some 4096 else None)"

definition ex_more :: "int \<Rightarrow> int option" where
  "ex_more n = (if n = 1000 then Some 8192 else None)"

definition ex_pool :: pj_pool where
  "ex_pool = the (fst (pj_pool_create_int ex_balloc 256 1000))"

definition ex_pool1 :: pj_pool where
  "ex_pool1 = fst (snd (pj_pool_alloc ex_more ex_pool 10))"

definition ex_pool2 :: pj_pool where
  "ex_pool2 = fst (snd (pj_pool_alloc ex_more ex_pool1 100))"

lemma ex_pool_values:
  "pj_pool_create_int ex_balloc 256 1000 = (Some ex_pool, [Block_Alloc 256 (Some 4096)])"
  "pj_pool_alloc ex_more ex_pool 10 = (Ptr 4264, ex_pool1, [])"
  "pj_pool_alloc ex_more ex_pool1 100 = (Ptr 8232, ex_pool2, [Block_Alloc 1000 (Some 8192)])"
  "block_list ex_pool = [\<lparr>blk_addr = 4224, blk_buf = 4264, blk_cur = 4264, blk_end = 4352\<rparr>]"
  "block_list ex_pool1 = [\<lparr>blk_addr = 4224, blk_buf = 4264, blk_cur = 4276, blk_end = 4352\<rparr>]"
  "pool_addr ex_pool = 4096" "pool_addr ex_pool1 = 4096" "increment_size ex_pool1 = 1000" "pool_capacity ex_pool1 = 256"
  "blk_cur (hd (block_list ex_pool2)) = 8332"
  by code_simp+

lemma ex_pool_run: "pool_run ex_pool2 [(8232, 100), (4264, 10)]" "pool_run ex_pool1 [(4264, 10)]" and ex_grants: "grants ex_more ex_pool1"
proof -
  have r0: "pool_run ex_pool []" by (rule pool_start [OF ex_pool_values(1)]) (auto simp: ex_balloc_def)
  have g0: "grants ex_more ex_pool"
    by (auto simp: grants_def ex_more_def ex_pool_values block_area_def sizeof_pool_def)
  show r1: "pool_run ex_pool1 [(4264, 10)]" by (rule pool_alloc [OF r0 _ _ g0 ex_pool_values(2)]) simp_all
  show g1: "grants ex_more ex_pool1"
    by (auto simp: grants_def ex_more_def ex_pool_values block_area_def sizeof_pool_def)
  show "pool_run ex_pool2 [(8232, 100), (4264, 10)]" by (rule pool_alloc [OF r1 _ _ g1 ex_pool_values(3)]) simp_all
qed

theorem pool_areas_apart_witness: "apart (8232, 100) (4264, 10) \<and> pj_pool_get_used_size ex_pool2 \<le> pj_pool_get_capacity ex_pool2"
proof -
  note w = pool_areas_apart [OF ex_pool_run(1)]
  show ?thesis using w [THEN conjunct1, rule_format, of 0 1] w by simp
qed

theorem pool_alloc_succeeds_witness:
  "\<exists>a p' ev. pj_pool_alloc ex_more ex_pool1 100 = (Ptr a, p', ev) \<and> increment_size ex_pool1 = 1000"
proof -
  have "grow_size 1000 100 = 1000" by code_simp
  then show ?thesis
    using pool_alloc_succeeds [OF ex_pool_run(2) _ _ ex_grants, of 100] ex_pool_values(8) by (auto simp: ex_more_def)
qed

theorem pool_reset_returns_blocks_witness:
  "\<exists>p'. pj_pool_reset ex_pool2 = (p', [Block_Free 8192 1000]) \<and> length (block_list p') = 1 \<and> pool_capacity p' = 256"
proof -
  obtain p' ev where r: "pj_pool_reset ex_pool2 = (p', ev)" by (cases "pj_pool_reset ex_pool2")
  have "map (\<lambda>b. Block_Free (blk_addr b) (blk_end b - blk_addr b)) (rev (butlast (block_list ex_pool2))) = [Block_Free 8192 1000]"
    "sum_list (map (\<lambda>b. blk_end b - blk_addr b) (butlast (block_list ex_pool2))) = 1000" "pool_capacity ex_pool2 = 1256"
    by code_simp+
  then show ?thesis using pool_reset_returns_blocks [OF ex_pool_run(1) r] r by simp
qed

theorem pool_alloc_wraps_witness: "pj_pool_alloc ex_more ex_pool1 (2 ^ 64 - 1) = (Ptr 4276, ex_pool1, [])"
  using pool_alloc_wraps [OF ex_pool_run(2), of "2 ^ 64 - 1" ex_more] by (simp add: ex_pool_values(5))

theorem pool_on_buf_overruns_witness:
  "\<exists>p. pj_pool_create_on_buf 4097 169 = Some p \<and> fst (pj_pool_alloc (\<lambda>_. None) p 16) = Ptr 4268"
proof -
  obtain p where p: "pj_pool_create_on_buf 4097 169 = Some p"
    and a: "\<And>n p' ev r. 0 \<le> n \<Longrightarrow> n < 2 ^ 62 \<Longrightarrow> pj_pool_alloc (\<lambda>_. None) p n = (r, p', ev) \<Longrightarrow> r = Ptr (4097 + 171)"
    using pool_on_buf_overruns [of 4097] by auto
  show ?thesis using p a [of 16 "fst (pj_pool_alloc (\<lambda>_. None) p 16)"] by (cases "pj_pool_alloc (\<lambda>_. None) p 16") auto
qed

end
