(* ===== verification/Pj_Caching_Pool.thy ===== *)
theory Pj_Caching_Pool
  imports Pj_Pool "HOL-Library.Multiset"
begin

text \<open>
  The caching pool, \<^verbatim>\<open>pjlib/src/pj/pool_caching.c\<close>: the factory of all pools, which keeps released pools in lists by size, up to a capacity, and
  hands them out again. Its memory comes from the default policy (\<^verbatim>\<open>pool_policy_malloc.c\<close>), which reports every block to it. A pool is
  known by its address; \<open>balloc\<close> is what \<^verbatim>\<open>malloc\<close> answers. Counters of bytes are integers: they count memory that exists.
\<close>

section \<open>Model\<close>

definition PJ_CACHING_POOL_ARRAY_SIZE :: nat where
  "PJ_CACHING_POOL_ARRAY_SIZE = 16"

definition pool_sizes :: "int list" where
  "pool_sizes = [256, 512, 1024, 2048, 4096, 8192, 12288, 16384, 20480, 24576, 28672, 32768, 40960, 49152, 57344, 65536]"

definition START_SIZE :: nat where
  "START_SIZE = 5"

record pj_caching_pool =
  cp_capacity :: int
  cp_max_capacity :: int
  cp_used_count :: int
  cp_used_size :: int
  cp_peak_used_size :: int
  cp_free_list :: "pj_pool list list"
  cp_used_list :: "pj_pool list"

definition pj_caching_pool_init :: "int \<Rightarrow> pj_caching_pool" where
  "pj_caching_pool_init max_capacity =
     \<lparr>cp_capacity = 0, cp_max_capacity = max_capacity, cp_used_count = 0, cp_used_size = 0, cp_peak_used_size = 0,
      cp_free_list = replicate PJ_CACHING_POOL_ARRAY_SIZE [], cp_used_list = []\<rparr>"

text \<open>What the policy reports: a block that is wanted, and taken back when there is no memory for it, or one that is freed.\<close>

definition cpool_on_block_alloc :: "int \<Rightarrow> pj_caching_pool \<Rightarrow> pj_caching_pool" where
  "cpool_on_block_alloc sz cp =
     (let cp = cp\<lparr>cp_used_size := cp_used_size cp + sz\<rparr>
      in if cp_used_size cp > cp_peak_used_size cp then cp\<lparr>cp_peak_used_size := cp_used_size cp\<rparr> else cp)"

definition cpool_on_block_free :: "int \<Rightarrow> pj_caching_pool \<Rightarrow> pj_caching_pool" where
  "cpool_on_block_free sz cp = cp\<lparr>cp_used_size := cp_used_size cp - sz\<rparr>"

fun default_policy :: "block_event \<Rightarrow> pj_caching_pool \<Rightarrow> pj_caching_pool" where
  "default_policy (Block_Alloc sz a) cp =
     (let cp = cpool_on_block_alloc sz cp in if a = None then cpool_on_block_free sz cp else cp)"
| "default_policy (Block_Free a sz) cp = cpool_on_block_free sz cp"

text \<open>The two loops that look for a list, downwards and upwards.\<close>

fun idx_down :: "nat \<Rightarrow> int \<Rightarrow> nat" where
  "idx_down 0 n = 0"
| "idx_down (Suc idx) n = (if pool_sizes ! idx \<ge> n then idx_down idx n else Suc idx)"

function idx_up :: "nat \<Rightarrow> int \<Rightarrow> nat" where
  "idx_up idx n = (if idx < PJ_CACHING_POOL_ARRAY_SIZE \<and> pool_sizes ! idx < n then idx_up (idx + 1) n else idx)"
  by pat_completeness auto
termination
  by (relation "measure (\<lambda>(idx, n). PJ_CACHING_POOL_ARRAY_SIZE - idx)") auto

declare idx_up.simps [simp del]

definition find_idx :: "int \<Rightarrow> nat" where
  "find_idx n = (if n \<le> pool_sizes ! START_SIZE then idx_down START_SIZE n else idx_up (START_SIZE + 1) n)"

definition enter_used :: "nat \<Rightarrow> pj_pool \<Rightarrow> pj_caching_pool \<Rightarrow> pj_caching_pool" where
  "enter_used idx pool cp =
     cp\<lparr>cp_used_list := cp_used_list cp @ [pool\<lparr>factory_data := idx\<rparr>], cp_used_count := cp_used_count cp + 1\<rparr>"

definition cpool_create_pool :: "(int \<Rightarrow> int option) \<Rightarrow> pj_caching_pool \<Rightarrow> int \<Rightarrow> int \<Rightarrow> int option \<times> pj_caching_pool" where
  "cpool_create_pool balloc cp n inc =
     (let idx = find_idx n
      in if idx = PJ_CACHING_POOL_ARRAY_SIZE \<or> cp_free_list cp ! idx = [] then
           (let n = (if idx < PJ_CACHING_POOL_ARRAY_SIZE then pool_sizes ! idx else n);
                (pool, ev) = pj_pool_create_int balloc n inc;
                cp = fold default_policy ev cp
            in case pool of None \<Rightarrow> (None, cp) | Some pool \<Rightarrow> (Some (pool_addr pool), enter_used idx pool cp))
         else
           (let pool = hd (cp_free_list cp ! idx);
                cp = cp\<lparr>cp_free_list := (cp_free_list cp)[idx := tl (cp_free_list cp ! idx)]\<rparr>;
                pool = pj_pool_init_int pool inc;
                cp = cp\<lparr>cp_capacity := (if cp_capacity cp > pj_pool_get_capacity pool then cp_capacity cp - pj_pool_get_capacity pool else 0)\<rparr>
            in (Some (pool_addr pool), enter_used idx pool cp)))"

text \<open>The client allocates from a pool it has; \<open>None\<close>: it has no such pool, which the code does not check.\<close>

definition cpool_alloc :: "(int \<Rightarrow> int option) \<Rightarrow> pj_caching_pool \<Rightarrow> int \<Rightarrow> int \<Rightarrow> (pool_result \<times> pj_caching_pool) option" where
  "cpool_alloc balloc cp addr n =
     (case List.extract (\<lambda>p. pool_addr p = addr) (cp_used_list cp) of
        None \<Rightarrow> None
      | Some (xs, pool, ys) \<Rightarrow>
          (let (r, pool, ev) = pj_pool_alloc balloc pool n
           in Some (r, fold default_policy ev (cp\<lparr>cp_used_list := xs @ pool # ys\<rparr>))))"

definition cpool_release_pool :: "pj_caching_pool \<Rightarrow> int \<Rightarrow> pj_caching_pool option" where
  "cpool_release_pool cp addr =
     (case List.extract (\<lambda>p. pool_addr p = addr) (cp_used_list cp) of
        None \<Rightarrow> None
      | Some (xs, pool, ys) \<Rightarrow>
          (let cp = cp\<lparr>cp_used_list := xs @ ys, cp_used_count := cp_used_count cp - 1\<rparr>;
               pool_capacity = pj_pool_get_capacity pool
           in if pool_capacity > pool_sizes ! (PJ_CACHING_POOL_ARRAY_SIZE - 1) \<or> cp_capacity cp + pool_capacity > cp_max_capacity cp
              then Some (fold default_policy (pj_pool_destroy_int pool) cp)
              else
                (let (pool, ev) = pj_pool_reset pool;
                     cp = fold default_policy ev cp;
                     i = factory_data pool
                 in if i \<ge> PJ_CACHING_POOL_ARRAY_SIZE then Some (fold default_policy (pj_pool_destroy_int pool) cp)
                    else Some (cp\<lparr>cp_free_list := (cp_free_list cp)[i := pool # cp_free_list cp ! i],
                                  cp_capacity := cp_capacity cp + pj_pool_get_capacity pool\<rparr>))))"

definition pj_caching_pool_destroy :: "pj_caching_pool \<Rightarrow> pj_caching_pool" where
  "pj_caching_pool_destroy cp =
     (let cp = fold (\<lambda>pool. fold default_policy (pj_pool_destroy_int pool)) (concat (cp_free_list cp))
                 (cp\<lparr>cp_free_list := map (\<lambda>_. []) (cp_free_list cp)\<rparr>)
      in fold (\<lambda>pool. fold default_policy (pj_pool_destroy_int pool)) (cp_used_list cp) (cp\<lparr>cp_used_list := []\<rparr>))"

section \<open>The search for a size\<close>

lemma pool_sizes_facts: "length pool_sizes = 16" "sorted pool_sizes" "list_all (\<lambda>n. 256 \<le> n \<and> n \<le> 65536) pool_sizes"
  by (simp_all add: pool_sizes_def)

lemma pool_sizes_nth: "i < 16 \<Longrightarrow> 256 \<le> pool_sizes ! i \<and> pool_sizes ! i \<le> 65536"
  using pool_sizes_facts(1,3) by (simp add: list_all_length)

lemma idx_down_fits: "idx \<le> 16 \<Longrightarrow> idx_down idx n \<le> idx \<and> (idx_down idx n < idx \<longrightarrow> n \<le> pool_sizes ! idx_down idx n)
    \<and> (\<forall>j < idx_down idx n. pool_sizes ! j < n)"
proof (induction idx n rule: idx_down.induct)
  case (2 idx n)
  show ?case
  proof (cases "pool_sizes ! idx \<ge> n")
    case True
    then show ?thesis using 2 by (cases "idx_down idx n = idx") auto
  next
    case False
    have "pool_sizes ! j < n" if "j < Suc idx" for j
    proof -
      have "pool_sizes ! j \<le> pool_sizes ! idx"
        using pool_sizes_facts(1,2) that 2(2) by (intro sorted_nth_mono) simp_all
      then show ?thesis using False by simp
    qed
    then show ?thesis using False by simp
  qed
qed simp

lemma idx_up_fits: "idx \<le> 16 \<Longrightarrow> idx \<le> idx_up idx n \<and> idx_up idx n \<le> 16 \<and> (idx_up idx n < 16 \<longrightarrow> n \<le> pool_sizes ! idx_up idx n)
    \<and> (\<forall>j. idx \<le> j \<longrightarrow> j < idx_up idx n \<longrightarrow> pool_sizes ! j < n)"
proof (induction idx n rule: idx_up.induct)
  case (1 idx n)
  show ?case
  proof (cases "idx < 16 \<and> pool_sizes ! idx < n")
    case True
    then have e: "idx_up idx n = idx_up (idx + 1) n" by (subst idx_up.simps) (simp add: PJ_CACHING_POOL_ARRAY_SIZE_def)
    have IH: "idx + 1 \<le> idx_up (idx + 1) n \<and> idx_up (idx + 1) n \<le> 16 \<and> (idx_up (idx + 1) n < 16 \<longrightarrow> n \<le> pool_sizes ! idx_up (idx + 1) n)
        \<and> (\<forall>j. idx + 1 \<le> j \<longrightarrow> j < idx_up (idx + 1) n \<longrightarrow> pool_sizes ! j < n)"
      by (rule 1(1)) (use True in \<open>simp_all add: PJ_CACHING_POOL_ARRAY_SIZE_def\<close>)
    have "pool_sizes ! j < n" if "idx \<le> j" "j < idx_up (idx + 1) n" for j
      using IH True that by (cases "j = idx") simp_all
    then show ?thesis unfolding e using IH by simp
  next
    case False
    then have "idx_up idx n = idx" by (subst idx_up.simps) (auto simp: PJ_CACHING_POOL_ARRAY_SIZE_def)
    then show ?thesis using False 1(2) by auto
  qed
qed

lemma find_idx_fits:
  "find_idx n \<le> 16" "find_idx n < 16 \<Longrightarrow> n \<le> pool_sizes ! find_idx n" "j < find_idx n \<Longrightarrow> pool_sizes ! j < n"
proof -
  have s: "START_SIZE = 5" by (simp add: START_SIZE_def)
  note d = idx_down_fits [of 5 n] and u = idx_up_fits [of 6 n]
  show "find_idx n \<le> 16" using d u by (simp add: find_idx_def s)
  show "find_idx n < 16 \<Longrightarrow> n \<le> pool_sizes ! find_idx n"
    using d u by (cases "idx_down 5 n = 5") (auto simp: find_idx_def s)
  show "pool_sizes ! j < n" if j: "j < find_idx n"
  proof (cases "n \<le> pool_sizes ! 5 \<or> 6 \<le> j")
    case True
    then show ?thesis using d u j by (auto simp: find_idx_def s split: if_splits)
  next
    case False
    then have "pool_sizes ! j \<le> pool_sizes ! 5" using pool_sizes_facts(1,2) by (intro sorted_nth_mono) simp_all
    then show ?thesis using False by simp
  qed
qed

section \<open>Invariant\<close>

text \<open>A collection of areas, each of which is apart from all others, and the areas of a pool.\<close>

definition all_apart :: "area multiset \<Rightarrow> bool" where
  "all_apart M \<longleftrightarrow> (\<forall>x y. {#x, y#} \<subseteq># M \<longrightarrow> apart x y)"

lemma all_apart_mono: "all_apart M \<Longrightarrow> N \<subseteq># M \<Longrightarrow> all_apart N"
  unfolding all_apart_def by (meson subset_mset.order_trans)

lemma all_apart_add: "all_apart (add_mset x M) \<longleftrightarrow> (\<forall>y \<in># M. apart x y) \<and> all_apart M"
proof
  assume l: "all_apart (add_mset x M)"
  have "all_apart M" by (rule all_apart_mono [OF l]) simp
  moreover have "apart x y" if "y \<in># M" for y
    using l that unfolding all_apart_def by (metis mset_subset_eq_add_mset_cancel mset_subset_eq_single)
  ultimately show "(\<forall>y \<in># M. apart x y) \<and> all_apart M" by blast
next
  assume r: "(\<forall>y \<in># M. apart x y) \<and> all_apart M"
  have "apart a b" if ab: "{#a, b#} \<subseteq># add_mset x M" for a b
  proof -
    consider "a = x" "b \<in># M" | "b = x" "a \<in># M" | "{#a, b#} \<subseteq># M"
    proof (cases "a = x \<or> b = x")
      case True
      then show ?thesis using ab that(1,2) by (auto simp: add_mset_commute [of a])
    next
      case False
      have "{#a, b#} \<subseteq># M"
        unfolding subseteq_mset_def
      proof
        fix c
        have "count {#a, b#} c \<le> count (add_mset x M) c" using ab by (simp only: subseteq_mset_def)
        then show "count {#a, b#} c \<le> count M c" using False by (cases "c = x") auto
      qed
      then show ?thesis using that(3) by blast
    qed
    then show ?thesis using r apart_sym unfolding all_apart_def by cases blast+
  qed
  then show "all_apart (add_mset x M)" unfolding all_apart_def by blast
qed

lemma all_apart_sorted_wrt: "all_apart (mset xs) \<longleftrightarrow> sorted_wrt apart xs"
proof (induction xs)
  case (Cons x xs)
  then show ?case by (simp add: all_apart_add del: apart.simps)
qed (auto simp: all_apart_def)

definition pool_areas :: "pj_pool \<Rightarrow> area multiset" where
  "pool_areas p = mset (map block_area (block_list p) @ [(pool_addr p, sizeof_pool)])"

definition cp_pools :: "pj_caching_pool \<Rightarrow> pj_pool list" where
  "cp_pools cp = concat (cp_free_list cp) @ cp_used_list cp"

definition areas :: "pj_pool list \<Rightarrow> area multiset" where
  "areas ps = sum_list (map pool_areas ps)"

text \<open>A pool of the factory: in order, aligned, and with a first block of the size of its list.\<close>

definition member_ok :: "pj_pool \<Rightarrow> bool" where
  "member_ok p \<longleftrightarrow> pool_inv p \<and> pool_addr p mod 4 = 0
     \<and> (factory_data p < 16 \<longrightarrow> blk_end (last (block_list p)) - pool_addr p = pool_sizes ! factory_data p)"

definition cp_inv :: "pj_caching_pool \<Rightarrow> bool" where
  "cp_inv cp \<longleftrightarrow> length (cp_free_list cp) = 16
     \<and> (\<forall>p \<in> set (cp_pools cp). member_ok p)
     \<and> (\<forall>i < 16. \<forall>p \<in> set (cp_free_list cp ! i). factory_data p = i \<and> length (block_list p) = 1)
     \<and> cp_used_count cp = int (length (cp_used_list cp))
     \<and> cp_capacity cp = sum_list (map pool_capacity (concat (cp_free_list cp))) \<and> cp_capacity cp \<le> cp_max_capacity cp
     \<and> cp_used_size cp = sum_list (map pool_capacity (cp_pools cp))
     \<and> all_apart (areas (cp_pools cp))"

text \<open>\<^verbatim>\<open>malloc\<close> gives aligned memory that is apart from all the factory has.\<close>

definition cp_grants :: "(int \<Rightarrow> int option) \<Rightarrow> pj_caching_pool \<Rightarrow> bool" where
  "cp_grants balloc cp \<longleftrightarrow>
     (\<forall>n a. balloc n = Some a \<longrightarrow> a mod 4 = 0 \<and> n < 2 ^ 63 \<and> (\<forall>y \<in># areas (cp_pools cp). apart (a, n) y))"

lemma single_block:
  assumes "pool_inv p" "length (block_list p) = 1"
  shows "pool_capacity p = blk_end (last (block_list p)) - pool_addr p"
proof -
  obtain b where "block_list p = [b]" using assms(2) by (auto simp: length_Suc_conv)
  then show ?thesis using assms(1) by (simp add: pool_inv_def)
qed

text \<open>What an event of a block adds to the memory in use.\<close>

fun event_delta :: "block_event \<Rightarrow> int" where
  "event_delta (Block_Alloc n a) = (if a = None then 0 else n)"
| "event_delta (Block_Free a n) = - n"

lemma used_size_events:
  "cp_used_size (fold default_policy ev cp) = cp_used_size cp
     + sum_list (map event_delta ev)"
  "cp_capacity (fold default_policy ev cp) = cp_capacity cp" "cp_max_capacity (fold default_policy ev cp) = cp_max_capacity cp"
  "cp_used_count (fold default_policy ev cp) = cp_used_count cp" "cp_free_list (fold default_policy ev cp) = cp_free_list cp"
  "cp_used_list (fold default_policy ev cp) = cp_used_list cp"
proof -
  have e: "cp_used_size (default_policy x cp) = cp_used_size cp + event_delta x"
    "cp_capacity (default_policy x cp) = cp_capacity cp" "cp_max_capacity (default_policy x cp) = cp_max_capacity cp"
    "cp_used_count (default_policy x cp) = cp_used_count cp" "cp_free_list (default_policy x cp) = cp_free_list cp"
    "cp_used_list (default_policy x cp) = cp_used_list cp" for x cp
    by (cases x; simp add: cpool_on_block_alloc_def cpool_on_block_free_def Let_def)+
  show "cp_used_size (fold default_policy ev cp) = cp_used_size cp
     + sum_list (map event_delta ev)"
    "cp_capacity (fold default_policy ev cp) = cp_capacity cp" "cp_max_capacity (fold default_policy ev cp) = cp_max_capacity cp"
    "cp_used_count (fold default_policy ev cp) = cp_used_count cp" "cp_free_list (fold default_policy ev cp) = cp_free_list cp"
    "cp_used_list (fold default_policy ev cp) = cp_used_list cp"
    by (induction ev arbitrary: cp; simp add: e)+
qed

lemma areas_simps [simp]: "areas [] = {#}" "areas (p # ps) = pool_areas p + areas ps" "areas (ps @ qs) = areas ps + areas qs"
  by (simp_all add: areas_def)

lemma row_in_concat: "i < length xss \<Longrightarrow> set (xss ! i) \<subseteq> set (concat xss)"
  by (metis UN_upper nth_mem set_concat)

lemma areas_concat_update:
  assumes "i < length xss"
  shows "areas (concat (xss[i := xs])) + areas (xss ! i) = areas (concat xss) + areas xs"
    and "sum_list (map pool_capacity (concat (xss[i := xs]))) + sum_list (map pool_capacity (xss ! i)) = sum_list (map pool_capacity (concat xss)) + sum_list (map pool_capacity xs)"
    and "set (concat (xss[i := xs])) \<subseteq> set (concat xss) \<union> set xs"
proof -
  have c: "concat xss = concat (take i xss) @ xss ! i @ concat (drop (Suc i) xss)"
    by (subst id_take_nth_drop [OF assms]) simp
  have d: "concat (xss[i := xs]) = concat (take i xss) @ xs @ concat (drop (Suc i) xss)"
    by (simp add: upd_conv_take_nth_drop [OF assms])
  show "areas (concat (xss[i := xs])) + areas (xss ! i) = areas (concat xss) + areas xs"
    "sum_list (map pool_capacity (concat (xss[i := xs]))) + sum_list (map pool_capacity (xss ! i)) = sum_list (map pool_capacity (concat xss)) + sum_list (map pool_capacity xs)"
    "set (concat (xss[i := xs])) \<subseteq> set (concat xss) \<union> set xs"
    unfolding c d by (auto simp: add_ac)
qed

lemma all_apart_union: "all_apart (A + B) \<longleftrightarrow> all_apart A \<and> all_apart B \<and> (\<forall>x \<in># A. \<forall>y \<in># B. apart x y)"
proof (induction A)
  case (add x A)
  then show ?case by (auto simp: all_apart_add simp del: apart.simps)
qed (simp add: all_apart_def)

lemma capacity_pos: "pool_inv p \<Longrightarrow> pool_capacity p > 0"
proof -
  assume p: "pool_inv p"
  then have "0 \<le> sum_list (map (\<lambda>b. blk_end b - blk_addr b) (block_list p))"
    by (intro sum_list_nonneg) (auto simp: pool_inv_def block_ok_def list_all_iff sizeof_pool_block_def)
  then show ?thesis using p by (simp add: pool_inv_def sizeof_pool_def)
qed

lemma destroy_events:
  assumes "pool_inv p"
  shows "sum_list (map event_delta (pj_pool_destroy_int p)) = - pool_capacity p"
    and "reset_pool p = (p', ev) \<Longrightarrow>
      sum_list (map event_delta ev) = pool_capacity p' - pool_capacity p"
proof -
  have neg: "(\<Sum>x\<leftarrow>xs. blk_addr x - blk_end x) = - (\<Sum>x\<leftarrow>xs. blk_end x - blk_addr x)" for xs
    by (induction xs) simp_all
  have r: "sum_list (map event_delta ev) = pool_capacity p' - pool_capacity p"
    if "reset_pool p = (p', ev)" for p' ev
    using reset_facts(2,3) [OF assms that] by (simp add: comp_def neg rev_map [symmetric] sum_list_rev)
  then show "reset_pool p = (p', ev) \<Longrightarrow>
      sum_list (map event_delta ev) = pool_capacity p' - pool_capacity p" .
  obtain p1 ev1 where "reset_pool p = (p1, ev1)" by (cases "reset_pool p")
  then show "sum_list (map event_delta (pj_pool_destroy_int p)) = - pool_capacity p"
    using r reset_facts(4) [OF assms] by simp
qed

lemma pool_inv_frame [simp]:
  "pool_inv (p\<lparr>factory_data := i\<rparr>) = pool_inv p" "pool_areas (p\<lparr>factory_data := i\<rparr>) = pool_areas p"
  "pool_areas (p\<lparr>increment_size := inc\<rparr>) = pool_areas p"
  "0 \<le> inc \<Longrightarrow> inc < 2 ^ 62 \<Longrightarrow> pool_inv p \<Longrightarrow> pool_inv (p\<lparr>increment_size := inc\<rparr>)"
  by (simp_all add: pool_inv_def pool_areas_def)

section \<open>Steps\<close>

text \<open>A pool of the used list is changed, and memory is added to it or not.\<close>

lemma used_changed:
  assumes inv: "cp_inv cp" and used: "cp_used_list cp = xs @ p # ys" and p': "member_ok p'"
    and areas: "all_apart (pool_areas p' + areas (concat (cp_free_list cp) @ xs @ ys))"
    and cap: "pool_capacity p' = pool_capacity p + d"
  shows "cp_inv (cp\<lparr>cp_used_list := xs @ p' # ys, cp_used_size := cp_used_size cp + d\<rparr>)"
  using inv p' areas cap unfolding cp_inv_def cp_pools_def used by (auto simp: used add_ac)

lemma new_pool_inv:
  assumes inv: "cp_inv cp" and p: "member_ok p" and apart: "\<forall>x \<in># pool_areas p. \<forall>y \<in># areas (cp_pools cp). apart x y"
  shows "cp_inv (cp\<lparr>cp_used_size := cp_used_size cp + pool_capacity p, cp_used_list := cp_used_list cp @ [p], cp_used_count := cp_used_count cp + 1\<rparr>)"
proof -
  have "all_apart (pool_areas p)"
    using p unfolding member_ok_def pool_inv_def pool_areas_def all_apart_sorted_wrt by blast
  then have "all_apart (areas (cp_pools cp) + pool_areas p)"
    using inv apart apart_sym unfolding all_apart_union cp_inv_def by blast
  then show ?thesis using inv p unfolding cp_inv_def cp_pools_def by (auto simp: add_ac)
qed

lemma default_frame:
  "fold default_policy ev cp = cp\<lparr>cp_used_size := cp_used_size (fold default_policy ev cp), cp_peak_used_size := cp_peak_used_size (fold default_policy ev cp)\<rparr>"
  by (rule pj_caching_pool.equality) (simp_all add: used_size_events)

lemma peak_inv [simp]: "cp_inv (cp\<lparr>cp_peak_used_size := x\<rparr>) = cp_inv cp"
  by (simp add: cp_inv_def cp_pools_def)

lemma cp_inv_events:
  assumes "cp_inv (cp\<lparr>cp_used_size := cp_used_size cp
      + sum_list (map event_delta ev)\<rparr>)"
  shows "cp_inv (fold default_policy ev cp)"
  using assms by (subst default_frame) (simp add: used_size_events(1))

lemma create_pool_inv:
  assumes inv: "cp_inv cp" and g: "cp_grants balloc cp" and inc: "0 \<le> inc" "inc < 2 ^ 62"
    and c: "cpool_create_pool balloc cp n inc = (r, cp')"
  shows "cp_inv cp'"
    and "r = Some a \<Longrightarrow> \<exists>ps p. cp_used_list cp' = ps @ [p] \<and> ps = cp_used_list cp \<and> pool_addr p = a \<and> n \<le> pool_capacity p
      \<and> increment_size p = inc \<and> length (block_list p) = 1"
    and "r = None \<Longrightarrow> cp_used_list cp' = cp_used_list cp"
proof -
  define idx where "idx = find_idx n"
  have idx: "idx \<le> 16" using find_idx_fits(1) by (simp add: idx_def)
  have "cp_inv cp' \<and> (\<forall>a. r = Some a \<longrightarrow> (\<exists>p. cp_used_list cp' = cp_used_list cp @ [p] \<and> pool_addr p = a \<and> n \<le> pool_capacity p
      \<and> increment_size p = inc \<and> length (block_list p) = 1)) \<and> (r = None \<longrightarrow> cp_used_list cp' = cp_used_list cp)"
  proof (cases "idx = 16 \<or> cp_free_list cp ! idx = []")
    case True
    define n' where "n' = (if idx < 16 then pool_sizes ! idx else n)"
    have n': "n \<le> n'" using find_idx_fits(2) [of n] by (simp add: n'_def idx_def)
    obtain pool ev where pe: "pj_pool_create_int balloc n' inc = (pool, ev)" by (cases "pj_pool_create_int balloc n' inc")
    have cp': "(r, cp') = (case pool of None \<Rightarrow> (None, fold default_policy ev cp)
        | Some pool \<Rightarrow> (Some (pool_addr pool), enter_used idx pool (fold default_policy ev cp)))"
      using c True pe by (simp add: cpool_create_pool_def idx_def [symmetric] n'_def [symmetric] PJ_CACHING_POOL_ARRAY_SIZE_def Let_def)
    show ?thesis
    proof (cases pool)
      case None
      then have "ev = [] \<or> ev = [Block_Alloc n' None]"
        using pe by (auto simp: pj_pool_create_int_def Let_def split: if_splits option.splits)
      then have "cp_inv (fold default_policy ev cp)" using inv by (intro cp_inv_events) auto
      then show ?thesis using cp' None by (simp add: used_size_events)
    next
      case (Some p)
      have gr: "\<And>m a. balloc m = Some a \<Longrightarrow> a mod 4 = 0 \<and> m < 2 ^ 63" using g by (simp add: cp_grants_def)
      note p = create_int_cases [OF pe [unfolded Some] inc gr]
      let ?p = "p\<lparr>factory_data := idx\<rparr>"
      have fit: "blk_end (last (block_list p)) - pool_addr p = n'" using single_block [OF p(1,6)] p(3) by simp
      have mem: "member_ok ?p" using p(1) fit gr [OF p(7)] by (simp add: member_ok_def n'_def)
      have apart: "\<forall>x \<in># pool_areas ?p. \<forall>y \<in># areas (cp_pools cp). apart x y"
      proof (intro ballI)
        fix x y assume x: "x \<in># pool_areas ?p" and y: "y \<in># areas (cp_pools cp)"
        have "apart (pool_addr p, n') y" using g p(7) y by (simp add: cp_grants_def)
        moreover obtain b where b: "block_list p = [b]" using p(6) by (auto simp: length_Suc_conv)
        have "blk_addr b = pool_addr p + sizeof_pool" "blk_end b - pool_addr p = n'" "blk_addr b \<le> blk_end b"
          using p(1) fit by (auto simp: pool_inv_def b block_ok_def sizeof_pool_block_def)
        then have "pool_addr p \<le> fst x \<and> fst x + snd x \<le> pool_addr p + n'"
          using x by (auto simp: pool_areas_def b block_area_def sizeof_pool_def)
        ultimately show "apart x y" using apart_sub [of "pool_addr p" n' y "fst x" "snd x"] by (simp del: apart.simps)
      qed
      have new: "cp_inv (enter_used idx p (cp\<lparr>cp_used_size := cp_used_size cp + n'\<rparr>))"
        using new_pool_inv [OF inv mem apart] p(3) by (simp add: enter_used_def)
      have sum: "sum_list (map event_delta ev) = n'" using p(5) by simp
      have "enter_used idx p (fold default_policy ev cp) =
          (enter_used idx p (cp\<lparr>cp_used_size := cp_used_size cp + n'\<rparr>))\<lparr>cp_peak_used_size := cp_peak_used_size (fold default_policy ev cp)\<rparr>"
        by (rule pj_caching_pool.equality) (simp_all add: enter_used_def used_size_events sum)
      then have "cp_inv cp'" using cp' Some new by simp
      moreover have "cp_used_list cp' = cp_used_list cp @ [?p]" using cp' Some by (simp add: enter_used_def used_size_events)
      ultimately show ?thesis using cp' Some p(3,4,6) n' by auto
    qed
  next
    case False
    then have i: "idx < 16" using idx by simp
    obtain p rest where fl: "cp_free_list cp ! idx = p # rest" using False by (cases "cp_free_list cp ! idx") auto
    let ?p = "p\<lparr>increment_size := inc, factory_data := idx\<rparr>"
    define fl' where "fl' = (cp_free_list cp)[idx := rest]"
    have len: "length (cp_free_list cp) = 16" using inv by (simp add: cp_inv_def)
    have row: "set (p # rest) \<subseteq> set (concat (cp_free_list cp))" using row_in_concat [of idx "cp_free_list cp"] i len fl by simp
    have mem_all: "\<forall>q \<in> set (concat (cp_free_list cp)) \<union> set (cp_used_list cp). member_ok q" using inv by (simp add: cp_inv_def cp_pools_def)
    have p1: "\<forall>q \<in> set (cp_free_list cp ! idx). factory_data q = idx \<and> length (block_list q) = 1" using inv i unfolding cp_inv_def by blast
    have p: "member_ok p" "factory_data p = idx" "length (block_list p) = 1" using mem_all row p1 fl by auto
    note upd = areas_concat_update [of idx "cp_free_list cp" rest, folded fl'_def, unfolded len, OF i]
    have ar: "areas (concat fl') + pool_areas p = areas (concat (cp_free_list cp))" using upd(1) fl by (simp add: add_ac)
    have cap: "sum_list (map pool_capacity (concat fl')) + pool_capacity p = cp_capacity cp" using upd(2) fl inv by (simp add: cp_inv_def)
    have sub: "set (concat fl') \<subseteq> set (concat (cp_free_list cp))" using upd(3) row by auto
    have "0 \<le> pool_capacity q" if "q \<in> set (concat fl')" for q
      using that sub mem_all capacity_pos [of q] unfolding member_ok_def by fastforce
    then have "0 \<le> sum_list (map pool_capacity (concat fl'))" by (intro sum_list_nonneg) auto
    then have cap': "(if cp_capacity cp > pool_capacity p then cp_capacity cp - pool_capacity p else 0) = sum_list (map pool_capacity (concat fl'))"
      using cap by simp
    have cp': "r = Some (pool_addr p)" "cp' = cp\<lparr>cp_free_list := fl', cp_capacity := sum_list (map pool_capacity (concat fl')),
        cp_used_list := cp_used_list cp @ [?p], cp_used_count := cp_used_count cp + 1\<rparr>"
      using c False fl cap'
      by (simp_all add: cpool_create_pool_def idx_def [symmetric] PJ_CACHING_POOL_ARRAY_SIZE_def Let_def enter_used_def pj_pool_init_int_def
          pj_pool_get_capacity_def fl'_def cong: if_cong)
    have mem: "member_ok ?p" using p inc by (simp add: member_ok_def)
    have fits: "n \<le> pool_capacity p"
      using find_idx_fits(2) [of n] i single_block [of p] p by (simp add: idx_def [symmetric] member_ok_def)
    have mems: "\<forall>q \<in> set (concat fl' @ cp_used_list cp @ [?p]). member_ok q"
      using mem_all sub mem by (simp only: set_append list.set) blast
    have rows: "\<forall>j < 16. \<forall>q \<in> set (fl' ! j). factory_data q = j \<and> length (block_list q) = 1"
    proof (intro allI impI ballI)
      fix j q assume j: "j < 16" and q: "q \<in> set (fl' ! j)"
      have "q \<in> set (cp_free_list cp ! j)" using q fl i len by (cases "j = idx") (simp_all add: fl'_def)
      then show "factory_data q = j \<and> length (block_list q) = 1" using inv j unfolding cp_inv_def by blast
    qed
    have "areas (concat fl' @ cp_used_list cp @ [?p]) = areas (cp_pools cp)" using ar by (simp add: cp_pools_def add_ac)
    then have apart': "all_apart (areas (concat fl' @ cp_used_list cp @ [?p]))" using inv by (simp only: cp_inv_def)
    have us: "cp_used_size cp = sum_list (map pool_capacity (concat fl' @ cp_used_list cp @ [?p]))"
      using inv cap by (simp add: cp_inv_def cp_pools_def)
    have low: "sum_list (map pool_capacity (concat fl')) \<le> cp_max_capacity cp"
      using inv cap capacity_pos [of p] p(1) by (simp add: cp_inv_def member_ok_def)
    have "cp_inv cp'"
      using inv mems rows apart' us low len unfolding cp_inv_def cp_pools_def cp'(2) by (simp add: fl'_def)
    then show ?thesis using cp' fits p(3) by auto
  qed
  then show "cp_inv cp'" "r = Some a \<Longrightarrow> \<exists>ps p. cp_used_list cp' = ps @ [p] \<and> ps = cp_used_list cp \<and> pool_addr p = a \<and> n \<le> pool_capacity p
      \<and> increment_size p = inc \<and> length (block_list p) = 1" "r = None \<Longrightarrow> cp_used_list cp' = cp_used_list cp" by auto
qed

lemma same_shape:
  assumes "member_ok p" "pool_inv q" "pool_addr q = pool_addr p" "map block_area (block_list q) = map block_area (block_list p)"
    "factory_data q = factory_data p"
  shows "member_ok q"
proof -
  have "block_list p \<noteq> []" "block_list q \<noteq> []" using assms(1,2) by (simp_all add: member_ok_def pool_inv_def)
  then have "block_area (last (block_list q)) = block_area (last (block_list p))" using assms(4) by (metis last_map)
  then show ?thesis using assms by (auto simp: member_ok_def block_area_def)
qed

lemma pool_areas_member: "p \<in> set ps \<Longrightarrow> x \<in># pool_areas p \<Longrightarrow> x \<in># areas ps"
  by (induction ps) auto

lemma member_grants:
  assumes "cp_grants balloc cp" "p \<in> set (cp_pools cp)"
  shows "grants balloc p"
  using assms pool_areas_member [OF assms(2)] unfolding cp_grants_def grants_def pool_areas_def by (metis set_mset_mset)

lemma alloc_inv:
  assumes inv: "cp_inv cp" and g: "cp_grants balloc cp" and n: "0 \<le> n" "n < 2 ^ 62" and c: "cpool_alloc balloc cp addr n = Some (r, cp')"
  shows "cp_inv cp'" "length (cp_used_list cp') = length (cp_used_list cp)" "cp_free_list cp' = cp_free_list cp"
proof -
  obtain xs p ys where ex: "List.extract (\<lambda>p. pool_addr p = addr) (cp_used_list cp) = Some (xs, p, ys)"
    using c by (auto simp: cpool_alloc_def split: option.splits)
  then have used: "cp_used_list cp = xs @ p # ys" by (auto dest: extract_SomeE)
  have mem: "member_ok p" and p: "p \<in> set (cp_pools cp)" using inv used by (auto simp: cp_inv_def cp_pools_def)
  then have pinv: "pool_inv p" and gp: "grants balloc p" using member_grants [OF g p] by (auto simp: member_ok_def)
  obtain p' ev where al: "pj_pool_alloc balloc p n = (r, p', ev)" and cp': "cp' = fold default_policy ev (cp\<lparr>cp_used_list := xs @ p' # ys\<rparr>)"
    using c ex by (auto simp: cpool_alloc_def split: prod.splits)
  let ?others = "areas (concat (cp_free_list cp) @ xs @ ys)"
  have apart: "all_apart (pool_areas p + ?others)" using inv by (simp add: cp_inv_def cp_pools_def used add_ac)
  let ?d = "sum_list (map event_delta ev)"
  have "member_ok p' \<and> all_apart (pool_areas p' + ?others) \<and> pool_capacity p' = pool_capacity p + ?d"
  proof (cases rule: pj_pool_alloc_cases [OF pinv n gp])
    case (1 a q)
    have q: "p' = q" "ev = []" using 1(1) al by simp_all
    note cut = cut_inv [OF pinv 1(2) n(1), folded q(1)]
    have "pool_areas p' = pool_areas p" using cut(4,6) by (simp add: pool_areas_def)
    moreover have "member_ok p'" by (rule same_shape [OF mem cut(1,4,6)]) (use 1(2) q(1) in \<open>auto simp: cut_def\<close>)
    ultimately show ?thesis using apart cut(3) q(2) by simp
  next
    case (2 a p1 q sz c)
    have q: "p' = q" "ev = [Block_Alloc sz (Some c)]" using 2(1) al by simp_all
    note cut = cut_inv [OF 2(4,5) n(1), folded q(1)]
    have f1: "factory_data p1 = factory_data p" "pool_addr p1 = pool_addr p" "last (block_list p1) = last (block_list p)" "pool_capacity p1 = pool_capacity p + sz"
      using 2(3) pinv by (simp_all add: pool_inv_def)
    then have "member_ok p1" using mem 2(4) by (simp add: member_ok_def)
    then have "member_ok p'" by (rule same_shape [OF _ cut(1,4,6)]) (use 2(5) q(1) in \<open>auto simp: cut_def\<close>)
    moreover have a1: "pool_areas p' = add_mset (c, sz) (pool_areas p)"
      using cut(4,6) f1(2) 2(3) by (simp add: pool_areas_def block_area_def new_block_def)
    have "\<forall>y \<in># pool_areas p + ?others. apart (c, sz) y"
      using g 2(6) unfolding cp_grants_def cp_pools_def used by (auto simp del: apart.simps)
    then have "all_apart (pool_areas p' + ?others)" unfolding a1 using apart by (simp add: all_apart_add del: apart.simps)
    ultimately show ?thesis using cut(3) f1(4) q(2) by simp
  next
    case (3 ev')
    then show ?thesis using al mem apart by auto
  qed
  then have "cp_inv (cp\<lparr>cp_used_list := xs @ p' # ys, cp_used_size := cp_used_size cp + ?d\<rparr>)"
    using used_changed [OF inv used] by blast
  then show "cp_inv cp'" unfolding cp' by (intro cp_inv_events) simp
  show "length (cp_used_list cp') = length (cp_used_list cp)" "cp_free_list cp' = cp_free_list cp"
    by (simp_all add: cp' used_size_events used)
qed

lemma release_inv:
  assumes inv: "cp_inv cp" and c: "cpool_release_pool cp addr = Some cp'"
  shows "cp_inv cp'" "length (cp_used_list cp') = length (cp_used_list cp) - 1"
proof -
  obtain xs p ys where ex: "List.extract (\<lambda>p. pool_addr p = addr) (cp_used_list cp) = Some (xs, p, ys)"
    using c by (auto simp: cpool_release_pool_def split: option.splits)
  then have used: "cp_used_list cp = xs @ p # ys" by (auto dest: extract_SomeE)
  have mem: "member_ok p" using inv used by (auto simp: cp_inv_def cp_pools_def)
  then have pinv: "pool_inv p" and al: "pool_addr p mod 4 = 0" by (auto simp: member_ok_def)
  define cp1 where "cp1 = cp\<lparr>cp_used_list := xs @ ys, cp_used_count := cp_used_count cp - 1\<rparr>"
  let ?others = "areas (concat (cp_free_list cp) @ xs @ ys)"
  have apart: "all_apart (pool_areas p + ?others)" using inv by (simp add: cp_inv_def cp_pools_def used add_ac)
  have gone: "cp_inv (cp1\<lparr>cp_used_size := cp_used_size cp1 - pool_capacity p\<rparr>)"
    using inv apart unfolding cp1_def cp_inv_def cp_pools_def used by (auto simp: used all_apart_union)
  obtain q ev where q: "reset_pool p = (q, ev)" by (cases "reset_pool p")
  note R = reset_facts [OF pinv q] and qinv = reset_pool_inv(1) [OF pinv al, unfolded q fst_conv]
  have destroy: "cp_inv (fold default_policy (pj_pool_destroy_int p) cp1)"
    by (rule cp_inv_events) (use gone destroy_events(1) [OF pinv] in simp)
  have cap_q: "pool_capacity q \<le> pool_capacity p"
  proof -
    have "0 \<le> sum_list (map (\<lambda>b. blk_end b - blk_addr b) (butlast (block_list p)))"
      using pinv by (intro sum_list_nonneg) (auto simp: pool_inv_def block_ok_def list_all_iff sizeof_pool_block_def dest!: in_set_butlastD)
    then show ?thesis using R(3) by simp
  qed
  have dq: "sum_list (map event_delta ev) = pool_capacity q - pool_capacity p"
    by (rule destroy_events(2) [OF pinv q])
  have "cp_inv cp' \<and> cp_used_list cp' = xs @ ys"
  proof (cases "pool_capacity p > pool_sizes ! (PJ_CACHING_POOL_ARRAY_SIZE - 1) \<or> cp_capacity cp + pool_capacity p > cp_max_capacity cp")
    case True
    then have "cp' = fold default_policy (pj_pool_destroy_int p) cp1"
      using c ex by (simp add: cpool_release_pool_def cp1_def pj_pool_get_capacity_def Let_def)
    then show ?thesis using destroy by (simp add: used_size_events cp1_def)
  next
    case small: False
    show ?thesis
    proof (cases "factory_data q \<ge> 16")
      case True
      then have "cp' = fold default_policy (pj_pool_destroy_int q) (fold default_policy ev cp1)"
        using c ex small q by (simp add: cpool_release_pool_def cp1_def pj_pool_get_capacity_def pj_pool_reset_def Let_def PJ_CACHING_POOL_ARRAY_SIZE_def)
      moreover have "cp_inv (fold default_policy (ev @ pj_pool_destroy_int q) cp1)"
        by (rule cp_inv_events) (use gone destroy_events(1) [OF qinv] dq in simp)
      ultimately show ?thesis by (simp add: used_size_events cp1_def)
    next
      case False
      define i where "i = factory_data q"
      have i: "i < 16" using False by (simp add: i_def)
      have len: "length (cp_free_list cp) = 16" using inv by (simp add: cp_inv_def)
      define fl' where "fl' = (cp_free_list cp)[i := q # cp_free_list cp ! i]"
      let ?cp = "fold default_policy ev cp1"
      have cp': "cp' = ?cp\<lparr>cp_free_list := fl', cp_capacity := cp_capacity cp + pool_capacity q\<rparr>"
        using c ex small q False
        by (simp add: cpool_release_pool_def cp1_def pj_pool_get_capacity_def pj_pool_reset_def Let_def PJ_CACHING_POOL_ARRAY_SIZE_def
            used_size_events i_def fl'_def)
      note upd = areas_concat_update [of i "cp_free_list cp" "q # cp_free_list cp ! i", folded fl'_def, unfolded len, OF i]
      have ar: "areas (concat fl') = areas (concat (cp_free_list cp)) + pool_areas q" using upd(1) by (simp add: add_ac)
      have cap: "sum_list (map pool_capacity (concat fl')) = cp_capacity cp + pool_capacity q" using upd(2) inv by (simp add: cp_inv_def)
      have "member_ok q"
      proof -
        obtain z where z: "block_list q = [z]" using R(1) by (auto simp: length_Suc_conv)
        have "blk_addr z = blk_addr (last (block_list p))" "blk_end z = blk_end (last (block_list p))"
          using R(5) by (simp_all add: z block_area_def)
        then show ?thesis using mem qinv R(6,7) by (simp add: member_ok_def z)
      qed
      moreover have "\<forall>p \<in> set (concat (cp_free_list cp)) \<union> set (xs @ ys). member_ok p" using inv by (simp add: cp_inv_def cp_pools_def used)
      moreover have "set (concat fl') \<subseteq> insert q (set (concat (cp_free_list cp)))"
        using upd(3) row_in_concat [of i "cp_free_list cp"] i len by auto
      ultimately have mems: "\<forall>p \<in> set (concat fl' @ xs @ ys). member_ok p" by (simp only: set_append) blast
      have rows: "\<forall>j < 16. \<forall>p \<in> set (fl' ! j). factory_data p = j \<and> length (block_list p) = 1"
        using inv R(1) i len unfolding cp_inv_def fl'_def by (auto simp: nth_list_update i_def)
      have "pool_areas q \<subseteq># pool_areas p"
        using R(5,6) pinv unfolding pool_areas_def pool_inv_def
        by (cases "block_list p" rule: rev_cases) (auto simp: add_mset_commute)
      then have "pool_areas q + ?others \<subseteq># pool_areas p + ?others" by simp
      then have apart': "all_apart (areas (concat fl' @ xs @ ys))" using all_apart_mono [OF apart] by (simp add: ar add_ac)
      have us: "cp_used_size ?cp = sum_list (map pool_capacity (concat fl' @ xs @ ys))"
        using inv cap by (simp add: used_size_events dq cp1_def cp_inv_def cp_pools_def used)
      have "cp_inv cp'"
        using mems rows apart' us cap len cap_q small inv unfolding cp_inv_def cp_pools_def cp'
        by (simp add: used_size_events cp1_def used fl'_def)
      then show ?thesis by (simp add: cp' used_size_events cp1_def)
    qed
  qed
  then show "cp_inv cp'" "length (cp_used_list cp') = length (cp_used_list cp) - 1" by (simp_all add: used)
qed

section \<open>Runs\<close>

text \<open>What clients do with a caching pool: create pools, allocate from them, release them.\<close>

inductive cp_run :: "pj_caching_pool \<Rightarrow> bool" where
  cp_start: "0 \<le> max_capacity \<Longrightarrow> cp_run (pj_caching_pool_init max_capacity)"
| cp_create: "cp_run cp \<Longrightarrow> cp_grants balloc cp \<Longrightarrow> 0 \<le> inc \<Longrightarrow> inc < 2 ^ 62 \<Longrightarrow> cpool_create_pool balloc cp n inc = (r, cp') \<Longrightarrow> cp_run cp'"
| cp_alloc: "cp_run cp \<Longrightarrow> cp_grants balloc cp \<Longrightarrow> 0 \<le> n \<Longrightarrow> n < 2 ^ 62 \<Longrightarrow> cpool_alloc balloc cp addr n = Some (r', cp') \<Longrightarrow> cp_run cp'"
| cp_release: "cp_run cp \<Longrightarrow> cpool_release_pool cp addr = Some cp' \<Longrightarrow> cp_run cp'"

lemma init_inv: "0 \<le> m \<Longrightarrow> cp_inv (pj_caching_pool_init m)"
  by (simp add: cp_inv_def cp_pools_def pj_caching_pool_init_def PJ_CACHING_POOL_ARRAY_SIZE_def all_apart_def)

lemma cp_run_inv: "cp_run cp \<Longrightarrow> cp_inv cp"
proof (induction rule: cp_run.induct)
  case (cp_start m)
  then show ?case by (rule init_inv)
next
  case (cp_create cp balloc inc n r cp')
  then show ?case by (rule_tac create_pool_inv(1)) auto
next
  case (cp_alloc cp balloc n addr r' cp')
  then show ?case by (rule_tac alloc_inv(1)) auto
next
  case (cp_release cp addr cp')
  then show ?case by (rule_tac release_inv(1))
qed

lemma areas_split:
  assumes "i < j" "j < length ps"
  shows "\<exists>N. areas ps = pool_areas (ps ! i) + pool_areas (ps ! j) + N"
proof -
  have i: "ps = take i ps @ ps ! i # drop (Suc i) ps" using assms by (intro id_take_nth_drop) simp
  have j: "drop (Suc i) ps = take (j - Suc i) (drop (Suc i) ps) @ ps ! j # drop (Suc (j - Suc i)) (drop (Suc i) ps)"
    using id_take_nth_drop [of "j - Suc i" "drop (Suc i) ps"] assms by simp
  have "areas ps = areas (take i ps) + pool_areas (ps ! i) + areas (drop (Suc i) ps)" by (subst i) simp
  also have "areas (drop (Suc i) ps) = areas (take (j - Suc i) (drop (Suc i) ps)) + pool_areas (ps ! j) + areas (drop (Suc (j - Suc i)) (drop (Suc i) ps))"
    by (subst j) simp
  finally show ?thesis by (auto simp: add_ac intro: exI [of _ "areas (take i ps) + (areas (take (j - Suc i) (drop (Suc i) ps)) + areas (drop (Suc (j - Suc i)) (drop (Suc i) ps)))"])
qed

lemma pools_apart:
  assumes "all_apart (areas ps)" "i < length ps" "j < length ps" "i \<noteq> j" "x \<in># pool_areas (ps ! i)" "y \<in># pool_areas (ps ! j)"
  shows "apart x y"
proof (cases "i < j")
  case True
  then obtain N where "areas ps = pool_areas (ps ! i) + pool_areas (ps ! j) + N" using areas_split assms(3) by blast
  then show ?thesis using assms by (simp add: all_apart_union)
next
  case False
  then obtain N where "areas ps = pool_areas (ps ! j) + pool_areas (ps ! i) + N" using areas_split [of j i ps] assms(2,4) by auto
  then show ?thesis using assms apart_sym by (simp add: all_apart_union)
qed

lemma apart_at_address:
  assumes "all_apart (areas ps)" "i < length ps" "j < length ps" "pool_addr (ps ! i) = pool_addr (ps ! j)"
  shows "i = j"
proof (rule ccontr)
  assume "i \<noteq> j"
  then have "apart (pool_addr (ps ! i), sizeof_pool) (pool_addr (ps ! j), sizeof_pool)"
    by (rule pools_apart [OF assms(1-3)]) (simp_all add: pool_areas_def)
  then show False using assms(4) by (simp add: sizeof_pool_def)
qed

section \<open>Properties\<close>

text \<open>
C17. In every run of creating, using and releasing pools the counters of the caching pool are what
they stand for in the code: the number of pools in use; used_size, the size of all pools, used or
free, where pool.h documents the memory used by the application; and the size of the free ones,
which stays within the limit. Free pools have only their first block, and no two blocks of
different pools overlap.
\<close>

theorem caching_pool_accounts:
  assumes "cp_run cp"
  shows "cp_used_count cp = int (length (cp_used_list cp))
    \<and> cp_used_size cp = sum_list (map pj_pool_get_capacity (concat (cp_free_list cp) @ cp_used_list cp))
    \<and> cp_capacity cp = sum_list (map pj_pool_get_capacity (concat (cp_free_list cp))) \<and> cp_capacity cp \<le> cp_max_capacity cp
    \<and> (\<forall>p \<in> set (concat (cp_free_list cp)). length (block_list p) = 1)
    \<and> (\<forall>i < length (cp_pools cp). \<forall>j < length (cp_pools cp). i \<noteq> j \<longrightarrow>
         (\<forall>b \<in> set (block_list (cp_pools cp ! i)). \<forall>c \<in> set (block_list (cp_pools cp ! j)). apart (block_area b) (block_area c)))"
proof -
  have inv: "cp_inv cp" by (rule cp_run_inv [OF assms])
  have one: "length (block_list p) = 1" if "p \<in> set (concat (cp_free_list cp))" for p
  proof -
    obtain ps where ps: "ps \<in> set (cp_free_list cp)" "p \<in> set ps" using \<open>p \<in> set (concat (cp_free_list cp))\<close> by auto
    then obtain i where "i < length (cp_free_list cp)" "p \<in> set (cp_free_list cp ! i)" by (auto simp: in_set_conv_nth [of ps])
    then show ?thesis using inv unfolding cp_inv_def by auto
  qed
  have "apart (block_area b) (block_area c)"
    if "i < length (cp_pools cp)" "j < length (cp_pools cp)" "i \<noteq> j" "b \<in> set (block_list (cp_pools cp ! i))" "c \<in> set (block_list (cp_pools cp ! j))" for i j b c
    by (rule pools_apart [OF _ that(1-3)]) (use inv that(4,5) in \<open>auto simp: cp_inv_def pool_areas_def\<close>)
  moreover have "map pj_pool_get_capacity = map pool_capacity" by (simp add: pj_pool_get_capacity_def fun_eq_iff)
  ultimately show ?thesis using inv one by (simp add: cp_inv_def cp_pools_def)
qed

theorem caching_pool_create_fits:
  assumes "cp_run cp" "cp_grants balloc cp" "0 \<le> inc" "inc < 2 ^ 62" "cpool_create_pool balloc cp n inc = (Some a, cp')"
  shows "\<exists>p. cp_used_list cp' = cp_used_list cp @ [p] \<and> pool_addr p = a \<and> increment_size p = inc \<and> length (block_list p) = 1
    \<and> n \<le> pj_pool_get_capacity p \<and> (\<forall>m \<in> set pool_sizes. n \<le> m \<longrightarrow> pj_pool_get_capacity p \<le> m)
    \<and> a \<notin> pool_addr ` set (cp_used_list cp)"
proof -
  have inv: "cp_inv cp" by (rule cp_run_inv [OF assms(1)])
  note C = create_pool_inv [OF inv assms(2-5)]
  obtain p where p: "cp_used_list cp' = cp_used_list cp @ [p]" "pool_addr p = a" "n \<le> pool_capacity p" "increment_size p = inc" "length (block_list p) = 1"
    using C(2) [of a] by blast
  have fd: "factory_data p = find_idx n"
    using p(1) assms(5) unfolding cpool_create_pool_def
    by (auto simp: Let_def enter_used_def pj_pool_init_int_def used_size_events split: if_splits option.splits prod.splits)
  have mem: "member_ok p" using C(1) p(1) by (simp add: cp_inv_def cp_pools_def)
  have "pool_capacity p \<le> m" if m: "m \<in> set pool_sizes" "n \<le> m" for m
  proof -
    obtain j where j: "j < 16" "m = pool_sizes ! j" using m(1) pool_sizes_facts(1) by (auto simp: in_set_conv_nth)
    then have le: "find_idx n \<le> j" using find_idx_fits(3) [of j n] m(2) by force
    then have "pool_capacity p = pool_sizes ! find_idx n" using mem single_block [of p] p(5) fd j(1) by (simp add: member_ok_def)
    then show ?thesis using sorted_nth_mono [OF pool_sizes_facts(2) le] j pool_sizes_facts(1) by simp
  qed
  moreover have "a \<notin> pool_addr ` set (cp_used_list cp)"
  proof
    assume "a \<in> pool_addr ` set (cp_used_list cp)"
    then obtain i where i: "i < length (cp_used_list cp)" "pool_addr (cp_used_list cp ! i) = a" by (auto simp: in_set_conv_nth)
    have "all_apart (areas (cp_used_list cp'))" using C(1) by (simp add: cp_inv_def cp_pools_def all_apart_union)
    from apart_at_address [OF this, of i "length (cp_used_list cp)"] i p(1,2) show False by (simp add: nth_append)
  qed
  ultimately show ?thesis using p by (auto simp: pj_pool_get_capacity_def)
qed

text \<open>
C36. A pool that is released, with a capacity of at most 64 KB and room within the limit, is kept
and handed out again by the next request of its size class, without a request for memory. The
release lowers the size in use by exactly the blocks behind the first, which it frees, so not at
all for a pool of one block, and the creation leaves it as it is; the number of pools and the free
capacity are as before the release.
\<close>

theorem caching_pool_reuses:
  assumes run: "cp_run cp" and p: "p \<in> set (cp_used_list cp)" and idx: "find_idx n = factory_data p" "n \<le> 65536"
    and small: "pj_pool_get_capacity p \<le> 65536" "cp_capacity cp + pj_pool_get_capacity p \<le> cp_max_capacity cp"
  shows "\<exists>cp1 cp2. cpool_release_pool cp (pool_addr p) = Some cp1 \<and> cpool_create_pool balloc cp1 n inc = (Some (pool_addr p), cp2)
    \<and> cp_used_size cp1 = cp_used_size cp - (pj_pool_get_capacity p - pool_sizes ! factory_data p)
    \<and> (length (block_list p) = 1 \<longrightarrow> cp_used_size cp1 = cp_used_size cp)
    \<and> cp_used_size cp2 = cp_used_size cp1 \<and> cp_used_count cp2 = cp_used_count cp \<and> cp_capacity cp2 = cp_capacity cp"
proof -
  have inv: "cp_inv cp" by (rule cp_run_inv [OF run])
  have i: "factory_data p < 16"
    using find_idx_fits(1) [of n] find_idx_fits(3) [of 15 n] idx by (force simp: pool_sizes_def)
  obtain xs p' ys where ex: "List.extract (\<lambda>q. pool_addr q = pool_addr p) (cp_used_list cp) = Some (xs, p', ys)"
    using p by (cases "List.extract (\<lambda>q. pool_addr q = pool_addr p) (cp_used_list cp)") (auto simp: extract_None_iff)
  then have used: "cp_used_list cp = xs @ p' # ys" and a: "pool_addr p' = pool_addr p" by (auto dest: extract_SomeE)
  have p': "p' = p"
  proof -
    obtain j where j: "j < length (cp_used_list cp)" "cp_used_list cp ! j = p" using p by (auto simp: in_set_conv_nth)
    have "all_apart (areas (cp_used_list cp))" using inv by (simp add: cp_inv_def cp_pools_def all_apart_union)
    from apart_at_address [OF this j(1), of "length xs"] j(2) a used show ?thesis by simp
  qed
  have pinv: "pool_inv p" using inv p by (simp add: cp_inv_def cp_pools_def member_ok_def)
  obtain q ev where q: "reset_pool p = (q, ev)" by (cases "reset_pool p")
  note R = reset_facts [OF pinv q]
  have len: "length (cp_free_list cp) = 16" using inv by (simp add: cp_inv_def)
  define cp1 where "cp1 = fold default_policy ev (cp\<lparr>cp_used_list := xs @ ys, cp_used_count := cp_used_count cp - 1\<rparr>)
      \<lparr>cp_free_list := (cp_free_list cp)[factory_data p := q # cp_free_list cp ! factory_data p], cp_capacity := cp_capacity cp + pool_capacity q\<rparr>"
  have rel: "cpool_release_pool cp (pool_addr p) = Some cp1"
    using ex p' small i q R(6,7)
    by (simp add: cpool_release_pool_def cp1_def pj_pool_get_capacity_def pj_pool_reset_def Let_def PJ_CACHING_POOL_ARRAY_SIZE_def used_size_events pool_sizes_def)
  have first: "pool_capacity q = pool_sizes ! factory_data p" and one: "length (block_list p) = 1 \<Longrightarrow> pool_capacity q = pool_capacity p"
  proof -
    have "member_ok p" using inv p by (simp add: cp_inv_def cp_pools_def)
    then have "blk_end (last (block_list p)) - pool_addr p = pool_sizes ! factory_data p" using i by (simp add: member_ok_def)
    moreover have "pool_capacity q = blk_end (last (block_list p)) - pool_addr p"
    proof -
      obtain bs b where b: "block_list p = bs @ [b]" using pinv by (cases "block_list p" rule: rev_cases) (auto simp: pool_inv_def)
      then show ?thesis using R(3) pinv by (simp add: pool_inv_def)
    qed
    ultimately show "pool_capacity q = pool_sizes ! factory_data p" by simp
    show "pool_capacity q = pool_capacity p" if "length (block_list p) = 1" using R(3) that by (cases "block_list p") simp_all
  qed
  have size: "cp_used_size cp1 = cp_used_size cp - (pool_capacity p - pool_capacity q)"
    using destroy_events(2) [OF pinv q] by (simp add: cp1_def used_size_events)
  have cap: "0 \<le> cp_capacity cp"
  proof -
    have "\<forall>p \<in> set (concat (cp_free_list cp)). 0 \<le> pool_capacity p"
      using inv capacity_pos unfolding cp_inv_def cp_pools_def member_ok_def by (metis Un_iff less_le set_append)
    then show ?thesis using inv by (auto simp: cp_inv_def intro!: sum_list_nonneg)
  qed
  obtain r cp2 where c: "cpool_create_pool balloc cp1 n inc = (r, cp2)" by (cases "cpool_create_pool balloc cp1 n inc")
  then have "r = Some (pool_addr p) \<and> cp_used_size cp2 = cp_used_size cp1 \<and> cp_used_count cp2 = cp_used_count cp \<and> cp_capacity cp2 = cp_capacity cp"
    using i idx(1) len R(6,7) cap
    by (auto simp: cpool_create_pool_def Let_def enter_used_def pj_pool_init_int_def pj_pool_get_capacity_def cp1_def PJ_CACHING_POOL_ARRAY_SIZE_def used_size_events)
  then show ?thesis using rel c size first one by (auto simp: pj_pool_get_capacity_def)
qed

theorem caching_pool_destroy_frees:
  assumes "cp_run cp"
  shows "cp_used_size (pj_caching_pool_destroy cp) = 0 \<and> cp_pools (pj_caching_pool_destroy cp) = []"
proof -
  have ok: "\<forall>p \<in> set (concat (cp_free_list cp) @ cp_used_list cp). pool_inv p"
    using cp_run_inv [OF assms] by (simp add: cp_inv_def cp_pools_def member_ok_def)
  have f: "cp_used_size (fold (\<lambda>pool. fold default_policy (pj_pool_destroy_int pool)) ps c) = cp_used_size c - sum_list (map pool_capacity ps)
      \<and> cp_used_list (fold (\<lambda>pool. fold default_policy (pj_pool_destroy_int pool)) ps c) = cp_used_list c
      \<and> cp_free_list (fold (\<lambda>pool. fold default_policy (pj_pool_destroy_int pool)) ps c) = cp_free_list c"
    if "\<forall>p \<in> set ps. pool_inv p" for ps c
    using that by (induction ps arbitrary: c) (simp_all add: used_size_events destroy_events(1))
  have "cp_used_size cp = sum_list (map pool_capacity (concat (cp_free_list cp))) + sum_list (map pool_capacity (cp_used_list cp))"
    using cp_run_inv [OF assms] by (simp add: cp_inv_def cp_pools_def)
  moreover have e: "concat (map (\<lambda>_. []) xs) = []" for xs :: "pj_pool list list" by (induction xs) simp_all
  ultimately show ?thesis
    using ok by (simp add: pj_caching_pool_destroy_def Let_def f cp_pools_def)
qed

section \<open>Instances\<close>

definition ex_malloc :: "int \<Rightarrow> int option" where
  "ex_malloc n = (if n = 1024 then Some 4096 else None)"

definition ex_cp :: pj_caching_pool where
  "ex_cp = snd (cpool_create_pool ex_malloc (pj_caching_pool_init 100000) 1000 512)"

lemma ex_cp_values:
  "cpool_create_pool ex_malloc (pj_caching_pool_init 100000) 1000 512 = (Some 4096, ex_cp)"
  "map pool_addr (cp_used_list ex_cp) = [4096]" "map factory_data (cp_used_list ex_cp) = [2]" "map pool_capacity (cp_used_list ex_cp) = [1024]"
  "concat (cp_free_list ex_cp) = []" "cp_capacity ex_cp = 0" "cp_max_capacity ex_cp = 100000" "find_idx 600 = 2"
  by code_simp+

lemma ex_cp_run: "cp_run (pj_caching_pool_init 100000)" "cp_grants ex_malloc (pj_caching_pool_init 100000)" "cp_run ex_cp"
proof -
  show r: "cp_run (pj_caching_pool_init 100000)" by (rule cp_start) simp
  show g: "cp_grants ex_malloc (pj_caching_pool_init 100000)"
    by (simp add: cp_grants_def ex_malloc_def cp_pools_def pj_caching_pool_init_def)
  show "cp_run ex_cp" by (rule cp_create [OF r g _ _ ex_cp_values(1)]) simp_all
qed

theorem caching_pool_accounts_witness: "cp_used_count ex_cp = 1 \<and> cp_used_size ex_cp = 1024"
proof -
  have "length (cp_used_list ex_cp) = 1" using arg_cong [OF ex_cp_values(2), of length] by simp
  moreover have "map pj_pool_get_capacity = map pool_capacity" by (simp add: pj_pool_get_capacity_def fun_eq_iff)
  ultimately show ?thesis using caching_pool_accounts [OF ex_cp_run(3)] ex_cp_values by simp
qed

theorem caching_pool_create_fits_witness: "\<exists>p. cp_used_list ex_cp = [p] \<and> pool_addr p = 4096 \<and> 1000 \<le> pj_pool_get_capacity p"
  using caching_pool_create_fits [OF ex_cp_run(1,2) _ _ ex_cp_values(1)] by (auto simp: pj_caching_pool_init_def)

theorem caching_pool_reuses_witness:
  "\<exists>cp1 cp2. cpool_release_pool ex_cp 4096 = Some cp1 \<and> cpool_create_pool (\<lambda>_. None) cp1 600 0 = (Some 4096, cp2)
    \<and> cp_used_size cp1 = 1024 \<and> cp_used_size cp2 = 1024"
proof -
  obtain p where p: "cp_used_list ex_cp = [p]" "pool_addr p = 4096" "factory_data p = 2" "pool_capacity p = 1024"
    using ex_cp_values(2-4) by auto
  have "\<exists>cp1 cp2. cpool_release_pool ex_cp (pool_addr p) = Some cp1 \<and> cpool_create_pool (\<lambda>_. None) cp1 600 0 = (Some (pool_addr p), cp2)
      \<and> cp_used_size cp1 = cp_used_size ex_cp - (pj_pool_get_capacity p - pool_sizes ! factory_data p)
      \<and> (length (block_list p) = 1 \<longrightarrow> cp_used_size cp1 = cp_used_size ex_cp)
      \<and> cp_used_size cp2 = cp_used_size cp1 \<and> cp_used_count cp2 = cp_used_count ex_cp \<and> cp_capacity cp2 = cp_capacity ex_cp"
    by (rule caching_pool_reuses [OF ex_cp_run(3)]) (simp_all add: p ex_cp_values pj_pool_get_capacity_def)
  moreover have "cp_used_size ex_cp = 1024" by code_simp
  moreover have "pj_pool_get_capacity p = pool_sizes ! factory_data p" by (simp add: p pj_pool_get_capacity_def pool_sizes_def)
  ultimately show ?thesis unfolding p(2) by force
qed

theorem caching_pool_destroy_frees_witness: "cp_used_size ex_cp = 1024 \<and> cp_used_size (pj_caching_pool_destroy ex_cp) = 0"
  using caching_pool_destroy_frees [OF ex_cp_run(3)] by (simp add: ex_cp_def, code_simp)

end
