(* ===== verification/Base64.thy ===== *)
theory Base64
  imports Pj_Prelude
begin

text \<open>
  Base64, \<^verbatim>\<open>pjlib-util/src/pjlib-util/base64.c\<close>. A buffer is the list of its characters or bytes; the length that a caller gives for the
  output is an argument, and a result is the status with what was written. Lengths are below the range of \<^verbatim>\<open>int\<close>.
\<close>

section \<open>Model\<close>

definition INV :: int where
  "INV = -1"

definition base64_char :: string where
  "base64_char = ''ABCDEFGHIJKLMNOPQRSTUVWXYZabcdefghijklmnopqrstuvwxyz0123456789+/''"

definition PADDING :: char where
  "PADDING = CHR ''=''"

definition base256_char :: "char \<Rightarrow> int" where
  "base256_char ch =
     (let c = of_char ch
      in if c \<ge> of_char (CHR ''A'') \<and> c \<le> of_char (CHR ''Z'') then c - of_char (CHR ''A'')
         else if c \<ge> of_char (CHR ''a'') \<and> c \<le> of_char (CHR ''z'') then c - of_char (CHR ''a'') + 26
         else if c \<ge> of_char (CHR ''0'') \<and> c \<le> of_char (CHR ''9'') then c - of_char (CHR ''0'') + 52
         else if c = of_char (CHR ''+'') then 62
         else if c = of_char (CHR ''/'') then 63
         else INV)"

definition at64 :: "int \<Rightarrow> char" where
  "at64 i = base64_char ! nat i"

text \<open>The operands are promoted to \<^verbatim>\<open>int\<close> before they are shifted.\<close>

definition base256to64 :: "u8 \<Rightarrow> u8 \<Rightarrow> u8 \<Rightarrow> nat \<Rightarrow> string" where
  "base256to64 b1 b2 b3 padding =
     (let c1 = uint b1; c2 = uint b2; c3 = uint b3
      in [at64 (drop_bit 2 c1), at64 (push_bit 4 (c1 AND 0x3) OR drop_bit 4 (c2 AND 0xF0))]
         @ (if padding = 0 then [at64 (push_bit 2 (c2 AND 0xF) OR drop_bit 6 (c3 AND 0xC0)), at64 (c3 AND 0x3F)]
            else if padding = 1 then [at64 (push_bit 2 (c2 AND 0xF) OR drop_bit 6 (c3 AND 0xC0)), PADDING]
            else [PADDING, PADDING]))"

definition PJ_BASE256_TO_BASE64_LEN :: "nat \<Rightarrow> nat" where
  "PJ_BASE256_TO_BASE64_LEN n = n * 4 div 3 + 3"

definition PJ_BASE64_TO_BASE256_LEN :: "nat \<Rightarrow> nat" where
  "PJ_BASE64_TO_BASE256_LEN n = n * 3 div 4"

fun encode_loop :: "u8 list \<Rightarrow> string" where
  "encode_loop [] = []"
| "encode_loop [c1] = base256to64 c1 0 0 2"
| "encode_loop [c1, c2] = base256to64 c1 c2 0 1"
| "encode_loop (c1 # c2 # c3 # cs) = base256to64 c1 c2 c3 0 @ encode_loop cs"

definition pj_base64_encode :: "u8 list \<Rightarrow> nat \<Rightarrow> pj_status \<times> string" where
  "pj_base64_encode input out_len =
     (if \<not> out_len \<ge> PJ_BASE256_TO_BASE64_LEN (length input) then (PJ_ETOOSMALL, []) else (PJ_SUCCESS, encode_loop input))"

text \<open>The next character, past invalid ones; at the end of the input an invalid one is kept.\<close>

fun next_code :: "string \<Rightarrow> int \<times> string" where
  "next_code [] = (INV, [])"
| "next_code (x # xs) = (let c = base256_char x in if c = INV \<and> xs \<noteq> [] then next_code xs else (c, xs))"

fun fill :: "nat \<Rightarrow> string \<Rightarrow> int list \<times> string" where
  "fill 0 xs = ([], xs)"
| "fill (Suc n) xs = (if xs = [] then ([], xs) else (let (c, xs) = next_code xs; (cs, xs) = fill n xs in (c # cs, xs)))"

definition byte1 :: "int \<Rightarrow> int \<Rightarrow> u8" where
  "byte1 c0 c1 = word_of_int (push_bit 2 c0 OR drop_bit 4 (c1 AND 0x30))"

definition byte2 :: "int \<Rightarrow> int \<Rightarrow> u8" where
  "byte2 c1 c2 = word_of_int (push_bit 4 (c1 AND 0x0F) OR drop_bit 2 (c2 AND 0x3C))"

definition byte3 :: "int \<Rightarrow> int \<Rightarrow> u8" where
  "byte3 c2 c3 = word_of_int (push_bit 6 (c2 AND 0x03) OR (c3 AND 0x3F))"

lemma next_code_shorter: "xs \<noteq> [] \<Longrightarrow> length (snd (next_code xs)) < length xs"
  by (induction xs rule: next_code.induct) (auto simp: Let_def less_Suc_eq)

lemma fill_shorter: "length (snd (fill n xs)) \<le> length xs" "0 < n \<Longrightarrow> xs \<noteq> [] \<Longrightarrow> length (snd (fill n xs)) < length xs"
proof -
  show le: "length (snd (fill n xs)) \<le> length xs" for n xs
  proof (induction n xs rule: fill.induct)
    case (2 n xs)
    then show ?case using next_code_shorter [of xs] by (cases "next_code xs") (fastforce simp: case_prod_beta)
  qed simp
  show "0 < n \<Longrightarrow> xs \<noteq> [] \<Longrightarrow> length (snd (fill n xs)) < length xs"
    using next_code_shorter [of xs] le [of "n - 1" "snd (next_code xs)"] by (cases n) (auto simp: case_prod_beta Let_def)
qed

function decode_loop :: "string \<Rightarrow> u8 list" where
  "decode_loop xs =
     (if xs = [] then []
      else
        (let (cs, ys) = fill 4 xs
         in if length cs < 4 then
              (if length cs > 1 then byte1 (cs ! 0) (cs ! 1) # (if length cs > 2 then [byte2 (cs ! 1) (cs ! 2)] else []) else [])
            else byte1 (cs ! 0) (cs ! 1) # byte2 (cs ! 1) (cs ! 2) # byte3 (cs ! 2) (cs ! 3) # decode_loop ys))"
  by pat_completeness auto
termination
  by (relation "measure length") (use fill_shorter(2) in \<open>auto dest: sym simp: prod_eq_iff\<close>)

declare decode_loop.simps [simp del]

fun strip_padding :: "string \<Rightarrow> string" where
  "strip_padding xs = rev (dropWhile (\<lambda>c. c = PADDING) (rev xs))"

definition pj_base64_decode :: "string \<Rightarrow> nat \<Rightarrow> pj_status \<times> u8 list" where
  "pj_base64_decode input out_len =
     (let buf = strip_padding input
      in if \<not> out_len \<ge> PJ_BASE64_TO_BASE256_LEN (length buf) then (PJ_ETOOSMALL, []) else (PJ_SUCCESS, decode_loop buf))"

section \<open>Codes\<close>

lemma codes: "0 \<le> i \<Longrightarrow> i < 64 \<Longrightarrow> base256_char (at64 i) = i \<and> at64 i \<noteq> PADDING"
proof -
  assume i: "0 \<le> i" "i < 64"
  have "list_all (\<lambda>i. base256_char (at64 i) = i \<and> at64 i \<noteq> PADDING) [0..63]" by code_simp
  then show ?thesis using i by (simp only: list_all_iff set_upto atLeastAtMost_iff) simp
qed

lemma int_masks:
  "(3 :: int) = mask 2" "(0xF :: int) = mask 4" "(0x3F :: int) = mask 6" "(0xF0 :: int) = push_bit 4 (mask 4)" "(0xC0 :: int) = push_bit 6 (mask 2)"
  "(0x30 :: int) = push_bit 4 (mask 2)" "(0x3C :: int) = push_bit 2 (mask 4)"
  by (simp_all add: mask_eq_exp_minus_1 push_bit_eq_mult)

lemma byte_bit: "bit (uint (b :: u8)) n \<longleftrightarrow> n < 8 \<and> bit b n"
  using bit_imp_le_length [of b n] by (auto simp: bit_uint_iff)

definition enc1 :: "u8 \<Rightarrow> int" where "enc1 b1 = drop_bit 2 (uint b1)"
definition enc2 :: "u8 \<Rightarrow> u8 \<Rightarrow> int" where "enc2 b1 b2 = push_bit 4 (uint b1 AND 0x3) OR drop_bit 4 (uint b2 AND 0xF0)"
definition enc3 :: "u8 \<Rightarrow> u8 \<Rightarrow> int" where "enc3 b2 b3 = push_bit 2 (uint b2 AND 0xF) OR drop_bit 6 (uint b3 AND 0xC0)"
definition enc4 :: "u8 \<Rightarrow> int" where "enc4 b3 = uint b3 AND 0x3F"

lemmas enc_defs = enc1_def enc2_def enc3_def enc4_def

lemma enc_bits:
  "bit (enc1 b1) n \<longleftrightarrow> n < 6 \<and> bit b1 (n + 2)"
  "bit (enc2 b1 b2) n \<longleftrightarrow> n < 6 \<and> (if n < 4 then bit b2 (n + 4) else bit b1 (n - 4))"
  "bit (enc3 b2 b3) n \<longleftrightarrow> n < 6 \<and> (if n < 2 then bit b3 (n + 6) else bit b2 (n - 2))"
  "bit (enc4 b3) n \<longleftrightarrow> n < 6 \<and> bit b3 n"
  unfolding enc_defs int_masks using bit_imp_le_length [of b1 "n + 2"]
  by (auto simp: bit_simps byte_bit add.commute)

lemma enc_range: "0 \<le> enc1 b1 \<and> enc1 b1 < 64" "0 \<le> enc2 b1 b2 \<and> enc2 b1 b2 < 64" "0 \<le> enc3 b2 b3 \<and> enc3 b2 b3 < 64" "0 \<le> enc4 b3 \<and> enc4 b3 < 64"
proof -
  have r: "0 \<le> e \<and> e < 64" if "\<And>n. bit e n \<Longrightarrow> n < 6" for e :: int
  proof -
    have "take_bit 6 e = e" by (rule bit_eqI) (use that in \<open>auto simp: bit_take_bit_iff\<close>)
    then have "e mod 64 = e" by (simp add: take_bit_eq_mod)
    then show ?thesis by presburger
  qed
  show "0 \<le> enc1 b1 \<and> enc1 b1 < 64" "0 \<le> enc2 b1 b2 \<and> enc2 b1 b2 < 64" "0 \<le> enc3 b2 b3 \<and> enc3 b2 b3 < 64" "0 \<le> enc4 b3 \<and> enc4 b3 < 64"
    by (rule r, simp add: enc_bits)+
qed

lemma Suc_minus_2: "2 \<le> n \<Longrightarrow> Suc (Suc (n - 2)) = n"
  by simp

lemma dec_enc: "byte1 (enc1 b1) (enc2 b1 b2) = b1" "byte2 (enc2 b1 b2) (enc3 b2 b3) = b2" "byte3 (enc3 b2 b3) (enc4 b3) = b3"
  unfolding byte1_def byte2_def byte3_def int_masks
  by (rule bit_word_eqI; auto simp: bit_simps enc_bits Suc_minus_2)+

lemma base256to64_eq:
  "base256to64 b1 b2 b3 0 = [at64 (enc1 b1), at64 (enc2 b1 b2), at64 (enc3 b2 b3), at64 (enc4 b3)]"
  "base256to64 b1 b2 b3 1 = [at64 (enc1 b1), at64 (enc2 b1 b2), at64 (enc3 b2 b3), PADDING]"
  "base256to64 b1 b2 b3 2 = [at64 (enc1 b1), at64 (enc2 b1 b2), PADDING, PADDING]"
  by (simp_all add: base256to64_def enc_defs Let_def)

section \<open>Decoding\<close>

definition is_code :: "char \<Rightarrow> bool" where
  "is_code c \<longleftrightarrow> base256_char c \<noteq> INV"

lemma at64_code: "0 \<le> i \<Longrightarrow> i < 64 \<Longrightarrow> is_code (at64 i)" "0 \<le> i \<Longrightarrow> i < 64 \<Longrightarrow> next_code (at64 i # xs) = (i, xs)"
  using codes [of i] by (simp_all add: is_code_def INV_def)

lemma fill_4: "fill 4 ys = fill (Suc (Suc (Suc (Suc 0)))) ys"
  by (simp add: numeral_nat)

lemma decode_quad:
  assumes "0 \<le> a \<and> a < 64" "0 \<le> b \<and> b < 64" "0 \<le> c \<and> c < 64" "0 \<le> d \<and> d < 64"
  shows "decode_loop (at64 a # at64 b # at64 c # at64 d # xs) = byte1 a b # byte2 b c # byte3 c d # decode_loop xs"
  using assms by (subst decode_loop.simps) (simp add: fill_4 at64_code(2) Let_def del: next_code.simps)

lemma decode_triple:
  assumes "0 \<le> a \<and> a < 64" "0 \<le> b \<and> b < 64" "0 \<le> c \<and> c < 64"
  shows "decode_loop [at64 a, at64 b, at64 c] = [byte1 a b, byte2 b c]"
  using assms by (subst decode_loop.simps) (simp add: fill_4 at64_code(2) Let_def del: next_code.simps)

lemma decode_pair:
  assumes "0 \<le> a \<and> a < 64" "0 \<le> b \<and> b < 64"
  shows "decode_loop [at64 a, at64 b] = [byte1 a b]"
  using assms by (subst decode_loop.simps) (simp add: fill_4 at64_code(2) Let_def del: next_code.simps)

lemma decode_nil: "decode_loop [] = []"
  by (subst decode_loop.simps) simp

text \<open>What an encoding is without its padding.\<close>

fun unpadded :: "u8 list \<Rightarrow> string" where
  "unpadded [] = []"
| "unpadded [b1] = [at64 (enc1 b1), at64 (enc2 b1 0)]"
| "unpadded [b1, b2] = [at64 (enc1 b1), at64 (enc2 b1 b2), at64 (enc3 b2 0)]"
| "unpadded (b1 # b2 # b3 # bs) = at64 (enc1 b1) # at64 (enc2 b1 b2) # at64 (enc3 b2 b3) # at64 (enc4 b3) # unpadded bs"

lemma unpadded_props: "strip_padding (encode_loop xs) = unpadded xs \<and> decode_loop (unpadded xs) = xs \<and> list_all is_code (unpadded xs)"
proof -
  have s: "strip_padding (xs @ [y]) = (if y = PADDING then strip_padding xs else xs @ [y])" for xs y by simp
  have np: "0 \<le> e \<and> e < 64 \<Longrightarrow> at64 e \<noteq> PADDING" for e using codes by blast
  have st: "strip_padding xs = xs" if "xs = [] \<or> last xs \<noteq> PADDING" for xs using that by (cases xs rule: rev_cases) simp_all
  have app: "strip_padding (xs @ ys) = xs @ strip_padding ys" if "xs \<noteq> []" "last xs \<noteq> PADDING" for xs ys
  proof (induction ys rule: rev_induct)
    case Nil
    then show ?case using st that by simp
  next
    case (snoc y ys)
    then show ?case using s [of "xs @ ys" y] s [of ys y] by simp
  qed
  show ?thesis
  proof (induction xs rule: unpadded.induct)
    case 1
    then show ?case by (simp add: decode_nil)
  next
    case (2 b1)
    have "strip_padding (encode_loop [b1]) = unpadded [b1]" using np enc_range by (simp add: base256to64_eq)
    then show ?case using enc_range by (simp add: decode_pair dec_enc(1) at64_code(1) del: strip_padding.simps encode_loop.simps)
  next
    case (3 b1 b2)
    have "strip_padding (encode_loop [b1, b2]) = unpadded [b1, b2]" using np enc_range by (simp add: base256to64_eq del: One_nat_def)
    then show ?case using enc_range by (simp add: decode_triple dec_enc(1,2) at64_code(1) del: strip_padding.simps encode_loop.simps)
  next
    case (4 b1 b2 b3 bs)
    have "strip_padding (encode_loop (b1 # b2 # b3 # bs)) = base256to64 b1 b2 b3 0 @ strip_padding (encode_loop bs)"
      unfolding encode_loop.simps by (rule app) (use np enc_range in \<open>simp_all add: base256to64_eq\<close>)
    then show ?case using 4 enc_range
      by (simp add: base256to64_eq decode_quad dec_enc at64_code(1) del: strip_padding.simps encode_loop.simps)
  qed
qed

lemma unpadded_length: "PJ_BASE64_TO_BASE256_LEN (length (unpadded xs)) = length xs" "length (encode_loop xs) = 4 * ((length xs + 2) div 3)"
proof -
  show "PJ_BASE64_TO_BASE256_LEN (length (unpadded xs)) = length xs"
    by (induction xs rule: unpadded.induct; simp add: PJ_BASE64_TO_BASE256_LEN_def)
  show "length (encode_loop xs) = 4 * ((length xs + 2) div 3)"
  proof (induction xs rule: unpadded.induct)
    case (4 b1 b2 b3 bs)
    have "(length bs + 3 + 2) div 3 = (length bs + 2) div 3 + 1" by presburger
    then show ?case using 4 by (simp add: base256to64_def Let_def)
  qed (simp_all add: base256to64_def Let_def)
qed

text \<open>What is filled is what the valid characters fill, as long as the input ends with one.\<close>

lemma next_code_filter:
  assumes "xs \<noteq> []" "is_code (last xs)"
  shows "\<exists>y ys. filter is_code xs = y # filter is_code ys \<and> next_code xs = (base256_char y, ys) \<and> is_code y \<and> (ys \<noteq> [] \<longrightarrow> is_code (last ys))"
  using assms
proof (induction xs)
  case (Cons x xs)
  show ?case
  proof (cases "is_code x")
    case True
    then show ?thesis using Cons.prems by (auto simp: is_code_def)
  next
    case False
    then have "xs \<noteq> []" using Cons.prems by auto
    then show ?thesis using Cons False by (auto simp: is_code_def)
  qed
qed simp

lemma fill_filter:
  assumes "xs = [] \<or> is_code (last xs)"
  shows "\<exists>cs ys. fill n xs = (cs, ys) \<and> fill n (filter is_code xs) = (cs, filter is_code ys) \<and> (ys = [] \<or> is_code (last ys))"
  using assms
proof (induction n arbitrary: xs)
  case (Suc n)
  show ?case
  proof (cases "xs = []")
    case False
    then obtain y ys where y: "filter is_code xs = y # filter is_code ys" "next_code xs = (base256_char y, ys)" "is_code y" "ys \<noteq> [] \<longrightarrow> is_code (last ys)"
      using next_code_filter Suc.prems by blast
    obtain cs zs where z: "fill n ys = (cs, zs)" "fill n (filter is_code ys) = (cs, filter is_code zs)" "zs = [] \<or> is_code (last zs)"
      using Suc.IH [of ys] y(4) by blast
    have "next_code (y # filter is_code ys) = (base256_char y, filter is_code ys)" using y(3) by (simp add: is_code_def)
    then show ?thesis using False y(1,2) z by (simp del: next_code.simps)
  qed simp
qed simp

lemma fill_nonempty: "xs \<noteq> [] \<Longrightarrow> fst (fill (Suc n) xs) \<noteq> []"
  by (simp add: case_prod_beta Let_def)

section \<open>Bounds\<close>

lemma fill_uses: "length (fst (fill n xs)) \<le> n \<and> length (fst (fill n xs)) + length (snd (fill n xs)) \<le> length xs"
proof (induction n xs rule: fill.induct)
  case (2 n xs)
  then show ?case using next_code_shorter [of xs] by (cases "next_code xs") (fastforce simp: case_prod_beta)
qed simp

lemma decode_bound: "length (decode_loop xs) \<le> length xs * 3 div 4"
proof (induction xs rule: decode_loop.induct)
  case (1 xs)
  obtain cs ys where f: "fill 4 xs = (cs, ys)" by fastforce
  have u: "length cs \<le> 4" "length cs + length ys \<le> length xs" using fill_uses [of 4 xs] f by simp_all
  show ?case
  proof (cases "xs = [] \<or> length cs < 4")
    case True
    then show ?thesis using f u by (subst decode_loop.simps) auto
  next
    case False
    then have l: "length (decode_loop xs) = 3 + length (decode_loop ys)" using f by (subst decode_loop.simps) simp
    have "length (decode_loop ys) \<le> length ys * 3 div 4" by (rule 1) (use False f in auto)
    then show ?thesis using l u False by simp
  qed
qed

section \<open>Properties\<close>

text \<open>
C20. With output buffers of the sizes that the macros of the header ask for, encoding any bytes
succeeds and writes four characters for every three bytes begun, within its buffer, and decoding
them gives the bytes back.
\<close>

theorem base64_roundtrip:
  assumes "length input * 4 div 3 + 3 \<le> n" "length input \<le> m"
  shows "\<exists>s. pj_base64_encode input n = (PJ_SUCCESS, s) \<and> length s = 4 * ((length input + 2) div 3) \<and> length s \<le> n
    \<and> pj_base64_decode s m = (PJ_SUCCESS, input)"
proof -
  have "PJ_BASE64_TO_BASE256_LEN (length (strip_padding (encode_loop input))) \<le> m"
    using unpadded_props [of input] unpadded_length(1) [of input] assms(2) by (simp del: strip_padding.simps)
  then have "pj_base64_decode (encode_loop input) m = (PJ_SUCCESS, input)"
    using unpadded_props [of input] by (simp add: pj_base64_decode_def Let_def del: strip_padding.simps)
  then show ?thesis
    using assms(1) unpadded_length(2) [of input] by (simp add: pj_base64_encode_def PJ_BASE256_TO_BASE64_LEN_def)
qed

theorem base64_decode_fits:
  "length (snd (pj_base64_decode input m)) \<le> m
    \<and> (length input * 3 div 4 \<le> m \<longrightarrow> fst (pj_base64_decode input m) = PJ_SUCCESS)"
proof -
  have "length (strip_padding input) \<le> length input" using length_dropWhile_le [of _ "rev input"] by simp
  then have "PJ_BASE64_TO_BASE256_LEN (length (strip_padding input)) \<le> length input * 3 div 4"
    unfolding PJ_BASE64_TO_BASE256_LEN_def by (intro div_le_mono) simp
  then show ?thesis
    using decode_bound [of "strip_padding input"]
    by (auto simp: pj_base64_decode_def Let_def PJ_BASE64_TO_BASE256_LEN_def simp del: strip_padding.simps)
qed

text \<open>
C37. The decoding loop gives the same bytes for an input as for the input with its invalid
characters removed, as long as the last character is valid.
\<close>

theorem base64_ignores_invalid:
  assumes "xs = [] \<or> base256_char (last xs) \<noteq> INV"
  shows "decode_loop xs = decode_loop (filter (\<lambda>c. base256_char c \<noteq> INV) xs)"
proof -
  have "decode_loop xs = decode_loop (filter is_code xs)" if "xs = [] \<or> is_code (last xs)" for xs
    using that
  proof (induction xs rule: decode_loop.induct)
    case (1 xs)
    show ?case
    proof (cases "xs = []")
      case False
      then have ne: "filter is_code xs \<noteq> []" using 1(2) by (metis filter_empty_conv last_in_set)
      obtain cs ys where f: "fill 4 xs = (cs, ys)" "fill 4 (filter is_code xs) = (cs, filter is_code ys)" "ys = [] \<or> is_code (last ys)"
        using fill_filter [OF 1(2)] by blast
      show ?thesis
      proof (cases "length cs < 4")
        case True
        then show ?thesis using False ne f(1,2) by (simp add: decode_loop.simps [of xs] decode_loop.simps [of "filter is_code xs"])
      next
        case big: False
        then have "decode_loop ys = decode_loop (filter is_code ys)" using f(1,3) False by (intro 1(1)) auto
        then show ?thesis using False big ne f(1,2) by (simp add: decode_loop.simps [of xs] decode_loop.simps [of "filter is_code xs"])
      qed
    qed simp
  qed
  from this [of xs] assms show ?thesis by (simp add: is_code_def [abs_def])
qed

theorem base64_trailing_newline:
  "pj_base64_encode [65] 4 = (PJ_SUCCESS, ''QQ=='') \<and> pj_base64_decode (''QQ=='' @ [CHR 0x0A]) 10 = (PJ_SUCCESS, [65, 15])"
  by (intro conjI; code_simp)

section \<open>Instances\<close>

theorem base64_roundtrip_witness: "\<exists>s. pj_base64_encode [1, 2, 3, 255] 8 = (PJ_SUCCESS, s) \<and> pj_base64_decode s 4 = (PJ_SUCCESS, [1, 2, 3, 255])"
  using base64_roundtrip [of "[1, 2, 3, 255]" 8 4] by auto

theorem base64_decode_fits_witness: "length (snd (pj_base64_decode ''QUJD'' 3)) \<le> 3 \<and> fst (pj_base64_decode ''QUJD'' 3) = PJ_SUCCESS"
  using base64_decode_fits [of "''QUJD''" 3] by simp

theorem base64_ignores_invalid_witness: "decode_loop ''Q U-J D'' = decode_loop ''QUJD''"
proof -
  have "decode_loop ''Q U-J D'' = decode_loop (filter (\<lambda>c. base256_char c \<noteq> INV) ''Q U-J D'')"
    by (rule base64_ignores_invalid) code_simp
  moreover have "filter (\<lambda>c. base256_char c \<noteq> INV) ''Q U-J D'' = ''QUJD''" by code_simp
  ultimately show ?thesis by simp
qed

end
