(* ===== verification/Rtp.thy ===== *)
theory Rtp
  imports Pj_Prelude
begin

unbundle bit_operations_syntax

text \<open>
  The RTP layer of \<^verbatim>\<open>pjmedia/src/pjmedia/rtp.c\<close>: the header as it lies in memory, the outgoing
  session (header encoding), the packet decoder, and the receiver's sequence number tracking
  with its probation, wrap-around, restart and reordering rules.

  A packet is the list of the bytes of its receive buffer, together with the length the caller
  passes; a pointer into the packet is an offset. A read past the buffer has no value in the
  model (\<open>None\<close>), so an unchecked access of the decoder is visible in its result.
\<close>

section \<open>Sequence number control\<close>

record rtp_seq_session =
  max_seq :: u16
  cycles :: u32
  base_seq :: u32
  bad_seq :: u32
  probation :: u32

record rtp_flag =
  fl_bad :: bool
  fl_badpt :: bool
  fl_badssrc :: bool
  fl_dup :: bool
  fl_outorder :: bool
  fl_probation :: bool
  fl_restart :: bool

record rtp_status =
  st_flag :: rtp_flag
  st_diff :: u16

definition no_flag :: rtp_flag where
  "no_flag = \<lparr>fl_bad = False, fl_badpt = False, fl_badssrc = False, fl_dup = False,
     fl_outorder = False, fl_probation = False, fl_restart = False\<rparr>"

definition RTP_SEQ_MOD :: int where
  "RTP_SEQ_MOD = 65536"

definition RTP_MAX_DROPOUT :: int where
  "RTP_MAX_DROPOUT = 3000"

definition RTP_MAX_MISORDER :: int where
  "RTP_MAX_MISORDER = 100"

definition MIN_SEQUENTIAL :: u32 where
  "MIN_SEQUENTIAL = 2"

definition pjmedia_rtp_seq_restart :: "rtp_seq_session \<Rightarrow> u16 \<Rightarrow> rtp_seq_session" where
  "pjmedia_rtp_seq_restart sess sq =
     sess\<lparr>base_seq := ucast sq, max_seq := sq, bad_seq := word_of_int (RTP_SEQ_MOD + 1), cycles := 0\<rparr>"

definition pjmedia_rtp_seq_init :: "rtp_seq_session \<Rightarrow> u16 \<Rightarrow> rtp_seq_session" where
  "pjmedia_rtp_seq_init sess sq =
     (pjmedia_rtp_seq_restart sess sq)\<lparr>max_seq := sq - 1, probation := MIN_SEQUENTIAL\<rparr>"

text \<open>
  The comparison \<^verbatim>\<open>seq == sess->max_seq+ 1\<close> is made on values promoted to \<^verbatim>\<open>int\<close>: its right-hand
  side is 65536, not 0, when \<^verbatim>\<open>max_seq\<close> is 65535.
\<close>

definition pjmedia_rtp_seq_update ::
    "rtp_seq_session \<Rightarrow> u16 \<Rightarrow> rtp_seq_session \<times> rtp_status" where
  "pjmedia_rtp_seq_update sess sq =
     (let udelta = sq - max_seq sess in
      if probation sess \<noteq> 0 then
        (if uint sq = uint (max_seq sess) + 1 then
           (let sess' = sess\<lparr>probation := probation sess - 1, max_seq := sq\<rparr>
            in (sess', \<lparr>st_flag = no_flag\<lparr>fl_probation := probation sess' \<noteq> 0\<rparr>, st_diff = 1\<rparr>))
         else
           (sess\<lparr>probation := MIN_SEQUENTIAL - 1, max_seq := sq\<rparr>,
            \<lparr>st_flag = no_flag\<lparr>fl_probation := True, fl_bad := True,
                fl_dup := (sq = max_seq sess), fl_outorder := (sq \<noteq> max_seq sess)\<rparr>,
             st_diff = 0\<rparr>))
      else if udelta = 0 then
        (sess, \<lparr>st_flag = no_flag\<lparr>fl_dup := True\<rparr>, st_diff = 0\<rparr>)
      else if uint udelta < RTP_MAX_DROPOUT then
        (sess\<lparr>cycles := (if sq < max_seq sess then cycles sess + word_of_int RTP_SEQ_MOD
                         else cycles sess),
              max_seq := sq\<rparr>,
         \<lparr>st_flag = no_flag, st_diff = udelta\<rparr>)
      else if uint udelta \<le> RTP_SEQ_MOD - RTP_MAX_MISORDER then
        (if ucast sq = bad_seq sess then
           (pjmedia_rtp_seq_restart sess sq,
            \<lparr>st_flag = no_flag\<lparr>fl_restart := True, fl_probation := True\<rparr>, st_diff = 1\<rparr>)
         else
           (sess\<lparr>bad_seq := (ucast sq + 1) AND word_of_int (RTP_SEQ_MOD - 1)\<rparr>,
            \<lparr>st_flag = no_flag\<lparr>fl_bad := True, fl_outorder := True\<rparr>, st_diff = 0\<rparr>))
      else
        (sess, \<lparr>st_flag = no_flag\<lparr>fl_outorder := True\<rparr>, st_diff = 0\<rparr>))"

section \<open>Headers and sessions\<close>

record rtp_hdr =
  hdr_v :: "2 word"
  hdr_p :: "1 word"
  hdr_x :: "1 word"
  hdr_cc :: "4 word"
  hdr_m :: "1 word"
  hdr_pt :: "7 word"
  hdr_seq :: u16
  hdr_ts :: u32
  hdr_ssrc :: u32

record rtp_session =
  out_hdr :: rtp_hdr
  seq_ctrl :: rtp_seq_session
  out_pt :: u16
  out_extseq :: u32
  has_peer_ssrc :: bool
  peer_ssrc :: u32
  received :: u32

record rtp_session_setting =
  set_flags :: u8
  set_default_pt :: int
  set_sender_ssrc :: u32
  set_peer_ssrc :: u32
  set_seq :: u16
  set_ts :: u32

text \<open>
  \<^verbatim>\<open>pjmedia_rtp_session_init\<close>. The two calls of \<^verbatim>\<open>pj_rand\<close> are the arguments \<open>r_ssrc\<close> (used only when
  no SSRC is given) and \<open>r_seq\<close>. The check that the compiled header has 12 bytes is static.
\<close>

definition pjmedia_rtp_session_init :: "int \<Rightarrow> int \<Rightarrow> int \<Rightarrow> u32 \<Rightarrow> pj_status \<times> rtp_session" where
  "pjmedia_rtp_session_init r_ssrc r_seq default_pt sender_ssrc =
     (let ssrc = (if sender_ssrc = 0 \<or> sender_ssrc = -1 then pj_htonl (word_of_int r_ssrc)
                  else pj_htonl sender_ssrc);
          extseq = word_of_int r_seq AND 0x7FFF :: u32
      in (PJ_SUCCESS,
          \<lparr>out_hdr = \<lparr>hdr_v = 2, hdr_p = 0, hdr_x = 0, hdr_cc = 0, hdr_m = 0,
                      hdr_pt = ucast (word_of_int default_pt :: u8),
                      hdr_seq = pj_htons (ucast extseq), hdr_ts = 0, hdr_ssrc = ssrc\<rparr>,
           seq_ctrl = \<lparr>max_seq = 0, cycles = 0, base_seq = 0, bad_seq = 0, probation = 0\<rparr>,
           out_pt = word_of_int default_pt, out_extseq = extseq, has_peer_ssrc = False,
           peer_ssrc = 0, received = 0\<rparr>))"

definition pjmedia_rtp_session_init2 ::
    "int \<Rightarrow> int \<Rightarrow> rtp_session_setting \<Rightarrow> pj_status \<times> rtp_session" where
  "pjmedia_rtp_session_init2 r_ssrc r_seq settings =
     (let pt = (if set_flags settings AND 1 \<noteq> 0 then set_default_pt settings else 0);
          ssrc = (if set_flags settings AND 2 \<noteq> 0 then set_sender_ssrc settings else 0);
          (status, ses) = pjmedia_rtp_session_init r_ssrc r_seq pt ssrc
      in if status \<noteq> PJ_SUCCESS then (status, ses)
         else
           (let ses = (if set_flags settings AND 4 \<noteq> 0
                       then ses\<lparr>out_extseq := ucast (set_seq settings),
                                out_hdr := (out_hdr ses)\<lparr>hdr_seq := pj_htons (set_seq settings)\<rparr>\<rparr>
                       else ses);
                ses = (if set_flags settings AND 8 \<noteq> 0
                       then ses\<lparr>out_hdr := (out_hdr ses)\<lparr>hdr_ts := pj_htonl (set_ts settings)\<rparr>\<rparr>
                       else ses);
                ses = (if set_flags settings AND 16 \<noteq> 0
                       then ses\<lparr>has_peer_ssrc := True, peer_ssrc := set_peer_ssrc settings\<rparr>
                       else ses)
            in (PJ_SUCCESS, ses)))"

text \<open>
  \<^verbatim>\<open>pjmedia_rtp_encode_rtp\<close>: the new session and the header handed out, \<open>None\<close> for a clock frame
  (zero payload), where the out parameters are not written.
\<close>

definition pjmedia_rtp_encode_rtp ::
    "rtp_session \<Rightarrow> int \<Rightarrow> int \<Rightarrow> int \<Rightarrow> int \<Rightarrow> pj_status \<times> rtp_session \<times> (rtp_hdr \<times> nat) option" where
  "pjmedia_rtp_encode_rtp ses pt m payload_len ts_len =
     (let ses = ses\<lparr>out_hdr := (out_hdr ses)\<lparr>hdr_ts :=
                    pj_htonl (pj_ntohl (hdr_ts (out_hdr ses)) + word_of_int ts_len)\<rparr>\<rparr>
      in if payload_len = 0 then (PJ_SUCCESS, ses, None)
         else
           (let ses = ses\<lparr>out_extseq := out_extseq ses + 1\<rparr>;
                ses = ses\<lparr>out_hdr := (out_hdr ses)\<lparr>
                        hdr_pt := ucast (if pt = -1 then ucast (out_pt ses) else word_of_int pt :: u8),
                        hdr_m := word_of_int m,
                        hdr_seq := pj_htons (ucast (out_extseq ses))\<rparr>\<rparr>
            in (PJ_SUCCESS, ses, Some (out_hdr ses, 12))))"

section \<open>Decoding a packet\<close>

definition byte_at :: "u8 list \<Rightarrow> nat \<Rightarrow> u8 option" where
  "byte_at bs i = (if i < length bs then Some (bs ! i) else None)"

text \<open>Native (little-endian) loads of a 16 and a 32 bit field.\<close>

definition load16 :: "u8 list \<Rightarrow> nat \<Rightarrow> u16 option" where
  "load16 bs i =
     (if i + 2 \<le> length bs
      then Some (ucast (bs ! i) OR push_bit 8 (ucast (bs ! (i + 1)))) else None)"

definition load32 :: "u8 list \<Rightarrow> nat \<Rightarrow> u32 option" where
  "load32 bs i =
     (if i + 4 \<le> length bs
      then Some (ucast (bs ! i) OR push_bit 8 (ucast (bs ! (i + 1)))
                 OR push_bit 16 (ucast (bs ! (i + 2))) OR push_bit 24 (ucast (bs ! (i + 3))))
      else None)"

text \<open>The packed structure \<^verbatim>\<open>pjmedia_rtp_hdr\<close> laid over the first 12 bytes of a buffer, and back.\<close>

definition rtp_hdr_of_bytes :: "u8 list \<Rightarrow> rtp_hdr option" where
  "rtp_hdr_of_bytes bs =
     (case (load16 bs 2, load32 bs 4, load32 bs 8) of
        (Some sq, Some t, Some sc) \<Rightarrow>
          Some \<lparr>hdr_v = ucast (drop_bit 6 (bs ! 0)), hdr_p = ucast (drop_bit 5 (bs ! 0)),
                hdr_x = ucast (drop_bit 4 (bs ! 0)), hdr_cc = ucast (bs ! 0),
                hdr_m = ucast (drop_bit 7 (bs ! 1)), hdr_pt = ucast (bs ! 1),
                hdr_seq = sq, hdr_ts = t, hdr_ssrc = sc\<rparr>
      | _ \<Rightarrow> None)"

definition bytes_of_rtp_hdr :: "rtp_hdr \<Rightarrow> u8 list" where
  "bytes_of_rtp_hdr h =
     [ucast (hdr_cc h) OR push_bit 4 (ucast (hdr_x h)) OR push_bit 5 (ucast (hdr_p h))
        OR push_bit 6 (ucast (hdr_v h)),
      ucast (hdr_pt h) OR push_bit 7 (ucast (hdr_m h)),
      ucast (hdr_seq h), ucast (drop_bit 8 (hdr_seq h)),
      ucast (hdr_ts h), ucast (drop_bit 8 (hdr_ts h)), ucast (drop_bit 16 (hdr_ts h)),
      ucast (drop_bit 24 (hdr_ts h)),
      ucast (hdr_ssrc h), ucast (drop_bit 8 (hdr_ssrc h)), ucast (drop_bit 16 (hdr_ssrc h)),
      ucast (drop_bit 24 (hdr_ssrc h))]"

text \<open>\<^verbatim>\<open>pjmedia_rtp_dec_hdr\<close>: the pointers are offsets into the packet, \<open>None\<close> for \<^verbatim>\<open>NULL\<close>.\<close>

record rtp_dec_hdr =
  ext_hdr :: "nat option"
  ext_ptr :: "nat option"
  ext_len :: nat

text \<open>
  What a call of the decoder leaves behind: its status, the header pointer, and the out parameters
  \<^verbatim>\<open>dec_hdr\<close> and \<^verbatim>\<open>payload\<close>/\<^verbatim>\<open>payloadlen\<close>, each \<open>None\<close> when the call returned before writing it.
\<close>

record rtp_decoded =
  dec_status :: pj_status
  dec_hdr :: rtp_hdr
  dec_ext :: "rtp_dec_hdr option"
  dec_payload :: "(nat option \<times> nat) option"

definition rtp_dec_hdr_null :: rtp_dec_hdr where
  "rtp_dec_hdr_null = \<lparr>ext_hdr = None, ext_ptr = None, ext_len = 0\<rparr>"

text \<open>
  The extension step: the offset after it and the decoded extension, or the length error.
  The outer \<open>option\<close> is the out-of-bounds read.
\<close>

definition decode_ext :: "u8 list \<Rightarrow> int \<Rightarrow> rtp_hdr \<Rightarrow> nat \<Rightarrow> (pj_status + nat \<times> rtp_dec_hdr) option" where
  "decode_ext pkt pkt_len h offset =
     (if hdr_x h \<noteq> 0 then
        (if offset + 4 > to_u32 pkt_len then Some (Inl PJMEDIA_RTP_EINLEN)
         else
           (case load16 pkt (offset + 2) of
              None \<Rightarrow> None
            | Some l \<Rightarrow>
                let n = unat (pj_ntohs l)
                in Some (Inr (offset + (n + 1) * 4,
                    \<lparr>ext_hdr = Some offset, ext_ptr = Some (offset + 4), ext_len = n\<rparr>))))
      else Some (Inr (offset, rtp_dec_hdr_null)))"

definition decode_payload ::
    "u8 list \<Rightarrow> int \<Rightarrow> rtp_hdr \<Rightarrow> nat \<Rightarrow> rtp_dec_hdr \<Rightarrow> rtp_decoded option" where
  "decode_payload pkt pkt_len h offset ext =
     (if int offset > pkt_len
      then Some \<lparr>dec_status = PJMEDIA_RTP_EINLEN, dec_hdr = h, dec_ext = Some ext, dec_payload = None\<rparr>
      else
        (let payload = (if int offset = pkt_len then None else Some offset);
             plen = nat (pkt_len - int offset);
             ok = (\<lambda>n. \<lparr>dec_status = PJ_SUCCESS, dec_hdr = h, dec_ext = Some ext,
                        dec_payload = Some (payload, n)\<rparr>)
         in if hdr_p h \<noteq> 0 \<and> plen > 0 then
              (case byte_at pkt (offset + plen - 1) of
                 None \<Rightarrow> None
               | Some pad_len \<Rightarrow>
                   Some (ok (if unat pad_len \<le> plen then plen - unat pad_len else plen)))
            else Some (ok plen)))"

definition pjmedia_rtp_decode_rtp2 :: "u8 list \<Rightarrow> int \<Rightarrow> rtp_decoded option" where
  "pjmedia_rtp_decode_rtp2 pkt pkt_len =
     (case rtp_hdr_of_bytes pkt of
        None \<Rightarrow> None
      | Some h \<Rightarrow>
          if hdr_v h \<noteq> 2
          then Some \<lparr>dec_status = PJMEDIA_RTP_EINVER, dec_hdr = h, dec_ext = None, dec_payload = None\<rparr>
          else
            (case decode_ext pkt pkt_len h (12 + unat (hdr_cc h) * 4) of
               None \<Rightarrow> None
             | Some (Inl e) \<Rightarrow>
                 Some \<lparr>dec_status = e, dec_hdr = h, dec_ext = None, dec_payload = None\<rparr>
             | Some (Inr (offset, ext)) \<Rightarrow> decode_payload pkt pkt_len h offset ext))"

text \<open>\<^verbatim>\<open>pjmedia_rtp_decode_rtp\<close> drops the decoded extension, which lives in a local of the call.\<close>

definition pjmedia_rtp_decode_rtp ::
    "u8 list \<Rightarrow> int \<Rightarrow> (pj_status \<times> rtp_hdr \<times> (nat option \<times> nat) option) option" where
  "pjmedia_rtp_decode_rtp pkt pkt_len =
     map_option (\<lambda>d. (dec_status d, dec_hdr d, dec_payload d)) (pjmedia_rtp_decode_rtp2 pkt pkt_len)"

section \<open>Receiving: session update\<close>

text \<open>
  \<^verbatim>\<open>pjmedia_rtp_session_update2\<close>. The out parameter \<^verbatim>\<open>p_seq_st\<close> is passed in as it is before the call
  (\<open>None\<close> for \<^verbatim>\<open>NULL\<close>) and returned as it is after: on a payload type mismatch the \<^verbatim>\<open>diff\<close> field is
  left as it was.
\<close>

definition session_check_ssrc :: "rtp_session \<Rightarrow> rtp_hdr \<Rightarrow> rtp_session \<times> rtp_flag" where
  "session_check_ssrc ses hdr =
     (let ses = (if \<not> has_peer_ssrc ses \<and> peer_ssrc ses = 0
                 then ses\<lparr>peer_ssrc := pj_ntohl (hdr_ssrc hdr)\<rparr> else ses)
      in if pj_ntohl (hdr_ssrc hdr) \<noteq> peer_ssrc ses
         then ((if \<not> has_peer_ssrc ses then ses\<lparr>peer_ssrc := pj_ntohl (hdr_ssrc hdr)\<rparr> else ses),
               no_flag\<lparr>fl_badssrc := True\<rparr>)
         else (ses, no_flag))"

definition pjmedia_rtp_session_update2 ::
    "rtp_session \<Rightarrow> rtp_hdr \<Rightarrow> rtp_status option \<Rightarrow> bool \<Rightarrow> rtp_session \<times> rtp_status option" where
  "pjmedia_rtp_session_update2 ses hdr p_seq_st check_pt =
     (let (ses, flag) = session_check_ssrc ses hdr
      in if check_pt \<and> uint (hdr_pt hdr) \<noteq> uint (out_pt ses)
         then (ses, map_option (\<lambda>st. st\<lparr>st_flag := flag\<lparr>fl_bad := True, fl_badpt := True\<rparr>\<rparr>) p_seq_st)
         else
           (let ses = (if received ses = 0
                       then ses\<lparr>seq_ctrl := pjmedia_rtp_seq_init (seq_ctrl ses) (pj_ntohs (hdr_seq hdr))\<rparr>
                       else ses);
                (ctrl, seq_st) = pjmedia_rtp_seq_update (seq_ctrl ses) (pj_ntohs (hdr_seq hdr));
                ses = ses\<lparr>seq_ctrl := ctrl\<rparr>;
                ses = (if fl_restart (st_flag seq_st) then ses\<lparr>received := received ses + 1\<rparr>
                       else if \<not> fl_bad (st_flag seq_st) then ses\<lparr>received := received ses + 1\<rparr>
                       else ses)
            in (ses, map_option (\<lambda>_. seq_st) p_seq_st)))"

definition pjmedia_rtp_session_update ::
    "rtp_session \<Rightarrow> rtp_hdr \<Rightarrow> rtp_status option \<Rightarrow> rtp_session \<times> rtp_status option" where
  "pjmedia_rtp_session_update ses hdr p_seq_st = pjmedia_rtp_session_update2 ses hdr p_seq_st True"

section \<open>Specification vocabulary\<close>

text \<open>
  The extended sequence number (cycles and low 16 bits) a receiver has reached, and when it is in
  step with its sender: out of probation, with a whole number of cycles.
\<close>

definition ext_seq :: "rtp_seq_session \<Rightarrow> u32" where
  "ext_seq s = cycles s + ucast (max_seq s)"

definition in_sync :: "rtp_seq_session \<Rightarrow> bool" where
  "in_sync s \<longleftrightarrow> probation s = 0 \<and> 65536 dvd uint (cycles s)"

text \<open>Runs of a tracker and of a session over the headers that arrive, in arrival order.\<close>

fun seq_run :: "('s \<Rightarrow> u16 \<Rightarrow> 's \<times> rtp_status) \<Rightarrow> 's \<Rightarrow> u16 list \<Rightarrow> 's \<times> rtp_status list" where
  "seq_run upd s [] = (s, [])"
| "seq_run upd s (q # qs) =
     (let (s1, st) = upd s q; (s2, sts) = seq_run upd s1 qs in (s2, st # sts))"

fun session_run :: "rtp_session \<Rightarrow> rtp_hdr list \<Rightarrow> rtp_session" where
  "session_run ses [] = ses"
| "session_run ses (h # hs) = session_run (fst (pjmedia_rtp_session_update ses h None)) hs"

text \<open>
  A stream as the sender numbered it: every packet lies less than 100 behind and less than 3000
  ahead of the highest number received before it.
\<close>

fun near_stream :: "nat \<Rightarrow> nat list \<Rightarrow> bool" where
  "near_stream n [] \<longleftrightarrow> True"
| "near_stream n (k # ks) \<longleftrightarrow> n < k + 100 \<and> k < n + 3000 \<and> near_stream (max n k) ks"

definition rtp_hdrs_of :: "u16 \<Rightarrow> rtp_hdr \<Rightarrow> nat list \<Rightarrow> rtp_hdr list" where
  "rtp_hdrs_of pt h0 ks = map (\<lambda>k. h0\<lparr>hdr_pt := ucast pt, hdr_seq := pj_htons (of_nat k)\<rparr>) ks"

text \<open>What every session keeps of its outgoing header: version 2, no padding, extension or CSRC.\<close>

definition rtp_session_wf :: "rtp_session \<Rightarrow> bool" where
  "rtp_session_wf ses \<longleftrightarrow> hdr_v (out_hdr ses) = 2 \<and> hdr_p (out_hdr ses) = 0
     \<and> hdr_x (out_hdr ses) = 0 \<and> hdr_cc (out_hdr ses) = 0
     \<and> hdr_seq (out_hdr ses) = pj_htons (ucast (out_extseq ses))"

text \<open>The pointers a successful decode hands out stay inside the packet.\<close>

definition decoded_in_bounds :: "rtp_decoded \<Rightarrow> nat \<Rightarrow> bool" where
  "decoded_in_bounds d len \<longleftrightarrow>
     (case dec_payload d of
        Some (Some off, n) \<Rightarrow> 12 \<le> off \<and> off + n \<le> len
      | Some (None, n) \<Rightarrow> n = 0
      | None \<Rightarrow> False)
     \<and> (case dec_ext d of
          Some e \<Rightarrow> (case ext_ptr e of Some p \<Rightarrow> 12 \<le> p \<and> p + 4 * ext_len e \<le> len | None \<Rightarrow> True)
        | None \<Rightarrow> False)"

text \<open>A concrete session in the middle of a stream, one packet before a wrap-around, for the witnesses.\<close>

definition wit_ses :: rtp_session where
  "wit_ses = (snd (pjmedia_rtp_session_init 7 5 8 0x1234))\<lparr>received := 1,
     seq_ctrl := \<lparr>max_seq = 65535, cycles = 65536, base_seq = 1, bad_seq = 65537, probation = 0\<rparr>\<rparr>"

section \<open>Sequence arithmetic\<close>


lemma uint_seq_delta:
  fixes n k :: nat
  shows "uint (of_nat k - of_nat n :: u16) = (int k - int n) mod 65536"
proof -
  have "(of_nat k - of_nat n :: u16) = word_of_int (int k - int n)" by simp
  then show ?thesis by (simp only: uint_word_of_int) simp
qed

lemma uint_of_nat16: "uint (of_nat k :: u16) = int k mod 65536"
  using uint_seq_delta [of k 0] by simp

lemma uint_of_nat32: "uint (of_nat k :: u32) = int k mod 4294967296"
proof -
  have "(of_nat k :: u32) = word_of_int (int k)" by simp
  then show ?thesis by (simp only: uint_word_of_int) simp
qed

lemma uint_ext_seq:
  assumes "in_sync s"
  shows "uint (ext_seq s) = uint (cycles s) + uint (max_seq s)"
proof -
  have c: "uint (cycles s) < 4294967296" and m: "uint (max_seq s) < 65536"
    using uint_lt2p [of "cycles s"] uint_lt2p [of "max_seq s"] by simp_all
  obtain q where q: "uint (cycles s) = 65536 * q" using assms by (auto simp: in_sync_def)
  then have "q < 65536" using c by simp
  then have "uint (cycles s) \<le> 4294967296 - 65536" using q by linarith
  with m have "uint (cycles s) + uint (max_seq s) < 2 ^ LENGTH(32)" by simp
  moreover have "uint (ucast (max_seq s) :: u32) = uint (max_seq s)"
    using m by (simp add: unsigned_ucast_eq take_bit_int_eq_self)
  ultimately show ?thesis by (simp add: ext_seq_def uint_word_ariths)
qed

lemma mod32_split: "(i :: int) mod 4294967296 = 65536 * (i div 65536 mod 65536) + i mod 65536"
  using mod_mult2_eq' [of i 65536 65536] by (simp add: algebra_simps)

lemma seq_digits_unique:
  fixes a b q r :: int
  assumes "65536 * a + b = 65536 * q + r" "0 \<le> b" "b < 65536" "0 \<le> r" "r < 65536"
  shows "a = q \<and> b = r"
proof -
  have "(65536 * a + b) div 65536 = a" "(65536 * q + r) div 65536 = q"
    using assms(2-5) by simp_all
  with assms(1) show ?thesis by simp
qed

lemma in_sync_low:
  assumes "in_sync s" and "ext_seq s = of_nat n"
  shows "max_seq s = of_nat n" and "uint (cycles s) = 65536 * (int n div 65536 mod 65536)"
proof -
  have m: "0 \<le> uint (max_seq s)" "uint (max_seq s) < 65536"
    using uint_lt2p [of "max_seq s"] by simp_all
  obtain q where q: "uint (cycles s) = 65536 * q" using assms(1) by (auto simp: in_sync_def)
  have "65536 * q + uint (max_seq s) = 65536 * (int n div 65536 mod 65536) + int n mod 65536"
    using uint_ext_seq [OF assms(1)] assms(2) q by (simp add: uint_of_nat32 mod32_split)
  then have *: "q = int n div 65536 mod 65536" "uint (max_seq s) = int n mod 65536"
    using seq_digits_unique m by (metis pos_mod_bound pos_mod_sign zero_less_numeral)+
  from *(2) show "max_seq s = of_nat n"
    by (simp add: uint_of_nat16 word_uint_eq_iff)
  from *(1) q show "uint (cycles s) = 65536 * (int n div 65536 mod 65536)" by simp
qed

lemma seq_advance_digits:
  fixes n d :: int
  assumes d: "0 < d" "d < 3000"
  shows "(n + d) mod 65536 < n mod 65536 \<Longrightarrow> (n + d) div 65536 = n div 65536 + 1"
    and "\<not> (n + d) mod 65536 < n mod 65536 \<Longrightarrow> (n + d) div 65536 = n div 65536"
proof -
  define a q where "a = n mod 65536" and "q = n div 65536"
  have a: "0 \<le> a" "a < 65536" and n: "n + d = 65536 * q + (a + d)"
    by (simp_all add: a_def q_def)
  have "(n + d) div 65536 = q + (a + d) div 65536" and m: "(n + d) mod 65536 = (a + d) mod 65536"
    unfolding n by simp_all
  moreover have "a + d < 65536 \<Longrightarrow> (a + d) div 65536 = 0 \<and> (a + d) mod 65536 = a + d"
    using a d by simp
  moreover have "(a + d) div 65536 = 1 \<and> (a + d) mod 65536 = a + d - 65536" if "65536 \<le> a + d"
  proof -
    define b where "b = a + d - 65536"
    have "0 \<le> b" "b < 65536" "a + d = b + 65536" using that a d by (simp_all add: b_def)
    then show ?thesis by simp
  qed
  ultimately show "(n + d) mod 65536 < n mod 65536 \<Longrightarrow> (n + d) div 65536 = n div 65536 + 1"
    and "\<not> (n + d) mod 65536 < n mod 65536 \<Longrightarrow> (n + d) div 65536 = n div 65536"
    using a d unfolding a_def [symmetric] q_def [symmetric] by linarith+
qed

lemma seq_update_tracks:
  assumes s: "in_sync s" and n: "ext_seq s = of_nat n" and lo: "n < k + 100" and hi: "k < n + 3000"
  obtains s' st where "pjmedia_rtp_seq_update s (of_nat k) = (s', st)" and "in_sync s'"
    and "ext_seq s' = of_nat (max n k)" and "\<not> fl_bad (st_flag st)" and "\<not> fl_restart (st_flag st)"
    and "st_diff st = of_nat (k - n)"
proof -
  note low = in_sync_low [OF s n]
  define d :: u16 where "d = of_nat k - max_seq s"
  have ud: "uint d = (int k - int n) mod 65536"
    unfolding d_def low(1) by (rule uint_seq_delta)
  have p: "probation s = 0" using s by (simp add: in_sync_def)
  consider "k = n" | "n < k" | "k < n" by linarith
  then show thesis
  proof cases
    case 1
    then have "d = 0" by (simp add: d_def low)
    then have "pjmedia_rtp_seq_update s (of_nat k)
        = (s, \<lparr>st_flag = no_flag\<lparr>fl_dup := True\<rparr>, st_diff = 0\<rparr>)"
      using p by (simp add: pjmedia_rtp_seq_update_def Let_def d_def)
    then show thesis by (rule that) (use s n 1 in \<open>simp_all add: no_flag_def\<close>)
  next
    case 3
    then have ud': "uint d = 65536 - (int n - int k)"
    proof -
      have "(int k - int n) mod 65536 = (int k - int n + 65536) mod 65536" by simp
      also have "\<dots> = int k - int n + 65536" using lo 3 by (intro mod_pos_pos_trivial) auto
      finally show ?thesis using ud by simp
    qed
    have "pjmedia_rtp_seq_update s (of_nat k)
        = (s, \<lparr>st_flag = no_flag\<lparr>fl_outorder := True\<rparr>, st_diff = 0\<rparr>)"
      using p ud' lo 3 unfolding pjmedia_rtp_seq_update_def Let_def d_def [symmetric]
      by (auto simp: RTP_MAX_DROPOUT_def RTP_SEQ_MOD_def RTP_MAX_MISORDER_def)
    then show thesis by (rule that) (use s n 3 in \<open>simp_all add: no_flag_def\<close>)
  next
    case 2
    then have ud': "uint d = int (k - n)"
      using ud hi by simp
    then have d: "d = of_nat (k - n)"
      by (metis of_int_of_nat_eq word_of_int_uint)
    define s' where "s' = s\<lparr>cycles := (if of_nat k < max_seq s then cycles s + word_of_int RTP_SEQ_MOD
                         else cycles s), max_seq := of_nat k\<rparr>"
    have upd: "pjmedia_rtp_seq_update s (of_nat k) = (s', \<lparr>st_flag = no_flag, st_diff = d\<rparr>)"
      using p ud' hi 2 unfolding pjmedia_rtp_seq_update_def Let_def d_def [symmetric] s'_def
      by (auto simp: RTP_MAX_DROPOUT_def)
    have "int k = int n + int (k - n)" using 2 by simp
    note adv = seq_advance_digits [of "int (k - n)" "int n", folded this]
    have cyc: "uint (cycles s') = 65536 * (int k div 65536 mod 65536)"
    proof (cases "int k mod 65536 < int n mod 65536")
      case True
      then have "uint (cycles s') = (65536 * (int n div 65536 mod 65536) + 65536) mod (65536 * 65536)"
        by (simp add: s'_def low word_less_def uint_of_nat16 uint_word_ariths RTP_SEQ_MOD_def)
      also have "\<dots> = 65536 * ((int n div 65536 mod 65536 + 1) mod 65536)"
        by (simp only: mult_mod_right distrib_left mult_1_right)
      also have "\<dots> = 65536 * (int k div 65536 mod 65536)"
        using adv(1) [OF _ _ True] 2 hi by (simp add: mod_add_left_eq)
      finally show ?thesis .
    next
      case False
      then have "uint (cycles s') = 65536 * (int n div 65536 mod 65536)"
        by (simp add: s'_def low word_less_def uint_of_nat16)
      also have "\<dots> = 65536 * (int k div 65536 mod 65536)"
        using adv(2) [OF _ _ False] 2 hi by simp
      finally show ?thesis .
    qed
    then have sync: "in_sync s'" using p by (simp add: in_sync_def s'_def)
    have "uint (ext_seq s') = uint (of_nat k :: u32)"
      using uint_ext_seq [OF sync] cyc by (simp add: s'_def uint_of_nat16 uint_of_nat32 mod32_split)
    then have "ext_seq s' = of_nat k" by (simp add: word_uint_eq_iff)
    with sync upd d 2 show thesis by (intro that [OF upd]) (simp_all add: no_flag_def)
  qed
qed

section \<open>The interface of a sequence tracker\<close>

text \<open>
  What the RTP session (and the RTCP statistics) rely on: on a packet whose true number lies less
  than 100 behind and less than 3000 ahead of the highest one, the tracker keeps the highest
  extended number, accepts the packet and reports how far it advanced.
\<close>

locale seq_tracker =
  fixes update :: "'s \<Rightarrow> u16 \<Rightarrow> 's \<times> rtp_status"
    and highest :: "'s \<Rightarrow> u32"
    and synced :: "'s \<Rightarrow> bool"
  assumes track: "synced s \<Longrightarrow> highest s = of_nat n \<Longrightarrow> n < k + 100 \<Longrightarrow> k < n + 3000 \<Longrightarrow>
    synced (fst (update s (of_nat k)))
    \<and> highest (fst (update s (of_nat k))) = of_nat (max n k)
    \<and> \<not> fl_bad (st_flag (snd (update s (of_nat k))))
    \<and> \<not> fl_restart (st_flag (snd (update s (of_nat k))))
    \<and> st_diff (snd (update s (of_nat k))) = of_nat (k - n)"
begin

end



context seq_tracker
begin

lemma run_tracks:
  assumes "synced s" and "highest s = of_nat n" and "near_stream n ks"
  shows "synced (fst (seq_run update s (map of_nat ks)))
    \<and> highest (fst (seq_run update s (map of_nat ks))) = of_nat (foldl max n ks)
    \<and> (\<forall>st \<in> set (snd (seq_run update s (map of_nat ks))).
          \<not> fl_bad (st_flag st) \<and> \<not> fl_restart (st_flag st))"
  using assms
proof (induction ks arbitrary: s n)
  case Nil
  then show ?case by simp
next
  case (Cons k ks)
  from Cons.prems(3) have k: "n < k + 100" "k < n + 3000" and near: "near_stream (max n k) ks"
    by simp_all
  note t = track [OF Cons.prems(1,2) k]
  note ih = Cons.IH [OF t [THEN conjunct1] t [THEN conjunct2, THEN conjunct1] near]
  show ?case using t ih by (auto simp: Let_def case_prod_beta)
qed

end

interpretation rtp_seq: seq_tracker pjmedia_rtp_seq_update ext_seq in_sync
proof (unfold_locales, goal_cases)
  case (1 s n k)
  then show ?case by (rule seq_update_tracks) simp
qed

lemma bit_u8_ucast: "bit (ucast (w :: 'a::len word) :: u8) n \<longleftrightarrow> n < 8 \<and> bit w n"
  by (simp add: bit_simps)

lemma load16_bytes:
  "ucast (ucast w :: u8) OR push_bit 8 (ucast (ucast (drop_bit 8 w) :: u8)) = (w :: u16)"
  (is "?l = w")
proof (rule bit_word_eqI)
  fix n assume "n < LENGTH(16)"
  then consider "n < 8" | "8 \<le> n" "n < 16" by fastforce
  then show "bit ?l n = bit w n"
    by cases (auto simp: bit_simps)
qed

lemma load32_bytes:
  "ucast (ucast w :: u8) OR push_bit 8 (ucast (ucast (drop_bit 8 w) :: u8))
   OR push_bit 16 (ucast (ucast (drop_bit 16 w) :: u8)) OR push_bit 24 (ucast (ucast (drop_bit 24 w) :: u8))
   = (w :: u32)" (is "?l = w")
proof (rule bit_word_eqI)
  fix n assume "n < LENGTH(32)"
  then consider "n < 8" | "8 \<le> n" "n < 16" | "16 \<le> n" "n < 24" | "24 \<le> n" "n < 32" by fastforce
  then show "bit ?l n = bit w n"
    by cases (auto simp: bit_simps)
qed

lemma hdr_byte0:
  fixes cc :: "4 word" and x p :: "1 word" and v :: "2 word"
  defines "b \<equiv> ucast cc OR push_bit 4 (ucast x) OR push_bit 5 (ucast p) OR push_bit 6 (ucast v) :: u8"
  shows "ucast b = cc" "ucast (drop_bit 4 b) = x" "ucast (drop_bit 5 b) = p" "ucast (drop_bit 6 b) = v"
  unfolding b_def
  by (rule bit_word_eqI, force simp: bit_simps dest: bit_imp_le_length)+

lemma hdr_byte1:
  fixes m :: "1 word" and pt :: "7 word"
  defines "b \<equiv> ucast pt OR push_bit 7 (ucast m) :: u8"
  shows "ucast b = pt" "ucast (drop_bit 7 b) = m"
  unfolding b_def
  by (rule bit_word_eqI, force simp: bit_simps dest: bit_imp_le_length)+

lemma length_bytes_of_rtp_hdr [simp]: "length (bytes_of_rtp_hdr h) = 12"
  by (simp add: bytes_of_rtp_hdr_def)

lemma rtp_hdr_bytes_roundtrip: "rtp_hdr_of_bytes (bytes_of_rtp_hdr h @ rest) = Some h"
  by (simp add: rtp_hdr_of_bytes_def bytes_of_rtp_hdr_def load16_def load32_def
      load16_bytes load32_bytes hdr_byte0 hdr_byte1 del: drop_bit_or)

lemma session_init_wf [pj_inv]: "rtp_session_wf (snd (pjmedia_rtp_session_init r1 r2 pt ssrc))"
  by (simp add: pjmedia_rtp_session_init_def rtp_session_wf_def Let_def)

lemma ucast_ucast_u16 [simp]: "ucast (ucast (w :: u16) :: u32) = w"
  by (rule bit_word_eqI) (simp add: bit_simps)

lemma session_init2_wf [pj_inv]: "rtp_session_wf (snd (pjmedia_rtp_session_init2 r1 r2 settings))"
  by (simp add: pjmedia_rtp_session_init2_def pjmedia_rtp_session_init_def rtp_session_wf_def Let_def)

lemma encode_wf [pj_inv]:
  "rtp_session_wf ses \<Longrightarrow> rtp_session_wf (fst (snd (pjmedia_rtp_encode_rtp ses pt m len ts)))"
  by (simp add: pjmedia_rtp_encode_rtp_def rtp_session_wf_def Let_def)

text \<open>X0: roundtrip\<close>

text \<open>
C27. Decoding a packet made of the header that pjmedia_rtp_encode_rtp produced, laid out in
network order, and a non-empty payload gives the header back with the payload at its place,
whatever the session, the payload type and marker.
\<close>

theorem rtp_encode_decode:
  assumes "rtp_session_wf ses" and "payload \<noteq> []"
  shows "\<exists>ses' h. pjmedia_rtp_encode_rtp ses pt m (int (length payload)) ts_len = (PJ_SUCCESS, ses', Some (h, 12))
     \<and> pjmedia_rtp_decode_rtp2 (bytes_of_rtp_hdr h @ payload) (12 + int (length payload))
         = Some \<lparr>dec_status = PJ_SUCCESS, dec_hdr = h, dec_ext = Some rtp_dec_hdr_null,
                 dec_payload = Some (Some 12, length payload)\<rparr>
     \<and> pj_ntohs (hdr_seq h) = ucast (out_extseq ses + 1)
     \<and> pj_ntohl (hdr_ts h) = pj_ntohl (hdr_ts (out_hdr ses)) + word_of_int ts_len
     \<and> hdr_ssrc h = hdr_ssrc (out_hdr ses)"
proof -
  define r where "r = pjmedia_rtp_encode_rtp ses pt m (int (length payload)) ts_len"
  define h where "h = out_hdr (fst (snd r))"
  have enc: "r = (PJ_SUCCESS, fst (snd r), Some (h, 12))"
    using assms by (simp add: r_def h_def pjmedia_rtp_encode_rtp_def Let_def)
  have h: "hdr_v h = 2" "hdr_p h = 0" "hdr_x h = 0" "hdr_cc h = 0" "hdr_ssrc h = hdr_ssrc (out_hdr ses)"
      "pj_ntohs (hdr_seq h) = ucast (out_extseq ses + 1)"
      "pj_ntohl (hdr_ts h) = pj_ntohl (hdr_ts (out_hdr ses)) + word_of_int ts_len"
    using assms by (simp_all add: r_def h_def pjmedia_rtp_encode_rtp_def rtp_session_wf_def Let_def)
  have "pjmedia_rtp_decode_rtp2 (bytes_of_rtp_hdr h @ payload) (12 + int (length payload))
         = Some \<lparr>dec_status = PJ_SUCCESS, dec_hdr = h, dec_ext = Some rtp_dec_hdr_null,
                 dec_payload = Some (Some 12, length payload)\<rparr>"
    using h assms(2) by (simp add: pjmedia_rtp_decode_rtp2_def rtp_hdr_bytes_roundtrip decode_ext_def
        decode_payload_def Let_def)
  with enc h show ?thesis unfolding r_def by blast
qed

lemma load16_Some: "i + 2 \<le> length bs \<Longrightarrow> \<exists>w. load16 bs i = Some w"
  by (simp add: load16_def)

lemma decode_ext_safe:
  assumes "pkt_len \<le> int (length pkt)" and "0 \<le> pkt_len" and "int (length pkt) < 2 ^ 32"
  obtains e where "decode_ext pkt pkt_len h off = Some (Inl e)"
  | off' ext where "decode_ext pkt pkt_len h off = Some (Inr (off', ext))" and "off \<le> off'"
      and "\<And>p. ext_ptr ext = Some p \<Longrightarrow> p + 4 * ext_len ext = off'"
proof (cases "hdr_x h \<noteq> 0 \<and> off + 4 \<le> to_u32 pkt_len")
  case True
  then have "off + 4 \<le> nat pkt_len" using assms by (simp add: to_u32_id)
  then have "off + 2 + 2 \<le> length pkt" using assms by linarith
  then obtain w where "load16 pkt (off + 2) = Some w" using load16_Some by blast
  with True show thesis
    by (intro that(2)) (auto simp: decode_ext_def Let_def)
next
  case False
  then show thesis using that by (cases "hdr_x h \<noteq> 0") (auto simp: decode_ext_def rtp_dec_hdr_null_def)
qed

lemma decode_payload_safe:
  assumes "12 \<le> off" and "0 \<le> pkt_len" and "pkt_len \<le> int (length pkt)"
    and ext: "\<And>p. ext_ptr ext = Some p \<Longrightarrow> 12 \<le> p \<and> p + 4 * ext_len ext = off"
  shows "\<exists>d. decode_payload pkt pkt_len h off ext = Some d
     \<and> dec_status d \<in> {PJ_SUCCESS, PJMEDIA_RTP_EINVER, PJMEDIA_RTP_EINLEN}
     \<and> (dec_status d = PJ_SUCCESS \<longrightarrow> decoded_in_bounds d (nat pkt_len))"
proof (cases "int off > pkt_len")
  case True
  then show ?thesis by (simp add: decode_payload_def)
next
  case False
  define plen where "plen = nat (pkt_len - int off)"
  have len: "off + plen = nat pkt_len" using False assms(2) by (simp add: plen_def)
  have e: "case ext_ptr ext of Some p \<Rightarrow> 12 \<le> p \<and> p + 4 * ext_len ext \<le> nat pkt_len | None \<Rightarrow> True"
    using ext len by (auto split: option.split)
  have pay: "int off \<noteq> pkt_len \<Longrightarrow> n \<le> plen \<Longrightarrow> 12 \<le> off \<and> off + n \<le> nat pkt_len" for n
    using assms(1) len by linarith
  show ?thesis
  proof (cases "hdr_p h \<noteq> 0 \<and> plen > 0")
    case True
    then have "off + plen - 1 < length pkt" using len assms(3) by linarith
    moreover have "int off \<noteq> pkt_len" using True by (auto simp: plen_def)
    ultimately show ?thesis using False True e pay assms(1) len
      by (auto simp: decode_payload_def byte_at_def decoded_in_bounds_def plen_def [symmetric] Let_def)
  next
    case np: False
    have "pkt_len = int off \<Longrightarrow> plen = 0" by (simp add: plen_def)
    with np show ?thesis using False e pay
      by (auto simp: decode_payload_def decoded_in_bounds_def plen_def [symmetric] Let_def)
  qed
qed

text \<open>
C28. Decoding any buffer of at least twelve bytes with its true length reads inside the buffer
only, and what it returns on success, extension and payload with padding removed, lies inside the
packet.
\<close>

theorem rtp_decode_safe:
  assumes "12 \<le> length pkt" and "0 \<le> pkt_len" and "pkt_len \<le> int (length pkt)"
    and "length pkt < 2 ^ 32"
  shows "\<exists>d. pjmedia_rtp_decode_rtp2 pkt pkt_len = Some d
     \<and> dec_status d \<in> {PJ_SUCCESS, PJMEDIA_RTP_EINVER, PJMEDIA_RTP_EINLEN}
     \<and> (dec_status d = PJ_SUCCESS \<longrightarrow> decoded_in_bounds d (nat pkt_len))"
proof -
  have "load16 pkt 2 \<noteq> None" "load32 pkt 4 \<noteq> None" "load32 pkt 8 \<noteq> None"
    using assms(1) by (auto simp: load16_def load32_def)
  then obtain h where h: "rtp_hdr_of_bytes pkt = Some h"
    by (auto simp: rtp_hdr_of_bytes_def)
  define off where "off = 12 + unat (hdr_cc h) * 4"
  have len: "int (length pkt) < 2 ^ 32" using assms(4) by simp
  show ?thesis
  proof (cases "hdr_v h = 2")
    case False
    with h show ?thesis by (simp add: pjmedia_rtp_decode_rtp2_def)
  next
    case True
    show ?thesis
    proof (rule decode_ext_safe [OF assms(3,2) len, of h off])
      fix e assume e: "decode_ext pkt pkt_len h off = Some (Inl e)"
      then have "e = PJMEDIA_RTP_EINLEN"
        by (auto simp: decode_ext_def Let_def split: if_splits option.splits)
      with e True h show ?thesis
        by (simp add: pjmedia_rtp_decode_rtp2_def off_def)
    next
      fix off' ext
      assume ext: "decode_ext pkt pkt_len h off = Some (Inr (off', ext))" "off \<le> off'"
        "\<And>p. ext_ptr ext = Some p \<Longrightarrow> p + 4 * ext_len ext = off'"
      have p12: "ext_ptr ext = Some p \<Longrightarrow> 12 \<le> p" for p
        using ext(1) by (auto simp: decode_ext_def off_def rtp_dec_hdr_null_def Let_def
            split: if_splits option.splits)
      have off': "12 \<le> off'" using ext(2) by (simp add: off_def)
      have dec: "pjmedia_rtp_decode_rtp2 pkt pkt_len = decode_payload pkt pkt_len h off' ext"
        using True h ext(1) by (simp add: pjmedia_rtp_decode_rtp2_def off_def)
      show ?thesis unfolding dec
        using decode_payload_safe [OF off' assms(2,3), of ext h] ext(3) p12 by blast
    qed
  qed
qed


lemma seq_plus1_int: "uint sq < 65535 \<Longrightarrow> uint (sq + 1 :: u16) = uint sq + 1"
  by (simp add: uint_word_ariths)

lemma seq_minus1_int: "0 < uint sq \<Longrightarrow> uint (sq - 1 :: u16) = uint sq - 1"
proof -
  assume "0 < uint sq"
  moreover have "uint sq < 65536" using uint_lt2p [of sq] by simp
  ultimately show ?thesis by (simp add: uint_word_ariths)
qed

lemma ucast_u16_u32_int: "uint (ucast (w :: u16) :: u32) = uint w"
  using uint_lt2p [of w] by (simp add: unsigned_ucast_eq take_bit_int_eq_self)

lemma ucast_seq_plus1:
  assumes "uint sq < 65535"
  shows "ucast (sq + 1 :: u16) = (ucast sq + 1 :: u32)"
proof -
  have "uint (ucast sq + 1 :: u32) = uint sq + 1"
    using assms by (simp add: uint_word_ariths ucast_u16_u32_int)
  then show ?thesis
    using seq_plus1_int [OF assms] by (simp add: word_uint_eq_iff ucast_u16_u32_int)
qed

lemma ucast_u16_mask: "(ucast (w :: u16) :: u32) AND 65535 = ucast w"
proof -
  have "(65535 :: u32) = mask 16" by (simp add: mask_eq_exp_minus_1)
  then show ?thesis by (simp add: bit_simps bit_eq_iff) (auto dest: bit_imp_le_length)
qed

lemma probation_first:
  assumes "0 < uint sq"
  shows "pjmedia_rtp_seq_update (pjmedia_rtp_seq_init s sq) sq =
     (s\<lparr>max_seq := sq, cycles := 0, base_seq := ucast sq, bad_seq := 65537, probation := 1\<rparr>,
      \<lparr>st_flag = no_flag\<lparr>fl_probation := True\<rparr>, st_diff = 1\<rparr>)"
  using seq_minus1_int [OF assms]
  by (simp add: pjmedia_rtp_seq_update_def pjmedia_rtp_seq_init_def pjmedia_rtp_seq_restart_def
      MIN_SEQUENTIAL_def RTP_SEQ_MOD_def Let_def)

theorem rtp_probation_completes:
  assumes "0 < uint sq" and "uint sq < 65535"
  shows "\<exists>s1 st1 s2. pjmedia_rtp_seq_update (pjmedia_rtp_seq_init s sq) sq = (s1, st1)
     \<and> \<not> fl_bad (st_flag st1)
     \<and> pjmedia_rtp_seq_update s1 (sq + 1) = (s2, \<lparr>st_flag = no_flag, st_diff = 1\<rparr>)
     \<and> in_sync s2 \<and> ext_seq s2 = ucast sq + 1"
proof -
  let ?s1 = "s\<lparr>max_seq := sq, cycles := 0, base_seq := ucast sq, bad_seq := 65537, probation := 1\<rparr>"
  have "pjmedia_rtp_seq_update ?s1 (sq + 1)
      = (?s1\<lparr>max_seq := sq + 1, probation := 0\<rparr>, \<lparr>st_flag = no_flag, st_diff = 1\<rparr>)"
    using seq_plus1_int [OF assms(2)]
    by (simp add: pjmedia_rtp_seq_update_def Let_def no_flag_def)
  moreover have "ucast (sq + 1 :: u16) = (ucast sq + 1 :: u32)"
    by (rule ucast_seq_plus1 [OF assms(2)])
  ultimately show ?thesis
    using probation_first [OF assms(1), of s]
    by (simp add: in_sync_def ext_seq_def no_flag_def)
qed

theorem rtp_probation_rejects_wrap:
  "fl_bad (st_flag (snd (pjmedia_rtp_seq_update (pjmedia_rtp_seq_init s 0) 0)))
   \<and> fl_outorder (st_flag (snd (pjmedia_rtp_seq_update (pjmedia_rtp_seq_init s 0) 0)))
   \<and> probation (fst (pjmedia_rtp_seq_update (pjmedia_rtp_seq_init s 0) 0)) \<noteq> 0"
  by (simp add: pjmedia_rtp_seq_update_def pjmedia_rtp_seq_init_def pjmedia_rtp_seq_restart_def
      MIN_SEQUENTIAL_def no_flag_def Let_def unsigned_minus_1_eq_mask mask_eq_exp_minus_1)

theorem rtp_restart_resync:
  assumes "in_sync s" and "3000 \<le> uint (sq - max_seq s)" and "uint (sq - max_seq s) \<le> 65435"
    and "bad_seq s \<noteq> ucast sq" and "uint sq < 65535"
  shows "\<exists>s1 st1 s2 st2. pjmedia_rtp_seq_update s sq = (s1, st1) \<and> fl_bad (st_flag st1)
     \<and> ext_seq s1 = ext_seq s
     \<and> pjmedia_rtp_seq_update s1 (sq + 1) = (s2, st2) \<and> fl_restart (st_flag st2)
     \<and> in_sync s2 \<and> ext_seq s2 = ucast (sq + 1) \<and> base_seq s2 = ucast (sq + 1)"
proof -
  have p: "probation s = 0" using assms(1) by (simp add: in_sync_def)
  let ?s1 = "s\<lparr>bad_seq := (ucast sq + 1) AND 65535\<rparr>"
  have nz: "sq - max_seq s \<noteq> 0" using assms(2) by auto
  have one: "pjmedia_rtp_seq_update s sq
      = (?s1, \<lparr>st_flag = no_flag\<lparr>fl_bad := True, fl_outorder := True\<rparr>, st_diff = 0\<rparr>)"
    using p nz assms(2-4)
    by (simp add: pjmedia_rtp_seq_update_def Let_def RTP_MAX_DROPOUT_def RTP_SEQ_MOD_def
        RTP_MAX_MISORDER_def)
  have d: "sq + 1 - max_seq s = (sq - max_seq s) + 1" by simp
  have ud: "uint (sq + 1 - max_seq s) = uint (sq - max_seq s) + 1"
    unfolding d using assms(3) by (intro seq_plus1_int) simp
  have b: "ucast (sq + 1 :: u16) = ((ucast sq + 1) AND 65535 :: u32)"
    using ucast_u16_mask [of "sq + 1"] ucast_seq_plus1 [OF assms(5)] by simp
  have "pjmedia_rtp_seq_update ?s1 (sq + 1)
      = (pjmedia_rtp_seq_restart ?s1 (sq + 1),
         \<lparr>st_flag = no_flag\<lparr>fl_restart := True, fl_probation := True\<rparr>, st_diff = 1\<rparr>)"
    using p ud b assms(2,3)
    by (auto simp: pjmedia_rtp_seq_update_def Let_def RTP_MAX_DROPOUT_def RTP_SEQ_MOD_def
        RTP_MAX_MISORDER_def)
  with one show ?thesis using p
    by (simp add: no_flag_def in_sync_def ext_seq_def pjmedia_rtp_seq_restart_def)
qed

lemma seq_update_no_badssrc: "\<not> fl_badssrc (st_flag (snd (pjmedia_rtp_seq_update s sq)))"
  by (simp add: pjmedia_rtp_seq_update_def no_flag_def Let_def)

theorem rtp_badssrc_lost:
  assumes "has_peer_ssrc ses" and "pj_ntohl (hdr_ssrc hdr) \<noteq> peer_ssrc ses"
    and "uint (hdr_pt hdr) = uint (out_pt ses)"
  shows "\<exists>st. snd (pjmedia_rtp_session_update ses hdr (Some st0)) = Some st
     \<and> \<not> fl_badssrc (st_flag st)"
proof -
  have "session_check_ssrc ses hdr = (ses, no_flag\<lparr>fl_badssrc := True\<rparr>)"
    using assms by (simp add: session_check_ssrc_def)
  then show ?thesis using assms(3)
    by (auto simp: pjmedia_rtp_session_update_def pjmedia_rtp_session_update2_def Let_def
        case_prod_beta seq_update_no_badssrc)
qed


lemma session_check_ssrc_frame:
  "seq_ctrl (fst (session_check_ssrc ses h)) = seq_ctrl ses
   \<and> received (fst (session_check_ssrc ses h)) = received ses
   \<and> out_pt (fst (session_check_ssrc ses h)) = out_pt ses"
  by (simp add: session_check_ssrc_def Let_def)

lemma session_update_step:
  fixes p :: "rtp_status option"
  assumes "received ses \<noteq> 0" and "uint (hdr_pt h) = uint (out_pt ses)"
    and "\<not> fl_bad (st_flag (snd (pjmedia_rtp_seq_update (seq_ctrl ses) (pj_ntohs (hdr_seq h)))))"
  defines "ses' \<equiv> fst (pjmedia_rtp_session_update ses h p)"
  shows "seq_ctrl ses' = fst (pjmedia_rtp_seq_update (seq_ctrl ses) (pj_ntohs (hdr_seq h)))
    \<and> received ses' = received ses + 1 \<and> out_pt ses' = out_pt ses"
  using assms(1-3) session_check_ssrc_frame [of ses h] unfolding ses'_def
  by (simp add: pjmedia_rtp_session_update_def pjmedia_rtp_session_update2_def Let_def case_prod_beta)

lemma received_Suc:
  assumes "Suc (unat (w :: u32)) < 2 ^ 32"
  shows "unat (w + 1) = Suc (unat w)"
  using assms by (simp add: unat_word_ariths)

text \<open>
C9. An RTP session out of probation follows the sender: over any stream of packets with the
session's payload type whose true sequence numbers each lie less than 100 behind and less than
3000 ahead of the highest number so far, the extended sequence number the session holds is the
highest number received, across 16-bit wrap-arounds, and every packet is counted as received.
\<close>

theorem rtp_session_tracks_stream:
  assumes "0 < unat (received ses)" and "unat (received ses) + length hs < 2 ^ 32"
    and "in_sync (seq_ctrl ses)" and "ext_seq (seq_ctrl ses) = of_nat n"
    and "\<forall>h \<in> set hs. uint (hdr_pt h) = uint (out_pt ses)"
    and "map hdr_seq hs = map (\<lambda>k. pj_htons (of_nat k)) ks" and "near_stream n ks"
  shows "in_sync (seq_ctrl (session_run ses hs))
    \<and> ext_seq (seq_ctrl (session_run ses hs)) = of_nat (foldl max n ks)
    \<and> unat (received (session_run ses hs)) = unat (received ses) + length hs"
  using assms
proof (induction hs arbitrary: ses n ks)
  case Nil
  then show ?case by simp
next
  case (Cons h hs)
  obtain k ks' where ks: "ks = k # ks'" "hdr_seq h = pj_htons (of_nat k)"
      "map hdr_seq hs = map (\<lambda>k. pj_htons (of_nat k)) ks'"
    using Cons.prems(6) by (cases ks) auto
  have near: "n < k + 100" "k < n + 3000" "near_stream (max n k) ks'"
    using Cons.prems(7) ks(1) by simp_all
  note t = rtp_seq.track [OF Cons.prems(3,4) near(1,2)]
  define ses1 where "ses1 = fst (pjmedia_rtp_session_update ses h None)"
  have rec: "received ses \<noteq> 0" using Cons.prems(1) by auto
  have step: "seq_ctrl ses1 = fst (pjmedia_rtp_seq_update (seq_ctrl ses) (of_nat k))
      \<and> received ses1 = received ses + 1 \<and> out_pt ses1 = out_pt ses"
    unfolding ses1_def
    using session_update_step [OF rec, of h None] Cons.prems(5) t by (simp add: ks)
  have r1: "unat (received ses1) = Suc (unat (received ses))"
    using step Cons.prems(2) received_Suc [of "received ses"] by simp
  have "in_sync (seq_ctrl (session_run ses1 hs))
    \<and> ext_seq (seq_ctrl (session_run ses1 hs)) = of_nat (foldl max (max n k) ks')
    \<and> unat (received (session_run ses1 hs)) = unat (received ses1) + length hs"
    using Cons.prems(2,5) ks(3) near(3) t step r1 by (intro Cons.IH) simp_all
  then show ?case using r1 by (simp add: ks ses1_def)
qed

theorem rtp_encode_decode_witness:
  "rtp_session_wf (snd (pjmedia_rtp_session_init 7 5 8 0x1234)) \<and>
   (\<exists>ses' h. pjmedia_rtp_encode_rtp (snd (pjmedia_rtp_session_init 7 5 8 0x1234)) (-1) 0
         (int (length [1, 2, 3 :: u8])) 160 = (PJ_SUCCESS, ses', Some (h, 12)))"
  using rtp_encode_decode [OF session_init_wf [of 7 5 8 "0x1234"], of "[1, 2, 3]" "-1" 0 160]
    session_init_wf [of 7 5 8 "0x1234"] by blast

theorem rtp_decode_safe_witness:
  "\<exists>d. pjmedia_rtp_decode_rtp2 (0x80 # replicate 15 0) 16 = Some d
     \<and> dec_status d \<in> {PJ_SUCCESS, PJMEDIA_RTP_EINVER, PJMEDIA_RTP_EINLEN}
     \<and> (dec_status d = PJ_SUCCESS \<longrightarrow> decoded_in_bounds d (nat 16))"
  using rtp_decode_safe [of "0x80 # replicate 15 0" 16] by simp

theorem rtp_session_tracks_stream_witness:
  "ext_seq (seq_ctrl (session_run wit_ses
      (rtp_hdrs_of 8 (out_hdr wit_ses) [131072, 131070, 131075]))) = 131075"
proof -
  let ?ks = "[131072, 131070, 131075 :: nat]"
  have a: "0 < unat (received wit_ses)" 
    "unat (received wit_ses) + length (rtp_hdrs_of 8 (out_hdr wit_ses) ?ks) < 2 ^ 32"
    "in_sync (seq_ctrl wit_ses)" "ext_seq (seq_ctrl wit_ses) = of_nat 131071"
    "\<forall>h \<in> set (rtp_hdrs_of 8 (out_hdr wit_ses) ?ks). uint (hdr_pt h) = uint (out_pt wit_ses)"
    "map hdr_seq (rtp_hdrs_of 8 (out_hdr wit_ses) ?ks) = map (\<lambda>k. pj_htons (of_nat k)) ?ks"
    "near_stream 131071 ?ks"
    by (simp_all add: wit_ses_def rtp_hdrs_of_def in_sync_def ext_seq_def
        pjmedia_rtp_session_init_def Let_def)
  show ?thesis using rtp_session_tracks_stream [OF a] by simp
qed

theorem rtp_probation_completes_witness:
  "\<exists>s1 st1 s2. pjmedia_rtp_seq_update (pjmedia_rtp_seq_init (seq_ctrl wit_ses) 500) 500 = (s1, st1)
     \<and> \<not> fl_bad (st_flag st1)
     \<and> pjmedia_rtp_seq_update s1 (500 + 1) = (s2, \<lparr>st_flag = no_flag, st_diff = 1\<rparr>)
     \<and> in_sync s2 \<and> ext_seq s2 = ucast (500 :: u16) + 1"
  using rtp_probation_completes [of 500 "seq_ctrl wit_ses"] by simp

theorem rtp_restart_resync_witness:
  "\<exists>s1 st1 s2 st2. pjmedia_rtp_seq_update (seq_ctrl wit_ses) 30000 = (s1, st1) \<and> fl_bad (st_flag st1)
     \<and> ext_seq s1 = ext_seq (seq_ctrl wit_ses)
     \<and> pjmedia_rtp_seq_update s1 (30000 + 1) = (s2, st2) \<and> fl_restart (st_flag st2)
     \<and> in_sync s2 \<and> ext_seq s2 = ucast (30000 + 1 :: u16) \<and> base_seq s2 = ucast (30000 + 1 :: u16)"
  by (rule rtp_restart_resync) (simp_all add: wit_ses_def in_sync_def)

theorem rtp_badssrc_lost_witness:
  "\<exists>st. snd (pjmedia_rtp_session_update (wit_ses\<lparr>has_peer_ssrc := True, peer_ssrc := 99\<rparr>)
       ((out_hdr wit_ses)\<lparr>hdr_ssrc := 0\<rparr>) (Some \<lparr>st_flag = no_flag, st_diff = 0\<rparr>)) = Some st
     \<and> \<not> fl_badssrc (st_flag st)"
  by (rule rtp_badssrc_lost)
    (simp_all add: wit_ses_def pjmedia_rtp_session_init_def pj_ntohl_def Let_def)

end
