(* ===== verification/Jbuf_Framelist.thy ===== *)
theory Jbuf_Framelist
  imports Pj_Prelude
begin

text \<open>
  The frame list of the jitter buffer (\<^verbatim>\<open>jb_framelist_t\<close> of \<^verbatim>\<open>pjmedia/src/pjmedia/jbuf.c\<close>): a ring of
  \<^verbatim>\<open>max_count\<close> slots, each with a frame type, a length, bit information, a timestamp and the bytes of
  the frame. Slot \<open>(head + i) mod max_count\<close> holds the frame with index \<open>origin + i\<close>.

  The five parallel arrays are lists of length \<^verbatim>\<open>max_count\<close>; the content array is the list of its
  \<^verbatim>\<open>frame_size\<close>-byte slots. The two loops whose end depends on the contents of the ring (skipping
  discarded frames, finding a frame to peek at) are \<^theory_text>\<open>partial_function\<close>s: \<open>None\<close> is a loop that
  never ends, and the lemmas show that it does not happen on a well-formed ring.
\<close>

section \<open>Data\<close>

datatype jb_frame_type =
    PJMEDIA_JB_MISSING_FRAME
  | PJMEDIA_JB_NORMAL_FRAME
  | PJMEDIA_JB_ZERO_PREFETCH_FRAME
  | PJMEDIA_JB_ZERO_EMPTY_FRAME
  | PJMEDIA_JB_DISCARDED_FRAME

record jb_framelist =
  fl_frame_size :: nat
  fl_max_count :: nat
  fl_content :: "u8 list list"
  fl_frame_type :: "jb_frame_type list"
  fl_content_len :: "nat list"
  fl_bit_info :: "u32 list"
  fl_ts :: "u32 list"
  fl_head :: nat
  fl_size :: nat
  fl_discarded_num :: nat
  fl_origin :: int

definition INVALID_OFFSET :: int where
  "INVALID_OFFSET = -9999"

definition MAX_FRAME_INDEX :: nat where
  "MAX_FRAME_INDEX = 0xFFFFFFFF div 9000"

definition JB_MAX_MISORDER :: int where
  "JB_MAX_MISORDER = 100"

definition JB_MAX_DROPOUT :: int where
  "JB_MAX_DROPOUT = 3000"

text \<open>\<^verbatim>\<open>pj_memset\<close> of \<open>n\<close> elements of an array from position \<open>i\<close>.\<close>

definition fill :: "'a list \<Rightarrow> nat \<Rightarrow> nat \<Rightarrow> 'a \<Rightarrow> 'a list" where
  "fill xs i n v = take i xs @ replicate n v @ drop (i + n) xs"

section \<open>Operations\<close>

definition jb_framelist_reset :: "jb_framelist \<Rightarrow> jb_framelist" where
  "jb_framelist_reset fl =
     fl\<lparr>fl_head := 0, fl_origin := INVALID_OFFSET, fl_size := 0, fl_discarded_num := 0,
        fl_frame_type := fill (fl_frame_type fl) 0 (fl_max_count fl) PJMEDIA_JB_MISSING_FRAME,
        fl_content_len := fill (fl_content_len fl) 0 (fl_max_count fl) 0\<rparr>"

text \<open>
  \<^verbatim>\<open>jb_framelist_init\<close>. The arrays come from the pool and are not cleared; what they hold is the
  argument \<open>mem\<close>, a frame list of which only the arrays are used.
\<close>

definition jb_framelist_init :: "jb_framelist \<Rightarrow> nat \<Rightarrow> nat \<Rightarrow> jb_framelist" where
  "jb_framelist_init mem frame_size max_count =
     jb_framelist_reset
       \<lparr>fl_frame_size = frame_size, fl_max_count = max_count,
        fl_content = fl_content mem, fl_frame_type = fl_frame_type mem,
        fl_content_len = fl_content_len mem, fl_bit_info = fl_bit_info mem, fl_ts = fl_ts mem,
        fl_head = 0, fl_size = 0, fl_discarded_num = 0, fl_origin = 0\<rparr>"

definition jb_framelist_eff_size :: "jb_framelist \<Rightarrow> nat" where
  "jb_framelist_eff_size fl = u32_sub (fl_size fl) (fl_discarded_num fl)"

text \<open>The counting loop of \<^verbatim>\<open>jb_framelist_remove_head\<close> over a range of slots.\<close>

fun uncount_discarded :: "jb_frame_type list \<Rightarrow> nat \<Rightarrow> nat" where
  "uncount_discarded [] d = d"
| "uncount_discarded (t # ts) d =
     uncount_discarded ts (if t = PJMEDIA_JB_DISCARDED_FRAME then u32_sub d 1 else d)"

definition clear_slots :: "jb_framelist \<Rightarrow> nat \<Rightarrow> nat \<Rightarrow> jb_framelist" where
  "clear_slots fl i n =
     fl\<lparr>fl_discarded_num := uncount_discarded (take n (drop i (fl_frame_type fl))) (fl_discarded_num fl),
        fl_frame_type := fill (fl_frame_type fl) i n PJMEDIA_JB_MISSING_FRAME,
        fl_content_len := fill (fl_content_len fl) i n 0\<rparr>"

definition jb_framelist_remove_head :: "jb_framelist \<Rightarrow> nat \<Rightarrow> jb_framelist \<times> nat" where
  "jb_framelist_remove_head fl count0 =
     (let count = (if count0 > fl_size fl then fl_size fl else count0)
      in if count = 0 then (fl, count)
         else
           (let tmp = fl_head fl + count;
                step1 = (if tmp > fl_max_count fl then fl_max_count fl - fl_head fl else count);
                step2 = (if tmp > fl_max_count fl then count - step1 else 0);
                fl1 = clear_slots fl (fl_head fl) step1;
                fl2 = (if step2 \<noteq> 0 then clear_slots fl1 0 step2 else fl1)
            in (fl2\<lparr>fl_origin := fl_origin fl2 + int count,
                    fl_head := (fl_head fl2 + count) mod fl_max_count fl2,
                    fl_size := fl_size fl2 - count\<rparr>, count)))"

text \<open>The loop of \<^verbatim>\<open>jb_framelist_get\<close> that skips discarded frames, with its flag \<^verbatim>\<open>prev_discarded\<close>.\<close>

partial_function (option) skip_discarded :: "jb_framelist \<Rightarrow> bool \<Rightarrow> (jb_framelist \<times> bool) option" where
  "skip_discarded fl prev_discarded =
     (if fl_frame_type fl ! fl_head fl = PJMEDIA_JB_DISCARDED_FRAME
      then skip_discarded (fst (jb_framelist_remove_head fl 1)) True
      else Some (fl, prev_discarded))"

text \<open>
  What a read of a frame hands out: the bytes written into the caller's buffer (\<open>None\<close> when it is
  not touched), the frame type, the length, the bit information, the timestamp and the sequence.
\<close>

record jb_frame_out =
  out_frame :: "u8 list option"
  out_type :: jb_frame_type
  out_size :: nat
  out_bit_info :: u32
  out_ts :: u32
  out_seq :: int

text \<open>
  \<^verbatim>\<open>jb_framelist_get\<close>: \<open>buf_size\<close> is the caller's buffer size, \<open>None\<close> for a null pointer. The result is the new
  list and the frame, or \<open>Inl\<close> of the zeros written to the buffer when no frame is available.
\<close>

definition jb_framelist_get ::
    "jb_framelist \<Rightarrow> nat option \<Rightarrow> (jb_framelist \<times> (u8 list + jb_frame_out)) option" where
  "jb_framelist_get fl buf_size =
     (case (if fl_size fl \<noteq> 0 then skip_discarded fl False else Some (fl, False)) of
        None \<Rightarrow> None
      | Some (fl, prev_discarded) \<Rightarrow>
          if fl_size fl \<noteq> 0 then
            (let h = fl_head fl;
                 frm_size = fl_content_len fl ! h;
                 max_size = (case buf_size of Some s \<Rightarrow> s | None \<Rightarrow> frm_size);
                 copy_size = min max_size frm_size;
                 out = (if prev_discarded
                        then \<lparr>out_frame = None, out_type = PJMEDIA_JB_MISSING_FRAME, out_size = 0,
                              out_bit_info = 0, out_ts = fl_ts fl ! h, out_seq = fl_origin fl\<rparr>
                        else \<lparr>out_frame = Some (take copy_size (fl_content fl ! h)),
                              out_type = fl_frame_type fl ! h, out_size = copy_size,
                              out_bit_info = fl_bit_info fl ! h, out_ts = fl_ts fl ! h,
                              out_seq = fl_origin fl\<rparr>)
             in Some (fl\<lparr>fl_frame_type := (fl_frame_type fl)[h := PJMEDIA_JB_MISSING_FRAME],
                        fl_content_len := (fl_content_len fl)[h := 0],
                        fl_bit_info := (fl_bit_info fl)[h := 0],
                        fl_ts := (fl_ts fl)[h := 0],
                        fl_origin := fl_origin fl + 1,
                        fl_head := (h + 1) mod fl_max_count fl,
                        fl_size := fl_size fl - 1\<rparr>, Inr out))
          else Some (fl, Inl (replicate (fl_frame_size fl) 0)))"

text \<open>The search loop of \<^verbatim>\<open>jb_framelist_peek\<close>: the slot of the \<open>idx\<close>-th frame that is not discarded.\<close>

partial_function (option) peek_pos :: "jb_framelist \<Rightarrow> nat \<Rightarrow> nat \<Rightarrow> nat option" where
  "peek_pos fl pos idx =
     (if fl_frame_type fl ! pos \<noteq> PJMEDIA_JB_DISCARDED_FRAME
      then (if idx = 0 then Some pos else peek_pos fl ((pos + 1) mod fl_max_count fl) (idx - 1))
      else peek_pos fl ((pos + 1) mod fl_max_count fl) idx)"

declare skip_discarded.simps [code] peek_pos.simps [code]

definition jb_framelist_peek :: "jb_framelist \<Rightarrow> nat \<Rightarrow> jb_frame_out option option" where
  "jb_framelist_peek fl offset =
     (if offset \<ge> jb_framelist_eff_size fl then Some None
      else
        (case peek_pos fl (fl_head fl) offset of
           None \<Rightarrow> None
         | Some pos \<Rightarrow>
             Some (Some \<lparr>out_frame = Some (fl_content fl ! pos), out_type = fl_frame_type fl ! pos,
                         out_size = fl_content_len fl ! pos, out_bit_info = fl_bit_info fl ! pos,
                         out_ts = fl_ts fl ! pos, out_seq = fl_origin fl + int offset\<rparr>)))"

text \<open>
  \<^verbatim>\<open>jb_framelist_put_at\<close>, in the order of the source: the distance to the origin with its three
  repairs (\<open>put_distance\<close>, \<open>put_empty\<close>, \<open>put_far\<close>), then the store. A repair gives the list and the
  distance, or the status the function returns with.
\<close>

definition put_distance :: "jb_framelist \<Rightarrow> int \<Rightarrow> pj_status + jb_framelist \<times> int" where
  "put_distance fl index =
     (let distance = index - fl_origin fl
      in if distance < 0 then
           (if fl_origin fl - index < JB_MAX_MISORDER then Inl PJ_ETOOSMALL
            else if to_u32 (fl_origin fl + int (fl_size fl)) \<ge> MAX_FRAME_INDEX
            then Inr (fl\<lparr>fl_origin := to_s32 (to_u32 (index - int (fl_size fl)))\<rparr>, int (fl_size fl))
            else Inr ((jb_framelist_reset fl)\<lparr>fl_origin := index\<rparr>, 0))
         else Inr (fl, distance))"

definition put_empty :: "jb_framelist \<Rightarrow> int \<Rightarrow> int \<Rightarrow> jb_framelist \<times> int" where
  "put_empty fl index distance =
     (if fl_size fl = 0 then (fl\<lparr>fl_origin := index\<rparr>, 0) else (fl, distance))"

definition put_far :: "jb_framelist \<Rightarrow> int \<Rightarrow> int \<Rightarrow> pj_status + jb_framelist \<times> int" where
  "put_far fl index distance =
     (if distance \<ge> int (fl_max_count fl) then
        (if distance > JB_MAX_DROPOUT
         then Inr ((jb_framelist_reset fl)\<lparr>fl_origin := index\<rparr>, 0)
         else Inl PJ_ETOOMANY)
      else Inr (fl, distance))"

definition put_store ::
    "jb_framelist \<Rightarrow> int \<Rightarrow> int \<Rightarrow> u8 list \<Rightarrow> nat \<Rightarrow> u32 \<Rightarrow> u32 \<Rightarrow> jb_frame_type \<Rightarrow> pj_status \<times> jb_framelist" where
  "put_store fl index distance frame frame_size bit_info ts frame_type =
     (let pos = (fl_head fl + nat distance) mod fl_max_count fl
      in if fl_frame_type fl ! pos \<noteq> PJMEDIA_JB_MISSING_FRAME then (PJ_EEXISTS, fl)
         else
           (let fl = fl\<lparr>fl_frame_type := (fl_frame_type fl)[pos := frame_type],
                        fl_content_len := (fl_content_len fl)[pos := frame_size],
                        fl_bit_info := (fl_bit_info fl)[pos := bit_info],
                        fl_ts := (fl_ts fl)[pos := ts]\<rparr>;
                fl = (if fl_origin fl + int (fl_size fl) \<le> index
                      then fl\<lparr>fl_size := nat (distance + 1)\<rparr> else fl);
                fl = (if frame_type = PJMEDIA_JB_NORMAL_FRAME
                      then fl\<lparr>fl_content := (fl_content fl)
                               [pos := take frame_size frame @ drop frame_size (fl_content fl ! pos)]\<rparr>
                      else fl)
            in (PJ_SUCCESS, fl)))"

definition jb_framelist_put_at ::
    "jb_framelist \<Rightarrow> int \<Rightarrow> u8 list \<Rightarrow> nat \<Rightarrow> u32 \<Rightarrow> u32 \<Rightarrow> jb_frame_type \<Rightarrow> pj_status \<times> jb_framelist" where
  "jb_framelist_put_at fl index frame frame_size bit_info ts frame_type =
     (if frame_size > fl_frame_size fl then (PJ_EINVAL, fl)
      else
        (case put_distance fl index of
           Inl e \<Rightarrow> (e, fl)
         | Inr (fl1, d1) \<Rightarrow>
             (let (fl2, d2) = put_empty fl1 index d1
              in case put_far fl2 index d2 of
                   Inl e \<Rightarrow> (e, fl2)
                 | Inr (fl3, d3) \<Rightarrow> put_store fl3 index d3 frame frame_size bit_info ts frame_type)))"

definition jb_framelist_discard :: "jb_framelist \<Rightarrow> int \<Rightarrow> pj_status \<times> jb_framelist" where
  "jb_framelist_discard fl index =
     (if \<not> (index \<ge> fl_origin fl \<and> index < fl_origin fl + int (fl_size fl)) then (PJ_EINVAL, fl)
      else
        (let pos = (fl_head fl + nat (index - fl_origin fl)) mod fl_max_count fl
         in (PJ_SUCCESS,
             fl\<lparr>fl_frame_type := (fl_frame_type fl)[pos := PJMEDIA_JB_DISCARDED_FRAME],
                fl_discarded_num := fl_discarded_num fl + 1\<rparr>)))"

section \<open>The frames a list holds\<close>

text \<open>
  The abstract view: a slot is missing, discarded, or holds a frame (its bytes, bit information and
  timestamp); \<open>frames fl\<close> are the slots from the head on, in order, so its element \<open>i\<close> is the frame with index
  \<open>fl_origin fl + i\<close>. \<open>fl_inv\<close> is the representation invariant.
\<close>

datatype jframe = Missing | Discarded | Frame "u8 list" u32 u32

definition abs_slot :: "jb_framelist \<Rightarrow> nat \<Rightarrow> jframe" where
  "abs_slot fl p =
     (case fl_frame_type fl ! p of
        PJMEDIA_JB_MISSING_FRAME \<Rightarrow> Missing
      | PJMEDIA_JB_DISCARDED_FRAME \<Rightarrow> Discarded
      | _ \<Rightarrow> Frame (take (fl_content_len fl ! p) (fl_content fl ! p)) (fl_bit_info fl ! p) (fl_ts fl ! p))"

abbreviation fl_pos :: "jb_framelist \<Rightarrow> nat \<Rightarrow> nat" where
  "fl_pos fl i \<equiv> ring_pos (fl_max_count fl) (fl_head fl) i"

definition frames :: "jb_framelist \<Rightarrow> jframe list" where
  "frames fl = map (\<lambda>i. abs_slot fl (fl_pos fl i)) [0..<fl_size fl]"

definition fl_arrays :: "jb_framelist \<Rightarrow> bool" where
  "fl_arrays fl \<longleftrightarrow> 0 < fl_max_count fl \<and> fl_max_count fl < 2 ^ 31
     \<and> length (fl_content fl) = fl_max_count fl \<and> length (fl_frame_type fl) = fl_max_count fl
     \<and> length (fl_content_len fl) = fl_max_count fl \<and> length (fl_bit_info fl) = fl_max_count fl
     \<and> length (fl_ts fl) = fl_max_count fl
     \<and> (\<forall>c \<in> set (fl_content fl). length c = fl_frame_size fl)"

definition fl_inv :: "jb_framelist \<Rightarrow> bool" where
  "fl_inv fl \<longleftrightarrow> fl_arrays fl \<and> fl_head fl < fl_max_count fl \<and> fl_size fl \<le> fl_max_count fl
     \<and> (\<forall>l \<in> set (fl_content_len fl). l \<le> fl_frame_size fl)
     \<and> set (fl_frame_type fl) \<subseteq>
         {PJMEDIA_JB_MISSING_FRAME, PJMEDIA_JB_NORMAL_FRAME, PJMEDIA_JB_DISCARDED_FRAME}
     \<and> (\<forall>p < fl_max_count fl. fl_frame_type fl ! p = PJMEDIA_JB_MISSING_FRAME \<longrightarrow> fl_content_len fl ! p = 0)
     \<and> (\<forall>i. fl_size fl \<le> i \<and> i < fl_max_count fl \<longrightarrow>
           fl_frame_type fl ! fl_pos fl i = PJMEDIA_JB_MISSING_FRAME)
     \<and> fl_discarded_num fl = count_list (frames fl) Discarded"

lemma length_frames [simp]: "length (frames fl) = fl_size fl"
  by (simp add: frames_def)

lemma frames_Nil: "frames fl = [] \<longleftrightarrow> fl_size fl = 0"
  by (simp add: frames_def)

lemma nth_frames: "i < fl_size fl \<Longrightarrow> frames fl ! i = abs_slot fl (fl_pos fl i)"
  by (simp add: frames_def)

lemma abs_slot_Missing [simp]:
  "abs_slot fl p = Missing \<longleftrightarrow> fl_frame_type fl ! p = PJMEDIA_JB_MISSING_FRAME"
  by (simp add: abs_slot_def split: jb_frame_type.split)

lemma abs_slot_Discarded [simp]:
  "abs_slot fl p = Discarded \<longleftrightarrow> fl_frame_type fl ! p = PJMEDIA_JB_DISCARDED_FRAME"
  by (simp add: abs_slot_def split: jb_frame_type.split)

lemma abs_slot_eqI:
  assumes "fl_frame_type fl ! p = fl_frame_type fl' ! q" "fl_content_len fl ! p = fl_content_len fl' ! q"
    "fl_content fl ! p = fl_content fl' ! q" "fl_bit_info fl ! p = fl_bit_info fl' ! q"
    "fl_ts fl ! p = fl_ts fl' ! q"
  shows "abs_slot fl p = abs_slot fl' q"
  using assms unfolding abs_slot_def by presburger

lemma length_fill [simp]: "i + n \<le> length xs \<Longrightarrow> length (fill xs i n v) = length xs"
  by (simp add: fill_def)

lemma nth_fill: "i + n \<le> length xs \<Longrightarrow> p < length xs \<Longrightarrow>
    fill xs i n v ! p = (if i \<le> p \<and> p < i + n then v else xs ! p)"
  by (auto simp: fill_def nth_append min_def)

lemma fill_one: "i < length xs \<Longrightarrow> fill xs i (Suc 0) v = xs[i := v]"
  by (simp add: fill_def upd_conv_take_nth_drop)

lemma set_fill: "set (fill xs i n v) \<subseteq> insert v (set xs)"
  by (auto simp: fill_def dest: in_set_takeD in_set_dropD)

lemma fill_all: "length xs = n \<Longrightarrow> fill xs 0 n v = replicate n v"
  by (simp add: fill_def)

lemma uncount_discarded_eq:
  assumes "count_list ts PJMEDIA_JB_DISCARDED_FRAME \<le> d" and "d < 2 ^ 32"
  shows "uncount_discarded ts d = d - count_list ts PJMEDIA_JB_DISCARDED_FRAME"
  using assms
proof (induction ts arbitrary: d)
  case (Cons t ts)
  then show ?case by (cases "t = PJMEDIA_JB_DISCARDED_FRAME") (auto simp: u32_sub_le)
qed simp

lemma uncount_append: "uncount_discarded (xs @ ys) d = uncount_discarded ys (uncount_discarded xs d)"
  by (induction xs arbitrary: d) auto

section \<open>Removing\<close>

lemma clear_slots_0 [simp]: "clear_slots fl i 0 = fl"
  by (simp add: clear_slots_def fill_def)

text \<open>
  The window that is removed is a piece of \<open>a\<close> slots from the head and a piece of \<open>b\<close> slots from
  slot 0, the second empty unless the first reaches the end of the ring.
\<close>

lemma remove_head_pieces:
  assumes "fl_head fl < fl_max_count fl" "fl_size fl \<le> fl_max_count fl" and "n \<le> fl_size fl"
  obtains a b where "a + b = n" "fl_head fl + a \<le> fl_max_count fl" "b \<le> fl_head fl"
    "b = 0 \<or> fl_head fl + a = fl_max_count fl"
    "jb_framelist_remove_head fl n =
       ((clear_slots (clear_slots fl (fl_head fl) a) 0 b)
          \<lparr>fl_origin := fl_origin fl + int n, fl_head := (fl_head fl + n) mod fl_max_count fl,
           fl_size := fl_size fl - n\<rparr>, n)"
proof (cases "fl_head fl + n > fl_max_count fl")
  case True
  show thesis
    by (rule that [of "fl_max_count fl - fl_head fl" "n - (fl_max_count fl - fl_head fl)"])
      (use True assms in \<open>auto simp: jb_framelist_remove_head_def Let_def clear_slots_def\<close>)
next
  case False
  show thesis
    by (rule that [of n 0])
      (use False assms in \<open>auto simp: jb_framelist_remove_head_def Let_def clear_slots_def fill_def\<close>)
qed

lemma remove_head_saturate:
  "jb_framelist_remove_head fl n = jb_framelist_remove_head fl (min n (fl_size fl))"
  by (simp add: jb_framelist_remove_head_def)

lemma remove_head_fields:
  "snd (jb_framelist_remove_head fl n) = min n (fl_size fl)"
  "fl_size (fst (jb_framelist_remove_head fl n)) = fl_size fl - min n (fl_size fl)"
  "fl_origin (fst (jb_framelist_remove_head fl n)) = fl_origin fl + int (min n (fl_size fl))"
  "fl_max_count (fst (jb_framelist_remove_head fl n)) = fl_max_count fl"
  "fl_frame_size (fst (jb_framelist_remove_head fl n)) = fl_frame_size fl"
  "fl_content (fst (jb_framelist_remove_head fl n)) = fl_content fl"
  "fl_bit_info (fst (jb_framelist_remove_head fl n)) = fl_bit_info fl"
  "fl_ts (fst (jb_framelist_remove_head fl n)) = fl_ts fl"
  by (simp_all add: jb_framelist_remove_head_def clear_slots_def Let_def)

lemma clear_slots_sets:
  "set (fl_frame_type (clear_slots fl i n)) \<subseteq> insert PJMEDIA_JB_MISSING_FRAME (set (fl_frame_type fl))"
  "set (fl_content_len (clear_slots fl i n)) \<subseteq> insert 0 (set (fl_content_len fl))"
  by (simp_all add: clear_slots_def set_fill)

lemma clear_slots_arrays:
  assumes "fl_arrays fl" and "i + n \<le> fl_max_count fl"
  shows "fl_arrays (clear_slots fl i n)"
  using assms by (simp add: fl_arrays_def clear_slots_def)

text \<open>What \<^verbatim>\<open>jb_framelist_remove_head\<close> leaves in each slot, position by position.\<close>

lemma remove_head_slots:
  assumes a: "fl_arrays fl" "fl_head fl < fl_max_count fl" "fl_size fl \<le> fl_max_count fl"
    and n: "n \<le> fl_size fl" and i: "i < fl_max_count fl"
  shows "fl_frame_type (fst (jb_framelist_remove_head fl n)) ! fl_pos fl i
      = (if i < n then PJMEDIA_JB_MISSING_FRAME else fl_frame_type fl ! fl_pos fl i)"
    and "fl_content_len (fst (jb_framelist_remove_head fl n)) ! fl_pos fl i
      = (if i < n then 0 else fl_content_len fl ! fl_pos fl i)"
proof -
  obtain a b where ab: "a + b = n" "fl_head fl + a \<le> fl_max_count fl" "b \<le> fl_head fl"
    "b = 0 \<or> fl_head fl + a = fl_max_count fl"
    "jb_framelist_remove_head fl n =
       ((clear_slots (clear_slots fl (fl_head fl) a) 0 b)
          \<lparr>fl_origin := fl_origin fl + int n, fl_head := (fl_head fl + n) mod fl_max_count fl,
           fl_size := fl_size fl - n\<rparr>, n)"
    using remove_head_pieces [OF a(2,3) n] .
  have p: "fl_pos fl i < fl_max_count fl" using a(2) by simp
  have w: "i < n \<longleftrightarrow> fl_head fl \<le> fl_pos fl i \<and> fl_pos fl i < fl_head fl + a \<or> fl_pos fl i < b"
    using ab(1-4) a(2) i by (cases "fl_head fl + i < fl_max_count fl") (auto simp: ring_pos_if)
  have len: "length (fl_frame_type fl) = fl_max_count fl" "length (fl_content_len fl) = fl_max_count fl"
    using a(1) by (simp_all add: fl_arrays_def)
  show "fl_frame_type (fst (jb_framelist_remove_head fl n)) ! fl_pos fl i
      = (if i < n then PJMEDIA_JB_MISSING_FRAME else fl_frame_type fl ! fl_pos fl i)"
    unfolding ab(5) w using ab(2,3) len p a(2) by (simp add: clear_slots_def nth_fill)
  show "fl_content_len (fst (jb_framelist_remove_head fl n)) ! fl_pos fl i
      = (if i < n then 0 else fl_content_len fl ! fl_pos fl i)"
    unfolding ab(5) w using ab(2,3) len p a(2) by (simp add: clear_slots_def nth_fill)
qed

text \<open>The discarded frames of the window are uncounted.\<close>

lemma remove_head_discarded:
  assumes a: "fl_arrays fl" "fl_head fl < fl_max_count fl" "fl_size fl \<le> fl_max_count fl"
    and n: "n \<le> fl_size fl"
  shows "fl_discarded_num (fst (jb_framelist_remove_head fl n)) =
    uncount_discarded (map (\<lambda>i. fl_frame_type fl ! fl_pos fl i) [0..<n]) (fl_discarded_num fl)"
proof -
  obtain a b where ab: "a + b = n" "fl_head fl + a \<le> fl_max_count fl" "b \<le> fl_head fl"
    "b = 0 \<or> fl_head fl + a = fl_max_count fl"
    "jb_framelist_remove_head fl n =
       ((clear_slots (clear_slots fl (fl_head fl) a) 0 b)
          \<lparr>fl_origin := fl_origin fl + int n, fl_head := (fl_head fl + n) mod fl_max_count fl,
           fl_size := fl_size fl - n\<rparr>, n)"
    using remove_head_pieces [OF a(2,3) n] .
  have len: "length (fl_frame_type fl) = fl_max_count fl" using a(1) by (simp add: fl_arrays_def)
  have k: "n \<le> fl_max_count fl" using n a(3) by simp
  have "take a (drop (fl_head fl) (fl_frame_type fl)) @ take b (fl_frame_type fl)
      = map (\<lambda>i. fl_frame_type fl ! fl_pos fl i) [0..<n]"
  proof (cases "b = 0")
    case True
    with ring_window_pieces [OF a(2) k len] ab(1,2) show ?thesis by simp
  next
    case False
    then have "fl_max_count fl - fl_head fl = a" "n - a = b" "fl_head fl + n > fl_max_count fl"
      using ab(1-4) by linarith+
    with ring_window_pieces [OF a(2) k len] show ?thesis by simp
  qed
  moreover have "take b (fill (fl_frame_type fl) (fl_head fl) a PJMEDIA_JB_MISSING_FRAME)
      = take b (fl_frame_type fl)"
    using ab(2,3) len by (simp add: fill_def min_def)
  ultimately show ?thesis
    unfolding ab(5) by (simp add: clear_slots_def flip: uncount_append)
qed

lemma remove_head_inv_aux:
  assumes "fl_arrays fl" "fl_head fl < fl_max_count fl" "fl_size fl \<le> fl_max_count fl"
    and n: "n \<le> fl_size fl"
  shows "fl_arrays (fst (jb_framelist_remove_head fl n))"
    and "fl_head (fst (jb_framelist_remove_head fl n)) = (fl_head fl + n) mod fl_max_count fl"
    and "set (fl_frame_type (fst (jb_framelist_remove_head fl n)))
          \<subseteq> insert PJMEDIA_JB_MISSING_FRAME (set (fl_frame_type fl))"
    and "set (fl_content_len (fst (jb_framelist_remove_head fl n))) \<subseteq> insert 0 (set (fl_content_len fl))"
proof -
  obtain a b where ab: "a + b = n" "fl_head fl + a \<le> fl_max_count fl" "b \<le> fl_head fl"
    "b = 0 \<or> fl_head fl + a = fl_max_count fl"
    "jb_framelist_remove_head fl n =
       ((clear_slots (clear_slots fl (fl_head fl) a) 0 b)
          \<lparr>fl_origin := fl_origin fl + int n, fl_head := (fl_head fl + n) mod fl_max_count fl,
           fl_size := fl_size fl - n\<rparr>, n)"
    using remove_head_pieces [OF assms(2,3) n] .
  let ?c = "clear_slots fl (fl_head fl) a"
  have c: "fl_arrays ?c" by (rule clear_slots_arrays) (use assms ab in auto)
  have m: "fl_max_count ?c = fl_max_count fl" by (simp add: clear_slots_def)
  have "fl_arrays (clear_slots ?c 0 b)" by (rule clear_slots_arrays [OF c]) (use ab assms m in auto)
  then show "fl_arrays (fst (jb_framelist_remove_head fl n))" unfolding ab(5) by (simp add: fl_arrays_def)
  show "fl_head (fst (jb_framelist_remove_head fl n)) = (fl_head fl + n) mod fl_max_count fl"
    unfolding ab(5) by simp
  show "set (fl_frame_type (fst (jb_framelist_remove_head fl n)))
          \<subseteq> insert PJMEDIA_JB_MISSING_FRAME (set (fl_frame_type fl))"
    unfolding ab(5) using clear_slots_sets(1) [of ?c 0 b] clear_slots_sets(1) [of fl "fl_head fl" a] by auto
  show "set (fl_content_len (fst (jb_framelist_remove_head fl n))) \<subseteq> insert 0 (set (fl_content_len fl))"
    unfolding ab(5) using clear_slots_sets(2) [of ?c 0 b] clear_slots_sets(2) [of fl "fl_head fl" a] by auto
qed

text \<open>The frames behind the removed ones keep their slots, so the list loses its first \<open>n\<close> elements.\<close>

lemma fl_inv_basic:
  assumes "fl_inv fl"
  shows "fl_arrays fl" "fl_head fl < fl_max_count fl" "fl_size fl \<le> fl_max_count fl"
    "fl_max_count fl < 2 ^ 31" "0 < fl_max_count fl"
  using assms by (auto simp: fl_inv_def fl_arrays_def)

lemma remove_head_frames_le:
  assumes inv: "fl_inv fl" and n: "n \<le> fl_size fl"
  shows "frames (fst (jb_framelist_remove_head fl n)) = drop n (frames fl)"
proof (rule nth_equalityI)
  show "length (frames (fst (jb_framelist_remove_head fl n))) = length (drop n (frames fl))"
    using n by (simp add: remove_head_fields)
  note b = fl_inv_basic [OF inv]
  fix i assume "i < length (frames (fst (jb_framelist_remove_head fl n)))"
  then have i: "i + n < fl_size fl" "i < fl_size (fst (jb_framelist_remove_head fl n))"
    using n by (simp_all add: remove_head_fields)
  let ?g = "fst (jb_framelist_remove_head fl n)"
  have pos: "fl_pos ?g i = fl_pos fl (i + n)"
    using remove_head_inv_aux(2) [OF b(1-3) n] by (simp add: remove_head_fields ring_pos_advance)
  have "i + n < fl_max_count fl" using i b by simp
  from remove_head_slots [OF b(1-3) n this]
  have "abs_slot ?g (fl_pos ?g i) = abs_slot fl (fl_pos fl (i + n))"
    unfolding pos by (intro abs_slot_eqI) (simp_all add: remove_head_fields)
  then show "frames ?g ! i = drop n (frames fl) ! i"
    using i by (simp add: nth_frames ac_simps)
qed

lemma frame_types_window:
  "count_list (map (\<lambda>i. fl_frame_type fl ! fl_pos fl i) [0..<n]) PJMEDIA_JB_DISCARDED_FRAME
   = count_list (map (\<lambda>i. abs_slot fl (fl_pos fl i)) [0..<n]) Discarded"
  by (induction n) auto

lemma take_frames: "n \<le> fl_size fl \<Longrightarrow> take n (frames fl) = map (\<lambda>i. abs_slot fl (fl_pos fl i)) [0..<n]"
  by (simp add: frames_def take_map)

lemma discarded_num_le: "fl_inv fl \<Longrightarrow> fl_discarded_num fl \<le> fl_size fl"
  unfolding fl_inv_def by (metis count_le_length length_frames)

lemma remove_head_inv_le:
  assumes inv: "fl_inv fl" and n: "n \<le> fl_size fl"
  shows "fl_inv (fst (jb_framelist_remove_head fl n))"
proof -
  note b = fl_inv_basic [OF inv]
  note aux = remove_head_inv_aux [OF b(1-3) n]
  let ?g = "fst (jb_framelist_remove_head fl n)"
  have "count_list (take n (frames fl)) Discarded + count_list (drop n (frames fl)) Discarded
      = fl_discarded_num fl"
    using inv by (metis append_take_drop_id count_list_append fl_inv_def)
  moreover have "fl_discarded_num fl < 2 ^ 32"
    using discarded_num_le [OF inv] b(3,4) by simp
  ultimately have "fl_discarded_num ?g = count_list (drop n (frames fl)) Discarded"
    unfolding remove_head_discarded [OF b(1-3) n]
    by (subst uncount_discarded_eq) (auto simp: frame_types_window take_frames [OF n, symmetric])
  moreover have "fl_frame_type ?g ! fl_pos ?g i = PJMEDIA_JB_MISSING_FRAME"
    if i: "fl_size ?g \<le> i" "i < fl_max_count ?g" for i
  proof -
    have pos: "fl_pos ?g i = fl_pos fl (i + n)"
      using aux(2) by (simp add: remove_head_fields ring_pos_advance)
    have i': "fl_size fl \<le> i + n" "i < fl_max_count fl" using i n by (simp_all add: remove_head_fields)
    show ?thesis
    proof (cases "i + n < fl_max_count fl")
      case True
      with i' inv remove_head_slots(1) [OF b(1-3) n True] show ?thesis
        unfolding pos by (auto simp: fl_inv_def)
    next
      case False
      then have "i + n - fl_max_count fl < n" "i + n - fl_max_count fl < fl_max_count fl"
        using i' n b(3) by simp_all
      with False remove_head_slots(1) [OF b(1-3) n, of "i + n - fl_max_count fl"] show ?thesis
        unfolding pos by (subst ring_pos_wrap) simp_all
    qed
  qed
  moreover have "fl_content_len ?g ! p = 0"
    if p: "p < fl_max_count ?g" "fl_frame_type ?g ! p = PJMEDIA_JB_MISSING_FRAME" for p
  proof -
    from p have "p < fl_max_count fl" by (simp add: remove_head_fields)
    then obtain i where i: "i < fl_max_count fl" "fl_pos fl i = p"
      by (rule ring_pos_surj [OF b(2)])
    with p remove_head_slots [OF b(1-3) n i(1)] inv show ?thesis
      by (auto simp: fl_inv_def remove_head_fields split: if_splits)
  qed
  moreover have "\<forall>l \<in> set (fl_content_len ?g). l \<le> fl_frame_size ?g"
    using aux(4) inv by (fastforce simp: fl_inv_def remove_head_fields)
  moreover have "set (fl_frame_type ?g) \<subseteq>
      {PJMEDIA_JB_MISSING_FRAME, PJMEDIA_JB_NORMAL_FRAME, PJMEDIA_JB_DISCARDED_FRAME}"
    using aux(3) inv by (auto simp: fl_inv_def)
  ultimately show ?thesis
    unfolding fl_inv_def [of ?g] remove_head_frames_le [OF inv n]
    using aux(1,2) b by (simp add: remove_head_fields)
qed

text \<open>
  \<^verbatim>\<open>jb_framelist_remove_head\<close> drops frames from the front of the list, keeps the invariant and
  returns how many it dropped.
\<close>

lemma remove_head_spec:
  assumes "fl_inv fl"
  shows "fl_inv (fst (jb_framelist_remove_head fl n))"
    and "frames (fst (jb_framelist_remove_head fl n)) = drop n (frames fl)"
    and "fl_origin (fst (jb_framelist_remove_head fl n)) = fl_origin fl + int (min n (fl_size fl))"
    and "snd (jb_framelist_remove_head fl n) = min n (fl_size fl)"
proof -
  have le: "min n (fl_size fl) \<le> fl_size fl" by simp
  show "fl_inv (fst (jb_framelist_remove_head fl n))"
    by (subst remove_head_saturate) (rule remove_head_inv_le [OF assms le])
  show "frames (fst (jb_framelist_remove_head fl n)) = drop n (frames fl)"
    using remove_head_frames_le [OF assms le]
    by (metis drop_all length_frames min.absorb1 min.absorb2 nle_le order_refl remove_head_saturate)
qed (simp_all add: remove_head_fields)

section \<open>Resetting\<close>

lemma reset_spec:
  assumes "fl_arrays fl"
  shows "fl_inv (jb_framelist_reset fl)" "frames (jb_framelist_reset fl) = []"
    "fl_origin (jb_framelist_reset fl) = INVALID_OFFSET"
  using assms by (auto simp: fl_inv_def fl_arrays_def jb_framelist_reset_def frames_def fill_all
      ring_pos_def in_set_replicate)

lemma abs_slot_origin [simp]: "abs_slot (fl\<lparr>fl_origin := k\<rparr>) p = abs_slot fl p"
  by (rule abs_slot_eqI) simp_all

lemma frames_origin [simp]: "frames (fl\<lparr>fl_origin := k\<rparr>) = frames fl"
  by (simp add: frames_def)

lemma fl_inv_origin [simp]: "fl_inv (fl\<lparr>fl_origin := k\<rparr>) = fl_inv fl"
  by (simp add: fl_inv_def fl_arrays_def)

section \<open>Reading\<close>

lemma head_type:
  assumes "fl_inv fl"
  shows "fl_frame_type fl ! fl_head fl = PJMEDIA_JB_DISCARDED_FRAME \<longleftrightarrow>
    frames fl \<noteq> [] \<and> hd (frames fl) = Discarded"
proof (cases "fl_size fl = 0")
  case True
  with assms have "fl_frame_type fl ! fl_head fl = PJMEDIA_JB_MISSING_FRAME"
    using fl_inv_basic(2,5) [OF assms] unfolding fl_inv_def by (metis le0 ring_pos_0)
  with True show ?thesis by (simp add: frames_def)
next
  case False
  then have "hd (frames fl) = abs_slot fl (fl_head fl)"
    using fl_inv_basic(2) [OF assms] by (simp add: hd_conv_nth nth_frames frames_Nil)
  with False show ?thesis by (simp add: frames_Nil)
qed

text \<open>
  The loop that skips discarded frames ends, at the first frame that is not discarded. \<open>fl_same\<close>: the
  two lists have the same capacity and slot size.
\<close>

definition fl_same :: "jb_framelist \<Rightarrow> jb_framelist \<Rightarrow> bool" where
  "fl_same fl fl' \<longleftrightarrow> fl_max_count fl' = fl_max_count fl \<and> fl_frame_size fl' = fl_frame_size fl"

lemma fl_same_refl [simp]: "fl_same fl fl"
  by (simp add: fl_same_def)

lemma fl_same_trans [trans]: "fl_same a b \<Longrightarrow> fl_same b c \<Longrightarrow> fl_same a c"
  by (simp add: fl_same_def)

lemma remove_head_same [simp]: "fl_same fl (fst (jb_framelist_remove_head fl n))"
  by (simp add: fl_same_def remove_head_fields)

lemma skip_discarded_spec:
  assumes "fl_inv fl"
  shows "\<exists>fl'. skip_discarded fl prev = Some (fl', prev \<or> (frames fl \<noteq> [] \<and> hd (frames fl) = Discarded))
    \<and> fl_inv fl' \<and> frames fl' = dropWhile (\<lambda>f. f = Discarded) (frames fl)
    \<and> fl_origin fl' = fl_origin fl + int (length (takeWhile (\<lambda>f. f = Discarded) (frames fl)))
    \<and> fl_same fl fl'"
  using assms
proof (induction "fl_size fl" arbitrary: fl prev)
  case 0
  then have "frames fl = []" by (simp add: frames_Nil)
  with 0 show ?case by (subst skip_discarded.simps) (simp add: head_type)
next
  case (Suc k)
  let ?g = "fst (jb_framelist_remove_head fl 1)"
  from Suc.hyps(2) obtain x xs where xs: "frames fl = x # xs"
    by (metis length_Suc_conv length_frames)
  note r = remove_head_spec [OF Suc.prems, of 1]
  show ?case
  proof (cases "x = Discarded")
    case True
    have "k = fl_size ?g" using Suc.hyps(2) by (simp add: remove_head_fields)
    from Suc.hyps(1) [OF this r(1), of True] obtain fl' where
      fl': "skip_discarded ?g True = Some (fl', True)" "fl_inv fl'"
      "frames fl' = dropWhile (\<lambda>f. f = Discarded) xs"
      "fl_origin fl' = fl_origin ?g + int (length (takeWhile (\<lambda>f. f = Discarded) xs))" "fl_same ?g fl'"
      using r(2) xs by auto
    have "skip_discarded fl prev = Some (fl', True)"
      using fl'(1) xs True Suc.prems by (subst skip_discarded.simps) (simp add: head_type)
    moreover have "fl_same fl fl'" using fl_same_trans [OF remove_head_same fl'(5)] .
    ultimately show ?thesis using fl'(2-4) r(3) xs True Suc.hyps(2) by simp
  next
    case False
    with xs Suc.prems show ?thesis by (subst skip_discarded.simps) (simp add: head_type)
  qed
qed

text \<open>Taking the head frame away is \<^verbatim>\<open>jb_framelist_remove_head\<close> of one frame, but for two cleared fields.\<close>

lemma fl_inv_info:
  assumes "fl_inv fl" and "length bi = fl_max_count fl" and "length ts = fl_max_count fl"
    and "\<And>i. i < fl_size fl \<Longrightarrow> bi ! fl_pos fl i = fl_bit_info fl ! fl_pos fl i \<and> ts ! fl_pos fl i = fl_ts fl ! fl_pos fl i"
  shows "fl_inv (fl\<lparr>fl_bit_info := bi, fl_ts := ts\<rparr>)"
    and "frames (fl\<lparr>fl_bit_info := bi, fl_ts := ts\<rparr>) = frames fl"
proof -
  show eq: "frames (fl\<lparr>fl_bit_info := bi, fl_ts := ts\<rparr>) = frames fl"
    unfolding frames_def using assms(4) by (auto intro!: map_cong abs_slot_eqI)
  then show "fl_inv (fl\<lparr>fl_bit_info := bi, fl_ts := ts\<rparr>)"
    using assms(1-3) unfolding fl_inv_def eq by (simp add: fl_arrays_def)
qed

lemma take_head_spec:
  assumes inv: "fl_inv fl" and ne: "frames fl \<noteq> []" and hd: "hd (frames fl) \<noteq> Discarded"
  defines "g \<equiv> fl\<lparr>fl_frame_type := (fl_frame_type fl)[fl_head fl := PJMEDIA_JB_MISSING_FRAME],
        fl_content_len := (fl_content_len fl)[fl_head fl := 0],
        fl_bit_info := (fl_bit_info fl)[fl_head fl := 0],
        fl_ts := (fl_ts fl)[fl_head fl := 0],
        fl_origin := fl_origin fl + 1,
        fl_head := (fl_head fl + 1) mod fl_max_count fl,
        fl_size := fl_size fl - 1\<rparr>"
  shows "fl_inv g" "frames g = tl (frames fl)" "fl_origin g = fl_origin fl + 1" "fl_same fl g"
proof -
  note b = fl_inv_basic [OF inv]
  let ?r = "fst (jb_framelist_remove_head fl 1)"
  have size: "0 < fl_size fl" using ne by (simp flip: length_greater_0_conv)
  have len: "length (fl_frame_type fl) = fl_max_count fl" "length (fl_content_len fl) = fl_max_count fl"
    using b(1) by (simp_all add: fl_arrays_def)
  have "fl_frame_type fl ! fl_head fl \<noteq> PJMEDIA_JB_DISCARDED_FRAME"
    using head_type [OF inv] ne hd by simp
  then have g: "g = ?r\<lparr>fl_bit_info := (fl_bit_info fl)[fl_head fl := 0], fl_ts := (fl_ts fl)[fl_head fl := 0]\<rparr>"
    unfolding g_def using size b(2) len
    by (simp add: jb_framelist_remove_head_def clear_slots_def fill_one take_Suc hd_drop_conv_nth)
  note r = remove_head_spec [OF inv, of 1]
  have "(fl_bit_info fl)[fl_head fl := 0] ! fl_pos ?r i = fl_bit_info ?r ! fl_pos ?r i \<and>
      (fl_ts fl)[fl_head fl := 0] ! fl_pos ?r i = fl_ts ?r ! fl_pos ?r i" if "i < fl_size ?r" for i
  proof -
    have "fl_pos ?r i = fl_pos fl (i + 1)"
      using remove_head_inv_aux(2) [OF b(1-3), of 1] size ring_pos_advance [of "fl_max_count fl" "fl_head fl" 1 i]
      by (simp add: remove_head_fields)
    moreover have "i + 1 < fl_max_count fl" using that b(3) by (simp add: remove_head_fields)
    then have "fl_pos fl (i + 1) \<noteq> fl_head fl"
      using ring_pos_inj [OF b(2), of "i + 1" 0] b(2,5) by simp
    ultimately show ?thesis by (simp add: remove_head_fields)
  qed
  note info = fl_inv_info [OF r(1) _ _ this]
  show "fl_inv g" "frames g = tl (frames fl)"
    unfolding g using b(1) r(2) info by (simp_all add: remove_head_fields fl_arrays_def drop_Suc)
  show "fl_origin g = fl_origin fl + 1" "fl_same fl g" by (simp_all add: g_def fl_same_def)
qed


text \<open>
  What a caller with a buffer of \<open>buf\<close> bytes reads of the frame \<open>f\<close> with sequence \<open>seq\<close>: nothing for a missing
  frame, and otherwise the bytes that fit.
\<close>

definition reads_as :: "nat option \<Rightarrow> jframe \<Rightarrow> int \<Rightarrow> jb_frame_out \<Rightarrow> bool" where
  "reads_as buf f seq out \<longleftrightarrow> out_seq out = seq \<and>
     (case f of
        Frame bytes bi ts \<Rightarrow>
          out_type out = PJMEDIA_JB_NORMAL_FRAME
          \<and> out_size out = (case buf of None \<Rightarrow> length bytes | Some s \<Rightarrow> min s (length bytes))
          \<and> out_frame out = Some (take (out_size out) bytes) \<and> out_bit_info out = bi \<and> out_ts out = ts
      | _ \<Rightarrow> out_type out = PJMEDIA_JB_MISSING_FRAME \<and> out_size out = 0)"

lemma slot_cases:
  assumes "fl_inv fl" and "p < fl_max_count fl" and "abs_slot fl p \<noteq> Discarded"
  obtains "abs_slot fl p = Missing" "fl_frame_type fl ! p = PJMEDIA_JB_MISSING_FRAME" "fl_content_len fl ! p = 0"
  | "abs_slot fl p = Frame (take (fl_content_len fl ! p) (fl_content fl ! p)) (fl_bit_info fl ! p) (fl_ts fl ! p)"
    "fl_frame_type fl ! p = PJMEDIA_JB_NORMAL_FRAME"
    "length (take (fl_content_len fl ! p) (fl_content fl ! p)) = fl_content_len fl ! p"
proof -
  have "fl_frame_type fl ! p \<in> {PJMEDIA_JB_MISSING_FRAME, PJMEDIA_JB_NORMAL_FRAME, PJMEDIA_JB_DISCARDED_FRAME}"
    using assms(1,2) unfolding fl_inv_def fl_arrays_def by (metis nth_mem subsetD)
  moreover have "fl_frame_type fl ! p = PJMEDIA_JB_MISSING_FRAME \<Longrightarrow> fl_content_len fl ! p = 0"
    using assms(1,2) unfolding fl_inv_def by blast
  moreover have "length (take (fl_content_len fl ! p) (fl_content fl ! p)) = fl_content_len fl ! p"
    using assms(1,2) unfolding fl_inv_def fl_arrays_def by (metis length_take min.absorb2 nth_mem)
  ultimately show thesis using that assms(3) by (auto simp: abs_slot_def)
qed

lemma slot_reads_as:
  assumes "fl_inv fl" and "p < fl_max_count fl" and "abs_slot fl p \<noteq> Discarded"
    and "c = min (case buf of Some s \<Rightarrow> s | None \<Rightarrow> fl_content_len fl ! p) (fl_content_len fl ! p)"
  shows "reads_as buf (abs_slot fl p) seq
    \<lparr>out_frame = Some (take c (fl_content fl ! p)), out_type = fl_frame_type fl ! p,
     out_size = c, out_bit_info = fl_bit_info fl ! p, out_ts = fl_ts fl ! p, out_seq = seq\<rparr>"
  by (rule slot_cases [OF assms(1-3)]; cases buf) (simp_all add: reads_as_def assms(4) del: abs_slot_Missing)

text \<open>
  \<^verbatim>\<open>jb_framelist_get\<close> always returns. It drops the discarded frames at the head; the frame behind them
  is handed out as a missing one when any was dropped, as it is otherwise.
\<close>

definition get_spec :: "jb_framelist \<Rightarrow> nat option \<Rightarrow> jb_framelist \<Rightarrow> (u8 list + jb_frame_out) \<Rightarrow> bool" where
  "get_spec fl buf fl' r \<longleftrightarrow>
     (let k = length (takeWhile (\<lambda>f. f = Discarded) (frames fl))
      in case drop k (frames fl) of
           [] \<Rightarrow> frames fl' = [] \<and> fl_origin fl' = fl_origin fl + int k \<and> r = Inl (replicate (fl_frame_size fl) 0)
         | y # ys \<Rightarrow> frames fl' = ys \<and> fl_origin fl' = fl_origin fl + int k + 1
             \<and> (\<exists>out. r = Inr out \<and> reads_as buf (if 0 < k then Missing else y) (fl_origin fl + int k) out))"

lemma framelist_get_spec:
  assumes inv: "fl_inv fl"
  shows "\<exists>fl' r. jb_framelist_get fl buf = Some (fl', r) \<and> fl_inv fl' \<and> fl_same fl fl' \<and> get_spec fl buf fl' r"
proof -
  define k where "k = length (takeWhile (\<lambda>f. f = Discarded) (frames fl))"
  obtain g where g: "skip_discarded fl False = Some (g, 0 < k)" "fl_inv g" "frames g = drop k (frames fl)"
    "fl_origin g = fl_origin fl + int k" "fl_same fl g"
  proof -
    have "(False \<or> frames fl \<noteq> [] \<and> hd (frames fl) = Discarded) = (0 < k)"
      unfolding k_def by (cases "frames fl") simp_all
    then show thesis
      using skip_discarded_spec [OF inv, of False] that by (metis dropWhile_eq_drop k_def)
  qed
  show ?thesis
  proof (cases "fl_size fl = 0")
    case True
    then have "frames fl = []" by (simp add: frames_Nil)
    with True inv show ?thesis by (simp add: jb_framelist_get_def get_spec_def)
  next
    case False
    show ?thesis
    proof (cases "drop k (frames fl)")
      case Nil
      then have "fl_size g = 0" using g(3) by (simp flip: frames_Nil)
      moreover have "frames g = []" "fl_frame_size g = fl_frame_size fl"
        using g(3,5) Nil by (simp_all add: fl_same_def)
      ultimately have "jb_framelist_get fl buf = Some (g, Inl (replicate (fl_frame_size fl) 0))"
        unfolding jb_framelist_get_def g(1) using False by simp
      with g Nil show ?thesis unfolding get_spec_def Let_def k_def [symmetric] by simp
    next
      case (Cons y ys)
      have size: "fl_size g \<noteq> 0" using g(3) Cons by (simp flip: frames_Nil)
      have y: "y \<noteq> Discarded"
        using Cons hd_dropWhile [of "\<lambda>f. f = Discarded" "frames fl"]
        unfolding k_def by (simp flip: dropWhile_eq_drop)
      note h = fl_inv_basic(2) [OF g(2)]
      have head: "y = abs_slot g (fl_head g)"
        using g(3) Cons size h nth_frames [of 0 g] by simp
      note t = take_head_spec [OF g(2), unfolded g(3) Cons list.sel, OF list.distinct(2) y]
      have out: "reads_as buf y seq
          \<lparr>out_frame = Some (take c (fl_content g ! fl_head g)), out_type = fl_frame_type g ! fl_head g,
           out_size = c, out_bit_info = fl_bit_info g ! fl_head g, out_ts = fl_ts g ! fl_head g, out_seq = seq\<rparr>"
        if "c = min (case buf of Some s \<Rightarrow> s | None \<Rightarrow> fl_content_len g ! fl_head g) (fl_content_len g ! fl_head g)" for c seq
        unfolding head using slot_reads_as [OF g(2) h _ that] y head by simp
      have miss: "reads_as buf Missing seq
          \<lparr>out_frame = None, out_type = PJMEDIA_JB_MISSING_FRAME, out_size = 0,
           out_bit_info = 0, out_ts = ts, out_seq = seq\<rparr>" for seq ts
        by (simp add: reads_as_def)
      show ?thesis
      proof (cases "0 < k")
        case True
        with False size t fl_same_trans [OF g(5) t(4)] g(4) miss show ?thesis
          unfolding get_spec_def Let_def k_def [symmetric] Cons jb_framelist_get_def g(1) by simp
      next
        case k: False
        with False size t fl_same_trans [OF g(5) t(4)] g(4) out [OF refl] show ?thesis
          unfolding get_spec_def Let_def k_def [symmetric] Cons jb_framelist_get_def g(1) by simp
      qed
    qed
  qed
qed

section \<open>Storing\<close>

definition spec_put :: "jframe list \<Rightarrow> nat \<Rightarrow> jframe \<Rightarrow> jframe list" where
  "spec_put xs d f =
     (if d < length xs then xs[d := f] else xs @ replicate (d - length xs) Missing @ [f])"

lemma length_spec_put [simp]: "length (spec_put xs d f) = max (length xs) (Suc d)"
  by (simp add: spec_put_def max_def)

lemma nth_spec_put:
  "i < max (length xs) (Suc d) \<Longrightarrow>
   spec_put xs d f ! i = (if i = d then f else if i < length xs then xs ! i else Missing)"
  by (auto simp: spec_put_def nth_append nth_list_update)

text \<open>A change of one slot of the window, seen through the abstraction.\<close>

lemma frames_slot_update:
  assumes "fl_head fl < fl_max_count fl" and "fl_head fl' = fl_head fl" and "fl_max_count fl' = fl_max_count fl"
    and d: "d < fl_max_count fl" and size: "fl_size fl' \<le> fl_max_count fl"
    and other: "\<And>p. p < fl_max_count fl \<Longrightarrow> p \<noteq> fl_pos fl d \<Longrightarrow> abs_slot fl' p = abs_slot fl p"
    and i: "i < fl_size fl'"
  shows "frames fl' ! i = (if i = d then abs_slot fl' (fl_pos fl d) else abs_slot fl (fl_pos fl i))"
proof -
  have "i < fl_max_count fl" using i size by simp
  then have "fl_pos fl i = fl_pos fl d \<longleftrightarrow> i = d" using ring_pos_inj [OF assms(1) _ d] by simp
  then show ?thesis using i assms(1-3) other [of "fl_pos fl i"] by (simp add: nth_frames)
qed

lemma count_spec_put:
  assumes "f \<noteq> Discarded" and "d < length xs \<Longrightarrow> xs ! d \<noteq> Discarded"
  shows "count_list (spec_put xs d f) Discarded = count_list xs Discarded"
  using assms count_list_update [of d xs f Discarded]
  by (auto simp: spec_put_def count_list_replicate_other)

lemma put_store_occupied:
  assumes "fl_inv fl" and "d < fl_size fl" and "frames fl ! d \<noteq> Missing"
  shows "put_store fl index (int d) frame sz bi ts ty = (PJ_EEXISTS, fl)"
  using assms by (simp add: put_store_def nth_frames ring_pos_def)

lemma put_store_spec:
  fixes bi ts :: u32
  assumes inv: "fl_inv fl" and d: "d < fl_max_count fl" and index: "index = fl_origin fl + int d"
    and free: "d < fl_size fl \<Longrightarrow> frames fl ! d = Missing"
    and frame: "sz \<le> length frame" "sz \<le> fl_frame_size fl"
  defines "r \<equiv> put_store fl index (int d) frame sz bi ts PJMEDIA_JB_NORMAL_FRAME"
  shows "fst r = PJ_SUCCESS" "fl_inv (snd r)" "frames (snd r) = spec_put (frames fl) d (Frame (take sz frame) bi ts)"
    "fl_origin (snd r) = fl_origin fl" "fl_same fl (snd r)"
proof -
  note b = fl_inv_basic [OF inv]
  let ?p = "fl_pos fl d"
  have p: "?p < fl_max_count fl" using b(5) by simp
  have len: "length (fl_frame_type fl) = fl_max_count fl" "length (fl_content_len fl) = fl_max_count fl"
    "length (fl_bit_info fl) = fl_max_count fl" "length (fl_ts fl) = fl_max_count fl"
    "length (fl_content fl) = fl_max_count fl" "length (fl_content fl ! ?p) = fl_frame_size fl"
    using b(1) p by (auto simp: fl_arrays_def)
  have missing: "fl_frame_type fl ! ?p = PJMEDIA_JB_MISSING_FRAME"
  proof (cases "d < fl_size fl")
    case True then show ?thesis using free by (simp add: nth_frames)
  next
    case False then show ?thesis using inv d by (simp add: fl_inv_def)
  qed
  define g where "g = fl\<lparr>fl_frame_type := (fl_frame_type fl)[?p := PJMEDIA_JB_NORMAL_FRAME],
      fl_content_len := (fl_content_len fl)[?p := sz], fl_bit_info := (fl_bit_info fl)[?p := bi],
      fl_ts := (fl_ts fl)[?p := ts], fl_size := max (fl_size fl) (Suc d),
      fl_content := (fl_content fl)[?p := take sz frame @ drop sz (fl_content fl ! ?p)]\<rparr>"
  have r: "r = (PJ_SUCCESS, g)"
  proof (cases "fl_size fl \<le> d")
    case True
    then have "max (fl_size fl) (Suc d) = Suc d" by simp
    with True show ?thesis unfolding r_def put_store_def g_def using missing index
      by (simp add: ring_pos_def Let_def nat_add_distrib)
  next
    case False
    then have "max (fl_size fl) (Suc d) = fl_size fl" by simp
    with False show ?thesis unfolding r_def put_store_def g_def using missing index
      by (simp add: ring_pos_def Let_def)
  qed
  have abs: "abs_slot g q = (if q = ?p then Frame (take sz frame) bi ts else abs_slot fl q)"
    if "q < fl_max_count fl" for q
    using that p len frame by (simp add: abs_slot_def g_def cong: jb_frame_type.case_cong)
  have frames: "frames g = spec_put (frames fl) d (Frame (take sz frame) bi ts)"
  proof (rule nth_equalityI)
    show "length (frames g) = length (spec_put (frames fl) d (Frame (take sz frame) bi ts))"
      by (simp add: g_def)
    fix i assume "i < length (frames g)"
    then have i: "i < max (fl_size fl) (Suc d)" "i < fl_size g" by (simp_all add: g_def)
    have "frames g ! i = (if i = d then abs_slot g ?p else abs_slot fl (fl_pos fl i))"
      by (rule frames_slot_update [OF b(2) _ _ d _ _ i(2)]) (use b(3) d abs in \<open>auto simp: g_def\<close>)
    moreover have "abs_slot fl (fl_pos fl i) = Missing" if "\<not> i < fl_size fl"
      using that i d b(3) inv by (simp add: fl_inv_def)
    ultimately show "frames g ! i = spec_put (frames fl) d (Frame (take sz frame) bi ts) ! i"
      using i(1) abs [OF p] by (simp add: nth_spec_put nth_frames)
  qed
  have "fl_discarded_num g = count_list (frames g) Discarded"
    unfolding frames using inv free by (subst count_spec_put) (auto simp: g_def fl_inv_def)
  moreover have "fl_arrays g"
    using b(1) len frame set_update_subset_insert [of "fl_content fl"]
    by (fastforce simp: fl_arrays_def g_def)
  moreover have "\<forall>l \<in> set (fl_content_len g). l \<le> fl_frame_size g"
    using inv frame set_update_subset_insert [of "fl_content_len fl" ?p sz] by (auto simp: g_def fl_inv_def)
  moreover have "set (fl_frame_type g) \<subseteq>
      {PJMEDIA_JB_MISSING_FRAME, PJMEDIA_JB_NORMAL_FRAME, PJMEDIA_JB_DISCARDED_FRAME}"
    using inv set_update_subset_insert [of "fl_frame_type fl" ?p PJMEDIA_JB_NORMAL_FRAME]
    by (auto simp: g_def fl_inv_def)
  moreover have "fl_content_len g ! q = 0"
    if "q < fl_max_count g" "fl_frame_type g ! q = PJMEDIA_JB_MISSING_FRAME" for q
    using that inv len by (cases "q = ?p") (auto simp: g_def fl_inv_def)
  moreover have "fl_frame_type g ! fl_pos g i = PJMEDIA_JB_MISSING_FRAME"
    if "fl_size g \<le> i" "i < fl_max_count g" for i
  proof -
    have i: "fl_size fl \<le> i" "i \<noteq> d" "i < fl_max_count fl" using that by (auto simp: g_def)
    then have "fl_pos fl i \<noteq> ?p" using ring_pos_inj [OF b(2) _ d] by simp
    then show ?thesis using i inv by (simp add: g_def fl_inv_def)
  qed
  ultimately have "fl_inv g"
    unfolding fl_inv_def [of g] using b(2,3) d by (simp add: g_def)
  then show "fst r = PJ_SUCCESS" "fl_inv (snd r)" "frames (snd r) = spec_put (frames fl) d (Frame (take sz frame) bi ts)"
    "fl_origin (snd r) = fl_origin fl" "fl_same fl (snd r)"
    using frames by (simp_all add: r) (simp_all add: g_def fl_same_def)
qed

text \<open>
  The list seen from outside: the index of its first frame and its frames. \<open>spec_put_at\<close> is what storing
  a frame means on that view: a frame a little late is refused, one far behind restarts the numbering (after
  a wrap of the sequence) or the list, one far ahead restarts the list, and the rest goes to its place.
\<close>

definition fl_abs :: "jb_framelist \<Rightarrow> int \<times> jframe list" where
  "fl_abs fl = (fl_origin fl, frames fl)"

definition spec_rebase :: "nat \<Rightarrow> int \<times> jframe list \<Rightarrow> int \<Rightarrow> int \<times> jframe list" where
  "spec_rebase cap = (\<lambda>(org, xs) index.
     let (org, xs) = (if org \<le> index then (org, xs)
           else if MAX_FRAME_INDEX \<le> to_u32 (org + int (length xs)) then (index - int (length xs), xs)
           else (index, []))
     in if xs = [] \<or> int cap \<le> index - org \<and> JB_MAX_DROPOUT < index - org then (index, []) else (org, xs))"

definition spec_put_at :: "nat \<Rightarrow> int \<times> jframe list \<Rightarrow> int \<Rightarrow> jframe \<Rightarrow> pj_status \<times> int \<times> jframe list" where
  "spec_put_at cap = (\<lambda>(org, xs) index f.
     if index < org \<and> org - index < JB_MAX_MISORDER then (PJ_ETOOSMALL, org, xs)
     else
       (let (org', xs') = spec_rebase cap (org, xs) index; d = nat (index - org')
        in if cap \<le> d then (PJ_ETOOMANY, org', xs')
           else if d < length xs' \<and> xs' ! d \<noteq> Missing then (PJ_EEXISTS, org', xs')
           else (PJ_SUCCESS, org', spec_put xs' d f)))"

text \<open>The three repairs of the source compute the rebased list.\<close>

lemma put_rebase:
  assumes inv: "fl_inv fl" and idx: "0 \<le> index" "index < 2 ^ 31"
    and near: "\<not> (index < fl_origin fl \<and> fl_origin fl - index < JB_MAX_MISORDER)"
  shows "\<exists>fl1 d1 fl2 d2 fl3.
      put_distance fl index = Inr (fl1, d1) \<and> put_empty fl1 index d1 = (fl2, d2)
    \<and> fl_abs fl3 = spec_rebase (fl_max_count fl) (fl_abs fl) index \<and> fl_inv fl3 \<and> fl_same fl fl3
    \<and> fl_origin fl3 \<le> index
    \<and> put_far fl2 index d2 =
        (if int (fl_max_count fl) \<le> index - fl_origin fl3 then Inl PJ_ETOOMANY
         else Inr (fl3, index - fl_origin fl3))
    \<and> (int (fl_max_count fl) \<le> index - fl_origin fl3 \<longrightarrow> fl2 = fl3)"
proof -
  note b = fl_inv_basic [OF inv]
  have rs: "fl_abs ((jb_framelist_reset g)\<lparr>fl_origin := index\<rparr>) = (index, [])"
    "fl_inv ((jb_framelist_reset g)\<lparr>fl_origin := index\<rparr>)" if "fl_arrays g" for g
    using reset_spec [OF that] by (simp_all add: fl_abs_def)
  obtain fl1 d1 where 1: "put_distance fl index = Inr (fl1, d1)" "d1 = index - fl_origin fl1" "0 \<le> d1"
    "fl_inv fl1" "fl_same fl fl1"
    "fl_abs fl1 = (if fl_origin fl \<le> index then fl_abs fl
           else if MAX_FRAME_INDEX \<le> to_u32 (fl_origin fl + int (fl_size fl)) then (index - int (fl_size fl), frames fl)
           else (index, []))"
  proof -
    consider "fl_origin fl \<le> index"
      | "\<not> fl_origin fl \<le> index" "MAX_FRAME_INDEX \<le> to_u32 (fl_origin fl + int (fl_size fl))"
      | "\<not> fl_origin fl \<le> index" "\<not> MAX_FRAME_INDEX \<le> to_u32 (fl_origin fl + int (fl_size fl))" by blast
    then show thesis
    proof cases
      case 1
      show ?thesis by (rule that [of fl "index - fl_origin fl"]) (use 1 inv in \<open>simp_all add: put_distance_def Let_def\<close>)
    next
      case 2
      have "to_s32 (to_u32 (index - int (fl_size fl))) = index - int (fl_size fl)"
        by (rule to_s32_to_u32) (use idx b in auto)
      then show ?thesis
        by (intro that [of "fl\<lparr>fl_origin := index - int (fl_size fl)\<rparr>" "int (fl_size fl)"])
          (use 2 inv near in \<open>simp_all add: put_distance_def Let_def fl_abs_def fl_same_def\<close>)
    next
      case 3
      show ?thesis
        by (rule that [of "(jb_framelist_reset fl)\<lparr>fl_origin := index\<rparr>" 0])
          (use 3 near rs [OF b(1)] in \<open>simp_all add: put_distance_def Let_def fl_same_def jb_framelist_reset_def\<close>)
    qed
  qed
  have m: "fl_max_count fl1 = fl_max_count fl" using 1(5) by (simp add: fl_same_def)
  have abs: "spec_rebase (fl_max_count fl) (fl_abs fl) index =
      (if fl_size fl1 = 0 \<or> int (fl_max_count fl) \<le> d1 \<and> JB_MAX_DROPOUT < d1 then (index, []) else fl_abs fl1)"
    unfolding spec_rebase_def fl_abs_def [of fl] prod.case length_frames
      1(6) [unfolded fl_abs_def [of fl], symmetric]
    by (simp add: fl_abs_def 1(2) frames_Nil)
  consider (empty) "fl_size fl1 = 0"
    | (restart) "fl_size fl1 \<noteq> 0" "int (fl_max_count fl) \<le> d1" "JB_MAX_DROPOUT < d1"
    | (far) "fl_size fl1 \<noteq> 0" "int (fl_max_count fl) \<le> d1" "\<not> JB_MAX_DROPOUT < d1"
    | (ok) "fl_size fl1 \<noteq> 0" "\<not> int (fl_max_count fl) \<le> d1" by blast
  then show ?thesis
  proof cases
    case empty
    have "fl_abs (fl1\<lparr>fl_origin := index\<rparr>) = (index, [])"
      using empty by (simp add: fl_abs_def frames_Nil)
    note e = this 1(1,4,5) b(5) abs m empty
    show ?thesis
      by (rule exI [of _ fl1], rule exI [of _ d1], rule exI [of _ "fl1\<lparr>fl_origin := index\<rparr>"],
          rule exI [of _ 0], rule exI [of _ "fl1\<lparr>fl_origin := index\<rparr>"])
        (use e in \<open>simp add: put_empty_def put_far_def fl_same_def\<close>)
  next
    case restart
    then show ?thesis
      using 1(1-5) b(5) abs m rs [OF fl_inv_basic(1) [OF 1(4)]]
      by (intro exI [of _ fl1] exI [of _ d1] exI [of _ "(jb_framelist_reset fl1)\<lparr>fl_origin := index\<rparr>"])
        (simp add: put_empty_def put_far_def fl_same_def jb_framelist_reset_def)
  next
    case far
    note e = 1(1-5) abs m far
    show ?thesis
      by (rule exI [of _ fl1], rule exI [of _ d1], rule exI [of _ fl1], rule exI [of _ d1], rule exI [of _ fl1])
        (use e in \<open>simp add: put_empty_def put_far_def\<close>)
  next
    case ok
    note e = 1(1-5) abs m ok
    show ?thesis
      by (rule exI [of _ fl1], rule exI [of _ d1], rule exI [of _ fl1], rule exI [of _ d1], rule exI [of _ fl1])
        (use e in \<open>simp add: put_empty_def put_far_def\<close>)
  qed
qed


text \<open>\<^verbatim>\<open>jb_framelist_put_at\<close> implements \<open>spec_put_at\<close>.\<close>

lemma put_at_refines:
  fixes bi ts :: u32
  assumes inv: "fl_inv fl" and idx: "0 \<le> index" "index < 2 ^ 31"
    and frame: "sz \<le> length frame" "sz \<le> fl_frame_size fl"
  defines "r \<equiv> jb_framelist_put_at fl index frame sz bi ts PJMEDIA_JB_NORMAL_FRAME"
  shows "(fst r, fl_abs (snd r)) = spec_put_at (fl_max_count fl) (fl_abs fl) index (Frame (take sz frame) bi ts)"
    and "fl_inv (snd r)" and "fl_same fl (snd r)"
proof -
  have "(fst r, fl_abs (snd r)) = spec_put_at (fl_max_count fl) (fl_abs fl) index (Frame (take sz frame) bi ts)
    \<and> fl_inv (snd r) \<and> fl_same fl (snd r)"
  proof (cases "index < fl_origin fl \<and> fl_origin fl - index < JB_MAX_MISORDER")
    case True
    then show ?thesis using inv frame
      by (simp add: r_def jb_framelist_put_at_def put_distance_def spec_put_at_def fl_abs_def Let_def)
  next
    case False
    from put_rebase [OF inv idx False] obtain fl1 d1 fl2 d2 fl3 where
      p: "put_distance fl index = Inr (fl1, d1)" "put_empty fl1 index d1 = (fl2, d2)"
      "fl_abs fl3 = spec_rebase (fl_max_count fl) (fl_abs fl) index" "fl_inv fl3" "fl_same fl fl3"
      "fl_origin fl3 \<le> index"
      "put_far fl2 index d2 =
        (if int (fl_max_count fl) \<le> index - fl_origin fl3 then Inl PJ_ETOOMANY
         else Inr (fl3, index - fl_origin fl3))"
      "int (fl_max_count fl) \<le> index - fl_origin fl3 \<longrightarrow> fl2 = fl3"
      by blast
    define d where "d = nat (index - fl_origin fl3)"
    have d: "index = fl_origin fl3 + int d" using p(6) by (simp add: d_def)
    have spec: "spec_put_at (fl_max_count fl) (fl_abs fl) index f =
        (if fl_max_count fl \<le> d then (PJ_ETOOMANY, fl_abs fl3)
         else if d < fl_size fl3 \<and> frames fl3 ! d \<noteq> Missing then (PJ_EEXISTS, fl_abs fl3)
         else (PJ_SUCCESS, fl_origin fl3, spec_put (frames fl3) d f))" for f
      unfolding spec_put_at_def fl_abs_def [of fl] prod.case if_not_P [OF False]
      unfolding p(3) [unfolded fl_abs_def [of fl], symmetric]
      by (simp add: Let_def d_def fl_abs_def)
    have r: "r = (if fl_max_count fl \<le> d then (PJ_ETOOMANY, fl3)
                  else put_store fl3 index (int d) frame sz bi ts PJMEDIA_JB_NORMAL_FRAME)"
      unfolding r_def jb_framelist_put_at_def p(1) using frame(2) p(2,7,8) d by auto
    have cap: "fl_max_count fl3 = fl_max_count fl" "fl_frame_size fl3 = fl_frame_size fl"
      using p(5) by (simp_all add: fl_same_def)
    consider "fl_max_count fl \<le> d" | "d < fl_max_count fl" "d < fl_size fl3" "frames fl3 ! d \<noteq> Missing"
      | "d < fl_max_count fl" "d < fl_size fl3 \<longrightarrow> frames fl3 ! d = Missing" by fastforce
    then show ?thesis
    proof cases
      case 1
      then show ?thesis unfolding spec r using p(4,5) by simp
    next
      case 2
      then show ?thesis unfolding spec r put_store_occupied [OF p(4) 2(2,3)] using p(4,5) by simp
    next
      case 3
      have "d < fl_max_count fl3" "sz \<le> fl_frame_size fl3" using 3 cap frame by simp_all
      note st = put_store_spec [OF p(4) this(1) d _ frame(1) this(2), of bi ts]
      show ?thesis unfolding spec r using 3 st fl_same_trans [OF p(5)] by (simp add: fl_abs_def)
    qed
  qed
  then show "(fst r, fl_abs (snd r)) = spec_put_at (fl_max_count fl) (fl_abs fl) index (Frame (take sz frame) bi ts)"
    "fl_inv (snd r)" "fl_same fl (snd r)" by blast+
qed


section \<open>Discarding and peeking\<close>

lemma discard_spec:
  assumes inv: "fl_inv fl" and d: "d < fl_size fl" and fresh: "frames fl ! d \<noteq> Discarded"
  defines "r \<equiv> jb_framelist_discard fl (fl_origin fl + int d)"
  shows "fst r = PJ_SUCCESS" "fl_inv (snd r)" "frames (snd r) = (frames fl)[d := Discarded]"
    "fl_origin (snd r) = fl_origin fl" "fl_same fl (snd r)"
proof -
  note b = fl_inv_basic [OF inv]
  let ?p = "fl_pos fl d"
  have dm: "d < fl_max_count fl" using d b by simp
  have p: "?p < fl_max_count fl" using b(5) by simp
  have len: "length (fl_frame_type fl) = fl_max_count fl" using b(1) by (simp add: fl_arrays_def)
  define g where "g = fl\<lparr>fl_frame_type := (fl_frame_type fl)[?p := PJMEDIA_JB_DISCARDED_FRAME],
                         fl_discarded_num := fl_discarded_num fl + 1\<rparr>"
  have r: "r = (PJ_SUCCESS, g)"
    unfolding r_def jb_framelist_discard_def using d by (simp add: g_def ring_pos_def)
  have abs: "abs_slot g q = (if q = ?p then Discarded else abs_slot fl q)" if "q < fl_max_count fl" for q
    using that p len by (simp add: abs_slot_def g_def cong: jb_frame_type.case_cong)
  have frames: "frames g = (frames fl)[d := Discarded]"
  proof (rule nth_equalityI)
    fix i assume "i < length (frames g)"
    then have i: "i < fl_size fl" "i < fl_size g" by (simp_all add: g_def)
    have "frames g ! i = (if i = d then abs_slot g ?p else abs_slot fl (fl_pos fl i))"
      by (rule frames_slot_update [OF b(2) _ _ dm _ _ i(2)]) (use b(3) abs in \<open>auto simp: g_def\<close>)
    with i abs [OF p] show "frames g ! i = (frames fl)[d := Discarded] ! i"
      by (simp add: nth_frames nth_list_update)
  qed (simp add: g_def)
  have "fl_discarded_num g = count_list (frames g) Discarded"
    using inv d fresh count_list_update [of d "frames fl" Discarded Discarded]
    by (simp add: frames) (simp add: g_def fl_inv_def)
  moreover have "fl_arrays g" using b(1) by (simp add: fl_arrays_def g_def)
  moreover have "set (fl_frame_type g) \<subseteq>
      {PJMEDIA_JB_MISSING_FRAME, PJMEDIA_JB_NORMAL_FRAME, PJMEDIA_JB_DISCARDED_FRAME}"
    using inv set_update_subset_insert [of "fl_frame_type fl" ?p PJMEDIA_JB_DISCARDED_FRAME]
    by (auto simp: g_def fl_inv_def)
  moreover have "fl_content_len g ! q = 0"
    if "q < fl_max_count g" "fl_frame_type g ! q = PJMEDIA_JB_MISSING_FRAME" for q
    using that inv len by (cases "q = ?p") (auto simp: g_def fl_inv_def)
  moreover have "fl_frame_type g ! fl_pos g i = PJMEDIA_JB_MISSING_FRAME"
    if "fl_size g \<le> i" "i < fl_max_count g" for i
  proof -
    have i: "fl_size fl \<le> i" "i \<noteq> d" "i < fl_max_count fl" using that d by (auto simp: g_def)
    then have "fl_pos fl i \<noteq> ?p" using ring_pos_inj [OF b(2) _ dm] by simp
    then show ?thesis using i inv by (simp add: g_def fl_inv_def)
  qed
  moreover have "\<forall>l \<in> set (fl_content_len g). l \<le> fl_frame_size g" using inv by (simp add: g_def fl_inv_def)
  ultimately have "fl_inv g" unfolding fl_inv_def [of g] using b(2,3) by (simp add: g_def)
  then show "fst r = PJ_SUCCESS" "fl_inv (snd r)" "frames (snd r) = (frames fl)[d := Discarded]"
    "fl_origin (snd r) = fl_origin fl" "fl_same fl (snd r)"
    using frames by (simp_all add: r) (simp_all add: g_def fl_same_def)
qed

lemma eff_size_spec:
  assumes "fl_inv fl"
  shows "jb_framelist_eff_size fl = length (filter (\<lambda>f. f \<noteq> Discarded) (frames fl))"
proof -
  have "length (filter (\<lambda>f. f \<noteq> Discarded) xs) + count_list xs Discarded = length xs" for xs
    by (induction xs) auto
  from this [of "frames fl"]
  have "length (filter (\<lambda>f. f \<noteq> Discarded) (frames fl)) + count_list (frames fl) Discarded = fl_size fl"
    by simp
  then show ?thesis
    using assms fl_inv_basic(3,4) [OF assms] u32_sub_le [of "fl_discarded_num fl" "fl_size fl"]
    by (simp add: jb_framelist_eff_size_def fl_inv_def)
qed

text \<open>The search of \<^verbatim>\<open>jb_framelist_peek\<close> ends, at the frame the offset names.\<close>

lemma peek_pos_spec:
  assumes inv: "fl_inv fl" and i: "i \<le> fl_size fl"
    and idx: "idx < length (filter (\<lambda>f. f \<noteq> Discarded) (drop i (frames fl)))"
  shows "\<exists>j < fl_size fl. peek_pos fl (fl_pos fl i) idx = Some (fl_pos fl j)
    \<and> frames fl ! j = filter (\<lambda>f. f \<noteq> Discarded) (drop i (frames fl)) ! idx"
  using i idx
proof (induction "fl_size fl - i" arbitrary: i idx)
  case (Suc k)
  then have i: "i < fl_size fl" by simp
  then have d: "drop i (frames fl) = frames fl ! i # drop (Suc i) (frames fl)"
    by (simp add: Cons_nth_drop_Suc)
  have next_pos: "(fl_pos fl i + 1) mod fl_max_count fl = fl_pos fl (Suc i)"
    by (simp add: ring_pos_def mod_Suc_eq)
  have k: "k = fl_size fl - Suc i" "Suc i \<le> fl_size fl" using Suc.hyps(2) i by simp_all
  have t: "fl_frame_type fl ! fl_pos fl i = PJMEDIA_JB_DISCARDED_FRAME \<longleftrightarrow> frames fl ! i = Discarded"
    using i by (simp add: nth_frames)
  show ?case
  proof (cases "frames fl ! i = Discarded")
    case True
    then show ?thesis using Suc.hyps(1) [OF k, of idx] Suc.prems(2) t next_pos
      by (subst peek_pos.simps) (simp add: d)
  next
    case False
    show ?thesis
    proof (cases idx)
      case 0
      then show ?thesis using False t i by (subst peek_pos.simps) (auto simp: d)
    next
      case (Suc m)
      then show ?thesis using False Suc.hyps(1) [OF k, of m] Suc.prems(2) t next_pos
        by (subst peek_pos.simps) (simp add: d)
    qed
  qed
qed simp

lemma framelist_peek_spec:
  assumes inv: "fl_inv fl"
  defines "ys \<equiv> filter (\<lambda>f. f \<noteq> Discarded) (frames fl)"
  shows "\<exists>r. jb_framelist_peek fl offset = Some r \<and>
    (if offset < length ys
     then (\<exists>out. r = Some out \<and> (case ys ! offset of
             Frame bytes bi ts \<Rightarrow> out_type out = PJMEDIA_JB_NORMAL_FRAME \<and> out_size out = length bytes
               \<and> (\<exists>content. out_frame out = Some content \<and> take (out_size out) content = bytes)
               \<and> out_bit_info out = bi \<and> out_ts out = ts
           | _ \<Rightarrow> out_type out = PJMEDIA_JB_MISSING_FRAME \<and> out_size out = 0))
     else r = None)"
proof (cases "offset < length ys")
  case False
  then show ?thesis using eff_size_spec [OF inv] by (simp add: jb_framelist_peek_def ys_def)
next
  case True
  then obtain j where j: "j < fl_size fl" "peek_pos fl (fl_head fl) offset = Some (fl_pos fl j)" "frames fl ! j = ys ! offset"
    using peek_pos_spec [OF inv, of 0 offset] fl_inv_basic(2) [OF inv] by (auto simp: ys_def)
  have p: "fl_pos fl j < fl_max_count fl" using fl_inv_basic(5) [OF inv] by simp
  have "ys ! offset \<noteq> Discarded" using True nth_mem [OF True] by (auto simp: ys_def)
  then have y: "abs_slot fl (fl_pos fl j) \<noteq> Discarded" "ys ! offset = abs_slot fl (fl_pos fl j)"
    using j by (simp_all add: nth_frames)
  have r: "jb_framelist_peek fl offset =
      Some (Some \<lparr>out_frame = Some (fl_content fl ! fl_pos fl j), out_type = fl_frame_type fl ! fl_pos fl j,
                  out_size = fl_content_len fl ! fl_pos fl j, out_bit_info = fl_bit_info fl ! fl_pos fl j,
                  out_ts = fl_ts fl ! fl_pos fl j, out_seq = fl_origin fl + int offset\<rparr>)"
    using True j(2) eff_size_spec [OF inv] by (simp add: jb_framelist_peek_def ys_def)
  show ?thesis
    unfolding y(2) r using slot_cases [OF inv p y(1)] True
    by (cases rule: slot_cases [OF inv p y(1)]) (simp_all del: abs_slot_Missing abs_slot_Discarded)
qed

section \<open>The frames held\<close>

text \<open>
  The frames a view holds, with their sequence numbers. A put that is not far behind the window only adds
  the new frame and never moves the origin back.
\<close>

definition held :: "int \<times> jframe list \<Rightarrow> (int \<times> u8 list \<times> u32 \<times> u32) set" where
  "held = (\<lambda>(org, xs). {(org + int i, bytes, bi, ts) | i bytes bi ts. i < length xs \<and> xs ! i = Frame bytes bi ts})"

lemma held_iff:
  "(s, bytes, bi, ts) \<in> held (org, xs) \<longleftrightarrow> (\<exists>i < length xs. s = org + int i \<and> xs ! i = Frame bytes bi ts)"
  by (auto simp: held_def)

lemma held_Nil [simp]: "held (org, []) = {}"
  by (auto simp: held_def)

lemma held_drop: "held (org + int n, drop n xs) \<subseteq> held (org, xs)"
proof (clarsimp simp: held_iff)
  fix bytes bi ts i assume "i < length xs - n" "xs ! (n + i) = Frame bytes bi ts"
  then show "\<exists>ia<length xs. int n + int i = int ia \<and> xs ! ia = Frame bytes bi ts"
    by (intro exI [of _ "n + i"]) simp
qed

lemma held_spec_put:
  assumes "seq = org + int d"
  shows "held (org, spec_put xs d (Frame bytes bi ts)) \<subseteq> insert (seq, bytes, bi, ts) (held (org, xs))"
  using assms by (auto simp: held_iff nth_spec_put split: if_splits)

lemma rebase_near:
  assumes "spec_rebase cap (org, xs) seq = (org', xs')" and "org \<le> seq"
  shows "(org' = org \<and> xs' = xs) \<or> (org' = seq \<and> xs' = [])" "org \<le> org'" "org' \<le> seq"
  using assms by (auto simp: spec_rebase_def split: if_splits)

lemma spec_put_at_near:
  assumes "spec_put_at cap (org, xs) seq (Frame bytes bi ts) = (st, org', xs')" and "org - JB_MAX_MISORDER < seq"
  shows "org \<le> org'" "held (org', xs') \<subseteq> insert (seq, bytes, bi, ts) (held (org, xs))"
proof -
  have "org \<le> org' \<and> held (org', xs') \<subseteq> insert (seq, bytes, bi, ts) (held (org, xs))"
  proof (cases "seq < org")
    case True
    then show ?thesis using assms by (auto simp: spec_put_at_def)
  next
    case False
    obtain o1 x1 where rb: "spec_rebase cap (org, xs) seq = (o1, x1)" by fastforce
    note n = rebase_near [OF rb]
    have h: "held (o1, x1) \<subseteq> held (org, xs)" using n(1) False by auto
    have "seq = o1 + int (nat (seq - o1))" using n(3) False by simp
    from held_spec_put [OF this, of x1 bytes bi ts] h
    show ?thesis using assms(1) rb n(2) False by (auto simp: spec_put_at_def Let_def split: if_splits)
  qed
  then show "org \<le> org'" "held (org', xs') \<subseteq> insert (seq, bytes, bi, ts) (held (org, xs))" by blast+
qed

text \<open>A change of the list that only loses frames and does not move its origin back.\<close>

definition shrinks :: "jb_framelist \<Rightarrow> jb_framelist \<Rightarrow> bool" where
  "shrinks fl fl' \<longleftrightarrow> fl_same fl fl' \<and> fl_origin fl \<le> fl_origin fl' \<and> held (fl_abs fl') \<subseteq> held (fl_abs fl)"

lemma shrinks_refl [simp]: "shrinks fl fl"
  by (simp add: shrinks_def)

text \<open>
  What the jitter buffer relies on when it takes frames away: the list loses exactly the frames at its head and
  its origin moves up by as many. From that alone, a removal holds no new frame and no new discarded one.
\<close>

locale frame_window =
  fixes wf :: "'q \<Rightarrow> bool" and base :: "'q \<Rightarrow> int" and slots :: "'q \<Rightarrow> jframe list"
    and drop_head :: "'q \<Rightarrow> nat \<Rightarrow> 'q \<times> nat"
  assumes wf_drop: "wf q \<Longrightarrow> wf (fst (drop_head q n))"
    and slots_drop: "wf q \<Longrightarrow> slots (fst (drop_head q n)) = drop n (slots q)"
    and base_drop: "wf q \<Longrightarrow> base (fst (drop_head q n)) = base q + int (min n (length (slots q)))"
    and count_drop: "wf q \<Longrightarrow> snd (drop_head q n) = min n (length (slots q))"
begin

lemma drop_twice:
  assumes "wf q"
  shows "slots (fst (drop_head (fst (drop_head q m)) n)) = slots (fst (drop_head q (m + n)))"
    and "base (fst (drop_head (fst (drop_head q m)) n)) = base (fst (drop_head q (m + n)))"
  using assms by (simp_all add: wf_drop slots_drop base_drop add.commute)

lemma drop_held: "wf q \<Longrightarrow> held (base (fst (drop_head q n)), slots (fst (drop_head q n))) \<subseteq> held (base q, slots q)"
  using held_drop [of "base q" "min n (length (slots q))" "slots q"]
  by (cases "n \<le> length (slots q)") (simp_all add: slots_drop base_drop min_def)

lemma drop_index:
  assumes "wf q" and "i < length (slots (fst (drop_head q n)))"
  shows "i + n < length (slots q)" "slots (fst (drop_head q n)) ! i = slots q ! (i + n)"
    "base (fst (drop_head q n)) + int i = base q + int (i + n)"
  using assms by (simp_all add: slots_drop base_drop add.commute)

end

interpretation flist: frame_window fl_inv fl_origin frames jb_framelist_remove_head
  by unfold_locales (simp_all add: remove_head_spec)

lemma shrinks_remove_head: "fl_inv fl \<Longrightarrow> shrinks fl (fst (jb_framelist_remove_head fl n))"
  using flist.drop_held [of fl n] by (simp add: shrinks_def fl_abs_def flist.base_drop)

lemma shrinks_discard:
  assumes "fl_inv fl" and "d < fl_size fl" and "frames fl ! d \<noteq> Discarded"
  shows "shrinks fl (snd (jb_framelist_discard fl (fl_origin fl + int d)))"
  using discard_spec [OF assms] assms(2)
  by (auto simp: shrinks_def fl_abs_def held_iff nth_list_update split: if_splits)

end
