(* ===== verification/Jbuf.thy ===== *)
theory Jbuf
  imports Jbuf_Framelist
begin

text \<open>
  The adaptive jitter buffer, \<^verbatim>\<open>pjmedia_jbuf\<close> of \<^verbatim>\<open>pjmedia/src/pjmedia/jbuf.c\<close>, on top of the frame list of
  \<^verbatim>\<open>Jbuf_Framelist\<close>: settings, burst level estimation, the two discard algorithms, and the put, get,
  peek and remove operations.

  Left out of the state: the name (used for logging only), and the floating point mean and variance of
  the two statistics, which no operation of the jitter buffer reads back to take a decision.
\<close>

section \<open>Constants\<close>

definition PJMEDIA_JBUF_DISC_MIN_GAP :: nat where "PJMEDIA_JBUF_DISC_MIN_GAP = 200"
definition PJMEDIA_JBUF_PRO_DISC_MIN_BURST :: nat where "PJMEDIA_JBUF_PRO_DISC_MIN_BURST = 1"
definition PJMEDIA_JBUF_PRO_DISC_MAX_BURST :: nat where "PJMEDIA_JBUF_PRO_DISC_MAX_BURST = 100"
definition PJMEDIA_JBUF_PRO_DISC_T1 :: nat where "PJMEDIA_JBUF_PRO_DISC_T1 = 2000"
definition PJMEDIA_JBUF_PRO_DISC_T2 :: nat where "PJMEDIA_JBUF_PRO_DISC_T2 = 10000"
definition PJMEDIA_JB_DEFAULT_INIT_DELAY :: nat where "PJMEDIA_JB_DEFAULT_INIT_DELAY = 15"
definition MAX_BURST_MSEC :: nat where "MAX_BURST_MSEC = 1000"
definition INIT_CYCLE :: int where "INIT_CYCLE = 10"
definition STABLE_HISTORY_LIMIT :: int where "STABLE_HISTORY_LIMIT = 20"
definition STA_DISC_SAFE_SHRINKING_DIFF :: int where "STA_DISC_SAFE_SHRINKING_DIFF = 1"

lemmas jbuf_consts =
  PJMEDIA_JBUF_DISC_MIN_GAP_def PJMEDIA_JBUF_PRO_DISC_MIN_BURST_def PJMEDIA_JBUF_PRO_DISC_MAX_BURST_def
  PJMEDIA_JBUF_PRO_DISC_T1_def PJMEDIA_JBUF_PRO_DISC_T2_def PJMEDIA_JB_DEFAULT_INIT_DELAY_def
  MAX_BURST_MSEC_def INIT_CYCLE_def STABLE_HISTORY_LIMIT_def STA_DISC_SAFE_SHRINKING_DIFF_def

section \<open>State\<close>

datatype jb_op = JB_OP_INIT | JB_OP_PUT | JB_OP_GET

datatype jb_status = JB_STATUS_INITIALIZING | JB_STATUS_PROCESSING

datatype discard_algo = PJMEDIA_JB_DISCARD_NONE | PJMEDIA_JB_DISCARD_STATIC | PJMEDIA_JB_DISCARD_PROGRESSIVE

record math_stat =
  stat_n :: int
  stat_max :: int
  stat_min :: int
  stat_last :: int

definition pj_math_stat_init :: math_stat where
  "pj_math_stat_init = \<lparr>stat_n = 0, stat_max = 0, stat_min = 0, stat_last = 0\<rparr>"

definition pj_math_stat_update :: "math_stat \<Rightarrow> int \<Rightarrow> math_stat" where
  "pj_math_stat_update stat val =
     (let st = stat\<lparr>stat_last := val, stat_n := stat_n stat + 1\<rparr>
      in if stat_n stat \<noteq> 0 then
           (let st = (if stat_min st > val then st\<lparr>stat_min := val\<rparr> else st)
            in if stat_max st < val then st\<lparr>stat_max := val\<rparr> else st)
         else st\<lparr>stat_min := val, stat_max := val\<rparr>)"

record pjmedia_jbuf =
  jb_frame_size :: nat
  jb_frame_ptime :: nat
  jb_max_count :: nat
  jb_init_prefetch :: int
  jb_min_prefetch :: int
  jb_max_prefetch :: int
  jb_max_burst :: int
  jb_min_shrink_gap :: int
  jb_discard_algo :: discard_algo
  jb_flist :: jb_framelist
  jb_level :: int
  jb_max_hist_level :: int
  jb_stable_hist :: int
  jb_last_op :: jb_op
  jb_eff_level :: int
  jb_prefetch :: int
  jb_prefetching :: bool
  jb_state :: jb_status
  jb_init_cycle_cnt :: int
  jb_discard_ref :: int
  jb_discard_dist :: nat
  jb_delay :: math_stat
  jb_burst :: math_stat
  jb_lost :: u32
  jb_discard :: u32
  jb_empty :: u32

section \<open>Settings\<close>

text \<open>
  A setting operation gives its status and the new buffer. \<^verbatim>\<open>pjmedia_jbuf_create\<close> and
  \<^verbatim>\<open>pjmedia_jbuf_set_ptime\<close> divide by the frame duration: with duration 0 they have no result.
\<close>

definition pjmedia_jbuf_set_discard :: "pjmedia_jbuf \<Rightarrow> discard_algo \<Rightarrow> pj_status \<times> pjmedia_jbuf" where
  "pjmedia_jbuf_set_discard jb algo = (PJ_SUCCESS, jb\<lparr>jb_discard_algo := algo\<rparr>)"

definition pjmedia_jbuf_reset :: "pjmedia_jbuf \<Rightarrow> pj_status \<times> pjmedia_jbuf" where
  "pjmedia_jbuf_reset jb =
     (PJ_SUCCESS,
      jb\<lparr>jb_level := 0, jb_last_op := JB_OP_INIT, jb_stable_hist := 0,
         jb_state := JB_STATUS_INITIALIZING, jb_init_cycle_cnt := 0, jb_max_hist_level := 0,
         jb_prefetching := (jb_prefetch jb \<noteq> 0), jb_discard_dist := 0,
         jb_flist := jb_framelist_reset (jb_flist jb)\<rparr>)"

definition pjmedia_jbuf_create :: "jb_framelist \<Rightarrow> nat \<Rightarrow> nat \<Rightarrow> nat \<Rightarrow> pjmedia_jbuf option" where
  "pjmedia_jbuf_create mem frame_size ptime max_count =
     (if ptime = 0 then None
      else
        (let jb = \<lparr>jb_frame_size = frame_size, jb_frame_ptime = ptime, jb_max_count = max_count,
               jb_init_prefetch = 0, jb_min_prefetch = 0, jb_max_prefetch = int (u32_mul max_count 4 div 5),
               jb_max_burst = int (max (MAX_BURST_MSEC div ptime) (u32_mul max_count 3 div 4)),
               jb_min_shrink_gap = int (PJMEDIA_JBUF_DISC_MIN_GAP div ptime),
               jb_discard_algo = PJMEDIA_JB_DISCARD_NONE,
               jb_flist = jb_framelist_init mem frame_size max_count,
               jb_level = 0, jb_max_hist_level = 0, jb_stable_hist = 0, jb_last_op = JB_OP_INIT,
               jb_eff_level = 0,
               jb_prefetch = int (min PJMEDIA_JB_DEFAULT_INIT_DELAY (u32_mul max_count 4 div 5)),
               jb_prefetching = False, jb_state = JB_STATUS_INITIALIZING, jb_init_cycle_cnt = 0,
               jb_discard_ref = 0, jb_discard_dist = 0,
               jb_delay = pj_math_stat_init, jb_burst = pj_math_stat_init,
               jb_lost = 0, jb_discard = 0, jb_empty = 0\<rparr>;
             jb = snd (pjmedia_jbuf_set_discard jb PJMEDIA_JB_DISCARD_PROGRESSIVE)
         in Some (snd (pjmedia_jbuf_reset jb))))"

definition pjmedia_jbuf_set_ptime :: "pjmedia_jbuf \<Rightarrow> nat \<Rightarrow> (pj_status \<times> pjmedia_jbuf) option" where
  "pjmedia_jbuf_set_ptime jb ptime =
     (if ptime = 0 then None
      else Some (PJ_SUCCESS,
        jb\<lparr>jb_frame_ptime := ptime,
           jb_min_shrink_gap := int (PJMEDIA_JBUF_DISC_MIN_GAP div ptime),
           jb_max_burst := int (max (MAX_BURST_MSEC div ptime) (jb_max_count jb * 3 div 4))\<rparr>))"

definition pjmedia_jbuf_set_fixed :: "pjmedia_jbuf \<Rightarrow> nat \<Rightarrow> pj_status \<times> pjmedia_jbuf" where
  "pjmedia_jbuf_set_fixed jb prefetch =
     (if \<not> prefetch \<le> jb_max_count jb then (PJ_EINVAL, jb)
      else
        (let jb = jb\<lparr>jb_min_prefetch := int prefetch, jb_max_prefetch := int prefetch,
                     jb_prefetch := int prefetch, jb_init_prefetch := int prefetch\<rparr>
         in (PJ_SUCCESS, snd (pjmedia_jbuf_set_discard jb PJMEDIA_JB_DISCARD_NONE))))"

definition pjmedia_jbuf_set_adaptive :: "pjmedia_jbuf \<Rightarrow> nat \<Rightarrow> nat \<Rightarrow> nat \<Rightarrow> pj_status \<times> pjmedia_jbuf" where
  "pjmedia_jbuf_set_adaptive jb prefetch min_prefetch max_prefetch =
     (if \<not> (min_prefetch \<le> max_prefetch \<and> prefetch \<le> max_prefetch \<and> max_prefetch \<le> jb_max_count jb)
      then (PJ_EINVAL, jb)
      else (PJ_SUCCESS,
        jb\<lparr>jb_prefetch := int prefetch, jb_init_prefetch := int prefetch,
           jb_min_prefetch := int min_prefetch, jb_max_prefetch := int max_prefetch\<rparr>))"

definition pjmedia_jbuf_is_full :: "pjmedia_jbuf \<Rightarrow> bool" where
  "pjmedia_jbuf_is_full jb \<longleftrightarrow> fl_size (jb_flist jb) = fl_max_count (jb_flist jb)"

section \<open>Burst level\<close>

definition clamp_prefetch_low_high :: "pjmedia_jbuf \<Rightarrow> pjmedia_jbuf" where
  "clamp_prefetch_low_high jb =
     (if jb_init_prefetch jb \<noteq> 0 then
        (let jb = jb\<lparr>jb_prefetch := jb_eff_level jb\<rparr>;
             jb = (if jb_prefetch jb < jb_min_prefetch jb then jb\<lparr>jb_prefetch := jb_min_prefetch jb\<rparr> else jb)
         in if jb_prefetch jb > jb_max_prefetch jb then jb\<lparr>jb_prefetch := jb_max_prefetch jb\<rparr> else jb)
      else jb)"

definition clamp_prefetch_high_low :: "pjmedia_jbuf \<Rightarrow> pjmedia_jbuf" where
  "clamp_prefetch_high_low jb =
     (if jb_init_prefetch jb \<noteq> 0 then
        (let jb = jb\<lparr>jb_prefetch := jb_eff_level jb\<rparr>;
             jb = (if jb_prefetch jb > jb_max_prefetch jb then jb\<lparr>jb_prefetch := jb_max_prefetch jb\<rparr> else jb)
         in if jb_prefetch jb < jb_min_prefetch jb then jb\<lparr>jb_prefetch := jb_min_prefetch jb\<rparr> else jb)
      else jb)"

definition jbuf_calculate_jitter :: "pjmedia_jbuf \<Rightarrow> pjmedia_jbuf" where
  "jbuf_calculate_jitter jb =
     (let jb = jb\<lparr>jb_burst := pj_math_stat_update (jb_burst jb) (jb_level jb),
                  jb_max_hist_level := max (jb_max_hist_level jb) (jb_level jb)\<rparr>
      in if jb_level jb < jb_eff_level jb then
           (let jb = jb\<lparr>jb_stable_hist := jb_stable_hist jb + 1\<rparr>
            in if jb_stable_hist jb > STABLE_HISTORY_LIMIT then
                 (let d = cdiv (jb_eff_level jb - jb_max_hist_level jb) 3;
                      diff = (if d < 1 then 1 else d);
                      jb = clamp_prefetch_low_high (jb\<lparr>jb_eff_level := jb_eff_level jb - diff\<rparr>)
                  in jb\<lparr>jb_max_hist_level := 0, jb_stable_hist := 0\<rparr>)
               else jb)
         else if jb_level jb > jb_eff_level jb then
           (let jb = clamp_prefetch_high_low
                  (jb\<lparr>jb_eff_level := min (jb_max_hist_level jb) (int (jb_max_count jb * 4 div 5))\<rparr>)
            in jb\<lparr>jb_stable_hist := 0\<rparr>)
         else jb\<lparr>jb_stable_hist := 0\<rparr>)"

section \<open>Discard algorithms\<close>

definition jbuf_discard_static :: "pjmedia_jbuf \<Rightarrow> pjmedia_jbuf" where
  "jbuf_discard_static jb =
     (let burst_level = max (jb_eff_level jb) (jb_level jb);
          diff = int (jb_framelist_eff_size (jb_flist jb)) - burst_level * 2
      in if diff \<ge> STA_DISC_SAFE_SHRINKING_DIFF then
           (let seq_origin = fl_origin (jb_flist jb);
                jb = (if seq_origin < jb_discard_ref jb then jb\<lparr>jb_discard_ref := seq_origin\<rparr> else jb)
            in if seq_origin - jb_discard_ref jb \<ge> jb_min_shrink_gap jb then
                 (let (fl, removed) = jb_framelist_remove_head (jb_flist jb) 1
                  in jb\<lparr>jb_flist := fl, jb_discard_ref := fl_origin fl,
                        jb_discard := jb_discard jb + of_nat removed\<rparr>)
               else jb)
         else jb)"

text \<open>The time, in milliseconds, over which an excess of frames is worked off.\<close>

definition progressive_period :: "nat \<Rightarrow> nat" where
  "progressive_period burst_level =
     (if burst_level \<le> PJMEDIA_JBUF_PRO_DISC_MIN_BURST then PJMEDIA_JBUF_PRO_DISC_T1
      else if burst_level \<ge> PJMEDIA_JBUF_PRO_DISC_MAX_BURST then PJMEDIA_JBUF_PRO_DISC_T2
      else PJMEDIA_JBUF_PRO_DISC_T1
        + (PJMEDIA_JBUF_PRO_DISC_T2 - PJMEDIA_JBUF_PRO_DISC_T1) * (burst_level - PJMEDIA_JBUF_PRO_DISC_MIN_BURST)
          div (PJMEDIA_JBUF_PRO_DISC_MAX_BURST - PJMEDIA_JBUF_PRO_DISC_MIN_BURST))"

definition jbuf_discard_progressive :: "pjmedia_jbuf \<Rightarrow> pjmedia_jbuf" where
  "jbuf_discard_progressive jb =
     (if jb_last_op jb \<noteq> JB_OP_PUT then jb
      else
        (let cur_size = jb_framelist_eff_size (jb_flist jb);
             burst_level = to_u32 (max (jb_eff_level jb) (jb_level jb))
         in if cur_size \<le> burst_level then jb\<lparr>jb_discard_dist := 0\<rparr>
            else
              (let overflow = cur_size - burst_level;
                   discard_dist = progressive_period burst_level div overflow div jb_frame_ptime jb;
                   last_seq = fl_origin (jb_flist jb) + int (fl_size (jb_flist jb)) - 1;
                   jb = (if jb_discard_dist jb = 0 then jb\<lparr>jb_discard_ref := last_seq\<rparr>
                         else if last_seq < jb_discard_ref jb then jb\<lparr>jb_discard_ref := last_seq\<rparr>
                         else jb);
                   jb = jb\<lparr>jb_discard_dist := nat (max (jb_min_shrink_gap jb) (int discard_dist))\<rparr>
               in if last_seq \<ge> jb_discard_ref jb + int (jb_discard_dist jb) then
                    (let seq = jb_discard_ref jb + int (jb_discard_dist jb);
                         discard_seq = (if seq < fl_origin (jb_flist jb) then fl_origin (jb_flist jb) else seq)
                     in jb\<lparr>jb_flist := snd (jb_framelist_discard (jb_flist jb) discard_seq),
                           jb_discard_ref := discard_seq\<rparr>)
                  else jb)))"

definition run_discard_algo :: "pjmedia_jbuf \<Rightarrow> pjmedia_jbuf" where
  "run_discard_algo jb =
     (case jb_discard_algo jb of
        PJMEDIA_JB_DISCARD_NONE \<Rightarrow> jb
      | PJMEDIA_JB_DISCARD_STATIC \<Rightarrow> jbuf_discard_static jb
      | PJMEDIA_JB_DISCARD_PROGRESSIVE \<Rightarrow> jbuf_discard_progressive jb)"

text \<open>
  \<^verbatim>\<open>jbuf_update\<close>: the block for a change of operation either returns early (\<open>Inl\<close>) or goes on to the discard
  algorithm (\<open>Inr\<close>).
\<close>

definition jbuf_switch_op :: "pjmedia_jbuf \<Rightarrow> jb_op \<Rightarrow> pjmedia_jbuf + pjmedia_jbuf" where
  "jbuf_switch_op jb oper =
     (let jb = jb\<lparr>jb_last_op := oper\<rparr>;
          init = (jb_state jb = JB_STATUS_INITIALIZING);
          jb = (if init then jb\<lparr>jb_init_cycle_cnt := jb_init_cycle_cnt jb + 1\<rparr> else jb);
          go = (jb_init_cycle_cnt jb \<ge> INIT_CYCLE \<and> oper = JB_OP_GET)
      in if init \<and> \<not> go then Inl (jb\<lparr>jb_level := 0\<rparr>)
         else
           (let jb = (if init then jb\<lparr>jb_state := JB_STATUS_PROCESSING,
                                      jb_level := min (jb_level jb) (jb_max_burst jb)\<rparr> else jb);
                jb = (if oper = JB_OP_GET \<and> jb_level jb \<le> jb_max_burst jb
                      then jbuf_calculate_jitter jb else jb)
            in Inr (jb\<lparr>jb_level := 0\<rparr>)))"

definition jbuf_update :: "pjmedia_jbuf \<Rightarrow> jb_op \<Rightarrow> pjmedia_jbuf" where
  "jbuf_update jb oper =
     (case (if jb_last_op jb \<noteq> oper then jbuf_switch_op jb oper else Inr jb) of
        Inl jb \<Rightarrow> jb
      | Inr jb \<Rightarrow> if jb_state jb = JB_STATUS_PROCESSING then run_discard_algo jb else jb)"

section \<open>Put and get\<close>

text \<open>The retry loop of \<^verbatim>\<open>pjmedia_jbuf_put_frame3\<close>: make room and try again while there is none.\<close>

partial_function (option) put_retry ::
    "int \<Rightarrow> u8 list \<Rightarrow> nat \<Rightarrow> u32 \<Rightarrow> u32 \<Rightarrow> pj_status \<Rightarrow> pjmedia_jbuf \<Rightarrow> (pj_status \<times> pjmedia_jbuf) option" where
  "put_retry frame_seq frame min_frame_size bit_info ts status jb =
     (if status = PJ_ETOOMANY then
        (let distance = frame_seq - fl_origin (jb_flist jb) - int (jb_max_count jb) + 1;
             (fl, removed) = jb_framelist_remove_head (jb_flist jb) (to_u32 distance);
             (status, fl) = jb_framelist_put_at fl frame_seq frame min_frame_size bit_info ts PJMEDIA_JB_NORMAL_FRAME
         in put_retry frame_seq frame min_frame_size bit_info ts status
              (jb\<lparr>jb_flist := fl, jb_discard := jb_discard jb + of_nat removed\<rparr>))
      else Some (status, jb))"

declare put_retry.simps [code]

text \<open>The result is the new buffer and the flag \<^verbatim>\<open>discarded\<close>.\<close>

definition pjmedia_jbuf_put_frame3 ::
    "pjmedia_jbuf \<Rightarrow> u8 list \<Rightarrow> nat \<Rightarrow> u32 \<Rightarrow> int \<Rightarrow> u32 \<Rightarrow> (pjmedia_jbuf \<times> bool) option" where
  "pjmedia_jbuf_put_frame3 jb frame frame_size bit_info frame_seq ts =
     (let cur_size = int (jb_framelist_eff_size (jb_flist jb));
          min_frame_size = min frame_size (jb_frame_size jb);
          (status, fl) = jb_framelist_put_at (jb_flist jb) frame_seq frame min_frame_size bit_info ts
                           PJMEDIA_JB_NORMAL_FRAME
      in case put_retry frame_seq frame min_frame_size bit_info ts status (jb\<lparr>jb_flist := fl\<rparr>) of
           None \<Rightarrow> None
         | Some (status, jb) \<Rightarrow>
             (let new_size = int (jb_framelist_eff_size (jb_flist jb)); discarded = (status \<noteq> PJ_SUCCESS)
              in if status = PJ_SUCCESS then
                   (let jb = (if jb_prefetching jb \<and> new_size \<ge> jb_prefetch jb
                              then jb\<lparr>jb_prefetching := False\<rparr> else jb);
                        jb = jb\<lparr>jb_level := jb_level jb + (if new_size > cur_size then new_size - cur_size else 1)\<rparr>
                    in Some (jbuf_update jb JB_OP_PUT, discarded))
                 else Some (jb\<lparr>jb_discard := jb_discard jb + 1\<rparr>, discarded)))"

definition pjmedia_jbuf_put_frame :: "pjmedia_jbuf \<Rightarrow> u8 list \<Rightarrow> nat \<Rightarrow> int \<Rightarrow> pjmedia_jbuf option" where
  "pjmedia_jbuf_put_frame jb frame frame_size frame_seq =
     map_option fst (pjmedia_jbuf_put_frame3 jb frame frame_size 0 frame_seq 0)"

definition pjmedia_jbuf_put_frame2 ::
    "pjmedia_jbuf \<Rightarrow> u8 list \<Rightarrow> nat \<Rightarrow> u32 \<Rightarrow> int \<Rightarrow> (pjmedia_jbuf \<times> bool) option" where
  "pjmedia_jbuf_put_frame2 jb frame frame_size bit_info frame_seq =
     pjmedia_jbuf_put_frame3 jb frame frame_size bit_info frame_seq 0"

text \<open>
  What \<^verbatim>\<open>pjmedia_jbuf_get_frame3\<close> tells its caller: the frame type, and the frame when one was taken from the
  list. The other values are the constants the code stores: size 0, and the buffer untouched while
  prefetching or zeroed by the list when it is empty.
\<close>

definition pjmedia_jbuf_get_frame3 ::
    "pjmedia_jbuf \<Rightarrow> nat option \<Rightarrow> (pjmedia_jbuf \<times> jb_frame_type \<times> (u8 list + jb_frame_out) option) option" where
  "pjmedia_jbuf_get_frame3 jb buf_size =
     (let finish = (\<lambda>jb. jbuf_update (jb\<lparr>jb_level := jb_level jb + 1\<rparr>) JB_OP_GET)
      in if jb_prefetching jb then
           Some (finish (jb\<lparr>jb_empty := jb_empty jb + 1\<rparr>), PJMEDIA_JB_ZERO_PREFETCH_FRAME, None)
         else
           (case jb_framelist_get (jb_flist jb) buf_size of
              None \<Rightarrow> None
            | Some (fl, Inr out) \<Rightarrow>
                (let jb = jb\<lparr>jb_flist := fl\<rparr>;
                     normal = (out_type out = PJMEDIA_JB_NORMAL_FRAME);
                     ftype = (if normal then PJMEDIA_JB_NORMAL_FRAME else PJMEDIA_JB_MISSING_FRAME);
                     jb = (if normal then jb else jb\<lparr>jb_lost := jb_lost jb + 1\<rparr>);
                     jb = (if jb_last_op jb = JB_OP_PUT
                           then jb\<lparr>jb_delay := pj_math_stat_update (jb_delay jb)
                                     (int ((jb_framelist_eff_size fl + 1) * jb_frame_ptime jb))\<rparr>
                           else jb)
                 in Some (finish jb, ftype, Some (Inr out)))
            | Some (fl, Inl zeros) \<Rightarrow>
                (let jb = jb\<lparr>jb_flist := fl\<rparr>;
                     jb = (if jb_prefetch jb \<noteq> 0 then jb\<lparr>jb_prefetching := True\<rparr> else jb)
                 in Some (finish (jb\<lparr>jb_empty := jb_empty jb + 1\<rparr>), PJMEDIA_JB_ZERO_EMPTY_FRAME, Some (Inl zeros)))))"

definition pjmedia_jbuf_get_frame ::
    "pjmedia_jbuf \<Rightarrow> (pjmedia_jbuf \<times> jb_frame_type \<times> (u8 list + jb_frame_out) option) option" where
  "pjmedia_jbuf_get_frame jb = pjmedia_jbuf_get_frame3 jb None"

definition pjmedia_jbuf_get_frame2 ::
    "pjmedia_jbuf \<Rightarrow> nat option \<Rightarrow> (pjmedia_jbuf \<times> jb_frame_type \<times> (u8 list + jb_frame_out) option) option" where
  "pjmedia_jbuf_get_frame2 jb buf_size = pjmedia_jbuf_get_frame3 jb buf_size"

section \<open>State, peek and remove\<close>

record pjmedia_jb_state =
  st_frame_size :: nat
  st_min_prefetch :: int
  st_max_prefetch :: int
  st_max_count :: nat
  st_burst :: int
  st_prefetch :: int
  st_size :: nat
  st_min_delay :: int
  st_max_delay :: int
  st_lost :: u32
  st_discard :: u32
  st_empty :: u32

definition pjmedia_jbuf_get_state :: "pjmedia_jbuf \<Rightarrow> pjmedia_jb_state" where
  "pjmedia_jbuf_get_state jb =
     \<lparr>st_frame_size = jb_frame_size jb, st_min_prefetch = jb_min_prefetch jb,
      st_max_prefetch = jb_max_prefetch jb, st_max_count = jb_max_count jb,
      st_burst = jb_eff_level jb, st_prefetch = jb_prefetch jb,
      st_size = jb_framelist_eff_size (jb_flist jb),
      st_min_delay = stat_min (jb_delay jb), st_max_delay = stat_max (jb_delay jb),
      st_lost = jb_lost jb, st_discard = jb_discard jb, st_empty = jb_empty jb\<rparr>"

definition pjmedia_jbuf_peek_frame :: "pjmedia_jbuf \<Rightarrow> nat \<Rightarrow> (jb_frame_type \<times> jb_frame_out option) option" where
  "pjmedia_jbuf_peek_frame jb offset =
     (case jb_framelist_peek (jb_flist jb) offset of
        None \<Rightarrow> None
      | Some None \<Rightarrow> Some (PJMEDIA_JB_ZERO_EMPTY_FRAME, None)
      | Some (Some out) \<Rightarrow>
          Some (if out_type out = PJMEDIA_JB_NORMAL_FRAME then PJMEDIA_JB_NORMAL_FRAME
                else PJMEDIA_JB_MISSING_FRAME, Some out))"

text \<open>The loop of \<^verbatim>\<open>pjmedia_jbuf_remove_frame\<close> ends because the number of discarded frames goes down.\<close>

function remove_more :: "jb_framelist \<Rightarrow> nat \<Rightarrow> nat \<Rightarrow> jb_framelist \<times> nat" where
  "remove_more fl last_discard_num removed =
     (if fl_discarded_num fl < last_discard_num then
        (let frame_cnt = last_discard_num - fl_discarded_num fl;
             (fl', n) = jb_framelist_remove_head fl frame_cnt
         in remove_more fl' (fl_discarded_num fl) (u32_add (u32_sub removed frame_cnt) n))
      else (fl, removed))"
  by pat_completeness auto
termination
  by (relation "measure (\<lambda>(fl, last, removed). last)") auto

declare remove_more.simps [simp del]

definition pjmedia_jbuf_remove_frame :: "pjmedia_jbuf \<Rightarrow> nat \<Rightarrow> pjmedia_jbuf \<times> nat" where
  "pjmedia_jbuf_remove_frame jb frame_cnt =
     (let last_discard_num = fl_discarded_num (jb_flist jb);
          (fl, removed) = jb_framelist_remove_head (jb_flist jb) frame_cnt;
          (fl, removed) = remove_more fl last_discard_num removed
      in (jb\<lparr>jb_flist := fl\<rparr>, removed))"

section \<open>Invariant\<close>

text \<open>
  \<open>discards_ok\<close>: the progressive algorithm never picks a frame that is discarded already, because the
  discarded frames of the window are not beyond its reference; the static algorithm moves the
  reference, so it must not run while a schedule with discarded frames is pending.
\<close>

definition discards_ok :: "pjmedia_jbuf \<Rightarrow> bool" where
  "discards_ok jb \<longleftrightarrow>
     (jb_discard_dist jb \<noteq> 0 \<longrightarrow>
        (\<forall>i < fl_size (jb_flist jb). frames (jb_flist jb) ! i = Discarded \<longrightarrow>
           fl_origin (jb_flist jb) + int i \<le> jb_discard_ref jb))
     \<and> (jb_discard_algo jb = PJMEDIA_JB_DISCARD_STATIC \<longrightarrow>
          jb_discard_dist jb = 0 \<or> Discarded \<notin> set (frames (jb_flist jb)))"

definition levels_ok :: "pjmedia_jbuf \<Rightarrow> bool" where
  "levels_ok jb \<longleftrightarrow>
     0 \<le> jb_level jb \<and> 0 \<le> jb_max_hist_level jb \<and> 0 \<le> jb_eff_level jb
     \<and> jb_eff_level jb \<le> int (jb_max_count jb * 4 div 5)
     \<and> 0 < jb_frame_ptime jb \<and> 1 \<le> jb_min_shrink_gap jb \<and> 0 \<le> jb_max_burst jb
     \<and> 0 \<le> jb_min_prefetch jb \<and> jb_min_prefetch jb \<le> jb_max_prefetch jb
     \<and> jb_max_prefetch jb \<le> int (jb_max_count jb)
     \<and> 0 \<le> jb_prefetch jb \<and> jb_prefetch jb \<le> jb_max_prefetch jb"

definition jb_inv :: "pjmedia_jbuf \<Rightarrow> bool" where
  "jb_inv jb \<longleftrightarrow> fl_inv (jb_flist jb) \<and> jb_frame_size jb = fl_frame_size (jb_flist jb)
     \<and> jb_max_count jb = fl_max_count (jb_flist jb) \<and> levels_ok jb \<and> discards_ok jb"

lemma jb_invD [dest]:
  assumes "jb_inv jb"
  shows "fl_inv (jb_flist jb)" "jb_frame_size jb = fl_frame_size (jb_flist jb)"
    "jb_max_count jb = fl_max_count (jb_flist jb)" "levels_ok jb" "discards_ok jb"
  using assms by (auto simp: jb_inv_def)

text \<open>Changing the list to one whose discarded frames are, by index, among those of the old one.\<close>

definition discards_within :: "jb_framelist \<Rightarrow> jb_framelist \<Rightarrow> bool" where
  "discards_within fl fl' \<longleftrightarrow>
     (\<forall>i' < fl_size fl'. frames fl' ! i' = Discarded \<longrightarrow>
        (\<exists>i < fl_size fl. frames fl ! i = Discarded \<and> fl_origin fl' + int i' \<le> fl_origin fl + int i))"

lemma discards_within_refl [simp]: "discards_within fl fl"
  by (auto simp: discards_within_def)

lemma discards_within_trans: "discards_within a b \<Longrightarrow> discards_within b c \<Longrightarrow> discards_within a c"
  unfolding discards_within_def by (meson order_trans)

lemma discards_within_set:
  "discards_within fl fl' \<Longrightarrow> Discarded \<in> set (frames fl') \<Longrightarrow> Discarded \<in> set (frames fl)"
  unfolding discards_within_def by (metis in_set_conv_nth length_frames)

lemma jb_inv_list:
  assumes "jb_inv jb" and "fl_inv fl" and "fl_same (jb_flist jb) fl" and "discards_within (jb_flist jb) fl"
  shows "jb_inv (jb\<lparr>jb_flist := fl\<rparr>)"
proof -
  have "discards_ok (jb\<lparr>jb_flist := fl\<rparr>)"
    using jb_invD(5) [OF assms(1)] assms(4) discards_within_set [OF assms(4)]
    unfolding discards_ok_def discards_within_def by (fastforce intro: order_trans)
  moreover have "levels_ok (jb\<lparr>jb_flist := fl\<rparr>)" using jb_invD(4) [OF assms(1)] by (simp add: levels_ok_def)
  ultimately show ?thesis using jb_invD(2,3) [OF assms(1)] assms(2,3) by (simp add: jb_inv_def fl_same_def)
qed

lemma discards_within_remove_head:
  assumes "fl_inv fl"
  shows "discards_within fl (fst (jb_framelist_remove_head fl n))"
  unfolding discards_within_def
proof (intro allI impI)
  fix i assume i: "i < fl_size (fst (jb_framelist_remove_head fl n))"
    "frames (fst (jb_framelist_remove_head fl n)) ! i = Discarded"
  note d = flist.drop_index [OF assms, unfolded length_frames, OF i(1)]
  show "\<exists>j<fl_size fl. frames fl ! j = Discarded \<and>
      fl_origin (fst (jb_framelist_remove_head fl n)) + int i \<le> fl_origin fl + int j"
    using d i(2) by (intro exI [of _ "i + n"]) simp
qed

text \<open>Storing a frame makes no discarded ones; after a restart of the numbering their indices are lower.\<close>

lemma rebase_discards:
  assumes "spec_rebase cap (org, xs) index = (org', xs')"
  shows "xs' = [] \<or> xs' = xs \<and> (org' = org \<or> index < org \<and> org' = index - int (length xs))"
  using assms by (auto simp: spec_rebase_def split: if_splits)

lemma discards_within_put_at:
  fixes bi ts :: u32
  assumes inv: "fl_inv fl" and idx: "0 \<le> index" "index < 2 ^ 31"
    and frame: "sz \<le> length frame" "sz \<le> fl_frame_size fl"
  shows "discards_within fl (snd (jb_framelist_put_at fl index frame sz bi ts PJMEDIA_JB_NORMAL_FRAME))"
proof -
  let ?r = "jb_framelist_put_at fl index frame sz bi ts PJMEDIA_JB_NORMAL_FRAME"
  obtain org' xs' where rb: "spec_rebase (fl_max_count fl) (fl_abs fl) index = (org', xs')" by fastforce
  note rd = rebase_discards [OF rb [unfolded fl_abs_def]]
  have "(fst ?r, fl_origin (snd ?r), frames (snd ?r)) =
      spec_put_at (fl_max_count fl) (fl_abs fl) index (Frame (take sz frame) bi ts)"
    using put_at_refines(1) [OF inv idx frame] by (simp add: fl_abs_def)
  then have "snd ?r = snd ?r \<and> (fl_origin (snd ?r) = fl_origin fl \<and> frames (snd ?r) = frames fl
      \<or> fl_origin (snd ?r) = org' \<and> (frames (snd ?r) = xs' \<or> (\<exists>d bytes. frames (snd ?r) = spec_put xs' d (Frame bytes bi ts))))"
    using rb by (auto simp: spec_put_at_def fl_abs_def Let_def split: if_splits)
  then consider "fl_origin (snd ?r) = fl_origin fl" "frames (snd ?r) = frames fl"
    | d bytes where "fl_origin (snd ?r) = org'" "frames (snd ?r) = xs' \<or> frames (snd ?r) = spec_put xs' d (Frame bytes bi ts)"
    by blast
  then show ?thesis
  proof cases
    case 1
    then show ?thesis unfolding discards_within_def by (metis length_frames order_refl)
  next
    case 2
    show ?thesis unfolding discards_within_def
    proof (intro allI impI)
      fix i assume i: "i < fl_size (snd ?r)" "frames (snd ?r) ! i = Discarded"
      have "i < length xs' \<and> xs' ! i = Discarded"
      proof (cases "frames (snd ?r) = xs'")
        case True
        then show ?thesis using i by (metis length_frames)
      next
        case False
        then have p: "frames (snd ?r) = spec_put xs' d (Frame bytes bi ts)" using 2(2) by blast
        then have "i < max (length xs') (Suc d)" using i(1) by (metis length_frames length_spec_put)
        with p i(2) show ?thesis by (auto simp: nth_spec_put split: if_splits)
      qed
      then show "\<exists>ia<fl_size fl. frames fl ! ia = Discarded \<and> fl_origin (snd ?r) + int i \<le> fl_origin fl + int ia"
        using rd 2(1) by (intro exI [of _ i]) auto
    qed
  qed
qed


section \<open>The burst level\<close>

lemma clamp_fields [simp]:
  "jb_flist (clamp_prefetch_low_high jb) = jb_flist jb"
  "jb_flist (clamp_prefetch_high_low jb) = jb_flist jb"
  "jb_frame_size (clamp_prefetch_low_high jb) = jb_frame_size jb"
  "jb_frame_size (clamp_prefetch_high_low jb) = jb_frame_size jb"
  "jb_max_count (clamp_prefetch_low_high jb) = jb_max_count jb"
  "jb_max_count (clamp_prefetch_high_low jb) = jb_max_count jb"
  "jb_discard_dist (clamp_prefetch_low_high jb) = jb_discard_dist jb"
  "jb_discard_dist (clamp_prefetch_high_low jb) = jb_discard_dist jb"
  "jb_discard_ref (clamp_prefetch_low_high jb) = jb_discard_ref jb"
  "jb_discard_ref (clamp_prefetch_high_low jb) = jb_discard_ref jb"
  "jb_discard_algo (clamp_prefetch_low_high jb) = jb_discard_algo jb"
  "jb_discard_algo (clamp_prefetch_high_low jb) = jb_discard_algo jb"
  "jb_last_op (clamp_prefetch_low_high jb) = jb_last_op jb"
  "jb_last_op (clamp_prefetch_high_low jb) = jb_last_op jb"
  "jb_state (clamp_prefetch_low_high jb) = jb_state jb"
  "jb_state (clamp_prefetch_high_low jb) = jb_state jb"
  "jb_discard (clamp_prefetch_low_high jb) = jb_discard jb"
  "jb_discard (clamp_prefetch_high_low jb) = jb_discard jb"
  unfolding clamp_prefetch_low_high_def clamp_prefetch_high_low_def Let_def by simp_all

lemma calculate_jitter_fields [simp]:
  "jb_flist (jbuf_calculate_jitter jb) = jb_flist jb"
  "jb_frame_size (jbuf_calculate_jitter jb) = jb_frame_size jb"
  "jb_max_count (jbuf_calculate_jitter jb) = jb_max_count jb"
  "jb_discard_dist (jbuf_calculate_jitter jb) = jb_discard_dist jb"
  "jb_discard_ref (jbuf_calculate_jitter jb) = jb_discard_ref jb"
  "jb_discard_algo (jbuf_calculate_jitter jb) = jb_discard_algo jb"
  "jb_last_op (jbuf_calculate_jitter jb) = jb_last_op jb"
  "jb_state (jbuf_calculate_jitter jb) = jb_state jb"
  "jb_discard (jbuf_calculate_jitter jb) = jb_discard jb"
  unfolding jbuf_calculate_jitter_def Let_def by (simp_all add: if_distrib)

lemma clamp_levels:
  assumes "levels_ok jb"
  shows "levels_ok (clamp_prefetch_low_high jb)" "levels_ok (clamp_prefetch_high_low jb)"
  using assms
  by (auto simp: clamp_prefetch_low_high_def clamp_prefetch_high_low_def levels_ok_def Let_def)

lemma cdiv_third_bound:
  assumes "0 \<le> b" "0 < a"
  shows "a - (if cdiv (a - b) 3 < 1 then 1 else cdiv (a - b) 3) \<ge> 0"
proof (cases "a - b \<ge> 0")
  case True
  then have "cdiv (a - b) 3 \<le> a" using assms by (simp add: cdiv_nonneg)
  then show ?thesis using assms by simp
next
  case False
  then have "cdiv (a - b) 3 \<le> 0"
    by (simp add: cdiv_def)
  then show ?thesis using assms by simp
qed

lemma calculate_jitter_levels:
  assumes "levels_ok jb"
  shows "levels_ok (jbuf_calculate_jitter jb)"
proof -
  let ?j1 = "jb\<lparr>jb_burst := pj_math_stat_update (jb_burst jb) (jb_level jb),
                  jb_max_hist_level := max (jb_max_hist_level jb) (jb_level jb)\<rparr>"
  have j1: "levels_ok ?j1" using assms by (simp add: levels_ok_def le_max_iff_disj)
  have hist: "levels_ok (j\<lparr>jb_stable_hist := n\<rparr>) = levels_ok j" for j n by (simp add: levels_ok_def)
  have hist0: "levels_ok j \<Longrightarrow> levels_ok (j\<lparr>jb_max_hist_level := 0, jb_stable_hist := 0\<rparr>)" for j
    by (simp add: levels_ok_def)
  consider "jb_level jb < jb_eff_level jb" | "jb_level jb > jb_eff_level jb" | "jb_level jb = jb_eff_level jb"
    by linarith
  then show ?thesis
  proof cases
    case 1
    define e where "e = jb_eff_level jb - (if cdiv (jb_eff_level jb - max (jb_max_hist_level jb) (jb_level jb)) 3 < 1
        then 1 else cdiv (jb_eff_level jb - max (jb_max_hist_level jb) (jb_level jb)) 3)"
    have "0 \<le> e" unfolding e_def by (rule cdiv_third_bound) (use assms 1 in \<open>auto simp: levels_ok_def\<close>)
    moreover have "e \<le> jb_eff_level jb" by (simp add: e_def)
    ultimately have "levels_ok (?j1\<lparr>jb_stable_hist := n, jb_eff_level := e\<rparr>)" for n
      using assms by (simp add: levels_ok_def le_max_iff_disj)
    from hist0 [OF clamp_levels(1) [OF this]] show ?thesis
      using 1 j1 by (simp add: jbuf_calculate_jitter_def Let_def hist e_def)
  next
    case 2
    have "levels_ok (?j1\<lparr>jb_eff_level := min (max (jb_max_hist_level jb) (jb_level jb)) (int (jb_max_count jb * 4 div 5))\<rparr>)"
      using assms by (simp add: levels_ok_def le_max_iff_disj)
    from clamp_levels(2) [OF this] show ?thesis
      using 2 by (simp add: jbuf_calculate_jitter_def Let_def hist)
  next
    case 3
    then show ?thesis using j1 by (simp add: jbuf_calculate_jitter_def Let_def hist)
  qed
qed

section \<open>Discarding\<close>

lemma jb_inv_discard_count [simp]: "jb_inv (jb\<lparr>jb_discard := n\<rparr>) = jb_inv jb"
  by (simp add: jb_inv_def levels_ok_def discards_ok_def)

text \<open>The bookkeeping steps keep the invariant and only lose frames.\<close>

definition jb_steady :: "pjmedia_jbuf \<Rightarrow> pjmedia_jbuf \<Rightarrow> bool" where
  "jb_steady jb jb' \<longleftrightarrow> jb_inv jb' \<and> shrinks (jb_flist jb) (jb_flist jb')"

lemma discard_static_steady:
  assumes inv: "jb_inv jb" and "jb_discard_algo jb = PJMEDIA_JB_DISCARD_STATIC"
  shows "jb_steady jb (jbuf_discard_static jb)"
proof -
  have ref: "jb_inv (j\<lparr>jb_discard_ref := r\<rparr>)" if "jb_inv j" "jb_discard_algo j = PJMEDIA_JB_DISCARD_STATIC" for j r
    using that by (auto simp: jb_inv_def levels_ok_def discards_ok_def in_set_conv_nth)
  define j where "j = (if fl_origin (jb_flist jb) < jb_discard_ref jb
      then jb\<lparr>jb_discard_ref := fl_origin (jb_flist jb)\<rparr> else jb)"
  have j: "jb_inv j" "jb_discard_algo j = PJMEDIA_JB_DISCARD_STATIC" "jb_flist j = jb_flist jb"
    using assms ref by (simp_all add: j_def)
  let ?r = "jb_framelist_remove_head (jb_flist j) 1"
  have "jb_inv (j\<lparr>jb_flist := fst ?r\<rparr>)"
    using jb_inv_list [OF j(1)] remove_head_spec(1) discards_within_remove_head jb_invD(1) [OF j(1)] by simp
  then have "jb_inv (j\<lparr>jb_flist := fst ?r, jb_discard_ref := k, jb_discard := d\<rparr>)" for k d
    using ref [of "j\<lparr>jb_flist := fst ?r\<rparr>" k] j(2) by simp
  moreover have "shrinks (jb_flist jb) (fst ?r)"
    using shrinks_remove_head [OF jb_invD(1) [OF j(1)]] j(3) by simp
  ultimately show ?thesis
    using j inv by (simp add: jbuf_discard_static_def Let_def case_prod_beta jb_steady_def flip: j_def)
qed

text \<open>
  The schedule the progressive algorithm works with after it adjusted the reference: it is ahead of every
  discarded frame, so the frame it discards next is a fresh one of the window.
\<close>

lemma progressive_discard_step:
  assumes inv: "fl_inv fl" and ne: "0 < fl_size fl"
    and below: "\<And>i. i < fl_size fl \<Longrightarrow> frames fl ! i = Discarded \<Longrightarrow> fl_origin fl + int i \<le> ref"
    and dist: "0 < dist" and now: "ref + int dist \<le> fl_origin fl + int (fl_size fl) - 1"
  defines "seq \<equiv> (if ref + int dist < fl_origin fl then fl_origin fl else ref + int dist)"
  shows "fl_inv (snd (jb_framelist_discard fl seq))" "fl_same fl (snd (jb_framelist_discard fl seq))"
    "fl_origin (snd (jb_framelist_discard fl seq)) = fl_origin fl"
    "\<And>i. i < fl_size fl \<Longrightarrow> frames (snd (jb_framelist_discard fl seq)) ! i = Discarded \<Longrightarrow> fl_origin fl + int i \<le> seq"
    "fl_size (snd (jb_framelist_discard fl seq)) = fl_size fl"
    "shrinks fl (snd (jb_framelist_discard fl seq))"
proof -
  define d where "d = nat (seq - fl_origin fl)"
  have seq: "seq = fl_origin fl + int d" and d: "d < fl_size fl"
    using ne now by (auto simp: d_def seq_def)
  have "ref < seq" using dist by (simp add: seq_def)
  then have fresh: "frames fl ! d \<noteq> Discarded" using below [OF d] seq by auto
  note ds = discard_spec [OF inv d fresh, folded seq]
  show "fl_inv (snd (jb_framelist_discard fl seq))" "fl_same fl (snd (jb_framelist_discard fl seq))"
    "fl_origin (snd (jb_framelist_discard fl seq)) = fl_origin fl" using ds by simp_all
  show "shrinks fl (snd (jb_framelist_discard fl seq))" unfolding seq by (rule shrinks_discard [OF inv d fresh])
  show "fl_size (snd (jb_framelist_discard fl seq)) = fl_size fl"
    using ds(3) by (metis length_frames length_list_update)
  fix i assume i: "i < fl_size fl" "frames (snd (jb_framelist_discard fl seq)) ! i = Discarded"
  then show "fl_origin fl + int i \<le> seq"
    using ds(3) below [OF i(1)] \<open>ref < seq\<close> seq by (cases "i = d") auto
qed

lemma discard_progressive_steady:
  assumes inv: "jb_inv jb" and algo: "jb_discard_algo jb = PJMEDIA_JB_DISCARD_PROGRESSIVE"
  shows "jb_steady jb (jbuf_discard_progressive jb)"
proof (cases "jb_last_op jb = JB_OP_PUT
    \<and> \<not> jb_framelist_eff_size (jb_flist jb) \<le> to_u32 (max (jb_eff_level jb) (jb_level jb))")
  case False
  have "jb_inv (jb\<lparr>jb_discard_dist := 0\<rparr>)" using inv by (auto simp: jb_inv_def levels_ok_def discards_ok_def)
  with False inv show ?thesis by (auto simp: jbuf_discard_progressive_def Let_def jb_steady_def)
next
  case True
  let ?fl = "jb_flist jb"
  define b where "b = to_u32 (max (jb_eff_level jb) (jb_level jb))"
  define last where "last = fl_origin ?fl + int (fl_size ?fl) - 1"
  define ref where "ref = (if jb_discard_dist jb = 0 \<or> last < jb_discard_ref jb then last else jb_discard_ref jb)"
  define dist where "dist = nat (max (jb_min_shrink_gap jb)
    (int (progressive_period b div (jb_framelist_eff_size ?fl - b) div jb_frame_ptime jb)))"
  define seq where "seq = (if ref + int dist < fl_origin ?fl then fl_origin ?fl else ref + int dist)"
  note fi = jb_invD(1) [OF inv]
  have size: "0 < fl_size ?fl"
    using True eff_size_spec [OF fi] by (cases "fl_size ?fl") (simp_all flip: frames_Nil)
  have dist: "0 < dist" using jb_invD(4) [OF inv] by (auto simp: dist_def levels_ok_def less_max_iff_disj)
  have below: "fl_origin ?fl + int i \<le> ref" if "i < fl_size ?fl" "frames ?fl ! i = Discarded" for i
    using that jb_invD(5) [OF inv] by (auto simp: ref_def last_def discards_ok_def)
  have eq: "jbuf_discard_progressive jb =
      (if ref + int dist \<le> last
       then jb\<lparr>jb_discard_dist := dist, jb_flist := snd (jb_framelist_discard ?fl seq), jb_discard_ref := seq\<rparr>
       else jb\<lparr>jb_discard_ref := ref, jb_discard_dist := dist\<rparr>)"
  proof -
    have j: "(if jb_discard_dist jb = 0 then jb\<lparr>jb_discard_ref := last\<rparr>
        else if last < jb_discard_ref jb then jb\<lparr>jb_discard_ref := last\<rparr> else jb) = jb\<lparr>jb_discard_ref := ref\<rparr>"
      by (simp add: ref_def)
    show ?thesis
      using True unfolding jbuf_discard_progressive_def Let_def last_def [symmetric] b_def [symmetric] j
      by (simp add: dist_def [symmetric] seq_def)
  qed
  show ?thesis
  proof (cases "ref + int dist \<le> last")
    case now: True
    note p = progressive_discard_step [OF fi size below dist now [unfolded last_def], folded seq_def]
    have "discards_ok (jb\<lparr>jb_discard_dist := dist, jb_flist := snd (jb_framelist_discard ?fl seq), jb_discard_ref := seq\<rparr>)"
      using p(3-5) algo by (simp add: discards_ok_def)
    with now show ?thesis unfolding eq using p(1,2,6) jb_invD(2-4) [OF inv]
      by (simp add: jb_inv_def fl_same_def levels_ok_def jb_steady_def)
  next
    case False
    have "discards_ok (jb\<lparr>jb_discard_ref := ref, jb_discard_dist := dist\<rparr>)"
      using below algo by (simp add: discards_ok_def)
    with False show ?thesis unfolding eq using jb_invD(1-4) [OF inv]
      by (simp add: jb_inv_def levels_ok_def jb_steady_def)
  qed
qed

lemma run_discard_algo_steady: "jb_inv jb \<Longrightarrow> jb_steady jb (run_discard_algo jb)"
  by (cases "jb_discard_algo jb")
    (simp_all add: run_discard_algo_def discard_static_steady discard_progressive_steady jb_steady_def [of jb jb])

text \<open>Fields the invariant does not read, and the level.\<close>

lemma jb_inv_upd [simp]:
  "jb_inv (jb\<lparr>jb_last_op := a\<rparr>) = jb_inv jb" "jb_inv (jb\<lparr>jb_init_cycle_cnt := b\<rparr>) = jb_inv jb"
  "jb_inv (jb\<lparr>jb_state := c\<rparr>) = jb_inv jb" "jb_inv (jb\<lparr>jb_empty := d\<rparr>) = jb_inv jb"
  "jb_inv (jb\<lparr>jb_lost := e\<rparr>) = jb_inv jb" "jb_inv (jb\<lparr>jb_prefetching := f\<rparr>) = jb_inv jb"
  "jb_inv (jb\<lparr>jb_delay := g\<rparr>) = jb_inv jb"
  by (simp_all add: jb_inv_def levels_ok_def discards_ok_def)

lemma jb_inv_level: "jb_inv jb \<Longrightarrow> 0 \<le> l \<Longrightarrow> jb_inv (jb\<lparr>jb_level := l\<rparr>)"
  by (auto simp: jb_inv_def levels_ok_def discards_ok_def)

lemma calculate_jitter_inv: "jb_inv jb \<Longrightarrow> jb_inv (jbuf_calculate_jitter jb)"
  by (auto simp: jb_inv_def calculate_jitter_levels discards_ok_def)

lemma jbuf_switch_op_inv:
  assumes "jb_inv jb"
  shows "case jbuf_switch_op jb oper of
      Inl j \<Rightarrow> jb_inv j \<and> jb_flist j = jb_flist jb | Inr j \<Rightarrow> jb_inv j \<and> jb_flist j = jb_flist jb"
proof -
  have l: "0 \<le> jb_level jb" "0 \<le> jb_max_burst jb" using jb_invD(4) [OF assms] by (simp_all add: levels_ok_def)
  show ?thesis
    unfolding jbuf_switch_op_def Let_def
    using assms l by (simp add: jb_inv_level calculate_jitter_inv)
qed

lemma jbuf_update_steady:
  assumes "jb_inv jb"
  shows "jb_steady jb (jbuf_update jb oper)"
proof -
  obtain r where r: "(if jb_last_op jb \<noteq> oper then jbuf_switch_op jb oper else Inr jb) = r" by blast
  have "case r of Inl j \<Rightarrow> jb_inv j \<and> jb_flist j = jb_flist jb | Inr j \<Rightarrow> jb_inv j \<and> jb_flist j = jb_flist jb"
    using jbuf_switch_op_inv [OF assms, of oper] assms r by (cases "jb_last_op jb = oper") auto
  then show ?thesis
    unfolding jbuf_update_def r using run_discard_algo_steady
    by (cases r) (fastforce simp: jb_steady_def)+
qed

section \<open>Put\<close>

text \<open>
  Where a frame goes when the list is full: the oldest frames are dropped until the new one is the last of a
  full window, or all of them.
\<close>

definition spec_jb_put :: "nat \<Rightarrow> int \<times> jframe list \<Rightarrow> int \<Rightarrow> jframe \<Rightarrow> pj_status \<times> int \<times> jframe list" where
  "spec_jb_put cap v seq f =
     (case spec_put_at cap v seq f of
        (PJ_ETOOMANY, org, xs) \<Rightarrow>
          (let n = nat (seq - org) + 1 - cap
           in if length xs \<le> n then (PJ_SUCCESS, seq, [f])
              else (PJ_SUCCESS, org + int n, spec_put (drop n xs) (cap - 1) f))
      | r \<Rightarrow> r)"

text \<open>After one removal there is room, so the loop runs its body at most once.\<close>

lemma put_after_removal:
  assumes "fl_inv fl" and "spec_put_at cap (org0, xs0) seq f = (PJ_ETOOMANY, org, xs)" and "length xs \<le> cap" and "0 < cap"
  defines "n \<equiv> nat (seq - org) + 1 - cap"
  shows "org + int cap \<le> seq" "int n = seq - org - int cap + 1" "seq - org \<le> JB_MAX_DROPOUT"
    "spec_put_at cap (org + int (min n (length xs)), drop n xs) seq f =
      (if length xs \<le> n then (PJ_SUCCESS, seq, [f])
       else (PJ_SUCCESS, org + int n, spec_put (drop n xs) (cap - 1) f))"
proof -
  have rb: "spec_rebase cap (org0, xs0) seq = (org, xs)" and d: "cap \<le> nat (seq - org)"
    using assms(2) by (auto simp: spec_put_at_def Let_def split: if_splits prod.splits)
  show 1: "org + int cap \<le> seq" using d assms(4) by linarith
  then show 2: "int n = seq - org - int cap + 1" unfolding n_def by linarith
  have ne: "xs \<noteq> []" and near: "seq - org \<le> JB_MAX_DROPOUT"
    using rb 1 assms(4) by (auto simp: spec_rebase_def split: if_splits)
  show "seq - org \<le> JB_MAX_DROPOUT" by (rule near)
  show "spec_put_at cap (org + int (min n (length xs)), drop n xs) seq f =
      (if length xs \<le> n then (PJ_SUCCESS, seq, [f])
       else (PJ_SUCCESS, org + int n, spec_put (drop n xs) (cap - 1) f))"
  proof (cases "length xs \<le> n")
    case True
    then have "org + int (min n (length xs)) \<le> seq" using 1 assms(3) by simp
    with True assms(4) show ?thesis by (simp add: spec_put_at_def spec_rebase_def spec_put_def)
  next
    case False
    then have m: "org + int (min n (length xs)) = org + int n" "drop n xs \<noteq> []" by simp_all
    have d: "nat (seq - (org + int n)) = cap - 1" "org + int n \<le> seq" using 2 assms(4) by linarith+
    have far: "\<not> int cap \<le> seq - (org + int n)" using 2 by linarith
    have "\<not> cap - 1 < length (drop n xs)" using assms(3) 2 1 by simp
    with False m d far assms(4) show ?thesis by (simp add: spec_put_at_def spec_rebase_def Let_def)
  qed
qed


lemma put_frame_loop:
  fixes bi ts :: u32
  assumes inv: "jb_inv jb" and idx: "0 \<le> seq" "seq < 2 ^ 31"
    and frame: "sz \<le> length frame" "sz \<le> jb_frame_size jb"
  defines "r \<equiv> jb_framelist_put_at (jb_flist jb) seq frame sz bi ts PJMEDIA_JB_NORMAL_FRAME"
  shows "\<exists>st fl n. put_retry seq frame sz bi ts (fst r) (jb\<lparr>jb_flist := snd r\<rparr>)
      = Some (st, jb\<lparr>jb_flist := fl, jb_discard := jb_discard jb + of_nat n\<rparr>)
    \<and> fl_inv fl \<and> fl_same (jb_flist jb) fl \<and> discards_within (jb_flist jb) fl
    \<and> (st, fl_abs fl) = spec_jb_put (jb_max_count jb) (fl_abs (jb_flist jb)) seq (Frame (take sz frame) bi ts)"
proof -
  let ?f = "Frame (take sz frame) bi ts" and ?cap = "jb_max_count jb"
  note fi = jb_invD(1) [OF inv]
  have sz: "sz \<le> fl_frame_size (jb_flist jb)" and cap: "fl_max_count (jb_flist jb) = ?cap"
    using frame(2) jb_invD(2,3) [OF inv] by simp_all
  note p = put_at_refines [OF fi idx frame(1) sz, of bi ts, folded r_def, unfolded cap]
  note w = discards_within_put_at [OF fi idx frame(1) sz, of bi ts, folded r_def]
  show ?thesis
  proof (cases "fst r = PJ_ETOOMANY")
    case False
    then have "spec_jb_put ?cap (fl_abs (jb_flist jb)) seq ?f = (fst r, fl_abs (snd r))"
      unfolding spec_jb_put_def p(1) [symmetric] by (cases "fst r") (simp_all add: fl_abs_def)
    with False p(2,3) w show ?thesis
      by (intro exI [of _ "fst r"] exI [of _ "snd r"] exI [of _ 0]) (simp add: put_retry.simps)
  next
    case True
    let ?fl = "snd r"
    define n where "n = nat (seq - fl_origin ?fl) + 1 - ?cap"
    have cap': "fl_max_count ?fl = ?cap" "fl_frame_size ?fl = fl_frame_size (jb_flist jb)"
      using p(3) cap by (simp_all add: fl_same_def)
    have sp: "spec_put_at ?cap (fl_origin (jb_flist jb), frames (jb_flist jb)) seq ?f = (PJ_ETOOMANY, fl_origin ?fl, frames ?fl)"
      using p(1) True by (simp add: fl_abs_def)
    have len: "length (frames ?fl) \<le> ?cap" "0 < ?cap"
      using fl_inv_basic(3,5) [OF p(2)] cap' by simp_all
    note a = put_after_removal [OF fi sp len, folded n_def]
    have dist: "to_u32 (seq - fl_origin ?fl - int ?cap + 1) = n"
    proof -
      have "int n < 2 ^ 32" using a(2,3) len by (simp add: JB_MAX_DROPOUT_def)
      then show ?thesis unfolding a(2) [symmetric] by (simp add: to_u32_id)
    qed
    let ?g = "fst (jb_framelist_remove_head ?fl n)"
    note h = remove_head_spec [OF p(2), of n]
    have sz': "sz \<le> fl_frame_size ?g" and cap'': "fl_max_count ?g = ?cap"
      using sz cap' by (simp_all add: remove_head_fields)
    let ?r2 = "jb_framelist_put_at ?g seq frame sz bi ts PJMEDIA_JB_NORMAL_FRAME"
    note p2 = put_at_refines [OF h(1) idx frame(1) sz', of bi ts, unfolded cap'']
    have abs: "fl_abs ?g = (fl_origin ?fl + int (min n (length (frames ?fl))), drop n (frames ?fl))"
      using h(2,3) by (simp add: fl_abs_def)
    have res: "(fst ?r2, fl_abs (snd ?r2)) = spec_jb_put ?cap (fl_abs (jb_flist jb)) seq ?f"
      unfolding p2(1) abs a(4) spec_jb_put_def fl_abs_def [of "jb_flist jb"] sp
      by (simp add: Let_def n_def)
    then have ok: "fst ?r2 = PJ_SUCCESS"
      using a(4) p2(1) abs by (metis fst_conv)
    have "put_retry seq frame sz bi ts (fst r) (jb\<lparr>jb_flist := ?fl\<rparr>)
        = Some (fst ?r2, jb\<lparr>jb_flist := snd ?r2, jb_discard := jb_discard jb + of_nat (snd (jb_framelist_remove_head ?fl n))\<rparr>)"
      using True dist ok by (subst put_retry.simps) (simp add: case_prod_beta put_retry.simps [of _ _ _ _ _ PJ_SUCCESS])
    moreover have "fl_same (jb_flist jb) (snd ?r2)"
      using fl_same_trans [OF fl_same_trans [OF p(3) remove_head_same] p2(3)] .
    moreover have "discards_within (jb_flist jb) (snd ?r2)"
      using discards_within_trans [OF discards_within_trans [OF w discards_within_remove_head [OF p(2)]]
          discards_within_put_at [OF h(1) idx frame(1) sz', of bi ts]] .
    ultimately show ?thesis using p2(2) res by blast
  qed
qed

lemma spec_jb_put_near:
  assumes "fl_inv fl" and "spec_jb_put (fl_max_count fl) (fl_abs fl) seq (Frame bytes bi ts) = (st, v)"
    and "fl_origin fl - JB_MAX_MISORDER < seq"
  shows "fl_origin fl \<le> fst v" "held v \<subseteq> insert (seq, bytes, bi, ts) (held (fl_abs fl))"
proof -
  let ?cap = "fl_max_count fl" and ?f = "Frame bytes bi ts"
  obtain s1 o1 x1 where p: "spec_put_at ?cap (fl_origin fl, frames fl) seq ?f = (s1, o1, x1)"
    by (metis prod_cases3)
  note n = spec_put_at_near [OF p assms(3)]
  have "fl_origin fl \<le> fst v \<and> held v \<subseteq> insert (seq, bytes, bi, ts) (held (fl_abs fl))"
  proof (cases "s1 = PJ_ETOOMANY")
    case False
    then have "v = (o1, x1)"
      using assms(2) p by (cases s1) (simp_all add: spec_jb_put_def fl_abs_def)
    with n show ?thesis by (simp add: fl_abs_def)
  next
    case True
    note b = fl_inv_basic [OF assms(1)]
    define k where "k = nat (seq - o1) + 1 - ?cap"
    have v: "v = (if length x1 \<le> k then (seq, [?f]) else (o1 + int k, spec_put (drop k x1) (?cap - 1) ?f))"
      using assms(2) True p by (simp add: spec_jb_put_def fl_abs_def k_def Let_def split: if_splits)
    have d: "?cap \<le> nat (seq - o1)"
      using p True by (auto simp: spec_put_at_def Let_def split: if_splits prod.splits)
    then have "o1 \<le> seq" using b(5) by linarith
    from d have "seq = (o1 + int k) + int (?cap - 1)" using b(5) unfolding k_def by linarith
    from held_spec_put [OF this, of "drop k x1" bytes bi ts] held_drop [of o1 k x1] n d
    \<open>o1 \<le> seq\<close> show ?thesis unfolding v by (auto simp: fl_abs_def held_iff)
  qed
  then show "fl_origin fl \<le> fst v" "held v \<subseteq> insert (seq, bytes, bi, ts) (held (fl_abs fl))" by blast+
qed


text \<open>The whole of \<^verbatim>\<open>pjmedia_jbuf_put_frame3\<close>.\<close>

lemma put_frame3_spec:
  fixes bi ts :: u32
  assumes inv: "jb_inv jb" and idx: "0 \<le> seq" "seq < 2 ^ 31" and frame: "frame_size \<le> length frame"
  shows "\<exists>jb' st fl. pjmedia_jbuf_put_frame3 jb frame frame_size bi seq ts = Some (jb', st \<noteq> PJ_SUCCESS)
    \<and> (st, fl_abs fl) = spec_jb_put (jb_max_count jb) (fl_abs (jb_flist jb)) seq
                          (Frame (take (min frame_size (jb_frame_size jb)) frame) bi ts)
    \<and> jb_inv jb' \<and> fl_same (jb_flist jb) fl \<and> shrinks fl (jb_flist jb') \<and> (st \<noteq> PJ_SUCCESS \<longrightarrow> jb_flist jb' = fl)"
proof -
  let ?sz = "min frame_size (jb_frame_size jb)"
  have sz: "?sz \<le> length frame" "?sz \<le> jb_frame_size jb" using frame by simp_all
  define r where "r = jb_framelist_put_at (jb_flist jb) seq frame ?sz bi ts PJMEDIA_JB_NORMAL_FRAME"
  obtain st fl n where l: "put_retry seq frame ?sz bi ts (fst r) (jb\<lparr>jb_flist := snd r\<rparr>)
      = Some (st, jb\<lparr>jb_flist := fl, jb_discard := jb_discard jb + of_nat n\<rparr>)"
    "fl_inv fl" "fl_same (jb_flist jb) fl" "discards_within (jb_flist jb) fl"
    "(st, fl_abs fl) = spec_jb_put (jb_max_count jb) (fl_abs (jb_flist jb)) seq (Frame (take ?sz frame) bi ts)"
    using put_frame_loop [OF inv idx sz, of bi ts] unfolding r_def by blast
  let ?j = "jb\<lparr>jb_flist := fl, jb_discard := jb_discard jb + of_nat n\<rparr>"
  have j: "jb_inv ?j" using jb_inv_list [OF inv l(2-4)] by simp
  define new where "new = int (jb_framelist_eff_size fl)"
  define cur where "cur = int (jb_framelist_eff_size (jb_flist jb))"
  define lev where "lev = jb_level jb + (if new > cur then new - cur else 1)"
  define k where "k = (if jb_prefetching jb \<and> new \<ge> jb_prefetch jb then ?j\<lparr>jb_prefetching := False\<rparr> else ?j)\<lparr>jb_level := lev\<rparr>"
  have "0 \<le> lev" using jb_invD(4) [OF inv] by (simp add: lev_def levels_ok_def)
  then have k: "jb_inv k" "jb_flist k = fl" using j by (simp_all add: k_def jb_inv_level)
  define j2 where "j2 = ?j\<lparr>jb_discard := jb_discard ?j + 1\<rparr>"
  have j2: "jb_inv j2" "jb_flist j2 = fl" using j by (simp_all add: j2_def)
  have eq: "pjmedia_jbuf_put_frame3 jb frame frame_size bi seq ts =
      Some (if st = PJ_SUCCESS then jbuf_update k JB_OP_PUT else j2, st \<noteq> PJ_SUCCESS)"
    unfolding pjmedia_jbuf_put_frame3_def Let_def r_def [symmetric] case_prod_beta l(1)
    by (simp add: k_def lev_def new_def cur_def j2_def)
  show ?thesis
  proof (cases "st = PJ_SUCCESS")
    case True
    then show ?thesis using eq l(3,5) jbuf_update_steady [OF k(1), of JB_OP_PUT] k(2) by (auto simp: jb_steady_def)
  next
    case False
    then show ?thesis using eq l(3,5) j2
      by (intro exI [of _ j2] exI [of _ st] exI [of _ fl]) simp
  qed
qed


section \<open>Get\<close>

lemma get_discards:
  assumes "get_spec fl buf fl' r"
  shows "discards_within fl fl'"
proof -
  define k where "k = length (takeWhile (\<lambda>f. f = Discarded) (frames fl))"
  have "tl (drop k (frames fl)) = drop (Suc k) (frames fl)" by (simp add: drop_Suc tl_drop)
  then have "frames fl' = [] \<or> (frames fl' = drop (Suc k) (frames fl) \<and> fl_origin fl' = fl_origin fl + int k + 1)"
    using assms unfolding get_spec_def Let_def k_def [symmetric]
    by (cases "drop k (frames fl)") auto
  then show ?thesis
  proof
    assume f: "frames fl' = []"
    then have "fl_size fl' = 0" by (simp add: frames_Nil)
    then show ?thesis by (simp add: discards_within_def)
  next
    assume f: "frames fl' = drop (Suc k) (frames fl) \<and> fl_origin fl' = fl_origin fl + int k + 1"
    then have len: "fl_size fl' = fl_size fl - Suc k" by (metis length_drop length_frames)
    show ?thesis unfolding discards_within_def
    proof (intro allI impI)
      fix i assume "i < fl_size fl'" "frames fl' ! i = Discarded"
      with f len show "\<exists>ia<fl_size fl. frames fl ! ia = Discarded \<and> fl_origin fl' + int i \<le> fl_origin fl + int ia"
        by (intro exI [of _ "Suc k + i"]) auto
    qed
  qed
qed

lemma reads_as_type: "reads_as buf f seq out \<Longrightarrow>
    out_type out = PJMEDIA_JB_NORMAL_FRAME \<or> out_type out = PJMEDIA_JB_MISSING_FRAME"
  by (cases f) (simp_all add: reads_as_def)

lemma get_out_type:
  assumes "get_spec fl buf fl' (Inr out)"
  shows "out_type out = PJMEDIA_JB_NORMAL_FRAME \<or> out_type out = PJMEDIA_JB_MISSING_FRAME"
  using assms reads_as_type by (auto simp: get_spec_def Let_def split: list.splits)

text \<open>The whole of \<^verbatim>\<open>pjmedia_jbuf_get_frame3\<close>: nothing is taken while prefetching, else what the list gives.\<close>

lemma get_frame3_spec:
  assumes inv: "jb_inv jb"
  shows "\<exists>jb' ty res fl. pjmedia_jbuf_get_frame3 jb buf = Some (jb', ty, res) \<and> jb_inv jb' \<and> shrinks fl (jb_flist jb')
    \<and> fl_inv fl \<and> fl_same (jb_flist jb) fl
    \<and> (if jb_prefetching jb then ty = PJMEDIA_JB_ZERO_PREFETCH_FRAME \<and> res = None \<and> fl = jb_flist jb
       else (\<exists>r. res = Some r \<and> get_spec (jb_flist jb) buf fl r
              \<and> ty = (case r of Inl _ \<Rightarrow> PJMEDIA_JB_ZERO_EMPTY_FRAME | Inr out \<Rightarrow> out_type out)))"
proof -
  have fin: "jb_inv (jbuf_update (j\<lparr>jb_level := jb_level j + 1\<rparr>) JB_OP_GET)
      \<and> shrinks (jb_flist j) (jb_flist (jbuf_update (j\<lparr>jb_level := jb_level j + 1\<rparr>) JB_OP_GET))" if "jb_inv j" for j
  proof -
    have "jb_inv (j\<lparr>jb_level := jb_level j + 1\<rparr>)"
      using that jb_invD(4) [OF that] by (intro jb_inv_level) (simp_all add: levels_ok_def)
    from jbuf_update_steady [OF this, of JB_OP_GET] show ?thesis by (simp add: jb_steady_def)
  qed
  show ?thesis
  proof (cases "jb_prefetching jb")
    case True
    define j where "j = jb\<lparr>jb_empty := jb_empty jb + 1\<rparr>"
    have "pjmedia_jbuf_get_frame3 jb buf =
        Some (jbuf_update (j\<lparr>jb_level := jb_level j + 1\<rparr>) JB_OP_GET, PJMEDIA_JB_ZERO_PREFETCH_FRAME, None)"
      using True unfolding pjmedia_jbuf_get_frame3_def Let_def j_def by simp
    moreover have "jb_inv j" "jb_flist j = jb_flist jb" using inv by (simp_all add: j_def)
    ultimately show ?thesis using True fin [of j] jb_invD(1) [OF inv] by auto
  next
    case False
    obtain fl r where g: "jb_framelist_get (jb_flist jb) buf = Some (fl, r)" "fl_inv fl" "fl_same (jb_flist jb) fl"
      "get_spec (jb_flist jb) buf fl r"
      using framelist_get_spec [OF jb_invD(1) [OF inv]] by blast
    have w: "discards_within (jb_flist jb) fl" by (rule get_discards [OF g(4)])
    have jfl: "jb_inv (jb\<lparr>jb_flist := fl\<rparr>)" using jb_inv_list [OF inv g(2,3) w] .
    show ?thesis
    proof (cases r)
      case (Inl z)
      define j where "j = (if jb_prefetch jb \<noteq> 0 then jb\<lparr>jb_flist := fl, jb_prefetching := True\<rparr> else jb\<lparr>jb_flist := fl\<rparr>)"
      define j' where "j' = j\<lparr>jb_empty := jb_empty j + 1\<rparr>"
      have j': "jb_inv j'" "jb_flist j' = fl" using jfl by (simp_all add: j'_def j_def)
      have "pjmedia_jbuf_get_frame3 jb buf =
          Some (jbuf_update (j'\<lparr>jb_level := jb_level j' + 1\<rparr>) JB_OP_GET, PJMEDIA_JB_ZERO_EMPTY_FRAME, Some (Inl z))"
        using False Inl unfolding pjmedia_jbuf_get_frame3_def Let_def g(1) by (simp add: j'_def j_def)
      then show ?thesis using False Inl fin [OF j'(1)] j'(2) g(2-4)
        by (intro exI [of _ "jbuf_update (j'\<lparr>jb_level := jb_level j' + 1\<rparr>) JB_OP_GET"]
            exI [of _ "PJMEDIA_JB_ZERO_EMPTY_FRAME"] exI [of _ "Some (Inl z)"] exI [of _ fl]) simp
    next
      case (Inr out)
      have ty: "out_type out = PJMEDIA_JB_NORMAL_FRAME \<or> out_type out = PJMEDIA_JB_MISSING_FRAME"
        by (rule get_out_type [OF g(4) [unfolded Inr]])
      define j where "j = (if out_type out = PJMEDIA_JB_NORMAL_FRAME then jb\<lparr>jb_flist := fl\<rparr>
          else jb\<lparr>jb_flist := fl, jb_lost := jb_lost jb + 1\<rparr>)"
      define j' where "j' = (if jb_last_op j = JB_OP_PUT
                           then j\<lparr>jb_delay := pj_math_stat_update (jb_delay j)
                                     (int ((jb_framelist_eff_size fl + 1) * jb_frame_ptime j))\<rparr>
                           else j)"
      have j': "jb_inv j'" "jb_flist j' = fl" using jfl by (simp_all add: j'_def j_def)
      have "pjmedia_jbuf_get_frame3 jb buf =
          Some (jbuf_update (j'\<lparr>jb_level := jb_level j' + 1\<rparr>) JB_OP_GET, out_type out, Some (Inr out))"
        using False Inr ty unfolding pjmedia_jbuf_get_frame3_def Let_def g(1) by (auto simp: j'_def j_def)
      then show ?thesis using False Inr fin [OF j'(1)] j'(2) g(2-4)
        by (intro exI [of _ "jbuf_update (j'\<lparr>jb_level := jb_level j' + 1\<rparr>) JB_OP_GET"]
            exI [of _ "out_type out"] exI [of _ "Some (Inr out)"] exI [of _ fl]) simp
    qed
  qed
qed

end
