(* ===== verification/Jbuf_Playout.thy ===== *)
theory Jbuf_Playout
  imports Jbuf
begin

text \<open>
  What the jitter buffer promises to its two clients, the network side that puts frames and the sound
  device side that gets them: every operation returns and keeps the invariant, a run of puts and gets
  plays frames in sequence order and unaltered, late and duplicate frames are refused, and the settings
  operations keep the prefetch within its limits.
\<close>

section \<open>Runs\<close>

datatype jb_event =
    Put_Frame "u8 list" u32 int u32
  | Get_Frame "nat option"

text \<open>A run gives the buffer it ends in and the frames read, in order; \<open>None\<close> if an operation never returns.\<close>

fun jb_play :: "pjmedia_jbuf \<Rightarrow> jb_event list \<Rightarrow> (pjmedia_jbuf \<times> jb_frame_out list) option" where
  "jb_play jb [] = Some (jb, [])"
| "jb_play jb (Put_Frame frame bi seq ts # evs) =
     (case pjmedia_jbuf_put_frame3 jb frame (length frame) bi seq ts of
        None \<Rightarrow> None
      | Some (jb', _) \<Rightarrow> jb_play jb' evs)"
| "jb_play jb (Get_Frame buf # evs) =
     (case pjmedia_jbuf_get_frame3 jb buf of
        None \<Rightarrow> None
      | Some (jb', _, res) \<Rightarrow>
          (case jb_play jb' evs of
             None \<Rightarrow> None
           | Some (jb'', outs) \<Rightarrow>
               Some (jb'', (case res of Some (Inr out) \<Rightarrow> out # outs | _ \<Rightarrow> outs))))"

text \<open>
  The streams the promise is about: sequence numbers are not negative, and no frame is so late
  (\<^verbatim>\<open>PJMEDIA_JB_MAX_MISORDER\<close> or more behind the next frame to play) that it counts as a restart of the stream.
\<close>

fun no_restart :: "pjmedia_jbuf \<Rightarrow> jb_event list \<Rightarrow> bool" where
  "no_restart jb [] \<longleftrightarrow> True"
| "no_restart jb (Put_Frame frame bi seq ts # evs) \<longleftrightarrow>
     0 \<le> seq \<and> seq < 2 ^ 31 \<and> fl_origin (jb_flist jb) - JB_MAX_MISORDER < seq
     \<and> (case pjmedia_jbuf_put_frame3 jb frame (length frame) bi seq ts of
          None \<Rightarrow> True | Some (jb', _) \<Rightarrow> no_restart jb' evs)"
| "no_restart jb (Get_Frame buf # evs) \<longleftrightarrow>
     (case pjmedia_jbuf_get_frame3 jb buf of None \<Rightarrow> True | Some (jb', _) \<Rightarrow> no_restart jb' evs)"

fun frames_put :: "nat \<Rightarrow> jb_event list \<Rightarrow> (int \<times> u8 list \<times> u32 \<times> u32) set" where
  "frames_put size_limit [] = {}"
| "frames_put size_limit (Put_Frame frame bi seq ts # evs) =
     insert (seq, take (min (length frame) size_limit) frame, bi, ts) (frames_put size_limit evs)"
| "frames_put size_limit (Get_Frame buf # evs) = frames_put size_limit evs"

text \<open>A frame that is handed out as a normal one is a frame of \<open>S\<close>, under its own sequence number.\<close>

definition plays_from :: "(int \<times> u8 list \<times> u32 \<times> u32) set \<Rightarrow> jb_frame_out \<Rightarrow> bool" where
  "plays_from S out \<longleftrightarrow>
     (out_type out = PJMEDIA_JB_NORMAL_FRAME \<longrightarrow>
        (\<exists>bytes bi ts buf. (out_seq out, bytes, bi, ts) \<in> S \<and> reads_as buf (Frame bytes bi ts) (out_seq out) out))"

lemma plays_from_mono: "plays_from S out \<Longrightarrow> S \<subseteq> T \<Longrightarrow> plays_from T out"
  unfolding plays_from_def by blast

text \<open>One put and one get, on the frames held.\<close>

lemma put_step:
  assumes inv: "jb_inv jb" and seq: "0 \<le> seq" "seq < 2 ^ 31" "fl_origin (jb_flist jb) - JB_MAX_MISORDER < seq"
  obtains jb' d where "pjmedia_jbuf_put_frame3 jb frame (length frame) bi seq ts = Some (jb', d)"
    "jb_inv jb'" "fl_origin (jb_flist jb) \<le> fl_origin (jb_flist jb')"
    "held (fl_abs (jb_flist jb')) \<subseteq>
       insert (seq, take (min (length frame) (jb_frame_size jb)) frame, bi, ts) (held (fl_abs (jb_flist jb)))"
    "jb_frame_size jb' = jb_frame_size jb"
proof -
  obtain jb' st fl where p: "pjmedia_jbuf_put_frame3 jb frame (length frame) bi seq ts = Some (jb', st \<noteq> PJ_SUCCESS)"
    "(st, fl_abs fl) = spec_jb_put (jb_max_count jb) (fl_abs (jb_flist jb)) seq
       (Frame (take (min (length frame) (jb_frame_size jb)) frame) bi ts)"
    "jb_inv jb'" "fl_same (jb_flist jb) fl" "shrinks fl (jb_flist jb')"
    using put_frame3_spec [OF inv seq(1,2) order_refl, where bi = bi and ts = ts] by blast
  note i = jb_invD [OF inv]
  note n = spec_jb_put_near [OF i(1) p(2) [symmetric, unfolded i(3)] seq(3)]
  have "jb_frame_size jb' = jb_frame_size jb"
    using p(4,5) i(2) jb_invD(2) [OF p(3)] by (simp add: shrinks_def fl_same_def)
  with p n show thesis
    by (intro that [of jb' "st \<noteq> PJ_SUCCESS"]) (auto simp: shrinks_def fl_abs_def)
qed

lemma get_spec_held:
  assumes "get_spec fl buf fl' r"
  shows "fl_origin fl \<le> fl_origin fl'" "held (fl_abs fl') \<subseteq> held (fl_abs fl)"
    "r = Inr out \<Longrightarrow> fl_origin fl \<le> out_seq out \<and> out_seq out < fl_origin fl'
       \<and> plays_from (held (fl_abs fl)) out"
proof -
  define k where "k = length (takeWhile (\<lambda>f. f = Discarded) (frames fl))"
  note g = assms [unfolded get_spec_def Let_def, folded k_def]
  show "fl_origin fl \<le> fl_origin fl'" using g by (cases "drop k (frames fl)") auto
  show "held (fl_abs fl') \<subseteq> held (fl_abs fl)"
  proof (cases "drop k (frames fl)")
    case Nil
    then show ?thesis using g by (simp add: fl_abs_def)
  next
    case (Cons y ys)
    then have "drop (Suc k) (frames fl) = ys" by (metis drop_Suc list.sel(3) tl_drop)
    with Cons g have "fl_abs fl' = (fl_origin fl + int (Suc k), drop (Suc k) (frames fl))"
      by (simp add: fl_abs_def)
    then show ?thesis using held_drop by (simp add: fl_abs_def del: of_nat_Suc)
  qed
  assume r: "r = Inr out"
  then obtain y ys where y: "drop k (frames fl) = y # ys" "fl_origin fl' = fl_origin fl + int k + 1"
    "reads_as buf (if 0 < k then Missing else y) (fl_origin fl + int k) out"
    using g by (cases "drop k (frames fl)") auto
  then have seq: "out_seq out = fl_origin fl + int k" by (simp add: reads_as_def)
  have "k < length (frames fl)" "frames fl ! k = y"
    using y(1) by (metis drop_all list.distinct(1) not_le, metis hd_drop_conv_nth drop_all list.distinct(1) list.sel(1) not_le)
  moreover have "k = 0 \<and> (\<exists>bytes bi ts. y = Frame bytes bi ts)" if "out_type out = PJMEDIA_JB_NORMAL_FRAME"
    using y(3) that by (cases y) (auto simp: reads_as_def split: if_splits)
  ultimately have "plays_from (held (fl_abs fl)) out"
    unfolding plays_from_def
  proof (intro impI)
    assume n: "k < length (frames fl)" "frames fl ! k = y"
      and c: "out_type out = PJMEDIA_JB_NORMAL_FRAME \<Longrightarrow> k = 0 \<and> (\<exists>bytes bi ts. y = Frame bytes bi ts)"
      and t: "out_type out = PJMEDIA_JB_NORMAL_FRAME"
    from c [OF t] obtain bytes bi ts where f: "k = 0" "y = Frame bytes bi ts" by blast
    have "(out_seq out, bytes, bi, ts) \<in> held (fl_abs fl)"
      using n f seq by (auto simp: fl_abs_def held_iff)
    moreover have "reads_as buf (Frame bytes bi ts) (out_seq out) out" using y(3) f seq by simp
    ultimately show "\<exists>bytes bi ts buf. (out_seq out, bytes, bi, ts) \<in> held (fl_abs fl)
        \<and> reads_as buf (Frame bytes bi ts) (out_seq out) out" by blast
  qed
  with seq y(2) show "fl_origin fl \<le> out_seq out \<and> out_seq out < fl_origin fl' \<and> plays_from (held (fl_abs fl)) out"
    by simp
qed

lemma get_step:
  assumes inv: "jb_inv jb"
  obtains jb' ty res where "pjmedia_jbuf_get_frame3 jb buf = Some (jb', ty, res)" "jb_inv jb'"
    "fl_origin (jb_flist jb) \<le> fl_origin (jb_flist jb')"
    "held (fl_abs (jb_flist jb')) \<subseteq> held (fl_abs (jb_flist jb))"
    "\<And>out. res = Some (Inr out) \<Longrightarrow> fl_origin (jb_flist jb) \<le> out_seq out \<and> out_seq out < fl_origin (jb_flist jb')
       \<and> plays_from (held (fl_abs (jb_flist jb))) out"
    "jb_frame_size jb' = jb_frame_size jb"
proof -
  obtain jb' ty res fl where g: "pjmedia_jbuf_get_frame3 jb buf = Some (jb', ty, res)" "jb_inv jb'"
    "shrinks fl (jb_flist jb')" "fl_same (jb_flist jb) fl"
    "if jb_prefetching jb then ty = PJMEDIA_JB_ZERO_PREFETCH_FRAME \<and> res = None \<and> fl = jb_flist jb
       else (\<exists>r. res = Some r \<and> get_spec (jb_flist jb) buf fl r
              \<and> ty = (case r of Inl _ \<Rightarrow> PJMEDIA_JB_ZERO_EMPTY_FRAME | Inr out \<Rightarrow> out_type out))"
    using get_frame3_spec [OF inv, of buf] by blast
  have size: "jb_frame_size jb' = jb_frame_size jb"
    using g(3,4) jb_invD(2) [OF inv] jb_invD(2) [OF g(2)] by (simp add: shrinks_def fl_same_def)
  show thesis
  proof (cases "jb_prefetching jb")
    case True
    with g size show ?thesis by (intro that [OF g(1)]) (auto simp: shrinks_def)
  next
    case False
    then obtain r where r: "res = Some r" "get_spec (jb_flist jb) buf fl r" using g(5) by auto
    note h = get_spec_held [OF r(2)]
    have "fl_origin fl \<le> fl_origin (jb_flist jb')" "held (fl_abs (jb_flist jb')) \<subseteq> held (fl_abs fl)"
      using g(3) by (simp_all add: shrinks_def)
    show ?thesis
    proof (rule that [OF g(1) g(2) _ _ _ size])
      fix out assume "res = Some (Inr out)"
      then have "r = Inr out" using r(1) by simp
      from h(3) [OF this] \<open>fl_origin fl \<le> fl_origin (jb_flist jb')\<close>
      show "fl_origin (jb_flist jb) \<le> out_seq out \<and> out_seq out < fl_origin (jb_flist jb')
          \<and> plays_from (held (fl_abs (jb_flist jb))) out" by simp
    qed (use h(1,2) \<open>fl_origin fl \<le> fl_origin (jb_flist jb')\<close> \<open>held (fl_abs (jb_flist jb')) \<subseteq> held (fl_abs fl)\<close>
         in auto)
  qed
qed

text \<open>What a run must have done, and that one more operation in front of a run does it too.\<close>

definition played :: "pjmedia_jbuf \<Rightarrow> jb_event list \<Rightarrow> bool" where
  "played jb evs \<longleftrightarrow> (\<exists>jb' outs. jb_play jb evs = Some (jb', outs) \<and> jb_inv jb'
    \<and> sorted_wrt (\<lambda>a b. out_seq a < out_seq b) outs
    \<and> (\<forall>out \<in> set outs. fl_origin (jb_flist jb) \<le> out_seq out
         \<and> plays_from (held (fl_abs (jb_flist jb)) \<union> frames_put (jb_frame_size jb) evs) out))"

lemma played_put:
  assumes prems: "jb_inv jb" "no_restart jb (Put_Frame frame bi seq ts # evs)"
    and ih: "\<And>j. jb_inv j \<Longrightarrow> no_restart j evs \<Longrightarrow> played j evs"
  shows "played jb (Put_Frame frame bi seq ts # evs)" (is "played jb (?ev # evs)")
proof -
  have seq: "0 \<le> seq" "seq < 2 ^ 31" "fl_origin (jb_flist jb) - JB_MAX_MISORDER < seq" using prems(2) by simp_all
  obtain j d where j: "pjmedia_jbuf_put_frame3 jb frame (length frame) bi seq ts = Some (j, d)"
    "jb_inv j" "fl_origin (jb_flist jb) \<le> fl_origin (jb_flist j)"
    "held (fl_abs (jb_flist j)) \<subseteq>
       insert (seq, take (min (length frame) (jb_frame_size jb)) frame, bi, ts) (held (fl_abs (jb_flist jb)))"
    "jb_frame_size j = jb_frame_size jb"
    using put_step [OF prems(1) seq] by blast
  from prems(2) j(1) have "no_restart j evs" by simp
  from ih [OF j(2) this, unfolded played_def] obtain jb' outs where r: "jb_play j evs = Some (jb', outs)" "jb_inv jb'"
    "sorted_wrt (\<lambda>a b. out_seq a < out_seq b) outs"
    "\<And>out. out \<in> set outs \<Longrightarrow> fl_origin (jb_flist j) \<le> out_seq out"
    "\<And>out. out \<in> set outs \<Longrightarrow> plays_from (held (fl_abs (jb_flist j)) \<union> frames_put (jb_frame_size j) evs) out"
    by blast
  have "plays_from (held (fl_abs (jb_flist jb)) \<union> frames_put (jb_frame_size jb) (?ev # evs)) out" if "out \<in> set outs" for out
    by (rule plays_from_mono [OF r(5) [OF that]]) (use j(4,5) in auto)
  moreover have "fl_origin (jb_flist jb) \<le> out_seq out" if "out \<in> set outs" for out
    using r(4) [OF that] j(3) by simp
  moreover have "jb_play jb (?ev # evs) = Some (jb', outs)" using j(1) r(1) by simp
  ultimately show ?thesis unfolding played_def using r(2,3) by blast
qed

lemma played_get:
  assumes prems: "jb_inv jb" "no_restart jb (Get_Frame buf # evs)"
    and ih: "\<And>j. jb_inv j \<Longrightarrow> no_restart j evs \<Longrightarrow> played j evs"
  shows "played jb (Get_Frame buf # evs)" (is "played jb (?ev # evs)")
proof -
  obtain j ty res where j: "pjmedia_jbuf_get_frame3 jb buf = Some (j, ty, res)" "jb_inv j"
    "fl_origin (jb_flist jb) \<le> fl_origin (jb_flist j)"
    "held (fl_abs (jb_flist j)) \<subseteq> held (fl_abs (jb_flist jb))"
    "\<And>out. res = Some (Inr out) \<Longrightarrow> fl_origin (jb_flist jb) \<le> out_seq out \<and> out_seq out < fl_origin (jb_flist j)
       \<and> plays_from (held (fl_abs (jb_flist jb))) out"
    "jb_frame_size j = jb_frame_size jb"
    by (rule get_step [OF prems(1), of buf]) blast
  from prems(2) j(1) have "no_restart j evs" by simp
  from ih [OF j(2) this, unfolded played_def] obtain jb' outs where r: "jb_play j evs = Some (jb', outs)" "jb_inv jb'"
    "sorted_wrt (\<lambda>a b. out_seq a < out_seq b) outs"
    "\<And>out. out \<in> set outs \<Longrightarrow> fl_origin (jb_flist j) \<le> out_seq out"
    "\<And>out. out \<in> set outs \<Longrightarrow> plays_from (held (fl_abs (jb_flist j)) \<union> frames_put (jb_frame_size j) evs) out"
    by blast
  let ?S = "held (fl_abs (jb_flist jb)) \<union> frames_put (jb_frame_size jb) (?ev # evs)"
  have old: "fl_origin (jb_flist jb) \<le> out_seq out \<and> plays_from ?S out" if "out \<in> set outs" for out
  proof
    show "plays_from ?S out"
      by (rule plays_from_mono [OF r(5) [OF that]]) (use j(4,6) in auto)
  qed (use r(4) [OF that] j(3) in simp)
  show ?thesis
  proof (cases "\<exists>out. res = Some (Inr out)")
    case True
    then obtain out where out: "res = Some (Inr out)" by blast
    note new = j(5) [OF out]
    have "plays_from ?S out" by (rule plays_from_mono [OF new [THEN conjunct2, THEN conjunct2]]) blast
    moreover have "sorted_wrt (\<lambda>a b. out_seq a < out_seq b) (out # outs)"
      using r(3,4) new by fastforce
    moreover have "jb_play jb (?ev # evs) = Some (jb', out # outs)" using j(1) r(1) out by simp
    ultimately show ?thesis unfolding played_def using r(2) old new by (metis set_ConsD)
  next
    case False
    then have "jb_play jb (?ev # evs) = Some (jb', outs)"
      using j(1) r(1) by (auto split: option.splits sum.splits)
    with r(2,3) old show ?thesis unfolding played_def by blast
  qed
qed

lemma run_played: "jb_inv jb \<Longrightarrow> no_restart jb evs \<Longrightarrow> played jb evs"
proof (induction evs arbitrary: jb)
  case Nil
  then show ?case by (simp add: played_def)
next
  case (Cons ev evs)
  then show ?case by (cases ev) (auto intro: played_put played_get)
qed

text \<open>
  The runs of puts and gets: each returns, frames come out in strictly increasing sequence, and every normal
  frame is one that was put under that sequence number (or was there at the start), read into the caller's buffer.
\<close>

text \<open>
C1. Any run of puts and gets on a well-formed jitter buffer returns and keeps it well-formed, as
long as no frame put is so late that it counts as a stream restart; the frames read out of the run
come in strictly increasing sequence, and every frame handed out as a normal one carries the
bytes, bit information and timestamp that were put (or were held at the start) under that very
sequence number, truncated only to the frame size and to the reader's buffer.
\<close>

theorem jb_play_in_order:
  assumes "jb_inv jb" and "no_restart jb evs"
  shows "\<exists>jb' outs. jb_play jb evs = Some (jb', outs) \<and> jb_inv jb'
    \<and> sorted_wrt (\<lambda>a b. out_seq a < out_seq b) outs
    \<and> (\<forall>out \<in> set outs. fl_origin (jb_flist jb) \<le> out_seq out
         \<and> plays_from (held (fl_abs (jb_flist jb)) \<union> frames_put (jb_frame_size jb) evs) out)"
  using run_played [OF assms] by (simp only: played_def)

section \<open>Single operations\<close>

text \<open>
  \<^verbatim>\<open>pjmedia_jbuf_put_frame3\<close> always returns: a full list is made to fit by dropping the oldest frames, so the
  only refusals are a late and a duplicate frame.
\<close>

text \<open>
C22. pjmedia_jbuf_put_frame3 returns on every well-formed buffer: when the list is full it drops
the oldest frames so that the retry succeeds, so the status it ends with is success, too late or
duplicate and never "too many"; the list then is the one the specification of a put gives, from
which the discard algorithm may only take frames away.
\<close>

theorem jb_put_frame_total:
  fixes bi ts :: u32
  assumes "jb_inv jb" and "0 \<le> seq" "seq < 2 ^ 31" and "frame_size \<le> length frame"
  shows "\<exists>jb' st fl. pjmedia_jbuf_put_frame3 jb frame frame_size bi seq ts = Some (jb', st \<noteq> PJ_SUCCESS)
    \<and> st \<in> {PJ_SUCCESS, PJ_ETOOSMALL, PJ_EEXISTS} \<and> jb_inv jb'
    \<and> (st, fl_abs fl) = spec_jb_put (jb_max_count jb) (fl_abs (jb_flist jb)) seq
                          (Frame (take (min frame_size (jb_frame_size jb)) frame) bi ts)
    \<and> shrinks fl (jb_flist jb') \<and> (st \<noteq> PJ_SUCCESS \<longrightarrow> jb_flist jb' = fl)"
proof -
  let ?f = "Frame (take (min frame_size (jb_frame_size jb)) frame) bi ts"
  obtain jb' st fl where p: "pjmedia_jbuf_put_frame3 jb frame frame_size bi seq ts = Some (jb', st \<noteq> PJ_SUCCESS)"
    "(st, fl_abs fl) = spec_jb_put (jb_max_count jb) (fl_abs (jb_flist jb)) seq ?f"
    "jb_inv jb'" "shrinks fl (jb_flist jb')" "st \<noteq> PJ_SUCCESS \<longrightarrow> jb_flist jb' = fl"
    using put_frame3_spec [OF assms] by blast
  moreover have "fst (spec_put_at cap v seq ?f) \<in> {PJ_SUCCESS, PJ_ETOOSMALL, PJ_EEXISTS, PJ_ETOOMANY}" for cap v
    by (simp add: spec_put_at_def case_prod_beta Let_def)
  then have "fst (spec_jb_put cap v seq ?f) \<in> {PJ_SUCCESS, PJ_ETOOSMALL, PJ_EEXISTS}" for cap v
    by (cases "spec_put_at cap v seq ?f"; cases "fst (spec_put_at cap v seq ?f)")
      (simp_all add: spec_jb_put_def Let_def, (metis fst_conv insert_iff pj_status.distinct empty_iff)+)
  from this [of "jb_max_count jb" "fl_abs (jb_flist jb)"] have "st \<in> {PJ_SUCCESS, PJ_ETOOSMALL, PJ_EEXISTS}"
    using p(2) by (metis fst_conv)
  ultimately show ?thesis by blast
qed

text \<open>A frame whose slot is taken, and one that is late, are refused: only the discard counter changes.\<close>

theorem jb_put_refused:
  assumes "jb_inv jb" and "0 \<le> seq" "seq < 2 ^ 31" and "frame_size \<le> length frame"
    and "(seq < fl_origin (jb_flist jb) \<and> fl_origin (jb_flist jb) - seq < JB_MAX_MISORDER)
       \<or> (fl_origin (jb_flist jb) \<le> seq \<and> seq < fl_origin (jb_flist jb) + int (fl_size (jb_flist jb))
          \<and> frames (jb_flist jb) ! nat (seq - fl_origin (jb_flist jb)) \<noteq> Missing)"
  shows "pjmedia_jbuf_put_frame3 jb frame frame_size bi seq ts = Some (jb\<lparr>jb_discard := jb_discard jb + 1\<rparr>, True)"
proof -
  let ?sz = "min frame_size (jb_frame_size jb)"
  note i = jb_invD [OF assms(1)]
  note b = fl_inv_basic [OF i(1)]
  obtain st where st: "jb_framelist_put_at (jb_flist jb) seq frame ?sz bi ts PJMEDIA_JB_NORMAL_FRAME = (st, jb_flist jb)"
    "st = PJ_ETOOSMALL \<or> st = PJ_EEXISTS"
  proof (cases "seq < fl_origin (jb_flist jb)")
    case True
    then show thesis
      using assms(5) i(2) by (intro that [of PJ_ETOOSMALL])
        (auto simp: jb_framelist_put_at_def put_distance_def Let_def)
  next
    case False
    define d where "d = nat (seq - fl_origin (jb_flist jb))"
    have d: "d < fl_size (jb_flist jb)" "frames (jb_flist jb) ! d \<noteq> Missing" "seq - fl_origin (jb_flist jb) = int d"
      using False assms(5) by (auto simp: d_def)
    have "put_distance (jb_flist jb) seq = Inr (jb_flist jb, int d)"
      using False d(3) by (simp add: put_distance_def)
    moreover have "put_empty (jb_flist jb) seq (int d) = (jb_flist jb, int d)" using d(1) by (simp add: put_empty_def)
    moreover have "put_far (jb_flist jb) seq (int d) = Inr (jb_flist jb, int d)" using d(1) b(3) by (simp add: put_far_def)
    ultimately show thesis
      using i(2) by (intro that [of PJ_EEXISTS]) (simp_all add: jb_framelist_put_at_def put_store_occupied [OF i(1) d(1,2)])
  qed
  have "put_retry seq frame ?sz bi ts st (jb\<lparr>jb_flist := jb_flist jb\<rparr>) = Some (st, jb)"
    using st(2) by (subst put_retry.simps) auto
  then show ?thesis
    using st by (auto simp: pjmedia_jbuf_put_frame3_def Let_def)
qed

text \<open>The settings.\<close>

lemma levels_ok_settings:
  "levels_ok jb \<Longrightarrow> prefetch \<le> int (jb_max_count jb) \<Longrightarrow> 0 \<le> prefetch \<Longrightarrow>
   levels_ok (jb\<lparr>jb_min_prefetch := prefetch, jb_max_prefetch := prefetch, jb_prefetch := prefetch, jb_init_prefetch := prefetch\<rparr>)"
  by (simp add: levels_ok_def)

lemma jb_reset_inv:
  assumes "fl_arrays (jb_flist jb)" "jb_frame_size jb = fl_frame_size (jb_flist jb)"
    "jb_max_count jb = fl_max_count (jb_flist jb)" "levels_ok jb"
  shows "jb_inv (snd (pjmedia_jbuf_reset jb))"
  using reset_spec [OF assms(1)] assms(2-4)
  by (simp add: pjmedia_jbuf_reset_def jb_inv_def levels_ok_def discards_ok_def)
    (simp add: jb_framelist_reset_def)

theorem jb_create_inv:
  assumes "0 < ptime" "ptime \<le> PJMEDIA_JBUF_DISC_MIN_GAP" and "0 < max_count" "max_count < 2 ^ 30"
    and "fl_arrays (mem\<lparr>fl_frame_size := frame_size, fl_max_count := max_count\<rparr>)"
  shows "\<exists>jb. pjmedia_jbuf_create mem frame_size ptime max_count = Some jb \<and> jb_inv jb
    \<and> frames (jb_flist jb) = [] \<and> fl_origin (jb_flist jb) = INVALID_OFFSET
    \<and> jb_prefetching jb = (jb_prefetch jb \<noteq> 0)"
proof -
  let ?fl = "\<lparr>fl_frame_size = frame_size, fl_max_count = max_count,
        fl_content = fl_content mem, fl_frame_type = fl_frame_type mem,
        fl_content_len = fl_content_len mem, fl_bit_info = fl_bit_info mem, fl_ts = fl_ts mem,
        fl_head = 0, fl_size = 0, fl_discarded_num = 0, fl_origin = 0\<rparr>"
  define fl where "fl = ?fl"
  have arr: "fl_arrays fl" using assms(5) by (simp add: fl_arrays_def fl_def)
  have m4: "u32_mul max_count 4 = max_count * 4" using assms(4) by (simp add: u32_mul_small)
  have gap: "1 \<le> PJMEDIA_JBUF_DISC_MIN_GAP div ptime" using assms(1,2) by (simp add: Suc_le_eq div_greater_zero_iff)
  define jb where "jb = \<lparr>jb_frame_size = frame_size, jb_frame_ptime = ptime, jb_max_count = max_count,
               jb_init_prefetch = 0, jb_min_prefetch = 0, jb_max_prefetch = int (u32_mul max_count 4 div 5),
               jb_max_burst = int (max (MAX_BURST_MSEC div ptime) (u32_mul max_count 3 div 4)),
               jb_min_shrink_gap = int (PJMEDIA_JBUF_DISC_MIN_GAP div ptime),
               jb_discard_algo = PJMEDIA_JB_DISCARD_PROGRESSIVE,
               jb_flist = jb_framelist_reset fl,
               jb_level = 0, jb_max_hist_level = 0, jb_stable_hist = 0, jb_last_op = JB_OP_INIT,
               jb_eff_level = 0,
               jb_prefetch = int (min PJMEDIA_JB_DEFAULT_INIT_DELAY (u32_mul max_count 4 div 5)),
               jb_prefetching = False, jb_state = JB_STATUS_INITIALIZING, jb_init_cycle_cnt = 0,
               jb_discard_ref = 0, jb_discard_dist = 0,
               jb_delay = pj_math_stat_init, jb_burst = pj_math_stat_init,
               jb_lost = 0, jb_discard = 0, jb_empty = 0\<rparr>"
  have eq: "pjmedia_jbuf_create mem frame_size ptime max_count = Some (snd (pjmedia_jbuf_reset jb))"
    using assms(1) by (simp add: pjmedia_jbuf_create_def jb_framelist_init_def pjmedia_jbuf_set_discard_def jb_def fl_def)
  have arr': "fl_arrays (jb_framelist_reset fl)" using fl_inv_basic(1) [OF reset_spec(1) [OF arr]] .
  have "levels_ok jb"
    using assms(1) gap unfolding levels_ok_def jb_def m4 by simp
  moreover have "fl_arrays (jb_flist jb)" "jb_frame_size jb = fl_frame_size (jb_flist jb)"
    "jb_max_count jb = fl_max_count (jb_flist jb)"
    using arr' by (simp_all add: jb_def) (simp_all add: jb_framelist_reset_def fl_def)
  ultimately have "jb_inv (snd (pjmedia_jbuf_reset jb))" by (intro jb_reset_inv)
  then show ?thesis
    unfolding eq using reset_spec [OF arr'] by (simp add: pjmedia_jbuf_reset_def jb_def)
qed

text \<open>The operations that change settings or throw frames away keep the invariant, so put and get stay total.\<close>

lemma discards_ok_settings [simp]:
  "discards_ok (jb\<lparr>jb_min_prefetch := a\<rparr>) = discards_ok jb" "discards_ok (jb\<lparr>jb_max_prefetch := b\<rparr>) = discards_ok jb"
  "discards_ok (jb\<lparr>jb_prefetch := c\<rparr>) = discards_ok jb" "discards_ok (jb\<lparr>jb_init_prefetch := d\<rparr>) = discards_ok jb"
  "discards_ok (jb\<lparr>jb_frame_ptime := e\<rparr>) = discards_ok jb" "discards_ok (jb\<lparr>jb_min_shrink_gap := f\<rparr>) = discards_ok jb"
  "discards_ok (jb\<lparr>jb_max_burst := g\<rparr>) = discards_ok jb"
  by (simp_all add: discards_ok_def)

lemma discards_ok_algo: "discards_ok jb \<Longrightarrow> algo \<noteq> PJMEDIA_JB_DISCARD_STATIC \<Longrightarrow> discards_ok (jb\<lparr>jb_discard_algo := algo\<rparr>)"
  by (simp add: discards_ok_def)

text \<open>
C34. Resetting the buffer and changing its mode, prefetch limits, frame duration (to 1 to 200 ms)
and discard algorithm keep it well-formed: prefetch within its limits, limits within the capacity,
levels not negative. Switching to the static algorithm needs that no progressive discard is
pending.
\<close>

theorem jb_settings_inv:
  assumes "jb_inv jb"
  shows "jb_inv (snd (pjmedia_jbuf_reset jb))
    \<and> jb_inv (snd (pjmedia_jbuf_set_fixed jb prefetch))
    \<and> jb_inv (snd (pjmedia_jbuf_set_adaptive jb prefetch min_prefetch max_prefetch))
    \<and> ((algo = PJMEDIA_JB_DISCARD_STATIC \<longrightarrow> jb_discard_dist jb = 0 \<or> Discarded \<notin> set (frames (jb_flist jb)))
         \<longrightarrow> jb_inv (snd (pjmedia_jbuf_set_discard jb algo)))
    \<and> (0 < ptime \<and> ptime \<le> PJMEDIA_JBUF_DISC_MIN_GAP
         \<longrightarrow> (\<exists>jb'. pjmedia_jbuf_set_ptime jb ptime = Some (PJ_SUCCESS, jb') \<and> jb_inv jb'))"
proof (intro conjI impI)
  note i = jb_invD [OF assms]
  show "jb_inv (snd (pjmedia_jbuf_reset jb))"
    by (rule jb_reset_inv [OF fl_inv_basic(1) [OF i(1)] i(2-4)])
  show "jb_inv (snd (pjmedia_jbuf_set_fixed jb prefetch))"
  proof (cases "prefetch \<le> jb_max_count jb")
    case True
    let ?j = "jb\<lparr>jb_min_prefetch := int prefetch, jb_max_prefetch := int prefetch,
                     jb_prefetch := int prefetch, jb_init_prefetch := int prefetch\<rparr>"
    have "levels_ok (?j\<lparr>jb_discard_algo := PJMEDIA_JB_DISCARD_NONE\<rparr>)"
      using levels_ok_settings [OF i(4), of "int prefetch"] True by (simp add: levels_ok_def)
    moreover have "discards_ok (?j\<lparr>jb_discard_algo := PJMEDIA_JB_DISCARD_NONE\<rparr>)"
      by (rule discards_ok_algo) (simp_all add: i(5))
    ultimately show ?thesis using True i(1-3)
      by (simp add: pjmedia_jbuf_set_fixed_def pjmedia_jbuf_set_discard_def jb_inv_def)
  qed (use assms in \<open>simp add: pjmedia_jbuf_set_fixed_def\<close>)
  show "jb_inv (snd (pjmedia_jbuf_set_adaptive jb prefetch min_prefetch max_prefetch))"
  proof -
    have "levels_ok (jb\<lparr>jb_prefetch := int prefetch, jb_init_prefetch := int prefetch,
             jb_min_prefetch := int min_prefetch, jb_max_prefetch := int max_prefetch\<rparr>)"
      if "min_prefetch \<le> max_prefetch \<and> prefetch \<le> max_prefetch \<and> max_prefetch \<le> jb_max_count jb"
      using i(4) that by (simp add: levels_ok_def)
    then show ?thesis using assms i(1-3,5)
      by (simp add: pjmedia_jbuf_set_adaptive_def jb_inv_def)
  qed
next
  assume "algo = PJMEDIA_JB_DISCARD_STATIC \<longrightarrow> jb_discard_dist jb = 0 \<or> Discarded \<notin> set (frames (jb_flist jb))"
  then show "jb_inv (snd (pjmedia_jbuf_set_discard jb algo))"
    using jb_invD [OF assms] by (simp add: pjmedia_jbuf_set_discard_def jb_inv_def levels_ok_def discards_ok_def)
next
  assume p: "0 < ptime \<and> ptime \<le> PJMEDIA_JBUF_DISC_MIN_GAP"
  have gap: "1 \<le> PJMEDIA_JBUF_DISC_MIN_GAP div ptime" using p by (simp add: Suc_le_eq div_greater_zero_iff)
  have "levels_ok (jb\<lparr>jb_frame_ptime := ptime,
           jb_min_shrink_gap := int (PJMEDIA_JBUF_DISC_MIN_GAP div ptime),
           jb_max_burst := int (max (MAX_BURST_MSEC div ptime) (jb_max_count jb * 3 div 4))\<rparr>)"
    using jb_invD(4) [OF assms] p gap by (simp add: levels_ok_def)
  then show "\<exists>jb'. pjmedia_jbuf_set_ptime jb ptime = Some (PJ_SUCCESS, jb') \<and> jb_inv jb'"
    using jb_invD [OF assms] p by (simp add: pjmedia_jbuf_set_ptime_def jb_inv_def)
qed


section \<open>Peek and remove\<close>

abbreviation playable :: "jframe list \<Rightarrow> nat" where
  "playable xs \<equiv> length (filter (\<lambda>f. f \<noteq> Discarded) xs)"

lemma playable_count: "playable xs + count_list xs Discarded = length xs"
  by (induction xs) auto

lemma remove_more_spec:
  assumes "fl_inv fl" and "lst - fl_discarded_num fl \<le> removed" and "removed + fl_size fl < 2 ^ 32"
  shows "\<exists>fl' m. remove_more fl lst removed
      = (fl', removed - (lst - fl_discarded_num fl) + min (lst - fl_discarded_num fl) (playable (frames fl)))
    \<and> fl_inv fl' \<and> fl_same fl fl' \<and> shrinks fl fl' \<and> discards_within fl fl' \<and> frames fl' = drop m (frames fl)
    \<and> playable (take m (frames fl)) = min (lst - fl_discarded_num fl) (playable (frames fl))"
  using assms
proof (induction lst arbitrary: fl removed rule: less_induct)
  case (less lst)
  define c where "c = lst - fl_discarded_num fl"
  show ?case
  proof (cases "fl_discarded_num fl < lst")
    case False
    then show ?thesis using less.prems(1)
      by (intro exI [of _ fl] exI [of _ 0]) (simp add: remove_more.simps)
  next
    case True
    then have c: "0 < c" by (simp add: c_def)
    let ?g = "fst (jb_framelist_remove_head fl c)" and ?n = "min c (fl_size fl)"
    let ?xs = "frames fl"
    note r = remove_head_spec [OF less.prems(1), of c]
    have size: "fl_size ?g = fl_size fl - c" by (simp add: remove_head_fields)
    have dn: "fl_discarded_num fl = count_list ?xs Discarded" "fl_discarded_num ?g = count_list (drop c ?xs) Discarded"
      using less.prems(1) r(1,2) by (simp_all add: fl_inv_def)
    have split: "count_list (take c ?xs) Discarded + count_list (drop c ?xs) Discarded = count_list ?xs Discarded"
      "playable (take c ?xs) + playable (drop c ?xs) = playable ?xs"
      by (metis append_take_drop_id count_list_append, metis append_take_drop_id filter_append length_append)
    have tk: "playable (take c ?xs) + count_list (take c ?xs) Discarded = ?n"
      using playable_count [of "take c ?xs"] by simp
    define rem where "rem = removed - c + ?n"
    define c' where "c' = fl_discarded_num fl - fl_discarded_num ?g"
    have c': "c' = count_list (take c ?xs) Discarded" using dn split(1) by (simp add: c'_def)
    have arith: "u32_add (u32_sub removed c) (snd (jb_framelist_remove_head fl c)) = rem"
    proof -
      have le: "c \<le> removed" "removed + fl_size fl < 2 ^ 32" using less.prems(2,3) by (simp_all add: c_def)
      then have "u32_sub removed c = removed - c" by (intro u32_sub_le) auto
      moreover have "u32_add (removed - c) ?n = removed - c + ?n" using le by (intro u32_add_small) auto
      ultimately show ?thesis by (simp add: r(4) rem_def)
    qed
    have pre: "c' \<le> rem" "rem + fl_size ?g < 2 ^ 32"
      using c' tk less.prems(2,3) size unfolding rem_def c_def [symmetric] by linarith+
    from less.IH [OF True r(1) pre(1) [unfolded c'_def] pre(2)] obtain fl' m where
      ih: "remove_more ?g (fl_discarded_num fl) rem = (fl', rem - c' + min c' (playable (drop c ?xs)))"
      "fl_inv fl'" "fl_same ?g fl'" "shrinks ?g fl'" "discards_within ?g fl'" "frames fl' = drop m (drop c ?xs)"
      "playable (take m (drop c ?xs)) = min c' (playable (drop c ?xs))"
      unfolding c'_def r(2) by blast
    have total: "playable (take c ?xs) + min c' (playable (drop c ?xs)) = min c (playable ?xs)"
    proof (cases "c \<le> fl_size fl")
      case True
      then show ?thesis using tk split(2) c' by simp
    next
      case False
      then have "drop c ?xs = []" "take c ?xs = ?xs" by simp_all
      then show ?thesis using False tk by simp
    qed
    have "remove_more fl lst removed = remove_more ?g (fl_discarded_num fl) rem"
      using True arith by (subst remove_more.simps) (simp add: case_prod_beta c_def)
    also have "\<dots> = (fl', removed - c + min c (playable ?xs))"
      unfolding ih(1) using total tk c' by (simp add: rem_def)
    finally have eq: "remove_more fl lst removed = (fl', removed - c + min c (playable ?xs))" .
    have "frames fl' = drop (c + m) ?xs" "playable (take (c + m) ?xs) = min c (playable ?xs)"
      using ih(6,7) total by (simp_all add: take_add add.commute)
    moreover have "fl_same fl fl'" using fl_same_trans [OF remove_head_same ih(3)] .
    moreover have "shrinks fl fl'" using shrinks_remove_head [OF less.prems(1)] ih(4)
      by (fastforce simp: shrinks_def fl_same_def)
    moreover have "discards_within fl fl'"
      using discards_within_trans [OF discards_within_remove_head [OF less.prems(1)] ih(5)] .
    ultimately show ?thesis using eq ih(2) unfolding c_def [symmetric] by blast
  qed
qed

text \<open>\<^verbatim>\<open>pjmedia_jbuf_remove_frame\<close> takes that many frames off the head, the discarded ones not counted.\<close>

theorem jb_remove_frame_counts:
  assumes "jb_inv jb"
  shows "\<exists>jb' m. pjmedia_jbuf_remove_frame jb frame_cnt = (jb', min frame_cnt (playable (frames (jb_flist jb))))
    \<and> jb_inv jb' \<and> frames (jb_flist jb') = drop m (frames (jb_flist jb))
    \<and> playable (take m (frames (jb_flist jb))) = min frame_cnt (playable (frames (jb_flist jb)))"
proof -
  note i = jb_invD [OF assms]
  note b = fl_inv_basic [OF i(1)]
  let ?fl = "jb_flist jb" and ?g = "fst (jb_framelist_remove_head (jb_flist jb) frame_cnt)" and ?xs = "frames (jb_flist jb)"
  let ?n = "min frame_cnt (fl_size ?fl)"
  note r = remove_head_spec [OF i(1), of frame_cnt]
  define c where "c = fl_discarded_num ?fl - fl_discarded_num ?g"
  have "count_list (take frame_cnt ?xs) Discarded + count_list (drop frame_cnt ?xs) Discarded = count_list ?xs Discarded"
    by (metis append_take_drop_id count_list_append)
  then have c: "c = count_list (take frame_cnt ?xs) Discarded"
    using i(1) r(1,2) by (simp add: c_def fl_inv_def)
  have tk: "playable (take frame_cnt ?xs) + c = ?n"
    using playable_count [of "take frame_cnt ?xs"] by (simp add: c)
  have pre: "c \<le> ?n" "?n + fl_size ?g < 2 ^ 32"
  proof -
    show "c \<le> ?n" using tk by linarith
    have "fl_size ?g = fl_size ?fl - ?n" by (simp add: remove_head_fields)
    then show "?n + fl_size ?g < 2 ^ 32" using b(3,4) by simp
  qed
  obtain fl' m where m: "remove_more ?g (fl_discarded_num ?fl) ?n = (fl', ?n - c + min c (playable (frames ?g)))"
    "fl_inv fl'" "fl_same ?g fl'" "discards_within ?g fl'" "frames fl' = drop m (frames ?g)"
    "playable (take m (frames ?g)) = min c (playable (frames ?g))"
    using remove_more_spec [OF r(1) pre(1) [unfolded c_def] pre(2)] unfolding c_def by blast
  have "playable (take frame_cnt ?xs) + playable (drop frame_cnt ?xs) = playable ?xs"
    by (metis append_take_drop_id filter_append length_append)
  then have total: "?n - c + min c (playable (drop frame_cnt ?xs)) = min frame_cnt (playable ?xs)"
    using tk by (cases "frame_cnt \<le> fl_size ?fl") auto
  have "jb_inv (jb\<lparr>jb_flist := fl'\<rparr>)"
    by (rule jb_inv_list [OF assms m(2) fl_same_trans [OF remove_head_same m(3)]
          discards_within_trans [OF discards_within_remove_head [OF i(1)] m(4)]])
  moreover have "pjmedia_jbuf_remove_frame jb frame_cnt = (jb\<lparr>jb_flist := fl'\<rparr>, min frame_cnt (playable ?xs))"
    unfolding pjmedia_jbuf_remove_frame_def Let_def using m(1) total r(2,4) by (simp add: case_prod_beta)
  moreover have "frames fl' = drop (frame_cnt + m) ?xs"
    "playable (take (frame_cnt + m) ?xs) = min frame_cnt (playable ?xs)"
    using m(5,6) r(2) total tk by (simp_all add: take_add add.commute)
  ultimately show ?thesis by (intro exI [of _ "jb\<lparr>jb_flist := fl'\<rparr>"] exI [of _ "frame_cnt + m"]) simp
qed

text \<open>\<^verbatim>\<open>pjmedia_jbuf_peek_frame\<close> returns, with the frame that \<^verbatim>\<open>offset\<close> more gets would reach.\<close>

theorem jb_peek_frame_total:
  assumes "jb_inv jb"
  shows "\<exists>ty r. pjmedia_jbuf_peek_frame jb offset = Some (ty, r)
    \<and> (let ys = filter (\<lambda>f. f \<noteq> Discarded) (frames (jb_flist jb))
       in if offset < length ys
          then (case ys ! offset of
                  Frame bytes bi ts \<Rightarrow> ty = PJMEDIA_JB_NORMAL_FRAME
                    \<and> (\<exists>out content. r = Some out \<and> out_frame out = Some content \<and> take (out_size out) content = bytes
                         \<and> out_bit_info out = bi \<and> out_ts out = ts)
                | _ \<Rightarrow> ty = PJMEDIA_JB_MISSING_FRAME)
          else ty = PJMEDIA_JB_ZERO_EMPTY_FRAME \<and> r = None)"
proof -
  let ?ys = "filter (\<lambda>f. f \<noteq> Discarded) (frames (jb_flist jb))"
  note p = framelist_peek_spec [OF jb_invD(1) [OF assms], of offset]
  show ?thesis
  proof (cases "offset < length ?ys")
    case False
    with p show ?thesis by (auto simp: pjmedia_jbuf_peek_frame_def)
  next
    case True
    with p obtain out where out: "jb_framelist_peek (jb_flist jb) offset = Some (Some out)"
      "case ?ys ! offset of
             Frame bytes bi ts \<Rightarrow> out_type out = PJMEDIA_JB_NORMAL_FRAME \<and> out_size out = length bytes
               \<and> (\<exists>content. out_frame out = Some content \<and> take (out_size out) content = bytes)
               \<and> out_bit_info out = bi \<and> out_ts out = ts
           | _ \<Rightarrow> out_type out = PJMEDIA_JB_MISSING_FRAME \<and> out_size out = 0"
      by auto
    with True show ?thesis
      by (cases "?ys ! offset") (auto simp: pjmedia_jbuf_peek_frame_def)
  qed
qed

text \<open>
  \<^verbatim>\<open>pjmedia_jbuf_get_frame3\<close> always returns. While prefetching it takes nothing; else it takes what the list
  hands out, and says so with the frame type.
\<close>

theorem jb_get_frame_total:
  assumes "jb_inv jb"
  shows "\<exists>jb' ty res fl. pjmedia_jbuf_get_frame3 jb buf = Some (jb', ty, res) \<and> jb_inv jb' \<and> shrinks fl (jb_flist jb')
    \<and> (if jb_prefetching jb then ty = PJMEDIA_JB_ZERO_PREFETCH_FRAME \<and> res = None \<and> fl = jb_flist jb
       else (\<exists>r. res = Some r \<and> get_spec (jb_flist jb) buf fl r
              \<and> ty = (case r of Inl _ \<Rightarrow> PJMEDIA_JB_ZERO_EMPTY_FRAME | Inr out \<Rightarrow> out_type out)))"
  using get_frame3_spec [OF assms, of buf] by blast

text \<open>When the burst level rises, the prefetch follows it at once, within its limits.\<close>

theorem jb_prefetch_follows_burst:
  assumes "levels_ok jb" and "jb_level jb > jb_eff_level jb" and "jb_init_prefetch jb \<noteq> 0"
  defines "lvl \<equiv> min (max (jb_max_hist_level jb) (jb_level jb)) (int (jb_max_count jb * 4 div 5))"
  shows "jb_eff_level (jbuf_calculate_jitter jb) = lvl
    \<and> jb_prefetch (jbuf_calculate_jitter jb) = max (jb_min_prefetch jb) (min (jb_max_prefetch jb) lvl)
    \<and> jb_eff_level jb \<le> jb_eff_level (jbuf_calculate_jitter jb)"
proof -
  have "jbuf_calculate_jitter jb = (clamp_prefetch_high_low
     (jb\<lparr>jb_burst := pj_math_stat_update (jb_burst jb) (jb_level jb),
         jb_max_hist_level := max (jb_max_hist_level jb) (jb_level jb), jb_eff_level := lvl\<rparr>))\<lparr>jb_stable_hist := 0\<rparr>"
    using assms(2) by (simp add: jbuf_calculate_jitter_def Let_def lvl_def)
  moreover have "jb_eff_level jb \<le> lvl" using assms(1,2) by (auto simp: lvl_def levels_ok_def)
  ultimately show ?thesis
    using assms(1,3) by (auto simp: clamp_prefetch_high_low_def Let_def levels_ok_def)
qed

section \<open>Witnesses\<close>

text \<open>A buffer of eight slots of four bytes, fresh, with no prefetch.\<close>

definition wit_flist :: jb_framelist where
  "wit_flist = \<lparr>fl_frame_size = 4, fl_max_count = 8, fl_content = replicate 8 [0, 0, 0, 0],
     fl_frame_type = replicate 8 PJMEDIA_JB_MISSING_FRAME, fl_content_len = replicate 8 0,
     fl_bit_info = replicate 8 0, fl_ts = replicate 8 0, fl_head = 0, fl_size = 0,
     fl_discarded_num = 0, fl_origin = INVALID_OFFSET\<rparr>"

definition wit_jb :: pjmedia_jbuf where
  "wit_jb = \<lparr>jb_frame_size = 4, jb_frame_ptime = 20, jb_max_count = 8,
     jb_init_prefetch = 0, jb_min_prefetch = 0, jb_max_prefetch = 6, jb_max_burst = 50, jb_min_shrink_gap = 10,
     jb_discard_algo = PJMEDIA_JB_DISCARD_PROGRESSIVE, jb_flist = wit_flist,
     jb_level = 0, jb_max_hist_level = 0, jb_stable_hist = 0, jb_last_op = JB_OP_INIT, jb_eff_level = 0,
     jb_prefetch = 0, jb_prefetching = False, jb_state = JB_STATUS_INITIALIZING, jb_init_cycle_cnt = 0,
     jb_discard_ref = 0, jb_discard_dist = 0, jb_delay = pj_math_stat_init, jb_burst = pj_math_stat_init,
     jb_lost = 0, jb_discard = 0, jb_empty = 0\<rparr>"

lemma wit_jb_inv: "jb_inv wit_jb"
proof -
  have "fl_arrays (jb_flist wit_jb)" by (simp add: wit_jb_def wit_flist_def fl_arrays_def in_set_replicate)
  moreover have "levels_ok wit_jb" by (simp add: wit_jb_def levels_ok_def)
  ultimately have "jb_inv (snd (pjmedia_jbuf_reset wit_jb))"
    by (intro jb_reset_inv) (simp_all add: wit_jb_def wit_flist_def)
  moreover have "snd (pjmedia_jbuf_reset wit_jb) = wit_jb" by code_simp
  ultimately show ?thesis by simp
qed

lemma wit_jb_fields:
  "0 \<le> (10 :: int)" "(10 :: int) < 2 ^ 31" "(2 :: nat) \<le> length [1 :: u8, 2]"
  by simp_all

definition wit_jb1 :: pjmedia_jbuf where
  "wit_jb1 = fst (the (pjmedia_jbuf_put_frame3 wit_jb [1, 2] 2 0 10 100))"

lemma wit_jb1_inv: "jb_inv wit_jb1"
  using put_frame3_spec [OF wit_jb_inv wit_jb_fields, of 0 100] by (auto simp: wit_jb1_def)

definition wit_events :: "jb_event list" where
  "wit_events = [Put_Frame [1, 2] 0 10 100, Put_Frame [3, 4, 5, 6, 7] 0 11 200, Get_Frame None,
     Put_Frame [8] 0 13 400, Put_Frame [9] 0 11 200, Get_Frame (Some 3), Get_Frame None, Get_Frame None]"

lemma wit_no_restart: "no_restart wit_jb wit_events"
  by code_simp

theorem jb_play_in_order_witness:
  "(\<exists>jb' outs. jb_play wit_jb wit_events = Some (jb', outs) \<and> jb_inv jb'
    \<and> sorted_wrt (\<lambda>a b. out_seq a < out_seq b) outs)
   \<and> map_option (\<lambda>(_, outs). map out_seq outs) (jb_play wit_jb wit_events) = Some [10, 11, 12, 13]"
proof
  show "\<exists>jb' outs. jb_play wit_jb wit_events = Some (jb', outs) \<and> jb_inv jb'
    \<and> sorted_wrt (\<lambda>a b. out_seq a < out_seq b) outs"
    using jb_play_in_order [OF wit_jb_inv wit_no_restart] by blast
  show "map_option (\<lambda>(_, outs). map out_seq outs) (jb_play wit_jb wit_events) = Some [10, 11, 12, 13]"
    by code_simp
qed

theorem jb_put_frame_total_witness:
  "\<exists>jb' st. pjmedia_jbuf_put_frame3 wit_jb [1, 2] 2 0 10 100 = Some (jb', st \<noteq> PJ_SUCCESS)
    \<and> st \<in> {PJ_SUCCESS, PJ_ETOOSMALL, PJ_EEXISTS} \<and> jb_inv jb'"
  using jb_put_frame_total [OF wit_jb_inv wit_jb_fields, of 0 100] by blast

theorem jb_put_refused_witness:
  "pjmedia_jbuf_put_frame3 wit_jb1 [1, 2] 2 0 10 100 = Some (wit_jb1\<lparr>jb_discard := jb_discard wit_jb1 + 1\<rparr>, True)"
proof (rule jb_put_refused [OF wit_jb1_inv wit_jb_fields])
  have "fl_origin (jb_flist wit_jb1) = 10" "fl_size (jb_flist wit_jb1) = 1"
    "frames (jb_flist wit_jb1) ! 0 \<noteq> Missing" by code_simp+
  then show "(10 < fl_origin (jb_flist wit_jb1) \<and> fl_origin (jb_flist wit_jb1) - 10 < JB_MAX_MISORDER)
       \<or> (fl_origin (jb_flist wit_jb1) \<le> 10 \<and> 10 < fl_origin (jb_flist wit_jb1) + int (fl_size (jb_flist wit_jb1))
          \<and> frames (jb_flist wit_jb1) ! nat (10 - fl_origin (jb_flist wit_jb1)) \<noteq> Missing)" by simp
qed

theorem jb_create_inv_witness:
  "\<exists>jb. pjmedia_jbuf_create wit_flist 4 20 8 = Some jb \<and> jb_inv jb"
  using jb_create_inv [where ptime = 20 and max_count = 8 and mem = wit_flist and frame_size = 4]
  by (auto simp: PJMEDIA_JBUF_DISC_MIN_GAP_def wit_flist_def fl_arrays_def in_set_replicate)

theorem jb_settings_inv_witness:
  "jb_inv (snd (pjmedia_jbuf_set_fixed wit_jb1 3))
   \<and> (\<exists>jb'. pjmedia_jbuf_set_ptime wit_jb1 20 = Some (PJ_SUCCESS, jb') \<and> jb_inv jb')"
  using jb_settings_inv [OF wit_jb1_inv, of 3 0 0 PJMEDIA_JB_DISCARD_NONE 20]
  by (simp add: PJMEDIA_JBUF_DISC_MIN_GAP_def)

theorem jb_remove_frame_counts_witness:
  "\<exists>jb' m. pjmedia_jbuf_remove_frame wit_jb1 5 = (jb', min 5 (playable (frames (jb_flist wit_jb1)))) \<and> jb_inv jb'"
  using jb_remove_frame_counts [OF wit_jb1_inv, of 5] by blast

theorem jb_peek_frame_total_witness:
  "\<exists>ty r. pjmedia_jbuf_peek_frame wit_jb1 0 = Some (ty, r)"
  using jb_peek_frame_total [OF wit_jb1_inv, of 0] by blast

theorem jb_get_frame_total_witness:
  "\<exists>jb' ty res. pjmedia_jbuf_get_frame3 wit_jb1 (Some 4) = Some (jb', ty, res) \<and> jb_inv jb'"
  using jb_get_frame_total [OF wit_jb1_inv, of "Some 4"] by blast

theorem jb_prefetch_follows_burst_witness:
  "jb_prefetch (jbuf_calculate_jitter (wit_jb\<lparr>jb_level := 3, jb_init_prefetch := 1\<rparr>)) = 3"
  using jb_prefetch_follows_burst [of "wit_jb\<lparr>jb_level := 3, jb_init_prefetch := 1\<rparr>"]
  by (simp add: levels_ok_def wit_jb_def)

end
