(* ===== verification/Circ_Buf.thy ===== *)
theory Circ_Buf
  imports Pj_Prelude "HOL-Library.Monad_Syntax"
begin

text \<open>
  The circular sample buffer of \<^verbatim>\<open>pjmedia/include/pjmedia/circbuf.h\<close>. A pointer into the buffer is an offset; an operation gives
  \<open>None\<close> when it would touch memory outside the buffer or follow a null pointer. The interface of a bounded queue of samples
  is a locale, which the buffer implements.
\<close>

section \<open>Model\<close>

text \<open>
  Sample copies (\<^verbatim>\<open>pjmedia_copy_samples\<close> and \<^verbatim>\<open>pjmedia_move_samples\<close> of \<^verbatim>\<open>frame.h\<close>, the C library's \<^verbatim>\<open>memcpy\<close> and
  \<^verbatim>\<open>memmove\<close>): out of the buffer, into it, and within it. The length in bytes is an \<^verbatim>\<open>unsigned\<close>, which wraps.
\<close>

definition copied :: "nat \<Rightarrow> nat" where
  "copied cnt = u32_mul cnt 2 div 2"

definition load_samples :: "int list \<Rightarrow> nat option \<Rightarrow> nat \<Rightarrow> int list option" where
  "load_samples mem p cnt =
     (let n = copied cnt
      in if n = 0 then Some []
         else case p of None \<Rightarrow> None | Some off \<Rightarrow> if off + n \<le> length mem then Some (take n (drop off mem)) else None)"

definition store_samples :: "int list \<Rightarrow> nat option \<Rightarrow> int list \<Rightarrow> int list option" where
  "store_samples mem p xs =
     (let n = copied (length xs)
      in if n = 0 then Some mem
         else case p of None \<Rightarrow> None
           | Some off \<Rightarrow> if off + n \<le> length mem then Some (take off mem @ take n xs @ drop (off + n) mem) else None)"

definition move_samples :: "int list \<Rightarrow> nat \<Rightarrow> nat \<Rightarrow> nat \<Rightarrow> int list option" where
  "move_samples mem dst src n = do { xs \<leftarrow> load_samples mem (Some src) n; store_samples mem (Some dst) xs }"

record circ_buf =
  cb_buf :: "int list"
  cb_capacity :: nat
  cb_start :: nat
  cb_len :: nat

definition pjmedia_circ_buf_create :: "nat \<Rightarrow> circ_buf" where
  "pjmedia_circ_buf_create capacity = \<lparr>cb_buf = replicate capacity 0, cb_capacity = capacity, cb_start = 0, cb_len = 0\<rparr>"

definition pjmedia_circ_buf_reset :: "circ_buf \<Rightarrow> pj_status \<times> circ_buf" where
  "pjmedia_circ_buf_reset cb = (PJ_SUCCESS, cb\<lparr>cb_start := 0, cb_len := 0\<rparr>)"

definition pjmedia_circ_buf_get_len :: "circ_buf \<Rightarrow> nat" where
  "pjmedia_circ_buf_get_len cb = cb_len cb"

definition pjmedia_circ_buf_set_len :: "circ_buf \<Rightarrow> nat \<Rightarrow> circ_buf" where
  "pjmedia_circ_buf_set_len cb len = cb\<lparr>cb_len := len\<rparr>"

definition pjmedia_circ_buf_adv_read_ptr :: "circ_buf \<Rightarrow> nat \<Rightarrow> pj_status \<times> circ_buf" where
  "pjmedia_circ_buf_adv_read_ptr cb cnt =
     (if cnt \<ge> cb_len cb then pjmedia_circ_buf_reset cb
      else
        (let start = cb_start cb + cnt;
             start = (if start \<ge> cb_capacity cb then start - cb_capacity cb else start)
         in (PJ_SUCCESS, cb\<lparr>cb_start := start, cb_len := cb_len cb - cnt\<rparr>)))"

definition pjmedia_circ_buf_adv_write_ptr :: "circ_buf \<Rightarrow> nat \<Rightarrow> pj_status \<times> circ_buf" where
  "pjmedia_circ_buf_adv_write_ptr cb cnt =
     (if u32_add cnt (cb_len cb) > cb_capacity cb then (PJ_ETOOBIG, cb)
      else (PJ_SUCCESS, cb\<lparr>cb_len := u32_add (cb_len cb) cnt\<rparr>))"

text \<open>The two regions of samples and of free space: address and length of each; the second may be null.\<close>

definition pjmedia_circ_buf_get_read_regions :: "circ_buf \<Rightarrow> nat \<times> nat \<times> nat option \<times> nat" where
  "pjmedia_circ_buf_get_read_regions cb =
     (if cb_start cb + cb_len cb > cb_capacity cb then
        (let reg1_len = u32_sub (cb_capacity cb) (cb_start cb)
         in (cb_start cb, reg1_len, Some 0, u32_sub (cb_len cb) reg1_len))
      else (cb_start cb, cb_len cb, None, 0))"

definition pjmedia_circ_buf_get_write_regions :: "circ_buf \<Rightarrow> nat \<times> nat \<times> nat option \<times> nat" where
  "pjmedia_circ_buf_get_write_regions cb =
     (let reg1 = cb_start cb + cb_len cb;
          reg1 = (if reg1 \<ge> cb_capacity cb then reg1 - cb_capacity cb else reg1);
          reg1_len = u32_sub (cb_capacity cb) (cb_len cb)
      in if reg1 + reg1_len > cb_capacity cb then (reg1, u32_sub (cb_capacity cb) reg1, Some 0, cb_start cb)
         else (reg1, reg1_len, None, 0))"

definition pjmedia_circ_buf_read :: "circ_buf \<Rightarrow> nat \<Rightarrow> (pj_status \<times> int list \<times> circ_buf) option" where
  "pjmedia_circ_buf_read cb cnt =
     (if cnt > cb_len cb then Some (PJ_ETOOBIG, [], cb)
      else
        (let (reg1, reg1cnt, reg2, reg2cnt) = pjmedia_circ_buf_get_read_regions cb
         in do {
           data \<leftarrow> (if reg1cnt \<ge> cnt then load_samples (cb_buf cb) (Some reg1) cnt
                    else do {
                      xs \<leftarrow> load_samples (cb_buf cb) (Some reg1) reg1cnt;
                      ys \<leftarrow> load_samples (cb_buf cb) reg2 (cnt - reg1cnt);
                      Some (xs @ ys)
                    });
           Some (let (st, cb) = pjmedia_circ_buf_adv_read_ptr cb cnt in (st, data, cb))
         }))"

definition pjmedia_circ_buf_write :: "circ_buf \<Rightarrow> int list \<Rightarrow> (pj_status \<times> circ_buf) option" where
  "pjmedia_circ_buf_write cb data =
     (let cnt = length data
      in if cnt > u32_sub (cb_capacity cb) (cb_len cb) then Some (PJ_ETOOBIG, cb)
         else
           (let (reg1, reg1cnt, reg2, reg2cnt) = pjmedia_circ_buf_get_write_regions cb
            in do {
              mem \<leftarrow> (if reg1cnt \<ge> cnt then store_samples (cb_buf cb) (Some reg1) data
                      else do {
                        mem \<leftarrow> store_samples (cb_buf cb) (Some reg1) (take reg1cnt data);
                        store_samples mem reg2 (drop reg1cnt data)
                      });
              Some (pjmedia_circ_buf_adv_write_ptr (cb\<lparr>cb_buf := mem\<rparr>) cnt)
            }))"

definition pjmedia_circ_buf_copy :: "circ_buf \<Rightarrow> nat \<Rightarrow> nat \<Rightarrow> (pj_status \<times> int list) option" where
  "pjmedia_circ_buf_copy cb start_idx cnt =
     (if u32_add cnt start_idx > cb_len cb then Some (PJ_ETOOBIG, [])
      else
        (let (reg1, reg1cnt, reg2, reg2cnt) = pjmedia_circ_buf_get_read_regions cb
         in if reg1cnt > start_idx then
              (let tmp_len = reg1cnt - start_idx;
                   tmp_len = (if tmp_len > cnt then cnt else tmp_len)
               in do {
                 xs \<leftarrow> load_samples (cb_buf cb) (Some (reg1 + start_idx)) tmp_len;
                 ys \<leftarrow> (if tmp_len < cnt then load_samples (cb_buf cb) reg2 (cnt - tmp_len) else Some []);
                 Some (PJ_SUCCESS, xs @ ys)
               })
            else do {
              xs \<leftarrow> load_samples (cb_buf cb) (map_option (\<lambda>p. p + start_idx - reg1cnt) reg2) cnt;
              Some (PJ_SUCCESS, xs)
            }))"

text \<open>The loop that rolls the buffer left; a round that moves nothing would repeat for ever.\<close>

function pack_loop :: "int list \<Rightarrow> nat \<Rightarrow> nat \<Rightarrow> nat \<Rightarrow> nat \<Rightarrow> (int list \<times> nat) option" where
  "pack_loop mem reg1 reg1cnt reg2cnt gap =
     (let gap = (if gap > reg2cnt then reg2cnt else gap)
      in if reg1 < gap then None
         else do {
           mem \<leftarrow> move_samples mem (reg1 - gap) reg1 reg1cnt;
           mem \<leftarrow> move_samples mem (reg1 + reg1cnt - gap) 0 gap;
           mem \<leftarrow> (if gap < reg2cnt then move_samples mem 0 gap (reg2cnt - gap) else Some mem);
           if reg2cnt - gap > 0
           then (if gap = 0 then None else pack_loop mem (reg1 - gap) (reg1cnt + gap) (reg2cnt - gap) gap)
           else Some (mem, reg1 - gap)
         })"
  by pat_completeness auto
termination
  by (relation "measure (\<lambda>(mem, reg1, reg1cnt, reg2cnt, gap). reg2cnt)") (auto split: if_splits)

declare pack_loop.simps [simp del]

definition pjmedia_circ_buf_pack_buffer :: "circ_buf \<Rightarrow> (pj_status \<times> circ_buf) option" where
  "pjmedia_circ_buf_pack_buffer cb =
     (let (reg1, reg1cnt, reg2, reg2cnt) = pjmedia_circ_buf_get_read_regions cb;
          gap = u32_sub (cb_capacity cb) (pjmedia_circ_buf_get_len cb)
      in if reg2cnt \<noteq> 0 \<and> gap = 0 then Some (PJ_ETOOBIG, cb)
         else do {
           (mem, reg1) \<leftarrow> (if reg2cnt \<noteq> 0 then pack_loop (cb_buf cb) reg1 reg1cnt reg2cnt gap else Some (cb_buf cb, reg1));
           mem \<leftarrow> (if reg1 \<noteq> 0 then move_samples mem 0 reg1 (pjmedia_circ_buf_get_len cb) else Some mem);
           Some (PJ_SUCCESS, cb\<lparr>cb_buf := mem, cb_start := 0\<rparr>)
         })"

section \<open>Invariant and abstraction\<close>

definition cb_inv :: "circ_buf \<Rightarrow> bool" where
  "cb_inv cb \<longleftrightarrow> length (cb_buf cb) = cb_capacity cb \<and> cb_len cb \<le> cb_capacity cb \<and> cb_capacity cb < 2 ^ 31
     \<and> (cb_start cb < cb_capacity cb \<or> cb_start cb = 0)"

definition cb_samples :: "circ_buf \<Rightarrow> int list" where
  "cb_samples cb = take (cb_len cb) (drop (cb_start cb) (cb_buf cb) @ take (cb_start cb) (cb_buf cb))"

lemma copied_id: "n < 2 ^ 31 \<Longrightarrow> copied n = n"
  by (simp add: copied_def u32_mul_small)

lemma load_ok: "off + n \<le> length mem \<Longrightarrow> n < 2 ^ 31 \<Longrightarrow> load_samples mem (Some off) n = Some (take n (drop off mem))"
  by (simp add: load_samples_def copied_id)

lemma store_ok:
  "off + length xs \<le> length mem \<Longrightarrow> length xs < 2 ^ 31 \<Longrightarrow> store_samples mem (Some off) xs = Some (take off mem @ xs @ drop (off + length xs) mem)"
  by (simp add: store_samples_def copied_id Let_def)

lemma load_0: "load_samples mem p 0 = Some []"
  by (simp add: load_samples_def copied_id)

lemma length_cb_samples: "cb_inv cb \<Longrightarrow> length (cb_samples cb) = cb_len cb"
  by (auto simp: cb_inv_def cb_samples_def)

lemma read_regions:
  "cb_inv cb \<Longrightarrow> pjmedia_circ_buf_get_read_regions cb =
     (if cb_start cb + cb_len cb > cb_capacity cb
      then (cb_start cb, cb_capacity cb - cb_start cb, Some 0, cb_len cb - (cb_capacity cb - cb_start cb))
      else (cb_start cb, cb_len cb, None, 0))"
  by (auto simp: cb_inv_def pjmedia_circ_buf_get_read_regions_def u32_sub_le)

lemma write_regions:
  "cb_inv cb \<Longrightarrow> pjmedia_circ_buf_get_write_regions cb =
     (if cb_start cb + cb_len cb \<ge> cb_capacity cb then (cb_start cb + cb_len cb - cb_capacity cb, cb_capacity cb - cb_len cb, None, 0)
      else if cb_start cb = 0 then (cb_len cb, cb_capacity cb - cb_len cb, None, 0)
      else (cb_start cb + cb_len cb, cb_capacity cb - (cb_start cb + cb_len cb), Some 0, cb_start cb))"
  by (auto simp: cb_inv_def pjmedia_circ_buf_get_write_regions_def u32_sub_le Let_def)

lemma adv_read:
  assumes "cb_inv cb"
  shows "\<exists>cb'. pjmedia_circ_buf_adv_read_ptr cb n = (PJ_SUCCESS, cb') \<and> cb_inv cb' \<and> cb_samples cb' = drop n (cb_samples cb)
    \<and> cb_capacity cb' = cb_capacity cb"
proof (cases "n \<ge> cb_len cb")
  case True
  then show ?thesis using assms
    by (simp add: pjmedia_circ_buf_adv_read_ptr_def pjmedia_circ_buf_reset_def cb_inv_def cb_samples_def)
next
  case False
  let ?s = "cb_start cb + n"
  let ?s' = "if ?s \<ge> cb_capacity cb then ?s - cb_capacity cb else ?s"
  have e: "pjmedia_circ_buf_adv_read_ptr cb n = (PJ_SUCCESS, cb\<lparr>cb_start := ?s', cb_len := cb_len cb - n\<rparr>)"
    using False by (simp add: pjmedia_circ_buf_adv_read_ptr_def)
  have "cb_inv (cb\<lparr>cb_start := ?s', cb_len := cb_len cb - n\<rparr>)" using assms False by (auto simp: cb_inv_def)
  moreover have "cb_samples (cb\<lparr>cb_start := ?s', cb_len := cb_len cb - n\<rparr>) = drop n (cb_samples cb)"
  proof (cases "?s \<ge> cb_capacity cb")
    case True
    let ?t = "?s - cb_capacity cb"
    have len: "length (cb_buf cb) = cb_capacity cb" and t: "?t + (cb_len cb - n) \<le> cb_start cb" "cb_start cb \<le> cb_capacity cb"
      using assms True False by (auto simp: cb_inv_def)
    have "drop n (drop (cb_start cb) (cb_buf cb) @ take (cb_start cb) (cb_buf cb)) = drop ?t (take (cb_start cb) (cb_buf cb))"
      using True len t(2) by (simp add: add.commute)
    then have "drop n (cb_samples cb) = take (cb_len cb - n) (drop ?t (take (cb_start cb) (cb_buf cb)))"
      by (simp only: cb_samples_def drop_take)
    also have "\<dots> = take (cb_len cb - n) (drop ?t (cb_buf cb) @ take ?t (cb_buf cb))"
      using len t by (simp add: drop_take)
    finally show ?thesis using True by (simp add: cb_samples_def)
  next
    case small: False
    have "drop n (drop (cb_start cb) (cb_buf cb) @ take (cb_start cb) (cb_buf cb)) = drop ?s (cb_buf cb) @ take (cb_start cb) (cb_buf cb)"
      using assms small by (simp add: cb_inv_def add.commute)
    then have "drop n (cb_samples cb) = take (cb_len cb - n) (drop ?s (cb_buf cb) @ take (cb_start cb) (cb_buf cb))"
      by (simp only: cb_samples_def drop_take)
    also have "\<dots> = take (cb_len cb - n) (drop ?s (cb_buf cb) @ take ?s (cb_buf cb))"
    proof -
      have "cb_len cb + cb_start cb - cb_capacity cb \<le> cb_start cb" using assms by (auto simp: cb_inv_def)
      then show ?thesis using assms small False by (simp add: cb_inv_def min_absorb1)
    qed
    finally show ?thesis using small by (simp add: cb_samples_def)
  qed
  ultimately show ?thesis unfolding e by simp
qed

lemma circ_read:
  assumes inv: "cb_inv cb" and n: "n \<le> cb_len cb"
  shows "\<exists>cb'. pjmedia_circ_buf_read cb n = Some (PJ_SUCCESS, take n (cb_samples cb), cb') \<and> cb_inv cb' \<and> cb_samples cb' = drop n (cb_samples cb)
    \<and> cb_capacity cb' = cb_capacity cb"
proof -
  obtain cb' where cb': "pjmedia_circ_buf_adv_read_ptr cb n = (PJ_SUCCESS, cb')" "cb_inv cb'" "cb_samples cb' = drop n (cb_samples cb)"
    "cb_capacity cb' = cb_capacity cb" using adv_read [OF inv] by blast
  have "pjmedia_circ_buf_read cb n = Some (PJ_SUCCESS, take n (cb_samples cb), cb')"
    using inv n cb'(1) read_regions [OF inv]
    by (auto simp: pjmedia_circ_buf_read_def cb_inv_def load_ok cb_samples_def min_def)
  then show ?thesis using cb' by blast
qed

lemma stored_nth:
  "off + length xs \<le> length mem \<Longrightarrow> i < length mem \<Longrightarrow>
    (take off mem @ xs @ drop (off + length xs) mem) ! i = (if off \<le> i \<and> i < off + length xs then xs ! (i - off) else mem ! i)"
  by (auto simp: nth_append)

lemma wrap_mod: "x < 2 * c \<Longrightarrow> x mod c = (if x < c then x else x - c)" for c :: nat
  by (simp add: le_mod_geq)

lemma samples_nth:
  assumes "cb_inv cb" "i < cb_len cb"
  shows "cb_samples cb ! i = cb_buf cb ! ((cb_start cb + i) mod cb_capacity cb)"
proof -
  have "cb_start cb + i < 2 * cb_capacity cb" using assms by (auto simp: cb_inv_def)
  then show ?thesis using assms by (auto simp: wrap_mod cb_inv_def cb_samples_def nth_append add.commute)
qed

text \<open>The samples of a buffer are settled by its places, and data put behind them is all that a write changes.\<close>

lemma written_samples:
  assumes inv: "cb_inv cb" and fit: "cb_len cb + length data \<le> cb_capacity cb" and len: "length mem = cb_capacity cb"
    and old: "\<And>i. i < cb_len cb \<Longrightarrow> mem ! ((cb_start cb + i) mod cb_capacity cb) = cb_buf cb ! ((cb_start cb + i) mod cb_capacity cb)"
    and new: "\<And>i. i < length data \<Longrightarrow> mem ! ((cb_start cb + cb_len cb + i) mod cb_capacity cb) = data ! i"
  shows "cb_inv (cb\<lparr>cb_buf := mem, cb_len := cb_len cb + length data\<rparr>)"
    and "cb_samples (cb\<lparr>cb_buf := mem, cb_len := cb_len cb + length data\<rparr>) = cb_samples cb @ data"
proof -
  let ?cb = "cb\<lparr>cb_buf := mem, cb_len := cb_len cb + length data\<rparr>"
  show i: "cb_inv ?cb" using inv fit len by (simp add: cb_inv_def)

  show "cb_samples ?cb = cb_samples cb @ data"
  proof (rule nth_equalityI)
    show "length (cb_samples ?cb) = length (cb_samples cb @ data)" using length_cb_samples [OF i] length_cb_samples [OF inv] by simp
    fix j assume "j < length (cb_samples ?cb)"
    then have j: "j < cb_len cb + length data" using length_cb_samples [OF i] by simp
    show "cb_samples ?cb ! j = (cb_samples cb @ data) ! j"
    proof (cases "j < cb_len cb")
      case True
      then show ?thesis using samples_nth [OF inv, of j] samples_nth [OF i, of j] j old [of j] by (simp add: nth_append length_cb_samples [OF inv])
    next
      case False
      then show ?thesis using samples_nth [OF i, of j] j new [of "j - cb_len cb"] by (simp add: nth_append length_cb_samples [OF inv])
    qed
  qed
qed

lemma adv_write:
  "cb_inv cb \<Longrightarrow> cb_len cb + n \<le> cb_capacity cb \<Longrightarrow> pjmedia_circ_buf_adv_write_ptr cb n = (PJ_SUCCESS, cb\<lparr>cb_len := cb_len cb + n\<rparr>)"
  by (simp add: cb_inv_def pjmedia_circ_buf_adv_write_ptr_def u32_add_small add.commute)

lemma circ_write:
  assumes inv: "cb_inv cb" and fit: "cb_len cb + length data \<le> cb_capacity cb"
  shows "\<exists>cb'. pjmedia_circ_buf_write cb data = Some (PJ_SUCCESS, cb') \<and> cb_inv cb' \<and> cb_samples cb' = cb_samples cb @ data
    \<and> cb_capacity cb' = cb_capacity cb"
proof -
  note I = inv [unfolded cb_inv_def]
  let ?s = "cb_start cb" and ?l = "cb_len cb" and ?c = "cb_capacity cb" and ?n = "length data"
  have room: "u32_sub ?c ?l = ?c - ?l" using I by (intro u32_sub_le) simp_all
  have dn: "?n < 2 ^ 31" and fits: "\<not> ?c - ?l < ?n" using I fit by simp_all
  have "\<exists>mem. length mem = ?c \<and> pjmedia_circ_buf_write cb data = Some (pjmedia_circ_buf_adv_write_ptr (cb\<lparr>cb_buf := mem\<rparr>) ?n)
      \<and> (\<forall>i < ?l. mem ! ((?s + i) mod ?c) = cb_buf cb ! ((?s + i) mod ?c)) \<and> (\<forall>i < ?n. mem ! ((?s + ?l + i) mod ?c) = data ! i)"
  proof (cases "?s + ?l \<ge> ?c")
    case wrapped: True
    let ?r = "?s + ?l - ?c"
    let ?mem = "take ?r (cb_buf cb) @ data @ drop (?r + ?n) (cb_buf cb)"
    have e: "pjmedia_circ_buf_write cb data = Some (pjmedia_circ_buf_adv_write_ptr (cb\<lparr>cb_buf := ?mem\<rparr>) ?n)"
    proof -
      have "store_samples (cb_buf cb) (Some ?r) data = Some ?mem" by (rule store_ok) (use I fit dn in auto)
      then show ?thesis using wrapped fits by (simp add: pjmedia_circ_buf_write_def room write_regions [OF inv] Let_def)
    qed
    show ?thesis
    proof (rule exI [of _ ?mem], intro conjI allI impI)
      show "pjmedia_circ_buf_write cb data = Some (pjmedia_circ_buf_adv_write_ptr (cb\<lparr>cb_buf := ?mem\<rparr>) ?n)" by (rule e)
      show "length ?mem = ?c" using I fit wrapped by auto
      show "?mem ! ((?s + i) mod ?c) = cb_buf cb ! ((?s + i) mod ?c)" if "i < ?l" for i
      proof -
        have lt: "?s + i < 2 * ?c" using I that by auto
        then have "(?s + i) mod ?c < ?c" "(?s + i) mod ?c < ?r \<or> ?r + ?n \<le> (?s + i) mod ?c"
          using I that wrapped fit unfolding wrap_mod [OF lt] by auto
        then show ?thesis using stored_nth [of ?r data "cb_buf cb" "(?s + i) mod ?c"] I fit wrapped by auto
      qed
      show "?mem ! ((?s + ?l + i) mod ?c) = data ! i" if "i < ?n" for i
      proof -
        have "?s + ?l + i < 2 * ?c" using I that fit by auto
        then have e: "(?s + ?l + i) mod ?c = ?r + i" using wrapped by (simp add: wrap_mod)
        have "?r + ?n \<le> ?c" using I fit by auto
        then show ?thesis using stored_nth [of ?r data "cb_buf cb" "?r + i"] I that unfolding e by simp
      qed
    qed
  next
    case flat: False
    show ?thesis
    proof (cases "?n \<le> ?c - (?s + ?l)")
      case True
      let ?mem = "take (?s + ?l) (cb_buf cb) @ data @ drop (?s + ?l + ?n) (cb_buf cb)"
      have e: "pjmedia_circ_buf_write cb data = Some (pjmedia_circ_buf_adv_write_ptr (cb\<lparr>cb_buf := ?mem\<rparr>) ?n)"
      proof -
        have "store_samples (cb_buf cb) (Some (?s + ?l)) data = Some ?mem" by (rule store_ok) (use I flat dn True in auto)
        then show ?thesis using flat fits True by (cases "?s = 0") (simp_all add: pjmedia_circ_buf_write_def room write_regions [OF inv] Let_def)
      qed
      show ?thesis
      proof (rule exI [of _ ?mem], intro conjI allI impI)
        show "pjmedia_circ_buf_write cb data = Some (pjmedia_circ_buf_adv_write_ptr (cb\<lparr>cb_buf := ?mem\<rparr>) ?n)" by (rule e)
        show "length ?mem = ?c" using I fit flat True by auto
        show "?mem ! ((?s + i) mod ?c) = cb_buf cb ! ((?s + i) mod ?c)" if "i < ?l" for i
          using stored_nth [of "?s + ?l" data "cb_buf cb" "?s + i"] I flat True that by simp
        show "?mem ! ((?s + ?l + i) mod ?c) = data ! i" if "i < ?n" for i
          using stored_nth [of "?s + ?l" data "cb_buf cb" "?s + ?l + i"] I flat True that by simp
      qed
    next
      case False
      define k where "k = ?c - (?s + ?l)"
      define m1 where "m1 = take (?s + ?l) (cb_buf cb) @ take k data @ drop (?s + ?l + k) (cb_buf cb)"
      define mem where "mem = take 0 m1 @ drop k data @ drop (0 + length (drop k data)) m1"
      have k: "?n - k \<le> ?s" "0 < k" "k < ?n" "?s + ?l + k = ?c" using fit False flat by (auto simp: k_def)
      have len1: "length m1 = ?c" using I k by (auto simp: m1_def)
      have e: "pjmedia_circ_buf_write cb data = Some (pjmedia_circ_buf_adv_write_ptr (cb\<lparr>cb_buf := mem\<rparr>) ?n)"
      proof -
        have "store_samples (cb_buf cb) (Some (?s + ?l)) (take k data) = Some m1"
          using store_ok [of "?s + ?l" "take k data" "cb_buf cb"] I k dn by (simp add: m1_def)
        moreover have "store_samples m1 (Some 0) (drop k data) = Some mem"
          unfolding mem_def by (rule store_ok) (use len1 k I dn in auto)
        ultimately show ?thesis
          using flat fits False k by (auto simp: pjmedia_circ_buf_write_def room write_regions [OF inv] Let_def k_def [symmetric])
      qed
      have at1: "m1 ! i = (if ?s + ?l \<le> i then data ! (i - (?s + ?l)) else cb_buf cb ! i)" if "i < ?c" for i
        using stored_nth [of "?s + ?l" "take k data" "cb_buf cb" i] I k that by (auto simp: m1_def)
      have at: "mem ! i = (if i < ?n - k then data ! (k + i) else m1 ! i)" if "i < ?c" for i
        unfolding mem_def using stored_nth [of 0 "drop k data" m1 i] len1 k I that by (auto simp del: take_0)
      show ?thesis
      proof (rule exI [of _ mem], intro conjI allI impI)
        show "pjmedia_circ_buf_write cb data = Some (pjmedia_circ_buf_adv_write_ptr (cb\<lparr>cb_buf := mem\<rparr>) ?n)" by (rule e)
        show "length mem = ?c" using len1 k I by (simp add: mem_def)
        show "mem ! ((?s + i) mod ?c) = cb_buf cb ! ((?s + i) mod ?c)" if "i < ?l" for i
          using at [of "?s + i"] at1 [of "?s + i"] k that flat by simp
        show "mem ! ((?s + ?l + i) mod ?c) = data ! i" if "i < ?n" for i
        proof (cases "i < k")
          case True
          then have "(?s + ?l + i) mod ?c = ?s + ?l + i" using k by simp
          then show ?thesis using at [of "?s + ?l + i"] at1 [of "?s + ?l + i"] k True by simp
        next
          case False
          have "?s + ?l + i = ?c + (i - k)" "i - k < ?c" using False k that fit by auto
          then have "(?s + ?l + i) mod ?c = i - k" by simp
          moreover have "i - k < ?n - k" "i - k < ?c" using False k that fit by auto
          ultimately show ?thesis using at [of "i - k"] False by simp
        qed
      qed
    qed
  qed
  then obtain mem where mem: "length mem = ?c" "pjmedia_circ_buf_write cb data = Some (pjmedia_circ_buf_adv_write_ptr (cb\<lparr>cb_buf := mem\<rparr>) ?n)"
    "\<forall>i < ?l. mem ! ((?s + i) mod ?c) = cb_buf cb ! ((?s + i) mod ?c)" "\<forall>i < ?n. mem ! ((?s + ?l + i) mod ?c) = data ! i" by blast
  have "cb_inv (cb\<lparr>cb_buf := mem\<rparr>)" using inv mem(1) by (simp add: cb_inv_def)
  then have "pjmedia_circ_buf_write cb data = Some (PJ_SUCCESS, cb\<lparr>cb_buf := mem, cb_len := ?l + ?n\<rparr>)"
    using adv_write [of "cb\<lparr>cb_buf := mem\<rparr>" ?n] fit mem(2) by simp
  then show ?thesis using written_samples [OF inv fit mem(1)] mem(3,4) by simp
qed

lemma circ_too_big:
  assumes "cb_inv cb"
  shows "cb_len cb < n \<Longrightarrow> pjmedia_circ_buf_read cb n = Some (PJ_ETOOBIG, [], cb)"
    and "cb_capacity cb < cb_len cb + length data \<Longrightarrow> pjmedia_circ_buf_write cb data = Some (PJ_ETOOBIG, cb)"
  using assms by (auto simp: pjmedia_circ_buf_read_def pjmedia_circ_buf_write_def cb_inv_def u32_sub_le Let_def)

lemma circ_copy:
  assumes inv: "cb_inv cb" and n: "i + n \<le> cb_len cb"
  shows "pjmedia_circ_buf_copy cb i n = Some (PJ_SUCCESS, take n (drop i (cb_samples cb)))"
proof -
  note I = inv [unfolded cb_inv_def]
  have "\<not> u32_add n i > cb_len cb" using I n by (simp add: u32_add_small)
  note e = pjmedia_circ_buf_copy_def [of cb i n, unfolded if_not_P [OF this] read_regions [OF inv]]
  show ?thesis
  proof (cases "cb_start cb + cb_len cb > cb_capacity cb")
    case wrap: True
    let ?r = "cb_capacity cb - cb_start cb"
    have s: "cb_samples cb = drop (cb_start cb) (cb_buf cb) @ take (cb_len cb - ?r) (cb_buf cb)"
      using wrap I by (auto simp: cb_samples_def min_def)
    show ?thesis
    proof (cases "?r > i")
      case True
      then show ?thesis using e wrap I n by (cases "?r - i > n") (auto simp: s load_ok load_0 Let_def add.commute [of i "cb_start cb"])
    next
      case False
      then show ?thesis using e wrap I n by (auto simp: s load_ok drop_take min_def)
    qed
  next
    case flat: False
    have s: "cb_samples cb = take (cb_len cb) (drop (cb_start cb) (cb_buf cb))" using flat I by (auto simp: cb_samples_def)
    show ?thesis
    proof (cases "cb_len cb > i")
      case True
      then have "\<not> cb_len cb - i < n" using n by simp
      then have "pjmedia_circ_buf_copy cb i n = Some (PJ_SUCCESS, take n (drop (cb_start cb + i) (cb_buf cb)))"
        using e flat I n True by (auto simp: load_ok Let_def)
      also have "take n (drop (cb_start cb + i) (cb_buf cb)) = take n (drop i (cb_samples cb))"
        using n by (simp add: s drop_take min_absorb1 add.commute [of i "cb_start cb"])
      finally show ?thesis .
    next
      case False
      then have "n = 0" using n by simp
      then show ?thesis using e flat False by (simp add: s load_0)
    qed
  qed
qed

text \<open>One round of the loop that packs the buffer: \<open>A @ B\<close> is the second region, \<open>C @ G\<close> the gap, \<open>R\<close> the first region.\<close>

lemma move_ok:
  assumes "src + n \<le> length mem" "dst + n \<le> length mem" "length mem < 2 ^ 31"
  shows "move_samples mem dst src n = Some (take dst mem @ take n (drop src mem) @ drop (dst + n) mem)"
  using assms store_ok [of dst "take n (drop src mem)" mem] by (simp add: move_samples_def load_ok)

lemma pack_round:
  assumes "length mem < 2 ^ 31" "mem = A @ B @ C @ G @ R" "length G = length A" "length A + length B + length C + length G = r1"
  shows "do {
      m \<leftarrow> move_samples mem (r1 - length A) r1 (length R);
      m \<leftarrow> move_samples m (r1 + length R - length A) 0 (length A);
      if B \<noteq> [] then move_samples m 0 (length A) (length B) else Some m
    } = Some (B @ drop (length B) (A @ B) @ C @ R @ A)"
proof -
  define T where "T = drop (length G) (G @ R)"
  have T: "T = R" by (simp add: T_def)
  have m1: "move_samples mem (r1 - length A) r1 (length R) = Some (A @ B @ C @ R @ drop (length R) (G @ R))"
    using assms(1-3) by (simp add: move_ok assms(4) [symmetric])
  have len: "length (drop (length R) (G @ R)) = length A" using assms(3) by simp
  have m2: "move_samples (A @ B @ C @ R @ drop (length R) (G @ R)) (r1 + length R - length A) 0 (length A) = Some (A @ B @ C @ R @ A)"
  proof -
    have p: "r1 + length R - length A = length (A @ B @ C @ R)" using assms(3,4) by simp
    show ?thesis using assms len unfolding p by (subst move_ok) (auto simp del: drop_append)
  qed
  have "move_samples (A @ B @ C @ R @ A) 0 (length A) (length B) = Some (B @ drop (length B) (A @ B) @ C @ R @ A)"
    using assms by (simp add: move_ok)
  then show ?thesis using m1 m2 by simp
qed

lemma pack_loop_packs:
  assumes "S \<noteq> []" "0 < gap" "gap \<le> length G" "length (S @ G @ R) < 2 ^ 31"
  shows "\<exists>mem' r1'. pack_loop (S @ G @ R) (length (S @ G)) (length R) (length S) gap = Some (mem', r1')
    \<and> length mem' = length (S @ G @ R) \<and> drop r1' mem' = R @ S \<and> r1' = length G"
  using assms
proof (induction "length S" arbitrary: S G R gap rule: less_induct)
  case less
  define g where "g = (if gap > length S then length S else gap)"
  define A B C H where "A = take g S" and "B = drop g S" and "C = take (length G - g) G" and "H = drop (length G - g) G"
  have g: "0 < g" "g \<le> length S" "g \<le> length G" using less(2-4) by (auto simp: g_def)
  have S: "S = A @ B" and G: "G = C @ H" and A: "length A = g" and H: "length H = length A" and C: "length C + g = length G"
    using g by (simp_all add: A_def B_def C_def H_def)
  define G' where "G' = drop (length B) (A @ B) @ C"
  have G': "length G' = length G" using C A by (simp add: G'_def)
  let ?M = "B @ G' @ R @ A"
  have round: "do {
      m \<leftarrow> move_samples (S @ G @ R) (length (S @ G) - g) (length (S @ G)) (length R);
      m \<leftarrow> move_samples m (length (S @ G) + length R - g) 0 g;
      if g < length S then move_samples m 0 g (length S - g) else Some m
    } = Some ?M"
  proof -
    have c: "(g < length S) = (B \<noteq> [])" "length S - g = length B" by (auto simp: B_def)
    have eq: "S @ G @ R = A @ B @ C @ H @ R" and r: "length A + length B + length C + length H = length (S @ G)" by (simp_all add: S G)
    show ?thesis unfolding c G'_def append_assoc by (rule pack_round [OF less(5) eq H r, unfolded A append_assoc])
  qed
  have step: "pack_loop (S @ G @ R) (length (S @ G)) (length R) (length S) gap =
      (if length B > 0 then pack_loop ?M (length (S @ G) - g) (length R + g) (length B) g else Some (?M, length (S @ G) - g))"
  proof -
    have "pack_loop (S @ G @ R) (length (S @ G)) (length R) (length S) gap =
      (do {
         m \<leftarrow> move_samples (S @ G @ R) (length (S @ G) - g) (length (S @ G)) (length R);
         m \<leftarrow> move_samples m (length (S @ G) + length R - g) 0 g;
         if g < length S then move_samples m 0 g (length S - g) else Some m
       }) \<bind> (\<lambda>m. if length B > 0 then pack_loop m (length (S @ G) - g) (length R + g) (length B) g else Some (m, length (S @ G) - g))"
      using g(1,2) by (subst pack_loop.simps) (simp add: g_def [symmetric] Let_def B_def cong: if_cong)
    then show ?thesis unfolding round by simp
  qed
  show ?case
  proof (cases "B = []")
    case True
    then show ?thesis using step S A G' by simp
  next
    case False
    have "length B < length S" using g by (simp add: B_def)
    then have "\<exists>mem' r1'. pack_loop (B @ G' @ (R @ A)) (length (B @ G')) (length (R @ A)) (length B) g = Some (mem', r1')
        \<and> length mem' = length (B @ G' @ (R @ A)) \<and> drop r1' mem' = (R @ A) @ B \<and> r1' = length G'"
      using less(5) g False S G' A by (intro less(1)) simp_all
    then show ?thesis using step False S A G' by (simp add: ac_simps)
  qed
qed

lemma circ_pack:
  assumes inv: "cb_inv cb" and gap: "cb_start cb + cb_len cb \<le> cb_capacity cb \<or> cb_len cb < cb_capacity cb"
  shows "\<exists>cb'. pjmedia_circ_buf_pack_buffer cb = Some (PJ_SUCCESS, cb') \<and> cb_inv cb' \<and> cb_samples cb' = cb_samples cb
    \<and> cb_start cb' = 0 \<and> cb_len cb' = cb_len cb \<and> cb_capacity cb' = cb_capacity cb"
proof -
  note I = inv [unfolded cb_inv_def]
  have g: "u32_sub (cb_capacity cb) (cb_len cb) = cb_capacity cb - cb_len cb" using I by (intro u32_sub_le) simp_all
  have fin: "\<exists>cb'. Some (PJ_SUCCESS, cb\<lparr>cb_buf := mem, cb_start := 0\<rparr>) = Some (PJ_SUCCESS, cb') \<and> cb_inv cb' \<and> cb_samples cb' = cb_samples cb
      \<and> cb_start cb' = 0 \<and> cb_len cb' = cb_len cb \<and> cb_capacity cb' = cb_capacity cb"
    if "length mem = cb_capacity cb" "take (cb_len cb) mem = cb_samples cb" for mem
    using that I by (simp add: cb_inv_def cb_samples_def [of "cb\<lparr>cb_buf := mem, cb_start := 0\<rparr>"])
  have shift: "\<exists>mem'. (if r \<noteq> 0 then move_samples mem 0 r (cb_len cb) else Some mem) = Some mem' \<and> length mem' = length mem
      \<and> take (cb_len cb) mem' = take (cb_len cb) (drop r mem)" if "length mem = cb_capacity cb" "r + cb_len cb \<le> cb_capacity cb" for mem r
    using that I by (cases "r = 0") (simp_all add: move_ok)
  show ?thesis
  proof (cases "cb_start cb + cb_len cb > cb_capacity cb")
    case flat: False
    have s: "cb_samples cb = take (cb_len cb) (drop (cb_start cb) (cb_buf cb))" using flat I by (auto simp: cb_samples_def)
    obtain mem' where m: "(if cb_start cb \<noteq> 0 then move_samples (cb_buf cb) 0 (cb_start cb) (cb_len cb) else Some (cb_buf cb)) = Some mem'"
      "length mem' = cb_capacity cb" "take (cb_len cb) mem' = cb_samples cb" using shift [of "cb_buf cb" "cb_start cb"] flat I s by auto
    have "pjmedia_circ_buf_pack_buffer cb = Some (PJ_SUCCESS, cb\<lparr>cb_buf := mem', cb_start := 0\<rparr>)"
      using flat m(1)
      by (simp add: pjmedia_circ_buf_pack_buffer_def read_regions [OF inv] pjmedia_circ_buf_get_len_def split del: if_split cong: if_cong)
    then show ?thesis using fin [OF m(2,3)] by simp
  next
    case wrap: True
    define r2 where "r2 = cb_len cb - (cb_capacity cb - cb_start cb)"
    define S G R where "S = take r2 (cb_buf cb)" and "G = take (cb_start cb - r2) (drop r2 (cb_buf cb))" and "R = drop (cb_start cb) (cb_buf cb)"
    have r2: "0 < r2" "r2 + (cb_capacity cb - cb_len cb) = cb_start cb" "cb_start cb < cb_capacity cb" "cb_len cb < cb_capacity cb"
      using wrap I gap by (auto simp: r2_def)
    have lens: "length S = r2" "length G = cb_start cb - r2" "length R = cb_capacity cb - cb_start cb"
      using r2 I by (simp_all add: S_def G_def R_def)
    have "drop r2 (cb_buf cb) = G @ R"
    proof -
      have "drop (cb_start cb - r2) (drop r2 (cb_buf cb)) = R" using r2 by (simp add: R_def)
      then show ?thesis unfolding G_def by (metis append_take_drop_id)
    qed
    then have buf: "cb_buf cb = S @ G @ R" unfolding S_def by (metis append_take_drop_id)
    have s: "cb_samples cb = R @ S" using wrap I by (auto simp: cb_samples_def R_def S_def r2_def min_def)
    obtain mem r where p: "pack_loop (S @ G @ R) (length (S @ G)) (length R) (length S) (cb_capacity cb - cb_len cb) = Some (mem, r)"
      "length mem = length (S @ G @ R)" "drop r mem = R @ S" "r = length G"
    proof -
      have "S \<noteq> []" "0 < cb_capacity cb - cb_len cb" "cb_capacity cb - cb_len cb \<le> length G" "length (S @ G @ R) < 2 ^ 31"
        using r2 lens I buf by auto
      then show ?thesis using pack_loop_packs that by blast
    qed
    have sg: "length (S @ G) = cb_start cb" using lens r2 by simp
    have lm: "length mem = cb_capacity cb" using p(2) buf I by simp
    have rl: "r + cb_len cb \<le> cb_capacity cb" "take (cb_len cb) (drop r mem) = R @ S"
      using p(3,4) lens r2 by auto
    obtain mem' where m: "(if r \<noteq> 0 then move_samples mem 0 r (cb_len cb) else Some mem) = Some mem'"
      "length mem' = cb_capacity cb" "take (cb_len cb) mem' = cb_samples cb" using shift [OF lm rl(1)] lm rl(2) s by auto
    have "pjmedia_circ_buf_pack_buffer cb = Some (PJ_SUCCESS, cb\<lparr>cb_buf := mem', cb_start := 0\<rparr>)"
      using wrap r2 m(1) p(1) lens sg
      by (simp add: pjmedia_circ_buf_pack_buffer_def read_regions [OF inv] pjmedia_circ_buf_get_len_def g r2_def [symmetric] buf [symmetric]
          split del: if_split cong: if_cong)
    then show ?thesis using fin [OF m(2,3)] by simp
  qed
qed

section \<open>The interface of a bounded queue of samples\<close>

text \<open>The operations a client calls, a step that performs one, and runs of them: the results in order, and the last state.\<close>

datatype queue_op = Q_Write "int list" | Q_Read nat | Q_Skip nat

fun queue_step :: "('q \<Rightarrow> int list \<Rightarrow> (pj_status \<times> 'q) option) \<Rightarrow> ('q \<Rightarrow> nat \<Rightarrow> (pj_status \<times> int list \<times> 'q) option)
    \<Rightarrow> ('q \<Rightarrow> nat \<Rightarrow> pj_status \<times> 'q) \<Rightarrow> 'q \<Rightarrow> queue_op \<Rightarrow> ((pj_status \<times> int list) \<times> 'q) option" where
  "queue_step wr rd skp q (Q_Write xs) = map_option (\<lambda>(st, q). ((st, []), q)) (wr q xs)"
| "queue_step wr rd skp q (Q_Read n) = map_option (\<lambda>(st, xs, q). ((st, xs), q)) (rd q n)"
| "queue_step wr rd skp q (Q_Skip n) = Some (let (st, q) = skp q n in ((st, []), q))"

fun queue_run :: "('q \<Rightarrow> queue_op \<Rightarrow> ('r \<times> 'q) option) \<Rightarrow> 'q \<Rightarrow> queue_op list \<Rightarrow> ('r list \<times> 'q) option" where
  "queue_run step q [] = Some ([], q)"
| "queue_run step q (x # xs) = do { (r, q) \<leftarrow> step q x; (rs, q) \<leftarrow> queue_run step q xs; Some (r # rs, q) }"

text \<open>What is promised: a list of at most \<open>c\<close> samples.\<close>

fun list_step :: "nat \<Rightarrow> int list \<Rightarrow> queue_op \<Rightarrow> ((pj_status \<times> int list) \<times> int list) option" where
  "list_step c q (Q_Write xs) = Some (if length q + length xs \<le> c then ((PJ_SUCCESS, []), q @ xs) else ((PJ_ETOOBIG, []), q))"
| "list_step c q (Q_Read n) = Some (if n \<le> length q then ((PJ_SUCCESS, take n q), drop n q) else ((PJ_ETOOBIG, []), q))"
| "list_step c q (Q_Skip n) = Some ((PJ_SUCCESS, []), drop n q)"

locale bounded_queue =
  fixes invar :: "'q \<Rightarrow> bool" and list_of :: "'q \<Rightarrow> int list" and room :: "'q \<Rightarrow> nat"
    and wr :: "'q \<Rightarrow> int list \<Rightarrow> (pj_status \<times> 'q) option" and rd :: "'q \<Rightarrow> nat \<Rightarrow> (pj_status \<times> int list \<times> 'q) option"
    and skp :: "'q \<Rightarrow> nat \<Rightarrow> pj_status \<times> 'q"
  assumes bounded: "invar q \<Longrightarrow> length (list_of q) \<le> room q"
    and wr_ok: "invar q \<Longrightarrow> length (list_of q) + length xs \<le> room q \<Longrightarrow>
      \<exists>q'. wr q xs = Some (PJ_SUCCESS, q') \<and> invar q' \<and> list_of q' = list_of q @ xs \<and> room q' = room q"
    and wr_full: "invar q \<Longrightarrow> \<not> length (list_of q) + length xs \<le> room q \<Longrightarrow> wr q xs = Some (PJ_ETOOBIG, q)"
    and rd_ok: "invar q \<Longrightarrow> n \<le> length (list_of q) \<Longrightarrow>
      \<exists>q'. rd q n = Some (PJ_SUCCESS, take n (list_of q), q') \<and> invar q' \<and> list_of q' = drop n (list_of q) \<and> room q' = room q"
    and rd_short: "invar q \<Longrightarrow> \<not> n \<le> length (list_of q) \<Longrightarrow> rd q n = Some (PJ_ETOOBIG, [], q)"
    and skp_ok: "invar q \<Longrightarrow> \<exists>q'. skp q n = (PJ_SUCCESS, q') \<and> invar q' \<and> list_of q' = drop n (list_of q) \<and> room q' = room q"
begin

lemma step_simulates:
  assumes "invar q"
  shows "\<exists>r q'. queue_step wr rd skp q x = Some (r, q') \<and> list_step (room q) (list_of q) x = Some (r, list_of q') \<and> invar q' \<and> room q' = room q"
proof (cases x)
  case (Q_Write xs)
  then show ?thesis using assms wr_ok [of q xs] wr_full [of q xs] by (cases "length (list_of q) + length xs \<le> room q") auto
next
  case (Q_Read n)
  then show ?thesis using assms rd_ok [of q n] rd_short [of q n] by (cases "n \<le> length (list_of q)") auto
next
  case (Q_Skip n)
  then show ?thesis using assms skp_ok [of q n] by auto
qed

lemma run_simulates:
  assumes "invar q"
  shows "\<exists>rs q'. queue_run (queue_step wr rd skp) q xs = Some (rs, q') \<and> queue_run (list_step (room q)) (list_of q) xs = Some (rs, list_of q')
    \<and> invar q' \<and> room q' = room q"
  using assms
proof (induction xs arbitrary: q)
  case (Cons x xs)
  obtain r q1 where s: "queue_step wr rd skp q x = Some (r, q1)" "list_step (room q) (list_of q) x = Some (r, list_of q1)" "invar q1" "room q1 = room q"
    using step_simulates [OF Cons.prems] by blast
  then show ?case using Cons.IH [OF s(3)] by auto
qed simp

text \<open>First in, first out: what is read and what is left is what was there and what was written.\<close>

lemma run_fifo:
  assumes "invar q" "\<forall>n. Q_Skip n \<notin> set xs" "queue_run (queue_step wr rd skp) q xs = Some (rs, q')"
  shows "concat (map snd rs) @ list_of q'
    = list_of q @ concat (map (\<lambda>(x, r). case x of Q_Write ys \<Rightarrow> if fst r = PJ_SUCCESS then ys else [] | _ \<Rightarrow> []) (zip xs rs))"
  using assms
proof (induction xs arbitrary: q rs)
  case (Cons x xs)
  obtain r q1 where s: "queue_step wr rd skp q x = Some (r, q1)" "list_step (room q) (list_of q) x = Some (r, list_of q1)" "invar q1"
    using step_simulates [OF Cons.prems(1)] by blast
  obtain rs' where rs: "queue_run (queue_step wr rd skp) q1 xs = Some (rs', q')" "rs = r # rs'"
    using Cons.prems(3) s(1) by (auto split: bind_splits)
  have "concat (map snd rs') @ list_of q'
      = list_of q1 @ concat (map (\<lambda>(x, r). case x of Q_Write ys \<Rightarrow> if fst r = PJ_SUCCESS then ys else [] | _ \<Rightarrow> []) (zip xs rs'))"
    using Cons.prems(2) by (intro Cons.IH [OF s(3) _ rs(1)]) auto
  moreover have "snd r @ list_of q1 = list_of q @ (case x of Q_Write ys \<Rightarrow> if fst r = PJ_SUCCESS then ys else [] | _ \<Rightarrow> [])"
    using s(2) Cons.prems(2) by (cases x) (auto split: if_splits dest!: sym [of _ "list_of q1"])
  ultimately show ?case using rs(2) by (simp flip: append_assoc) simp
qed simp

end

text \<open>The circular buffer implements the interface.\<close>

abbreviation circ_step :: "circ_buf \<Rightarrow> queue_op \<Rightarrow> ((pj_status \<times> int list) \<times> circ_buf) option" where
  "circ_step \<equiv> queue_step pjmedia_circ_buf_write pjmedia_circ_buf_read pjmedia_circ_buf_adv_read_ptr"

interpretation circ: bounded_queue cb_inv cb_samples cb_capacity pjmedia_circ_buf_write pjmedia_circ_buf_read pjmedia_circ_buf_adv_read_ptr
proof (unfold_locales, goal_cases)
  case (1 q)
  then show ?case by (simp add: length_cb_samples) (simp add: cb_inv_def)
next
  case (2 q xs)
  then show ?case using circ_write [of q xs] by (simp add: length_cb_samples)
next
  case (3 q xs)
  then show ?case using circ_too_big(2) [of q xs] by (simp add: length_cb_samples)
next
  case (4 q n)
  then show ?case using circ_read [of q n] by (simp add: length_cb_samples)
next
  case (5 q n)
  then show ?case using circ_too_big(1) [of q n] by (simp add: length_cb_samples)
next
  case (6 q n)
  then show ?case using adv_read [of q n] by blast
qed

lemma circ_create_inv: "c < 2 ^ 31 \<Longrightarrow> cb_inv (pjmedia_circ_buf_create c)"
  by (simp add: cb_inv_def pjmedia_circ_buf_create_def)

lemma create_simps [simp]: "cb_samples (pjmedia_circ_buf_create c) = []" "cb_capacity (pjmedia_circ_buf_create c) = c"
  by (simp_all add: cb_samples_def pjmedia_circ_buf_create_def)

section \<open>Properties\<close>

text \<open>
C7. Any sequence of writing, reading and skipping samples on a new circular buffer of less than
2^31 samples is a run of a queue of that capacity: no access lies outside the memory, every
operation gives the status and the samples the queue gives, and the samples and the length held
are those of the queue.
\<close>

theorem circ_buf_refines_queue:
  assumes "c < 2 ^ 31"
  shows "\<exists>rs cb. queue_run circ_step (pjmedia_circ_buf_create c) ops = Some (rs, cb)
    \<and> queue_run (list_step c) [] ops = Some (rs, cb_samples cb) \<and> pjmedia_circ_buf_get_len cb = length (cb_samples cb)"
  using circ.run_simulates [OF circ_create_inv [OF assms], of ops] length_cb_samples by (auto simp: pjmedia_circ_buf_get_len_def)

theorem circ_buf_fifo:
  assumes "c < 2 ^ 31" "\<forall>n. Q_Skip n \<notin> set ops" "queue_run circ_step (pjmedia_circ_buf_create c) ops = Some (rs, cb)"
  shows "concat (map snd rs) @ cb_samples cb
    = concat (map (\<lambda>(x, r). case x of Q_Write ys \<Rightarrow> if fst r = PJ_SUCCESS then ys else [] | _ \<Rightarrow> []) (zip ops rs))"
  using circ.run_fifo [OF circ_create_inv [OF assms(1)] assms(2,3)] by simp

text \<open>
C38. Whatever was done to the buffer before, copying gives the samples from the index asked for on
and leaves the buffer as it is, and packing a buffer that is not full moves the samples, unchanged
and in order, to the beginning of the memory; its loop ends.
\<close>

theorem circ_buf_copy_pack:
  assumes "c < 2 ^ 31" "queue_run circ_step (pjmedia_circ_buf_create c) ops = Some (rs, cb)"
  shows "(i + n \<le> length (cb_samples cb) \<longrightarrow> pjmedia_circ_buf_copy cb i n = Some (PJ_SUCCESS, take n (drop i (cb_samples cb))))
    \<and> (length (cb_samples cb) < c \<longrightarrow> (\<exists>cb'. pjmedia_circ_buf_pack_buffer cb = Some (PJ_SUCCESS, cb') \<and> cb_start cb' = 0
         \<and> cb_samples cb' = cb_samples cb \<and> take (length (cb_samples cb)) (cb_buf cb') = cb_samples cb))"
proof -
  have inv: "cb_inv cb" "cb_capacity cb = c" using circ.run_simulates [OF circ_create_inv [OF assms(1)], of ops] assms(2) by auto
  show ?thesis
  proof (intro conjI impI)
    assume "i + n \<le> length (cb_samples cb)"
    then show "pjmedia_circ_buf_copy cb i n = Some (PJ_SUCCESS, take n (drop i (cb_samples cb)))"
      using circ_copy [OF inv(1)] length_cb_samples [OF inv(1)] by simp
  next
    assume "length (cb_samples cb) < c"
    then obtain cb' where p: "pjmedia_circ_buf_pack_buffer cb = Some (PJ_SUCCESS, cb')" "cb_samples cb' = cb_samples cb" "cb_start cb' = 0" "cb_len cb' = cb_len cb"
      using circ_pack [OF inv(1)] length_cb_samples [OF inv(1)] inv(2) by auto
    then have "take (length (cb_samples cb)) (cb_buf cb') = cb_samples cb"
      using length_cb_samples [OF inv(1)] by (simp add: cb_samples_def [of cb'])
    then show "\<exists>cb'. pjmedia_circ_buf_pack_buffer cb = Some (PJ_SUCCESS, cb') \<and> cb_start cb' = 0
         \<and> cb_samples cb' = cb_samples cb \<and> take (length (cb_samples cb)) (cb_buf cb') = cb_samples cb" using p by blast
  qed
qed

theorem circ_buf_copy_wraps:
  "\<exists>rs cb. queue_run circ_step (pjmedia_circ_buf_create 4) [Q_Write [1, 2, 3]] = Some (rs, cb) \<and> cb_len cb = 3
    \<and> pjmedia_circ_buf_copy cb 1 (2 ^ 32 - 1) = None"
proof -
  let ?cb = "\<lparr>cb_buf = [1, 2, 3, 0], cb_capacity = 4, cb_start = 0, cb_len = 3\<rparr>"
  have "queue_run circ_step (pjmedia_circ_buf_create 4) [Q_Write [1, 2, 3]] = Some ([(PJ_SUCCESS, [])], ?cb)"
    by code_simp
  moreover have "pjmedia_circ_buf_copy ?cb 1 (2 ^ 32 - 1) = None"
    by (simp add: pjmedia_circ_buf_copy_def pjmedia_circ_buf_get_read_regions_def load_samples_def copied_def
        u32_add_def u32_mul_def u32_sub_def to_u32_def Let_def)
  ultimately show ?thesis by simp
qed

section \<open>Instances\<close>

lemma ex_ops: "queue_run circ_step (pjmedia_circ_buf_create 3) [Q_Write [1, 2], Q_Read 1, Q_Write [3, 4], Q_Write [5], Q_Read 1] =
  Some ([(PJ_SUCCESS, []), (PJ_SUCCESS, [1]), (PJ_SUCCESS, []), (PJ_ETOOBIG, []), (PJ_SUCCESS, [2])],
    \<lparr>cb_buf = [4, 2, 3], cb_capacity = 3, cb_start = 2, cb_len = 2\<rparr>)"
  by code_simp

theorem circ_buf_refines_queue_witness:
  "\<exists>rs cb. queue_run circ_step (pjmedia_circ_buf_create 3) [Q_Write [1, 2], Q_Skip 1, Q_Write [3, 4, 5]] = Some (rs, cb) \<and> cb_samples cb = [2]"
  using circ_buf_refines_queue [of 3 "[Q_Write [1, 2], Q_Skip 1, Q_Write [3, 4, 5]]"] by auto

theorem circ_buf_fifo_witness:
  "\<exists>rs cb. queue_run circ_step (pjmedia_circ_buf_create 3) [Q_Write [1, 2], Q_Read 1, Q_Write [3, 4], Q_Write [5], Q_Read 1] = Some (rs, cb)
    \<and> concat (map snd rs) @ cb_samples cb = [1, 2, 3, 4]"
  using circ_buf_fifo [OF _ _ ex_ops] ex_ops by simp

theorem circ_buf_copy_pack_witness:
  "\<exists>cb'. pjmedia_circ_buf_copy \<lparr>cb_buf = [4, 2, 3], cb_capacity = 3, cb_start = 2, cb_len = 2\<rparr> 1 1 = Some (PJ_SUCCESS, [4])
    \<and> pjmedia_circ_buf_pack_buffer \<lparr>cb_buf = [4, 2, 3], cb_capacity = 3, cb_start = 2, cb_len = 2\<rparr> = Some (PJ_SUCCESS, cb')
    \<and> cb_start cb' = 0 \<and> cb_samples cb' = [3, 4]"
proof -
  have s: "cb_samples \<lparr>cb_buf = [4, 2, 3], cb_capacity = 3, cb_start = 2, cb_len = 2\<rparr> = [3, 4]" by (simp add: cb_samples_def)
  show ?thesis using circ_buf_copy_pack [OF _ ex_ops, of 1 1] by (auto simp: s)
qed

end
