(* ===== verification/Delay_Buf.thy ===== *)
theory Delay_Buf
  imports Circ_Buf
begin

text \<open>
  The delay buffer of \<^verbatim>\<open>pjmedia/src/pjmedia/delaybuf.c\<close>, which sits between a port that puts frames and one that gets them. Its samples are
  in a circular buffer. In the adaptive mode it stretches and shrinks the audio with WSOLA, whose operations are an
  argument (\<open>wsola_ops\<close>); the locale \<open>wsola_contract\<close> says what is relied on, and the null implementation of \<^verbatim>\<open>wsola.c\<close> meets it.
  Locks are left out. \<open>None\<close> is a fault: memory outside the buffer, or a division by zero.
\<close>

section \<open>Model\<close>

record 'w wsola_ops =
  w_reset :: "'w \<Rightarrow> 'w"
  w_save :: "'w \<Rightarrow> int list \<Rightarrow> pj_status \<times> int list \<times> 'w"
  w_generate :: "'w \<Rightarrow> pj_status \<times> int list \<times> 'w"
  w_discard :: "'w \<Rightarrow> int list \<Rightarrow> int list \<Rightarrow> nat \<Rightarrow> pj_status \<times> int list \<times> int list \<times> nat \<times> 'w"

datatype OP = OP_PUT | OP_GET

definition RECALC_TIME :: int where
  "RECALC_TIME = 2000"

definition DEFAULT_MAX_DELAY :: nat where
  "DEFAULT_MAX_DELAY = 400"

definition SAFE_MARGIN :: nat where
  "SAFE_MARGIN = 0"

record 'w delay_buf =
  db_samples_per_frame :: nat
  db_ptime :: nat
  db_channel_count :: nat
  db_circ_buf :: circ_buf
  db_max_cnt :: nat
  db_eff_cnt :: nat
  db_level :: nat
  db_last_op :: OP
  db_recalc_timer :: int
  db_max_level :: nat
  db_wsola :: "'w option"

text \<open>\<open>wsola\<close>: what \<^verbatim>\<open>pjmedia_wsola_create\<close> gives; \<open>simple_fifo\<close>: the option flag.\<close>

definition pjmedia_delay_buf_create :: "(pj_status + 'w) \<Rightarrow> nat \<Rightarrow> nat \<Rightarrow> nat \<Rightarrow> nat \<Rightarrow> bool \<Rightarrow> (pj_status + 'w delay_buf) option" where
  "pjmedia_delay_buf_create wsola clock_rate samples_per_frame channel_count max_delay simple_fifo =
     (if \<not> (samples_per_frame \<noteq> 0 \<and> clock_rate \<noteq> 0 \<and> channel_count \<noteq> 0) then Some (Inl PJ_EINVAL)
      else
        (let ptime = u32_mul samples_per_frame 1000 div clock_rate div channel_count;
             max_delay = (if max_delay < ptime then max DEFAULT_MAX_DELAY ptime else max_delay)
         in if ptime = 0 then None
            else
              (let max_cnt = u32_mul samples_per_frame max_delay div ptime;
                   b = \<lparr>db_samples_per_frame = samples_per_frame, db_ptime = ptime, db_channel_count = channel_count,
                        db_circ_buf = pjmedia_circ_buf_create max_cnt, db_max_cnt = max_cnt, db_eff_cnt = max_cnt div 2,
                        db_level = 0, db_last_op = OP_PUT, db_recalc_timer = RECALC_TIME, db_max_level = 0, db_wsola = None\<rparr>
               in if simple_fifo then Some (Inr b)
                  else case wsola of Inl st \<Rightarrow> Some (Inl st) | Inr w \<Rightarrow> Some (Inr (b\<lparr>db_wsola := Some w\<rparr>)))))"

definition shrink_buffer :: "'w wsola_ops \<Rightarrow> 'w delay_buf \<Rightarrow> 'w \<Rightarrow> nat \<Rightarrow> 'w delay_buf option" where
  "shrink_buffer ops b w erase_cnt =
     (let cb = db_circ_buf b; (buf1, buf1len, buf2, buf2len) = pjmedia_circ_buf_get_read_regions cb
      in do {
        xs \<leftarrow> load_samples (cb_buf cb) (Some buf1) buf1len;
        ys \<leftarrow> load_samples (cb_buf cb) buf2 buf2len;
        let (status, xs, ys, erase_cnt, w) = w_discard ops w xs ys erase_cnt;
        mem \<leftarrow> store_samples (cb_buf cb) (Some buf1) xs;
        mem \<leftarrow> store_samples mem buf2 ys;
        let cb = cb\<lparr>cb_buf := mem\<rparr>;
        let cb = (if status = PJ_SUCCESS \<and> erase_cnt > 0
                  then pjmedia_circ_buf_set_len cb (u32_sub (pjmedia_circ_buf_get_len cb) erase_cnt) else cb);
        Some (b\<lparr>db_circ_buf := cb, db_wsola := Some w\<rparr>)
      })"

definition AGC :: "nat \<Rightarrow> nat \<Rightarrow> nat" where
  "AGC cur target =
     (if cur < target then u32_add cur (u32_mul target 3) div 4 else u32_add (u32_mul cur 3) target div 4)"

definition recalc :: "'w delay_buf \<Rightarrow> 'w delay_buf" where
  "recalc b =
     (if db_recalc_timer b \<le> 0 then
        (let new_eff_cnt = u32_mul (u32_add (db_max_level b) SAFE_MARGIN) (db_samples_per_frame b);
             eff_cnt = AGC (db_eff_cnt b) new_eff_cnt;
             eff_cnt = (if eff_cnt mod db_channel_count b \<noteq> 0
                        then u32_add eff_cnt (db_channel_count b - eff_cnt mod db_channel_count b) else eff_cnt)
         in b\<lparr>db_eff_cnt := eff_cnt, db_max_level := 0, db_recalc_timer := RECALC_TIME\<rparr>)
      else b)"

definition learn :: "'w delay_buf \<Rightarrow> OP \<Rightarrow> 'w delay_buf" where
  "learn b op =
     (let b = (if db_level b > db_max_level b then b\<lparr>db_max_level := db_level b\<rparr> else b);
          b = b\<lparr>db_recalc_timer := to_s32 (u32_sub (to_u32 (db_recalc_timer b)) (u32_mul (db_level b) (db_ptime b) div 2))\<rparr>
      in recalc (b\<lparr>db_last_op := op, db_level := 1\<rparr>))"

definition update :: "'w wsola_ops \<Rightarrow> 'w delay_buf \<Rightarrow> 'w \<Rightarrow> OP \<Rightarrow> 'w delay_buf option" where
  "update ops b w op =
     (if op = db_last_op b then Some (b\<lparr>db_level := u32_add (db_level b) 1\<rparr>)
      else
        (let b = learn b op
         in if op = OP_PUT \<and> pjmedia_circ_buf_get_len (db_circ_buf b) > u32_add (db_samples_per_frame b) (db_eff_cnt b)
            then shrink_buffer ops b w (db_samples_per_frame b div 2) else Some b))"

text \<open>A frame is put: the samples in excess are erased by WSOLA, or the eldest are dropped.\<close>

definition put_excess :: "'w delay_buf \<Rightarrow> nat" where
  "put_excess b = u32_sub (u32_add (pjmedia_circ_buf_get_len (db_circ_buf b)) (db_samples_per_frame b)) (db_max_cnt b)"

definition put_overflows :: "'w delay_buf \<Rightarrow> bool" where
  "put_overflows b \<longleftrightarrow> u32_add (pjmedia_circ_buf_get_len (db_circ_buf b)) (db_samples_per_frame b) > db_max_cnt b"

definition put_samples :: "'w wsola_ops \<Rightarrow> 'w delay_buf \<Rightarrow> int list \<Rightarrow> (pj_status \<times> 'w delay_buf) option" where
  "put_samples ops b frame =
     do {
       b \<leftarrow> (if put_overflows b
             then do {
               b \<leftarrow> (case db_wsola b of None \<Rightarrow> Some b | Some w \<Rightarrow> shrink_buffer ops b w (put_excess b));
               Some (if put_overflows b
                     then b\<lparr>db_circ_buf := snd (pjmedia_circ_buf_adv_read_ptr (db_circ_buf b) (put_excess b))\<rparr> else b)
             } else Some b);
       (_, cb) \<leftarrow> pjmedia_circ_buf_write (db_circ_buf b) (take (db_samples_per_frame b) frame);
       Some (PJ_SUCCESS, b\<lparr>db_circ_buf := cb\<rparr>)
     }"

definition pjmedia_delay_buf_put :: "'w wsola_ops \<Rightarrow> 'w delay_buf \<Rightarrow> int list \<Rightarrow> (pj_status \<times> 'w delay_buf) option" where
  "pjmedia_delay_buf_put ops b frame =
     do {
       (status, frame, b) \<leftarrow>
         (case db_wsola b of
            None \<Rightarrow> Some (PJ_SUCCESS, frame, b)
          | Some w \<Rightarrow> do {
              b \<leftarrow> update ops b w OP_PUT;
              let (status, frame, w) = w_save ops (the (db_wsola b)) frame;
              Some (status, frame, b\<lparr>db_wsola := Some w\<rparr>)
            });
       if status \<noteq> PJ_SUCCESS then Some (status, b) else put_samples ops b frame
     }"

text \<open>A frame is got. \<open>frame\<close>: what the caller's buffer holds, which is kept when nothing is copied to it.\<close>

definition get_frame :: "'w delay_buf \<Rightarrow> int list \<Rightarrow> (pj_status \<times> int list \<times> 'w delay_buf) option" where
  "get_frame b frame =
     do {
       (status, data, cb) \<leftarrow> pjmedia_circ_buf_read (db_circ_buf b) (db_samples_per_frame b);
       Some (PJ_SUCCESS, if status = PJ_SUCCESS then data else frame, b\<lparr>db_circ_buf := cb\<rparr>)
     }"

definition get_rest :: "'w delay_buf \<Rightarrow> (pj_status \<times> int list \<times> 'w delay_buf) option" where
  "get_rest b =
     (let buf_len = pjmedia_circ_buf_get_len (db_circ_buf b)
      in do {
        (_, data, cb) \<leftarrow> pjmedia_circ_buf_read (db_circ_buf b) buf_len;
        Some (PJ_SUCCESS, data @ replicate (db_samples_per_frame b - buf_len) 0, b\<lparr>db_circ_buf := snd (pjmedia_circ_buf_reset cb)\<rparr>)
      })"

definition pjmedia_delay_buf_get :: "'w wsola_ops \<Rightarrow> 'w delay_buf \<Rightarrow> int list \<Rightarrow> (pj_status \<times> int list \<times> 'w delay_buf) option" where
  "pjmedia_delay_buf_get ops b frame =
     do {
       b \<leftarrow> (case db_wsola b of None \<Rightarrow> Some b | Some w \<Rightarrow> update ops b w OP_GET);
       if pjmedia_circ_buf_get_len (db_circ_buf b) < db_samples_per_frame b then
         (case db_wsola b of
            None \<Rightarrow> get_rest b
          | Some w \<Rightarrow>
              (let (status, frame, w) = w_generate ops w; b = b\<lparr>db_wsola := Some w\<rparr>
               in if status = PJ_SUCCESS then
                    (if pjmedia_circ_buf_get_len (db_circ_buf b) = 0 then Some (PJ_SUCCESS, frame, b)
                     else do {
                       (_, cb) \<leftarrow> pjmedia_circ_buf_write (db_circ_buf b) (take (db_samples_per_frame b) frame);
                       get_frame (b\<lparr>db_circ_buf := cb\<rparr>) frame
                     })
                  else get_rest b))
       else get_frame b frame
     }"

definition pjmedia_delay_buf_reset :: "'w wsola_ops \<Rightarrow> 'w delay_buf \<Rightarrow> pj_status \<times> 'w delay_buf" where
  "pjmedia_delay_buf_reset ops b =
     (PJ_SUCCESS, b\<lparr>db_recalc_timer := RECALC_TIME, db_circ_buf := snd (pjmedia_circ_buf_reset (db_circ_buf b)),
                    db_wsola := map_option (w_reset ops) (db_wsola b)\<rparr>)"

text \<open>The null implementation of WSOLA, which keeps the samples of a frame.\<close>

definition null_wsola :: "nat wsola_ops" where
  "null_wsola =
     \<lparr>w_reset = (\<lambda>samples_per_frame. samples_per_frame),
      w_save = (\<lambda>samples_per_frame frm. (PJ_SUCCESS, frm, samples_per_frame)),
      w_generate = (\<lambda>samples_per_frame. (PJ_SUCCESS, replicate samples_per_frame 0, samples_per_frame)),
      w_discard = (\<lambda>samples_per_frame buf1 buf2 del_cnt. (PJ_SUCCESS, buf1, buf2, samples_per_frame, samples_per_frame))\<rparr>"

section \<open>What is relied on of WSOLA\<close>

text \<open>
  A session that was created for frames of \<open>spf\<close> samples (\<open>ok\<close>) keeps to that size, changes the samples it is given in place, and never
  reports more samples erased than a buffer of at least one frame has.
\<close>

locale wsola_contract =
  fixes ops :: "'w wsola_ops" and ok :: "'w \<Rightarrow> bool" and spf :: nat
  assumes save_ok: "ok w \<Longrightarrow> length f = spf \<Longrightarrow> w_save ops w f = (st, f', w') \<Longrightarrow> length f' = spf \<and> ok w'"
    and generate_ok: "ok w \<Longrightarrow> w_generate ops w = (st, f', w') \<Longrightarrow> length f' = spf \<and> ok w'"
    and discard_ok: "ok w \<Longrightarrow> w_discard ops w xs ys n = (st, xs', ys', m, w') \<Longrightarrow> length xs' = length xs \<and> length ys' = length ys \<and> ok w'
      \<and> (st = PJ_SUCCESS \<longrightarrow> spf \<le> length xs + length ys \<longrightarrow> m \<le> length xs + length ys)"
    and reset_ok: "ok w \<Longrightarrow> ok (w_reset ops w)"

interpretation null: wsola_contract null_wsola "\<lambda>w. w = spf" spf for spf
  by unfold_locales (auto simp: null_wsola_def)

definition db_inv :: "('w \<Rightarrow> bool) \<Rightarrow> nat \<Rightarrow> 'w delay_buf \<Rightarrow> bool" where
  "db_inv ok spf b \<longleftrightarrow> cb_inv (db_circ_buf b) \<and> cb_capacity (db_circ_buf b) = db_max_cnt b \<and> db_samples_per_frame b = spf \<and> 0 < spf
     \<and> 0 < db_channel_count b \<and> db_channel_count b < 2 ^ 29 \<and> db_eff_cnt b < 2 ^ 30 + db_channel_count b
     \<and> (if db_wsola b = None then spf else 2 * spf) \<le> db_max_cnt b \<and> (\<forall>w. db_wsola b = Some w \<longrightarrow> ok w)"

lemma AGC_less: "AGC c t < 2 ^ 30"
proof -
  have "u32_add x y < 2 ^ 32" for x y using to_u32_less by (simp add: u32_add_def)
  then show ?thesis by (auto simp: AGC_def div_less_iff_less_mult)
qed

lemma recalc_simps [simp]:
  "db_circ_buf (recalc b) = db_circ_buf b" "db_max_cnt (recalc b) = db_max_cnt b" "db_samples_per_frame (recalc b) = db_samples_per_frame b"
  "db_channel_count (recalc b) = db_channel_count b" "db_wsola (recalc b) = db_wsola b"
  by (simp_all add: recalc_def Let_def)

lemma recalc_inv: "db_inv ok spf b \<Longrightarrow> db_inv ok spf (recalc b)"
proof -
  assume b: "db_inv ok spf b"
  have "db_eff_cnt (recalc b) < 2 ^ 30 + db_channel_count b"
  proof (cases "db_recalc_timer b \<le> 0")
    case True
    let ?e = "AGC (db_eff_cnt b) (u32_mul (u32_add (db_max_level b) SAFE_MARGIN) (db_samples_per_frame b))" and ?c = "db_channel_count b"
    have e: "?e < 2 ^ 30" "?c < 2 ^ 29" using AGC_less b by (simp_all add: db_inv_def)
    then have "?e + (?c - ?e mod ?c) < 2 ^ 32" by simp
    then have "u32_add ?e (?c - ?e mod ?c) \<le> ?e + ?c" by (simp add: u32_add_small)
    then show ?thesis using True e by (simp add: recalc_def Let_def)
  next
    case False
    then show ?thesis using b by (simp add: recalc_def db_inv_def)
  qed
  then show ?thesis using b by (simp add: db_inv_def)
qed

context wsola_contract
begin

lemma shrink_inv:
  assumes b: "db_inv ok spf b" and w: "db_wsola b = Some w" and len: "spf \<le> cb_len (db_circ_buf b)"
  shows "\<exists>b'. shrink_buffer ops b w n = Some b' \<and> db_inv ok spf b' \<and> db_wsola b' \<noteq> None \<and> db_max_cnt b' = db_max_cnt b"
proof -
  let ?cb = "db_circ_buf b"
  let ?s = "cb_start ?cb" and ?l = "cb_len ?cb" and ?c = "cb_capacity ?cb"
  note inv = b [unfolded db_inv_def, THEN conjunct1]
  note I = inv [unfolded cb_inv_def]
  define l1 where "l1 = (if ?s + ?l > ?c then ?c - ?s else ?l)"
  define reg2 where "reg2 = (if ?s + ?l > ?c then Some (0 :: nat) else None)"
  have R: "pjmedia_circ_buf_get_read_regions ?cb = (?s, l1, reg2, ?l - l1)" by (simp add: read_regions [OF inv] l1_def reg2_def)
  have l1: "l1 \<le> ?l" "?s + l1 \<le> ?c" using I by (auto simp: l1_def)
  define xs ys where "xs = take l1 (drop ?s (cb_buf ?cb))" and "ys = take (?l - l1) (cb_buf ?cb)"
  have x: "load_samples (cb_buf ?cb) (Some ?s) l1 = Some xs" "length xs = l1" using l1 I by (simp_all add: load_ok xs_def)
  have y: "load_samples (cb_buf ?cb) reg2 (?l - l1) = Some ys" "length ys = ?l - l1"
    using I by (auto simp: load_ok load_0 ys_def reg2_def l1_def)
  obtain st xs' ys' m w' where d: "w_discard ops w xs ys n = (st, xs', ys', m, w')" by (cases "w_discard ops w xs ys n") auto
  have okw: "ok w" using b w by (simp add: db_inv_def)
  note D = discard_ok [OF okw d]
  have m: "st = PJ_SUCCESS \<Longrightarrow> m \<le> ?l" using D x(2) y(2) l1 len by simp
  define mem where "mem = take ?s (cb_buf ?cb) @ xs' @ drop (?s + length xs') (cb_buf ?cb)"
  have s1: "store_samples (cb_buf ?cb) (Some ?s) xs' = Some mem" unfolding mem_def by (rule store_ok) (use D x l1 I in auto)
  have lm: "length mem = ?c" using D x l1 I by (auto simp: mem_def)
  have "\<exists>mem'. store_samples mem reg2 ys' = Some mem' \<and> length mem' = ?c"
  proof (cases "?s + ?l > ?c")
    case True
    have "store_samples mem (Some 0) ys' = Some (take 0 mem @ ys' @ drop (0 + length ys') mem)"
      by (rule store_ok) (use D y(2) lm I in auto)
    then show ?thesis using True D y(2) lm I by (auto simp: reg2_def)
  next
    case False
    then have "ys' = []" using D y(2) by (simp add: l1_def)
    then show ?thesis using lm by (simp add: store_samples_def copied_id)
  qed
  then obtain mem' where s2: "store_samples mem reg2 ys' = Some mem'" "length mem' = ?c" by blast
  let ?cb' = "?cb\<lparr>cb_buf := mem'\<rparr>"
  let ?cb'' = "if st = PJ_SUCCESS \<and> m > 0 then ?cb'\<lparr>cb_len := u32_sub ?l m\<rparr> else ?cb'"
  have "shrink_buffer ops b w n = Some (b\<lparr>db_circ_buf := ?cb'', db_wsola := Some w'\<rparr>)"
    by (simp add: shrink_buffer_def R x(1) y(1) d s1 s2(1) pjmedia_circ_buf_set_len_def pjmedia_circ_buf_get_len_def Let_def)
  moreover have "cb_inv ?cb''"
  proof -
    have "u32_sub ?l m \<le> ?l" if "st = PJ_SUCCESS" using m [OF that] I by (subst u32_sub_le) auto
    then show ?thesis using inv s2(2) by (auto simp: cb_inv_def)
  qed
  ultimately show ?thesis using b D w by (auto simp: db_inv_def)
qed

lemma update_inv:
  assumes b: "db_inv ok spf b" and w: "db_wsola b = Some w"
  shows "\<exists>b'. update ops b w op = Some b' \<and> db_inv ok spf b' \<and> db_wsola b' \<noteq> None \<and> db_max_cnt b' = db_max_cnt b"
proof (cases "op = db_last_op b")
  case True
  then show ?thesis using b w by (simp add: update_def db_inv_def)
next
  case False
  define b1 where "b1 = learn b op"
  have i1: "db_inv ok spf b1" unfolding b1_def learn_def Let_def by (rule recalc_inv) (use b in \<open>simp add: db_inv_def\<close>)
  have w1: "db_wsola b1 = Some w" "db_max_cnt b1 = db_max_cnt b" using w by (simp_all add: b1_def learn_def Let_def)
  have e: "update ops b w op = (if op = OP_PUT \<and> cb_len (db_circ_buf b1) > u32_add spf (db_eff_cnt b1)
      then shrink_buffer ops b1 w (db_samples_per_frame b1 div 2) else Some b1)"
    using False i1 by (simp add: update_def b1_def [symmetric] Let_def pjmedia_circ_buf_get_len_def db_inv_def)
  show ?thesis
  proof (cases "op = OP_PUT \<and> cb_len (db_circ_buf b1) > u32_add spf (db_eff_cnt b1)")
    case True
    have "spf + db_eff_cnt b1 < 2 ^ 32" using i1 w1 by (auto simp: db_inv_def cb_inv_def)
    then have "spf \<le> cb_len (db_circ_buf b1)" using True by (simp add: u32_add_small)
    then show ?thesis using shrink_inv [OF i1 w1(1)] e True w1(2) by simp
  next
    case False
    then show ?thesis using e i1 w1 by auto
  qed
qed

end

section \<open>Puts and gets\<close>

lemma overflow_small:
  assumes "db_inv ok spf b"
  shows "put_overflows b \<longleftrightarrow> cb_len (db_circ_buf b) + spf > db_max_cnt b"
    and "put_overflows b \<Longrightarrow> put_excess b = cb_len (db_circ_buf b) + spf - db_max_cnt b"
proof -
  have "cb_len (db_circ_buf b) + spf < 2 ^ 32" using assms by (auto simp: db_inv_def cb_inv_def split: if_splits)
  then show "put_overflows b \<longleftrightarrow> cb_len (db_circ_buf b) + spf > db_max_cnt b"
    "put_overflows b \<Longrightarrow> put_excess b = cb_len (db_circ_buf b) + spf - db_max_cnt b"
    using assms by (simp_all add: put_overflows_def put_excess_def db_inv_def pjmedia_circ_buf_get_len_def u32_add_small u32_sub_le)
qed

lemma inv_circ: "db_inv ok spf b \<Longrightarrow> cb_inv cb \<Longrightarrow> cb_capacity cb = db_max_cnt b \<Longrightarrow> db_inv ok spf (b\<lparr>db_circ_buf := cb\<rparr>)"
  by (simp add: db_inv_def)

lemma max_room: "db_inv ok spf b \<Longrightarrow> spf \<le> db_max_cnt b"
  by (auto simp: db_inv_def split: if_splits)

text \<open>The end of a put: what is dropped makes room for the frame, which comes last.\<close>

lemma drop_and_write:
  assumes b: "db_inv ok spf b" and f: "length frame = spf"
  defines "b1 \<equiv> if put_overflows b
      then b\<lparr>db_circ_buf := snd (pjmedia_circ_buf_adv_read_ptr (db_circ_buf b) (put_excess b))\<rparr> else b"
  shows "\<exists>st cb. pjmedia_circ_buf_write (db_circ_buf b1) (take (db_samples_per_frame b1) frame) = Some (st, cb) \<and> db_inv ok spf (b1\<lparr>db_circ_buf := cb\<rparr>)
    \<and> cb_samples cb = drop (cb_len (db_circ_buf b) + spf - db_max_cnt b) (cb_samples (db_circ_buf b)) @ frame"
    and "db_wsola b1 = db_wsola b"
proof -
  note inv = b [unfolded db_inv_def, THEN conjunct1]
  note small = overflow_small [OF b]
  have B: "db_inv ok spf b1 \<and> cb_samples (db_circ_buf b1) = drop (cb_len (db_circ_buf b) + spf - db_max_cnt b) (cb_samples (db_circ_buf b))"
  proof (cases "put_overflows b")
    case True
    obtain cb where "pjmedia_circ_buf_adv_read_ptr (db_circ_buf b) (put_excess b) = (PJ_SUCCESS, cb)" "cb_inv cb"
      "cb_samples cb = drop (put_excess b) (cb_samples (db_circ_buf b))" "cb_capacity cb = cb_capacity (db_circ_buf b)" using adv_read [OF inv] by blast
    then show ?thesis using True b small by (simp add: b1_def db_inv_def)
  next
    case False
    then show ?thesis using b small by (simp add: b1_def)
  qed
  have m: "db_max_cnt b1 = db_max_cnt b" and s: "db_samples_per_frame b1 = spf" using b by (simp_all add: b1_def db_inv_def)
  have i1: "cb_inv (db_circ_buf b1)" "cb_capacity (db_circ_buf b1) = db_max_cnt b" using B m by (simp_all add: db_inv_def)
  have "cb_len (db_circ_buf b1) + length frame \<le> cb_capacity (db_circ_buf b1)"
    using B f i1(2) max_room [OF b] length_cb_samples [OF i1(1)] length_cb_samples [OF inv] by simp
  then obtain cb where "pjmedia_circ_buf_write (db_circ_buf b1) frame = Some (PJ_SUCCESS, cb)" "cb_inv cb" "cb_samples cb = cb_samples (db_circ_buf b1) @ frame"
    "cb_capacity cb = db_max_cnt b" using circ_write [OF i1(1), of frame] i1(2) by auto
  then show "\<exists>st cb. pjmedia_circ_buf_write (db_circ_buf b1) (take (db_samples_per_frame b1) frame) = Some (st, cb) \<and> db_inv ok spf (b1\<lparr>db_circ_buf := cb\<rparr>)
    \<and> cb_samples cb = drop (cb_len (db_circ_buf b) + spf - db_max_cnt b) (cb_samples (db_circ_buf b)) @ frame"
    using B s f m by (auto intro: inv_circ)
  show "db_wsola b1 = db_wsola b" by (simp add: b1_def)
qed

lemma put_fifo:
  assumes b: "db_inv ok spf b" and f: "length frame = spf" and w: "db_wsola b = None"
  shows "\<exists>b'. pjmedia_delay_buf_put ops b frame = Some (PJ_SUCCESS, b') \<and> db_inv ok spf b' \<and> db_wsola b' = None \<and> db_max_cnt b' = db_max_cnt b
    \<and> cb_samples (db_circ_buf b') = drop (cb_len (db_circ_buf b) + spf - db_max_cnt b) (cb_samples (db_circ_buf b)) @ frame"
proof -
  define b1 where "b1 = (if put_overflows b
      then b\<lparr>db_circ_buf := snd (pjmedia_circ_buf_adv_read_ptr (db_circ_buf b) (put_excess b))\<rparr> else b)"
  obtain st cb where c: "pjmedia_circ_buf_write (db_circ_buf b1) (take (db_samples_per_frame b1) frame) = Some (st, cb)" "db_inv ok spf (b1\<lparr>db_circ_buf := cb\<rparr>)"
    "cb_samples cb = drop (cb_len (db_circ_buf b) + spf - db_max_cnt b) (cb_samples (db_circ_buf b)) @ frame"
    using drop_and_write [OF b f] unfolding b1_def by blast
  have "pjmedia_delay_buf_put ops b frame = Some (PJ_SUCCESS, b1\<lparr>db_circ_buf := cb\<rparr>)"
    using w c(1) by (cases "put_overflows b") (simp_all add: pjmedia_delay_buf_put_def put_samples_def b1_def)
  then show ?thesis using c w by (auto simp: b1_def)
qed

lemma get_rest_ok:
  assumes b: "db_inv ok spf b" and l: "cb_len (db_circ_buf b) \<le> spf"
  shows "\<exists>b'. get_rest b = Some (PJ_SUCCESS, cb_samples (db_circ_buf b) @ replicate (spf - cb_len (db_circ_buf b)) 0, b') \<and> db_inv ok spf b'
    \<and> cb_samples (db_circ_buf b') = [] \<and> db_wsola b' = db_wsola b \<and> db_max_cnt b' = db_max_cnt b"
proof -
  note inv = b [unfolded db_inv_def, THEN conjunct1]
  obtain cb where cb: "pjmedia_circ_buf_read (db_circ_buf b) (cb_len (db_circ_buf b)) = Some (PJ_SUCCESS, cb_samples (db_circ_buf b), cb)" "cb_inv cb"
    "cb_capacity cb = cb_capacity (db_circ_buf b)" using circ_read [OF inv order_refl] length_cb_samples [OF inv] by auto
  let ?cb = "snd (pjmedia_circ_buf_reset cb)"
  have "cb_inv ?cb" "cb_capacity ?cb = db_max_cnt b" "cb_samples ?cb = []"
    using cb(2,3) b by (simp_all add: pjmedia_circ_buf_reset_def cb_inv_def cb_samples_def db_inv_def)
  then show ?thesis using cb(1) b inv_circ [OF b] by (simp add: get_rest_def pjmedia_circ_buf_get_len_def db_inv_def)
qed

lemma get_frame_ok:
  assumes b: "db_inv ok spf b" and l: "spf \<le> cb_len (db_circ_buf b)"
  shows "\<exists>b'. get_frame b frame = Some (PJ_SUCCESS, take spf (cb_samples (db_circ_buf b)), b') \<and> db_inv ok spf b'
    \<and> cb_samples (db_circ_buf b') = drop spf (cb_samples (db_circ_buf b)) \<and> db_wsola b' = db_wsola b \<and> db_max_cnt b' = db_max_cnt b"
proof -
  note inv = b [unfolded db_inv_def, THEN conjunct1]
  obtain cb where cb: "pjmedia_circ_buf_read (db_circ_buf b) spf = Some (PJ_SUCCESS, take spf (cb_samples (db_circ_buf b)), cb)" "cb_inv cb"
    "cb_samples cb = drop spf (cb_samples (db_circ_buf b))" "cb_capacity cb = cb_capacity (db_circ_buf b)" using circ_read [OF inv l] by auto
  then show ?thesis using b inv_circ [OF b cb(2)] by (simp add: get_frame_def db_inv_def)
qed

lemma get_fifo:
  assumes b: "db_inv ok spf b" and w: "db_wsola b = None"
  shows "\<exists>b'. pjmedia_delay_buf_get ops b frame = Some (PJ_SUCCESS, take spf (cb_samples (db_circ_buf b) @ replicate spf 0), b') \<and> db_inv ok spf b'
    \<and> cb_samples (db_circ_buf b') = drop spf (cb_samples (db_circ_buf b)) \<and> db_wsola b' = None \<and> db_max_cnt b' = db_max_cnt b"
proof -
  note inv = b [unfolded db_inv_def, THEN conjunct1]
  have s: "db_samples_per_frame b = spf" using b by (simp add: db_inv_def)
  show ?thesis
  proof (cases "cb_len (db_circ_buf b) < spf")
    case True
    then show ?thesis using get_rest_ok [OF b] w s length_cb_samples [OF inv]
      by (auto simp: pjmedia_delay_buf_get_def pjmedia_circ_buf_get_len_def)
  next
    case False
    then show ?thesis using get_frame_ok [OF b, of frame] w s length_cb_samples [OF inv]
      by (auto simp: pjmedia_delay_buf_get_def pjmedia_circ_buf_get_len_def)
  qed
qed

lemma reset_db:
  assumes b: "db_inv ok spf b" and r: "\<And>w. db_wsola b = Some w \<Longrightarrow> ok (w_reset ops w)"
  shows "\<exists>b'. pjmedia_delay_buf_reset ops b = (PJ_SUCCESS, b') \<and> db_inv ok spf b' \<and> cb_samples (db_circ_buf b') = []
    \<and> (db_wsola b' = None \<longleftrightarrow> db_wsola b = None) \<and> db_max_cnt b' = db_max_cnt b"
  using b r by (auto simp: pjmedia_delay_buf_reset_def db_inv_def pjmedia_circ_buf_reset_def cb_inv_def cb_samples_def)

context wsola_contract
begin

lemma put_inv:
  assumes b: "db_inv ok spf b" and f: "length frame = spf" and w: "db_wsola b = Some w"
  shows "\<exists>st b' w1 f' w2. pjmedia_delay_buf_put ops b frame = Some (st, b') \<and> db_inv ok spf b' \<and> db_wsola b' \<noteq> None \<and> db_max_cnt b' = db_max_cnt b
    \<and> ok w1 \<and> w_save ops w1 frame = (st, f', w2)
    \<and> (st = PJ_SUCCESS \<longrightarrow> length f' = spf \<and> (\<exists>xs. cb_samples (db_circ_buf b') = xs @ f'))"
proof -
  obtain b1 where b1: "update ops b w OP_PUT = Some b1" "db_inv ok spf b1" "db_wsola b1 \<noteq> None" "db_max_cnt b1 = db_max_cnt b"
    using update_inv [OF b w] by blast
  obtain w1 where w1: "db_wsola b1 = Some w1" "ok w1" using b1(2,3) by (auto simp: db_inv_def)
  obtain st f' w2 where s: "w_save ops w1 frame = (st, f', w2)" by (cases "w_save ops w1 frame")
  note F = save_ok [OF w1(2) f s]
  let ?b2 = "b1\<lparr>db_wsola := Some w2\<rparr>"
  have b2: "db_inv ok spf ?b2" using b1(2,3) F by (simp add: db_inv_def)
  have e: "pjmedia_delay_buf_put ops b frame = (if st \<noteq> PJ_SUCCESS then Some (st, ?b2) else put_samples ops ?b2 f')"
    using w b1(1) w1(1) s by (simp add: pjmedia_delay_buf_put_def)
  show ?thesis
  proof (cases "st = PJ_SUCCESS")
    case False
    then show ?thesis using e b2 b1(4) w1(2) s by auto
  next
    case True
    have "\<exists>b3. (if put_overflows ?b2 then shrink_buffer ops ?b2 w2 (put_excess ?b2) else Some ?b2) = Some b3
        \<and> db_inv ok spf b3 \<and> db_wsola b3 \<noteq> None \<and> db_max_cnt b3 = db_max_cnt b"
    proof (cases "put_overflows ?b2")
      case True
      have "2 * spf \<le> db_max_cnt ?b2" using b2 by (simp add: db_inv_def)
      then have "spf \<le> cb_len (db_circ_buf ?b2)" using overflow_small(1) [OF b2] True by simp
      then show ?thesis using shrink_inv [OF b2, of w2] True b1(4) by auto
    next
      case False
      then show ?thesis using b2 b1(4) by auto
    qed
    then obtain b3 where b3: "(if put_overflows ?b2 then shrink_buffer ops ?b2 w2 (put_excess ?b2) else Some ?b2) = Some b3"
      "db_inv ok spf b3" "db_wsola b3 \<noteq> None" "db_max_cnt b3 = db_max_cnt b" by blast
    define b4 where "b4 = (if put_overflows b3
        then b3\<lparr>db_circ_buf := snd (pjmedia_circ_buf_adv_read_ptr (db_circ_buf b3) (put_excess b3))\<rparr> else b3)"
    obtain st' cb where c: "pjmedia_circ_buf_write (db_circ_buf b4) (take (db_samples_per_frame b4) f') = Some (st', cb)" "db_inv ok spf (b4\<lparr>db_circ_buf := cb\<rparr>)"
      "cb_samples cb = drop (cb_len (db_circ_buf b3) + spf - db_max_cnt b3) (cb_samples (db_circ_buf b3)) @ f'"
      using drop_and_write(1) [OF b3(2), of f'] F unfolding b4_def by blast
    have "put_samples ops ?b2 f' = Some (PJ_SUCCESS, b4\<lparr>db_circ_buf := cb\<rparr>)"
    proof (cases "put_overflows ?b2")
      case True
      then show ?thesis using b3(1) c(1) by (simp add: put_samples_def b4_def)
    next
      case False
      then have "b4 = b3" "b3 = ?b2" using b3(1) by (simp_all add: b4_def)
      then show ?thesis using c(1) False by (simp add: put_samples_def)
    qed
    moreover have "db_wsola (b4\<lparr>db_circ_buf := cb\<rparr>) \<noteq> None" "db_max_cnt (b4\<lparr>db_circ_buf := cb\<rparr>) = db_max_cnt b" using b3(3,4) by (simp_all add: b4_def)
    ultimately show ?thesis using e True c(2,3) w1(2) s F by auto
  qed
qed

lemma get_inv:
  assumes b: "db_inv ok spf b" and f: "length frame = spf" and w: "db_wsola b = Some w"
  shows "\<exists>f' b'. pjmedia_delay_buf_get ops b frame = Some (PJ_SUCCESS, f', b') \<and> length f' = spf \<and> db_inv ok spf b' \<and> db_wsola b' \<noteq> None
    \<and> db_max_cnt b' = db_max_cnt b"
proof -
  obtain b1 where b1: "update ops b w OP_GET = Some b1" "db_inv ok spf b1" "db_wsola b1 \<noteq> None" "db_max_cnt b1 = db_max_cnt b"
    using update_inv [OF b w] by blast
  obtain w1 where w1: "db_wsola b1 = Some w1" "ok w1" using b1(2,3) by (auto simp: db_inv_def)
  have s: "db_samples_per_frame b1 = spf" using b1(2) by (simp add: db_inv_def)
  show ?thesis
  proof (cases "cb_len (db_circ_buf b1) < spf")
    case False
    then obtain b' where "get_frame b1 frame = Some (PJ_SUCCESS, take spf (cb_samples (db_circ_buf b1)), b')" "db_inv ok spf b'"
      "db_wsola b' = db_wsola b1" "db_max_cnt b' = db_max_cnt b1" using get_frame_ok [OF b1(2), of frame] by auto
    moreover have "length (cb_samples (db_circ_buf b1)) = cb_len (db_circ_buf b1)" using b1(2) length_cb_samples by (simp add: db_inv_def)
    ultimately show ?thesis using w b1 s False by (simp add: pjmedia_delay_buf_get_def pjmedia_circ_buf_get_len_def)
  next
    case low: True
    obtain st f' w2 where g: "w_generate ops w1 = (st, f', w2)" by (cases "w_generate ops w1")
    note G = generate_ok [OF w1(2) g]
    let ?b2 = "b1\<lparr>db_wsola := Some w2\<rparr>"
    have b2: "db_inv ok spf ?b2" using b1(2,3) G by (simp add: db_inv_def)
    have e: "pjmedia_delay_buf_get ops b frame = (if st = PJ_SUCCESS then
        (if cb_len (db_circ_buf ?b2) = 0 then Some (PJ_SUCCESS, f', ?b2)
         else do { (_, cb) \<leftarrow> pjmedia_circ_buf_write (db_circ_buf ?b2) (take spf f'); get_frame (?b2\<lparr>db_circ_buf := cb\<rparr>) f' }) else get_rest ?b2)"
      using w b1(1) w1(1) g s low by (simp add: pjmedia_delay_buf_get_def pjmedia_circ_buf_get_len_def)
    consider "st \<noteq> PJ_SUCCESS" | "st = PJ_SUCCESS" "cb_len (db_circ_buf ?b2) = 0" | "st = PJ_SUCCESS" "cb_len (db_circ_buf ?b2) \<noteq> 0" by blast
    then show ?thesis
    proof cases
      case 1
      have "length (cb_samples (db_circ_buf b1)) = cb_len (db_circ_buf b1)" using b1(2) length_cb_samples by (simp add: db_inv_def)
      then show ?thesis using e 1 get_rest_ok [OF b2] low b1(4) by auto
    next
      case 2
      then show ?thesis using e G b2 b1(4) by auto
    next
      case 3
      have inv: "cb_inv (db_circ_buf b1)" "cb_capacity (db_circ_buf b1) = db_max_cnt b1" "2 * spf \<le> db_max_cnt b1"
        using b2 by (simp_all add: db_inv_def)
      obtain cb where c: "pjmedia_circ_buf_write (db_circ_buf b1) f' = Some (PJ_SUCCESS, cb)" "cb_inv cb" "cb_samples cb = cb_samples (db_circ_buf b1) @ f'"
        "cb_capacity cb = db_max_cnt b1" using circ_write [OF inv(1), of f'] inv low G by auto
      have b3: "db_inv ok spf (?b2\<lparr>db_circ_buf := cb\<rparr>)" using inv_circ [OF b2 c(2)] c(4) by simp
      have l: "spf \<le> cb_len (db_circ_buf (?b2\<lparr>db_circ_buf := cb\<rparr>))"
        using length_cb_samples [OF c(2)] c(3) G by simp
      show ?thesis using get_frame_ok [OF b3 l, of f'] e 3 c(1,3) G b1(4) by auto
    qed
  qed
qed

end

section \<open>Runs\<close>

text \<open>What the two ports do with a delay buffer, and what a run gives: the frames that were got.\<close>

datatype delay_op = D_Put "int list" | D_Get "int list" | D_Reset

fun delay_step :: "'w wsola_ops \<Rightarrow> 'w delay_buf \<Rightarrow> delay_op \<Rightarrow> ((pj_status \<times> int list) \<times> 'w delay_buf) option" where
  "delay_step ops b (D_Put frame) = map_option (\<lambda>(st, b). ((st, []), b)) (pjmedia_delay_buf_put ops b frame)"
| "delay_step ops b (D_Get frame) = map_option (\<lambda>(st, f, b). ((st, f), b)) (pjmedia_delay_buf_get ops b frame)"
| "delay_step ops b D_Reset = Some (let (st, b) = pjmedia_delay_buf_reset ops b in ((st, []), b))"

fun frame_of :: "delay_op \<Rightarrow> int list option" where
  "frame_of (D_Put f) = Some f"
| "frame_of (D_Get f) = Some f"
| "frame_of D_Reset = None"

fun delay_run :: "'w wsola_ops \<Rightarrow> 'w delay_buf \<Rightarrow> delay_op list \<Rightarrow> ((pj_status \<times> int list) list \<times> 'w delay_buf) option" where
  "delay_run ops b [] = Some ([], b)"
| "delay_run ops b (x # xs) = do { (r, b) \<leftarrow> delay_step ops b x; (rs, b) \<leftarrow> delay_run ops b xs; Some (r # rs, b) }"

text \<open>What the simple FIFO mode promises: the newest samples that fit, silence when there are none.\<close>

fun window_step :: "nat \<Rightarrow> nat \<Rightarrow> int list \<Rightarrow> delay_op \<Rightarrow> (pj_status \<times> int list) \<times> int list" where
  "window_step c spf xs (D_Put f) = ((PJ_SUCCESS, []), drop (length xs + spf - c) xs @ f)"
| "window_step c spf xs (D_Get f) = ((PJ_SUCCESS, take spf (xs @ replicate spf 0)), drop spf xs)"
| "window_step c spf xs D_Reset = ((PJ_SUCCESS, []), [])"

fun window_run :: "nat \<Rightarrow> nat \<Rightarrow> int list \<Rightarrow> delay_op list \<Rightarrow> (pj_status \<times> int list) list \<times> int list" where
  "window_run c spf xs [] = ([], xs)"
| "window_run c spf xs (y # ys) = (let (r, xs) = window_step c spf xs y; (rs, xs) = window_run c spf xs ys in (r # rs, xs))"

lemma window_simulates:
  assumes "db_inv ok spf b" "db_wsola b = None" "\<forall>x \<in> set xs. \<forall>f. frame_of x = Some f \<longrightarrow> length f = spf"
  shows "\<exists>rs b'. delay_run ops b xs = Some (rs, b') \<and> window_run (db_max_cnt b) spf (cb_samples (db_circ_buf b)) xs = (rs, cb_samples (db_circ_buf b'))
    \<and> db_inv ok spf b' \<and> db_wsola b' = None \<and> db_max_cnt b' = db_max_cnt b"
  using assms
proof (induction xs arbitrary: b)
  case (Cons x xs)
  have "cb_inv (db_circ_buf b)" using Cons.prems(1) by (simp add: db_inv_def)
  then have l: "length (cb_samples (db_circ_buf b)) = cb_len (db_circ_buf b)" by (rule length_cb_samples)
  have "\<exists>r b1. delay_step ops b x = Some (r, b1) \<and> window_step (db_max_cnt b) spf (cb_samples (db_circ_buf b)) x = (r, cb_samples (db_circ_buf b1))
      \<and> db_inv ok spf b1 \<and> db_wsola b1 = None \<and> db_max_cnt b1 = db_max_cnt b"
  proof (cases x)
    case (D_Put f)
    then show ?thesis using put_fifo [OF Cons.prems(1), of f ops] Cons.prems(2,3) l by auto
  next
    case (D_Get f)
    then show ?thesis using get_fifo [OF Cons.prems(1,2), of ops f] by auto
  next
    case D_Reset
    then show ?thesis using reset_db [OF Cons.prems(1), of ops] Cons.prems(2) by auto
  qed
  then obtain r b1 where s: "delay_step ops b x = Some (r, b1)"
    "window_step (db_max_cnt b) spf (cb_samples (db_circ_buf b)) x = (r, cb_samples (db_circ_buf b1))"
    "db_inv ok spf b1" "db_wsola b1 = None" "db_max_cnt b1 = db_max_cnt b" by blast
  show ?case using Cons.IH [OF s(3,4)] Cons.prems(3) s by auto
qed simp

context wsola_contract
begin

lemma step_total:
  assumes b: "db_inv ok spf b" and f: "\<forall>f. frame_of x = Some f \<longrightarrow> length f = spf"
  shows "\<exists>r b'. delay_step ops b x = Some (r, b') \<and> db_inv ok spf b' \<and> db_max_cnt b' = db_max_cnt b
    \<and> (\<forall>f. x = D_Get f \<longrightarrow> fst r = PJ_SUCCESS \<and> length (snd r) = spf)"
proof (cases x)
  case (D_Put f)
  show ?thesis
  proof (cases "db_wsola b")
    case None
    then show ?thesis using put_fifo [OF b, of f ops] f D_Put by auto
  next
    case (Some w)
    then obtain st b' where "pjmedia_delay_buf_put ops b f = Some (st, b')" "db_inv ok spf b'" "db_max_cnt b' = db_max_cnt b"
      using put_inv [OF b, of f] f D_Put by auto
    then show ?thesis using D_Put by auto
  qed
next
  case (D_Get f)
  show ?thesis
  proof (cases "db_wsola b")
    case None
    then show ?thesis using get_fifo [OF b, of ops f] D_Get by auto
  next
    case (Some w)
    then show ?thesis using get_inv [OF b, of f] f D_Get by auto
  qed
next
  case D_Reset
  have "\<And>w. db_wsola b = Some w \<Longrightarrow> ok (w_reset ops w)" using b reset_ok by (simp add: db_inv_def)
  then show ?thesis using reset_db [OF b, of ops] D_Reset by auto
qed

lemma keeps_wsola:
  assumes "db_inv ok spf b" "db_wsola b \<noteq> None" "\<forall>x \<in> set xs. \<forall>f. frame_of x = Some f \<longrightarrow> length f = spf" "delay_run ops b xs = Some (rs, b')"
  shows "db_wsola b' \<noteq> None"
  using assms
proof (induction xs arbitrary: b rs)
  case (Cons x xs)
  obtain w where w: "db_wsola b = Some w" using Cons.prems(2) by blast
  obtain r b1 rs' where s: "delay_step ops b x = Some (r, b1)" "delay_run ops b1 xs = Some (rs', b')"
    using Cons.prems(4) by (auto split: bind_splits)
  have "db_inv ok spf b1" using step_total [OF Cons.prems(1), of x] Cons.prems(3) s(1) by auto
  moreover have "db_wsola b1 \<noteq> None"
  proof (cases x)
    case (D_Put f)
    then show ?thesis using put_inv [OF Cons.prems(1) _ w, of f] Cons.prems(3) s(1) by auto
  next
    case (D_Get f)
    then show ?thesis using get_inv [OF Cons.prems(1) _ w, of f] Cons.prems(3) s(1) by auto
  next
    case D_Reset
    have "\<And>w. db_wsola b = Some w \<Longrightarrow> ok (w_reset ops w)" using Cons.prems(1) reset_ok by (simp add: db_inv_def)
    then show ?thesis using reset_db [OF Cons.prems(1), of ops] w s(1) D_Reset by auto
  qed
  ultimately show ?case using Cons.IH [OF _ _ _ s(2)] Cons.prems(3) by auto
qed simp

lemma run_total:
  assumes "db_inv ok spf b" "\<forall>x \<in> set xs. \<forall>f. frame_of x = Some f \<longrightarrow> length f = spf"
  shows "\<exists>rs b'. delay_run ops b xs = Some (rs, b') \<and> length rs = length xs \<and> db_inv ok spf b' \<and> db_max_cnt b' = db_max_cnt b
    \<and> (\<forall>i < length xs. \<forall>f. xs ! i = D_Get f \<longrightarrow> fst (rs ! i) = PJ_SUCCESS \<and> length (snd (rs ! i)) = spf)"
  using assms
proof (induction xs arbitrary: b)
  case (Cons x xs)
  obtain r b1 where s: "delay_step ops b x = Some (r, b1)" "db_inv ok spf b1" "db_max_cnt b1 = db_max_cnt b"
    "\<forall>f. x = D_Get f \<longrightarrow> fst r = PJ_SUCCESS \<and> length (snd r) = spf" using step_total [OF Cons.prems(1), of x] Cons.prems(2) by auto
  obtain rs b' where t: "delay_run ops b1 xs = Some (rs, b')" "length rs = length xs" "db_inv ok spf b'" "db_max_cnt b' = db_max_cnt b1"
    "\<forall>i < length xs. \<forall>f. xs ! i = D_Get f \<longrightarrow> fst (rs ! i) = PJ_SUCCESS \<and> length (snd (rs ! i)) = spf"
    using Cons.IH [OF s(2)] Cons.prems(2) by auto
  have "\<forall>i < length (x # xs). \<forall>f. (x # xs) ! i = D_Get f \<longrightarrow> fst ((r # rs) ! i) = PJ_SUCCESS \<and> length (snd ((r # rs) ! i)) = spf"
    using s(4) t(5) by (auto simp: nth_Cons split: nat.splits)
  then show ?case using s(1,3) t(1-4) by (intro exI [of _ "r # rs"] exI [of _ b']) simp
qed simp

end

section \<open>Creation\<close>

text \<open>
  Arguments for which no product wraps, a frame lasts at least a millisecond, and the delay is at least \<open>k\<close> frames.
\<close>

definition frame_time :: "nat \<Rightarrow> nat \<Rightarrow> nat \<Rightarrow> nat" where
  "frame_time clock_rate spf chs = spf * 1000 div clock_rate div chs"

definition max_delay_of :: "nat \<Rightarrow> nat \<Rightarrow> nat" where
  "max_delay_of ptime d = (if d < ptime then max DEFAULT_MAX_DELAY ptime else d)"

definition delay_args_ok :: "nat \<Rightarrow> nat \<Rightarrow> nat \<Rightarrow> nat \<Rightarrow> nat \<Rightarrow> bool" where
  "delay_args_ok clock_rate spf chs d k \<longleftrightarrow> 0 < spf \<and> 0 < clock_rate \<and> 0 < chs \<and> chs < 2 ^ 29 \<and> clock_rate * chs \<le> spf * 1000 \<and> spf * 1000 < 2 ^ 32
     \<and> spf * max_delay_of (frame_time clock_rate spf chs) d < 2 ^ 31
     \<and> k * frame_time clock_rate spf chs \<le> max_delay_of (frame_time clock_rate spf chs) d"

lemma create_db:
  assumes a: "delay_args_ok clock_rate spf chs d k" and k: "1 \<le> k" and w: "simple \<or> 2 \<le> k \<and> ok w"
  shows "\<exists>b. pjmedia_delay_buf_create (Inr w) clock_rate spf chs d simple = Some (Inr b) \<and> db_inv ok spf b
    \<and> (db_wsola b = None \<longleftrightarrow> simple) \<and> cb_samples (db_circ_buf b) = []
    \<and> db_max_cnt b = spf * max_delay_of (frame_time clock_rate spf chs) d div frame_time clock_rate spf chs"
proof -
  define p where "p = frame_time clock_rate spf chs"
  define m where "m = max_delay_of p d"
  note A = a [unfolded delay_args_ok_def, folded p_def, folded m_def]
  have p: "u32_mul spf 1000 div clock_rate div chs = p" using A by (simp add: u32_mul_small p_def frame_time_def)
  have "0 < spf * 1000 div (clock_rate * chs)" using A by (simp add: div_greater_zero_iff)
  then have p0: "0 < p" by (simp add: p_def frame_time_def div_mult2_eq)
  have "spf * m < 2 ^ 31" using A by blast
  then have sm: "spf * m < 2 ^ 32" by simp
  let ?c = "spf * m div p"
  have "k * spf * p \<le> spf * m" using A mult_le_mono2 [of "k * p" m spf] by (simp add: ac_simps)
  then have kc: "k * spf \<le> ?c" using p0 by (simp add: less_eq_div_iff_mult_less_eq)
  have c: "?c < 2 ^ 31" using A div_le_dividend [of "spf * m" p] by linarith
  define b where "b = \<lparr>db_samples_per_frame = spf, db_ptime = p, db_channel_count = chs,
      db_circ_buf = pjmedia_circ_buf_create ?c, db_max_cnt = ?c, db_eff_cnt = ?c div 2, db_level = 0, db_last_op = OP_PUT, db_recalc_timer = RECALC_TIME,
      db_max_level = 0, db_wsola = (if simple then None else Some w)\<rparr>"
  have "pjmedia_delay_buf_create (Inr w) clock_rate spf chs d simple = Some (Inr b)"
    using A p0 u32_mul_small [OF sm] by (simp add: pjmedia_delay_buf_create_def Let_def p m_def [symmetric] max_delay_of_def [symmetric] b_def)
  moreover have "1 * spf \<le> k * spf" by (rule mult_le_mono1 [OF k])
  then have "spf \<le> ?c" using kc by linarith
  moreover have "2 * spf \<le> ?c" if "2 \<le> k" by (rule le_trans [OF mult_le_mono1 [OF that] kc])
  moreover have "?c div 2 < 2 ^ 30 + chs" using c by simp
  ultimately show ?thesis
    using A w circ_create_inv [OF c] by (auto simp: b_def db_inv_def m_def p_def)
qed

section \<open>Properties\<close>

text \<open>
C21. In adaptive mode, with arguments whose sizes do not wrap, a delay of two frames or more and a
drift handler that keeps the contract wsola_contract (met by the null implementation of wsola.c),
creating succeeds and no sequence of puts, gets and resets reads or writes outside the circular
buffer: the samples held stay within the maximum and every get gives one full frame and
PJ_SUCCESS, also when none is available, where delaybuf.h documents PJ_EPENDING.
\<close>

theorem delay_buf_never_faults:
  assumes "wsola_contract ops ok spf" "ok w" "delay_args_ok clock_rate spf chs d 2" "\<forall>x \<in> set xs. \<forall>f. frame_of x = Some f \<longrightarrow> length f = spf"
  shows "\<exists>b rs b'. pjmedia_delay_buf_create (Inr w) clock_rate spf chs d False = Some (Inr b) \<and> delay_run ops b xs = Some (rs, b')
    \<and> length (cb_samples (db_circ_buf b')) \<le> db_max_cnt b
    \<and> (\<forall>i < length xs. \<forall>f. xs ! i = D_Get f \<longrightarrow> fst (rs ! i) = PJ_SUCCESS \<and> length (snd (rs ! i)) = spf)"
proof -
  obtain b where b: "pjmedia_delay_buf_create (Inr w) clock_rate spf chs d False = Some (Inr b)" "db_inv ok spf b"
    using create_db [OF assms(3), of False ok w] assms(2) by auto
  obtain rs b' where r: "delay_run ops b xs = Some (rs, b')" "db_inv ok spf b'" "db_max_cnt b' = db_max_cnt b"
    "\<forall>i < length xs. \<forall>f. xs ! i = D_Get f \<longrightarrow> fst (rs ! i) = PJ_SUCCESS \<and> length (snd (rs ! i)) = spf"
    using wsola_contract.run_total [OF assms(1) b(2) assms(4)] by blast
  have "length (cb_samples (db_circ_buf b')) \<le> db_max_cnt b" using r(2,3) length_cb_samples by (auto simp: db_inv_def cb_inv_def)
  then show ?thesis using b(1) r(1,4) by blast
qed

theorem delay_buf_put_newest:
  assumes "wsola_contract ops ok spf" "ok w" "delay_args_ok clock_rate spf chs d 2" "\<forall>x \<in> set xs. \<forall>f. frame_of x = Some f \<longrightarrow> length f = spf"
    "pjmedia_delay_buf_create (Inr w) clock_rate spf chs d False = Some (Inr b)" "delay_run ops b xs = Some (rs, b1)" "length frame = spf"
  shows "\<exists>st b' w1 f w2. pjmedia_delay_buf_put ops b1 frame = Some (st, b') \<and> w_save ops w1 frame = (st, f, w2)
    \<and> (st = PJ_SUCCESS \<longrightarrow> (\<exists>ys. cb_samples (db_circ_buf b') = ys @ f))"
proof -
  have b: "db_inv ok spf b" using create_db [OF assms(3), of False ok w] assms(2,5) by auto
  have b1: "db_inv ok spf b1" using wsola_contract.run_total [OF assms(1) b assms(4)] assms(6) by auto
  have "db_wsola b1 \<noteq> None" by (rule wsola_contract.keeps_wsola [OF assms(1) b _ assms(4,6)]) (use create_db [OF assms(3), of False ok w] assms(2,5) in auto)
  then obtain w' where "db_wsola b1 = Some w'" by blast
  then show ?thesis using wsola_contract.put_inv [OF assms(1) b1 assms(7)] by blast
qed

text \<open>
C18. A delay buffer in simple mode, with arguments whose sizes do not wrap, is a window over the
newest samples: every put appends a frame and drops the eldest samples beyond the maximum,
reporting success then too, where delaybuf.h documents PJ_ETOOMANY; every get takes the first
frame, or what there is followed by silence, and reports success, where delaybuf.h documents
PJ_EPENDING; over any sequence of operations.
\<close>

theorem delay_buf_fifo_refines_window:
  assumes "delay_args_ok clock_rate spf chs d 1" "\<forall>x \<in> set xs. \<forall>f. frame_of x = Some f \<longrightarrow> length f = spf"
  shows "\<exists>b rs b'. pjmedia_delay_buf_create (Inr w) clock_rate spf chs d True = Some (Inr b) \<and> delay_run ops b xs = Some (rs, b')
    \<and> window_run (spf * max_delay_of (frame_time clock_rate spf chs) d div frame_time clock_rate spf chs) spf [] xs = (rs, cb_samples (db_circ_buf b'))"
proof -
  obtain b where b: "pjmedia_delay_buf_create (Inr w) clock_rate spf chs d True = Some (Inr b)" "db_inv (\<lambda>_. True) spf b" "db_wsola b = None"
    "cb_samples (db_circ_buf b) = []" "db_max_cnt b = spf * max_delay_of (frame_time clock_rate spf chs) d div frame_time clock_rate spf chs"
    using create_db [OF assms(1), of True "\<lambda>_. True" w] by auto
  show ?thesis using window_simulates [OF b(2,3) assms(2), of ops] b(1,4,5) by auto
qed

theorem delay_buf_short_frame_faults:
  assumes "0 < spf" "0 < chs" "spf * 1000 < clock_rate * chs" "spf * 1000 < 2 ^ 32"
  shows "pjmedia_delay_buf_create wsola clock_rate spf chs d simple = None"
proof -
  have "clock_rate \<noteq> 0" using assms(3) by (cases "clock_rate = 0") simp_all
  moreover have "spf * 1000 div clock_rate div chs = 0" using assms(3) by (simp add: div_mult2_eq [symmetric])
  ultimately show ?thesis using assms by (simp add: pjmedia_delay_buf_create_def u32_mul_small)
qed

theorem delay_buf_negative_delay:
  "\<exists>b. pjmedia_delay_buf_create (Inr w) 8000 160 1 (to_u32 (-1)) True = Some (Inr b) \<and> db_ptime b = 20 \<and> db_max_cnt b = 214748356"
  by (simp add: pjmedia_delay_buf_create_def u32_mul_def to_u32_def)

section \<open>Instances\<close>

theorem delay_buf_never_faults_witness:
  "\<exists>b rs b'. pjmedia_delay_buf_create (Inr 8) 8000 8 1 2 False = Some (Inr b)
    \<and> delay_run null_wsola b [D_Put (replicate 8 1), D_Put (replicate 8 2), D_Put (replicate 8 3), D_Get (replicate 8 0)] = Some (rs, b')
    \<and> length (snd (rs ! 3)) = 8"
  using delay_buf_never_faults [OF null.wsola_contract_axioms, of 8 8 8000 1 2
      "[D_Put (replicate 8 1), D_Put (replicate 8 2), D_Put (replicate 8 3), D_Get (replicate 8 0)]"]
  by (auto simp: delay_args_ok_def frame_time_def max_delay_of_def)

theorem delay_buf_put_newest_witness:
  "\<exists>b st b'. pjmedia_delay_buf_create (Inr 8) 8000 8 1 2 False = Some (Inr b)
    \<and> pjmedia_delay_buf_put null_wsola b (replicate 8 5) = Some (st, b') \<and> (\<exists>ys. cb_samples (db_circ_buf b') = ys @ replicate 8 5)"
proof -
  obtain b where b: "pjmedia_delay_buf_create (Inr (8 :: nat)) 8000 8 1 2 False = Some (Inr b)"
    using create_db [of 8000 8 1 2 2 False "\<lambda>w. w = 8" 8] by (auto simp: delay_args_ok_def frame_time_def max_delay_of_def)
  show ?thesis
    using delay_buf_put_newest [where w = 8 and xs = "[]" and rs = "[]" and ?b1.0 = b and frame = "replicate 8 5",
        OF null.wsola_contract_axioms _ _ _ b] b
    by (auto simp: delay_args_ok_def frame_time_def max_delay_of_def null_wsola_def)
qed

theorem delay_buf_fifo_refines_window_witness:
  "\<exists>b rs b'. pjmedia_delay_buf_create (Inr 2) 1000 2 1 2 True = Some (Inr b)
    \<and> delay_run null_wsola b [D_Put [1, 2], D_Put [3, 4], D_Get [0, 0], D_Get [0, 0]] = Some (rs, b') \<and> map snd rs = [[], [], [3, 4], [0, 0]]"
proof -
  let ?xs = "[D_Put [1, 2], D_Put [3, 4], D_Get [0, 0], D_Get [0, 0]]"
  have a: "delay_args_ok 1000 2 1 2 1" "2 * max_delay_of (frame_time 1000 2 1) 2 div frame_time 1000 2 1 = 2"
    by (simp_all add: delay_args_ok_def frame_time_def max_delay_of_def)
  have r: "window_run 2 2 [] ?xs = ([(PJ_SUCCESS, []), (PJ_SUCCESS, []), (PJ_SUCCESS, [3, 4]), (PJ_SUCCESS, [0, 0])], [])"
    by code_simp
  have "\<exists>b rs b'. pjmedia_delay_buf_create (Inr 2) 1000 2 1 2 True = Some (Inr b) \<and> delay_run null_wsola b ?xs = Some (rs, b')
      \<and> window_run (2 * max_delay_of (frame_time 1000 2 1) 2 div frame_time 1000 2 1) 2 [] ?xs = (rs, cb_samples (db_circ_buf b'))"
    by (rule delay_buf_fifo_refines_window [OF a(1)]) simp
  then obtain b rs b' where "pjmedia_delay_buf_create (Inr 2) 1000 2 1 2 True = Some (Inr b)" "delay_run null_wsola b ?xs = Some (rs, b')"
    "window_run 2 2 [] ?xs = (rs, cb_samples (db_circ_buf b'))" unfolding a(2) by blast
  then show ?thesis unfolding r by (intro exI conjI) auto
qed

theorem delay_buf_short_frame_faults_witness: "pjmedia_delay_buf_create (Inr ()) 48000 40 1 100 True = None"
  by (rule delay_buf_short_frame_faults) simp_all

end
