(* ===== verification/Timer_Heap.thy ===== *)
theory Timer_Heap
  imports Pj_Prelude
begin

text \<open>
  The timer heap of \<^verbatim>\<open>pjlib/src/pj/timer.c\<close>, in the configuration of \<^verbatim>\<open>pj/config.h\<close> (copies of the entries,
  binary heap, debugging on): a binary heap of timer copies ordered by expiry, an array that maps a
  timer id to its heap slot, and a free list of ids threaded through that array with negative values.

  Pointers. An entry of a client is a number (its address), and \<open>th_entries\<close> is the memory that holds the
  entries; callbacks and user data are numbers too, 0 being \<^verbatim>\<open>NULL\<close>. A pointer into the array
  \<^verbatim>\<open>timer_dups\<close> is the index it points to; index 0 is never handed out, so it stands for \<^verbatim>\<open>NULL\<close> in the
  heap array. A group lock is a number, and \<open>th_refs\<close> counts its references. The current time and the
  success of the allocations are arguments. The lock of the heap and the logging are left out; what
  other threads do between two calls is a sequence of operations.
\<close>

section \<open>Data\<close>

record pj_timer_entry =
  user_data :: nat
  te_id :: int
  te_cb :: nat
  timer_id :: int

record pj_timer_entry_dup =
  dup :: pj_timer_entry
  dup_entry :: nat
  timer_value :: pj_time_val
  dup_grp_lock :: "nat option"

record pj_timer_heap =
  th_max_size :: nat
  th_cur_size :: nat
  th_max_entries_per_poll :: nat
  th_heap :: "nat list"
  th_timer_ids :: "int list"
  th_timer_dups :: "pj_timer_entry_dup list"
  th_freelist :: int
  th_entries :: "nat \<Rightarrow> pj_timer_entry"
  th_refs :: "nat \<Rightarrow> int"

definition DEFAULT_MAX_TIMED_OUT_PER_POLL :: nat where
  "DEFAULT_MAX_TIMED_OUT_PER_POLL = 64"

definition HEAP_PARENT :: "nat \<Rightarrow> nat" where
  "HEAP_PARENT x = (if x = 0 then 0 else (x - 1) div 2)"

definition HEAP_LEFT :: "nat \<Rightarrow> nat" where
  "HEAP_LEFT x = (x + x) + 1"

text \<open>Reads through a pointer into \<^verbatim>\<open>timer_dups\<close>, and a write to an entry of a client.\<close>

abbreviation node_value :: "pj_timer_heap \<Rightarrow> nat \<Rightarrow> pj_time_val" where
  "node_value ht node \<equiv> timer_value (th_timer_dups ht ! node)"

abbreviation node_id :: "pj_timer_heap \<Rightarrow> nat \<Rightarrow> int" where
  "node_id ht node \<equiv> timer_id (dup (th_timer_dups ht ! node))"

definition upd_entry :: "nat \<Rightarrow> (pj_timer_entry \<Rightarrow> pj_timer_entry) \<Rightarrow> pj_timer_heap \<Rightarrow> pj_timer_heap" where
  "upd_entry e f ht = ht\<lparr>th_entries := (th_entries ht)(e := f (th_entries ht e))\<rparr>"

definition upd_node :: "nat \<Rightarrow> (pj_timer_entry_dup \<Rightarrow> pj_timer_entry_dup) \<Rightarrow> pj_timer_heap \<Rightarrow> pj_timer_heap" where
  "upd_node n f ht = ht\<lparr>th_timer_dups := (th_timer_dups ht)[n := f (th_timer_dups ht ! n)]\<rparr>"

section \<open>Slots and ids\<close>

definition copy_node :: "pj_timer_heap \<Rightarrow> nat \<Rightarrow> nat \<Rightarrow> pj_timer_heap" where
  "copy_node ht slot moved_node =
     ht\<lparr>th_heap := (th_heap ht)[slot := moved_node],
        th_timer_ids := (th_timer_ids ht)[nat (node_id ht moved_node) := int slot]\<rparr>"

definition pop_freelist :: "pj_timer_heap \<Rightarrow> int \<times> pj_timer_heap" where
  "pop_freelist ht =
     (th_freelist ht, ht\<lparr>th_freelist := - (th_timer_ids ht ! nat (th_freelist ht))\<rparr>)"

definition push_freelist :: "pj_timer_heap \<Rightarrow> int \<Rightarrow> pj_timer_heap" where
  "push_freelist ht old_id =
     ht\<lparr>th_timer_ids := (th_timer_ids ht)[nat old_id := - th_freelist ht], th_freelist := old_id\<rparr>"

section \<open>Restoring the heap\<close>

lemma copy_node_frame [simp]:
  "th_cur_size (copy_node ht s m) = th_cur_size ht" "th_timer_dups (copy_node ht s m) = th_timer_dups ht"
  "th_max_size (copy_node ht s m) = th_max_size ht"
  by (simp_all add: copy_node_def)

function reheap_down :: "pj_timer_heap \<Rightarrow> nat \<Rightarrow> nat \<Rightarrow> nat \<Rightarrow> pj_timer_heap" where
  "reheap_down ht moved_node slot child =
     (if child < th_cur_size ht then
        (let child = (if child + 1 < th_cur_size ht
                         \<and> PJ_TIME_VAL_LT (node_value ht (th_heap ht ! (child + 1))) (node_value ht (th_heap ht ! child))
                      then child + 1 else child)
         in if PJ_TIME_VAL_LT (node_value ht (th_heap ht ! child)) (node_value ht moved_node)
            then reheap_down (copy_node ht slot (th_heap ht ! child)) moved_node child (HEAP_LEFT child)
            else copy_node ht slot moved_node)
      else copy_node ht slot moved_node)"
  by pat_completeness auto
termination
  by (relation "measure (\<lambda>(ht, moved_node, slot, child). th_cur_size ht - child)")
    (auto simp: HEAP_LEFT_def Let_def)

text \<open>\<^verbatim>\<open>reheap_up\<close> is only ever called with the parent of the slot, which is what its loop keeps it at.\<close>

function reheap_up :: "pj_timer_heap \<Rightarrow> nat \<Rightarrow> nat \<Rightarrow> pj_timer_heap" where
  "reheap_up ht moved_node slot =
     (if slot > 0
         \<and> PJ_TIME_VAL_LT (node_value ht moved_node) (node_value ht (th_heap ht ! HEAP_PARENT slot))
      then reheap_up (copy_node ht slot (th_heap ht ! HEAP_PARENT slot)) moved_node (HEAP_PARENT slot)
      else copy_node ht slot moved_node)"
  by pat_completeness auto
termination
  by (relation "measure (\<lambda>(ht, moved_node, slot). slot)") (auto simp: HEAP_PARENT_def)

declare reheap_down.simps [simp del] reheap_up.simps [simp del]

section \<open>Insertion and removal\<close>

definition remove_node :: "pj_timer_heap \<Rightarrow> nat \<Rightarrow> pj_timer_heap \<times> nat" where
  "remove_node ht slot =
     (let removed_node = th_heap ht ! slot;
          ht = push_freelist ht (node_id ht removed_node);
          ht = ht\<lparr>th_cur_size := th_cur_size ht - 1\<rparr>;
          ht = upd_entry (dup_entry (th_timer_dups ht ! removed_node)) (\<lambda>e. e\<lparr>timer_id := -1\<rparr>) ht;
          ht = upd_node removed_node (\<lambda>d. d\<lparr>dup := (dup d)\<lparr>timer_id := -1\<rparr>\<rparr>) ht
      in if slot < th_cur_size ht then
           (let moved_node = th_heap ht ! th_cur_size ht;
                ht = copy_node ht slot moved_node;
                parent = HEAP_PARENT slot
            in if PJ_TIME_VAL_GTE (node_value ht moved_node) (node_value ht (th_heap ht ! parent))
               then (reheap_down ht moved_node slot (HEAP_LEFT slot), removed_node)
               else (reheap_up ht moved_node slot, removed_node))
         else (ht, removed_node))"

text \<open>
  The three allocations of \<^verbatim>\<open>grow_heap\<close> (heap array, copies, ids) succeed or fail; the memory of the new copies is
  not cleared, \<open>mem\<close> is what it holds.
\<close>

definition grow_heap :: "bool \<times> bool \<times> bool \<Rightarrow> pj_timer_entry_dup list \<Rightarrow> pj_timer_heap \<Rightarrow> pj_status \<times> pj_timer_heap" where
  "grow_heap alloc mem ht =
     (let (heap_ok, dups_ok, ids_ok) = alloc; new_size = th_max_size ht * 2
      in if \<not> heap_ok then (PJ_ENOMEM, ht)
         else if \<not> dups_ok then (PJ_ENOMEM, ht)
         else
           (let ht = ht\<lparr>th_timer_dups := take (th_max_size ht) (th_timer_dups ht) @ mem,
                        th_heap := take (th_cur_size ht) (th_heap ht) @ replicate (new_size - th_cur_size ht) 0\<rparr>
            in if \<not> ids_ok then (PJ_ENOMEM, ht)
               else (PJ_SUCCESS,
                     ht\<lparr>th_timer_ids := take (th_max_size ht) (th_timer_ids ht) @ map (\<lambda>i. - (int i + 1)) [th_max_size ht ..< new_size],
                        th_max_size := new_size\<rparr>)))"

definition insert_node ::
    "bool \<times> bool \<times> bool \<Rightarrow> pj_timer_entry_dup list \<Rightarrow> pj_timer_heap \<Rightarrow> nat \<Rightarrow> pj_time_val \<Rightarrow> pj_status \<times> pj_timer_heap" where
  "insert_node alloc mem ht new_node future_time =
     (let (status, ht) = (if th_cur_size ht + 2 \<ge> th_max_size ht then grow_heap alloc mem ht else (PJ_SUCCESS, ht))
      in if status \<noteq> PJ_SUCCESS then (status, ht)
         else
           (let timer_copy = nat (timer_id (th_entries ht new_node));
                ht = ht\<lparr>th_timer_dups := (th_timer_dups ht)[timer_copy :=
                       \<lparr>dup = th_entries ht new_node, dup_entry = new_node, timer_value = future_time,
                        dup_grp_lock = None\<rparr>]\<rparr>;
                ht = reheap_up ht timer_copy (th_cur_size ht)
            in (PJ_SUCCESS, ht\<lparr>th_cur_size := th_cur_size ht + 1\<rparr>)))"

definition schedule_entry ::
    "bool \<times> bool \<times> bool \<Rightarrow> pj_timer_entry_dup list \<Rightarrow> pj_timer_heap \<Rightarrow> nat \<Rightarrow> pj_time_val \<Rightarrow> pj_status \<times> pj_timer_heap" where
  "schedule_entry alloc mem ht entry future_time =
     (if th_cur_size ht < th_max_size ht then
        (let (new_id, ht) = pop_freelist ht;
             ht = upd_entry entry (\<lambda>e. e\<lparr>timer_id := new_id\<rparr>) ht
         in insert_node alloc mem ht entry future_time)
      else (PJ_OTHER (-1), ht))"

text \<open>
  \<^verbatim>\<open>cancel\<close> without its call of the heap's close hook: its only caller, \<^verbatim>\<open>cancel_timer\<close>, always passes
  \<^verbatim>\<open>F_DONT_CALL\<close>.
\<close>

definition cancel :: "pj_timer_heap \<Rightarrow> nat \<Rightarrow> pj_timer_heap \<times> int" where
  "cancel ht entry =
     (let reset_id = (\<lambda>ht. upd_entry entry (\<lambda>e. e\<lparr>timer_id := -1\<rparr>) ht); tid = timer_id (th_entries ht entry)
      in if tid < 1 \<or> int (th_max_size ht) \<le> tid then (reset_id ht, 0)
         else
           (let timer_node_slot = th_timer_ids ht ! nat tid
            in if timer_node_slot < 0 then (reset_id ht, 0)
               else if entry \<noteq> dup_entry (th_timer_dups ht ! (th_heap ht ! nat timer_node_slot)) then (reset_id ht, 0)
               else (fst (remove_node ht (nat timer_node_slot)), 1)))"

section \<open>The operations\<close>

definition pj_timer_heap_create :: "pj_timer_entry_dup list \<Rightarrow> (nat \<Rightarrow> pj_timer_entry) \<Rightarrow> (nat \<Rightarrow> int) \<Rightarrow> nat \<Rightarrow> pj_timer_heap" where
  "pj_timer_heap_create mem entries refs size0 =
     (let size = size0 + 2
      in \<lparr>th_max_size = size, th_cur_size = 0, th_max_entries_per_poll = DEFAULT_MAX_TIMED_OUT_PER_POLL,
          th_heap = replicate size 0, th_timer_ids = map (\<lambda>i. - (int i + 1)) [0 ..< size],
          th_timer_dups = mem, th_freelist = 1, th_entries = entries, th_refs = refs\<rparr>)"

definition pj_timer_heap_set_max_timed_out_per_poll :: "pj_timer_heap \<Rightarrow> nat \<Rightarrow> pj_timer_heap \<times> nat" where
  "pj_timer_heap_set_max_timed_out_per_poll ht cnt =
     (ht\<lparr>th_max_entries_per_poll := cnt\<rparr>, th_max_entries_per_poll ht)"

definition pj_timer_entry_init :: "pj_timer_entry \<Rightarrow> int \<Rightarrow> nat \<Rightarrow> nat \<Rightarrow> pj_timer_entry" where
  "pj_timer_entry_init entry i data cb =
     entry\<lparr>timer_id := -1, te_id := i, user_data := data, te_cb := cb\<rparr>"

definition pj_timer_entry_running :: "pj_timer_entry \<Rightarrow> bool" where
  "pj_timer_entry_running entry \<longleftrightarrow> timer_id entry \<ge> 1"

definition schedule_w_grp_lock ::
    "bool \<times> bool \<times> bool \<Rightarrow> pj_timer_entry_dup list \<Rightarrow> pj_time_val \<Rightarrow> pj_timer_heap \<Rightarrow> nat \<Rightarrow> pj_time_val
      \<Rightarrow> int option \<Rightarrow> nat option \<Rightarrow> pj_status \<times> pj_timer_heap" where
  "schedule_w_grp_lock alloc mem now ht entry delay set_id grp_lock =
     (if te_cb (th_entries ht entry) = 0 then (PJ_EINVAL, ht)
      else
        (let expires = PJ_TIME_VAL_ADD now delay
         in if pj_timer_entry_running (th_entries ht entry) then (PJ_EINVALIDOP, ht)
            else
              (let (status, ht) = schedule_entry alloc mem ht entry expires
               in if status = PJ_SUCCESS then
                    (let timer_copy = nat (timer_id (th_entries ht entry));
                         ht = (case set_id of
                                 None \<Rightarrow> ht
                               | Some id_val \<Rightarrow>
                                   upd_node timer_copy (\<lambda>d. d\<lparr>dup := (dup d)\<lparr>te_id := id_val\<rparr>\<rparr>)
                                     (upd_entry entry (\<lambda>e. e\<lparr>te_id := id_val\<rparr>) ht));
                         ht = upd_node timer_copy (\<lambda>d. d\<lparr>dup_grp_lock := grp_lock\<rparr>) ht
                     in (status,
                         case grp_lock of
                           None \<Rightarrow> ht
                         | Some g \<Rightarrow> ht\<lparr>th_refs := (th_refs ht)(g := th_refs ht g + 1)\<rparr>))
                  else (status, ht))))"

definition pj_timer_heap_schedule ::
    "bool \<times> bool \<times> bool \<Rightarrow> pj_timer_entry_dup list \<Rightarrow> pj_time_val \<Rightarrow> pj_timer_heap \<Rightarrow> nat \<Rightarrow> pj_time_val
      \<Rightarrow> pj_status \<times> pj_timer_heap" where
  "pj_timer_heap_schedule alloc mem now ht entry delay = schedule_w_grp_lock alloc mem now ht entry delay None None"

definition pj_timer_heap_schedule_w_grp_lock ::
    "bool \<times> bool \<times> bool \<Rightarrow> pj_timer_entry_dup list \<Rightarrow> pj_time_val \<Rightarrow> pj_timer_heap \<Rightarrow> nat \<Rightarrow> pj_time_val
      \<Rightarrow> int \<Rightarrow> nat option \<Rightarrow> pj_status \<times> pj_timer_heap" where
  "pj_timer_heap_schedule_w_grp_lock alloc mem now ht entry delay id_val grp_lock =
     schedule_w_grp_lock alloc mem now ht entry delay (Some id_val) grp_lock"

text \<open>
  \<^verbatim>\<open>cancel_timer\<close> reads the group lock of the copy before \<^verbatim>\<open>cancel\<close> checks the id: for an entry that is not
  scheduled that read is outside the array (\<open>cancel_reads_outside\<close>). The value is used only when the
  entry was found; a read outside is \<open>None\<close> here.
\<close>

definition cancel_reads_outside :: "pj_timer_heap \<Rightarrow> nat \<Rightarrow> bool" where
  "cancel_reads_outside ht entry \<longleftrightarrow>
     \<not> (0 \<le> timer_id (th_entries ht entry) \<and> timer_id (th_entries ht entry) < int (length (th_timer_dups ht)))"

definition cancel_timer :: "pj_timer_heap \<Rightarrow> nat \<Rightarrow> int option \<Rightarrow> pj_timer_heap \<times> int" where
  "cancel_timer ht entry set_id =
     (let grp_lock = (if cancel_reads_outside ht entry then None
                      else dup_grp_lock (th_timer_dups ht ! nat (timer_id (th_entries ht entry))));
          (ht, n) = cancel ht entry
      in if n > 0 then
           (let ht = (case set_id of None \<Rightarrow> ht | Some id_val \<Rightarrow> upd_entry entry (\<lambda>e. e\<lparr>te_id := id_val\<rparr>) ht);
                ht = (case grp_lock of None \<Rightarrow> ht | Some g \<Rightarrow> ht\<lparr>th_refs := (th_refs ht)(g := th_refs ht g - 1)\<rparr>)
            in (ht, n))
         else (ht, n))"

definition pj_timer_heap_cancel :: "pj_timer_heap \<Rightarrow> nat \<Rightarrow> pj_timer_heap \<times> int" where
  "pj_timer_heap_cancel ht entry = cancel_timer ht entry None"

definition pj_timer_heap_cancel_if_active :: "pj_timer_heap \<Rightarrow> nat \<Rightarrow> int \<Rightarrow> pj_timer_heap \<times> int" where
  "pj_timer_heap_cancel_if_active ht entry id_val = cancel_timer ht entry (Some id_val)"

text \<open>
  \<^verbatim>\<open>pj_timer_heap_poll\<close>. The callbacks are client code that may itself schedule and cancel timers: the
  argument \<open>cb\<close> says what the callback at an address does with the heap when called for an entry. One
  round of the loop is \<open>poll_round\<close>; the loop is over when the heap is empty, its first timer is not due,
  or enough timers fired, a limit that is read again after every callback. \<open>None\<close>: the loop never ends.
\<close>

definition poll_round :: "(nat \<Rightarrow> nat \<Rightarrow> pj_timer_heap \<Rightarrow> pj_timer_heap) \<Rightarrow> pj_timer_heap \<Rightarrow> pj_timer_heap \<times> nat" where
  "poll_round cb ht =
     (let (ht, node) = remove_node ht 0;
          d = th_timer_dups ht ! node;
          entry = dup_entry d;
          grp_lock = dup_grp_lock d;
          ht = upd_node node (\<lambda>d. d\<lparr>dup_grp_lock := None\<rparr>) ht;
          e = th_entries ht entry;
          valid = (te_cb (dup d) = te_cb e \<and> user_data (dup d) = user_data e);
          ht = (if valid \<and> te_cb e \<noteq> 0 then cb (te_cb e) entry ht else ht)
      in (case grp_lock of
            Some g \<Rightarrow> if valid then ht\<lparr>th_refs := (th_refs ht)(g := th_refs ht g - 1)\<rparr> else ht
          | None \<Rightarrow> ht, entry))"

partial_function (option) poll_loop ::
    "(nat \<Rightarrow> nat \<Rightarrow> pj_timer_heap \<Rightarrow> pj_timer_heap) \<Rightarrow> pj_time_val \<Rightarrow> nat \<Rightarrow> nat list \<Rightarrow> pj_timer_heap
      \<Rightarrow> (pj_timer_heap \<times> nat list) option" where
  "poll_loop cb now cnt fired ht =
     (if th_cur_size ht \<noteq> 0 \<and> PJ_TIME_VAL_LTE (node_value ht (th_heap ht ! 0)) now
         \<and> cnt < th_max_entries_per_poll ht
      then (let (ht', entry) = poll_round cb ht in poll_loop cb now (cnt + 1) (fired @ [entry]) ht')
      else Some (ht, fired))"

declare poll_loop.simps [code]

definition PJ_MAXINT32 :: int where
  "PJ_MAXINT32 = 0x7FFFFFFF"

definition next_delay_of :: "pj_time_val \<Rightarrow> pj_timer_heap \<Rightarrow> pj_time_val" where
  "next_delay_of now ht =
     (if th_cur_size ht \<noteq> 0 then
        (let d = PJ_TIME_VAL_SUB (node_value ht (th_heap ht ! 0)) now
         in if tv_sec d < 0 \<or> tv_msec d < 0 then Time_Val 0 0 else d)
      else Time_Val PJ_MAXINT32 PJ_MAXINT32)"

text \<open>The heap after the poll, the entries that fired, in order, and the delay to the next one.\<close>

definition pj_timer_heap_poll ::
    "(nat \<Rightarrow> nat \<Rightarrow> pj_timer_heap \<Rightarrow> pj_timer_heap) \<Rightarrow> pj_time_val \<Rightarrow> pj_timer_heap
      \<Rightarrow> (pj_timer_heap \<times> nat list \<times> pj_time_val) option" where
  "pj_timer_heap_poll cb now ht =
     map_option (\<lambda>(ht, fired). (ht, fired, next_delay_of now ht)) (poll_loop cb now 0 [] ht)"

definition pj_timer_heap_count :: "pj_timer_heap \<Rightarrow> nat" where
  "pj_timer_heap_count ht = th_cur_size ht"

definition pj_timer_heap_earliest_time :: "pj_timer_heap \<Rightarrow> pj_status + pj_time_val" where
  "pj_timer_heap_earliest_time ht =
     (if th_cur_size ht = 0 then Inl PJ_ENOTFOUND else Inr (node_value ht (th_heap ht ! 0)))"

end
