(* ===== verification/Timer_Heap_Inv.thy ===== *)
theory Timer_Heap_Inv
  imports Timer_Heap
begin

text \<open>
  The invariant of the timer heap and the removal of a node: the heap order and how the two reheap
  loops restore it, the array that leads from a timer id back to its slot, the free list of ids, and
  the multiset \<open>active\<close> of running timers, which is what the operations are specified on.
\<close>

section \<open>Heap order\<close>

text \<open>
  \<open>heap_on n k h\<close>: the first \<open>n\<close> slots of \<open>h\<close> are a heap for the key \<open>k\<close>. The two weaker forms are the loop
  invariants: the element at slot \<open>s\<close> may be smaller than its parent, or greater than its children.
\<close>

definition heap_on :: "nat \<Rightarrow> (nat \<Rightarrow> pj_time_val) \<Rightarrow> nat list \<Rightarrow> bool" where
  "heap_on n k h \<longleftrightarrow> (\<forall>i < n. 0 < i \<longrightarrow> k (h ! HEAP_PARENT i) \<le> k (h ! i))"

definition heap_but_up :: "nat \<Rightarrow> (nat \<Rightarrow> pj_time_val) \<Rightarrow> nat list \<Rightarrow> nat \<Rightarrow> bool" where
  "heap_but_up n k h s \<longleftrightarrow>
     (\<forall>i < n. 0 < i \<and> i \<noteq> s \<longrightarrow> k (h ! HEAP_PARENT i) \<le> k (h ! i))
     \<and> (\<forall>i < n. 0 < i \<and> HEAP_PARENT i = s \<and> 0 < s \<longrightarrow> k (h ! HEAP_PARENT s) \<le> k (h ! i))"

definition heap_but_down :: "nat \<Rightarrow> (nat \<Rightarrow> pj_time_val) \<Rightarrow> nat list \<Rightarrow> nat \<Rightarrow> bool" where
  "heap_but_down n k h s \<longleftrightarrow>
     (\<forall>i < n. 0 < i \<and> HEAP_PARENT i \<noteq> s \<longrightarrow> k (h ! HEAP_PARENT i) \<le> k (h ! i))
     \<and> (\<forall>i < n. 0 < i \<and> HEAP_PARENT i = s \<and> 0 < s \<longrightarrow> k (h ! HEAP_PARENT s) \<le> k (h ! i))"

lemma HEAP_PARENT_less: "0 < i \<Longrightarrow> HEAP_PARENT i < i"
  by (simp add: HEAP_PARENT_def)

lemma HEAP_PARENT_cases: "0 < i \<Longrightarrow> HEAP_PARENT i = s \<longleftrightarrow> i = HEAP_LEFT s \<or> i = HEAP_LEFT s + 1"
  unfolding HEAP_PARENT_def HEAP_LEFT_def by (cases i) (simp, simp, presburger)

text \<open>The root of a heap is its least element.\<close>

lemma heap_on_root:
  assumes "heap_on n k h" and "i < n"
  shows "k (h ! 0) \<le> k (h ! i)"
  using assms(2)
proof (induction i rule: less_induct)
  case (less i)
  show ?case
  proof (cases "i = 0")
    case False
    then have "k (h ! 0) \<le> k (h ! HEAP_PARENT i)"
      using less.IH [of "HEAP_PARENT i"] less.prems HEAP_PARENT_less [of i] by simp
    also have "\<dots> \<le> k (h ! i)" using assms(1) False less.prems by (simp add: heap_on_def)
    finally show ?thesis .
  qed simp
qed

lemma heap_but_up_done:
  assumes "heap_but_up n k h s" and "s = 0 \<or> k (h ! HEAP_PARENT s) \<le> k (h ! s)"
  shows "heap_on n k h"
  using assms by (auto simp: heap_but_up_def heap_on_def)

lemma heap_but_down_done:
  assumes "heap_but_down n k h s"
    and "\<And>i. i < n \<Longrightarrow> 0 < i \<Longrightarrow> HEAP_PARENT i = s \<Longrightarrow> k (h ! s) \<le> k (h ! i)"
  shows "heap_on n k h"
  using assms by (auto simp: heap_but_down_def heap_on_def)

abbreviation swap_slots :: "nat list \<Rightarrow> nat \<Rightarrow> nat \<Rightarrow> nat list" where
  "swap_slots h a b \<equiv> h[a := h ! b, b := h ! a]"

lemma heap_up_step:
  assumes up: "heap_but_up n k h s" and s: "0 < s" "s < n" "n \<le> length h"
    and less: "k (h ! s) < k (h ! HEAP_PARENT s)"
  shows "heap_but_up n k (swap_slots h s (HEAP_PARENT s)) (HEAP_PARENT s)"
proof -
  let ?p = "HEAP_PARENT s" and ?h = "swap_slots h s (HEAP_PARENT s)"
  have p: "?p < s" by (rule HEAP_PARENT_less [OF s(1)])
  have nth: "?h ! i = (if i = s then h ! ?p else if i = ?p then h ! s else h ! i)" if "i < n" for i
    using that p s by (simp add: nth_list_update)
  have par: "HEAP_PARENT i < n" if "i < n" for i
    using that HEAP_PARENT_less [of i] by (cases "i = 0") (simp_all add: HEAP_PARENT_def)
  note u1 = up [unfolded heap_but_up_def, THEN conjunct1, rule_format]
  note u2 = up [unfolded heap_but_up_def, THEN conjunct2, rule_format]
  show ?thesis unfolding heap_but_up_def
  proof (intro conjI allI impI; elim conjE)
    fix i assume i: "i < n" "0 < i" "i \<noteq> ?p"
    show "k (?h ! HEAP_PARENT i) \<le> k (?h ! i)"
    proof (cases "i = s")
      case True
      then show ?thesis using nth [OF i(1)] nth [OF par [OF i(1)]] p less by simp
    next
      case False
      have "k (h ! HEAP_PARENT i) \<le> k (h ! i)" using u1 i False by blast
      moreover have "HEAP_PARENT i = s \<Longrightarrow> k (h ! ?p) \<le> k (h ! i)" using u2 i s by blast
      ultimately show ?thesis
        using nth [OF i(1)] nth [OF par [OF i(1)]] False i(3) less by (auto intro: order_trans less_imp_le)
    qed
  next
    fix i assume i: "i < n" "0 < i" "HEAP_PARENT i = ?p" "0 < ?p"
    have pn: "?p < n" using p s by simp
    have gp: "HEAP_PARENT ?p < ?p" by (rule HEAP_PARENT_less [OF i(4)])
    have "k (h ! HEAP_PARENT ?p) \<le> k (h ! ?p)" using u1 [OF pn] i(4) p by simp
    moreover have "k (h ! ?p) \<le> k (h ! i)" if "i \<noteq> s" using u1 [of i] i that by simp
    moreover have "i \<noteq> ?p" using HEAP_PARENT_less [OF i(2)] i(3) by simp
    ultimately show "k (?h ! HEAP_PARENT ?p) \<le> k (?h ! i)"
      using nth [OF i(1)] nth [OF par [OF pn]] gp p by (auto intro: order_trans)
  qed
qed

lemma heap_down_step:
  assumes down: "heap_but_down n k h s" and c: "c < n" "0 < c" "HEAP_PARENT c = s" "n \<le> length h"
    and less: "k (h ! c) < k (h ! s)"
    and least: "\<And>i. i < n \<Longrightarrow> 0 < i \<Longrightarrow> HEAP_PARENT i = s \<Longrightarrow> k (h ! c) \<le> k (h ! i)"
  shows "heap_but_down n k (swap_slots h s c) c"
proof -
  let ?h = "swap_slots h s c"
  have s: "s < c" using HEAP_PARENT_less [OF c(2)] c(3) by simp
  have nth: "?h ! i = (if i = c then h ! s else if i = s then h ! c else h ! i)" if "i < n" for i
    using that s c by (simp add: nth_list_update)
  have par: "HEAP_PARENT i < n" if "i < n" for i
    using that HEAP_PARENT_less [of i] by (cases "i = 0") (simp_all add: HEAP_PARENT_def)
  note d1 = down [unfolded heap_but_down_def, THEN conjunct1, rule_format]
  note d2 = down [unfolded heap_but_down_def, THEN conjunct2, rule_format]
  show ?thesis unfolding heap_but_down_def
  proof (intro conjI allI impI; elim conjE)
    fix i assume i: "i < n" "0 < i" "HEAP_PARENT i \<noteq> c"
    show "k (?h ! HEAP_PARENT i) \<le> k (?h ! i)"
    proof (cases "HEAP_PARENT i = s")
      case True
      then have "i \<noteq> s" using HEAP_PARENT_less [OF i(2)] by simp
      then show ?thesis
        using nth [OF i(1)] nth [OF par [OF i(1)]] True s less least [OF i(1,2) True] by auto
    next
      case False
      have "k (h ! HEAP_PARENT i) \<le> k (h ! i)" using d1 i False by blast
      moreover have "i = s \<Longrightarrow> k (h ! HEAP_PARENT s) \<le> k (h ! c)" using d2 [of c] c i(2) by blast
      ultimately show ?thesis
        using nth [OF i(1)] nth [OF par [OF i(1)]] False i(3) c(3) by auto
    qed
  next
    fix i assume i: "i < n" "0 < i" "HEAP_PARENT i = c" "0 < c"
    have "k (h ! c) \<le> k (h ! i)" using d1 [of i] i s by simp
    moreover have "c < i" using HEAP_PARENT_less [OF i(2)] i(3) by simp
    ultimately show "k (?h ! HEAP_PARENT c) \<le> k (?h ! i)"
      using nth [OF i(1)] nth [OF par [OF c(1)]] s c(3) by simp
  qed
qed


section \<open>The index array\<close>

text \<open>
  \<open>slots_ok n h ids dups\<close>: the first \<open>n\<close> slots hold different nodes, each carries its own index as id, and
  the id array leads from it back to its slot, but possibly for the node at slot \<open>s\<close>, which is on its way.
\<close>

definition nodes_ok :: "nat \<Rightarrow> nat list \<Rightarrow> nat \<Rightarrow> pj_timer_entry_dup list \<Rightarrow> bool" where
  "nodes_ok n h m dups \<longleftrightarrow> distinct (take n h) \<and> n \<le> length h
     \<and> (\<forall>i < n. h ! i < m \<and> timer_id (dup (dups ! (h ! i))) = int (h ! i))"

definition back_ok :: "nat \<Rightarrow> nat list \<Rightarrow> int list \<Rightarrow> nat option \<Rightarrow> bool" where
  "back_ok n h ids s \<longleftrightarrow> (\<forall>i < n. Some i \<noteq> s \<longrightarrow> ids ! (h ! i) = int i)"

lemma nodes_ok_inj: "nodes_ok n h m dups \<Longrightarrow> i < n \<Longrightarrow> j < n \<Longrightarrow> h ! i = h ! j \<longleftrightarrow> i = j"
  unfolding nodes_ok_def by (metis length_take min.absorb2 nth_eq_iff_index_eq nth_take)

lemma swap_slots_same: "a < length h \<Longrightarrow> swap_slots h a a = h"
  by simp

lemma mset_take_swap:
  assumes "a < n" "b < n" "n \<le> length h"
  shows "mset (take n (swap_slots h a b)) = mset (take n h)"
proof -
  have "take n (swap_slots h a b) = swap_slots (take n h) a b"
    using assms by (simp add: take_update_swap)
  then show ?thesis using assms mset_swap [of b "take n h" a] by simp
qed

lemma nodes_ok_swap:
  assumes ok: "nodes_ok n h m dups" and "a < n" "b < n"
  shows "nodes_ok n (swap_slots h a b) m dups"
proof -
  have n: "n \<le> length h" using ok by (simp add: nodes_ok_def)
  have "distinct (take n (swap_slots h a b))"
    using ok mset_take_swap [OF assms(2,3) n] unfolding nodes_ok_def by (metis mset_eq_imp_distinct_iff)
  moreover have "swap_slots h a b ! i < m
      \<and> timer_id (dup (dups ! (swap_slots h a b ! i))) = int (swap_slots h a b ! i)" if "i < n" for i
    using that assms n by (simp add: nodes_ok_def nth_list_update)
  ultimately show ?thesis using n by (simp add: nodes_ok_def)
qed

text \<open>
  One step of either loop. The heap array with the moved node put in its slot, \<open>V\<close>, is what the invariant speaks
  of: copying the node of slot \<open>q\<close> into slot \<open>s\<close> swaps the two in \<open>V\<close>.
\<close>

lemma swap_step:
  assumes nodes: "nodes_ok n V m dups" and bk: "back_ok n V ids (Some s)"
    and s: "s < n" "q < n" "s \<noteq> q" and V: "V = h[s := x]" "n \<le> length h" and ids: "length ids = m"
  defines "h' \<equiv> h[s := h ! q]" and "ids' \<equiv> ids[h ! q := int s]"
  shows "h'[q := x] = swap_slots V s q" "nodes_ok n (h'[q := x]) m dups" "back_ok n (h'[q := x]) ids' (Some q)"
    "mset (take n (h'[q := x])) = mset (take n V)" "\<And>y. y \<notin> set (take n V) \<Longrightarrow> ids' ! y = ids ! y"
proof -
  have n: "n \<le> length V" using V by simp
  have Vq: "V ! q = h ! q" "V ! s = x" using V s by simp_all
  show eq: "h'[q := x] = swap_slots V s q"
    using s V Vq by (simp add: h'_def list_update_swap)
  show "nodes_ok n (h'[q := x]) m dups" unfolding eq by (rule nodes_ok_swap [OF nodes s(1,2)])
  show "mset (take n (h'[q := x])) = mset (take n V)" unfolding eq by (rule mset_take_swap [OF s(1,2) n])
  have m: "h ! q < m" using nodes s(2) Vq by (auto simp: nodes_ok_def)
  show "back_ok n (h'[q := x]) ids' (Some q)"
    unfolding back_ok_def eq
  proof (intro allI impI)
    fix i assume i: "i < n" "Some i \<noteq> Some q"
    show "ids' ! (swap_slots V s q ! i) = int i"
    proof (cases "i = s")
      case True
      then show ?thesis using s n m Vq ids by (simp add: ids'_def nth_list_update)
    next
      case False
      then have "V ! i \<noteq> V ! q" using nodes_ok_inj [OF nodes i(1) s(2)] i(2) by simp
      then show ?thesis using False i bk s Vq n by (simp add: ids'_def back_ok_def nth_list_update)
    qed
  qed
  have "h ! q \<in> set (take n V)" using Vq s(2) n by (metis in_set_conv_nth length_take min.absorb2 nth_take)
  then show "\<And>y. y \<notin> set (take n V) \<Longrightarrow> ids' ! y = ids ! y" unfolding ids'_def by (metis nth_list_update_neq)
qed

text \<open>The end of the loop: the node is stored and its id points to it.\<close>

lemma final_copy:
  assumes nodes: "nodes_ok n V m dups" and bk: "back_ok n V ids (Some s)"
    and s: "s < n" and V: "V = h[s := x]" "n \<le> length h" and ids: "length ids = m"
  shows "back_ok n V (ids[x := int s]) None" "\<And>y. y \<notin> set (take n V) \<Longrightarrow> ids[x := int s] ! y = ids ! y" "x < m"
proof -
  have n: "n \<le> length V" and x: "V ! s = x" using V s by simp_all
  show m: "x < m" using nodes s x by (auto simp: nodes_ok_def)
  show "back_ok n V (ids[x := int s]) None"
    unfolding back_ok_def
  proof (intro allI impI)
    fix i assume i: "i < n"
    show "ids[x := int s] ! (V ! i) = int i"
    proof (cases "i = s")
      case True then show ?thesis using x m ids by simp
    next
      case False
      then have "V ! i \<noteq> x" using nodes_ok_inj [OF nodes i s] x by simp
      then show ?thesis using False i bk by (simp add: back_ok_def)
    qed
  qed
  have "x \<in> set (take n V)" using x s n by (metis in_set_conv_nth length_take min.absorb2 nth_take)
  then show "\<And>y. y \<notin> set (take n V) \<Longrightarrow> ids[x := int s] ! y = ids ! y" by (metis nth_list_update_neq)
qed

text \<open>What a finished reheap has done.\<close>

definition reheaped :: "nat \<Rightarrow> pj_timer_heap \<Rightarrow> nat list \<Rightarrow> pj_timer_heap \<Rightarrow> bool" where
  "reheaped n ht V ht' \<longleftrightarrow>
     (\<exists>h' ids'. ht' = ht\<lparr>th_heap := h', th_timer_ids := ids'\<rparr>
        \<and> length h' = length (th_heap ht) \<and> length ids' = length (th_timer_ids ht)
        \<and> mset (take n h') = mset (take n V) \<and> nodes_ok n h' (length ids') (th_timer_dups ht)
        \<and> back_ok n h' ids' None \<and> heap_on n (\<lambda>x. timer_value (th_timer_dups ht ! x)) h'
        \<and> (\<forall>y. y \<notin> set (take n V) \<longrightarrow> ids' ! y = th_timer_ids ht ! y))"

lemma reheaped_step:
  assumes "reheaped n (copy_node ht s y) V' r" and "length (th_timer_ids (copy_node ht s y)) = length (th_timer_ids ht)"
    and "mset (take n V') = mset (take n V)"
    and "\<And>z. z \<notin> set (take n V) \<Longrightarrow> th_timer_ids (copy_node ht s y) ! z = th_timer_ids ht ! z"
  shows "reheaped n ht V r"
proof -
  obtain h' ids' where r: "r = (copy_node ht s y)\<lparr>th_heap := h', th_timer_ids := ids'\<rparr>"
    "length h' = length (th_heap (copy_node ht s y))" "length ids' = length (th_timer_ids (copy_node ht s y))"
    "mset (take n h') = mset (take n V')" "nodes_ok n h' (length ids') (th_timer_dups ht)"
    "back_ok n h' ids' None" "heap_on n (\<lambda>x. timer_value (th_timer_dups ht ! x)) h'"
    "\<And>z. z \<notin> set (take n V') \<Longrightarrow> ids' ! z = th_timer_ids (copy_node ht s y) ! z"
    using assms(1) unfolding reheaped_def copy_node_frame by blast
  have "set (take n V') = set (take n V)" using assms(3) by (rule mset_eq_setD)
  then have "\<forall>z. z \<notin> set (take n V) \<longrightarrow> ids' ! z = th_timer_ids ht ! z" using r(8) assms(4) by simp
  moreover have "r = ht\<lparr>th_heap := h', th_timer_ids := ids'\<rparr>" "length h' = length (th_heap ht)"
    using r(1,2) by (simp_all add: copy_node_def)
  ultimately show ?thesis using r(3-7) assms(2,3) unfolding reheaped_def
    by (intro exI [of _ h'] exI [of _ ids']) simp
qed

lemma reheaped_final:
  assumes "V = (th_heap ht)[slot := x]" and "slot < n" "n \<le> length (th_heap ht)"
    and "nodes_ok n V (length (th_timer_ids ht)) (th_timer_dups ht)"
    and "back_ok n V (th_timer_ids ht) (Some slot)"
    and "heap_on n (\<lambda>x. timer_value (th_timer_dups ht ! x)) V"
  shows "reheaped n ht V (copy_node ht slot x)"
proof -
  have "V ! slot = x" using assms(1-3) by simp
  then have "node_id ht x = int x" using assms(2,4) unfolding nodes_ok_def by metis
  then have "copy_node ht slot x = ht\<lparr>th_heap := V, th_timer_ids := (th_timer_ids ht)[x := int slot]\<rparr>"
    by (simp add: copy_node_def assms(1))
  moreover note final_copy [OF assms(4,5,2,1,3) refl]
  moreover have "length V = length (th_heap ht)" using assms(1) by simp
  ultimately show ?thesis using assms(4,6) unfolding reheaped_def
    by (intro exI [of _ V] exI [of _ "(th_timer_ids ht)[x := int slot]"]) simp
qed

lemma reheap_up_spec:
  assumes "V = (th_heap ht)[slot := x]" and "slot < n" "n \<le> length (th_heap ht)"
    and "nodes_ok n V (length (th_timer_ids ht)) (th_timer_dups ht)"
    and "back_ok n V (th_timer_ids ht) (Some slot)"
    and "heap_but_up n (\<lambda>x. timer_value (th_timer_dups ht ! x)) V slot"
  shows "reheaped n ht V (reheap_up ht x slot)"
  using assms
proof (induction ht x slot arbitrary: V rule: reheap_up.induct)
  case (1 ht x slot)
  let ?h = "th_heap ht" and ?ids = "th_timer_ids ht" and ?p = "HEAP_PARENT slot" and ?dups = "th_timer_dups ht"
  note prems = "1.prems"
  have Vs: "V ! slot = x" using prems(1-3) by simp
  show ?case
  proof (cases "slot > 0 \<and> node_value ht x < node_value ht (?h ! ?p)")
    case True
    then have p: "?p < slot" using HEAP_PARENT_less by blast
    then have Vp: "V ! ?p = ?h ! ?p" "?p < n" using prems(1,2) by simp_all
    have "node_id ht (V ! ?p) = int (V ! ?p)" using prems(4) Vp(2) by (simp add: nodes_ok_def)
    then have g: "th_heap (copy_node ht slot (?h ! ?p)) = ?h[slot := ?h ! ?p]"
      "th_timer_ids (copy_node ht slot (?h ! ?p)) = ?ids[?h ! ?p := int slot]"
      using Vp(1) by (simp_all add: copy_node_def)
    note st = swap_step [OF prems(4,5,2) Vp(2) less_imp_neq [OF p, symmetric] prems(1,3) refl]
    have up: "heap_but_up n (\<lambda>x. timer_value (?dups ! x)) (swap_slots V slot ?p) ?p"
      by (rule heap_up_step [OF prems(6)]) (use True prems(1-3) Vp Vs in simp_all)
    have "reheaped n (copy_node ht slot (?h ! ?p)) (?h[slot := ?h ! ?p, ?p := x])
        (reheap_up (copy_node ht slot (?h ! ?p)) x ?p)"
    proof (rule "1.IH")
      show "0 < slot \<and> PJ_TIME_VAL_LT (node_value ht x) (node_value ht (?h ! ?p))" using True by simp
      show "heap_but_up n (\<lambda>x. timer_value (th_timer_dups (copy_node ht slot (?h ! ?p)) ! x)) (?h[slot := ?h ! ?p, ?p := x]) ?p"
        using up unfolding st(1) by simp
    qed (use Vp(2) prems(3) st(2,3) g in simp_all)
    then have "reheaped n ht V (reheap_up (copy_node ht slot (?h ! ?p)) x ?p)"
      by (rule reheaped_step) (use st(4,5) g in simp_all)
    then show ?thesis using True by (subst reheap_up.simps) simp
  next
    case False
    have "slot = 0 \<or> V ! HEAP_PARENT slot = ?h ! ?p" using HEAP_PARENT_less [of slot] prems(1) by (cases "slot = 0") simp_all
    then have "heap_on n (\<lambda>x. timer_value (?dups ! x)) V"
      using heap_but_up_done [OF prems(6)] False Vs by (simp add: not_less) fastforce
    from reheaped_final [OF prems(1-5) this] show ?thesis
      using False by (subst reheap_up.simps) auto
  qed
qed

lemma reheap_down_spec:
  assumes "V = (th_heap ht)[slot := x]" and "slot < n" "n \<le> length (th_heap ht)"
    and "nodes_ok n V (length (th_timer_ids ht)) (th_timer_dups ht)"
    and "back_ok n V (th_timer_ids ht) (Some slot)"
    and "heap_but_down n (\<lambda>x. timer_value (th_timer_dups ht ! x)) V slot"
    and "n = th_cur_size ht" and "child = HEAP_LEFT slot"
  shows "reheaped n ht V (reheap_down ht x slot child)"
  using assms
proof (induction ht x slot child arbitrary: V rule: reheap_down.induct)
  case (1 ht x slot child)
  let ?h = "th_heap ht" and ?ids = "th_timer_ids ht" and ?dups = "th_timer_dups ht"
  let ?k = "\<lambda>x. timer_value (?dups ! x)"
  note prems = "1.prems"
  have Vs: "V ! slot = x" using prems(1-3) by simp
  show ?case
  proof (cases "child < n")
    case False
    have "heap_on n ?k V"
      by (rule heap_but_down_done [OF prems(6)]) (use False prems(8) in \<open>auto simp: HEAP_PARENT_cases\<close>)
    from reheaped_final [OF prems(1-5) this] show ?thesis
      using False prems(7) by (subst reheap_down.simps) simp
  next
    case True
    define c where "c = (if child + 1 < n \<and> ?k (?h ! (child + 1)) < ?k (?h ! child) then child + 1 else child)"
    have c: "c < n" "0 < c" "HEAP_PARENT c = slot" "slot < c"
      using True prems(8) by (auto simp: c_def HEAP_PARENT_cases HEAP_LEFT_def)
    have Vi: "V ! i = ?h ! i" if "i \<noteq> slot" for i using that prems(1) by simp
    have Vc: "V ! c = ?h ! c" using c(4) Vi by simp
    have ch: "child \<noteq> slot" "child + 1 \<noteq> slot" using prems(8) by (simp_all add: HEAP_LEFT_def)
    have least: "?k (V ! c) \<le> ?k (V ! i)" if "i < n" "0 < i" "HEAP_PARENT i = slot" for i
    proof -
      have "i = child \<or> i = child + 1" using that HEAP_PARENT_cases prems(8) by simp
      then show ?thesis using that(1) Vi ch Vc unfolding c_def by (auto simp: not_less)
    qed
    have body: "reheap_down ht x slot child =
        (if ?k (?h ! c) < ?k x then reheap_down (copy_node ht slot (?h ! c)) x c (HEAP_LEFT c) else copy_node ht slot x)"
      using True prems(7) by (subst reheap_down.simps) (simp add: c_def Let_def)
    show ?thesis
    proof (cases "?k (?h ! c) < ?k x")
      case less: True
      have "node_id ht (V ! c) = int (V ! c)" using prems(4) c(1) by (simp add: nodes_ok_def)
      then have g: "th_heap (copy_node ht slot (?h ! c)) = ?h[slot := ?h ! c]"
        "th_timer_ids (copy_node ht slot (?h ! c)) = ?ids[?h ! c := int slot]"
        using Vc by (simp_all add: copy_node_def)
      note st = swap_step [OF prems(4,5,2) c(1) less_imp_neq [OF c(4)] prems(1,3) refl]
      have dn: "heap_but_down n ?k (swap_slots V slot c) c"
        by (rule heap_down_step [OF prems(6) c(1-3)]) (use prems(1,3) less Vc Vs least in simp_all)
      have "reheaped n (copy_node ht slot (?h ! c)) (?h[slot := ?h ! c, c := x])
          (reheap_down (copy_node ht slot (?h ! c)) x c (HEAP_LEFT c))"
      proof (rule "1.IH")
        show "c = (if child + 1 < th_cur_size ht
             \<and> PJ_TIME_VAL_LT (node_value ht (?h ! (child + 1))) (node_value ht (?h ! child)) then child + 1 else child)"
          using prems(7) by (simp add: c_def)
        show "child < th_cur_size ht" using True prems(7) by simp
      qed (use less c(1) prems(3,7) st(2,3) g dn [folded st(1)] in simp_all)
      then have "reheaped n ht V (reheap_down (copy_node ht slot (?h ! c)) x c (HEAP_LEFT c))"
        by (rule reheaped_step) (use st(4,5) g in simp_all)
      then show ?thesis using less body by simp
    next
      case False
      have "heap_on n ?k V"
        by (rule heap_but_down_done [OF prems(6)]) (use False least Vc Vs in \<open>auto simp: not_less intro: order_trans\<close>)
      from reheaped_final [OF prems(1-5) this] show ?thesis using False body by simp
    qed
  qed
qed


section \<open>The invariant\<close>

text \<open>The free list: following it from \<open>f\<close> visits the ids \<open>xs\<close> and ends at \<open>m\<close>, the first id that does not exist.\<close>

fun chain :: "int list \<Rightarrow> int \<Rightarrow> nat list \<Rightarrow> nat \<Rightarrow> bool" where
  "chain ids f [] m \<longleftrightarrow> f = int m"
| "chain ids f (x # xs) m \<longleftrightarrow> f = int x \<and> chain ids (- (ids ! x)) xs m"

lemma chain_cong: "(\<And>x. x \<in> set xs \<Longrightarrow> ids' ! x = ids ! x) \<Longrightarrow> chain ids f xs m \<Longrightarrow> chain ids' f xs m"
  by (induction xs arbitrary: f) auto

lemma chain_pos: "chain ids f xs m \<Longrightarrow> \<forall>x \<in> set xs. 1 \<le> x \<Longrightarrow> 0 < m \<Longrightarrow> 0 < f"
  by (cases xs) auto

lemma chain_neg:
  "chain ids f xs m \<Longrightarrow> x \<in> set xs \<Longrightarrow> \<forall>x \<in> set xs. 1 \<le> x \<Longrightarrow> 0 < m \<Longrightarrow> ids ! x < 0"
proof (induction xs arbitrary: f)
  case (Cons y ys)
  have "0 < - (ids ! y)" using Cons.prems by (intro chain_pos [of ids _ ys m]) auto
  with Cons show ?case by auto
qed simp

lemma chain_append: "chain ids f (xs @ ys) m \<longleftrightarrow> (\<exists>k. chain ids f xs k \<and> chain ids (int k) ys m)"
proof (induction xs arbitrary: f)
  case Nil
  show ?case by (cases ys) auto
qed auto

abbreviation live :: "pj_timer_heap \<Rightarrow> nat list" where
  "live ht \<equiv> take (th_cur_size ht) (th_heap ht)"

definition free_ok :: "pj_timer_heap \<Rightarrow> nat list \<Rightarrow> bool" where
  "free_ok ht fs \<longleftrightarrow> chain (th_timer_ids ht) (th_freelist ht) fs (th_max_size ht) \<and> distinct fs
     \<and> set fs \<inter> set (live ht) = {} \<and> set fs \<union> set (live ht) = {1 ..< th_max_size ht}"

definition entries_ok :: "pj_timer_heap \<Rightarrow> bool" where
  "entries_ok ht \<longleftrightarrow>
     (\<forall>x \<in> set (live ht). timer_id (th_entries ht (dup_entry (th_timer_dups ht ! x))) = int x)"

definition th_inv :: "pj_timer_heap \<Rightarrow> bool" where
  "th_inv ht \<longleftrightarrow>
     th_cur_size ht + 2 \<le> th_max_size ht \<and> th_max_size ht \<le> length (th_heap ht)
     \<and> length (th_timer_ids ht) = th_max_size ht \<and> th_max_size ht \<le> length (th_timer_dups ht)
     \<and> nodes_ok (th_cur_size ht) (th_heap ht) (th_max_size ht) (th_timer_dups ht)
     \<and> back_ok (th_cur_size ht) (th_heap ht) (th_timer_ids ht) None
     \<and> heap_on (th_cur_size ht) (\<lambda>x. node_value ht x) (th_heap ht)
     \<and> (\<exists>fs. free_ok ht fs) \<and> entries_ok ht"

text \<open>The timers that are running: which entry, and when it expires.\<close>

definition active :: "pj_timer_heap \<Rightarrow> (nat \<times> pj_time_val) multiset" where
  "active ht = image_mset (\<lambda>x. (dup_entry (th_timer_dups ht ! x), node_value ht x)) (mset (live ht))"

lemma size_active [simp]: "th_inv ht \<Longrightarrow> size (active ht) = th_cur_size ht"
  by (simp add: active_def th_inv_def)

lemma live_nth: "i < th_cur_size ht \<Longrightarrow> th_inv ht \<Longrightarrow> th_heap ht ! i \<in> set (live ht)"
  by (auto simp: th_inv_def in_set_conv_nth)

lemma liveE:
  assumes "x \<in> set (live ht)" and "th_inv ht"
  obtains i where "i < th_cur_size ht" "th_heap ht ! i = x" "th_timer_ids ht ! x = int i" "x < th_max_size ht" "1 \<le> x"
    "node_id ht x = int x"
proof -
  obtain i where i: "i < th_cur_size ht" "th_heap ht ! i = x" using assms by (auto simp: in_set_conv_nth)
  moreover have "x \<in> {1 ..< th_max_size ht}" using assms by (auto simp: th_inv_def free_ok_def)
  ultimately show thesis using assms(2) that by (auto simp: th_inv_def nodes_ok_def back_ok_def)
qed

text \<open>Replacing the least requirement: taking out slot \<open>s\<close> and moving the last node into it.\<close>

lemma heap_replace:
  assumes heap: "heap_on (Suc n) k h" and s: "s < n" "Suc n \<le> length h"
  defines "g \<equiv> h[s := h ! n]"
  shows "k (g ! HEAP_PARENT s) \<le> k (h ! n) \<Longrightarrow> heap_but_down n k g s"
    and "\<not> k (g ! HEAP_PARENT s) \<le> k (h ! n) \<Longrightarrow> heap_but_up n k g s"
proof -
  have nth: "g ! i = (if i = s then h ! n else h ! i)" if "i < n" for i
    using that s by (simp add: g_def nth_list_update)
  have par: "HEAP_PARENT i < n" "0 < i \<Longrightarrow> HEAP_PARENT i \<noteq> i" if "i < n" for i
    using that HEAP_PARENT_less [of i] by (cases "i = 0"; simp add: HEAP_PARENT_def)+
  have ord: "k (h ! HEAP_PARENT i) \<le> k (h ! i)" if "i < n" "0 < i" for i
    using heap that by (simp add: heap_on_def)
  have grand: "k (g ! HEAP_PARENT s) \<le> k (g ! i)" if "i < n" "0 < i" "HEAP_PARENT i = s" "0 < s" for i
    using ord [OF that(1,2)] ord [OF s(1) that(4)] that nth [OF that(1)] nth [OF par(1) [OF s(1)]]
      par(2) [OF that(1,2)] par(2) [OF s(1) that(4)] by (auto intro: order_trans)
  {
    assume le: "k (g ! HEAP_PARENT s) \<le> k (h ! n)"
    show "heap_but_down n k g s"
      unfolding heap_but_down_def
    proof (intro conjI allI impI; elim conjE)
      fix i assume i: "i < n" "0 < i" "HEAP_PARENT i \<noteq> s"
      show "k (g ! HEAP_PARENT i) \<le> k (g ! i)"
        using ord [OF i(1,2)] nth [OF i(1)] nth [OF par(1) [OF i(1)]] i(3) le by (cases "i = s") simp_all
    qed (rule grand)
  }
  assume nle: "\<not> k (g ! HEAP_PARENT s) \<le> k (h ! n)"
  have s0: "0 < s" using nle nth [OF s(1)] by (cases "s = 0") (simp_all add: HEAP_PARENT_def)
  show "heap_but_up n k g s"
    unfolding heap_but_up_def
  proof (intro conjI allI impI; elim conjE)
    fix i assume i: "i < n" "0 < i" "i \<noteq> s"
    show "k (g ! HEAP_PARENT i) \<le> k (g ! i)"
    proof (cases "HEAP_PARENT i = s")
      case True
      from grand [OF i(1,2) this s0] nle show ?thesis using True nth [OF s(1)] by simp
    next
      case False
      then show ?thesis using ord [OF i(1,2)] nth [OF i(1)] nth [OF par(1) [OF i(1)]] i(3) by simp
    qed
  qed (rule grand)
qed


section \<open>Removing a node\<close>

text \<open>The part of \<^verbatim>\<open>remove_node\<close> before the last node moves into the gap, and the state after it.\<close>

definition unlink :: "pj_timer_heap \<Rightarrow> nat \<Rightarrow> pj_timer_heap" where
  "unlink ht x =
     ht\<lparr>th_timer_ids := (th_timer_ids ht)[x := - th_freelist ht], th_freelist := int x,
        th_cur_size := th_cur_size ht - 1,
        th_entries := (th_entries ht)(dup_entry (th_timer_dups ht ! x) :=
            (th_entries ht (dup_entry (th_timer_dups ht ! x)))\<lparr>timer_id := -1\<rparr>),
        th_timer_dups := (th_timer_dups ht)[x := (th_timer_dups ht ! x)\<lparr>dup := (dup (th_timer_dups ht ! x))\<lparr>timer_id := -1\<rparr>\<rparr>]\<rparr>"

lemma remove_node_unlink:
  assumes "th_inv ht" and "slot < th_cur_size ht"
  defines "x \<equiv> th_heap ht ! slot" and "n \<equiv> th_cur_size ht - 1"
  shows "remove_node ht slot =
    (if slot < n then
       (let g = copy_node (unlink ht x) slot (th_heap ht ! n)
        in if node_value g (th_heap g ! HEAP_PARENT slot) \<le> node_value g (th_heap ht ! n)
           then (reheap_down g (th_heap ht ! n) slot (HEAP_LEFT slot), x)
           else (reheap_up g (th_heap ht ! n) slot, x))
     else (unlink ht x, x))"
proof -
  have "node_id ht x = int x" using liveE [OF live_nth [OF assms(2,1)] assms(1)] unfolding x_def by blast
  then have u: "upd_node x (\<lambda>d. d\<lparr>dup := (dup d)\<lparr>timer_id := -1\<rparr>\<rparr>)
       (upd_entry (dup_entry (th_timer_dups ht ! x)) (\<lambda>e. e\<lparr>timer_id := -1\<rparr>)
         ((push_freelist ht (node_id ht x))\<lparr>th_cur_size := th_cur_size ht - 1\<rparr>)) = unlink ht x"
    by (simp add: unlink_def upd_node_def upd_entry_def push_freelist_def)
  have d: "th_timer_dups ((push_freelist ht i)\<lparr>th_cur_size := k\<rparr>) = th_timer_dups ht"
    "th_cur_size (push_freelist ht i) = th_cur_size ht" for i k
    by (simp_all add: push_freelist_def)
  have f: "th_heap (unlink ht x) = th_heap ht" "th_cur_size (unlink ht x) = n"
    by (simp_all add: unlink_def n_def)
  show ?thesis
    unfolding remove_node_def Let_def x_def [symmetric] d u f by simp
qed

lemma distinct_submset:
  assumes "mset xs \<subseteq># mset ys" and "distinct ys"
  shows "distinct xs"
  unfolding distinct_count_atmost_1
proof
  fix a
  have "count (mset xs) a \<le> count (mset ys) a" using assms(1) by (simp add: subseteq_mset_def)
  moreover have "count (mset ys) a \<le> 1" using assms(2) by (simp add: distinct_count_atmost_1)
  ultimately have le: "count (mset xs) a \<le> 1" by simp
  show "count (mset xs) a = (if a \<in> set xs then 1 else 0)"
  proof (cases "a \<in> set xs")
    case True
    then have "0 < count (mset xs) a" by (metis count_greater_zero_iff set_mset_mset)
    with le have "count (mset xs) a = 1" by linarith
    with True show ?thesis by simp
  next
    case False
    then show ?thesis by (simp add: count_mset_0_iff)
  qed
qed

lemma mset_gap:
  assumes "s \<le> n" "Suc n \<le> length h"
  shows "mset (take n (h[s := h ! n])) = mset (take (Suc n) h) - {#h ! s#}"
proof (cases "s = n")
  case True
  then show ?thesis using assms by (simp add: take_Suc_conv_app_nth)
next
  case False
  then have s: "s < length (take n h)" using assms by simp
  have "mset (take n (h[s := h ! n])) = mset ((take n h)[s := h ! n])"
    using assms False by (simp add: take_update_swap)
  also have "\<dots> = add_mset (h ! n) (mset (take n h) - {#h ! s#})"
    using s False assms(1) by (simp add: mset_update)
  also have "\<dots> = mset (take (Suc n) h) - {#h ! s#}"
  proof -
    have "h ! s \<in> set (take n h)" using s False assms(1) by (metis le_neq_implies_less nth_mem nth_take)
    then show ?thesis using assms(2) by (simp add: take_Suc_conv_app_nth)
  qed
  finally show ?thesis .
qed

text \<open>What is left in the slots after the removal, whichever way the gap was filled.\<close>

lemma remove_node_slots:
  assumes inv: "th_inv ht" and slot: "slot < th_cur_size ht"
  defines "x \<equiv> th_heap ht ! slot" and "n \<equiv> th_cur_size ht - 1"
  defines "V \<equiv> (th_heap ht)[slot := th_heap ht ! n]"
  shows "snd (remove_node ht slot) = x \<and> (\<exists>h' ids'. fst (remove_node ht slot) = (unlink ht x)\<lparr>th_heap := h', th_timer_ids := ids'\<rparr>
     \<and> length h' = length (th_heap ht) \<and> length ids' = length (th_timer_ids ht)
     \<and> mset (take n h') = mset (take n V) \<and> nodes_ok n h' (length ids') (th_timer_dups (unlink ht x))
     \<and> back_ok n h' ids' None \<and> heap_on n (\<lambda>y. node_value (unlink ht x) y) h'
     \<and> (\<forall>y. y \<notin> set (live ht) \<longrightarrow> ids' ! y = th_timer_ids ht ! y) \<and> ids' ! x = - th_freelist ht)"
proof -
  let ?h = "th_heap ht" and ?u = "unlink ht x" and ?m = "th_heap ht ! n"
  let ?k = "\<lambda>y. node_value ?u y"
  note i = inv [unfolded th_inv_def]
  have n: "th_cur_size ht = Suc n" "Suc n \<le> length ?h" "slot \<le> n" using slot i by (auto simp: n_def)
  have nodes: "nodes_ok (Suc n) ?h (th_max_size ht) (th_timer_dups ht)" using i n(1) by simp
  have xl: "x \<in> set (live ht)" unfolding x_def by (rule live_nth [OF slot inv])
  obtain sx where x: "x < th_max_size ht" "node_id ht x = int x" by (rule liveE [OF xl inv]) blast
  have neq: "?h ! j \<noteq> x" if "j < Suc n" "j \<noteq> slot" for j
    using nodes_ok_inj [OF nodes that(1), of slot] that(2) n(3) by (simp add: x_def)
  have len: "x < length (th_timer_dups ht)" "x < length (th_timer_ids ht)" using x i by simp_all
  have ud: "th_timer_dups ?u ! y = th_timer_dups ht ! y" if "y \<noteq> x" for y using that by (simp add: unlink_def)
  have val: "node_value ?u y = node_value ht y" for y
    using len by (cases "y = x") (simp_all add: unlink_def)
  have uf: "th_heap ?u = ?h" "th_timer_ids ?u = (th_timer_ids ht)[x := - th_freelist ht]" "th_cur_size ?u = n"
    by (simp_all add: unlink_def n_def)
  have xnot: "x \<notin> set (take n V)"
  proof
    assume "x \<in> set (take n V)"
    then obtain j where j: "j < n" "V ! j = x" using n by (auto simp: in_set_conv_nth V_def)
    then show False using neq [of j] neq [of n] n by (cases "j = slot") (auto simp: V_def)
  qed
  have sub: "set (take n V) \<subseteq> set (live ht)"
    using mset_gap [OF n(3,2)] n(1) by (metis V_def in_diffD set_mset_mset subsetI)
  have nodesV: "nodes_ok n V (th_max_size ht) (th_timer_dups ?u)"
  proof -
    have "distinct (take n V)"
      using nodes mset_gap [OF n(3,2)] unfolding nodes_ok_def V_def
      by (metis diff_subset_eq_self distinct_submset)
    moreover have "V ! j < th_max_size ht \<and> node_id ?u (V ! j) = int (V ! j)" if "j < n" for j
    proof -
      have "V ! j \<in> set (take n V)" using that n by (auto simp: V_def in_set_conv_nth)
      with sub xnot have "V ! j \<in> set (live ht)" "V ! j \<noteq> x" by auto
      then show ?thesis using ud liveE [OF _ inv, of "V ! j"] by metis
    qed
    ultimately show ?thesis using n by (simp add: nodes_ok_def V_def)
  qed
  show ?thesis
  proof (cases "slot < n")
    case False
    then have s: "slot = n" "V = ?h" using n by (simp_all add: V_def)
    have r: "remove_node ht slot = (?u, x)"
      using remove_node_unlink [OF inv slot] False by (simp add: x_def n_def)
    have "back_ok n ?h (th_timer_ids ?u) None" "heap_on n ?k ?h"
      using i n neq [THEN not_sym] s(1) unfolding uf val by (simp_all add: back_ok_def heap_on_def)
    moreover have "\<forall>y. y \<notin> set (live ht) \<longrightarrow> th_timer_ids ?u ! y = th_timer_ids ht ! y"
      using xl unfolding uf by (metis nth_list_update_neq)
    moreover have "th_timer_ids ?u ! x = - th_freelist ht" "length (th_timer_ids ?u) = length (th_timer_ids ht)"
      using len unfolding uf by simp_all
    moreover have "?u = ?u\<lparr>th_heap := ?h, th_timer_ids := th_timer_ids ?u\<rparr>" by (simp add: unlink_def)
    ultimately show ?thesis unfolding r fst_conv snd_conv using nodesV s(2) i
      by (intro conjI exI [of _ ?h] exI [of _ "th_timer_ids ?u"]) (simp_all add: s(2))
  next
    case True
    let ?g = "copy_node ?u slot ?m"
    have m: "?m \<noteq> x" "?m \<in> set (live ht)" "?m \<in> set (take n V)"
      using neq [of n] True n live_nth [OF _ inv, of n] by (auto simp: V_def in_set_conv_nth)
    then have "node_id ?u ?m = int ?m" using ud liveE [OF m(2) inv] by metis
    then have g: "th_heap ?g = V" "th_timer_ids ?g = (th_timer_ids ?u)[?m := int slot]"
      "th_timer_dups ?g = th_timer_dups ?u" "th_cur_size ?g = n"
      using uf by (simp_all add: copy_node_def V_def)
    have VV: "V = (th_heap ?g)[slot := ?m]" using g(1) True n by (simp add: V_def)
    have bk: "back_ok n V (th_timer_ids ?g) (Some slot)"
      unfolding back_ok_def
    proof (intro allI impI)
      fix j assume j: "j < n" "Some j \<noteq> Some slot"
      then have "?h ! j \<noteq> x" "?h ! j \<noteq> ?m" "V ! j = ?h ! j" "th_timer_ids ht ! (?h ! j) = int j"
        using neq [of j] nodes_ok_inj [OF nodes, of j n] i n by (simp_all add: V_def back_ok_def)
      then show "th_timer_ids ?g ! (V ! j) = int j" unfolding g uf by simp
    qed
    have ho: "heap_on (Suc n) ?k ?h" using i n(1) unfolding val by simp
    note rep = heap_replace [OF ho True n(2), folded V_def]
    have pre: "slot < n" "n \<le> length (th_heap ?g)" "nodes_ok n V (length (th_timer_ids ?g)) (th_timer_dups ?g)"
      using True n nodesV i unfolding g uf by (simp_all add: V_def)
    have reh: "reheaped n ?g V (fst (remove_node ht slot)) \<and> snd (remove_node ht slot) = x"
    proof (cases "?k (V ! HEAP_PARENT slot) \<le> ?k ?m")
      case le: True
      then have r: "remove_node ht slot = (reheap_down ?g ?m slot (HEAP_LEFT slot), x)"
        using remove_node_unlink [OF inv slot] True g(1,3) by (simp add: x_def n_def Let_def)
      show ?thesis unfolding r fst_conv snd_conv
        using reheap_down_spec [OF VV pre bk _ g(4) [symmetric] refl] rep(1) [OF le] g(3) by simp
    next
      case False
      then have r: "remove_node ht slot = (reheap_up ?g ?m slot, x)"
        using remove_node_unlink [OF inv slot] True g(1,3) by (simp add: x_def n_def Let_def)
      show ?thesis unfolding r fst_conv snd_conv
        using reheap_up_spec [OF VV pre bk] rep(2) [OF False] g(3) by simp
    qed
    then obtain h' ids' where r: "fst (remove_node ht slot) = ?g\<lparr>th_heap := h', th_timer_ids := ids'\<rparr>"
      "length h' = length V" "length ids' = length (th_timer_ids ht)" "mset (take n h') = mset (take n V)"
      "nodes_ok n h' (length ids') (th_timer_dups ?u)" "back_ok n h' ids' None" "heap_on n ?k h'"
      "\<And>y. y \<notin> set (take n V) \<Longrightarrow> ids' ! y = th_timer_ids ?g ! y"
      unfolding reheaped_def g by (auto simp: uf)
    have "ids' ! y = th_timer_ids ht ! y" if "y \<notin> set (live ht)" for y
      using r(8) [of y] that sub xl m(2) unfolding g uf by (metis nth_list_update_neq subsetD)
    moreover have "ids' ! x = - th_freelist ht"
      using r(8) [OF xnot] m(1) len unfolding g uf by simp
    moreover have "fst (remove_node ht slot) = ?u\<lparr>th_heap := h', th_timer_ids := ids'\<rparr>"
      using r(1) by (simp add: copy_node_def)
    moreover have "length h' = length (th_heap ht)" using r(2) by (simp add: V_def)
    ultimately show ?thesis using r(3-7) reh
      by (intro conjI exI [of _ h'] exI [of _ ids']) simp_all
  qed
qed


lemma remove_node_spec:
  assumes inv: "th_inv ht" and slot: "slot < th_cur_size ht"
  defines "x \<equiv> th_heap ht ! slot" and "r \<equiv> remove_node ht slot"
  shows "snd r = x" and "\<exists>h' ids'. fst r = (unlink ht x)\<lparr>th_heap := h', th_timer_ids := ids'\<rparr>" and "th_inv (fst r)"
    and "active (fst r) = active ht - {#(dup_entry (th_timer_dups ht ! x), node_value ht x)#}"
    and "mset (live (fst r)) = mset (live ht) - {#x#}"
    and "set (live (fst r)) = set (live ht) - {x}"
proof -
  define n where "n = th_cur_size ht - 1"
  let ?V = "(th_heap ht)[slot := th_heap ht ! n]" and ?u = "unlink ht x"
  obtain h' ids' where r: "snd r = x" "fst r = ?u\<lparr>th_heap := h', th_timer_ids := ids'\<rparr>"
    "length h' = length (th_heap ht)" "length ids' = length (th_timer_ids ht)"
    "mset (take n h') = mset (take n ?V)" "nodes_ok n h' (length ids') (th_timer_dups ?u)"
    "back_ok n h' ids' None" "heap_on n (\<lambda>y. node_value ?u y) h'"
    "\<And>y. y \<notin> set (live ht) \<Longrightarrow> ids' ! y = th_timer_ids ht ! y" "ids' ! x = - th_freelist ht"
    using remove_node_slots [OF inv slot] unfolding x_def r_def n_def by blast
  note i = inv [unfolded th_inv_def]
  have n: "th_cur_size ht = Suc n" "Suc n \<le> length (th_heap ht)" "slot \<le> n" using slot i by (auto simp: n_def)
  have xl: "x \<in> set (live ht)" unfolding x_def by (rule live_nth [OF slot inv])
  obtain sx where x: "x < th_max_size ht" "1 \<le> x" "node_id ht x = int x" by (rule liveE [OF xl inv]) blast
  have lx: "x < length (th_timer_dups ht)" using x i by simp
  have u: "th_cur_size ?u = n" "th_max_size ?u = th_max_size ht" "th_freelist ?u = int x"
    "length (th_timer_dups ?u) = length (th_timer_dups ht)"
    by (simp_all add: unlink_def n_def)
  have ud: "th_timer_dups ?u ! y = th_timer_dups ht ! y" if "y \<noteq> x" for y using that by (simp add: unlink_def)
  have live: "live (fst r) = take n h'" using r(2) u by simp
  have mlive: "mset (take n h') = mset (live ht) - {#x#}"
    using r(5) mset_gap [OF n(3,2)] n(1) by (simp add: x_def)
  show "mset (live (fst r)) = mset (live ht) - {#x#}" unfolding live by (rule mlive)
  have "distinct (live ht)" using i by (simp add: nodes_ok_def)
  then have slive: "set (take n h') = set (live ht) - {x}"
    using mlive by (metis mset_eq_setD mset_remove1 set_remove1_eq)
  then show "set (live (fst r)) = set (live ht) - {x}" unfolding live .
  obtain fs where fs: "free_ok ht fs" using i by blast
  have "x \<notin> set fs" using fs xl by (auto simp: free_ok_def)
  moreover have "chain ids' (th_freelist ht) fs (th_max_size ht)"
    by (rule chain_cong [of fs ids' "th_timer_ids ht"]) (use fs r(9) in \<open>auto simp: free_ok_def\<close>)
  ultimately have "free_ok (fst r) (x # fs)"
    using fs slive xl r(10) u live unfolding free_ok_def by (auto simp: r(2))
  moreover have "entries_ok (fst r)"
    unfolding entries_ok_def live slive
  proof
    fix y assume y: "y \<in> set (live ht) - {x}"
    have "timer_id (th_entries ht (dup_entry (th_timer_dups ht ! y))) = int y"
      "timer_id (th_entries ht (dup_entry (th_timer_dups ht ! x))) = int x"
      using i xl y by (simp_all add: entries_ok_def)
    then have "dup_entry (th_timer_dups ht ! y) \<noteq> dup_entry (th_timer_dups ht ! x)" using y by auto
    then show "timer_id (th_entries (fst r) (dup_entry (th_timer_dups (fst r) ! y))) = int y"
      using y i r(2) ud [of y] by (simp add: unlink_def entries_ok_def)
  qed
  ultimately show "th_inv (fst r)"
    using i n r(2-4,6-8) u unfolding th_inv_def by (auto simp: r(2))
  show "snd r = x" "\<exists>h' ids'. fst r = ?u\<lparr>th_heap := h', th_timer_ids := ids'\<rparr>" using r by blast+
  have val: "(dup_entry (th_timer_dups ?u ! y), node_value ?u y) = (dup_entry (th_timer_dups ht ! y), node_value ht y)" for y
    using lx by (cases "y = x") (simp_all add: unlink_def)
  have "active (fst r) = image_mset (\<lambda>y. (dup_entry (th_timer_dups ?u ! y), node_value ?u y)) (mset (take n h'))"
    unfolding active_def live by (simp add: r(2))
  then have "active (fst r) = image_mset (\<lambda>y. (dup_entry (th_timer_dups ht ! y), node_value ht y)) (mset (live ht) - {#x#})"
    unfolding mlive val .
  then show "active (fst r) = active ht - {#(dup_entry (th_timer_dups ht ! x), node_value ht x)#}"
    using xl by (simp add: active_def image_mset_Diff)
qed

end
