(* ===== verification/Timer_Heap_Ops.thy ===== *)
theory Timer_Heap_Ops
  imports Timer_Heap_Inv
begin

text \<open>
  Scheduling, cancelling and polling on the invariant: each operation keeps it, and changes the multiset
  of running timers by exactly the timer it adds, takes away or fires.
\<close>

section \<open>Scheduling\<close>

text \<open>The invariant while id \<open>f\<close> has been taken from the free list and is not in the heap yet.\<close>

definition th_popped :: "pj_timer_heap \<Rightarrow> nat \<Rightarrow> nat list \<Rightarrow> bool" where
  "th_popped ht f fs \<longleftrightarrow>
     th_cur_size ht + 2 \<le> th_max_size ht \<and> th_max_size ht \<le> length (th_heap ht)
     \<and> length (th_timer_ids ht) = th_max_size ht \<and> th_max_size ht \<le> length (th_timer_dups ht)
     \<and> nodes_ok (th_cur_size ht) (th_heap ht) (th_max_size ht) (th_timer_dups ht)
     \<and> back_ok (th_cur_size ht) (th_heap ht) (th_timer_ids ht) None
     \<and> heap_on (th_cur_size ht) (\<lambda>x. node_value ht x) (th_heap ht)
     \<and> chain (th_timer_ids ht) (th_freelist ht) fs (th_max_size ht) \<and> distinct (f # fs)
     \<and> set (f # fs) \<inter> set (live ht) = {} \<and> set (f # fs) \<union> set (live ht) = {1 ..< th_max_size ht}"

lemma free_nonempty:
  assumes "th_inv ht" and "free_ok ht fs"
  shows "fs \<noteq> []"
proof
  assume "fs = []"
  then have "set (live ht) = {1 ..< th_max_size ht}" using assms(2) by (simp add: free_ok_def)
  moreover have "card (set (live ht)) \<le> th_cur_size ht" using card_length [of "live ht"] by simp
  ultimately have "th_max_size ht - 1 \<le> th_cur_size ht" by (metis card_atLeastLessThan)
  moreover have "th_cur_size ht + 2 \<le> th_max_size ht" using assms(1) unfolding th_inv_def by blast
  ultimately show False by linarith
qed

lemma pop_popped:
  assumes "th_inv ht"
  obtains f fs where "free_ok ht (f # fs)" "fst (pop_freelist ht) = int f" "th_popped (snd (pop_freelist ht)) f fs"
proof -
  obtain xs where xs: "free_ok ht xs" using assms by (auto simp: th_inv_def)
  then obtain f fs where f: "xs = f # fs" using free_nonempty [OF assms] by (cases xs) auto
  have "th_popped (snd (pop_freelist ht)) f fs"
    using xs assms unfolding f by (auto simp: th_popped_def th_inv_def free_ok_def pop_freelist_def)
  moreover have "fst (pop_freelist ht) = int f" using xs unfolding f by (simp add: free_ok_def pop_freelist_def)
  ultimately show thesis using that xs f by blast
qed

lemma th_popped_entries [simp]: "th_popped (ht\<lparr>th_entries := es\<rparr>) f fs = th_popped ht f fs"
  by (simp add: th_popped_def)

lemma chain_map:
  "chain (ids @ map (\<lambda>i. - (int i + 1)) [m ..< m + k]) (int m) [m ..< m + k] (m + k)" if "length ids = m"
  using that
proof (induction k)
  case (Suc k)
  have c: "chain (ids @ map (\<lambda>i. - (int i + 1)) [m ..< m + Suc k]) (int m) [m ..< m + k] (m + k)"
    by (rule chain_cong [OF _ Suc.IH [OF Suc.prems]]) (use Suc.prems in \<open>auto simp: nth_append\<close>)
  have "(ids @ map (\<lambda>i. - (int i + 1)) [m ..< m + Suc k]) ! (m + k) = - (int (m + k) + 1)"
    using Suc.prems by (simp add: nth_append)
  with c show ?case by (auto simp: chain_append)
qed simp

lemma grow_popped:
  assumes p: "th_popped ht f fs" and mem: "length mem = th_max_size ht"
  defines "r \<equiv> grow_heap (True, True, True) mem ht"
  shows "fst r = PJ_SUCCESS" "th_popped (snd r) f (fs @ [th_max_size ht ..< th_max_size ht * 2])"
    "th_cur_size (snd r) = th_cur_size ht" "th_max_size (snd r) = th_max_size ht * 2" "live (snd r) = live ht"
    "th_entries (snd r) = th_entries ht" "th_refs (snd r) = th_refs ht"
    "th_max_entries_per_poll (snd r) = th_max_entries_per_poll ht"
    "\<And>x. x < th_max_size ht \<Longrightarrow> th_timer_dups (snd r) ! x = th_timer_dups ht ! x"
proof -
  let ?m = "th_max_size ht" and ?n = "th_cur_size ht"
  note q = p [unfolded th_popped_def]
  define g where "g = ht\<lparr>th_timer_dups := take ?m (th_timer_dups ht) @ mem,
     th_heap := take ?n (th_heap ht) @ replicate (?m * 2 - ?n) 0,
     th_timer_ids := th_timer_ids ht @ map (\<lambda>i. - (int i + 1)) [?m ..< ?m * 2], th_max_size := ?m * 2\<rparr>"
  have r: "r = (PJ_SUCCESS, g)" using q by (simp add: r_def g_def grow_heap_def Let_def)
  have live: "live g = live ht" using q by (simp add: g_def)
  have heap: "th_heap g ! i = th_heap ht ! i" if "i < ?n" for i using that q by (simp add: g_def nth_append)
  have dups: "th_timer_dups g ! x = th_timer_dups ht ! x" if "x < ?m" for x using that q by (simp add: g_def nth_append)
  have ids: "th_timer_ids g ! x = th_timer_ids ht ! x" if "x < ?m" for x using that q by (simp add: g_def nth_append)
  have lt: "th_heap ht ! i < ?m" if "i < ?n" for i using that q by (simp add: nodes_ok_def)
  have par: "HEAP_PARENT i < ?n" if "i < ?n" for i
    using that HEAP_PARENT_less [of i] by (cases "i = 0") (simp_all add: HEAP_PARENT_def)
  have "nodes_ok ?n (th_heap g) (?m * 2) (th_timer_dups g)"
    using q lt dups heap live by (fastforce simp: nodes_ok_def g_def)
  moreover have "back_ok ?n (th_heap g) (th_timer_ids g) None" using q lt heap ids by (simp add: back_ok_def)
  moreover have "heap_on ?n (\<lambda>x. node_value g x) (th_heap g)"
    using q lt heap dups par by (simp add: heap_on_def)
  moreover have "chain (th_timer_ids g) (th_freelist g) (fs @ [?m ..< ?m * 2]) (?m * 2)"
  proof -
    have "chain (th_timer_ids g) (th_freelist ht) fs ?m"
    proof (rule chain_cong)
      show "chain (th_timer_ids ht) (th_freelist ht) fs ?m" using q by blast
      fix x assume "x \<in> set fs"
      then have "x \<in> {1 ..< ?m}" using q by (metis UnI1 list.set_intros(2))
      then show "th_timer_ids g ! x = th_timer_ids ht ! x" using ids [of x] by simp
    qed
    moreover have "chain (th_timer_ids g) (int ?m) [?m ..< ?m * 2] (?m * 2)"
      using chain_map [of "th_timer_ids ht" ?m ?m] q by (simp add: g_def mult_2_right)
    ultimately show ?thesis by (auto simp: chain_append g_def)
  qed
  moreover have below: "x \<in> {1 ..< ?m}" if "x \<in> set (f # fs) \<union> set (live ht)" for x using that q by metis
  then have "distinct (f # fs @ [?m ..< ?m * 2])" using q by fastforce
  moreover have "set (f # fs @ [?m ..< ?m * 2]) \<inter> set (live ht) = {}"
    "set (f # fs @ [?m ..< ?m * 2]) \<union> set (live ht) = {1 ..< ?m * 2}"
  proof -
    have u: "set (f # fs) \<union> set (live ht) = {1 ..< ?m}" "set (f # fs) \<inter> set (live ht) = {}" using q by blast+
    have "?m \<ge> 1" using q by simp
    then have "{1 ..< ?m * 2} = {1 ..< ?m} \<union> {?m ..< ?m * 2}" by auto
    then show "set (f # fs @ [?m ..< ?m * 2]) \<union> set (live ht) = {1 ..< ?m * 2}" using u(1) by auto
    have "set (live ht) \<inter> {?m ..< ?m * 2} = {}" using below by fastforce
    then show "set (f # fs @ [?m ..< ?m * 2]) \<inter> set (live ht) = {}" using u(2) by auto
  qed
  ultimately have "th_popped g f (fs @ [?m ..< ?m * 2])"
    unfolding th_popped_def live using q mem by (simp add: g_def)
  then show "fst r = PJ_SUCCESS" "th_popped (snd r) f (fs @ [?m ..< ?m * 2])" "live (snd r) = live ht"
    "\<And>x. x < ?m \<Longrightarrow> th_timer_dups (snd r) ! x = th_timer_dups ht ! x"
    using live dups by (simp_all add: r)
  show "th_cur_size (snd r) = ?n" "th_max_size (snd r) = ?m * 2" "th_entries (snd r) = th_entries ht"
    "th_refs (snd r) = th_refs ht" "th_max_entries_per_poll (snd r) = th_max_entries_per_poll ht"
    by (simp_all add: r) (simp_all add: g_def)
qed

text \<open>The rest of \<^verbatim>\<open>insert_node\<close>, once there is room.\<close>

definition insert_at :: "pj_timer_heap \<Rightarrow> nat \<Rightarrow> pj_time_val \<Rightarrow> pj_timer_heap" where
  "insert_at ht e t =
     (let f = nat (timer_id (th_entries ht e));
          g = reheap_up (ht\<lparr>th_timer_dups := (th_timer_dups ht)[f :=
                \<lparr>dup = th_entries ht e, dup_entry = e, timer_value = t, dup_grp_lock = None\<rparr>]\<rparr>) f (th_cur_size ht)
      in g\<lparr>th_cur_size := th_cur_size g + 1\<rparr>)"

lemma insert_node_room:
  assumes "th_cur_size ht + 2 < th_max_size ht"
  shows "insert_node alloc mem ht e t = (PJ_SUCCESS, insert_at ht e t)"
  using assms by (simp add: insert_node_def insert_at_def Let_def)

lemma insert_node_grown:
  assumes "th_max_size ht \<le> th_cur_size ht + 2" and "fst (grow_heap alloc mem ht) = PJ_SUCCESS"
  shows "insert_node alloc mem ht e t = (PJ_SUCCESS, insert_at (snd (grow_heap alloc mem ht)) e t)"
  using assms by (simp add: insert_node_def insert_at_def Let_def split_beta)

lemma insert_at_spec:
  assumes p: "th_popped ht f fs" and room: "th_cur_size ht + 2 < th_max_size ht"
    and e: "timer_id (th_entries ht e) = int f"
    and others: "\<And>x. x \<in> set (live ht) \<Longrightarrow> dup_entry (th_timer_dups ht ! x) \<noteq> e
        \<and> timer_id (th_entries ht (dup_entry (th_timer_dups ht ! x))) = int x"
  shows "th_inv (insert_at ht e t)" "active (insert_at ht e t) = add_mset (e, t) (active ht)"
    "\<exists>h' ids'. insert_at ht e t = ht\<lparr>th_cur_size := th_cur_size ht + 1, th_timer_dups := (th_timer_dups ht)[f :=
                \<lparr>dup = th_entries ht e, dup_entry = e, timer_value = t, dup_grp_lock = None\<rparr>],
        th_heap := h', th_timer_ids := ids'\<rparr>"
    "mset (live (insert_at ht e t)) = add_mset f (mset (live ht))"
proof -
  let ?n = "th_cur_size ht" and ?dups = "th_timer_dups ht"
  note q = p [unfolded th_popped_def]
  define d where "d = \<lparr>dup = th_entries ht e, dup_entry = e, timer_value = t, dup_grp_lock = None\<rparr>"
  define g where "g = ht\<lparr>th_timer_dups := ?dups[f := d]\<rparr>"
  define V where "V = (th_heap ht)[?n := f]"
  have n: "Suc ?n \<le> length (th_heap ht)" "?n < length (th_heap ht)" using q by simp_all
  have f: "f \<notin> set (live ht)" "f \<in> {1 ..< th_max_size ht}" "f \<notin> set fs"
    using q by auto
  have fl: "f < length ?dups" using f q by simp
  have heap: "th_heap ht ! i \<in> set (live ht)" if "i < ?n" for i using that q by (auto simp: in_set_conv_nth)
  have gd: "th_timer_dups g ! x = ?dups ! x" if "x \<noteq> f" for x using that by (simp add: g_def)
  have gl: "th_timer_dups g ! x = ?dups ! x" if "x \<in> set (live ht)" for x using that f(1) gd [of x] by metis
  have gf: "th_timer_dups g ! f = d" using fl by (simp add: g_def)
  have Vi: "V ! i = (if i = ?n then f else th_heap ht ! i)" if "i < Suc ?n" for i using that n by (simp add: V_def)
  have takeV: "take (Suc ?n) V = live ht @ [f]" using n by (simp add: V_def take_Suc_conv_app_nth)
  have val: "node_value g (V ! i) = (if i = ?n then t else node_value ht (th_heap ht ! i))" if "i < Suc ?n" for i
  proof (cases "i = ?n")
    case False
    then have "th_heap ht ! i \<noteq> f" using that heap [of i] f(1) by auto
    from gd [OF this] False show ?thesis using Vi [OF that] by simp
  qed (use Vi [OF that] gf in \<open>simp add: d_def\<close>)
  have "nodes_ok (Suc ?n) V (length (th_timer_ids ht)) (th_timer_dups g)"
    unfolding nodes_ok_def takeV
  proof (intro conjI allI impI)
    fix i assume i: "i < Suc ?n"
    have y: "th_heap ht ! i \<noteq> f" if "i < ?n" using heap [OF that] f(1) by auto
    show "V ! i < length (th_timer_ids ht)" "timer_id (dup (th_timer_dups g ! (V ! i))) = int (V ! i)"
      using Vi [OF i] i f q gf gd [OF y] e by (auto simp: nodes_ok_def d_def)
  qed (use q f n in \<open>auto simp: nodes_ok_def V_def\<close>)
  moreover have "back_ok (Suc ?n) V (th_timer_ids ht) (Some ?n)"
    using q Vi by (simp add: back_ok_def)
  moreover have "heap_but_up (Suc ?n) (\<lambda>x. node_value g x) V ?n"
    unfolding heap_but_up_def
  proof (intro conjI allI impI; elim conjE)
    fix i assume i: "i < Suc ?n" "0 < i" "i \<noteq> ?n"
    then show "node_value g (V ! HEAP_PARENT i) \<le> node_value g (V ! i)"
      using val [OF i(1)] val [of "HEAP_PARENT i"] HEAP_PARENT_less [OF i(2)] q by (simp add: heap_on_def)
  next
    fix i assume "i < Suc ?n" "0 < i" "HEAP_PARENT i = ?n"
    then show "node_value g (V ! HEAP_PARENT ?n) \<le> node_value g (V ! i)" using HEAP_PARENT_less [of i] by simp
  qed
  ultimately have "reheaped (Suc ?n) g V (reheap_up g f ?n)"
    by (intro reheap_up_spec) (use n in \<open>simp_all add: g_def V_def\<close>)
  then obtain h' ids' where r: "reheap_up g f ?n = g\<lparr>th_heap := h', th_timer_ids := ids'\<rparr>"
    "length h' = length (th_heap ht)" "length ids' = length (th_timer_ids ht)"
    "mset (take (Suc ?n) h') = mset (take (Suc ?n) V)" "nodes_ok (Suc ?n) h' (length ids') (th_timer_dups g)"
    "back_ok (Suc ?n) h' ids' None" "heap_on (Suc ?n) (\<lambda>x. node_value g x) h'"
    "\<And>y. y \<notin> set (take (Suc ?n) V) \<Longrightarrow> ids' ! y = th_timer_ids ht ! y"
    unfolding reheaped_def by (auto simp: g_def)
  define s where "s = ht\<lparr>th_cur_size := ?n + 1, th_timer_dups := th_timer_dups g, th_heap := h', th_timer_ids := ids'\<rparr>"
  have ins: "insert_at ht e t = s"
    using r(1) e by (simp add: insert_at_def d_def g_def s_def Let_def)
  then show "\<exists>h' ids'. insert_at ht e t = ht\<lparr>th_cur_size := th_cur_size ht + 1, th_timer_dups := (th_timer_dups ht)[f :=
        \<lparr>dup = th_entries ht e, dup_entry = e, timer_value = t, dup_grp_lock = None\<rparr>],
        th_heap := h', th_timer_ids := ids'\<rparr>"
    unfolding s_def g_def d_def by (intro exI [of _ h'] exI [of _ ids']) simp
  have live: "live s = take (Suc ?n) h'" by (simp add: s_def)
  have ml: "mset (live s) = add_mset f (mset (live ht))" unfolding live r(4) takeV by simp
  then show "mset (live (insert_at ht e t)) = add_mset f (mset (live ht))" unfolding ins .
  have sl: "set (live s) = insert f (set (live ht))" using arg_cong [OF ml, of set_mset] by simp
  have "x \<notin> set (take (Suc ?n) V)" if "x \<in> set fs" for x
    using that q f(3) unfolding takeV by (auto simp: disjoint_iff)
  then have "chain ids' (th_freelist ht) fs (th_max_size ht)"
    by (intro chain_cong [of fs ids' "th_timer_ids ht"] r(8)) (use q in simp_all)
  then have "free_ok s fs"
    unfolding free_ok_def sl using q f by (auto simp: s_def)
  moreover have "entries_ok s"
    unfolding entries_ok_def sl using others gl gf e by (auto simp: s_def d_def)
  ultimately show "th_inv (insert_at ht e t)"
    unfolding ins th_inv_def using q r room by (auto simp: s_def g_def)
  have "active s = image_mset (\<lambda>x. (dup_entry (th_timer_dups g ! x), node_value g x)) (mset (live s))"
    unfolding active_def by (simp add: s_def)
  also have "\<dots> = add_mset (e, t) (active ht)"
    unfolding ml active_def using gf gl by (auto simp: d_def intro!: image_mset_cong)
  finally show "active (insert_at ht e t) = add_mset (e, t) (active ht)" unfolding ins .
qed

text \<open>Changes that do not touch what the invariant and the running timers depend on.\<close>

definition same_timers :: "pj_timer_heap \<Rightarrow> pj_timer_heap \<Rightarrow> bool" where
  "same_timers h h' \<longleftrightarrow>
     th_cur_size h' = th_cur_size h \<and> th_max_size h' = th_max_size h \<and> th_heap h' = th_heap h
     \<and> th_timer_ids h' = th_timer_ids h \<and> th_freelist h' = th_freelist h
     \<and> length (th_timer_dups h') = length (th_timer_dups h)
     \<and> (\<forall>x \<in> set (live h). node_id h' x = node_id h x \<and> node_value h' x = node_value h x
          \<and> dup_entry (th_timer_dups h' ! x) = dup_entry (th_timer_dups h ! x)
          \<and> timer_id (th_entries h' (dup_entry (th_timer_dups h ! x))) = timer_id (th_entries h (dup_entry (th_timer_dups h ! x))))"

lemma same_timers_active: "same_timers h h' \<Longrightarrow> active h' = active h"
  by (auto simp: same_timers_def active_def intro!: image_mset_cong)

lemma same_timers_inv:
  assumes same: "same_timers h h'" and inv: "th_inv h"
  shows "th_inv h'"
proof -
  note s = same [unfolded same_timers_def] and i = inv [unfolded th_inv_def]
  have l: "th_heap h ! j \<in> set (live h)" if "j < th_cur_size h" for j by (rule live_nth [OF that inv])
  have par: "HEAP_PARENT j < th_cur_size h" if "j < th_cur_size h" for j
    using that HEAP_PARENT_less [of j] by (cases "j = 0") (simp_all add: HEAP_PARENT_def)
  have "nodes_ok (th_cur_size h') (th_heap h') (th_max_size h') (th_timer_dups h')"
    using s i l by (simp add: nodes_ok_def)
  moreover have "heap_on (th_cur_size h') (\<lambda>x. node_value h' x) (th_heap h')"
    using s i l par by (simp add: heap_on_def)
  moreover have "free_ok h' = free_ok h" using s by (simp add: free_ok_def fun_eq_iff)
  moreover have "entries_ok h'" using s i by (simp add: entries_ok_def)
  ultimately show ?thesis using s i unfolding th_inv_def by simp
qed

lemma same_timers_refs: "same_timers h (h\<lparr>th_refs := r\<rparr>)"
  by (simp add: same_timers_def)

lemma same_timers_upd_entry:
  assumes "\<And>d. timer_id (f d) = timer_id d"
  shows "same_timers h (upd_entry e f h)"
  using assms by (simp add: same_timers_def upd_entry_def)

lemma same_timers_upd_node:
  assumes "\<And>d. timer_id (dup (f d)) = timer_id (dup d) \<and> dup_entry (f d) = dup_entry d \<and> timer_value (f d) = timer_value d"
  shows "same_timers h (upd_node x f h)"
  using assms by (cases "x < length (th_timer_dups h)")
    (auto simp: same_timers_def upd_node_def nth_list_update list_update_beyond)

lemma same_timers_trans: "same_timers a b \<Longrightarrow> same_timers b c \<Longrightarrow> same_timers a c"
  by (simp add: same_timers_def)

section \<open>Group locks\<close>

text \<open>The references to a group lock that the running timers hold, and the references of others.\<close>

definition lock_refs :: "pj_timer_heap \<Rightarrow> nat \<Rightarrow> nat" where
  "lock_refs ht g = length (filter (\<lambda>x. dup_grp_lock (th_timer_dups ht ! x) = Some g) (live ht))"

definition other_refs :: "pj_timer_heap \<Rightarrow> nat \<Rightarrow> int" where
  "other_refs ht g = th_refs ht g - int (lock_refs ht g)"

lemma lock_refs_mset: "lock_refs ht g = size (filter_mset (\<lambda>x. dup_grp_lock (th_timer_dups ht ! x) = Some g) (mset (live ht)))"
  by (simp add: lock_refs_def flip: mset_filter)

lemma lock_refs_cong:
  assumes "mset (live h') = mset (live h)"
    and "\<And>x. x \<in> set (live h) \<Longrightarrow> dup_grp_lock (th_timer_dups h' ! x) = dup_grp_lock (th_timer_dups h ! x)"
  shows "lock_refs h' g = lock_refs h g"
  unfolding lock_refs_mset assms(1) using assms(2) by (auto intro!: arg_cong [where f = size] filter_mset_cong)

lemma lock_refs_add:
  assumes "mset (live h') = add_mset f (mset (live h))"
    and "\<And>x. x \<in> set (live h) \<Longrightarrow> dup_grp_lock (th_timer_dups h' ! x) = dup_grp_lock (th_timer_dups h ! x)"
  shows "lock_refs h' g = lock_refs h g + (if dup_grp_lock (th_timer_dups h' ! f) = Some g then 1 else 0)"
proof -
  have "filter_mset (\<lambda>x. dup_grp_lock (th_timer_dups h' ! x) = Some g) (mset (live h))
      = filter_mset (\<lambda>x. dup_grp_lock (th_timer_dups h ! x) = Some g) (mset (live h))"
    using assms(2) by (auto intro!: filter_mset_cong)
  then show ?thesis unfolding lock_refs_mset assms(1) by simp
qed

lemma lock_refs_remove:
  assumes "mset (live h') = mset (live h) - {#x#}" and "x \<in> set (live h)"
    and "\<And>y. y \<in> set (live h') \<Longrightarrow> dup_grp_lock (th_timer_dups h' ! y) = dup_grp_lock (th_timer_dups h ! y)"
  shows "lock_refs h g = lock_refs h' g + (if dup_grp_lock (th_timer_dups h ! x) = Some g then 1 else 0)"
proof -
  have "mset (live h) = add_mset x (mset (live h'))" using assms(1,2) by simp
  from lock_refs_add [OF this] show ?thesis using assms(3) by simp
qed

text \<open>The copy of a running timer still agrees with the entry of the client, so that it may fire.\<close>

abbreviation copy_ok :: "pj_timer_heap \<Rightarrow> nat \<Rightarrow> bool" where
  "copy_ok h x \<equiv>
     te_cb (dup (th_timer_dups h ! x)) = te_cb (th_entries h (dup_entry (th_timer_dups h ! x)))
     \<and> user_data (dup (th_timer_dups h ! x)) = user_data (th_entries h (dup_entry (th_timer_dups h ! x)))"

definition copies_ok :: "pj_timer_heap \<Rightarrow> bool" where
  "copies_ok h \<longleftrightarrow> (\<forall>x \<in> set (live h). copy_ok h x)"

section \<open>Schedule\<close>

lemma schedule_entry_spec:
  fixes t :: pj_time_val
  assumes inv: "th_inv ht" and mem: "length mem = th_max_size ht" and e: "timer_id (th_entries ht e) < 1"
  defines "r \<equiv> schedule_entry (True, True, True) mem ht e t"
  obtains f where "fst r = PJ_SUCCESS" "th_inv (snd r)" "active (snd r) = add_mset (e, t) (active ht)"
    "1 \<le> f" "th_entries (snd r) = (th_entries ht)(e := (th_entries ht e)\<lparr>timer_id := int f\<rparr>)"
    "mset (live (snd r)) = add_mset f (mset (live ht))" "f \<notin> set (live ht)"
    "f < length (th_timer_dups (snd r))" "dup_entry (th_timer_dups (snd r) ! f) = e"
    "dup (th_timer_dups (snd r) ! f) = th_entries (snd r) e"
    "\<And>x. x \<in> set (live ht) \<Longrightarrow> th_timer_dups (snd r) ! x = th_timer_dups ht ! x"
    "th_refs (snd r) = th_refs ht" "th_max_entries_per_poll (snd r) = th_max_entries_per_poll ht"
proof -
  note i = inv [unfolded th_inv_def]
  obtain f fs where f: "free_ok ht (f # fs)" "fst (pop_freelist ht) = int f" "th_popped (snd (pop_freelist ht)) f fs"
    by (rule pop_popped [OF inv])
  define g where "g = upd_entry e (\<lambda>e. e\<lparr>timer_id := int f\<rparr>) (snd (pop_freelist ht))"
  have gf: "th_cur_size g = th_cur_size ht" "th_max_size g = th_max_size ht" "th_timer_dups g = th_timer_dups ht"
    "th_refs g = th_refs ht" "th_max_entries_per_poll g = th_max_entries_per_poll ht" "th_heap g = th_heap ht"
    "th_entries g = (th_entries ht)(e := (th_entries ht e)\<lparr>timer_id := int f\<rparr>)"
    by (simp_all add: g_def upd_entry_def pop_freelist_def)
  have p: "th_popped g f fs" using f(3) by (simp add: g_def upd_entry_def)
  have r: "r = insert_node (True, True, True) mem g e t"
    using i f(2) by (simp add: r_def schedule_entry_def g_def split_beta)
  have f1: "1 \<le> f" "f \<notin> set (live ht)" "f < th_max_size ht" using f(1) by (auto simp: free_ok_def)
  have lx: "x < th_max_size ht \<and> dup_entry (th_timer_dups ht ! x) \<noteq> e
      \<and> timer_id (th_entries ht (dup_entry (th_timer_dups ht ! x))) = int x" if "x \<in> set (live ht)" for x
  proof -
    have "timer_id (th_entries ht (dup_entry (th_timer_dups ht ! x))) = int x" using i that by (simp add: entries_ok_def)
    moreover have "x < th_max_size ht \<and> 1 \<le> x" by (rule liveE [OF that inv]) blast
    ultimately show ?thesis using e by auto
  qed
  obtain k ks where k: "r = (PJ_SUCCESS, insert_at k e t)" "th_popped k f ks" "th_cur_size k + 2 < th_max_size k"
    "live k = live ht" "th_entries k = th_entries g" "th_refs k = th_refs ht"
    "th_max_entries_per_poll k = th_max_entries_per_poll ht"
    "\<And>x. x < th_max_size ht \<Longrightarrow> th_timer_dups k ! x = th_timer_dups ht ! x" "th_max_size ht \<le> th_max_size k"
  proof (cases "th_cur_size g + 2 < th_max_size g")
    case True
    show thesis by (rule that [of g fs]) (use True p gf in \<open>simp_all add: r insert_node_room\<close>)
  next
    case False
    note gr = grow_popped [OF p mem [folded gf(2)]]
    have "th_cur_size ht + 2 \<le> th_max_size ht" using i by blast
    then have "th_cur_size g + 2 < th_max_size g * 2" using gf by simp
    then show thesis
      using that [of "snd (grow_heap (True, True, True) mem g)"] gr gf False
      by (simp add: r insert_node_grown)
  qed
  have id: "timer_id (th_entries k e) = int f" using k(5) gf by simp
  have others: "dup_entry (th_timer_dups k ! x) \<noteq> e \<and> timer_id (th_entries k (dup_entry (th_timer_dups k ! x))) = int x"
    if "x \<in> set (live k)" for x
    using lx [of x] that k(4,5,8) gf by auto
  note ins = insert_at_spec [OF k(2,3) id others, of t]
  obtain h' ids' where s: "insert_at k e t = k\<lparr>th_cur_size := th_cur_size k + 1, th_timer_dups := (th_timer_dups k)[f :=
        \<lparr>dup = th_entries k e, dup_entry = e, timer_value = t, dup_grp_lock = None\<rparr>], th_heap := h', th_timer_ids := ids'\<rparr>"
    using ins(3) by blast
  have fk: "f < length (th_timer_dups k)" using k(2,9) f1(3) unfolding th_popped_def by linarith
  have "active k = active ht"
    unfolding active_def k(4) using lx k(8) by (auto intro!: image_mset_cong)
  then have a: "active (snd r) = add_mset (e, t) (active ht)" using ins(2) k(1) by simp
  have d: "th_timer_dups (snd r) ! x = th_timer_dups ht ! x" if "x \<in> set (live ht)" for x
  proof -
    have "x \<noteq> f" using that f1(2) by blast
    then show ?thesis using k(8) lx [OF that] by (simp add: k(1) s)
  qed
  show thesis
    by (rule that [of f]) (use k ins a d f1 fk gf in \<open>simp_all add: s\<close>)
qed

lemma schedule_w_grp_lock_spec:
  fixes set_id :: "int option" and grp :: "nat option" and now delay :: pj_time_val
  assumes inv: "th_inv ht" and mem: "length mem = th_max_size ht" and cb: "te_cb (th_entries ht e) \<noteq> 0"
    and e: "\<not> pj_timer_entry_running (th_entries ht e)"
  defines "r \<equiv> schedule_w_grp_lock (True, True, True) mem now ht e delay set_id grp"
  shows "fst r = PJ_SUCCESS" "th_inv (snd r)" "active (snd r) = add_mset (e, PJ_TIME_VAL_ADD now delay) (active ht)"
    "pj_timer_entry_running (th_entries (snd r) e)" "\<And>e'. e' \<noteq> e \<Longrightarrow> th_entries (snd r) e' = th_entries ht e'"
    "other_refs (snd r) = other_refs ht" "th_max_entries_per_poll (snd r) = th_max_entries_per_poll ht"
    "copies_ok ht \<Longrightarrow> copies_ok (snd r)"
    "te_id (th_entries (snd r) e) = (case set_id of None \<Rightarrow> te_id (th_entries ht e) | Some v \<Rightarrow> v)"
    "te_cb (th_entries (snd r) e) = te_cb (th_entries ht e)"
    "th_refs (snd r) = (case grp of None \<Rightarrow> th_refs ht | Some g \<Rightarrow> (th_refs ht)(g := th_refs ht g + 1))"
    "dup_grp_lock (th_timer_dups (snd r) ! nat (timer_id (th_entries (snd r) e))) = grp"
    "\<And>x. x \<in> set (live ht) \<Longrightarrow> th_timer_dups (snd r) ! x = th_timer_dups ht ! x"
proof -
  have e': "timer_id (th_entries ht e) < 1" using e by (simp add: pj_timer_entry_running_def)
  let ?t = "PJ_TIME_VAL_ADD now delay" and ?q = "schedule_entry (True, True, True) mem ht e (PJ_TIME_VAL_ADD now delay)"
  obtain f where f: "fst ?q = PJ_SUCCESS" "th_inv (snd ?q)" "active (snd ?q) = add_mset (e, ?t) (active ht)"
    "1 \<le> f" "th_entries (snd ?q) = (th_entries ht)(e := (th_entries ht e)\<lparr>timer_id := int f\<rparr>)"
    "mset (live (snd ?q)) = add_mset f (mset (live ht))" "f \<notin> set (live ht)"
    "f < length (th_timer_dups (snd ?q))" "dup_entry (th_timer_dups (snd ?q) ! f) = e"
    "dup (th_timer_dups (snd ?q) ! f) = th_entries (snd ?q) e"
    "\<And>x. x \<in> set (live ht) \<Longrightarrow> th_timer_dups (snd ?q) ! x = th_timer_dups ht ! x"
    "th_refs (snd ?q) = th_refs ht" "th_max_entries_per_poll (snd ?q) = th_max_entries_per_poll ht"
    by (rule schedule_entry_spec [OF inv mem e', of "?t"]) blast
  define a where "a = (case set_id of None \<Rightarrow> snd ?q | Some v \<Rightarrow>
      upd_node f (\<lambda>d. d\<lparr>dup := (dup d)\<lparr>te_id := v\<rparr>\<rparr>) (upd_entry e (\<lambda>e. e\<lparr>te_id := v\<rparr>) (snd ?q)))"
  define b where "b = upd_node f (\<lambda>d. d\<lparr>dup_grp_lock := grp\<rparr>) a"
  have r: "r = (PJ_SUCCESS, case grp of None \<Rightarrow> b | Some g \<Rightarrow> b\<lparr>th_refs := (th_refs b)(g := th_refs b g + 1)\<rparr>)"
  proof -
    have "timer_id (th_entries (snd ?q) e) = int f" using f(5) by simp
    then show ?thesis
      using cb e f(1) unfolding r_def b_def a_def schedule_w_grp_lock_def Let_def by (simp add: split_beta split: option.splits)
  qed
  have sa: "same_timers (snd ?q) a"
  proof (cases set_id)
    case (Some v)
    show ?thesis unfolding a_def Some option.case
      by (rule same_timers_trans [OF same_timers_upd_entry same_timers_upd_node]) simp_all
  qed (simp add: a_def same_timers_def)
  have sb: "same_timers (snd ?q) b"
    unfolding b_def by (rule same_timers_trans [OF sa same_timers_upd_node]) simp
  have sr: "same_timers (snd ?q) (snd r)"
    unfolding r by (cases grp) (auto intro: sb same_timers_trans [OF sb same_timers_refs])
  show "fst r = PJ_SUCCESS" by (simp add: r)
  show "th_inv (snd r)" by (rule same_timers_inv [OF sr f(2)])
  show "active (snd r) = add_mset (e, ?t) (active ht)" using same_timers_active [OF sr] f(3) by simp
  show "pj_timer_entry_running (th_entries (snd r) e)"
    using f(4,5) by (auto simp: r b_def a_def upd_node_def upd_entry_def pj_timer_entry_running_def split: option.splits)
  show others: "th_entries (snd r) e' = th_entries ht e'" if "e' \<noteq> e" for e'
    using f(5) that by (auto simp: r b_def a_def upd_node_def upd_entry_def split: option.splits)
  show "th_max_entries_per_poll (snd r) = th_max_entries_per_poll ht"
    using f(13) by (auto simp: r b_def a_def upd_node_def upd_entry_def split: option.splits)
  show "te_id (th_entries (snd r) e) = (case set_id of None \<Rightarrow> te_id (th_entries ht e) | Some v \<Rightarrow> v)"
    "te_cb (th_entries (snd r) e) = te_cb (th_entries ht e)"
    using f(5) by (auto simp: r b_def a_def upd_node_def upd_entry_def split: option.splits)
  show "th_refs (snd r) = (case grp of None \<Rightarrow> th_refs ht | Some g \<Rightarrow> (th_refs ht)(g := th_refs ht g + 1))"
    using f(12) by (auto simp: r b_def a_def upd_node_def upd_entry_def split: option.splits)
  have "timer_id (th_entries (snd r) e) = int f"
    using f(5) by (auto simp: r b_def a_def upd_node_def upd_entry_def split: option.splits)
  then show "dup_grp_lock (th_timer_dups (snd r) ! nat (timer_id (th_entries (snd r) e))) = grp"
    using f(8) by (auto simp: r b_def a_def upd_node_def upd_entry_def split: option.splits)
  show old: "th_timer_dups (snd r) ! x = th_timer_dups ht ! x" if "x \<in> set (live ht)" for x
  proof -
    have "x \<noteq> f" using that f(7) by blast
    then show ?thesis using f(11) [OF that]
      by (auto simp: r b_def a_def upd_node_def upd_entry_def split: option.splits)
  qed
  show "copies_ok (snd r)" if c: "copies_ok ht"
    unfolding copies_ok_def
  proof
    fix x assume "x \<in> set (live (snd r))"
    then have "x \<in> set (live (snd ?q))" using sr by (simp add: same_timers_def)
    then have "x = f \<or> x \<in> set (live ht)" using arg_cong [OF f(6), of set_mset] by auto
    then show "copy_ok (snd r) x"
    proof
      assume "x = f"
      then show ?thesis using f(8-10)
        by (auto simp: r b_def a_def upd_node_def upd_entry_def split: option.splits)
    next
      assume x: "x \<in> set (live ht)"
      then have "dup_entry (th_timer_dups ht ! x) \<noteq> e" using inv e'
        by (metis dual_order.refl entries_ok_def liveE linorder_not_less of_nat_1 of_nat_mono th_inv_def order_less_le_trans)
      then show ?thesis using c x old [OF x] others [of "dup_entry (th_timer_dups ht ! x)"] by (simp add: copies_ok_def)
    qed
  qed
  show "other_refs (snd r) = other_refs ht"
  proof
    fix g
    have "live (snd r) = live (snd ?q)" using sr by (simp add: same_timers_def)
    moreover note old
    moreover have "dup_grp_lock (th_timer_dups (snd r) ! f) = grp"
      using f(8) by (auto simp: r b_def a_def upd_node_def upd_entry_def split: option.splits)
    ultimately have "lock_refs (snd r) g = lock_refs ht g + (if grp = Some g then 1 else 0)"
      using lock_refs_add [of "snd r" f ht g] f(6) by simp
    moreover have "th_refs (snd r) g = th_refs ht g + (if grp = Some g then 1 else 0)"
      using f(12) by (auto simp: r b_def a_def upd_node_def upd_entry_def split: option.splits)
    ultimately show "other_refs (snd r) g = other_refs ht g" by (simp add: other_refs_def)
  qed
qed

section \<open>Cancel\<close>

lemma active_iff: "(e, t) \<in># active ht \<longleftrightarrow> (\<exists>x \<in> set (live ht). dup_entry (th_timer_dups ht ! x) = e \<and> node_value ht x = t)"
  by (auto simp: active_def image_iff)

lemma running_id:
  assumes "th_inv ht" and "x \<in> set (live ht)"
  shows "timer_id (th_entries ht (dup_entry (th_timer_dups ht ! x))) = int x"
  using assms by (simp add: th_inv_def entries_ok_def)

text \<open>An entry is in the heap at most once.\<close>

lemma active_unique:
  assumes "th_inv ht" and "(e, t) \<in># active ht" and "(e, t') \<in># active ht"
  shows "t = t'"
  using assms running_id [OF assms(1)] unfolding active_iff by (metis of_nat_eq_iff)

lemma free_id_negative:
  assumes inv: "th_inv ht" and x: "1 \<le> x" "x < th_max_size ht" "x \<notin> set (live ht)"
  shows "th_timer_ids ht ! x < 0"
proof -
  obtain fs where fs: "free_ok ht fs" using inv by (auto simp: th_inv_def)
  then have "x \<in> set fs" "\<forall>y \<in> set fs. 1 \<le> y" "0 < th_max_size ht" using x by (auto simp: free_ok_def)
  then show ?thesis using fs chain_neg by (metis free_ok_def)
qed

lemma cancel_running:
  assumes inv: "th_inv ht" and i: "i < th_cur_size ht" and e: "dup_entry (th_timer_dups ht ! (th_heap ht ! i)) = e"
  shows "cancel ht e = (fst (remove_node ht i), 1)"
proof -
  define x where "x = th_heap ht ! i"
  have xl: "x \<in> set (live ht)" unfolding x_def by (rule live_nth [OF i inv])
  have x: "1 \<le> x" "x < th_max_size ht" by (rule liveE [OF xl inv], blast)+
  have slot: "th_timer_ids ht ! x = int i" using inv i by (simp add: th_inv_def back_ok_def x_def)
  have "timer_id (th_entries ht e) = int x" using running_id [OF inv xl] e by (simp add: x_def)
  then show ?thesis using x slot e [symmetric] by (simp add: cancel_def)
qed

lemma cancel_idle:
  assumes inv: "th_inv ht" and e: "\<And>x. x \<in> set (live ht) \<Longrightarrow> dup_entry (th_timer_dups ht ! x) \<noteq> e"
  shows "cancel ht e = (upd_entry e (\<lambda>e. e\<lparr>timer_id := -1\<rparr>) ht, 0)"
proof (cases "timer_id (th_entries ht e) < 1 \<or> int (th_max_size ht) \<le> timer_id (th_entries ht e)
    \<or> th_timer_ids ht ! nat (timer_id (th_entries ht e)) < 0")
  case False
  define x where "x = nat (timer_id (th_entries ht e))"
  have x: "1 \<le> x" "x < th_max_size ht" "\<not> th_timer_ids ht ! x < 0" using False by (auto simp: x_def)
  then have xl: "x \<in> set (live ht)" using free_id_negative [OF inv] by blast
  obtain j where "j < th_cur_size ht" "th_heap ht ! j = x" "th_timer_ids ht ! x = int j"
    by (rule liveE [OF xl inv]) blast
  then show ?thesis using e [OF xl] False by (simp add: cancel_def x_def [symmetric])
qed (auto simp: cancel_def Let_def)

lemma cancel_timer_idle:
  assumes "th_inv ht" and "e \<notin> fst ` set_mset (active ht)"
  shows "cancel_timer ht e set_id = (upd_entry e (\<lambda>e. e\<lparr>timer_id := -1\<rparr>) ht, 0)"
proof -
  have "cancel ht e = (upd_entry e (\<lambda>e. e\<lparr>timer_id := -1\<rparr>) ht, 0)"
    by (rule cancel_idle [OF assms(1)]) (use assms(2) in \<open>auto simp: active_def image_image\<close>)
  then show ?thesis by (simp add: cancel_timer_def Let_def)
qed

lemma cancel_timer_running:
  fixes set_id :: "int option"
  assumes inv: "th_inv ht" and e: "(e, t) \<in># active ht"
  defines "r \<equiv> cancel_timer ht e set_id"
  shows "snd r = 1" "th_inv (fst r)" "active (fst r) = active ht - {#(e, t)#}"
    "timer_id (th_entries (fst r) e) = -1" "\<And>e'. e' \<noteq> e \<Longrightarrow> th_entries (fst r) e' = th_entries ht e'"
    "other_refs (fst r) = other_refs ht" "th_max_entries_per_poll (fst r) = th_max_entries_per_poll ht"
    "\<not> cancel_reads_outside ht e"
    "\<And>y. y \<in> set (live (fst r)) \<Longrightarrow> y \<in> set (live ht) \<and> th_timer_dups (fst r) ! y = th_timer_dups ht ! y"
    "te_id (th_entries (fst r) e) = (case set_id of None \<Rightarrow> te_id (th_entries ht e) | Some v \<Rightarrow> v)"
    "te_cb (th_entries (fst r) e) = te_cb (th_entries ht e)"
    "th_refs (fst r) = (case dup_grp_lock (th_timer_dups ht ! nat (timer_id (th_entries ht e))) of
       None \<Rightarrow> th_refs ht | Some g \<Rightarrow> (th_refs ht)(g := th_refs ht g - 1))"
proof -
  obtain x where x: "x \<in> set (live ht)" "dup_entry (th_timer_dups ht ! x) = e" "node_value ht x = t"
    using e by (auto simp: active_iff)
  then obtain i where i: "i < th_cur_size ht" "th_heap ht ! i = x" "x < th_max_size ht" using inv liveE by metis
  note rm = remove_node_spec [OF inv i(1), unfolded i(2)]
  let ?q = "fst (remove_node ht i)" and ?d = "dup_grp_lock (th_timer_dups ht ! x)"
  obtain h' ids' where q: "?q = (unlink ht x)\<lparr>th_heap := h', th_timer_ids := ids'\<rparr>" using rm(2) by blast
  have tid: "timer_id (th_entries ht e) = int x" using running_id [OF inv x(1)] x(2) by simp
  have len: "x < length (th_timer_dups ht)" using i(3) inv by (simp add: th_inv_def)
  show out: "\<not> cancel_reads_outside ht e" using tid len by (simp add: cancel_reads_outside_def)
  define a where "a = (case set_id of None \<Rightarrow> ?q | Some v \<Rightarrow> upd_entry e (\<lambda>e. e\<lparr>te_id := v\<rparr>) ?q)"
  have r: "r = (case ?d of None \<Rightarrow> a | Some g \<Rightarrow> a\<lparr>th_refs := (th_refs a)(g := th_refs a g - 1)\<rparr>, 1)"
    using cancel_running [OF inv i(1)] i(2) x(2) out tid
    unfolding r_def cancel_timer_def a_def by (simp add: Let_def split: option.splits)
  have "same_timers ?q a" unfolding a_def
    by (cases set_id) (simp_all add: same_timers_upd_entry, simp add: same_timers_def)
  then have sr: "same_timers ?q (fst r)"
    unfolding r by (cases ?d) (auto intro: same_timers_trans [OF _ same_timers_refs])
  show "snd r = 1" by (simp add: r)
  show "th_inv (fst r)" by (rule same_timers_inv [OF sr rm(3)])
  show "active (fst r) = active ht - {#(e, t)#}" using same_timers_active [OF sr] rm(4) x(2,3) by simp
  have ent: "th_entries ?q = (th_entries ht)(e := (th_entries ht e)\<lparr>timer_id := -1\<rparr>)"
    using x(2) by (simp add: q unlink_def)
  show "timer_id (th_entries (fst r) e) = -1"
    using ent by (auto simp: r a_def upd_entry_def split: option.splits)
  show "te_id (th_entries (fst r) e) = (case set_id of None \<Rightarrow> te_id (th_entries ht e) | Some v \<Rightarrow> v)"
    "te_cb (th_entries (fst r) e) = te_cb (th_entries ht e)"
    using ent by (auto simp: r a_def upd_entry_def split: option.splits)
  show "th_refs (fst r) = (case dup_grp_lock (th_timer_dups ht ! nat (timer_id (th_entries ht e))) of
       None \<Rightarrow> th_refs ht | Some g \<Rightarrow> (th_refs ht)(g := th_refs ht g - 1))"
    using tid by (auto simp: r a_def q unlink_def upd_entry_def split: option.splits)
  show "th_entries (fst r) e' = th_entries ht e'" if "e' \<noteq> e" for e'
    using ent that by (auto simp: r a_def upd_entry_def split: option.splits)
  show "th_max_entries_per_poll (fst r) = th_max_entries_per_poll ht"
    by (auto simp: r a_def q unlink_def upd_entry_def split: option.splits)
  have lq: "live (fst r) = live ?q" "th_timer_dups (fst r) = th_timer_dups ?q"
    using sr by (auto simp: same_timers_def r a_def upd_entry_def split: option.splits)
  show "y \<in> set (live ht) \<and> th_timer_dups (fst r) ! y = th_timer_dups ht ! y" if "y \<in> set (live (fst r))" for y
    using that rm(6) unfolding lq by (simp add: q unlink_def)
  show "other_refs (fst r) = other_refs ht"
  proof
    fix g
    have refs: "th_refs ?q = th_refs ht" by (simp add: q unlink_def)
    have "dup_grp_lock (th_timer_dups ?q ! y) = dup_grp_lock (th_timer_dups ht ! y)" for y
      using len by (cases "y = x") (simp_all add: q unlink_def)
    then have l: "lock_refs ht g = lock_refs ?q g + (if ?d = Some g then 1 else 0)"
      using rm(5) x(1) by (intro lock_refs_remove) simp_all
    have "lock_refs (fst r) g = lock_refs ?q g" using lq by (simp add: lock_refs_def)
    moreover have "th_refs (fst r) g = th_refs ht g - (if ?d = Some g then 1 else 0)"
      using refs by (auto simp: r a_def upd_entry_def split: option.splits)
    ultimately show "other_refs (fst r) g = other_refs ht g" using l by (simp add: other_refs_def)
  qed
qed

section \<open>Poll\<close>

text \<open>
  One round fires a timer that expires first: \<open>fired\<close> is the heap when the callback runs.
\<close>

lemma poll_round_spec:
  fixes cb :: "nat \<Rightarrow> nat \<Rightarrow> pj_timer_heap \<Rightarrow> pj_timer_heap"
  assumes inv: "th_inv ht" and ne: "th_cur_size ht \<noteq> 0"
  defines "t \<equiv> node_value ht (th_heap ht ! 0)" and "x \<equiv> th_heap ht ! 0"
  defines "d \<equiv> th_timer_dups ht ! x" and "e \<equiv> dup_entry (th_timer_dups ht ! x)"
  defines "valid \<equiv> te_cb (dup (th_timer_dups ht ! x)) = te_cb (th_entries ht e)
      \<and> user_data (dup (th_timer_dups ht ! x)) = user_data (th_entries ht e)"
  obtains fired where "th_inv fired" "active fired = active ht - {#(e, t)#}" "(e, t) \<in># active ht"
    "\<And>p. p \<in># active ht \<Longrightarrow> t \<le> snd p"
    "th_entries fired = (th_entries ht)(e := (th_entries ht e)\<lparr>timer_id := -1\<rparr>)"
    "th_max_entries_per_poll fired = th_max_entries_per_poll ht" "th_refs fired = th_refs ht"
    "\<And>g. lock_refs ht g = lock_refs fired g + (if dup_grp_lock d = Some g then 1 else 0)"
    "\<And>y. y \<in> set (live fired) \<Longrightarrow> y \<in> set (live ht) \<and> th_timer_dups fired ! y = th_timer_dups ht ! y"
    "x \<in> set (live ht)"
    "poll_round cb ht =
      (let h = (if valid \<and> te_cb (th_entries ht e) \<noteq> 0 then cb (te_cb (th_entries ht e)) e fired else fired)
       in (case dup_grp_lock d of None \<Rightarrow> h
           | Some g \<Rightarrow> if valid then h\<lparr>th_refs := (th_refs h)(g := th_refs h g - 1)\<rparr> else h, e))"
proof -
  have i: "0 < th_cur_size ht" using ne by simp
  note rm = remove_node_spec [OF inv i, folded x_def]
  define r where "r = fst (remove_node ht 0)"
  note rm = rm [folded r_def]
  obtain h' ids' where q: "r = (unlink ht x)\<lparr>th_heap := h', th_timer_ids := ids'\<rparr>" using rm(2) by blast
  have xl: "x \<in> set (live ht)" unfolding x_def by (rule live_nth [OF i inv])
  have xm: "x < th_max_size ht" by (rule liveE [OF xl inv])
  then have len: "x < length (th_timer_dups ht)" using inv by (simp add: th_inv_def)
  define fired where "fired = upd_node x (\<lambda>d. d\<lparr>dup_grp_lock := None\<rparr>) r"
  have same: "same_timers r fired" unfolding fired_def by (rule same_timers_upd_node) simp
  have xq: "th_timer_dups r ! x = d\<lparr>dup := (dup d)\<lparr>timer_id := -1\<rparr>\<rparr>" using len by (simp add: q unlink_def d_def)
  have ent: "th_entries fired = (th_entries ht)(e := (th_entries ht e)\<lparr>timer_id := -1\<rparr>)"
    by (simp add: fired_def upd_node_def q unlink_def e_def)
  have rest: "y \<in> set (live ht) \<and> th_timer_dups fired ! y = th_timer_dups ht ! y" if "y \<in> set (live fired)" for y
    using that rm(6) same by (simp add: same_timers_def) (simp add: fired_def upd_node_def q unlink_def)
  show thesis
  proof (rule that [of fired])
    show "th_inv fired" by (rule same_timers_inv [OF same rm(3)])
    show "active fired = active ht - {#(e, t)#}" using same_timers_active [OF same] rm(4) by (simp add: e_def t_def x_def)
    show "(e, t) \<in># active ht" using xl by (auto simp: active_iff e_def t_def x_def)
    show "t \<le> snd p" if p: "p \<in># active ht" for p
    proof -
      obtain y where y: "y \<in> set (live ht)" "snd p = node_value ht y" using p by (auto simp: active_def)
      then obtain j where "j < th_cur_size ht" "th_heap ht ! j = y" using inv liveE by metis
      then show ?thesis
        using heap_on_root [of "th_cur_size ht" "\<lambda>x. node_value ht x" "th_heap ht" j] inv y(2)
        by (simp add: th_inv_def t_def)
    qed
    show "th_entries fired = (th_entries ht)(e := (th_entries ht e)\<lparr>timer_id := -1\<rparr>)" by (rule ent)
    show "th_max_entries_per_poll fired = th_max_entries_per_poll ht" "th_refs fired = th_refs ht"
      by (simp_all add: fired_def upd_node_def q unlink_def)
    show "lock_refs ht g = lock_refs fired g + (if dup_grp_lock d = Some g then 1 else 0)" for g
      unfolding d_def
    proof (rule lock_refs_remove)
      show "mset (live fired) = mset (live ht) - {#x#}" using rm(5) by (simp add: fired_def upd_node_def)
      show "x \<in> set (live ht)" by (rule xl)
      show "dup_grp_lock (th_timer_dups fired ! y) = dup_grp_lock (th_timer_dups ht ! y)" if "y \<in> set (live fired)" for y
        using rest [OF that] by simp
    qed
    show "y \<in> set (live ht) \<and> th_timer_dups fired ! y = th_timer_dups ht ! y" if "y \<in> set (live fired)" for y
      by (rule rest [OF that])
    show "x \<in> set (live ht)" by (rule xl)
    have rn: "remove_node ht 0 = (r, x)" using rm(1) by (simp add: prod_eq_iff r_def)
    have de: "dup_entry (th_timer_dups r ! x) = e" "dup_grp_lock (th_timer_dups r ! x) = dup_grp_lock d"
      "te_cb (dup (th_timer_dups r ! x)) = te_cb (dup (th_timer_dups ht ! x))"
      "user_data (dup (th_timer_dups r ! x)) = user_data (dup (th_timer_dups ht ! x))"
      using xq by (simp_all add: d_def e_def)
    have ee: "te_cb (th_entries fired e) = te_cb (th_entries ht e)" "user_data (th_entries fired e) = user_data (th_entries ht e)"
      by (simp_all add: ent)
    show "poll_round cb ht =
      (let h = (if valid \<and> te_cb (th_entries ht e) \<noteq> 0 then cb (te_cb (th_entries ht e)) e fired else fired)
       in (case dup_grp_lock d of None \<Rightarrow> h
           | Some g \<Rightarrow> if valid then h\<lparr>th_refs := (th_refs h)(g := th_refs h g - 1)\<rparr> else h, e))"
      unfolding poll_round_def rn prod.case Let_def fired_def [symmetric] de ee valid_def [symmetric] by (rule refl)
  qed
qed

end
