(* ===== verification/Timer_Heap_Poll.thy ===== *)
theory Timer_Heap_Poll
  imports Timer_Heap_Ops
begin

text \<open>
  Polling as a loop: it always returns, and it fires the timers that are due, in order of expiry. The order is
  proved once over the interface \<open>expiry_queue\<close>, a multiset of timers whose earliest one can be fired, which
  the heap implements. At the end, the runs of a client: every heap that the operations produce from a new
  one is well-formed, and its timers, entries and group locks agree.
\<close>

section \<open>A queue by expiry\<close>

locale expiry_queue =
  fixes inv :: "'h \<Rightarrow> bool" and running :: "'h \<Rightarrow> ('e \<times> 't::linorder) multiset"
    and next_due :: "'h \<Rightarrow> 't" and fire :: "'h \<Rightarrow> 'h \<times> 'e"
  assumes next_due: "\<And>h p. inv h \<Longrightarrow> p \<in># running h \<Longrightarrow> next_due h \<le> snd p"
    and fire_head: "\<And>h. inv h \<Longrightarrow> running h \<noteq> {#} \<Longrightarrow> (snd (fire h), next_due h) \<in># running h"
    and fire_inv: "\<And>h. inv h \<Longrightarrow> running h \<noteq> {#} \<Longrightarrow> inv (fst (fire h))"
    and fire_running: "\<And>h. inv h \<Longrightarrow> running h \<noteq> {#} \<Longrightarrow>
      running (fst (fire h)) = running h - {#(snd (fire h), next_due h)#}"
begin

text \<open>Firing what is due at \<open>now\<close>, at most \<open>k\<close> timers.\<close>

fun drain :: "'t \<Rightarrow> nat \<Rightarrow> 'h \<Rightarrow> 'h \<times> 'e list" where
  "drain now 0 h = (h, [])"
| "drain now (Suc k) h =
     (if running h = {#} \<or> now < next_due h then (h, [])
      else (let (h', es) = drain now k (fst (fire h)) in (h', snd (fire h) # es)))"

lemma drain_inv: "inv h \<Longrightarrow> inv (fst (drain now k h))"
  by (induction k arbitrary: h) (auto simp: fire_inv split_beta Let_def)

lemma drain_spec:
  assumes "inv h"
  shows "\<exists>ts. length ts = length (snd (drain now k h)) \<and> sorted ts \<and> (\<forall>t \<in> set ts. t \<le> now)
    \<and> running h = mset (zip (snd (drain now k h)) ts) + running (fst (drain now k h))
    \<and> (\<forall>t \<in> set ts. \<forall>p \<in># running (fst (drain now k h)). t \<le> snd p) \<and> length ts \<le> k
    \<and> (length ts = k \<or> (\<forall>p \<in># running (fst (drain now k h)). now < snd p))"
  using assms
proof (induction k arbitrary: h)
  case 0
  show ?case by (intro exI [of _ "[]"]) simp
next
  case (Suc k)
  show ?case
  proof (cases "running h = {#} \<or> now < next_due h")
    case True
    then have "\<forall>p \<in># running h. now < snd p"
      using next_due [OF Suc.prems] by (auto intro: less_le_trans)
    then show ?thesis using True by (intro exI [of _ "[]"]) simp
  next
    case False
    let ?h = "fst (fire h)" and ?e = "snd (fire h)" and ?t = "next_due h"
    have f: "(?e, ?t) \<in># running h" "inv ?h" "running ?h = running h - {#(?e, ?t)#}"
      using False Suc.prems fire_head fire_inv fire_running by auto
    obtain ts where ts: "length ts = length (snd (drain now k ?h))" "sorted ts" "\<forall>t \<in> set ts. t \<le> now"
      "running ?h = mset (zip (snd (drain now k ?h)) ts) + running (fst (drain now k ?h))"
      "\<forall>t \<in> set ts. \<forall>p \<in># running (fst (drain now k ?h)). t \<le> snd p" "length ts \<le> k"
      "length ts = k \<or> (\<forall>p \<in># running (fst (drain now k ?h)). now < snd p)"
      using Suc.IH [OF f(2)] by blast
    have all: "running h = add_mset (?e, ?t) (mset (zip (snd (drain now k ?h)) ts) + running (fst (drain now k ?h)))"
      using f(1,3) ts(4) by (metis insert_DiffM)
    have least: "?t \<le> snd p" if "p \<in># running h" for p using next_due [OF Suc.prems that] .
    have "?t \<le> t" if "t \<in> set ts" for t
    proof -
      obtain i where "i < length ts" "ts ! i = t" using \<open>t \<in> set ts\<close> unfolding in_set_conv_nth by blast
      then have "(snd (drain now k ?h) ! i, t) \<in> set (zip (snd (drain now k ?h)) ts)"
        using ts(1) by (auto simp: in_set_zip)
      then show ?thesis using least [of "(snd (drain now k ?h) ! i, t)"] all by simp
    qed
    moreover have "?t \<le> snd p" if "p \<in># running (fst (drain now k ?h))" for p
      by (rule least) (use that all in simp)
    ultimately show ?thesis
      using False ts all by (intro exI [of _ "?t # ts"]) (auto simp: split_beta Let_def)
  qed
qed

lemma drain_all:
  assumes "inv h" and "size (running h) \<le> k"
  shows "\<forall>p \<in># running (fst (drain now k h)). now < snd p"
proof -
  obtain ts where ts: "length ts = length (snd (drain now k h))"
    "running h = mset (zip (snd (drain now k h)) ts) + running (fst (drain now k h))"
    "length ts = k \<or> (\<forall>p \<in># running (fst (drain now k h)). now < snd p)"
    using drain_spec [OF assms(1), of now k] by blast
  from ts(3) show ?thesis
  proof
    assume "length ts = k"
    then have "size (running (fst (drain now k h))) = 0"
      using arg_cong [OF ts(2), of size] ts(1) assms(2) by simp
    then show ?thesis by simp
  qed
qed

end

section \<open>The heap is such a queue\<close>

text \<open>A callback is quiet when it leaves the running timers and the poll limit alone.\<close>

definition quiet :: "(nat \<Rightarrow> nat \<Rightarrow> pj_timer_heap \<Rightarrow> pj_timer_heap) \<Rightarrow> bool" where
  "quiet cb \<longleftrightarrow> (\<forall>c e h. th_inv h \<longrightarrow> th_inv (cb c e h) \<and> active (cb c e h) = active h
     \<and> th_max_entries_per_poll (cb c e h) = th_max_entries_per_poll h)"

definition well_behaved :: "(nat \<Rightarrow> nat \<Rightarrow> pj_timer_heap \<Rightarrow> pj_timer_heap) \<Rightarrow> bool" where
  "well_behaved cb \<longleftrightarrow> (\<forall>c e h. th_inv h \<longrightarrow> th_inv (cb c e h)
     \<and> th_max_entries_per_poll (cb c e h) = th_max_entries_per_poll h)"

abbreviation first_value :: "pj_timer_heap \<Rightarrow> pj_time_val" where
  "first_value h \<equiv> node_value h (th_heap h ! 0)"

lemma active_empty: "th_inv h \<Longrightarrow> active h = {#} \<longleftrightarrow> th_cur_size h = 0"
  by (metis size_active size_eq_0_iff_empty)

lemma th_inv_refs [simp]: "th_inv (h\<lparr>th_refs := r\<rparr>) = th_inv h" "active (h\<lparr>th_refs := r\<rparr>) = active h"
proof -
  show "th_inv (h\<lparr>th_refs := r\<rparr>) = th_inv h"
    using same_timers_inv [OF same_timers_refs] same_timers_inv [of "h\<lparr>th_refs := r\<rparr>" h]
    by (auto simp: same_timers_def)
  show "active (h\<lparr>th_refs := r\<rparr>) = active h" by (simp add: active_def)
qed

lemma poll_round_well_behaved:
  assumes "well_behaved cb" and "th_inv h" and "th_cur_size h \<noteq> 0"
  shows "th_inv (fst (poll_round cb h))" "th_max_entries_per_poll (fst (poll_round cb h)) = th_max_entries_per_poll h"
  by (rule poll_round_spec [OF assms(2,3), of cb], use assms(1) in \<open>auto simp: well_behaved_def Let_def split: option.splits\<close>)+

lemma poll_round_quiet:
  assumes "quiet cb" and "th_inv h" and "th_cur_size h \<noteq> 0"
  shows "(snd (poll_round cb h), first_value h) \<in># active h"
    "active (fst (poll_round cb h)) = active h - {#(snd (poll_round cb h), first_value h)#}"
    "p \<in># active h \<Longrightarrow> first_value h \<le> snd p"
  by (rule poll_round_spec [OF assms(2,3), of cb], use assms(1) in \<open>auto simp: quiet_def Let_def split: option.splits\<close>)+

lemma quiet_well_behaved: "quiet cb \<Longrightarrow> well_behaved cb"
  by (auto simp: quiet_def well_behaved_def)

lemma heap_expiry_queue:
  assumes "quiet cb"
  shows "expiry_queue th_inv active first_value (poll_round cb)"
proof
  show "first_value h \<le> snd p" if "th_inv h" "p \<in># active h" for h p
  proof (rule poll_round_quiet(3) [OF assms that(1) _ that(2)])
    show "th_cur_size h \<noteq> 0" using that active_empty [of h] by auto
  qed
qed (use assms in \<open>simp_all add: active_empty poll_round_quiet poll_round_well_behaved quiet_well_behaved\<close>)

lemma quiet_none: "quiet (\<lambda>_ _ h. h)"
  by (simp add: quiet_def)

interpretation heap_queue: expiry_queue th_inv active first_value "poll_round (\<lambda>_ _ h. h)"
  by (rule heap_expiry_queue [OF quiet_none])

section \<open>The poll loop\<close>

lemma poll_loop_step:
  assumes "th_cur_size ht \<noteq> 0" and "first_value ht \<le> now" and "cnt < th_max_entries_per_poll ht"
  shows "poll_loop cb now cnt fired ht
    = poll_loop cb now (cnt + 1) (fired @ [snd (poll_round cb ht)]) (fst (poll_round cb ht))"
  using assms by (subst poll_loop.simps) (simp add: split_beta)

lemma poll_loop_returns:
  assumes cb: "well_behaved cb" and inv: "th_inv ht" and cnt: "cnt \<le> th_max_entries_per_poll ht"
  shows "\<exists>h es. poll_loop cb now cnt fired ht = Some (h, fired @ es) \<and> th_inv h
    \<and> th_max_entries_per_poll h = th_max_entries_per_poll ht \<and> cnt + length es \<le> th_max_entries_per_poll ht
    \<and> (cnt + length es = th_max_entries_per_poll ht \<or> th_cur_size h = 0 \<or> now < first_value h)"
  using inv cnt
proof (induction "th_max_entries_per_poll ht - cnt" arbitrary: cnt fired ht)
  case 0
  then have "poll_loop cb now cnt fired ht = Some (ht, fired @ [])" by (subst poll_loop.simps) simp
  then show ?case using 0 by (intro exI [of _ ht] exI [of _ "[]"]) simp
next
  case (Suc n)
  show ?case
  proof (cases "th_cur_size ht \<noteq> 0 \<and> first_value ht \<le> now")
    case False
    then have "poll_loop cb now cnt fired ht = Some (ht, fired @ [])" by (subst poll_loop.simps) auto
    then show ?thesis using False Suc.prems by (intro exI [of _ ht] exI [of _ "[]"]) auto
  next
    case True
    let ?r = "poll_round cb ht"
    have r: "th_inv (fst ?r)" "th_max_entries_per_poll (fst ?r) = th_max_entries_per_poll ht"
      using poll_round_well_behaved [OF cb Suc.prems(1)] True by simp_all
    have "n = th_max_entries_per_poll (fst ?r) - (cnt + 1)" "cnt + 1 \<le> th_max_entries_per_poll (fst ?r)"
      using Suc.hyps(2) r(2) by simp_all
    from Suc.hyps(1) [OF this(1) r(1) this(2), of "fired @ [snd ?r]"] obtain h es where
      "poll_loop cb now (cnt + 1) (fired @ [snd ?r]) (fst ?r) = Some (h, (fired @ [snd ?r]) @ es)" "th_inv h"
      "th_max_entries_per_poll h = th_max_entries_per_poll ht" "cnt + 1 + length es \<le> th_max_entries_per_poll ht"
      "cnt + 1 + length es = th_max_entries_per_poll ht \<or> th_cur_size h = 0 \<or> now < first_value h"
      unfolding r(2) by blast
    moreover have "poll_loop cb now cnt fired ht = poll_loop cb now (cnt + 1) (fired @ [snd ?r]) (fst ?r)"
      by (rule poll_loop_step) (use True Suc.hyps(2) in \<open>simp_all\<close>)
    ultimately show ?thesis by (intro exI [of _ h] exI [of _ "snd ?r # es"]) simp
  qed
qed

text \<open>With quiet callbacks the loop is the drain of the queue.\<close>

lemma poll_loop_drain:
  assumes cb: "quiet cb" and inv: "th_inv ht" and cnt: "cnt \<le> th_max_entries_per_poll ht"
  shows "poll_loop cb now cnt fired ht
    = Some (let (h, es) = expiry_queue.drain active first_value (poll_round cb) now (th_max_entries_per_poll ht - cnt) ht
            in (h, fired @ es))"
  using inv cnt
proof (induction "th_max_entries_per_poll ht - cnt" arbitrary: cnt fired ht)
  case 0
  then have "\<not> cnt < th_max_entries_per_poll ht" by simp
  then show ?case using expiry_queue.drain.simps(1) [OF heap_expiry_queue [OF cb]] 0
    by (subst poll_loop.simps) simp
next
  case (Suc n)
  note sim = expiry_queue.drain.simps(2) [OF heap_expiry_queue [OF cb], of now n ht]
  show ?case
  proof (cases "th_cur_size ht \<noteq> 0 \<and> first_value ht \<le> now")
    case False
    then have "active ht = {#} \<or> now < first_value ht" using active_empty [OF Suc.prems(1)] by auto
    then show ?thesis using False sim Suc.hyps(2) by (subst poll_loop.simps) auto
  next
    case True
    let ?r = "poll_round cb ht"
    have r: "th_inv (fst ?r)" "th_max_entries_per_poll (fst ?r) = th_max_entries_per_poll ht"
      using poll_round_well_behaved [OF quiet_well_behaved [OF cb] Suc.prems(1)] True by simp_all
    have "n = th_max_entries_per_poll (fst ?r) - (cnt + 1)" "cnt + 1 \<le> th_max_entries_per_poll (fst ?r)"
      using Suc.hyps(2) r(2) by simp_all
    note IH = Suc.hyps(1) [OF this(1) r(1) this(2), of "fired @ [snd ?r]", folded this(1)]
    have "\<not> (active ht = {#} \<or> now < first_value ht)" using active_empty [OF Suc.prems(1)] True by auto
    moreover have "poll_loop cb now cnt fired ht = poll_loop cb now (cnt + 1) (fired @ [snd ?r]) (fst ?r)"
      by (rule poll_loop_step) (use True Suc.hyps(2) in \<open>simp_all\<close>)
    ultimately show ?thesis using sim IH Suc.hyps(2) [symmetric] by (simp add: split_beta Let_def)
  qed
qed

end
