(* ===== verification/Timer_Heap_Runs.thy ===== *)
theory Timer_Heap_Runs
  imports Timer_Heap_Poll
begin

text \<open>
  The runs of a client on a timer heap, and the properties of the heap: a heap produced by the operations from a
  new one is well-formed and agrees with its entries and group locks, whatever the order of the operations.
\<close>

section \<open>A new heap\<close>

lemma create_inv:
  assumes "length mem = size0 + 2"
  shows "th_inv (pj_timer_heap_create mem entries refs size0)" "active (pj_timer_heap_create mem entries refs size0) = {#}"
    "other_refs (pj_timer_heap_create mem entries refs size0) = refs"
proof -
  let ?ids = "map (\<lambda>i. - (int i + 1)) [0 ..< size0 + 2]" and ?h = "pj_timer_heap_create mem entries refs size0"
  have "[0 ..< size0 + 2] = 0 # [1 ..< 1 + (size0 + 1)]" by (simp add: upt_conv_Cons del: upt_Suc)
  then have "?ids = [-1] @ map (\<lambda>i. - (int i + 1)) [1 ..< 1 + (size0 + 1)]" by (simp del: upt_Suc)
  then have "chain ?ids 1 [1 ..< size0 + 2] (size0 + 2)"
    using chain_map [of "[-1]" 1 "size0 + 1"] by (simp del: upt_Suc)
  then have "free_ok ?h [1 ..< size0 + 2]"
    by (auto simp: free_ok_def pj_timer_heap_create_def Let_def)
  then show "th_inv ?h"
    using assms by (auto simp: th_inv_def pj_timer_heap_create_def nodes_ok_def back_ok_def heap_on_def entries_ok_def Let_def)
  show "active ?h = {#}" by (simp add: active_def pj_timer_heap_create_def Let_def)
  show "other_refs ?h = refs" by (auto simp: other_refs_def lock_refs_def pj_timer_heap_create_def Let_def)
qed

section \<open>Runs\<close>

text \<open>
  What clients do: create the heap, initialise an entry that is not running, schedule and cancel, set the
  limit; and what the poll does between two callbacks, which are steps of their own. Allocations succeed.
\<close>

inductive timer_run :: "(nat \<Rightarrow> int) \<Rightarrow> pj_timer_heap \<Rightarrow> bool" for refs0 where
  run_create: "length mem = size0 + 2 \<Longrightarrow> (\<And>e. timer_id (entries e) = -1) \<Longrightarrow>
     timer_run refs0 (pj_timer_heap_create mem entries refs0 size0)"
| run_init: "timer_run refs0 h \<Longrightarrow> \<not> pj_timer_entry_running (th_entries h e) \<Longrightarrow>
     timer_run refs0 (upd_entry e (\<lambda>d. pj_timer_entry_init d i data cb) h)"
| run_schedule: "timer_run refs0 h \<Longrightarrow> length mem = th_max_size h \<Longrightarrow>
     timer_run refs0 (snd (schedule_w_grp_lock (True, True, True) mem now h e delay set_id grp_lock))"
| run_cancel: "timer_run refs0 h \<Longrightarrow> timer_run refs0 (fst (cancel_timer h e set_id))"
| run_limit: "timer_run refs0 h \<Longrightarrow> timer_run refs0 (fst (pj_timer_heap_set_max_timed_out_per_poll h n))"
| run_fire: "timer_run refs0 h \<Longrightarrow> th_cur_size h \<noteq> 0 \<Longrightarrow>
     timer_run refs0 (fst (poll_round (\<lambda>_ _ h. h) h))"

definition run_inv :: "(nat \<Rightarrow> int) \<Rightarrow> pj_timer_heap \<Rightarrow> bool" where
  "run_inv refs0 h \<longleftrightarrow> th_inv h \<and> copies_ok h \<and> other_refs h = refs0
     \<and> (\<forall>e. pj_timer_entry_running (th_entries h e) \<longrightarrow> e \<in> fst ` set_mset (active h))"

lemma active_running:
  assumes "th_inv h" and "(e, t) \<in># active h"
  shows "pj_timer_entry_running (th_entries h e)"
proof -
  obtain x where x: "x \<in> set (live h)" "dup_entry (th_timer_dups h ! x) = e" using assms(2) by (auto simp: active_iff)
  have "1 \<le> x" by (rule liveE [OF x(1) assms(1)])
  then show ?thesis using running_id [OF assms(1) x(1)] x(2) by (simp add: pj_timer_entry_running_def)
qed

lemma active_once:
  assumes inv: "th_inv h"
  shows "count (active h) (e, t) \<le> 1"
proof -
  let ?f = "\<lambda>x. (dup_entry (th_timer_dups h ! x), node_value h x)"
  have "inj_on ?f (set (live h))"
    using running_id [OF inv] by (intro inj_onI) (metis fst_conv of_nat_eq_iff)
  moreover have "distinct (live h)" using inv by (simp add: th_inv_def nodes_ok_def)
  ultimately have "distinct (map ?f (live h))" by (simp add: distinct_map)
  moreover have "active h = mset (map ?f (live h))" by (simp add: active_def)
  ultimately show ?thesis by (simp add: distinct_count_atmost_1 del: mset_map)
qed

lemma active_minus:
  assumes "p \<in># active h" and "fst p \<noteq> e"
  shows "p \<in># active h - {#(e, t)#}"
  using assms by (cases p) (auto simp: in_diff_count)

text \<open>Taking the timer of \<open>e\<close> out of the heap: by cancelling or by firing.\<close>

lemma run_inv_take:
  assumes run: "run_inv refs0 h" and e: "(e, t) \<in># active h"
    and inv: "th_inv h'" and act: "active h' = active h - {#(e, t)#}" and refs: "other_refs h' = other_refs h"
    and ent: "timer_id (th_entries h' e) = -1" "\<And>e'. e' \<noteq> e \<Longrightarrow> th_entries h' e' = th_entries h e'"
    and dups: "\<And>x. x \<in> set (live h') \<Longrightarrow> x \<in> set (live h) \<and> th_timer_dups h' ! x = th_timer_dups h ! x"
  shows "run_inv refs0 h'"
  unfolding run_inv_def
proof (intro conjI allI impI)
  show "copies_ok h'"
    unfolding copies_ok_def
  proof
    fix x assume x: "x \<in> set (live h')"
    then have "dup_entry (th_timer_dups h' ! x) \<noteq> e"
      using active_running [OF inv, of e] ent(1) by (auto simp: active_iff pj_timer_entry_running_def)
    then show "copy_ok h' x" using ent(2) dups [OF x] run by (auto simp: run_inv_def copies_ok_def)
  qed
  fix e' assume "pj_timer_entry_running (th_entries h' e')"
  moreover from this have "e' \<noteq> e" using ent(1) by (auto simp: pj_timer_entry_running_def)
  ultimately have "e' \<in> fst ` set_mset (active h)" using ent(2) run by (simp add: run_inv_def)
  then show "e' \<in> fst ` set_mset (active h')" using \<open>e' \<noteq> e\<close> active_minus unfolding act by fastforce
qed (use run inv refs in \<open>simp_all add: run_inv_def\<close>)

lemma timer_run_inv:
  assumes "timer_run refs0 h"
  shows "run_inv refs0 h"
  using assms
proof (induction rule: timer_run.induct)
  case (run_create mem size0 entries)
  have "copies_ok (pj_timer_heap_create mem entries refs0 size0)"
    by (simp add: copies_ok_def pj_timer_heap_create_def Let_def)
  moreover have "timer_id (th_entries (pj_timer_heap_create mem entries refs0 size0) e) = -1" for e
    using run_create(2) by (simp add: pj_timer_heap_create_def Let_def)
  ultimately show ?case
    using create_inv [OF run_create(1)] by (simp add: run_inv_def pj_timer_entry_running_def)
next
  case (run_init h e i data cb)
  let ?h = "upd_entry e (\<lambda>d. pj_timer_entry_init d i data cb) h"
  have idle: "dup_entry (th_timer_dups h ! x) \<noteq> e" if "x \<in> set (live h)" for x
    using run_init active_running [of h e] that by (auto simp: run_inv_def active_iff)
  then have same: "same_timers h ?h" by (simp add: same_timers_def upd_entry_def)
  have "copies_ok ?h" using run_init.IH idle by (simp add: run_inv_def copies_ok_def upd_entry_def)
  moreover have "other_refs ?h = other_refs h" by (simp add: fun_eq_iff other_refs_def lock_refs_def upd_entry_def)
  moreover have "pj_timer_entry_running (th_entries h e')" if "pj_timer_entry_running (th_entries ?h e')" for e'
    using that by (cases "e' = e") (auto simp: upd_entry_def pj_timer_entry_init_def pj_timer_entry_running_def)
  ultimately show ?case
    using same_timers_inv [OF same] same_timers_active [OF same] run_init.IH by (simp add: run_inv_def)
next
  case (run_schedule h mem now e delay set_id grp_lock)
  show ?case
  proof (cases "te_cb (th_entries h e) = 0 \<or> pj_timer_entry_running (th_entries h e)")
    case True
    then have "snd (schedule_w_grp_lock (True, True, True) mem now h e delay set_id grp_lock) = h"
      by (auto simp: schedule_w_grp_lock_def Let_def)
    then show ?thesis using run_schedule.IH by simp
  next
    case False
    note s = schedule_w_grp_lock_spec [OF _ run_schedule(2), where e = e and now = now and delay = delay
        and set_id = set_id and grp = grp_lock]
    have "e' \<in> fst ` set_mset (active (snd (schedule_w_grp_lock (True, True, True) mem now h e delay set_id grp_lock)))"
      if "pj_timer_entry_running (th_entries (snd (schedule_w_grp_lock (True, True, True) mem now h e delay set_id grp_lock)) e')" for e'
      using that s(3,5) False run_schedule.IH by (cases "e' = e") (auto simp: run_inv_def)
    then show ?thesis using s False run_schedule.IH by (simp add: run_inv_def)
  qed
next
  case (run_cancel h e set_id)
  have inv: "th_inv h" using run_cancel.IH by (simp add: run_inv_def)
  show ?case
  proof (cases "e \<in> fst ` set_mset (active h)")
    case True
    then obtain t where e: "(e, t) \<in># active h" by auto
    note c = cancel_timer_running(2-7,9) [OF inv e, where set_id = set_id]
    show ?thesis by (rule run_inv_take [OF run_cancel.IH e c(1,2,5,3,4,7)])
  next
    case False
    let ?h = "upd_entry e (\<lambda>d. d\<lparr>timer_id := -1\<rparr>) h"
    have idle: "dup_entry (th_timer_dups h ! x) \<noteq> e" if "x \<in> set (live h)" for x
      using False that by (auto simp: active_def image_image)
    then have same: "same_timers h ?h" by (simp add: same_timers_def upd_entry_def)
    have "copies_ok ?h" using run_cancel.IH idle by (simp add: run_inv_def copies_ok_def upd_entry_def)
    moreover have "other_refs ?h = other_refs h" by (simp add: fun_eq_iff other_refs_def lock_refs_def upd_entry_def)
    moreover have "pj_timer_entry_running (th_entries h e')" if "pj_timer_entry_running (th_entries ?h e')" for e'
      using that by (cases "e' = e") (auto simp: upd_entry_def pj_timer_entry_running_def)
    ultimately show ?thesis
      using same_timers_inv [OF same inv] same_timers_active [OF same] run_cancel.IH cancel_timer_idle [OF inv False]
      by (simp add: run_inv_def)
  qed
next
  case (run_limit h n)
  have "same_timers h (h\<lparr>th_max_entries_per_poll := n\<rparr>)" by (simp add: same_timers_def)
  moreover have "other_refs (h\<lparr>th_max_entries_per_poll := n\<rparr>) = other_refs h"
    by (simp add: fun_eq_iff other_refs_def lock_refs_def)
  ultimately show ?case
    using same_timers_inv [of h "h\<lparr>th_max_entries_per_poll := n\<rparr>"] run_limit.IH
    by (simp add: same_timers_active pj_timer_heap_set_max_timed_out_per_poll_def run_inv_def copies_ok_def)
next
  case (run_fire h)
  have inv: "th_inv h" using run_fire.IH by (simp add: run_inv_def)
  define x where "x = th_heap h ! 0"
  define e where "e = dup_entry (th_timer_dups h ! x)"
  note spec = poll_round_spec [OF inv run_fire(2), of "\<lambda>_ _ h. h", folded x_def, folded e_def]
  let ?r = "fst (poll_round (\<lambda>_ _ h. h) h)" and ?g = "dup_grp_lock (th_timer_dups h ! x)"
  obtain f where f: "th_inv f" "active f = active h - {#(e, node_value h x)#}" "(e, node_value h x) \<in># active h"
    "th_entries f = (th_entries h)(e := (th_entries h e)\<lparr>timer_id := -1\<rparr>)" "th_refs f = th_refs h"
    "\<And>g. lock_refs h g = lock_refs f g + (if ?g = Some g then 1 else 0)"
    "\<And>y. y \<in> set (live f) \<Longrightarrow> y \<in> set (live h) \<and> th_timer_dups f ! y = th_timer_dups h ! y"
    "?r = (case ?g of None \<Rightarrow> f | Some g \<Rightarrow> f\<lparr>th_refs := (th_refs f)(g := th_refs f g - 1)\<rparr>)"
  proof (rule spec)
    fix f
    assume *: "x \<in> set (live h)"
    then have "copy_ok h x" using run_fire.IH by (simp add: run_inv_def copies_ok_def)
    moreover assume "poll_round (\<lambda>_ _ h. h) h =
      (let h' = (if (te_cb (dup (th_timer_dups h ! x)) = te_cb (th_entries h e)
            \<and> user_data (dup (th_timer_dups h ! x)) = user_data (th_entries h e)) \<and> te_cb (th_entries h e) \<noteq> 0 then f else f)
       in (case ?g of None \<Rightarrow> h'
           | Some g \<Rightarrow> if te_cb (dup (th_timer_dups h ! x)) = te_cb (th_entries h e)
            \<and> user_data (dup (th_timer_dups h ! x)) = user_data (th_entries h e)
             then h'\<lparr>th_refs := (th_refs h')(g := th_refs h' g - 1)\<rparr> else h', e))"
    ultimately have r: "?r = (case ?g of None \<Rightarrow> f | Some g \<Rightarrow> f\<lparr>th_refs := (th_refs f)(g := th_refs f g - 1)\<rparr>)"
      by (simp add: e_def Let_def split: option.splits)
    assume "th_inv f" "active f = active h - {#(e, node_value h x)#}" "(e, node_value h x) \<in># active h"
      "th_entries f = (th_entries h)(e := (th_entries h e)\<lparr>timer_id := -1\<rparr>)" "th_refs f = th_refs h"
      "\<And>g. lock_refs h g = lock_refs f g + (if ?g = Some g then 1 else 0)"
      "\<And>y. y \<in> set (live f) \<Longrightarrow> y \<in> set (live h) \<and> th_timer_dups f ! y = th_timer_dups h ! y"
    then show thesis using r by (rule that)
  qed
  have r: "th_inv ?r" "active ?r = active f" "live ?r = live f" "th_timer_dups ?r = th_timer_dups f" "th_entries ?r = th_entries f"
    using f(1) unfolding f(8) by (cases ?g; simp)+
  have "other_refs ?r = other_refs h"
  proof
    fix g
    have "lock_refs ?r g = lock_refs f g" using r by (simp add: lock_refs_def)
    moreover have "th_refs ?r g = th_refs h g - (if ?g = Some g then 1 else 0)"
      using f(5) unfolding f(8) by (cases ?g) auto
    ultimately show "other_refs ?r g = other_refs h g" using f(6) [of g] by (simp add: other_refs_def)
  qed
  then show ?case
    by (intro run_inv_take [OF run_fire.IH f(3)]) (use f(2,4,7) r in simp_all)
qed

lemma filter_mset_sum:
  assumes "\<forall>x \<in># A. \<not> P x" and "\<forall>x \<in># B. P x"
  shows "filter_mset P (A + B) = B"
proof -
  have "filter_mset P A = filter_mset (\<lambda>_. False) A" using assms(1) by (intro filter_mset_cong) auto
  moreover have "filter_mset P B = filter_mset (\<lambda>_. True) B" using assms(2) by (intro filter_mset_cong) auto
  ultimately show ?thesis by simp
qed

section \<open>Properties\<close>

text \<open>
C10. In every sequence of creating, initialising, scheduling, cancelling and firing in which
memory can be had when the heap has to grow (otherwise timer.c:511 marks an entry running that is
in no heap), no entry is initialised again while it is running, and what a callback does to the
heap is a step of its own, the heap stays well-formed (heap order, slot index, free list of ids),
exactly the entries that are in the heap are marked running, none is in it twice, and every group
lock has the references it started with plus one for each running timer under it.
\<close>

theorem timer_runs:
  assumes "timer_run refs0 h"
  shows "th_inv h
    \<and> (\<forall>e. pj_timer_entry_running (th_entries h e) \<longleftrightarrow> e \<in> fst ` set_mset (active h))
    \<and> (\<forall>e t. count (active h) (e, t) \<le> 1) \<and> (\<forall>p \<in># active h. \<forall>q \<in># active h. fst p = fst q \<longrightarrow> p = q)
    \<and> (\<forall>g. th_refs h g = refs0 g + int (lock_refs h g))"
proof (intro conjI allI ballI impI)
  note r = timer_run_inv [OF assms, unfolded run_inv_def]
  show inv: "th_inv h" using r by blast
  show "pj_timer_entry_running (th_entries h e) \<longleftrightarrow> e \<in> fst ` set_mset (active h)" for e
    using r active_running [of h e] by force
  show "count (active h) (e, t) \<le> 1" for e t using active_once [OF inv] .
  show "p = q" if "p \<in># active h" "q \<in># active h" "fst p = fst q" for p q
    using active_unique [OF inv] that by (cases p; cases q) auto
  have "other_refs h = refs0" using r by simp
  then show "th_refs h g = refs0 g + int (lock_refs h g)" for g by (auto simp: other_refs_def)
qed

theorem timer_schedule:
  assumes "th_inv ht" and "length mem = th_max_size ht" and "te_cb (th_entries ht e) \<noteq> 0"
    and "\<not> pj_timer_entry_running (th_entries ht e)"
  shows "fst (schedule_w_grp_lock (True, True, True) mem now ht e delay set_id grp) = PJ_SUCCESS
    \<and> th_inv (snd (schedule_w_grp_lock (True, True, True) mem now ht e delay set_id grp))
    \<and> active (snd (schedule_w_grp_lock (True, True, True) mem now ht e delay set_id grp))
        = add_mset (e, PJ_TIME_VAL_ADD now delay) (active ht)
    \<and> pj_timer_entry_running (th_entries (snd (schedule_w_grp_lock (True, True, True) mem now ht e delay set_id grp)) e)"
  using schedule_w_grp_lock_spec(1-4) [OF assms] by simp

theorem timer_schedule_refused:
  assumes "te_cb (th_entries ht e) = 0 \<or> pj_timer_entry_running (th_entries ht e)"
  shows "schedule_w_grp_lock alloc mem now ht e delay set_id grp
    = (if te_cb (th_entries ht e) = 0 then PJ_EINVAL else PJ_EINVALIDOP, ht)"
  using assms by (auto simp: schedule_w_grp_lock_def Let_def)

theorem timer_cancel:
  assumes "th_inv ht" and "(e, t) \<in># active ht"
  shows "snd (cancel_timer ht e set_id) = 1
    \<and> th_inv (fst (cancel_timer ht e set_id)) \<and> active (fst (cancel_timer ht e set_id)) = active ht - {#(e, t)#}
    \<and> \<not> pj_timer_entry_running (th_entries (fst (cancel_timer ht e set_id)) e)"
  using cancel_timer_running(1-4) [OF assms, of set_id] by (simp add: pj_timer_entry_running_def)

theorem timer_cancel_idle:
  assumes "th_inv ht" and "e \<notin> fst ` set_mset (active ht)"
  shows "cancel_timer ht e set_id = (upd_entry e (\<lambda>d. d\<lparr>timer_id := -1\<rparr>) ht, 0)"
  by (rule cancel_timer_idle [OF assms])

text \<open>An entry that was initialised and never scheduled, or that fired or was cancelled, has the id \<open>-1\<close>.\<close>

theorem timer_cancel_idle_reads_outside:
  "cancel_reads_outside (upd_entry e (\<lambda>d. pj_timer_entry_init d i data cb) ht) e"
  by (simp add: cancel_reads_outside_def upd_entry_def pj_timer_entry_init_def)

text \<open>
C33. Polling returns whatever the callbacks schedule and cancel, as long as they keep the heap
well-formed and its limit: at most the limit of timers fire, and when fewer fired, no timer left
is due.
\<close>

theorem timer_poll_returns:
  assumes "well_behaved cb" and "th_inv ht"
  shows "\<exists>h fired delay. pj_timer_heap_poll cb now ht = Some (h, fired, delay) \<and> th_inv h
    \<and> length fired \<le> th_max_entries_per_poll ht
    \<and> (length fired = th_max_entries_per_poll ht \<or> (\<forall>p \<in># active h. now < snd p))"
proof -
  obtain h es where h: "poll_loop cb now 0 [] ht = Some (h, [] @ es)" "th_inv h"
    "0 + length es \<le> th_max_entries_per_poll ht"
    "0 + length es = th_max_entries_per_poll ht \<or> th_cur_size h = 0 \<or> now < first_value h"
    using poll_loop_returns [OF assms le0, of now "[]"] by blast
  have "\<forall>p \<in># active h. now < snd p" if "th_cur_size h = 0 \<or> now < first_value h"
    using that heap_queue.next_due [OF h(2)] active_empty [OF h(2)] by (fastforce intro: less_le_trans)
  with h show ?thesis by (auto simp: pj_timer_heap_poll_def)
qed

text \<open>
C11. Polling with callbacks that leave the timers alone takes timers out of the heap in the order
in which they expire, each of them due, none later than any timer that stays, until all timers
left are in the future or as many fired as the limit allows.
\<close>

theorem timer_poll_in_order:
  assumes "quiet cb" and "th_inv ht"
  shows "\<exists>h fired delay ts. pj_timer_heap_poll cb now ht = Some (h, fired, delay) \<and> th_inv h
    \<and> length ts = length fired \<and> sorted ts \<and> (\<forall>t \<in> set ts. t \<le> now)
    \<and> active ht = mset (zip fired ts) + active h \<and> (\<forall>t \<in> set ts. \<forall>p \<in># active h. t \<le> snd p)
    \<and> (length fired = th_max_entries_per_poll ht \<or> (\<forall>p \<in># active h. now < snd p))"
proof -
  note queue = heap_expiry_queue [OF assms(1)]
  define r where "r = expiry_queue.drain active first_value (poll_round cb) now (th_max_entries_per_poll ht) ht"
  obtain ts where "length ts = length (snd r)" "sorted ts" "\<forall>t \<in> set ts. t \<le> now"
    "active ht = mset (zip (snd r) ts) + active (fst r)" "\<forall>t \<in> set ts. \<forall>p \<in># active (fst r). t \<le> snd p"
    "length ts = th_max_entries_per_poll ht \<or> (\<forall>p \<in># active (fst r). now < snd p)"
    using expiry_queue.drain_spec [OF queue assms(2), of now "th_max_entries_per_poll ht"] unfolding r_def by blast
  moreover have "th_inv (fst r)" unfolding r_def by (rule expiry_queue.drain_inv [OF queue assms(2)])
  moreover have "pj_timer_heap_poll cb now ht = Some (fst r, snd r, next_delay_of now (fst r))"
    using poll_loop_drain [OF assms le0, of now "[]"] by (simp add: r_def pj_timer_heap_poll_def split_beta)
  ultimately show ?thesis
    by (intro exI [of _ "fst r"] exI [of _ "snd r"] exI [of _ "next_delay_of now (fst r)"] exI [of _ ts]) simp
qed

theorem timer_poll_fires_all_due:
  assumes "quiet cb" and "th_inv ht" and "th_cur_size ht \<le> th_max_entries_per_poll ht"
  shows "\<exists>h fired delay. pj_timer_heap_poll cb now ht = Some (h, fired, delay)
    \<and> active h = filter_mset (\<lambda>p. now < snd p) (active ht)
    \<and> mset fired = image_mset fst (filter_mset (\<lambda>p. snd p \<le> now) (active ht))"
proof -
  note queue = heap_expiry_queue [OF assms(1)]
  define r where "r = expiry_queue.drain active first_value (poll_round cb) now (th_max_entries_per_poll ht) ht"
  obtain ts where ts: "length ts = length (snd r)" "\<forall>t \<in> set ts. t \<le> now" "active ht = mset (zip (snd r) ts) + active (fst r)"
    using expiry_queue.drain_spec [OF queue assms(2), of now "th_max_entries_per_poll ht"] unfolding r_def by blast
  have later: "\<forall>p \<in># active (fst r). now < snd p"
    unfolding r_def by (rule expiry_queue.drain_all [OF queue assms(2)]) (use assms(2,3) in simp)
  have due: "\<forall>p \<in># mset (zip (snd r) ts). snd p \<le> now" using ts(2) by (auto dest: set_zip_rightD)
  have "filter_mset (\<lambda>p. now < snd p) (active ht) = active (fst r)"
    unfolding ts(3) by (rule filter_mset_sum) (use later due in \<open>auto simp: not_less\<close>)
  moreover have "filter_mset (\<lambda>p. snd p \<le> now) (active ht) = mset (zip (snd r) ts)"
    unfolding ts(3) add.commute [of "mset (zip (snd r) ts)"]
    by (rule filter_mset_sum) (use later due in \<open>auto simp: not_le\<close>)
  moreover have "image_mset fst (mset (zip (snd r) ts)) = mset (snd r)"
    using ts(1) by (simp flip: mset_map)
  moreover have "pj_timer_heap_poll cb now ht = Some (fst r, snd r, next_delay_of now (fst r))"
    using poll_loop_drain [OF assms(1,2) le0, of now "[]"] by (simp add: r_def pj_timer_heap_poll_def split_beta)
  ultimately show ?thesis by simp
qed

theorem timer_earliest_time:
  assumes "th_inv ht"
  shows "pj_timer_heap_earliest_time ht = (if active ht = {#} then Inl PJ_ENOTFOUND else Inr (Min (snd ` set_mset (active ht))))"
proof (cases "active ht = {#}")
  case False
  then have "first_value ht \<in> snd ` set_mset (active ht)" using heap_queue.fire_head [OF assms] by force
  then have "Min (snd ` set_mset (active ht)) = first_value ht"
    using heap_queue.next_due [OF assms] by (intro Min_eqI) auto
  then show ?thesis using False active_empty [OF assms] by (simp add: pj_timer_heap_earliest_time_def)
qed (use active_empty [OF assms] in \<open>simp add: pj_timer_heap_earliest_time_def\<close>)

text \<open>A schedule that fails for want of memory has taken an id and left it in the entry.\<close>

theorem timer_schedule_no_memory:
  assumes inv: "th_inv ht" and full: "th_max_size ht = th_cur_size ht + 2"
    and e: "te_cb (th_entries ht e) \<noteq> 0" "\<not> pj_timer_entry_running (th_entries ht e)"
  shows "fst (schedule_w_grp_lock (False, d, i) mem now ht e delay set_id grp) = PJ_ENOMEM
    \<and> active (snd (schedule_w_grp_lock (False, d, i) mem now ht e delay set_id grp)) = active ht
    \<and> pj_timer_entry_running (th_entries (snd (schedule_w_grp_lock (False, d, i) mem now ht e delay set_id grp)) e)"
proof -
  obtain f fs where f: "free_ok ht (f # fs)" "fst (pop_freelist ht) = int f"
    by (rule pop_popped [OF inv])
  then have "1 \<le> f" by (auto simp: free_ok_def)
  have "schedule_w_grp_lock (False, d, i) mem now ht e delay set_id grp
      = (PJ_ENOMEM, upd_entry e (\<lambda>e. e\<lparr>timer_id := int f\<rparr>) (snd (pop_freelist ht)))"
    using e f(2) full
    by (simp add: schedule_w_grp_lock_def schedule_entry_def insert_node_def grow_heap_def split_beta Let_def upd_entry_def pop_freelist_def)
  then show ?thesis
    using \<open>1 \<le> f\<close> by (simp add: active_def upd_entry_def pop_freelist_def pj_timer_entry_running_def)
qed

section \<open>Witnesses\<close>

text \<open>Three timers on a heap of size 0, which grows twice, two of them under group lock 7.\<close>

definition ex_entry :: "nat \<Rightarrow> pj_timer_entry" where
  "ex_entry = (\<lambda>_. \<lparr>user_data = 0, te_id = 0, te_cb = 1, timer_id = -1\<rparr>)"

definition ex_mem :: "nat \<Rightarrow> pj_timer_entry_dup list" where
  "ex_mem n = replicate n \<lparr>dup = ex_entry 0, dup_entry = 0, timer_value = Time_Val 0 0, dup_grp_lock = None\<rparr>"

definition ex_schedule :: "nat \<Rightarrow> nat \<Rightarrow> int \<Rightarrow> nat option \<Rightarrow> pj_timer_heap \<Rightarrow> pj_timer_heap" where
  "ex_schedule n e sec grp h =
     snd (schedule_w_grp_lock (True, True, True) (ex_mem n) (Time_Val 10 500) h e (Time_Val sec 700) None grp)"

definition ex_heap0 :: pj_timer_heap where
  "ex_heap0 = pj_timer_heap_create (ex_mem 2) ex_entry (\<lambda>_. 1) 0"

definition ex_heap1 :: pj_timer_heap where
  "ex_heap1 = ex_schedule 2 5 3 (Some 7) ex_heap0"

definition ex_heap2 :: pj_timer_heap where
  "ex_heap2 = ex_schedule 4 6 1 None ex_heap1"

definition ex_heap3 :: pj_timer_heap where
  "ex_heap3 = ex_schedule 4 8 2 (Some 7) ex_heap2"

lemma ex_run:
  "timer_run (\<lambda>_. 1) ex_heap0" "timer_run (\<lambda>_. 1) ex_heap1" "timer_run (\<lambda>_. 1) ex_heap2" "timer_run (\<lambda>_. 1) ex_heap3"
proof -
  show r0: "timer_run (\<lambda>_. 1) ex_heap0" unfolding ex_heap0_def
    by (rule run_create) (simp_all add: ex_mem_def ex_entry_def)
  show r1: "timer_run (\<lambda>_. 1) ex_heap1" unfolding ex_heap1_def ex_schedule_def
    by (rule run_schedule [OF r0]) code_simp
  show r2: "timer_run (\<lambda>_. 1) ex_heap2" unfolding ex_heap2_def ex_schedule_def
    by (rule run_schedule [OF r1]) code_simp
  show "timer_run (\<lambda>_. 1) ex_heap3" unfolding ex_heap3_def ex_schedule_def
    by (rule run_schedule [OF r2]) code_simp
qed

lemma ex_inv: "th_inv ex_heap0" "th_inv ex_heap1" "th_inv ex_heap2" "th_inv ex_heap3"
  using ex_run [THEN timer_run_inv] by (simp_all add: run_inv_def)

lemma ex_live: "live ex_heap3 = [2, 1, 3]" "th_cur_size ex_heap2 = 2" "th_max_size ex_heap2 = 4" "th_max_size ex_heap0 = 2"
    "th_cur_size ex_heap3 = 3" "th_max_entries_per_poll ex_heap3 = 64" "th_cur_size ex_heap0 = 0"
  by code_simp+

lemma ex_active: "(6, Time_Val 12 200) \<in># active ex_heap3"
proof -
  have "dup_entry (th_timer_dups ex_heap3 ! 2) = 6 \<and> node_value ex_heap3 2 = Time_Val 12 200" by code_simp
  then show ?thesis unfolding active_iff ex_live(1) by force
qed

theorem timer_runs_witness:
  "th_inv ex_heap3 \<and> pj_timer_entry_running (th_entries ex_heap3 8) \<and> th_refs ex_heap3 7 = 1 + int (lock_refs ex_heap3 7)
    \<and> lock_refs ex_heap3 7 = 2"
proof -
  have "pj_timer_entry_running (th_entries ex_heap3 8)" "lock_refs ex_heap3 7 = 2" by code_simp+
  then show ?thesis using timer_runs [OF ex_run(4)] by simp
qed

theorem timer_schedule_witness:
  "active ex_heap3 = add_mset (8, PJ_TIME_VAL_ADD (Time_Val 10 500) (Time_Val 2 700)) (active ex_heap2)"
proof -
  have "length (ex_mem 4) = th_max_size ex_heap2" "te_cb (th_entries ex_heap2 8) \<noteq> 0"
    "\<not> pj_timer_entry_running (th_entries ex_heap2 8)" by code_simp+
  from timer_schedule [OF ex_inv(3) this] show ?thesis unfolding ex_heap3_def ex_schedule_def by blast
qed

theorem timer_schedule_refused_witness:
  "schedule_w_grp_lock (True, True, True) (ex_mem 8) (Time_Val 10 500) ex_heap3 5 (Time_Val 1 0) None None = (PJ_EINVALIDOP, ex_heap3)"
proof -
  have "pj_timer_entry_running (th_entries ex_heap3 5)" "te_cb (th_entries ex_heap3 5) \<noteq> 0" by code_simp+
  then show ?thesis using timer_schedule_refused [of ex_heap3 5] by simp
qed

theorem timer_cancel_witness:
  "active (fst (cancel_timer ex_heap3 6 None)) = active ex_heap3 - {#(6, Time_Val 12 200)#}
    \<and> \<not> pj_timer_entry_running (th_entries (fst (cancel_timer ex_heap3 6 None)) 6)"
  using timer_cancel [OF ex_inv(4) ex_active, of None] by simp

theorem timer_cancel_idle_witness:
  "cancel_timer ex_heap0 5 None = (upd_entry 5 (\<lambda>d. d\<lparr>timer_id := -1\<rparr>) ex_heap0, 0)"
  by (rule timer_cancel_idle [OF ex_inv(1)]) (use active_empty [OF ex_inv(1)] ex_live(7) in simp)

text \<open>A periodic timer: its callback schedules it again, under no group lock.\<close>

definition ex_periodic :: "nat \<Rightarrow> nat \<Rightarrow> pj_timer_heap \<Rightarrow> pj_timer_heap" where
  "ex_periodic c e h =
     snd (schedule_w_grp_lock (True, True, True) (ex_mem (th_max_size h)) (Time_Val 20 0) h e (Time_Val 1 0) None None)"

lemma ex_periodic_well_behaved: "well_behaved ex_periodic"
  unfolding well_behaved_def
proof (intro allI impI)
  fix c e h assume h: "th_inv h"
  have mem: "length (ex_mem (th_max_size h)) = th_max_size h" by (simp add: ex_mem_def)
  show "th_inv (ex_periodic c e h) \<and> th_max_entries_per_poll (ex_periodic c e h) = th_max_entries_per_poll h"
  proof (cases "te_cb (th_entries h e) = 0 \<or> pj_timer_entry_running (th_entries h e)")
    case True
    then show ?thesis using h by (auto simp: ex_periodic_def schedule_w_grp_lock_def Let_def)
  next
    case False
    then show ?thesis using schedule_w_grp_lock_spec(2,7) [OF h mem] by (simp add: ex_periodic_def)
  qed
qed

theorem timer_poll_returns_witness:
  "\<exists>h fired delay. pj_timer_heap_poll ex_periodic (Time_Val 13 300) ex_heap3 = Some (h, fired, delay) \<and> th_inv h
    \<and> length fired \<le> th_max_entries_per_poll ex_heap3"
  using timer_poll_returns [OF ex_periodic_well_behaved ex_inv(4), of "Time_Val 13 300"] by blast

theorem timer_poll_in_order_witness:
  "\<exists>h fired delay ts. pj_timer_heap_poll (\<lambda>_ _ h. h) (Time_Val 13 300) ex_heap3 = Some (h, fired, delay)
    \<and> length ts = length fired \<and> sorted ts \<and> active ex_heap3 = mset (zip fired ts) + active h \<and> fired = [6, 8]"
proof -
  obtain h fired delay ts where "pj_timer_heap_poll (\<lambda>_ _ h. h) (Time_Val 13 300) ex_heap3 = Some (h, fired, delay)"
    "length ts = length fired" "sorted ts" "active ex_heap3 = mset (zip fired ts) + active h"
    using timer_poll_in_order [OF quiet_none ex_inv(4), of "Time_Val 13 300"] by blast
  moreover have "map_option (fst \<circ> snd) (pj_timer_heap_poll (\<lambda>_ _ h. h) (Time_Val 13 300) ex_heap3) = Some [6, 8]"
    by code_simp
  ultimately show ?thesis by auto
qed

theorem timer_poll_fires_all_due_witness:
  "\<exists>h fired delay. pj_timer_heap_poll (\<lambda>_ _ h. h) (Time_Val 13 300) ex_heap3 = Some (h, fired, delay)
    \<and> active h = filter_mset (\<lambda>p. Time_Val 13 300 < snd p) (active ex_heap3)"
  using timer_poll_fires_all_due [OF quiet_none ex_inv(4), of "Time_Val 13 300"] ex_live(5,6) by force

theorem timer_earliest_time_witness:
  "pj_timer_heap_earliest_time ex_heap3 = Inr (Min (snd ` set_mset (active ex_heap3)))
    \<and> pj_timer_heap_earliest_time ex_heap3 = Inr (Time_Val 12 200)"
proof -
  have "active ex_heap3 \<noteq> {#}" using ex_active by auto
  moreover have "pj_timer_heap_earliest_time ex_heap3 = Inr (Time_Val 12 200)" by code_simp
  ultimately show ?thesis using timer_earliest_time [OF ex_inv(4)] by simp
qed

theorem timer_schedule_no_memory_witness:
  "fst (schedule_w_grp_lock (False, True, True) (ex_mem 2) (Time_Val 10 500) ex_heap0 5 (Time_Val 1 0) None None) = PJ_ENOMEM
    \<and> pj_timer_entry_running (th_entries (snd (schedule_w_grp_lock (False, True, True) (ex_mem 2) (Time_Val 10 500) ex_heap0 5
        (Time_Val 1 0) None None)) 5)"
proof -
  have "th_max_size ex_heap0 = th_cur_size ex_heap0 + 2" "te_cb (th_entries ex_heap0 5) \<noteq> 0"
    "\<not> pj_timer_entry_running (th_entries ex_heap0 5)" by code_simp+
  from timer_schedule_no_memory [OF ex_inv(1) this] show ?thesis by blast
qed

end
