(* ===== verification/Sip_Transaction.thy ===== *)
theory Sip_Transaction
  imports Pj_Prelude
begin

text \<open>
  The SIP transaction of \<^verbatim>\<open>pjsip/src/pjsip/sip_transaction.c\<close>: the client and server state machines of RFC 3261
  with their timers, the sending of messages with its pending and retry flags, the callbacks of the
  transport layer, and the life cycle of a transaction up to its destruction.

  One transaction is a record. Pointers to transmit data and transports are numbers. What other layers
  answer during one event is an argument, the environment: the result of sending on a transport, what the
  stateless sender reports before it returns (it may call back at once) and its result, the ACK that can be
  made, properties of transports and messages. The reference counters of the group lock, of transmit data
  and of transports are counted in the record; \<open>sends_out\<close> counts the sends whose completion the transport has
  still to report. Calls of the transaction user are recorded in \<open>tsx_log\<close>: a user that calls back into the
  transaction is a later event. The list \<open>tsx_states\<close> has the states the transaction was given, from its creation on, one for each
  call of \<^verbatim>\<open>tsx_set_state\<close>; the code keeps no such list, and nothing reads it but the statements. The timers are the two entries of the transaction in the timer heap, each with its
  id and, when it runs, its delay; that the heap implements them is proved in \<open>Sip_Timers\<close>. Locks are
  left out (events are handled one after the other), and so are names and the text of the status. Of the table of
  transactions the record knows its own part: \<open>registered\<close>, whether its key was entered and not removed since, and
  \<open>unreg_calls\<close>, how often it had the layer remove its key; keys and the table itself are in \<open>Sip_Tsx_Key\<close> and \<open>Sip_Tsx_Layer\<close>.
\<close>

section \<open>Data\<close>

datatype pjsip_role = PJSIP_ROLE_UAC | PJSIP_ROLE_UAS

datatype pjsip_method_e =
    PJSIP_INVITE_METHOD | PJSIP_CANCEL_METHOD | PJSIP_ACK_METHOD | PJSIP_BYE_METHOD
  | PJSIP_REGISTER_METHOD | PJSIP_OPTIONS_METHOD | PJSIP_OTHER_METHOD

datatype pjsip_tsx_state_e =
    PJSIP_TSX_STATE_NULL | PJSIP_TSX_STATE_CALLING | PJSIP_TSX_STATE_TRYING | PJSIP_TSX_STATE_PROCEEDING
  | PJSIP_TSX_STATE_COMPLETED | PJSIP_TSX_STATE_CONFIRMED | PJSIP_TSX_STATE_TERMINATED | PJSIP_TSX_STATE_DESTROYED

text \<open>The source compares states as integers.\<close>

primrec tsx_state_rank :: "pjsip_tsx_state_e \<Rightarrow> nat" where
  "tsx_state_rank PJSIP_TSX_STATE_NULL = 0"
| "tsx_state_rank PJSIP_TSX_STATE_CALLING = 1"
| "tsx_state_rank PJSIP_TSX_STATE_TRYING = 2"
| "tsx_state_rank PJSIP_TSX_STATE_PROCEEDING = 3"
| "tsx_state_rank PJSIP_TSX_STATE_COMPLETED = 4"
| "tsx_state_rank PJSIP_TSX_STATE_CONFIRMED = 5"
| "tsx_state_rank PJSIP_TSX_STATE_TERMINATED = 6"
| "tsx_state_rank PJSIP_TSX_STATE_DESTROYED = 7"

lemma tsx_state_rank_inj: "tsx_state_rank a = tsx_state_rank b \<longleftrightarrow> a = b"
  by (cases a; cases b) simp_all

instantiation pjsip_tsx_state_e :: linorder
begin

definition less_eq_pjsip_tsx_state_e :: "pjsip_tsx_state_e \<Rightarrow> pjsip_tsx_state_e \<Rightarrow> bool" where
  "less_eq_pjsip_tsx_state_e a b \<longleftrightarrow> tsx_state_rank a \<le> tsx_state_rank b"

definition less_pjsip_tsx_state_e :: "pjsip_tsx_state_e \<Rightarrow> pjsip_tsx_state_e \<Rightarrow> bool" where
  "less_pjsip_tsx_state_e a b \<longleftrightarrow> tsx_state_rank a < tsx_state_rank b"

instance
  by standard (auto simp: less_eq_pjsip_tsx_state_e_def less_pjsip_tsx_state_e_def tsx_state_rank_inj [symmetric])

end

lemmas tsx_state_order = less_eq_pjsip_tsx_state_e_def less_pjsip_tsx_state_e_def

text \<open>The bits of \<^verbatim>\<open>transport_flag\<close>, which is a set of them, and the flags of \<^verbatim>\<open>tsx_set_state\<close>.\<close>

datatype tsx_flag =
    TSX_HAS_PENDING_TRANSPORT | TSX_HAS_PENDING_RESCHED | TSX_HAS_PENDING_SEND
  | TSX_HAS_PENDING_DESTROY | TSX_HAS_RESOLVED_SERVER

datatype set_state_flag = NO_NOTIFY | NO_SCHEDULE_HANDLER

datatype tsx_timer_id =
    TIMER_INACTIVE | RETRANSMIT_TIMER | TIMEOUT_TIMER | TRANSPORT_ERR_TIMER | TRANSPORT_DISC_TIMER

datatype tsx_timer_name = Retransmit_Timer | Timeout_Timer

record tsx_timer =
  tm_id :: tsx_timer_id
  tm_running :: "pj_time_val option"

datatype pjsip_rx_msg = Rx_Request pjsip_method_e | Rx_Response nat

datatype pjsip_event = Ev_Timer tsx_timer_name | Ev_Tx_Msg nat | Ev_Rx_Msg pjsip_rx_msg

text \<open>The source of a state change, with the type \<^verbatim>\<open>pjsip_event_id_e\<close> as its constructor.\<close>

datatype event_src =
    Src_Unknown | Src_Timer tsx_timer_name | Src_Tx_Msg nat | Src_Rx_Msg pjsip_rx_msg | Src_Transport_Error | Src_User

text \<open>What the outside sees: notifications of the user and transmissions.\<close>

datatype tsx_note =
    On_Rx_Response nat
  | On_Tsx_State pjsip_tsx_state_e pjsip_tsx_state_e event_src
  | Sent_Transport nat nat
  | Sent_Endpoint nat

record pjsip_module =
  has_on_rx_response :: bool
  has_on_tsx_state :: bool

record pjsip_transaction =
  tsx_user :: "pjsip_module option"
  terminating :: bool
  tsx_role :: pjsip_role
  method_id :: pjsip_method_e
  status_code :: nat
  tsx_state :: pjsip_tsx_state_e
  handle_200resp :: bool
  tsx_transport :: "nat option"
  is_reliable :: bool
  addr_len :: nat
  res_addr_transport :: "nat option"
  res_addr_len :: nat
  transport_flag :: "tsx_flag set"
  transport_err :: pj_status
  tp_sel :: "nat option"
  pending_tx :: "nat option"
  last_tx :: "nat option"
  retransmit_count :: nat
  retransmit_timer :: tsx_timer
  timeout_timer :: tsx_timer
  registered :: bool
  unreg_calls :: nat
  grp_refs :: int
  td_refs :: "nat \<Rightarrow> int"
  td_mod_data :: "nat \<Rightarrow> bool"
  tp_refs :: "nat \<Rightarrow> int"
  sel_refs :: "nat \<Rightarrow> int"
  sends_out :: nat
  tsx_log :: "tsx_note list"
  tsx_states :: "pjsip_tsx_state_e list"

text \<open>The timer values of the layer, and the configuration \<^verbatim>\<open>pjsip_cfg()->tsx\<close> they come from, in ms.\<close>

record tsx_timers =
  t1_timer_val :: pj_time_val
  t2_timer_val :: pj_time_val
  t4_timer_val :: pj_time_val
  td_timer_val :: pj_time_val
  timeout_timer_val :: pj_time_val
  cfg_t1 :: nat
  cfg_t2 :: nat
  cfg_t4 :: nat
  cfg_td :: nat

text \<open>A message to transmit: a request, or a response with its code; and the method of its CSeq header.\<close>

record pjsip_tx_data =
  td_is_response :: bool
  td_code :: nat
  td_cseq_method :: pjsip_method_e

text \<open>
  What the stateless sender tells the callback: the transport it used, whether it would try another server
  (\<^verbatim>\<open>*cont\<close>), the length of the address used, and the result, where \<open>PJ_SUCCESS\<close> stands for a positive \<^verbatim>\<open>sent\<close> and
  an error \<open>e\<close> for the negative one, \<^verbatim>\<open>-e\<close>.
\<close>

record pjsip_send_state =
  cur_transport :: "nat option"
  send_cont :: bool
  send_addr_len :: nat
  send_result :: pj_status

record tsx_env =
  env_timers :: tsx_timers
  env_layer_up :: bool
  env_tdata :: "nat \<Rightarrow> pjsip_tx_data"
  env_td_pending :: "nat \<Rightarrow> bool"
  env_transport_send :: "nat \<Rightarrow> nat \<Rightarrow> pj_status"
  env_endpt_send :: "nat \<Rightarrow> pjsip_send_state list \<times> pj_status"
  env_create_ack :: "pj_status \<times> nat"
  env_tp_reliable :: "nat \<Rightarrow> bool"
  env_tp_shutdown :: "nat \<Rightarrow> bool"

definition PJSIP_SC_TSX_TIMEOUT :: nat where
  "PJSIP_SC_TSX_TIMEOUT = 408"

definition PJSIP_SC_TSX_TRANSPORT_ERROR :: nat where
  "PJSIP_SC_TSX_TRANSPORT_ERROR = 503"

definition PJSIP_SC_BAD_GATEWAY :: nat where
  "PJSIP_SC_BAD_GATEWAY = 502"

definition PJSIP_TSX_1XX_RETRANS_DELAY :: nat where
  "PJSIP_TSX_1XX_RETRANS_DELAY = 60"

definition PJSIP_IS_STATUS_IN_CLASS :: "nat \<Rightarrow> nat \<Rightarrow> bool" where
  "PJSIP_IS_STATUS_IN_CLASS code cls \<longleftrightarrow> code div 100 = cls div 100"

definition msec_val :: "nat \<Rightarrow> pj_time_val" where
  "msec_val ms = Time_Val (int (ms div 1000)) (int (ms mod 1000))"

section \<open>Timer values\<close>

definition pjsip_tsx_set_timers :: "nat \<Rightarrow> nat \<Rightarrow> nat \<Rightarrow> nat \<Rightarrow> tsx_timers \<Rightarrow> tsx_timers" where
  "pjsip_tsx_set_timers t1 t2 t4 td g =
     (let g = (if t1 \<noteq> 0 then g\<lparr>t1_timer_val := msec_val t1, cfg_t1 := t1\<rparr> else g);
          g = (if t2 \<noteq> 0 then g\<lparr>t2_timer_val := msec_val t2, cfg_t2 := t2\<rparr> else g);
          g = (if t4 \<noteq> 0 then g\<lparr>t4_timer_val := msec_val t4, cfg_t4 := t4\<rparr> else g)
      in if td \<noteq> 0 then g\<lparr>td_timer_val := msec_val td, timeout_timer_val := msec_val td, cfg_td := td\<rparr> else g)"

definition pjsip_tsx_initialize_timer_values :: "tsx_timers \<Rightarrow> tsx_timers" where
  "pjsip_tsx_initialize_timer_values g =
     g\<lparr>t1_timer_val := msec_val (cfg_t1 g), t2_timer_val := msec_val (cfg_t2 g), t4_timer_val := msec_val (cfg_t4 g),
       td_timer_val := msec_val (cfg_td g), timeout_timer_val := msec_val (cfg_td g)\<rparr>"

section \<open>Timers, status, transport\<close>

abbreviation has_flag :: "tsx_flag \<Rightarrow> pjsip_transaction \<Rightarrow> bool" where
  "has_flag f tsx \<equiv> f \<in> transport_flag tsx"

abbreviation set_flag :: "tsx_flag \<Rightarrow> pjsip_transaction \<Rightarrow> pjsip_transaction" where
  "set_flag f tsx \<equiv> tsx\<lparr>transport_flag := insert f (transport_flag tsx)\<rparr>"

abbreviation clear_flag :: "tsx_flag \<Rightarrow> pjsip_transaction \<Rightarrow> pjsip_transaction" where
  "clear_flag f tsx \<equiv> tsx\<lparr>transport_flag := transport_flag tsx - {f}\<rparr>"

abbreviation note_it :: "tsx_note \<Rightarrow> pjsip_transaction \<Rightarrow> pjsip_transaction" where
  "note_it n tsx \<equiv> tsx\<lparr>tsx_log := tsx_log tsx @ [n]\<rparr>"

definition td_add_ref :: "nat \<Rightarrow> pjsip_transaction \<Rightarrow> pjsip_transaction" where
  "td_add_ref td tsx = tsx\<lparr>td_refs := (td_refs tsx)(td := td_refs tsx td + 1)\<rparr>"

definition td_dec_ref :: "nat \<Rightarrow> pjsip_transaction \<Rightarrow> pjsip_transaction" where
  "td_dec_ref td tsx = tsx\<lparr>td_refs := (td_refs tsx)(td := td_refs tsx td - 1)\<rparr>"

primrec get_timer :: "tsx_timer_name \<Rightarrow> pjsip_transaction \<Rightarrow> tsx_timer" where
  "get_timer Retransmit_Timer tsx = retransmit_timer tsx"
| "get_timer Timeout_Timer tsx = timeout_timer tsx"

primrec set_timer :: "tsx_timer_name \<Rightarrow> tsx_timer \<Rightarrow> pjsip_transaction \<Rightarrow> pjsip_transaction" where
  "set_timer Retransmit_Timer tm tsx = tsx\<lparr>retransmit_timer := tm\<rparr>"
| "set_timer Timeout_Timer tm tsx = tsx\<lparr>timeout_timer := tm\<rparr>"

text \<open>
  An entry that runs already is refused by the timer heap; no caller looks at the status. The heap holds a
  reference to the group lock while the timer runs. That the heap has no memory for an entry is left out.
\<close>

definition tsx_schedule_timer :: "tsx_timer_name \<Rightarrow> pj_time_val \<Rightarrow> tsx_timer_id \<Rightarrow> pjsip_transaction \<Rightarrow> pjsip_transaction" where
  "tsx_schedule_timer entry delay active_id tsx =
     (if tm_running (get_timer entry tsx) \<noteq> None then tsx
      else (set_timer entry \<lparr>tm_id = active_id, tm_running = Some delay\<rparr> tsx)\<lparr>grp_refs := grp_refs tsx + 1\<rparr>)"

definition tsx_cancel_timer :: "tsx_timer_name \<Rightarrow> pjsip_transaction \<Rightarrow> pjsip_transaction" where
  "tsx_cancel_timer entry tsx =
     (if tm_running (get_timer entry tsx) = None then tsx
      else (set_timer entry \<lparr>tm_id = TIMER_INACTIVE, tm_running = None\<rparr> tsx)\<lparr>grp_refs := grp_refs tsx - 1\<rparr>)"

definition tsx_set_status_code :: "nat \<Rightarrow> pjsip_transaction \<Rightarrow> pjsip_transaction" where
  "tsx_set_status_code code tsx = tsx\<lparr>status_code := code\<rparr>"

definition mod_tsx_layer_unregister_tsx :: "tsx_env \<Rightarrow> pjsip_transaction \<Rightarrow> pjsip_transaction" where
  "mod_tsx_layer_unregister_tsx env tsx = (if env_layer_up env then tsx\<lparr>registered := False, unreg_calls := unreg_calls tsx + 1\<rparr> else tsx)"

text \<open>A transport that was disconnected; called only with that state, any other is ignored.\<close>

definition tsx_tp_state_callback :: "pj_status \<Rightarrow> pjsip_transaction \<Rightarrow> pjsip_transaction" where
  "tsx_tp_state_callback status tsx =
     (let tsx = tsx\<lparr>transport_err := status\<rparr>
      in if tsx_state tsx < PJSIP_TSX_STATE_COMPLETED
         then tsx_schedule_timer Timeout_Timer (Time_Val 0 0) TRANSPORT_DISC_TIMER (tsx_cancel_timer Timeout_Timer tsx)
         else tsx)"

definition tsx_update_transport :: "tsx_env \<Rightarrow> nat option \<Rightarrow> pjsip_transaction \<Rightarrow> pjsip_transaction" where
  "tsx_update_transport env tp tsx =
     (let tsx = (case tsx_transport tsx of
                   None \<Rightarrow> tsx
                 | Some old \<Rightarrow> tsx\<lparr>tp_refs := (tp_refs tsx)(old := tp_refs tsx old - 1), tsx_transport := None\<rparr>)
      in case tp of
           None \<Rightarrow> tsx
         | Some new \<Rightarrow>
             (let tsx = tsx\<lparr>tsx_transport := Some new, tp_refs := (tp_refs tsx)(new := tp_refs tsx new + 1)\<rparr>
              in if env_tp_shutdown env new
                 then tsx_tp_state_callback (PJ_OTHER (int PJSIP_SC_TSX_TRANSPORT_ERROR)) tsx else tsx))"

definition tpselector_ref :: "int \<Rightarrow> nat option \<Rightarrow> pjsip_transaction \<Rightarrow> pjsip_transaction" where
  "tpselector_ref k sel tsx =
     (case sel of None \<Rightarrow> tsx | Some s \<Rightarrow> tsx\<lparr>sel_refs := (sel_refs tsx)(s := sel_refs tsx s + k)\<rparr>)"

definition pjsip_tsx_set_transport :: "pjsip_transaction \<Rightarrow> nat option \<Rightarrow> pj_status \<times> pjsip_transaction" where
  "pjsip_tsx_set_transport tsx sel =
     (let tsx = tpselector_ref (-1) (tp_sel tsx) tsx;
          tsx = tsx\<lparr>tp_sel := sel\<rparr>
      in (PJ_SUCCESS, tpselector_ref 1 sel tsx))"

section \<open>State changes\<close>

definition tsx_shutdown :: "tsx_env \<Rightarrow> pjsip_transaction \<Rightarrow> pjsip_transaction" where
  "tsx_shutdown env tsx =
     (let tsx = tsx_update_transport env None tsx;
          tsx = (if \<not> terminating tsx then tpselector_ref (-1) (tp_sel tsx) tsx else tsx);
          tsx = (case last_tx tsx of None \<Rightarrow> tsx | Some td \<Rightarrow> (td_dec_ref td tsx)\<lparr>last_tx := None\<rparr>);
          tsx = tsx_cancel_timer Timeout_Timer tsx;
          tsx = tsx_cancel_timer Retransmit_Timer tsx;
          tsx = tsx\<lparr>transport_flag := transport_flag tsx - {TSX_HAS_PENDING_RESCHED, TSX_HAS_PENDING_SEND}\<rparr>;
          tsx = (if has_flag TSX_HAS_PENDING_TRANSPORT tsx
                 then (set_flag TSX_HAS_PENDING_DESTROY tsx)\<lparr>tsx_user := None\<rparr> else tsx)
      in if \<not> terminating tsx then tsx\<lparr>terminating := True, grp_refs := grp_refs tsx - 1\<rparr> else tsx)"

text \<open>The notification of the user, and what \<^verbatim>\<open>tsx_set_state\<close> does on entering the last two states.\<close>

definition notify_user :: "pjsip_tsx_state_e \<Rightarrow> event_src \<Rightarrow> set_state_flag set \<Rightarrow> pjsip_transaction \<Rightarrow> pjsip_transaction" where
  "notify_user prev_state src flag tsx =
     (case tsx_user tsx of
        None \<Rightarrow> tsx
      | Some user \<Rightarrow>
          if NO_NOTIFY \<in> flag then tsx
          else
            (let tsx = (case src of
                          Src_Rx_Msg (Rx_Response code) \<Rightarrow>
                            if has_on_rx_response user then note_it (On_Rx_Response code) tsx else tsx
                        | _ \<Rightarrow> tsx)
             in if has_on_tsx_state user then note_it (On_Tsx_State prev_state (tsx_state tsx) src) tsx else tsx))"

definition enter_terminated :: "set_state_flag set \<Rightarrow> pjsip_transaction \<Rightarrow> pjsip_transaction" where
  "enter_terminated flag tsx =
     (let tsx = (if has_flag TSX_HAS_PENDING_TRANSPORT tsx then
                   (let tsx = (case pending_tx tsx of
                                 None \<Rightarrow> tsx
                               | Some td \<Rightarrow> tsx\<lparr>td_mod_data := (td_mod_data tsx)(td := False), pending_tx := None,
                                               grp_refs := grp_refs tsx - 1\<rparr>)
                    in clear_flag TSX_HAS_PENDING_TRANSPORT tsx)
                 else tsx);
          tsx = tsx_cancel_timer Timeout_Timer tsx
      in if NO_SCHEDULE_HANDLER \<notin> flag then tsx_schedule_timer Timeout_Timer (Time_Val 0 0) TIMEOUT_TIMER tsx else tsx)"

definition tsx_set_state ::
    "tsx_env \<Rightarrow> pjsip_tsx_state_e \<Rightarrow> event_src \<Rightarrow> set_state_flag set \<Rightarrow> pjsip_transaction \<Rightarrow> pjsip_transaction" where
  "tsx_set_state env state src flag tsx =
     (let prev_state = tsx_state tsx;
          tsx = tsx\<lparr>tsx_state := state, tsx_states := tsx_states tsx @ [state]\<rparr>;
          tsx = notify_user prev_state src flag tsx
      in if state = PJSIP_TSX_STATE_TERMINATED then enter_terminated flag tsx
         else if state = PJSIP_TSX_STATE_DESTROYED then tsx_shutdown env (mod_tsx_layer_unregister_tsx env tsx)
         else tsx)"

section \<open>Sending\<close>

text \<open>
  The delay of the next retransmission in ms. \<^verbatim>\<open>1 << retransmit_count\<close> is undefined from 31 on; the model
  keeps the low 32 bits.
\<close>

definition retransmission_delay :: "tsx_env \<Rightarrow> pjsip_transaction \<Rightarrow> nat" where
  "retransmission_delay env tsx =
     (let t1 = cfg_t1 (env_timers env); t2 = cfg_t2 (env_timers env);
          msec_time = (if tsx_role tsx = PJSIP_ROLE_UAC \<and> status_code tsx \<ge> 100 then t2
                       else u32_mul (2 ^ retransmit_count tsx mod 2 ^ 32) t1)
      in if tsx_role tsx = PJSIP_ROLE_UAC then
           (if msec_time > t2 \<and> method_id tsx \<noteq> PJSIP_INVITE_METHOD then t2 else msec_time)
         else if status_code tsx < 200 then PJSIP_TSX_1XX_RETRANS_DELAY * 1000
         else if msec_time > t2 then t2 else msec_time)"

definition tsx_resched_retransmission :: "tsx_env \<Rightarrow> pjsip_transaction \<Rightarrow> pjsip_transaction" where
  "tsx_resched_retransmission env tsx =
     (let msec_time = retransmission_delay env tsx
      in if msec_time \<noteq> 0 then tsx_schedule_timer Retransmit_Timer (msec_val msec_time) RETRANSMIT_TIMER tsx else tsx)"

text \<open>
  \<^verbatim>\<open>tsx_send_msg\<close> in three parts. First the transport the transaction has: \<open>Some status\<close> ends the function, and
  \<open>None\<close> with a status means that the message still has to go out. A send that completes at once takes and drops
  its reference and its flag before anything else looks at them.
\<close>

definition send_on_transport :: "tsx_env \<Rightarrow> pjsip_transaction \<Rightarrow> nat \<Rightarrow> pj_status option \<times> pj_status \<times> pjsip_transaction" where
  "send_on_transport env tsx tdata =
     (case tsx_transport tsx of
        None \<Rightarrow> (None, PJ_SUCCESS, tsx)
      | Some tp \<Rightarrow>
          (let tsx = note_it (Sent_Transport tp tdata) tsx; status = env_transport_send env tp tdata
           in if status = PJ_EPENDING then
                (Some PJ_SUCCESS, PJ_SUCCESS,
                 (set_flag TSX_HAS_PENDING_TRANSPORT tsx)\<lparr>grp_refs := grp_refs tsx + 1, sends_out := sends_out tsx + 1\<rparr>)
              else if status = PJ_SUCCESS then (Some PJ_SUCCESS, PJ_SUCCESS, tsx)
              else (None, status,
                    (tsx_update_transport env None tsx)\<lparr>addr_len := 0, res_addr_transport := None, res_addr_len := 0\<rparr>)))"

text \<open>
  Then the stateless sender, for a request and for a response alike; \<open>cb\<close> is \<^verbatim>\<open>send_msg_callback\<close>, which the sender may
  call before it returns, for one server after the other as long as the callback wants it to go on.
\<close>

primrec run_send_callbacks ::
    "(pjsip_send_state \<Rightarrow> pjsip_transaction \<Rightarrow> pjsip_transaction \<times> bool) \<Rightarrow> pjsip_send_state list
      \<Rightarrow> pjsip_transaction \<Rightarrow> pjsip_transaction" where
  "run_send_callbacks cb [] tsx = tsx"
| "run_send_callbacks cb (st # sts) tsx =
     (let (tsx, cont) = cb st tsx
      in if send_result st = PJ_SUCCESS \<or> \<not> cont then tsx else run_send_callbacks cb sts tsx)"

definition send_stateless ::
    "(tsx_env \<Rightarrow> pjsip_send_state \<Rightarrow> nat \<Rightarrow> pjsip_transaction \<Rightarrow> pjsip_transaction \<times> bool)
      \<Rightarrow> tsx_env \<Rightarrow> pjsip_transaction \<Rightarrow> nat \<Rightarrow> pj_status \<times> pjsip_transaction" where
  "send_stateless cb env tsx tdata =
     (let tsx = td_add_ref tdata tsx;
          tsx = tsx\<lparr>td_mod_data := (td_mod_data tsx)(tdata := True), pending_tx := Some tdata, grp_refs := grp_refs tsx + 1\<rparr>;
          tsx = set_flag TSX_HAS_PENDING_TRANSPORT tsx;
          (called, status) = env_endpt_send env tdata;
          tsx = run_send_callbacks (\<lambda>st. cb env st tdata) called (note_it (Sent_Endpoint tdata) tsx);
          status = (if status = PJ_EPENDING then PJ_SUCCESS else status);
          tsx = (if status \<noteq> PJ_SUCCESS then
                   (let tsx = clear_flag TSX_HAS_PENDING_TRANSPORT tsx;
                        tsx = td_dec_ref tdata (tsx\<lparr>grp_refs := grp_refs tsx - 1\<rparr>)
                    in tsx\<lparr>td_mod_data := (td_mod_data tsx)(tdata := False), pending_tx := None\<rparr>)
                 else tsx)
      in (if status = PJ_SUCCESS \<and> tsx_state tsx = PJSIP_TSX_STATE_TERMINATED then transport_err tsx else status, tsx))"

definition tsx_send_msg_by ::
    "(tsx_env \<Rightarrow> pjsip_send_state \<Rightarrow> nat \<Rightarrow> pjsip_transaction \<Rightarrow> pjsip_transaction \<times> bool)
      \<Rightarrow> tsx_env \<Rightarrow> pjsip_transaction \<Rightarrow> nat \<Rightarrow> pj_status \<times> pjsip_transaction" where
  "tsx_send_msg_by cb env tsx tdata =
     (if has_flag TSX_HAS_PENDING_TRANSPORT tsx then (PJ_SUCCESS, set_flag TSX_HAS_PENDING_SEND tsx)
      else if env_td_pending env tdata then (PJ_SUCCESS, tsx)
      else
        (let (done, status, tsx) = send_on_transport env tsx tdata
         in case done of
              Some status \<Rightarrow> (status, tsx)
            | None \<Rightarrow>
                if has_flag TSX_HAS_RESOLVED_SERVER tsx then
                  (let status = (if status = PJ_SUCCESS then PJ_EUNKNOWN else status);
                       tsx = tsx_set_status_code PJSIP_SC_TSX_TRANSPORT_ERROR tsx
                   in (status, tsx_set_state env PJSIP_TSX_STATE_TERMINATED Src_Transport_Error {} tsx))
                else send_stateless cb env tsx tdata))"

text \<open>
  \<^verbatim>\<open>send_msg_callback\<close> and \<^verbatim>\<open>tsx_send_msg\<close> call each other. The callback sends only after it has noted that the
  server is resolved, and then the stateless sender is out of reach: the call inside the callback is
  \<open>send_resolved\<close>, with a callback that is never used, and \<open>tsx_send_msg\<close> ties the knot. \<open>send_resolved_eq\<close> below
  says that both are the same function where the callback calls it.
\<close>

definition send_resolved :: "tsx_env \<Rightarrow> pjsip_transaction \<Rightarrow> nat \<Rightarrow> pj_status \<times> pjsip_transaction" where
  "send_resolved = tsx_send_msg_by (\<lambda>_ _ _ tsx. (tsx, False))"

text \<open>What both callbacks of a completed send do with what had to wait for it.\<close>

definition send_pending :: "tsx_env \<Rightarrow> (tsx_env \<Rightarrow> pjsip_transaction \<Rightarrow> nat \<Rightarrow> pj_status \<times> pjsip_transaction)
      \<Rightarrow> pjsip_transaction \<Rightarrow> pjsip_transaction" where
  "send_pending env send tsx =
     (let tsx = (if has_flag TSX_HAS_PENDING_SEND tsx then
                   (let tsx = clear_flag TSX_HAS_PENDING_SEND tsx
                    in case last_tx tsx of None \<Rightarrow> tsx | Some td \<Rightarrow> snd (send env tsx td))
                 else tsx)
      in if has_flag TSX_HAS_PENDING_RESCHED tsx \<and> \<not> has_flag TSX_HAS_PENDING_TRANSPORT tsx then
           (let tsx = clear_flag TSX_HAS_PENDING_RESCHED tsx
            in if \<not> is_reliable tsx then tsx_resched_retransmission env tsx else tsx)
         else tsx)"

definition sent_to_server :: "tsx_env \<Rightarrow> pjsip_send_state \<Rightarrow> pjsip_transaction \<Rightarrow> pjsip_transaction" where
  "sent_to_server env st tsx =
     (let tsx = (if tsx_transport tsx \<noteq> cur_transport st then
                   (let tsx = tsx_update_transport env (cur_transport st) tsx;
                        tsx = tsx\<lparr>addr_len := send_addr_len st\<rparr>
                    in tsx\<lparr>is_reliable := (case tsx_transport tsx of None \<Rightarrow> False | Some tp \<Rightarrow> env_tp_reliable env tp)\<rparr>)
                 else tsx);
          tsx = set_flag TSX_HAS_RESOLVED_SERVER (clear_flag TSX_HAS_PENDING_TRANSPORT tsx)
      in if has_flag TSX_HAS_PENDING_DESTROY tsx then tsx_set_state env PJSIP_TSX_STATE_DESTROYED Src_Unknown {} tsx
         else send_pending env send_resolved tsx)"

definition server_failed :: "tsx_env \<Rightarrow> pjsip_send_state \<Rightarrow> nat \<Rightarrow> pjsip_transaction \<Rightarrow> pjsip_transaction" where
  "server_failed env st tdata tsx =
     (let tsx = (if cur_transport st = tsx_transport tsx then tsx_update_transport env None tsx else tsx)
      in if \<not> send_cont st \<or> has_flag TSX_HAS_PENDING_DESTROY tsx then
           (let tsx = tsx\<lparr>transport_err := send_result st\<rparr>;
                tsx = set_flag TSX_HAS_RESOLVED_SERVER (clear_flag TSX_HAS_PENDING_TRANSPORT tsx);
                sc = (if send_result st \<in> {PJ_ERESOLVE, PJLIB_UTIL_EDNS_NXDOMAIN} then PJSIP_SC_BAD_GATEWAY
                      else PJSIP_SC_TSX_TRANSPORT_ERROR);
                tsx = tsx_set_status_code sc tsx
            in if tsx_state tsx \<noteq> PJSIP_TSX_STATE_TERMINATED \<and> tsx_state tsx \<noteq> PJSIP_TSX_STATE_DESTROYED
               then tsx_set_state env PJSIP_TSX_STATE_TERMINATED Src_Transport_Error {} tsx
               else if has_flag TSX_HAS_PENDING_DESTROY tsx
               then tsx_set_state env PJSIP_TSX_STATE_DESTROYED Src_Transport_Error {} tsx
               else tsx)
         else
           (let tsx = tsx\<lparr>retransmit_count := 0\<rparr>;
                tsx = (if tm_id (timeout_timer tsx) \<noteq> TIMER_INACTIVE
                       then tsx_schedule_timer Timeout_Timer (timeout_timer_val (env_timers env)) TIMEOUT_TIMER
                              (tsx_cancel_timer Timeout_Timer tsx)
                       else tsx)
            in tsx\<lparr>td_mod_data := (td_mod_data tsx)(tdata := True), pending_tx := Some tdata, grp_refs := grp_refs tsx + 1\<rparr>))"

text \<open>The second result is \<^verbatim>\<open>*cont\<close> when the callback returns.\<close>

definition send_msg_callback ::
    "tsx_env \<Rightarrow> pjsip_send_state \<Rightarrow> nat \<Rightarrow> pjsip_transaction \<Rightarrow> pjsip_transaction \<times> bool" where
  "send_msg_callback env st tdata tsx =
     (if \<not> env_layer_up env \<or> \<not> td_mod_data tsx tdata then (tsx, False)
      else
        (let tsx = tsx\<lparr>grp_refs := grp_refs tsx - 1, td_mod_data := (td_mod_data tsx)(tdata := False), pending_tx := None\<rparr>
         in (if send_result st = PJ_SUCCESS then sent_to_server env st tsx else server_failed env st tdata tsx, send_cont st)))"

definition tsx_send_msg :: "tsx_env \<Rightarrow> pjsip_transaction \<Rightarrow> nat \<Rightarrow> pj_status \<times> pjsip_transaction" where
  "tsx_send_msg = tsx_send_msg_by send_msg_callback"

text \<open>
  The transport reports the completion of a send that was pending; as above a result \<open>PJ_SUCCESS\<close> is a positive \<^verbatim>\<open>sent\<close>.
\<close>

definition transport_callback :: "tsx_env \<Rightarrow> pj_status \<Rightarrow> pjsip_transaction \<Rightarrow> pjsip_transaction" where
  "transport_callback env sent tsx0 =
     (let tsx = tsx0\<lparr>sends_out := sends_out tsx0 - 1\<rparr>
      in if \<not> env_layer_up env then tsx
         else
           (let tsx = clear_flag TSX_HAS_PENDING_TRANSPORT tsx
            in if sent = PJ_SUCCESS then
                 (if has_flag TSX_HAS_PENDING_DESTROY tsx
                  then tsx_set_state env PJSIP_TSX_STATE_DESTROYED Src_Unknown {} tsx
                  else (let tsx = send_pending env tsx_send_msg tsx in tsx\<lparr>grp_refs := grp_refs tsx - 1\<rparr>))
               else
                 (let tsx = tsx\<lparr>transport_err := sent\<rparr>;
                      tsx = (if tsx_state tsx < PJSIP_TSX_STATE_COMPLETED
                             then tsx_schedule_timer Timeout_Timer (Time_Val 0 0) TRANSPORT_ERR_TIMER
                                    (tsx_cancel_timer Timeout_Timer tsx)
                             else tsx)
                  in tsx\<lparr>grp_refs := grp_refs tsx - 1\<rparr>)))"

lemma send_resolved_eq:
  assumes "has_flag TSX_HAS_RESOLVED_SERVER tsx"
  shows "send_resolved env tsx td = tsx_send_msg env tsx td"
proof -
  have "has_flag TSX_HAS_RESOLVED_SERVER (snd (snd (send_on_transport env tsx td)))"
    using assms by (auto simp: send_on_transport_def tsx_update_transport_def Let_def split: option.splits)
  then show ?thesis
    by (auto simp: send_resolved_def tsx_send_msg_def tsx_send_msg_by_def Let_def split: prod.splits option.splits)
qed

text \<open>
  \<open>None\<close>: there is neither a message given nor one to send again, and the function takes a reference of a null pointer.
\<close>

definition pjsip_tsx_retransmit_no_state ::
    "tsx_env \<Rightarrow> pjsip_transaction \<Rightarrow> nat option \<Rightarrow> (pj_status \<times> pjsip_transaction) option" where
  "pjsip_tsx_retransmit_no_state env tsx tdata =
     (case (case tdata of None \<Rightarrow> last_tx tsx | Some td \<Rightarrow> Some td) of
        None \<Rightarrow> None
      | Some td \<Rightarrow>
          (let tsx = (if tdata = None then td_add_ref td tsx else tsx);
               (status, tsx) = tsx_send_msg env tsx td
           in Some (status, if status = PJ_SUCCESS then td_dec_ref td tsx else tsx)))"

definition tsx_retransmit :: "tsx_env \<Rightarrow> bool \<Rightarrow> pjsip_transaction \<Rightarrow> pj_status \<times> pjsip_transaction" where
  "tsx_retransmit env resched tsx =
     (if resched \<and> tm_running (retransmit_timer tsx) \<noteq> None then (PJ_SUCCESS, tsx)
      else
        (case last_tx tsx of
           None \<Rightarrow> (PJ_EBUG, tsx)
         | Some td \<Rightarrow>
             (let tsx = tsx\<lparr>retransmit_count := retransmit_count tsx + 1\<rparr>;
                  tsx = (if resched then
                           (if has_flag TSX_HAS_PENDING_TRANSPORT tsx then set_flag TSX_HAS_PENDING_RESCHED tsx
                            else tsx_resched_retransmission env tsx)
                         else tsx)
              in tsx_send_msg env tsx td)))"

section \<open>State handlers\<close>

text \<open>Steps the handlers share: the message kept for retransmission, and the timeout timer started over.\<close>

definition discard_last_tx :: "nat \<Rightarrow> pjsip_transaction \<Rightarrow> pjsip_transaction" where
  "discard_last_tx tdata tsx =
     (case last_tx tsx of
        None \<Rightarrow> tsx
      | Some old \<Rightarrow> if old \<noteq> tdata then (td_dec_ref old tsx)\<lparr>last_tx := None\<rparr> else tsx)"

definition save_last_tx :: "nat \<Rightarrow> pjsip_transaction \<Rightarrow> pjsip_transaction" where
  "save_last_tx tdata tsx =
     (if last_tx tsx \<noteq> Some tdata then (td_add_ref tdata tsx)\<lparr>last_tx := Some tdata\<rparr> else tsx)"

definition restart_timeout :: "pj_time_val \<Rightarrow> pjsip_transaction \<Rightarrow> pjsip_transaction" where
  "restart_timeout delay tsx =
     tsx_schedule_timer Timeout_Timer delay TIMEOUT_TIMER (tsx_cancel_timer Timeout_Timer tsx)"

text \<open>The retransmission timer of a message that may still be waiting for its transport.\<close>

definition start_retransmit :: "pj_time_val \<Rightarrow> pjsip_transaction \<Rightarrow> pjsip_transaction" where
  "start_retransmit delay tsx =
     (let tsx = tsx\<lparr>retransmit_count := 0\<rparr>
      in if has_flag TSX_HAS_PENDING_TRANSPORT tsx then set_flag TSX_HAS_PENDING_RESCHED tsx
         else tsx_schedule_timer Retransmit_Timer delay RETRANSMIT_TIMER tsx)"

text \<open>That the event of a new server transaction is a request is only asserted.\<close>

definition tsx_on_state_null :: "tsx_env \<Rightarrow> pjsip_transaction \<Rightarrow> pjsip_event \<Rightarrow> pj_status \<times> pjsip_transaction" where
  "tsx_on_state_null env tsx event =
     (if tsx_role tsx = PJSIP_ROLE_UAS then
        (PJ_SUCCESS,
         tsx_set_state env PJSIP_TSX_STATE_TRYING
           (case event of Ev_Rx_Msg m \<Rightarrow> Src_Rx_Msg m | _ \<Rightarrow> Src_Unknown) {} tsx)
      else
        (case event of
           Ev_Tx_Msg tdata \<Rightarrow>
             (let tsx = save_last_tx tdata (discard_last_tx tdata tsx);
                  (status, tsx) = tsx_send_msg env tsx tdata
              in if status \<noteq> PJ_SUCCESS then (status, tsx)
                 else
                   (let tsx = restart_timeout (timeout_timer_val (env_timers env)) tsx;
                        tsx = (if \<not> is_reliable tsx then start_retransmit (t1_timer_val (env_timers env)) tsx else tsx)
                    in (PJ_SUCCESS, tsx_set_state env PJSIP_TSX_STATE_CALLING (Src_Tx_Msg tdata) {} tsx)))
         | _ \<Rightarrow> (PJ_EBUG, tsx)))"

text \<open>
  The final responses 3xx to 6xx: an INVITE is acknowledged before the user is told, and the ACK takes the place of
  the last message.
\<close>

definition send_ack :: "tsx_env \<Rightarrow> pjsip_transaction \<Rightarrow> pj_status \<times> pjsip_transaction" where
  "send_ack env tsx =
     (if method_id tsx = PJSIP_INVITE_METHOD then
        (let (status, ack) = env_create_ack env
         in if status \<noteq> PJ_SUCCESS then (status, tsx) else tsx_send_msg env tsx ack)
      else (PJ_SUCCESS, tsx))"

definition keep_ack :: "tsx_env \<Rightarrow> pjsip_transaction \<Rightarrow> pjsip_transaction" where
  "keep_ack env tsx =
     (let ack = snd (env_create_ack env)
      in if method_id tsx = PJSIP_INVITE_METHOD \<and> last_tx tsx \<noteq> Some ack
         then (case last_tx tsx of None \<Rightarrow> tsx | Some old \<Rightarrow> td_dec_ref old tsx)\<lparr>last_tx := Some ack\<rparr>
         else tsx)"

definition completed_timeout :: "tsx_env \<Rightarrow> pjsip_transaction \<Rightarrow> pj_time_val" where
  "completed_timeout env tsx =
     (if \<not> is_reliable tsx
      then (if method_id tsx = PJSIP_INVITE_METHOD then td_timer_val (env_timers env) else t4_timer_val (env_timers env))
      else Time_Val 0 0)"

definition uac_failure_response :: "tsx_env \<Rightarrow> pjsip_transaction \<Rightarrow> event_src \<Rightarrow> pj_status \<times> pjsip_transaction" where
  "uac_failure_response env tsx src =
     (let tsx = tsx_cancel_timer Timeout_Timer (tsx_cancel_timer Retransmit_Timer tsx);
          (status, tsx) = send_ack env tsx
      in if status \<noteq> PJ_SUCCESS then (status, tsx)
         else
           (let tsx = keep_ack env (tsx_set_state env PJSIP_TSX_STATE_COMPLETED src {} tsx)
            in (PJ_SUCCESS, restart_timeout (completed_timeout env tsx) tsx)))"

definition uac_success_response :: "tsx_env \<Rightarrow> pjsip_transaction \<Rightarrow> event_src \<Rightarrow> pj_status \<times> pjsip_transaction" where
  "uac_success_response env tsx src =
     (let tsx = tsx_cancel_timer Timeout_Timer tsx
      in if method_id tsx = PJSIP_INVITE_METHOD then (PJ_SUCCESS, tsx_set_state env PJSIP_TSX_STATE_TERMINATED src {} tsx)
         else
           (let tsx = tsx_schedule_timer Timeout_Timer (completed_timeout env tsx) TIMEOUT_TIMER tsx;
                tsx = tsx_cancel_timer Retransmit_Timer tsx
            in (PJ_SUCCESS, tsx_set_state env PJSIP_TSX_STATE_COMPLETED src {} tsx)))"

definition tsx_on_state_proceeding_uac ::
    "tsx_env \<Rightarrow> pjsip_transaction \<Rightarrow> pjsip_event \<Rightarrow> pj_status \<times> pjsip_transaction" where
  "tsx_on_state_proceeding_uac env tsx event =
     (case event of
        Ev_Tx_Msg _ \<Rightarrow> (PJ_EINVALIDOP, tsx)
      | Ev_Rx_Msg (Rx_Request _) \<Rightarrow> (PJSIP_ENOTRESPONSEMSG, tsx)
      | Ev_Rx_Msg (Rx_Response code) \<Rightarrow>
          (let src = Src_Rx_Msg (Rx_Response code); tsx = tsx_set_status_code code tsx
           in if PJSIP_IS_STATUS_IN_CLASS code 100 then (PJ_SUCCESS, tsx_set_state env PJSIP_TSX_STATE_PROCEEDING src {} tsx)
              else if PJSIP_IS_STATUS_IN_CLASS code 200 then uac_success_response env tsx src
              else if 300 \<le> code \<and> code \<le> 699 then uac_failure_response env tsx src
              else (PJ_EBUG, tsx))
      | Ev_Timer Retransmit_Timer \<Rightarrow> tsx_retransmit env True tsx
      | Ev_Timer Timeout_Timer \<Rightarrow>
          (PJ_SUCCESS,
           tsx_set_state env PJSIP_TSX_STATE_TERMINATED (Src_Timer Timeout_Timer) {}
             (tsx_set_status_code PJSIP_SC_TSX_TIMEOUT tsx)))"

definition tsx_on_state_calling ::
    "tsx_env \<Rightarrow> pjsip_transaction \<Rightarrow> pjsip_event \<Rightarrow> pj_status \<times> pjsip_transaction" where
  "tsx_on_state_calling env tsx event =
     (case event of
        Ev_Timer Retransmit_Timer \<Rightarrow> tsx_retransmit env True tsx
      | Ev_Timer Timeout_Timer \<Rightarrow>
          (let tsx = clear_flag TSX_HAS_PENDING_RESCHED (tsx_cancel_timer Retransmit_Timer tsx);
               tsx = tsx_set_status_code PJSIP_SC_TSX_TIMEOUT tsx
           in (PJ_SUCCESS, tsx_set_state env PJSIP_TSX_STATE_TERMINATED (Src_Timer Timeout_Timer) {} tsx))
      | Ev_Rx_Msg (Rx_Request _) \<Rightarrow> (PJSIP_ENOTRESPONSEMSG, tsx)
      | Ev_Rx_Msg (Rx_Response code) \<Rightarrow>
          (let tsx = tsx_cancel_timer Retransmit_Timer tsx;
               tsx = (if code \<ge> 200 then
                        (if tm_id (timeout_timer tsx) \<noteq> TIMER_INACTIVE then tsx_cancel_timer Timeout_Timer tsx else tsx)
                      else if method_id tsx = PJSIP_INVITE_METHOD then tsx_cancel_timer Timeout_Timer tsx
                      else if \<not> is_reliable tsx
                      then tsx_schedule_timer Retransmit_Timer (t2_timer_val (env_timers env)) RETRANSMIT_TIMER tsx
                      else tsx);
               tsx = clear_flag TSX_HAS_PENDING_RESCHED tsx
           in (PJ_SUCCESS, snd (tsx_on_state_proceeding_uac env tsx event)))
      | Ev_Tx_Msg _ \<Rightarrow> (PJ_EBUG, tsx))"

text \<open>The responses of the user of a server transaction, after they were sent.\<close>

definition uas_provisional :: "tsx_env \<Rightarrow> pjsip_transaction \<Rightarrow> nat \<Rightarrow> pjsip_transaction" where
  "uas_provisional env tsx tdata =
     (let tsx = save_last_tx tdata tsx;
          tsx = tsx_set_state env PJSIP_TSX_STATE_PROCEEDING (Src_Tx_Msg tdata) {} tsx
      in if PJSIP_TSX_1XX_RETRANS_DELAY > 0 \<and> method_id tsx = PJSIP_INVITE_METHOD \<and> status_code tsx > 100
         then start_retransmit (Time_Val (int PJSIP_TSX_1XX_RETRANS_DELAY) 0) (tsx_cancel_timer Retransmit_Timer tsx)
         else tsx)"

definition uas_success :: "tsx_env \<Rightarrow> pjsip_transaction \<Rightarrow> nat \<Rightarrow> pjsip_transaction" where
  "uas_success env tsx tdata =
     (let tsx = tsx_cancel_timer Retransmit_Timer tsx
      in if method_id tsx = PJSIP_INVITE_METHOD \<and> \<not> handle_200resp tsx
         then tsx_set_state env PJSIP_TSX_STATE_TERMINATED (Src_Tx_Msg tdata) {} tsx
         else
           (let tsx = (if method_id tsx = PJSIP_INVITE_METHOD then start_retransmit (t1_timer_val (env_timers env)) tsx else tsx);
                tsx = save_last_tx tdata tsx;
                timeout = (if method_id tsx = PJSIP_INVITE_METHOD then timeout_timer_val (env_timers env)
                           else if \<not> is_reliable tsx then timeout_timer_val (env_timers env)
                           else Time_Val 0 0)
            in tsx_set_state env PJSIP_TSX_STATE_COMPLETED (Src_Tx_Msg tdata) {} (restart_timeout timeout tsx)))"

definition uas_failure :: "tsx_env \<Rightarrow> pjsip_transaction \<Rightarrow> nat \<Rightarrow> pjsip_transaction" where
  "uas_failure env tsx tdata =
     (let tsx = save_last_tx tdata (tsx_cancel_timer Retransmit_Timer tsx);
          timeout = (if method_id tsx = PJSIP_INVITE_METHOD then timeout_timer_val (env_timers env)
                     else if \<not> is_reliable tsx then timeout_timer_val (env_timers env)
                     else Time_Val 0 0);
          tsx = restart_timeout timeout tsx;
          tsx = (if \<not> is_reliable tsx \<and> td_cseq_method (env_tdata env tdata) = PJSIP_INVITE_METHOD
                 then start_retransmit (t1_timer_val (env_timers env)) tsx else tsx)
      in tsx_set_state env PJSIP_TSX_STATE_COMPLETED (Src_Tx_Msg tdata) {} tsx)"

definition tsx_on_state_proceeding_uas ::
    "tsx_env \<Rightarrow> pjsip_transaction \<Rightarrow> pjsip_event \<Rightarrow> pj_status \<times> pjsip_transaction" where
  "tsx_on_state_proceeding_uas env tsx event =
     (case event of
        Ev_Rx_Msg _ \<Rightarrow>
          (case last_tx tsx of
             None \<Rightarrow> (PJ_EBUG, tsx)
           | Some td \<Rightarrow>
               if has_flag TSX_HAS_PENDING_TRANSPORT tsx then (PJ_SUCCESS, set_flag TSX_HAS_PENDING_SEND tsx)
               else tsx_send_msg env tsx td)
      | Ev_Tx_Msg tdata \<Rightarrow>
          (let msg = env_tdata env tdata
           in if \<not> td_is_response msg then (PJSIP_ENOTRESPONSEMSG, tsx)
              else
                (let tsx = tsx_set_status_code (td_code msg) tsx;
                     tsx = discard_last_tx tdata tsx;
                     (status, tsx) = tsx_send_msg env tsx tdata
                 in if status \<noteq> PJ_SUCCESS then (status, tsx)
                    else if PJSIP_IS_STATUS_IN_CLASS (status_code tsx) 100 then (PJ_SUCCESS, uas_provisional env tsx tdata)
                    else if PJSIP_IS_STATUS_IN_CLASS (status_code tsx) 200 then (PJ_SUCCESS, uas_success env tsx tdata)
                    else if status_code tsx \<ge> 300 then (PJ_SUCCESS, uas_failure env tsx tdata)
                    else (PJ_SUCCESS, tsx)))
      | Ev_Timer Retransmit_Timer \<Rightarrow> tsx_retransmit env True tsx
      | Ev_Timer Timeout_Timer \<Rightarrow>
          (PJ_EBUG,
           tsx_set_state env PJSIP_TSX_STATE_TERMINATED (Src_Timer Timeout_Timer) {}
             (tsx_set_status_code PJSIP_SC_TSX_TIMEOUT tsx)))"

definition tsx_on_state_trying ::
    "tsx_env \<Rightarrow> pjsip_transaction \<Rightarrow> pjsip_event \<Rightarrow> pj_status \<times> pjsip_transaction" where
  "tsx_on_state_trying env tsx event =
     (case event of
        Ev_Tx_Msg tdata \<Rightarrow>
          (let (status, tsx) = tsx_on_state_proceeding_uas env tsx event
           in if status = PJ_SUCCESS \<and> tsx_state tsx = PJSIP_TSX_STATE_TRYING
              then (status, tsx_set_state env PJSIP_TSX_STATE_PROCEEDING (Src_Tx_Msg tdata) {} tsx)
              else (status, tsx))
      | _ \<Rightarrow> (PJ_SUCCESS, tsx))"

definition tsx_on_state_completed_uas ::
    "tsx_env \<Rightarrow> pjsip_transaction \<Rightarrow> pjsip_event \<Rightarrow> pj_status \<times> pjsip_transaction" where
  "tsx_on_state_completed_uas env tsx event =
     (case event of
        Ev_Rx_Msg (Rx_Response _) \<Rightarrow> (PJSIP_ENOTREQUESTMSG, tsx)
      | Ev_Rx_Msg (Rx_Request m) \<Rightarrow>
          if m \<noteq> PJSIP_ACK_METHOD then tsx_retransmit env False tsx
          else if method_id tsx \<noteq> PJSIP_INVITE_METHOD then (PJSIP_EINVALIDMETHOD, tsx)
          else
            (let tsx = clear_flag TSX_HAS_PENDING_RESCHED (tsx_cancel_timer Retransmit_Timer tsx);
                 timeout = (if is_reliable tsx then Time_Val 0 0 else t4_timer_val (env_timers env));
                 tsx = restart_timeout timeout tsx
             in (PJ_SUCCESS, tsx_set_state env PJSIP_TSX_STATE_CONFIRMED (Src_Rx_Msg (Rx_Request m)) {} tsx))
      | Ev_Timer Retransmit_Timer \<Rightarrow> tsx_retransmit env True tsx
      | Ev_Timer Timeout_Timer \<Rightarrow>
          (let tsx = (if method_id tsx = PJSIP_INVITE_METHOD then tsx_set_status_code PJSIP_SC_TSX_TIMEOUT tsx else tsx)
           in (PJ_SUCCESS, tsx_set_state env PJSIP_TSX_STATE_TERMINATED (Src_Timer Timeout_Timer) {} tsx))
      | Ev_Tx_Msg tdata \<Rightarrow> if Some tdata \<noteq> last_tx tsx then (PJ_EINVALIDOP, tsx) else (PJ_SUCCESS, tsx))"

definition tsx_on_state_completed_uac ::
    "tsx_env \<Rightarrow> pjsip_transaction \<Rightarrow> pjsip_event \<Rightarrow> pj_status \<times> pjsip_transaction" where
  "tsx_on_state_completed_uac env tsx event =
     (case event of
        Ev_Timer Retransmit_Timer \<Rightarrow> (PJ_SUCCESS, tsx)
      | Ev_Timer Timeout_Timer \<Rightarrow>
          (PJ_SUCCESS, tsx_set_state env PJSIP_TSX_STATE_TERMINATED (Src_Timer Timeout_Timer) {} tsx)
      | Ev_Rx_Msg (Rx_Response code) \<Rightarrow>
          if method_id tsx = PJSIP_INVITE_METHOD \<and> code \<ge> 200 then tsx_retransmit env False tsx else (PJ_SUCCESS, tsx)
      | Ev_Rx_Msg (Rx_Request _) \<Rightarrow> (PJ_SUCCESS, tsx)
      | Ev_Tx_Msg _ \<Rightarrow> (PJ_EINVALIDOP, tsx))"

definition tsx_on_state_confirmed ::
    "tsx_env \<Rightarrow> pjsip_transaction \<Rightarrow> pjsip_event \<Rightarrow> pj_status \<times> pjsip_transaction" where
  "tsx_on_state_confirmed env tsx event =
     (case event of
        Ev_Rx_Msg (Rx_Response _) \<Rightarrow> (PJSIP_ENOTREQUESTMSG, tsx)
      | Ev_Rx_Msg (Rx_Request _) \<Rightarrow> (PJ_SUCCESS, tsx)
      | Ev_Timer Retransmit_Timer \<Rightarrow> (PJ_SUCCESS, tsx)
      | Ev_Timer Timeout_Timer \<Rightarrow>
          (PJ_SUCCESS, tsx_set_state env PJSIP_TSX_STATE_TERMINATED (Src_Timer Timeout_Timer) {} tsx)
      | Ev_Tx_Msg _ \<Rightarrow> (PJ_EBUG, tsx))"

definition tsx_on_state_terminated ::
    "tsx_env \<Rightarrow> pjsip_transaction \<Rightarrow> pjsip_event \<Rightarrow> pj_status \<times> pjsip_transaction" where
  "tsx_on_state_terminated env tsx event =
     (case event of
        Ev_Timer entry \<Rightarrow> (PJ_SUCCESS, tsx_set_state env PJSIP_TSX_STATE_DESTROYED (Src_Timer entry) {} tsx)
      | _ \<Rightarrow> (PJ_EIGNORED, tsx))"

definition tsx_on_state_destroyed ::
    "tsx_env \<Rightarrow> pjsip_transaction \<Rightarrow> pjsip_event \<Rightarrow> pj_status \<times> pjsip_transaction" where
  "tsx_on_state_destroyed env tsx event = (PJ_EIGNORED, tsx)"

text \<open>The tables of handlers, by role and state; \<open>None\<close> is the null pointer they hold for a state the role does not have.\<close>

definition tsx_state_handler :: "pjsip_role \<Rightarrow> pjsip_tsx_state_e
    \<Rightarrow> (tsx_env \<Rightarrow> pjsip_transaction \<Rightarrow> pjsip_event \<Rightarrow> pj_status \<times> pjsip_transaction) option" where
  "tsx_state_handler role state =
     (case state of
        PJSIP_TSX_STATE_NULL \<Rightarrow> Some tsx_on_state_null
      | PJSIP_TSX_STATE_CALLING \<Rightarrow> (if role = PJSIP_ROLE_UAC then Some tsx_on_state_calling else None)
      | PJSIP_TSX_STATE_TRYING \<Rightarrow> (if role = PJSIP_ROLE_UAC then None else Some tsx_on_state_trying)
      | PJSIP_TSX_STATE_PROCEEDING \<Rightarrow>
          (if role = PJSIP_ROLE_UAC then Some tsx_on_state_proceeding_uac else Some tsx_on_state_proceeding_uas)
      | PJSIP_TSX_STATE_COMPLETED \<Rightarrow>
          (if role = PJSIP_ROLE_UAC then Some tsx_on_state_completed_uac else Some tsx_on_state_completed_uas)
      | PJSIP_TSX_STATE_CONFIRMED \<Rightarrow> Some tsx_on_state_confirmed
      | PJSIP_TSX_STATE_TERMINATED \<Rightarrow> Some tsx_on_state_terminated
      | PJSIP_TSX_STATE_DESTROYED \<Rightarrow> Some tsx_on_state_destroyed)"

definition run_handler :: "tsx_env \<Rightarrow> pjsip_transaction \<Rightarrow> pjsip_event \<Rightarrow> (pj_status \<times> pjsip_transaction) option" where
  "run_handler env tsx event =
     map_option (\<lambda>handler. handler env tsx event) (tsx_state_handler (tsx_role tsx) (tsx_state tsx))"

section \<open>Timer callback\<close>

text \<open>
  Errors of the transport are posted as timer events, so the callback handles those first. The heap has taken the
  entry out when it calls, and drops its reference to the group lock when the callback has returned
  (\<open>tsx_timer_fire\<close>).
\<close>

definition transport_gone :: "tsx_env \<Rightarrow> bool \<Rightarrow> pjsip_transaction \<Rightarrow> pjsip_transaction" where
  "transport_gone env tp_disc tsx =
     (let prev_state = tsx_state tsx;
          tsx = tsx_update_transport env None tsx
      in if tp_disc \<and> method_id tsx = PJSIP_INVITE_METHOD \<and> tsx_role tsx = PJSIP_ROLE_UAS \<and> status_code tsx < 200
            \<and> \<not> has_flag TSX_HAS_PENDING_TRANSPORT tsx \<and> \<not> has_flag TSX_HAS_PENDING_DESTROY tsx
         then tsx\<lparr>transport_flag := {}, addr_len := 0, res_addr_transport := None, res_addr_len := 0\<rparr>
         else
           (let tsx = (if status_code tsx < 200 then tsx_set_status_code PJSIP_SC_TSX_TRANSPORT_ERROR tsx else tsx);
                tsx = tsx_set_state env PJSIP_TSX_STATE_TERMINATED Src_Transport_Error {NO_NOTIFY, NO_SCHEDULE_HANDLER} tsx;
                tsx = (case tsx_user tsx of
                         None \<Rightarrow> tsx
                       | Some user \<Rightarrow>
                           if has_on_tsx_state user
                           then note_it (On_Tsx_State prev_state (tsx_state tsx) Src_Transport_Error) tsx else tsx)
            in tsx_schedule_timer Timeout_Timer (Time_Val 0 0) TIMEOUT_TIMER tsx))"

definition tsx_timer_callback :: "tsx_env \<Rightarrow> tsx_timer_name \<Rightarrow> pjsip_transaction \<Rightarrow> pjsip_transaction option" where
  "tsx_timer_callback env entry tsx =
     (if tsx_state tsx \<ge> PJSIP_TSX_STATE_DESTROYED then Some tsx
      else
        (let timer_id = tm_id (get_timer entry tsx);
             tsx = set_timer entry ((get_timer entry tsx)\<lparr>tm_id := TIMER_INACTIVE\<rparr>) tsx
         in if timer_id = TRANSPORT_ERR_TIMER \<or> timer_id = TRANSPORT_DISC_TIMER then
              Some (if tsx_state tsx < PJSIP_TSX_STATE_TERMINATED
                    then transport_gone env (timer_id = TRANSPORT_DISC_TIMER) tsx else tsx)
            else map_option snd (run_handler env tsx (Ev_Timer entry))))"

definition tsx_timer_fire :: "tsx_env \<Rightarrow> tsx_timer_name \<Rightarrow> pjsip_transaction \<Rightarrow> pjsip_transaction option" where
  "tsx_timer_fire env entry tsx =
     map_option (\<lambda>tsx. tsx\<lparr>grp_refs := grp_refs tsx - 1\<rparr>)
       (tsx_timer_callback env entry (set_timer entry ((get_timer entry tsx)\<lparr>tm_running := None\<rparr>) tsx))"

section \<open>Operations of the user and of the endpoint\<close>

definition pjsip_tsx_send_msg ::
    "tsx_env \<Rightarrow> pjsip_transaction \<Rightarrow> nat option \<Rightarrow> (pj_status \<times> pjsip_transaction) option" where
  "pjsip_tsx_send_msg env tsx tdata =
     (case (case tdata of None \<Rightarrow> last_tx tsx | Some td \<Rightarrow> Some td) of
        None \<Rightarrow> Some (PJ_EINVALIDOP, tsx)
      | Some td \<Rightarrow>
          map_option (\<lambda>(status, tsx). (status, if status = PJ_SUCCESS then td_dec_ref td tsx else tsx))
            (run_handler env tsx (Ev_Tx_Msg td)))"

definition pjsip_tsx_recv_msg :: "tsx_env \<Rightarrow> pjsip_transaction \<Rightarrow> pjsip_rx_msg \<Rightarrow> pjsip_transaction option" where
  "pjsip_tsx_recv_msg env tsx rdata = map_option snd (run_handler env tsx (Ev_Rx_Msg rdata))"

definition pjsip_tsx_terminate :: "tsx_env \<Rightarrow> pjsip_transaction \<Rightarrow> nat \<Rightarrow> pj_status \<times> pjsip_transaction" where
  "pjsip_tsx_terminate env tsx code =
     (if code < 200 then (PJ_EINVAL, tsx)
      else if tsx_state tsx < PJSIP_TSX_STATE_TERMINATED
      then (PJ_SUCCESS, tsx_set_state env PJSIP_TSX_STATE_TERMINATED Src_User {} (tsx_set_status_code code tsx))
      else (PJ_SUCCESS, tsx))"

definition pjsip_tsx_stop_retransmit :: "pjsip_transaction \<Rightarrow> pj_status \<times> pjsip_transaction" where
  "pjsip_tsx_stop_retransmit tsx =
     (if \<not> (tsx_role tsx = PJSIP_ROLE_UAC \<and> method_id tsx = PJSIP_INVITE_METHOD) then (PJ_EINVALIDOP, tsx)
      else (PJ_SUCCESS, tsx_cancel_timer Retransmit_Timer tsx))"

definition pjsip_tsx_set_timeout :: "pjsip_transaction \<Rightarrow> nat \<Rightarrow> pj_status \<times> pjsip_transaction" where
  "pjsip_tsx_set_timeout tsx millisec =
     (if \<not> (tsx_role tsx = PJSIP_ROLE_UAC \<and> method_id tsx = PJSIP_INVITE_METHOD) then (PJ_EINVALIDOP, tsx)
      else if status_code tsx \<ge> 200 \<and> tm_id (timeout_timer tsx) \<noteq> TIMER_INACTIVE then (PJ_EEXISTS, tsx)
      else (PJ_SUCCESS, restart_timeout (pj_time_val_normalize (Time_Val 0 (int millisec))) tsx))"

section \<open>Creation\<close>

text \<open>
  The counters that exist before the transaction does: of the group lock it is to share, of transmit data, transports and
  selectors. The group lock and the pool of the transaction can always be had.
\<close>

definition tsx_create ::
    "pjsip_module option \<Rightarrow> int \<Rightarrow> (nat \<Rightarrow> int) \<Rightarrow> (nat \<Rightarrow> int) \<Rightarrow> (nat \<Rightarrow> int) \<Rightarrow> pjsip_role \<Rightarrow> pjsip_method_e \<Rightarrow> pjsip_transaction" where
  "tsx_create user refs tds tps sels role method =
     \<lparr>tsx_user = user, terminating = False, tsx_role = role, method_id = method, status_code = 0,
      tsx_state = PJSIP_TSX_STATE_NULL, handle_200resp = True, tsx_transport = None, is_reliable = False,
      addr_len = 0, res_addr_transport = None, res_addr_len = 0, transport_flag = {}, transport_err = PJ_SUCCESS,
      tp_sel = None, pending_tx = None, last_tx = None, retransmit_count = 0,
      retransmit_timer = \<lparr>tm_id = TIMER_INACTIVE, tm_running = None\<rparr>,
      timeout_timer = \<lparr>tm_id = TIMER_INACTIVE, tm_running = None\<rparr>, registered = False, unreg_calls = 0,
      grp_refs = refs + 1, td_refs = tds, td_mod_data = (\<lambda>_. False), tp_refs = tps, sel_refs = sels, sends_out = 0,
      tsx_log = [], tsx_states = [PJSIP_TSX_STATE_NULL]\<rparr>"

text \<open>Registration fails when the table has the key already.\<close>

definition mod_tsx_layer_register_tsx :: "bool \<Rightarrow> pjsip_transaction \<Rightarrow> pj_status \<times> pjsip_transaction" where
  "mod_tsx_layer_register_tsx key_exists tsx =
     (if key_exists then (PJ_EEXISTS, tsx) else (PJ_SUCCESS, tsx\<lparr>registered := True\<rparr>))"

text \<open>
  A client transaction for the request \<open>tdata\<close>; \<open>dest\<close> is what \<^verbatim>\<open>pjsip_get_request_dest\<close> finds: a status, and whether the
  transport will be reliable. On an error after its creation the transaction is shut down, and is returned here in
  that state. The \<^verbatim>\<open>CSeq\<close> header may be missing.
\<close>

definition pjsip_tsx_create_uac2 ::
    "tsx_env \<Rightarrow> (pjsip_role \<Rightarrow> pjsip_method_e \<Rightarrow> pjsip_transaction) \<Rightarrow> nat \<Rightarrow> pjsip_method_e \<Rightarrow> bool \<Rightarrow> pj_status \<times> bool \<Rightarrow> bool
      \<Rightarrow> pj_status \<times> pjsip_transaction option" where
  "pjsip_tsx_create_uac2 env create tdata method has_cseq dest key_exists =
     (if td_is_response (env_tdata env tdata) then (PJSIP_ENOTREQUESTMSG, None)
      else if method = PJSIP_ACK_METHOD then (PJ_EINVALIDOP, None)
      else if \<not> has_cseq then (PJSIP_EMISSINGHDR, None)
      else
        (let tsx = create PJSIP_ROLE_UAC method;
             tsx = (td_add_ref tdata tsx)\<lparr>last_tx := Some tdata\<rparr>
         in if fst dest \<noteq> PJ_SUCCESS then (fst dest, Some (tsx_shutdown env tsx))
            else
              (let tsx = tsx\<lparr>is_reliable := snd dest\<rparr>;
                   (status, tsx) = mod_tsx_layer_register_tsx key_exists tsx
               in if status \<noteq> PJ_SUCCESS then (status, Some (tsx_shutdown env tsx)) else (PJ_SUCCESS, Some tsx))))"

text \<open>
  A server transaction for a received request: its message type, headers and key, and the address for responses
  (a status, the transport to use if that is decided, the length of its address, and whether the destination host
  stands for a reliable transport).
\<close>

record uas_request =
  rq_is_request :: bool
  rq_method :: pjsip_method_e
  rq_has_cseq :: bool
  rq_has_via :: bool
  rq_cseq_matches :: bool
  rq_key :: pj_status
  rq_key_exists :: bool
  rq_res_addr :: pj_status
  rq_res_transport :: "nat option"
  rq_res_addr_len :: nat
  rq_dst_reliable :: bool

definition pjsip_tsx_create_uas2 ::
    "tsx_env \<Rightarrow> (pjsip_role \<Rightarrow> pjsip_method_e \<Rightarrow> pjsip_transaction) \<Rightarrow> uas_request \<Rightarrow> pj_status \<times> pjsip_transaction option" where
  "pjsip_tsx_create_uas2 env create rq =
     (if \<not> rq_is_request rq then (PJSIP_ENOTREQUESTMSG, None)
      else if rq_method rq = PJSIP_ACK_METHOD then (PJ_EINVALIDOP, None)
      else if \<not> rq_has_cseq rq then (PJSIP_EMISSINGHDR, None)
      else if \<not> rq_has_via rq then (PJSIP_EMISSINGHDR, None)
      else if \<not> rq_cseq_matches rq then (PJSIP_EINVALIDHDR, None)
      else
        (let tsx = create PJSIP_ROLE_UAS (rq_method rq)
         in if rq_key rq \<noteq> PJ_SUCCESS then (rq_key rq, Some (tsx_shutdown env tsx))
            else if rq_res_addr rq \<noteq> PJ_SUCCESS then (rq_res_addr rq, Some (tsx_shutdown env tsx))
            else
              (let tsx = tsx\<lparr>res_addr_transport := rq_res_transport rq, res_addr_len := rq_res_addr_len rq\<rparr>;
                   tsx = (case rq_res_transport rq of
                            Some tp \<Rightarrow>
                              (tsx_update_transport env (Some tp) tsx)\<lparr>addr_len := rq_res_addr_len rq, is_reliable := env_tp_reliable env tp\<rparr>
                          | None \<Rightarrow> tsx\<lparr>is_reliable := rq_dst_reliable rq\<rparr>);
                   (status, tsx) = mod_tsx_layer_register_tsx (rq_key_exists rq) tsx
               in if status \<noteq> PJ_SUCCESS then (status, Some (tsx_shutdown env tsx)) else (PJ_SUCCESS, Some tsx))))"

section \<open>Runs\<close>

text \<open>
  What can happen to a transaction: the operations of its user, the messages the endpoint passes to it, its timers,
  and the callbacks of sends that are on their way; and the user may say that it repeats 200 responses itself, or take that back,
  by writing \<^verbatim>\<open>handle_200resp\<close>. The environment may answer differently in each step. The parser
  lets only codes from \<^verbatim>\<open>PJSIP_MIN_STATUS_CODE\<close> to \<^verbatim>\<open>PJSIP_MAX_STATUS_CODE\<close> pass, and a transport that
  disconnects gives its reason.
\<close>

definition PJSIP_MIN_STATUS_CODE :: nat where
  "PJSIP_MIN_STATUS_CODE = 100"

definition PJSIP_MAX_STATUS_CODE :: nat where
  "PJSIP_MAX_STATUS_CODE = 999"

primrec rx_msg_ok :: "pjsip_rx_msg \<Rightarrow> bool" where
  "rx_msg_ok (Rx_Request m) = True"
| "rx_msg_ok (Rx_Response code) = (PJSIP_MIN_STATUS_CODE \<le> code \<and> code \<le> PJSIP_MAX_STATUS_CODE)"

inductive tsx_step :: "pjsip_transaction \<Rightarrow> tsx_env \<Rightarrow> pjsip_transaction \<Rightarrow> bool" where
  step_send: "pjsip_tsx_send_msg env tsx td = Some (status, tsx') \<Longrightarrow> tsx_step tsx env tsx'"
| step_recv: "tsx_state tsx \<noteq> PJSIP_TSX_STATE_TERMINATED \<Longrightarrow> rx_msg_ok rdata \<Longrightarrow> pjsip_tsx_recv_msg env tsx rdata = Some tsx' \<Longrightarrow>
     tsx_step tsx env tsx'"
| step_timer: "tm_running (get_timer entry tsx) \<noteq> None \<Longrightarrow> tsx_timer_fire env entry tsx = Some tsx' \<Longrightarrow> tsx_step tsx env tsx'"
| step_sent: "td_mod_data tsx td \<Longrightarrow> tsx_step tsx env (fst (send_msg_callback env st td tsx))"
| step_transport: "sends_out tsx > 0 \<Longrightarrow> tsx_step tsx env (transport_callback env sent tsx)"
| step_disconnected: "tsx_transport tsx \<noteq> None \<Longrightarrow> status \<noteq> PJ_SUCCESS \<Longrightarrow> tsx_step tsx env (tsx_tp_state_callback status tsx)"
| step_terminate: "tsx_step tsx env (snd (pjsip_tsx_terminate env tsx code))"
| step_stop_retransmit: "tsx_step tsx env (snd (pjsip_tsx_stop_retransmit tsx))"
| step_set_timeout: "tsx_state tsx < PJSIP_TSX_STATE_TERMINATED \<Longrightarrow>
     tsx_step tsx env (snd (pjsip_tsx_set_timeout tsx millisec))"
| step_set_transport: "tsx_step tsx env (snd (pjsip_tsx_set_transport tsx sel))"
| step_retransmit: "tsx_state tsx < PJSIP_TSX_STATE_TERMINATED \<Longrightarrow>
     pjsip_tsx_retransmit_no_state env tsx td = Some (status, tsx') \<Longrightarrow> tsx_step tsx env tsx'"
| step_handle_200resp: "tsx_step tsx env (tsx\<lparr>handle_200resp := b\<rparr>)"

end
