(* ===== verification/Sip_Tsx_Inv.thy ===== *)
theory Sip_Tsx_Inv
  imports Sip_Transaction
begin

text \<open>
  Invariants of the SIP transaction. First the frame of each small step (what it leaves alone), then the references to the
  group lock, the bookkeeping of pending sends, and the states: they only go up, and a transaction that waits for
  nothing else has its timeout timer running.
\<close>

section \<open>Frames\<close>

lemma tsx_schedule_timer_frame [simp]:
  "tsx_state (tsx_schedule_timer e d i tsx) = tsx_state tsx"
  "tsx_role (tsx_schedule_timer e d i tsx) = tsx_role tsx"
  "method_id (tsx_schedule_timer e d i tsx) = method_id tsx"
  "transport_flag (tsx_schedule_timer e d i tsx) = transport_flag tsx"
  "pending_tx (tsx_schedule_timer e d i tsx) = pending_tx tsx"
  "sends_out (tsx_schedule_timer e d i tsx) = sends_out tsx"
  "terminating (tsx_schedule_timer e d i tsx) = terminating tsx"
  "td_mod_data (tsx_schedule_timer e d i tsx) = td_mod_data tsx"
  "registered (tsx_schedule_timer e d i tsx) = registered tsx"
  "transport_err (tsx_schedule_timer e d i tsx) = transport_err tsx"
  "last_tx (tsx_schedule_timer e d i tsx) = last_tx tsx"
  "status_code (tsx_schedule_timer e d i tsx) = status_code tsx"
  "tsx_transport (tsx_schedule_timer e d i tsx) = tsx_transport tsx"
  "tsx_user (tsx_schedule_timer e d i tsx) = tsx_user tsx"
  "is_reliable (tsx_schedule_timer e d i tsx) = is_reliable tsx"
  "handle_200resp (tsx_schedule_timer e d i tsx) = handle_200resp tsx"
  "retransmit_count (tsx_schedule_timer e d i tsx) = retransmit_count tsx"
  by (cases e; simp add: tsx_schedule_timer_def)+

lemma tsx_cancel_timer_frame [simp]:
  "tsx_state (tsx_cancel_timer e tsx) = tsx_state tsx" "tsx_role (tsx_cancel_timer e tsx) = tsx_role tsx"
  "method_id (tsx_cancel_timer e tsx) = method_id tsx"
  "transport_flag (tsx_cancel_timer e tsx) = transport_flag tsx"
  "pending_tx (tsx_cancel_timer e tsx) = pending_tx tsx"
  "sends_out (tsx_cancel_timer e tsx) = sends_out tsx"
  "terminating (tsx_cancel_timer e tsx) = terminating tsx"
  "td_mod_data (tsx_cancel_timer e tsx) = td_mod_data tsx"
  "registered (tsx_cancel_timer e tsx) = registered tsx"
  "transport_err (tsx_cancel_timer e tsx) = transport_err tsx"
  "last_tx (tsx_cancel_timer e tsx) = last_tx tsx" "status_code (tsx_cancel_timer e tsx) = status_code tsx"
  "tsx_transport (tsx_cancel_timer e tsx) = tsx_transport tsx"
  "tsx_user (tsx_cancel_timer e tsx) = tsx_user tsx"
  "is_reliable (tsx_cancel_timer e tsx) = is_reliable tsx"
  "handle_200resp (tsx_cancel_timer e tsx) = handle_200resp tsx"
  "retransmit_count (tsx_cancel_timer e tsx) = retransmit_count tsx"
  by (cases e; simp add: tsx_cancel_timer_def)+

lemma restart_timeout_frame [simp]:
  "tsx_state (restart_timeout d tsx) = tsx_state tsx" "tsx_role (restart_timeout d tsx) = tsx_role tsx"
  "method_id (restart_timeout d tsx) = method_id tsx"
  "transport_flag (restart_timeout d tsx) = transport_flag tsx"
  "pending_tx (restart_timeout d tsx) = pending_tx tsx" "sends_out (restart_timeout d tsx) = sends_out tsx"
  "terminating (restart_timeout d tsx) = terminating tsx"
  "td_mod_data (restart_timeout d tsx) = td_mod_data tsx"
  "registered (restart_timeout d tsx) = registered tsx"
  "transport_err (restart_timeout d tsx) = transport_err tsx"
  "last_tx (restart_timeout d tsx) = last_tx tsx" "status_code (restart_timeout d tsx) = status_code tsx"
  "tsx_transport (restart_timeout d tsx) = tsx_transport tsx"
  "tsx_user (restart_timeout d tsx) = tsx_user tsx" "is_reliable (restart_timeout d tsx) = is_reliable tsx"
  "handle_200resp (restart_timeout d tsx) = handle_200resp tsx"
  "retransmit_count (restart_timeout d tsx) = retransmit_count tsx"
  by (simp_all add: restart_timeout_def)

lemma td_add_ref_frame [simp]:
  "tsx_state (td_add_ref td tsx) = tsx_state tsx" "tsx_role (td_add_ref td tsx) = tsx_role tsx"
  "method_id (td_add_ref td tsx) = method_id tsx" "transport_flag (td_add_ref td tsx) = transport_flag tsx"
  "pending_tx (td_add_ref td tsx) = pending_tx tsx" "sends_out (td_add_ref td tsx) = sends_out tsx"
  "terminating (td_add_ref td tsx) = terminating tsx" "td_mod_data (td_add_ref td tsx) = td_mod_data tsx"
  "registered (td_add_ref td tsx) = registered tsx" "transport_err (td_add_ref td tsx) = transport_err tsx"
  "last_tx (td_add_ref td tsx) = last_tx tsx" "status_code (td_add_ref td tsx) = status_code tsx"
  "tsx_transport (td_add_ref td tsx) = tsx_transport tsx" "tsx_user (td_add_ref td tsx) = tsx_user tsx"
  "is_reliable (td_add_ref td tsx) = is_reliable tsx"
  "handle_200resp (td_add_ref td tsx) = handle_200resp tsx"
  "retransmit_count (td_add_ref td tsx) = retransmit_count tsx"
  "retransmit_timer (td_add_ref td tsx) = retransmit_timer tsx"
  "timeout_timer (td_add_ref td tsx) = timeout_timer tsx" "grp_refs (td_add_ref td tsx) = grp_refs tsx"
  by (simp_all add: td_add_ref_def)

lemma td_dec_ref_frame [simp]:
  "tsx_state (td_dec_ref td tsx) = tsx_state tsx" "tsx_role (td_dec_ref td tsx) = tsx_role tsx"
  "method_id (td_dec_ref td tsx) = method_id tsx" "transport_flag (td_dec_ref td tsx) = transport_flag tsx"
  "pending_tx (td_dec_ref td tsx) = pending_tx tsx" "sends_out (td_dec_ref td tsx) = sends_out tsx"
  "terminating (td_dec_ref td tsx) = terminating tsx" "td_mod_data (td_dec_ref td tsx) = td_mod_data tsx"
  "registered (td_dec_ref td tsx) = registered tsx" "transport_err (td_dec_ref td tsx) = transport_err tsx"
  "last_tx (td_dec_ref td tsx) = last_tx tsx" "status_code (td_dec_ref td tsx) = status_code tsx"
  "tsx_transport (td_dec_ref td tsx) = tsx_transport tsx" "tsx_user (td_dec_ref td tsx) = tsx_user tsx"
  "is_reliable (td_dec_ref td tsx) = is_reliable tsx"
  "handle_200resp (td_dec_ref td tsx) = handle_200resp tsx"
  "retransmit_count (td_dec_ref td tsx) = retransmit_count tsx"
  "retransmit_timer (td_dec_ref td tsx) = retransmit_timer tsx"
  "timeout_timer (td_dec_ref td tsx) = timeout_timer tsx" "grp_refs (td_dec_ref td tsx) = grp_refs tsx"
  by (simp_all add: td_dec_ref_def)

lemma tpselector_ref_frame [simp]:
  "tsx_state (tpselector_ref k sel tsx) = tsx_state tsx"
  "tsx_role (tpselector_ref k sel tsx) = tsx_role tsx"
  "method_id (tpselector_ref k sel tsx) = method_id tsx"
  "transport_flag (tpselector_ref k sel tsx) = transport_flag tsx"
  "pending_tx (tpselector_ref k sel tsx) = pending_tx tsx"
  "sends_out (tpselector_ref k sel tsx) = sends_out tsx"
  "terminating (tpselector_ref k sel tsx) = terminating tsx"
  "td_mod_data (tpselector_ref k sel tsx) = td_mod_data tsx"
  "registered (tpselector_ref k sel tsx) = registered tsx"
  "transport_err (tpselector_ref k sel tsx) = transport_err tsx"
  "last_tx (tpselector_ref k sel tsx) = last_tx tsx"
  "status_code (tpselector_ref k sel tsx) = status_code tsx"
  "tsx_transport (tpselector_ref k sel tsx) = tsx_transport tsx"
  "tsx_user (tpselector_ref k sel tsx) = tsx_user tsx"
  "is_reliable (tpselector_ref k sel tsx) = is_reliable tsx"
  "handle_200resp (tpselector_ref k sel tsx) = handle_200resp tsx"
  "retransmit_count (tpselector_ref k sel tsx) = retransmit_count tsx"
  "retransmit_timer (tpselector_ref k sel tsx) = retransmit_timer tsx"
  "timeout_timer (tpselector_ref k sel tsx) = timeout_timer tsx"
  "grp_refs (tpselector_ref k sel tsx) = grp_refs tsx"
  by (simp_all add: tpselector_ref_def split: option.split)

lemma tsx_set_status_code_frame [simp]:
  "tsx_state (tsx_set_status_code c tsx) = tsx_state tsx"
  "tsx_role (tsx_set_status_code c tsx) = tsx_role tsx"
  "method_id (tsx_set_status_code c tsx) = method_id tsx"
  "transport_flag (tsx_set_status_code c tsx) = transport_flag tsx"
  "pending_tx (tsx_set_status_code c tsx) = pending_tx tsx"
  "sends_out (tsx_set_status_code c tsx) = sends_out tsx"
  "terminating (tsx_set_status_code c tsx) = terminating tsx"
  "td_mod_data (tsx_set_status_code c tsx) = td_mod_data tsx"
  "registered (tsx_set_status_code c tsx) = registered tsx"
  "transport_err (tsx_set_status_code c tsx) = transport_err tsx"
  "last_tx (tsx_set_status_code c tsx) = last_tx tsx"
  "tsx_transport (tsx_set_status_code c tsx) = tsx_transport tsx"
  "tsx_user (tsx_set_status_code c tsx) = tsx_user tsx"
  "is_reliable (tsx_set_status_code c tsx) = is_reliable tsx"
  "handle_200resp (tsx_set_status_code c tsx) = handle_200resp tsx"
  "retransmit_count (tsx_set_status_code c tsx) = retransmit_count tsx"
  "retransmit_timer (tsx_set_status_code c tsx) = retransmit_timer tsx"
  "timeout_timer (tsx_set_status_code c tsx) = timeout_timer tsx"
  "grp_refs (tsx_set_status_code c tsx) = grp_refs tsx"
  by (simp_all add: tsx_set_status_code_def)

lemma notify_user_frame [simp]:
  "tsx_state (notify_user p s fl tsx) = tsx_state tsx" "tsx_role (notify_user p s fl tsx) = tsx_role tsx"
  "method_id (notify_user p s fl tsx) = method_id tsx"
  "transport_flag (notify_user p s fl tsx) = transport_flag tsx"
  "pending_tx (notify_user p s fl tsx) = pending_tx tsx"
  "sends_out (notify_user p s fl tsx) = sends_out tsx"
  "terminating (notify_user p s fl tsx) = terminating tsx"
  "td_mod_data (notify_user p s fl tsx) = td_mod_data tsx"
  "registered (notify_user p s fl tsx) = registered tsx"
  "transport_err (notify_user p s fl tsx) = transport_err tsx"
  "last_tx (notify_user p s fl tsx) = last_tx tsx" "status_code (notify_user p s fl tsx) = status_code tsx"
  "tsx_transport (notify_user p s fl tsx) = tsx_transport tsx"
  "tsx_user (notify_user p s fl tsx) = tsx_user tsx"
  "is_reliable (notify_user p s fl tsx) = is_reliable tsx"
  "handle_200resp (notify_user p s fl tsx) = handle_200resp tsx"
  "retransmit_count (notify_user p s fl tsx) = retransmit_count tsx"
  "retransmit_timer (notify_user p s fl tsx) = retransmit_timer tsx"
  "timeout_timer (notify_user p s fl tsx) = timeout_timer tsx"
  "grp_refs (notify_user p s fl tsx) = grp_refs tsx"
  by (simp_all add: notify_user_def Let_def split: option.split event_src.split pjsip_rx_msg.split)

lemma tsx_tp_state_callback_frame [simp]:
  "tsx_state (tsx_tp_state_callback st tsx) = tsx_state tsx"
  "tsx_role (tsx_tp_state_callback st tsx) = tsx_role tsx"
  "method_id (tsx_tp_state_callback st tsx) = method_id tsx"
  "transport_flag (tsx_tp_state_callback st tsx) = transport_flag tsx"
  "pending_tx (tsx_tp_state_callback st tsx) = pending_tx tsx"
  "sends_out (tsx_tp_state_callback st tsx) = sends_out tsx"
  "terminating (tsx_tp_state_callback st tsx) = terminating tsx"
  "td_mod_data (tsx_tp_state_callback st tsx) = td_mod_data tsx"
  "registered (tsx_tp_state_callback st tsx) = registered tsx"
  "last_tx (tsx_tp_state_callback st tsx) = last_tx tsx"
  "status_code (tsx_tp_state_callback st tsx) = status_code tsx"
  "tsx_transport (tsx_tp_state_callback st tsx) = tsx_transport tsx"
  "tsx_user (tsx_tp_state_callback st tsx) = tsx_user tsx"
  "is_reliable (tsx_tp_state_callback st tsx) = is_reliable tsx"
  "handle_200resp (tsx_tp_state_callback st tsx) = handle_200resp tsx"
  "retransmit_count (tsx_tp_state_callback st tsx) = retransmit_count tsx"
  by (simp_all add: tsx_tp_state_callback_def Let_def)

lemma tsx_update_transport_frame [simp]:
  "tsx_state (tsx_update_transport env tp tsx) = tsx_state tsx"
  "tsx_role (tsx_update_transport env tp tsx) = tsx_role tsx"
  "method_id (tsx_update_transport env tp tsx) = method_id tsx"
  "transport_flag (tsx_update_transport env tp tsx) = transport_flag tsx"
  "pending_tx (tsx_update_transport env tp tsx) = pending_tx tsx"
  "sends_out (tsx_update_transport env tp tsx) = sends_out tsx"
  "terminating (tsx_update_transport env tp tsx) = terminating tsx"
  "td_mod_data (tsx_update_transport env tp tsx) = td_mod_data tsx"
  "registered (tsx_update_transport env tp tsx) = registered tsx"
  "last_tx (tsx_update_transport env tp tsx) = last_tx tsx"
  "status_code (tsx_update_transport env tp tsx) = status_code tsx"
  "tsx_user (tsx_update_transport env tp tsx) = tsx_user tsx"
  "is_reliable (tsx_update_transport env tp tsx) = is_reliable tsx"
  "handle_200resp (tsx_update_transport env tp tsx) = handle_200resp tsx"
  "retransmit_count (tsx_update_transport env tp tsx) = retransmit_count tsx"
  by (simp_all add: tsx_update_transport_def Let_def split: option.split)

lemma save_last_tx_frame [simp]:
  "tsx_state (save_last_tx td tsx) = tsx_state tsx" "tsx_role (save_last_tx td tsx) = tsx_role tsx"
  "method_id (save_last_tx td tsx) = method_id tsx"
  "transport_flag (save_last_tx td tsx) = transport_flag tsx"
  "pending_tx (save_last_tx td tsx) = pending_tx tsx" "sends_out (save_last_tx td tsx) = sends_out tsx"
  "terminating (save_last_tx td tsx) = terminating tsx"
  "td_mod_data (save_last_tx td tsx) = td_mod_data tsx" "registered (save_last_tx td tsx) = registered tsx"
  "transport_err (save_last_tx td tsx) = transport_err tsx"
  "status_code (save_last_tx td tsx) = status_code tsx"
  "tsx_transport (save_last_tx td tsx) = tsx_transport tsx" "tsx_user (save_last_tx td tsx) = tsx_user tsx"
  "is_reliable (save_last_tx td tsx) = is_reliable tsx"
  "handle_200resp (save_last_tx td tsx) = handle_200resp tsx"
  "retransmit_count (save_last_tx td tsx) = retransmit_count tsx"
  "retransmit_timer (save_last_tx td tsx) = retransmit_timer tsx"
  "timeout_timer (save_last_tx td tsx) = timeout_timer tsx" "grp_refs (save_last_tx td tsx) = grp_refs tsx"
  by (simp_all add: save_last_tx_def)

lemma discard_last_tx_frame [simp]:
  "tsx_state (discard_last_tx td tsx) = tsx_state tsx" "tsx_role (discard_last_tx td tsx) = tsx_role tsx"
  "method_id (discard_last_tx td tsx) = method_id tsx"
  "transport_flag (discard_last_tx td tsx) = transport_flag tsx"
  "pending_tx (discard_last_tx td tsx) = pending_tx tsx"
  "sends_out (discard_last_tx td tsx) = sends_out tsx"
  "terminating (discard_last_tx td tsx) = terminating tsx"
  "td_mod_data (discard_last_tx td tsx) = td_mod_data tsx"
  "registered (discard_last_tx td tsx) = registered tsx"
  "transport_err (discard_last_tx td tsx) = transport_err tsx"
  "status_code (discard_last_tx td tsx) = status_code tsx"
  "tsx_transport (discard_last_tx td tsx) = tsx_transport tsx"
  "tsx_user (discard_last_tx td tsx) = tsx_user tsx"
  "is_reliable (discard_last_tx td tsx) = is_reliable tsx"
  "handle_200resp (discard_last_tx td tsx) = handle_200resp tsx"
  "retransmit_count (discard_last_tx td tsx) = retransmit_count tsx"
  "retransmit_timer (discard_last_tx td tsx) = retransmit_timer tsx"
  "timeout_timer (discard_last_tx td tsx) = timeout_timer tsx"
  "grp_refs (discard_last_tx td tsx) = grp_refs tsx"
  by (simp_all add: discard_last_tx_def split: option.split)

lemma unregister_frame [simp]:
  "tsx_state (mod_tsx_layer_unregister_tsx env tsx) = tsx_state tsx"
  "tsx_role (mod_tsx_layer_unregister_tsx env tsx) = tsx_role tsx"
  "method_id (mod_tsx_layer_unregister_tsx env tsx) = method_id tsx"
  "transport_flag (mod_tsx_layer_unregister_tsx env tsx) = transport_flag tsx"
  "pending_tx (mod_tsx_layer_unregister_tsx env tsx) = pending_tx tsx"
  "sends_out (mod_tsx_layer_unregister_tsx env tsx) = sends_out tsx"
  "terminating (mod_tsx_layer_unregister_tsx env tsx) = terminating tsx"
  "td_mod_data (mod_tsx_layer_unregister_tsx env tsx) = td_mod_data tsx"
  "transport_err (mod_tsx_layer_unregister_tsx env tsx) = transport_err tsx"
  "last_tx (mod_tsx_layer_unregister_tsx env tsx) = last_tx tsx"
  "status_code (mod_tsx_layer_unregister_tsx env tsx) = status_code tsx"
  "tsx_transport (mod_tsx_layer_unregister_tsx env tsx) = tsx_transport tsx"
  "tsx_user (mod_tsx_layer_unregister_tsx env tsx) = tsx_user tsx"
  "is_reliable (mod_tsx_layer_unregister_tsx env tsx) = is_reliable tsx"
  "handle_200resp (mod_tsx_layer_unregister_tsx env tsx) = handle_200resp tsx"
  "retransmit_count (mod_tsx_layer_unregister_tsx env tsx) = retransmit_count tsx"
  "retransmit_timer (mod_tsx_layer_unregister_tsx env tsx) = retransmit_timer tsx"
  "timeout_timer (mod_tsx_layer_unregister_tsx env tsx) = timeout_timer tsx"
  "grp_refs (mod_tsx_layer_unregister_tsx env tsx) = grp_refs tsx"
  by (simp_all add: mod_tsx_layer_unregister_tsx_def)

lemma tsx_resched_retransmission_frame [simp]:
  "tsx_state (tsx_resched_retransmission env tsx) = tsx_state tsx"
  "tsx_role (tsx_resched_retransmission env tsx) = tsx_role tsx"
  "method_id (tsx_resched_retransmission env tsx) = method_id tsx"
  "transport_flag (tsx_resched_retransmission env tsx) = transport_flag tsx"
  "pending_tx (tsx_resched_retransmission env tsx) = pending_tx tsx"
  "sends_out (tsx_resched_retransmission env tsx) = sends_out tsx"
  "terminating (tsx_resched_retransmission env tsx) = terminating tsx"
  "td_mod_data (tsx_resched_retransmission env tsx) = td_mod_data tsx"
  "registered (tsx_resched_retransmission env tsx) = registered tsx"
  "transport_err (tsx_resched_retransmission env tsx) = transport_err tsx"
  "last_tx (tsx_resched_retransmission env tsx) = last_tx tsx"
  "status_code (tsx_resched_retransmission env tsx) = status_code tsx"
  "tsx_transport (tsx_resched_retransmission env tsx) = tsx_transport tsx"
  "tsx_user (tsx_resched_retransmission env tsx) = tsx_user tsx"
  "is_reliable (tsx_resched_retransmission env tsx) = is_reliable tsx"
  "handle_200resp (tsx_resched_retransmission env tsx) = handle_200resp tsx"
  "retransmit_count (tsx_resched_retransmission env tsx) = retransmit_count tsx"
  by (simp_all add: tsx_resched_retransmission_def Let_def)

lemma start_retransmit_frame [simp]:
  "tsx_state (start_retransmit d tsx) = tsx_state tsx" "tsx_role (start_retransmit d tsx) = tsx_role tsx"
  "method_id (start_retransmit d tsx) = method_id tsx"
  "pending_tx (start_retransmit d tsx) = pending_tx tsx"
  "sends_out (start_retransmit d tsx) = sends_out tsx"
  "terminating (start_retransmit d tsx) = terminating tsx"
  "td_mod_data (start_retransmit d tsx) = td_mod_data tsx"
  "registered (start_retransmit d tsx) = registered tsx"
  "transport_err (start_retransmit d tsx) = transport_err tsx"
  "last_tx (start_retransmit d tsx) = last_tx tsx" "status_code (start_retransmit d tsx) = status_code tsx"
  "tsx_transport (start_retransmit d tsx) = tsx_transport tsx"
  "tsx_user (start_retransmit d tsx) = tsx_user tsx"
  "is_reliable (start_retransmit d tsx) = is_reliable tsx"
  "handle_200resp (start_retransmit d tsx) = handle_200resp tsx"
  by (simp_all add: start_retransmit_def Let_def)

lemma keep_ack_frame [simp]:
  "tsx_state (keep_ack env tsx) = tsx_state tsx" "tsx_role (keep_ack env tsx) = tsx_role tsx"
  "method_id (keep_ack env tsx) = method_id tsx" "transport_flag (keep_ack env tsx) = transport_flag tsx"
  "pending_tx (keep_ack env tsx) = pending_tx tsx" "sends_out (keep_ack env tsx) = sends_out tsx"
  "terminating (keep_ack env tsx) = terminating tsx" "td_mod_data (keep_ack env tsx) = td_mod_data tsx"
  "registered (keep_ack env tsx) = registered tsx" "transport_err (keep_ack env tsx) = transport_err tsx"
  "status_code (keep_ack env tsx) = status_code tsx" "tsx_transport (keep_ack env tsx) = tsx_transport tsx"
  "tsx_user (keep_ack env tsx) = tsx_user tsx" "is_reliable (keep_ack env tsx) = is_reliable tsx"
  "handle_200resp (keep_ack env tsx) = handle_200resp tsx"
  "retransmit_count (keep_ack env tsx) = retransmit_count tsx"
  "retransmit_timer (keep_ack env tsx) = retransmit_timer tsx"
  "timeout_timer (keep_ack env tsx) = timeout_timer tsx" "grp_refs (keep_ack env tsx) = grp_refs tsx"
  by (simp_all add: keep_ack_def Let_def split: option.split)

text \<open>A timer of the transaction runs.\<close>

definition runs :: "tsx_timer_name \<Rightarrow> pjsip_transaction \<Rightarrow> bool" where
  "runs e tsx \<longleftrightarrow> tm_running (get_timer e tsx) \<noteq> None"

lemma runs_schedule [simp]: "runs e (tsx_schedule_timer e' d i tsx) \<longleftrightarrow> e = e' \<or> runs e tsx"
  by (cases e; cases e') (auto simp: tsx_schedule_timer_def runs_def)

lemma runs_cancel [simp]: "runs e (tsx_cancel_timer e' tsx) \<longleftrightarrow> e \<noteq> e' \<and> runs e tsx"
  by (cases e; cases e') (auto simp: tsx_cancel_timer_def runs_def)

lemma runs_frame [simp]:
  "runs e (td_add_ref td tsx) = runs e tsx" "runs e (td_dec_ref td tsx) = runs e tsx"
  "runs e (tpselector_ref k sel tsx) = runs e tsx" "runs e (tsx_set_status_code c tsx) = runs e tsx"
  "runs e (notify_user p s fl tsx) = runs e tsx" "runs e (save_last_tx td tsx) = runs e tsx"
  "runs e (discard_last_tx td tsx) = runs e tsx" "runs e (keep_ack env tsx) = runs e tsx"
  "runs e (mod_tsx_layer_unregister_tsx env tsx) = runs e tsx"
  by (cases e; simp add: runs_def)+

lemma runs_fields [simp]:
  "runs e (tsx\<lparr>tsx_state := s\<rparr>) = runs e tsx"
  "runs e (tsx\<lparr>transport_flag := fl\<rparr>) = runs e tsx"
  "runs e (tsx\<lparr>transport_err := er\<rparr>) = runs e tsx"
  "runs e (tsx\<lparr>last_tx := l\<rparr>) = runs e tsx"
  "runs e (tsx\<lparr>tsx_transport := tp\<rparr>) = runs e tsx"
  "runs e (tsx\<lparr>tp_refs := r\<rparr>) = runs e tsx"
  "runs e (tsx\<lparr>addr_len := n\<rparr>) = runs e tsx"
  "runs e (tsx\<lparr>res_addr_len := n\<rparr>) = runs e tsx"
  "runs e (tsx\<lparr>res_addr_transport := tp\<rparr>) = runs e tsx"
  "runs e (tsx\<lparr>is_reliable := b\<rparr>) = runs e tsx"
  "runs e (tsx\<lparr>retransmit_count := n\<rparr>) = runs e tsx"
  "runs e (tsx\<lparr>tsx_user := u\<rparr>) = runs e tsx"
  "runs e (tsx\<lparr>tsx_log := ns\<rparr>) = runs e tsx" "runs e (tsx\<lparr>tsx_states := ss\<rparr>) = runs e tsx"
  "runs e (tsx\<lparr>handle_200resp := b\<rparr>) = runs e tsx"
  "runs e (tsx\<lparr>tp_sel := sel\<rparr>) = runs e tsx"
  "runs e (tsx\<lparr>td_mod_data := m\<rparr>) = runs e tsx"
  "runs e (tsx\<lparr>pending_tx := p\<rparr>) = runs e tsx"
  "runs e (tsx\<lparr>grp_refs := g\<rparr>) = runs e tsx"
  "runs e (tsx\<lparr>sends_out := n\<rparr>) = runs e tsx"
  "runs e (tsx\<lparr>terminating := b\<rparr>) = runs e tsx"
  by (cases e; simp add: runs_def)+

lemma runs_restart [simp]: "runs e (restart_timeout d tsx) \<longleftrightarrow> e = Timeout_Timer \<or> runs e tsx"
  by (auto simp: restart_timeout_def)

lemma runs_tp_state: "runs Timeout_Timer tsx \<Longrightarrow> runs Timeout_Timer (tsx_tp_state_callback st tsx)"
  by (simp add: tsx_tp_state_callback_def Let_def)

lemma runs_update_transport: "runs Timeout_Timer tsx \<Longrightarrow> runs Timeout_Timer (tsx_update_transport env tp tsx)"
  by (simp add: tsx_update_transport_def Let_def runs_tp_state split: option.split)

text \<open>The timeout timer runs as such, and not to report an error of the transport.\<close>

definition expiring :: "pjsip_transaction \<Rightarrow> bool" where
  "expiring tsx \<longleftrightarrow> runs Timeout_Timer tsx \<and> tm_id (timeout_timer tsx) = TIMEOUT_TIMER"

lemma expiring_runs: "expiring tsx \<Longrightarrow> runs Timeout_Timer tsx"
  by (simp add: expiring_def)

lemma expiring_timers [simp]:
  "expiring (tsx_schedule_timer Retransmit_Timer d i tsx) = expiring tsx"
  "expiring (tsx_cancel_timer Retransmit_Timer tsx) = expiring tsx"
  "expiring (restart_timeout d tsx)"
  "expiring (tsx_schedule_timer Timeout_Timer d TIMEOUT_TIMER (tsx_cancel_timer Timeout_Timer tsx))"
  by (auto simp: expiring_def restart_timeout_def tsx_schedule_timer_def tsx_cancel_timer_def runs_def)

lemma expiring_frame [simp]:
  "expiring (td_add_ref td tsx) = expiring tsx" "expiring (td_dec_ref td tsx) = expiring tsx"
  "expiring (tpselector_ref k sel tsx) = expiring tsx" "expiring (tsx_set_status_code c tsx) = expiring tsx"
  "expiring (notify_user p s fl tsx) = expiring tsx" "expiring (save_last_tx td tsx) = expiring tsx"
  "expiring (discard_last_tx td tsx) = expiring tsx" "expiring (keep_ack env tsx) = expiring tsx"
  "expiring (mod_tsx_layer_unregister_tsx env tsx) = expiring tsx"
  by (simp_all add: expiring_def)

lemma expiring_fields [simp]:
  "expiring (tsx\<lparr>tsx_state := s\<rparr>) = expiring tsx"
  "expiring (tsx\<lparr>transport_flag := fl\<rparr>) = expiring tsx"
  "expiring (tsx\<lparr>transport_err := er\<rparr>) = expiring tsx"
  "expiring (tsx\<lparr>last_tx := l\<rparr>) = expiring tsx"
  "expiring (tsx\<lparr>tsx_transport := tp\<rparr>) = expiring tsx"
  "expiring (tsx\<lparr>tp_refs := r\<rparr>) = expiring tsx"
  "expiring (tsx\<lparr>addr_len := n\<rparr>) = expiring tsx"
  "expiring (tsx\<lparr>res_addr_len := n\<rparr>) = expiring tsx"
  "expiring (tsx\<lparr>res_addr_transport := tp\<rparr>) = expiring tsx"
  "expiring (tsx\<lparr>is_reliable := b\<rparr>) = expiring tsx"
  "expiring (tsx\<lparr>retransmit_count := n\<rparr>) = expiring tsx"
  "expiring (tsx\<lparr>tsx_log := ns\<rparr>) = expiring tsx" "expiring (tsx\<lparr>tsx_states := ss\<rparr>) = expiring tsx"
  "expiring (tsx\<lparr>handle_200resp := b\<rparr>) = expiring tsx"
  "expiring (tsx\<lparr>tp_sel := sel\<rparr>) = expiring tsx"
  "expiring (tsx\<lparr>td_mod_data := m\<rparr>) = expiring tsx"
  "expiring (tsx\<lparr>pending_tx := p\<rparr>) = expiring tsx"
  "expiring (tsx\<lparr>grp_refs := g\<rparr>) = expiring tsx"
  "expiring (tsx\<lparr>sends_out := n\<rparr>) = expiring tsx"
  "expiring (tsx\<lparr>status_code := c\<rparr>) = expiring tsx"
  by (simp_all add: expiring_def runs_def)

lemma expiring_update_transport:
  "tsx_state tsx = PJSIP_TSX_STATE_TERMINATED \<Longrightarrow> expiring (tsx_update_transport env tp tsx) = expiring tsx"
  by (simp add: tsx_update_transport_def tsx_tp_state_callback_def Let_def tsx_state_order split: option.split)

section \<open>References\<close>

text \<open>
  The references to the group lock the transaction answers for: its own until it terminates, one for each timer that
  runs, one for each send that is to be reported. What else there is in the counter belongs to others.
\<close>

definition held_refs :: "pjsip_transaction \<Rightarrow> int" where
  "held_refs tsx = of_bool (\<not> terminating tsx) + of_bool (runs Retransmit_Timer tsx) + of_bool (runs Timeout_Timer tsx)
     + of_bool (pending_tx tsx \<noteq> None) + int (sends_out tsx)"

definition other_grp_refs :: "pjsip_transaction \<Rightarrow> int" where
  "other_grp_refs tsx = grp_refs tsx - held_refs tsx"

lemmas refs_defs = other_grp_refs_def held_refs_def

lemma other_schedule [simp]: "other_grp_refs (tsx_schedule_timer e d i tsx) = other_grp_refs tsx"
  by (cases e) (auto simp: refs_defs runs_def tsx_schedule_timer_def)

lemma other_cancel [simp]: "other_grp_refs (tsx_cancel_timer e tsx) = other_grp_refs tsx"
  by (cases e) (auto simp: refs_defs runs_def tsx_cancel_timer_def)

lemma other_frame [simp]:
  "other_grp_refs (td_add_ref td tsx) = other_grp_refs tsx" "other_grp_refs (td_dec_ref td tsx) = other_grp_refs tsx"
  "other_grp_refs (tpselector_ref k sel tsx) = other_grp_refs tsx" "other_grp_refs (tsx_set_status_code c tsx) = other_grp_refs tsx"
  "other_grp_refs (notify_user p s fl tsx) = other_grp_refs tsx" "other_grp_refs (save_last_tx td tsx) = other_grp_refs tsx"
  "other_grp_refs (discard_last_tx td tsx) = other_grp_refs tsx" "other_grp_refs (keep_ack env tsx) = other_grp_refs tsx"
  "other_grp_refs (mod_tsx_layer_unregister_tsx env tsx) = other_grp_refs tsx"
  by (simp_all add: refs_defs)

lemma other_fields [simp]:
  "other_grp_refs (tsx\<lparr>tsx_state := s\<rparr>) = other_grp_refs tsx" "other_grp_refs (tsx\<lparr>transport_flag := fl\<rparr>) = other_grp_refs tsx"
  "other_grp_refs (tsx\<lparr>transport_err := er\<rparr>) = other_grp_refs tsx" "other_grp_refs (tsx\<lparr>last_tx := l\<rparr>) = other_grp_refs tsx"
  "other_grp_refs (tsx\<lparr>tsx_transport := tp\<rparr>) = other_grp_refs tsx" "other_grp_refs (tsx\<lparr>tp_refs := r\<rparr>) = other_grp_refs tsx"
  "other_grp_refs (tsx\<lparr>addr_len := n\<rparr>) = other_grp_refs tsx" "other_grp_refs (tsx\<lparr>res_addr_len := n\<rparr>) = other_grp_refs tsx"
  "other_grp_refs (tsx\<lparr>res_addr_transport := tp\<rparr>) = other_grp_refs tsx" "other_grp_refs (tsx\<lparr>is_reliable := b\<rparr>) = other_grp_refs tsx"
  "other_grp_refs (tsx\<lparr>retransmit_count := n\<rparr>) = other_grp_refs tsx" "other_grp_refs (tsx\<lparr>tsx_user := u\<rparr>) = other_grp_refs tsx"
  "other_grp_refs (tsx\<lparr>tsx_log := ns\<rparr>) = other_grp_refs tsx" "other_grp_refs (tsx\<lparr>tp_sel := sel\<rparr>) = other_grp_refs tsx"
  "other_grp_refs (tsx\<lparr>td_mod_data := m\<rparr>) = other_grp_refs tsx" "other_grp_refs (tsx\<lparr>tsx_states := ss\<rparr>) = other_grp_refs tsx"
  "other_grp_refs (tsx\<lparr>handle_200resp := b\<rparr>) = other_grp_refs tsx"
  by (simp_all add: refs_defs)

lemma other_restart [simp]: "other_grp_refs (restart_timeout d tsx) = other_grp_refs tsx"
  by (simp add: restart_timeout_def)

lemma other_tp_state [simp]: "other_grp_refs (tsx_tp_state_callback st tsx) = other_grp_refs tsx"
  by (simp add: tsx_tp_state_callback_def Let_def)

lemma other_update_transport [simp]: "other_grp_refs (tsx_update_transport env tp tsx) = other_grp_refs tsx"
  by (simp add: tsx_update_transport_def Let_def split: option.split)

lemma other_resched [simp]: "other_grp_refs (tsx_resched_retransmission env tsx) = other_grp_refs tsx"
  by (simp add: tsx_resched_retransmission_def Let_def)

lemma other_start_retransmit [simp]: "other_grp_refs (start_retransmit d tsx) = other_grp_refs tsx"
  by (simp add: start_retransmit_def Let_def)

lemma other_shutdown [simp]: "other_grp_refs (tsx_shutdown env tsx) = other_grp_refs tsx"
proof -
  have "other_grp_refs (tsx\<lparr>terminating := True, grp_refs := grp_refs tsx - 1\<rparr>) = other_grp_refs tsx" if "\<not> terminating tsx" for tsx
    using that by (simp add: refs_defs)
  then show ?thesis by (simp add: tsx_shutdown_def Let_def split: option.split)
qed

lemma other_enter_terminated [simp]: "other_grp_refs (enter_terminated fl tsx) = other_grp_refs tsx"
proof -
  have "other_grp_refs (tsx\<lparr>td_mod_data := m, pending_tx := None, grp_refs := grp_refs tsx - 1\<rparr>) = other_grp_refs tsx"
    if "pending_tx tsx = Some td" for tsx td m
    using that by (simp add: refs_defs)
  then show ?thesis by (simp add: enter_terminated_def Let_def split: option.split)
qed

lemma other_set_state [simp]: "other_grp_refs (tsx_set_state env s src fl tsx) = other_grp_refs tsx"
  by (simp add: tsx_set_state_def Let_def)

section \<open>Pending sends\<close>

text \<open>
  The invariant of the bookkeeping. At most one send is on its way while the transaction lives, and the flag says so; a
  message that waits to be sent without one is the trace of a transport error. After the transaction terminated, a
  send on the old transport may still be reported.
\<close>

definition pend_core :: "pjsip_transaction \<Rightarrow> bool" where
  "pend_core tsx \<longleftrightarrow>
     (\<forall>td. td_mod_data tsx td \<longleftrightarrow> pending_tx tsx = Some td)
     \<and> (pending_tx tsx \<noteq> None \<longrightarrow> has_flag TSX_HAS_PENDING_TRANSPORT tsx \<and> sends_out tsx = 0)
     \<and> sends_out tsx \<le> 1
     \<and> (has_flag TSX_HAS_PENDING_DESTROY tsx \<longrightarrow> PJSIP_TSX_STATE_TERMINATED \<le> tsx_state tsx)
     \<and> (tsx_state tsx < PJSIP_TSX_STATE_TERMINATED \<and> \<not> has_flag TSX_HAS_PENDING_TRANSPORT tsx \<longrightarrow> sends_out tsx = 0)"

definition waits_after_error :: "pjsip_transaction \<Rightarrow> bool" where
  "waits_after_error tsx \<longleftrightarrow> (has_flag TSX_HAS_PENDING_SEND tsx \<longrightarrow> transport_err tsx \<noteq> PJ_SUCCESS)"

definition pend_inv :: "pjsip_transaction \<Rightarrow> bool" where
  "pend_inv tsx \<longleftrightarrow> pend_core tsx
     \<and> (tsx_state tsx < PJSIP_TSX_STATE_TERMINATED \<and> \<not> has_flag TSX_HAS_PENDING_TRANSPORT tsx \<longrightarrow> waits_after_error tsx)"

lemmas pend_defs = pend_inv_def pend_core_def waits_after_error_def

text \<open>
  \<open>evolves t t'\<close>: sending and its callbacks keep the references in balance, leave the state alone or terminate the
  transaction, and never stop its timeout timer for good.
\<close>

definition evolves :: "pjsip_transaction \<Rightarrow> pjsip_transaction \<Rightarrow> bool" where
  "evolves t t' \<longleftrightarrow>
     tsx_role t' = tsx_role t \<and> method_id t' = method_id t \<and> terminating t' = terminating t
     \<and> other_grp_refs t' = other_grp_refs t
     \<and> (tsx_state t' = tsx_state t \<and> (runs Timeout_Timer t \<longrightarrow> runs Timeout_Timer t')
          \<and> (tsx_state t = PJSIP_TSX_STATE_TERMINATED \<and> expiring t \<longrightarrow> expiring t')
          \<and> (tsx_state t < PJSIP_TSX_STATE_TERMINATED \<longrightarrow> status_code t' = status_code t)
        \<or> tsx_state t' = PJSIP_TSX_STATE_TERMINATED \<and> expiring t' \<and> tsx_state t \<le> PJSIP_TSX_STATE_TERMINATED)"

lemma evolves_refl [simp]: "evolves t t"
  by (simp add: evolves_def)

lemma evolves_same:
  assumes "evolves t t'"
  shows "tsx_role t' = tsx_role t" "method_id t' = method_id t" "terminating t' = terminating t"
    "other_grp_refs t' = other_grp_refs t"
  using assms by (simp_all add: evolves_def)

lemma evolves_trans [trans]: "evolves a b \<Longrightarrow> evolves b c \<Longrightarrow> evolves a c"
  unfolding evolves_def by (elim conjE disjE) (simp_all add: tsx_state_order expiring_runs)

definition env_ok :: "tsx_env \<Rightarrow> bool" where
  "env_ok env \<longleftrightarrow> env_layer_up env
     \<and> (\<forall>td. snd (env_endpt_send env td) \<notin> {PJ_SUCCESS, PJ_EPENDING} \<longrightarrow> fst (env_endpt_send env td) = [])"

lemma enter_terminated_frame [simp]:
  "tsx_state (enter_terminated fl t) = tsx_state t" "tsx_role (enter_terminated fl t) = tsx_role t"
  "method_id (enter_terminated fl t) = method_id t" "terminating (enter_terminated fl t) = terminating t"
  "transport_flag (enter_terminated fl t) = transport_flag t - {TSX_HAS_PENDING_TRANSPORT}"
  "sends_out (enter_terminated fl t) = sends_out t" "transport_err (enter_terminated fl t) = transport_err t"
  "registered (enter_terminated fl t) = registered t" "last_tx (enter_terminated fl t) = last_tx t"
  "status_code (enter_terminated fl t) = status_code t"
  by (auto simp: enter_terminated_def Let_def split: option.split)

lemma terminated_spec:
  fixes env src and fl :: "set_state_flag set"
  assumes "pend_inv t"
  defines "t' \<equiv> tsx_set_state env PJSIP_TSX_STATE_TERMINATED src fl t"
  shows "pend_inv t'" "tsx_state t' = PJSIP_TSX_STATE_TERMINATED" "tsx_role t' = tsx_role t" "method_id t' = method_id t"
    "terminating t' = terminating t" "NO_SCHEDULE_HANDLER \<notin> fl \<Longrightarrow> expiring t'"
    "has_flag f t' \<longleftrightarrow> has_flag f t \<and> f \<noteq> TSX_HAS_PENDING_TRANSPORT" "sends_out t' = sends_out t" "pending_tx t' = None"
proof -
  show "pend_inv t'" "tsx_state t' = PJSIP_TSX_STATE_TERMINATED" "tsx_role t' = tsx_role t" "method_id t' = method_id t"
    "terminating t' = terminating t" "NO_SCHEDULE_HANDLER \<notin> fl \<Longrightarrow> expiring t'" 
    "has_flag f t' \<longleftrightarrow> has_flag f t \<and> f \<noteq> TSX_HAS_PENDING_TRANSPORT" "sends_out t' = sends_out t" "pending_tx t' = None"
    using assms(1) by (auto simp: t'_def pend_defs tsx_set_state_def enter_terminated_def Let_def split: option.split)
qed

lemma terminated_evolves:
  assumes "pend_inv u" and "tsx_state t \<le> PJSIP_TSX_STATE_TERMINATED" and "tsx_role u = tsx_role t"
    "method_id u = method_id t" "terminating u = terminating t" "other_grp_refs u = other_grp_refs t"
  shows "evolves t (tsx_set_state env PJSIP_TSX_STATE_TERMINATED src {} u)"
  unfolding evolves_def
proof (intro conjI disjI2)
  show "other_grp_refs (tsx_set_state env PJSIP_TSX_STATE_TERMINATED src {} u) = other_grp_refs t" using assms(6) by simp
qed (use terminated_spec [OF assms(1), where env = env and src = src and fl = "{}"] assms(2-5) in simp_all)

lemma update_transport_evolves: "evolves t (tsx_update_transport env tp t)"
  by (auto simp: evolves_def runs_update_transport expiring_update_transport)

lemma update_transport_none_err [simp]: "transport_err (tsx_update_transport env None t) = transport_err t"
  by (simp add: tsx_update_transport_def Let_def split: option.split)

lemma update_transport_err: "transport_err t \<noteq> PJ_SUCCESS \<Longrightarrow> transport_err (tsx_update_transport env tp t) \<noteq> PJ_SUCCESS"
  by (simp add: tsx_update_transport_def tsx_tp_state_callback_def Let_def split: option.split)

lemma update_transport_pend: "pend_inv t \<Longrightarrow> pend_inv (tsx_update_transport env tp t)"
  using update_transport_err [of t env tp] by (auto simp: pend_defs)


definition sendable :: "pjsip_transaction \<Rightarrow> bool" where
  "sendable t \<longleftrightarrow> pend_inv t \<and> tsx_state t \<le> PJSIP_TSX_STATE_TERMINATED
     \<and> (\<not> has_flag TSX_HAS_PENDING_TRANSPORT t \<longrightarrow> sends_out t = 0 \<and> waits_after_error t)
     \<and> \<not> has_flag TSX_HAS_PENDING_DESTROY t"

text \<open>What a send guarantees: with success only if the state is as before, unless it was terminated already.\<close>

definition sent_ok :: "pjsip_transaction \<Rightarrow> pj_status \<times> pjsip_transaction \<Rightarrow> bool" where
  "sent_ok t r \<longleftrightarrow> evolves t (snd r) \<and> pend_inv (snd r) \<and> \<not> has_flag TSX_HAS_PENDING_DESTROY (snd r)
     \<and> (tsx_state t < PJSIP_TSX_STATE_TERMINATED \<and> fst r = PJ_SUCCESS \<longrightarrow> tsx_state (snd r) = tsx_state t)"

lemma send_on_transport_spec:
  assumes t: "sendable t" "\<not> has_flag TSX_HAS_PENDING_TRANSPORT t" and r: "send_on_transport env t td = (d, s, t')"
  shows "evolves t t'" "pend_inv t'" "tsx_state t' = tsx_state t" "\<not> has_flag TSX_HAS_PENDING_DESTROY t'"
    "d = None \<or> d = Some PJ_SUCCESS"
    "d = None \<Longrightarrow> transport_flag t' = transport_flag t \<and> sends_out t' = 0 \<and> transport_err t' = transport_err t"
proof -
  have p: "pend_inv t" "sends_out t = 0" "pending_tx t = None" "\<not> has_flag TSX_HAS_PENDING_DESTROY t"
    "tsx_state t \<le> PJSIP_TSX_STATE_TERMINATED"
    using t by (auto simp: sendable_def pend_defs)
  have u: "pend_inv (tsx_update_transport env None t)" "evolves t (tsx_update_transport env None t)"
    using p update_transport_pend update_transport_evolves by blast+
  have fin: "pend_inv (t\<lparr>addr_len := a, res_addr_transport := b, res_addr_len := c\<rparr>) = pend_inv t"
    "evolves t0 (t\<lparr>addr_len := a, res_addr_transport := b, res_addr_len := c\<rparr>) = evolves t0 t"
    "pend_inv (note_it n t) = pend_inv t" "evolves t0 (note_it n t) = evolves t0 t" for t t0 a b c n
    by (auto simp: pend_defs evolves_def)
  show "evolves t t'" "pend_inv t'" "tsx_state t' = tsx_state t" "\<not> has_flag TSX_HAS_PENDING_DESTROY t'"
    "d = None \<or> d = Some PJ_SUCCESS"
    "d = None \<Longrightarrow> transport_flag t' = transport_flag t \<and> sends_out t' = 0 \<and> transport_err t' = transport_err t"
    using r p t update_transport_pend [of "note_it (Sent_Transport (the (tsx_transport t)) td) t" env None]
      evolves_trans [OF _ update_transport_evolves, of t "note_it (Sent_Transport (the (tsx_transport t)) td) t" env None]
    by (auto simp: send_on_transport_def Let_def fin split: option.splits if_splits)
      (auto simp: pend_defs evolves_def refs_defs)
qed

lemma send_by_spec:
  assumes t: "sendable t"
    and stateless: "\<And>t'. sendable t' \<Longrightarrow> \<not> has_flag TSX_HAS_PENDING_TRANSPORT t' \<Longrightarrow>
      has_flag TSX_HAS_RESOLVED_SERVER t' \<longleftrightarrow> has_flag TSX_HAS_RESOLVED_SERVER t \<Longrightarrow>
      \<not> has_flag TSX_HAS_RESOLVED_SERVER t' \<Longrightarrow> tsx_state t' = tsx_state t \<Longrightarrow> sent_ok t' (send_stateless cb env t' td)"
  shows "sent_ok t (tsx_send_msg_by cb env t td)"
proof (cases "has_flag TSX_HAS_PENDING_TRANSPORT t \<or> env_td_pending env td")
  case True
  then show ?thesis using t
    by (auto simp: tsx_send_msg_by_def sent_ok_def sendable_def evolves_def) (auto simp: pend_defs)
next
  case False
  obtain d s t' where r: "send_on_transport env t td = (d, s, t')" by (metis prod_cases3)
  note p = send_on_transport_spec [OF t _ r]
  show ?thesis
  proof (cases d)
    case (Some st)
    then show ?thesis using p False r by (auto simp: tsx_send_msg_by_def sent_ok_def)
  next
    case None
    have sd: "sendable t'" "\<not> has_flag TSX_HAS_PENDING_TRANSPORT t'" "transport_flag t' = transport_flag t"
      using p None False t by (auto simp: sendable_def waits_after_error_def)
    show ?thesis
    proof (cases "has_flag TSX_HAS_RESOLVED_SERVER t'")
      case True
      let ?u = "tsx_set_status_code PJSIP_SC_TSX_TRANSPORT_ERROR t'"
      have st: "tsx_state t' \<le> PJSIP_TSX_STATE_TERMINATED" "pend_inv t'" using sd by (auto simp: sendable_def)
      then have u: "pend_inv ?u" by (auto simp: pend_defs)
      have "evolves t' (tsx_set_state env PJSIP_TSX_STATE_TERMINATED Src_Transport_Error {} ?u)"
        by (rule terminated_evolves [OF u st(1)]) simp_all
      then have "evolves t (tsx_set_state env PJSIP_TSX_STATE_TERMINATED Src_Transport_Error {} ?u)"
        using evolves_trans p(1) False t by blast
      then show ?thesis
        using None r False True sd(1) terminated_spec(1,7) [OF u, where env = env and src = Src_Transport_Error and fl = "{}"]
        by (auto simp: tsx_send_msg_by_def sent_ok_def sendable_def Let_def)
    next
      case nres: False
      have "sent_ok t' (send_stateless cb env t' td)" using stateless sd nres p(3) False by auto
      then show ?thesis using None r False nres p(1,3) evolves_trans [of t t']
        by (auto simp: tsx_send_msg_by_def sent_ok_def)
    qed
  qed
qed

lemma send_resolved_spec:
  assumes "sendable t" and "has_flag TSX_HAS_RESOLVED_SERVER t"
  shows "sent_ok t (send_resolved env t td)"
  unfolding send_resolved_def by (rule send_by_spec [OF assms(1)]) (use assms(2) in auto)


lemma transport_err_send_resolved:
  assumes "has_flag TSX_HAS_RESOLVED_SERVER t"
  shows "transport_err (snd (send_resolved env t td)) = transport_err t"
proof -
  have "transport_err (tsx_set_state env PJSIP_TSX_STATE_TERMINATED src fl u) = transport_err u" for src fl u
    by (simp add: tsx_set_state_def Let_def)
  then show ?thesis using assms
    by (auto simp: send_resolved_def tsx_send_msg_by_def send_on_transport_def Let_def split: option.splits prod.splits)
qed

lemma pend_inv_fields [simp]:
  "pend_inv (t\<lparr>retransmit_count := n\<rparr>) = pend_inv t" "pend_inv (t\<lparr>last_tx := l\<rparr>) = pend_inv t"
  "pend_inv (t\<lparr>addr_len := n\<rparr>) = pend_inv t" "pend_inv (t\<lparr>is_reliable := b\<rparr>) = pend_inv t"
  by (auto simp: pend_defs)

lemma send_pending_spec:
  assumes core: "pend_core t" and st: "tsx_state t \<le> PJSIP_TSX_STATE_TERMINATED" "\<not> has_flag TSX_HAS_PENDING_TRANSPORT t"
      "sends_out t = 0" "\<not> has_flag TSX_HAS_PENDING_DESTROY t"
    and send: "\<And>t' td. sendable t' \<Longrightarrow> transport_flag t' = transport_flag t - {TSX_HAS_PENDING_SEND} \<Longrightarrow> sent_ok t' (send env t' td)"
  shows "evolves t (send_pending env send t)" "pend_inv (send_pending env send t)"
    "\<not> has_flag TSX_HAS_PENDING_DESTROY (send_pending env send t)"
proof -
  define u where "u = (if has_flag TSX_HAS_PENDING_SEND t then
                   (let tsx = clear_flag TSX_HAS_PENDING_SEND t
                    in case last_tx tsx of None \<Rightarrow> tsx | Some td \<Rightarrow> snd (send env tsx td))
                 else t)"
  have c: "sendable (clear_flag TSX_HAS_PENDING_SEND t)" "evolves t (clear_flag TSX_HAS_PENDING_SEND t)"
    using core st by (auto simp: sendable_def evolves_def pend_defs)
  have u: "evolves t u \<and> pend_inv u \<and> \<not> has_flag TSX_HAS_PENDING_DESTROY u"
  proof (cases "has_flag TSX_HAS_PENDING_SEND t")
    case True
    show ?thesis
    proof (cases "last_tx t")
      case None
      then show ?thesis using True c st by (simp add: u_def sendable_def)
    next
      case (Some td)
      have "sent_ok (clear_flag TSX_HAS_PENDING_SEND t) (send env (clear_flag TSX_HAS_PENDING_SEND t) td)"
        by (rule send [OF c(1)]) simp
      then show ?thesis using True Some evolves_trans [OF c(2)] by (simp add: u_def sent_ok_def)
    qed
  next
    case False
    then show ?thesis using core st by (simp add: u_def pend_defs)
  qed
  have r: "send_pending env send t =
      (if has_flag TSX_HAS_PENDING_RESCHED u \<and> \<not> has_flag TSX_HAS_PENDING_TRANSPORT u then
           (let tsx = clear_flag TSX_HAS_PENDING_RESCHED u
            in if \<not> is_reliable tsx then tsx_resched_retransmission env tsx else tsx)
         else u)"
    by (simp only: send_pending_def u_def Let_def)
  define v where "v = clear_flag TSX_HAS_PENDING_RESCHED u"
  have "evolves u (tsx_resched_retransmission env v)" "evolves u v"
    by (auto simp: evolves_def v_def tsx_resched_retransmission_def Let_def)
  moreover have "pend_inv v" "pend_inv (tsx_resched_retransmission env v)" "\<not> has_flag TSX_HAS_PENDING_DESTROY v"
    using u by (auto simp: pend_defs v_def)
  ultimately show "evolves t (send_pending env send t)" "pend_inv (send_pending env send t)"
    "\<not> has_flag TSX_HAS_PENDING_DESTROY (send_pending env send t)"
    using u evolves_trans [of t u] unfolding r v_def by (auto simp: Let_def)
qed


lemma transport_err_set_state_terminated [simp]:
  "transport_err (tsx_set_state env PJSIP_TSX_STATE_TERMINATED src fl t) = transport_err t"
  by (simp add: tsx_set_state_def Let_def)

lemma transport_err_send_pending:
  assumes "has_flag TSX_HAS_RESOLVED_SERVER t"
  shows "transport_err (send_pending env send_resolved t) = transport_err t"
  using assms transport_err_send_resolved [of "clear_flag TSX_HAS_PENDING_SEND t" env]
  by (auto simp: send_pending_def Let_def split: option.split)

lemma send_flag_send_resolved:
  assumes "has_flag TSX_HAS_RESOLVED_SERVER t" "\<not> has_flag TSX_HAS_PENDING_TRANSPORT t" "\<not> has_flag TSX_HAS_PENDING_SEND t"
  shows "\<not> has_flag TSX_HAS_PENDING_SEND (snd (send_resolved env t td))"
proof -
  have "transport_flag (tsx_set_state env PJSIP_TSX_STATE_TERMINATED src fl u) = transport_flag u - {TSX_HAS_PENDING_TRANSPORT}" for src fl u
    by (auto simp: tsx_set_state_def Let_def)
  then show ?thesis using assms
    by (auto simp: send_resolved_def tsx_send_msg_by_def send_on_transport_def Let_def split: option.splits prod.splits)
qed

lemma send_flag_send_pending:
  assumes "has_flag TSX_HAS_RESOLVED_SERVER t" "\<not> has_flag TSX_HAS_PENDING_TRANSPORT t"
  shows "\<not> has_flag TSX_HAS_PENDING_SEND (send_pending env send_resolved t)"
  using assms send_flag_send_resolved [of "clear_flag TSX_HAS_PENDING_SEND t" env]
  by (auto simp: send_pending_def Let_def split: option.split)

text \<open>One call of the callback of the stateless sender.\<close>

definition called_ok :: "pjsip_transaction \<Rightarrow> pjsip_transaction \<Rightarrow> bool" where
  "called_ok t r \<longleftrightarrow> evolves t r \<and> pend_inv r \<and> \<not> has_flag TSX_HAS_PENDING_DESTROY r
     \<and> (waits_after_error t \<longrightarrow> waits_after_error r
          \<and> (tsx_state t < PJSIP_TSX_STATE_TERMINATED \<and> tsx_state r = PJSIP_TSX_STATE_TERMINATED \<longrightarrow> transport_err r \<noteq> PJ_SUCCESS))"

lemma send_pending_state:
  "\<not> has_flag TSX_HAS_PENDING_SEND t \<Longrightarrow> tsx_state (send_pending env send t) = tsx_state t"
  by (simp add: send_pending_def Let_def)

lemma sent_to_server_spec:
  assumes u: "pend_inv u" "tsx_state u \<le> PJSIP_TSX_STATE_TERMINATED" "sends_out u = 0" "pending_tx u = None"
    "\<not> has_flag TSX_HAS_PENDING_DESTROY u"
  shows "called_ok u (sent_to_server env st u)"
proof -
  define v where "v = (if tsx_transport u \<noteq> cur_transport st then
                   (let tsx = tsx_update_transport env (cur_transport st) u;
                        tsx = tsx\<lparr>addr_len := send_addr_len st\<rparr>
                    in tsx\<lparr>is_reliable := (case tsx_transport tsx of None \<Rightarrow> False | Some tp \<Rightarrow> env_tp_reliable env tp)\<rparr>)
                 else u)"
  define w where "w = set_flag TSX_HAS_RESOLVED_SERVER (clear_flag TSX_HAS_PENDING_TRANSPORT v)"
  have fin: "evolves t0 (t\<lparr>addr_len := a, is_reliable := b\<rparr>) = evolves t0 t" for t0 t a b
    by (simp add: evolves_def)
  have v: "evolves u v" "pend_inv v" "transport_flag v = transport_flag u" "sends_out v = 0" "pending_tx v = None"
    "tsx_state v = tsx_state u" "waits_after_error u \<Longrightarrow> waits_after_error v"
    using u update_transport_evolves update_transport_pend update_transport_err [of u env "cur_transport st"]
    by (auto simp: v_def fin Let_def waits_after_error_def)
  have w: "evolves u w" "pend_core w" "tsx_state w = tsx_state u" "\<not> has_flag TSX_HAS_PENDING_TRANSPORT w" "sends_out w = 0"
    "\<not> has_flag TSX_HAS_PENDING_DESTROY w" "has_flag TSX_HAS_RESOLVED_SERVER w" "waits_after_error u \<Longrightarrow> waits_after_error w"
    using v u by (auto simp: w_def evolves_def pend_defs)
  have r: "sent_to_server env st u = send_pending env send_resolved w"
    using w(6) by (simp add: sent_to_server_def w_def v_def Let_def)
  have s: "evolves w (send_pending env send_resolved w)" "pend_inv (send_pending env send_resolved w)"
    "\<not> has_flag TSX_HAS_PENDING_DESTROY (send_pending env send_resolved w)"
    using send_pending_spec [OF w(2) _ w(4,5,6), where env = env and send = send_resolved] send_resolved_spec w(3,7) u(2) by auto
  show ?thesis
    unfolding called_ok_def r
  proof (intro conjI impI)
    show "evolves u (send_pending env send_resolved w)" by (rule evolves_trans [OF w(1) s(1)])
    show "waits_after_error (send_pending env send_resolved w)"
      using send_flag_send_pending [OF w(7,4)] by (simp add: waits_after_error_def)
    assume "waits_after_error u"
      and "tsx_state u < PJSIP_TSX_STATE_TERMINATED \<and> tsx_state (send_pending env send_resolved w) = PJSIP_TSX_STATE_TERMINATED"
    then have "waits_after_error w" "has_flag TSX_HAS_PENDING_SEND w" using send_pending_state [of w] w(3,8) by fastforce+
    then show "transport_err (send_pending env send_resolved w) \<noteq> PJ_SUCCESS"
      using transport_err_send_pending [OF w(7)] by (simp add: waits_after_error_def)
  qed (use s in simp_all)
qed

lemma server_failed_spec:
  assumes u: "pend_inv u" "tsx_state u \<le> PJSIP_TSX_STATE_TERMINATED" "sends_out u = 0" "pending_tx u = None"
    "\<not> has_flag TSX_HAS_PENDING_DESTROY u" "has_flag TSX_HAS_PENDING_TRANSPORT u"
    and st: "send_result st \<noteq> PJ_SUCCESS"
  shows "called_ok u (server_failed env st td u)"
proof -
  define v where "v = (if cur_transport st = tsx_transport u then tsx_update_transport env None u else u)"
  have v: "evolves u v" "pend_inv v" "transport_flag v = transport_flag u" "sends_out v = 0" "pending_tx v = None"
    "tsx_state v = tsx_state u" "waits_after_error u \<Longrightarrow> waits_after_error v"
    using u update_transport_evolves update_transport_pend by (auto simp: v_def waits_after_error_def)
  show ?thesis
  proof (cases "send_cont st")
    case False
    define sc where "sc = (if send_result st \<in> {PJ_ERESOLVE, PJLIB_UTIL_EDNS_NXDOMAIN} then PJSIP_SC_BAD_GATEWAY
                      else PJSIP_SC_TSX_TRANSPORT_ERROR)"
    define w where "w = tsx_set_status_code sc
        (set_flag TSX_HAS_RESOLVED_SERVER (clear_flag TSX_HAS_PENDING_TRANSPORT (v\<lparr>transport_err := send_result st\<rparr>)))"
    have w: "pend_inv w" "tsx_role w = tsx_role u" "method_id w = method_id u" "terminating w = terminating u"
      "other_grp_refs w = other_grp_refs u" "tsx_state w = tsx_state u" "transport_err w = send_result st"
      "\<not> has_flag TSX_HAS_PENDING_DESTROY w" "runs Timeout_Timer w = runs Timeout_Timer v"
      using v u(5) st by (simp_all add: w_def evolves_same pend_defs)
    have r: "server_failed env st td u =
        (if tsx_state u \<noteq> PJSIP_TSX_STATE_TERMINATED \<and> tsx_state u \<noteq> PJSIP_TSX_STATE_DESTROYED
         then tsx_set_state env PJSIP_TSX_STATE_TERMINATED Src_Transport_Error {} w else w)"
      using False w(6,8) by (simp add: server_failed_def w_def v_def sc_def Let_def)
    show ?thesis
    proof (cases "tsx_state u = PJSIP_TSX_STATE_TERMINATED")
      case True
      then have "evolves v w" using v(6) by (simp add: evolves_def w_def)
      then have "evolves u w" by (rule evolves_trans [OF v(1)])
      then show ?thesis using r True w st by (auto simp: called_ok_def waits_after_error_def)
    next
      case False
      moreover from this have "tsx_state u \<noteq> PJSIP_TSX_STATE_DESTROYED" using u(2) by (auto simp: tsx_state_order)
      ultimately have r': "server_failed env st td u = tsx_set_state env PJSIP_TSX_STATE_TERMINATED Src_Transport_Error {} w"
        using r by simp
      show ?thesis
        unfolding called_ok_def r'
      proof (intro conjI impI)
        note t = terminated_spec(1,7) [OF w(1), where env = env and src = Src_Transport_Error and fl = "{}"]
        show "evolves u (tsx_set_state env PJSIP_TSX_STATE_TERMINATED Src_Transport_Error {} w)"
          by (rule terminated_evolves [OF w(1) u(2) w(2-5)])
        show "pend_inv (tsx_set_state env PJSIP_TSX_STATE_TERMINATED Src_Transport_Error {} w)" by (rule t(1))
        show "\<not> has_flag TSX_HAS_PENDING_DESTROY (tsx_set_state env PJSIP_TSX_STATE_TERMINATED Src_Transport_Error {} w)"
          using t(2) w(8) by simp
      qed (use w(7) st in \<open>simp_all add: waits_after_error_def\<close>)
    qed
  next
    case True
    define w where "w = (if tm_id (timeout_timer v) \<noteq> TIMER_INACTIVE
                       then tsx_schedule_timer Timeout_Timer (timeout_timer_val (env_timers env)) TIMEOUT_TIMER
                              (tsx_cancel_timer Timeout_Timer (v\<lparr>retransmit_count := 0\<rparr>))
                       else v\<lparr>retransmit_count := 0\<rparr>)"
    have w: "evolves v w" "pending_tx w = None" "transport_flag w = transport_flag u" "sends_out w = 0" "tsx_state w = tsx_state u"
       "waits_after_error u \<Longrightarrow> waits_after_error w" "td_mod_data w = td_mod_data v"
      using v(3-7) by (auto simp: w_def evolves_def waits_after_error_def)
    have r: "server_failed env st td u = w\<lparr>td_mod_data := (td_mod_data w)(td := True), pending_tx := Some td, grp_refs := grp_refs w + 1\<rparr>"
      using True v u by (simp add: server_failed_def w_def v_def Let_def)
    have "evolves w (server_failed env st td u)" using w(2) unfolding r by (simp add: evolves_def refs_defs)
    then have "evolves u (server_failed env st td u)" using v(1) w(1) evolves_trans by blast
    moreover have "pend_inv (server_failed env st td u)"
      using w(2-5,7) v(2,5) u(5,6) unfolding r by (auto simp: pend_defs)
    moreover have "tsx_state (server_failed env st td u) = tsx_state u"
      "transport_flag (server_failed env st td u) = transport_flag u"
      "waits_after_error u \<Longrightarrow> waits_after_error (server_failed env st td u)"
      using w(3,5,6) unfolding r waits_after_error_def by simp_all
    ultimately show ?thesis
      using u(5) unfolding called_ok_def by force
  qed
qed


lemma send_msg_callback_spec:
  assumes t: "pend_inv t" "tsx_state t \<le> PJSIP_TSX_STATE_TERMINATED" "\<not> has_flag TSX_HAS_PENDING_DESTROY t"
    and env: "env_layer_up env"
  shows "called_ok t (fst (send_msg_callback env st td t)) \<or> fst (send_msg_callback env st td t) = t"
proof (cases "td_mod_data t td")
  case False
  then show ?thesis by (simp add: send_msg_callback_def)
next
  case True
  define u where "u = t\<lparr>grp_refs := grp_refs t - 1, td_mod_data := (td_mod_data t)(td := False), pending_tx := None\<rparr>"
  have p: "pending_tx t = Some td" "has_flag TSX_HAS_PENDING_TRANSPORT t" "sends_out t = 0"
    using t(1) True by (auto simp: pend_defs)
  have u: "evolves t u" "pend_inv u" "tsx_state u = tsx_state t" "transport_flag u = transport_flag t" "sends_out u = 0"
    "pending_tx u = None" "waits_after_error u = waits_after_error t"
    using t p by (auto simp: u_def evolves_def refs_defs pend_defs)
  have "called_ok u (if send_result st = PJ_SUCCESS then sent_to_server env st u else server_failed env st td u)"
    using sent_to_server_spec [of u env st] server_failed_spec [of u st env td] u t p by auto
  then have "called_ok t (if send_result st = PJ_SUCCESS then sent_to_server env st u else server_failed env st td u)"
    using evolves_trans [OF u(1)] u(3,7) unfolding called_ok_def by (elim conjE) (intro conjI; simp)
  moreover have "fst (send_msg_callback env st td t)
      = (if send_result st = PJ_SUCCESS then sent_to_server env st u else server_failed env st td u)"
    using True env by (simp add: send_msg_callback_def u_def Let_def)
  ultimately show ?thesis by simp
qed

text \<open>The sender goes on to another server only when the callback has not changed the state.\<close>

lemma send_msg_callback_cont:
  assumes "send_msg_callback env st td t = (t', True)" and "send_result st \<noteq> PJ_SUCCESS" and "\<not> has_flag TSX_HAS_PENDING_DESTROY t"
  shows "tsx_state t' = tsx_state t"
  using assms by (auto simp: send_msg_callback_def server_failed_def Let_def split: if_splits)

lemma run_send_callbacks_spec:
  assumes "pend_inv t" "tsx_state t \<le> PJSIP_TSX_STATE_TERMINATED" "\<not> has_flag TSX_HAS_PENDING_DESTROY t"
    "env_layer_up env"
  shows "called_ok t (run_send_callbacks (\<lambda>st. send_msg_callback env st td) sts t)
    \<or> run_send_callbacks (\<lambda>st. send_msg_callback env st td) sts t = t"
  using assms
proof (induction sts arbitrary: t)
  case (Cons st sts)
  obtain t' c where r: "send_msg_callback env st td t = (t', c)" by fastforce
  have one: "called_ok t t' \<or> t' = t" using send_msg_callback_spec [OF Cons.prems, of st td] r by simp
  show ?case
  proof (cases "send_result st = PJ_SUCCESS \<or> \<not> c")
    case True
    then show ?thesis using r one by auto
  next
    case False
    have le: "tsx_state t' \<le> PJSIP_TSX_STATE_TERMINATED" using one Cons.prems(2) by (auto simp: called_ok_def evolves_def)
    then have rest: "called_ok t' (run_send_callbacks (\<lambda>st. send_msg_callback env st td) sts t')
        \<or> run_send_callbacks (\<lambda>st. send_msg_callback env st td) sts t' = t'"
      using Cons.IH [of t'] Cons.prems one by (auto simp: called_ok_def)
    have same: "tsx_state t' = tsx_state t"
      using send_msg_callback_cont [of env st td t t'] r False Cons.prems(3) by simp
    have "called_ok t r" if "called_ok t t'" "called_ok t' r" for r
      using that same evolves_trans [of t t' r] by (simp add: called_ok_def)
    then show ?thesis using False r one rest by auto
  qed
qed simp


lemma send_stateless_spec:
  assumes env: "env_ok env" and t: "sendable t" "\<not> has_flag TSX_HAS_PENDING_TRANSPORT t"
  shows "sent_ok t (send_stateless send_msg_callback env t td)"
proof -
  define u where "u = note_it (Sent_Endpoint td) (set_flag TSX_HAS_PENDING_TRANSPORT
    ((td_add_ref td t)\<lparr>td_mod_data := (td_mod_data t)(td := True), pending_tx := Some td, grp_refs := grp_refs t + 1\<rparr>))"
  have p: "sends_out t = 0" "pending_tx t = None" "waits_after_error t" "\<not> has_flag TSX_HAS_PENDING_DESTROY t" "pend_inv t"
    "tsx_state t \<le> PJSIP_TSX_STATE_TERMINATED"
    using t by (auto simp: sendable_def pend_defs)
  have u: "evolves t u" "pend_inv u" "tsx_state u = tsx_state t" "waits_after_error u" "\<not> has_flag TSX_HAS_PENDING_DESTROY u"
    using p by (auto simp: u_def evolves_def refs_defs pend_defs)
  obtain called status where e: "env_endpt_send env td = (called, status)" by fastforce
  define v where "v = run_send_callbacks (\<lambda>st. send_msg_callback env st td) called u"
  have v: "called_ok u v \<or> v = u"
    unfolding v_def by (rule run_send_callbacks_spec) (use u p env in \<open>simp_all add: env_ok_def\<close>)
  show ?thesis
  proof (cases "status = PJ_SUCCESS \<or> status = PJ_EPENDING")
    case True
    then have r: "send_stateless send_msg_callback env t td
        = (if tsx_state v = PJSIP_TSX_STATE_TERMINATED then transport_err v else PJ_SUCCESS, v)"
      by (auto simp: send_stateless_def e v_def u_def Let_def)
    have "evolves t v" "pend_inv v" "\<not> has_flag TSX_HAS_PENDING_DESTROY v"
      using v u evolves_trans [OF u(1)] by (auto simp: called_ok_def)
    moreover have "tsx_state v = tsx_state t" if "tsx_state t < PJSIP_TSX_STATE_TERMINATED" "fst (send_stateless send_msg_callback env t td) = PJ_SUCCESS"
    proof (cases "tsx_state v = PJSIP_TSX_STATE_TERMINATED")
      case True
      then show ?thesis using that r v u(3,4) by (auto simp: called_ok_def)
    next
      case False
      then show ?thesis using v u(3) by (auto simp: called_ok_def evolves_def)
    qed
    ultimately show ?thesis unfolding sent_ok_def by (simp add: r)
  next
    case False
    then have c: "called = []" using env e by (auto simp: env_ok_def dest: spec [of _ td])
    define w where "w = (td_dec_ref td (clear_flag TSX_HAS_PENDING_TRANSPORT u))
      \<lparr>grp_refs := grp_refs u - 1, td_mod_data := (td_mod_data u)(td := False), pending_tx := None\<rparr>"
    have r: "send_stateless send_msg_callback env t td = (status, w)"
      using False by (simp add: send_stateless_def e c u_def w_def td_dec_ref_def Let_def)
    have "transport_flag w = transport_flag t" "tsx_state w = tsx_state t" "sends_out w = 0" "pending_tx w = None"
      "transport_err w = transport_err t" "td_mod_data w = (td_mod_data t)(td := False)"
      using t(2) p by (auto simp: w_def u_def)
    moreover have "evolves t w"
      using p by (auto simp: w_def u_def evolves_def refs_defs)
    ultimately show ?thesis unfolding sent_ok_def r using p False by (auto simp: pend_defs)
  qed
qed

lemma tsx_send_msg_spec:
  assumes "env_ok env" and "sendable t"
  shows "sent_ok t (tsx_send_msg env t td)"
  unfolding tsx_send_msg_def
  by (rule send_by_spec [OF assms(2)]) (rule send_stateless_spec [OF assms(1)])

end
