(* ===== verification/Sip_Tsx_Handlers.thy ===== *)
theory Sip_Tsx_Handlers
  imports Sip_Tsx_Inv
begin

text \<open>
  The state handlers of the SIP transaction: from any live transaction and any event, a handler exists and leaves one in which
  the bookkeeping of sends is in order, the references to the group lock are as before, the state has not gone down, and
  the timeout timer runs where the transaction relies on it.
\<close>

section \<open>Handlers\<close>

lemma pend_inv_frame [simp]:
  "pend_inv (tsx_schedule_timer e d i t) = pend_inv t" "pend_inv (tsx_cancel_timer e t) = pend_inv t"
  "pend_inv (restart_timeout d t) = pend_inv t" "pend_inv (td_add_ref td t) = pend_inv t" "pend_inv (td_dec_ref td t) = pend_inv t"
  "pend_inv (tpselector_ref k sel t) = pend_inv t" "pend_inv (tsx_set_status_code c t) = pend_inv t"
  "pend_inv (notify_user p s fl t) = pend_inv t" "pend_inv (save_last_tx td t) = pend_inv t"
  "pend_inv (discard_last_tx td t) = pend_inv t" "pend_inv (keep_ack env t) = pend_inv t"
  "pend_inv (tsx_resched_retransmission env t) = pend_inv t" "pend_inv (clear_flag TSX_HAS_PENDING_RESCHED t) = pend_inv t"
  "pend_inv (set_flag TSX_HAS_PENDING_RESCHED t) = pend_inv t" "pend_inv (start_retransmit d t) = pend_inv t"
  "pend_inv (note_it n t) = pend_inv t" "pend_inv (t\<lparr>tp_sel := sel\<rparr>) = pend_inv t"
  by (auto simp: pend_defs start_retransmit_def Let_def)

lemma pend_inv_count_flag [simp]: "pend_inv (u\<lparr>retransmit_count := n, transport_flag := f\<rparr>) = pend_inv (u\<lparr>transport_flag := f\<rparr>)"
  by (simp add: pend_defs)

lemma pend_inv_resched [simp]:
  assumes "fl - {TSX_HAS_PENDING_RESCHED} = transport_flag u - {TSX_HAS_PENDING_RESCHED}"
  shows "pend_inv (u\<lparr>transport_flag := fl\<rparr>) = pend_inv u"
proof -
  have "f \<in> fl \<longleftrightarrow> has_flag f u" if "f \<noteq> TSX_HAS_PENDING_RESCHED" for f using assms that by blast
  then show ?thesis by (simp add: pend_defs)
qed

lemma runs_start_retransmit [simp]: "runs Timeout_Timer (start_retransmit d t) = runs Timeout_Timer t"
  by (simp add: start_retransmit_def Let_def)

lemma runs_resched [simp]: "runs Timeout_Timer (tsx_resched_retransmission env t) = runs Timeout_Timer t"
  by (simp add: tsx_resched_retransmission_def Let_def)

lemma destroy_start_retransmit [simp]:
  "has_flag TSX_HAS_PENDING_DESTROY (start_retransmit d t) = has_flag TSX_HAS_PENDING_DESTROY t"
  by (simp add: start_retransmit_def Let_def)

text \<open>A change of state below the last two only sets the state and tells the user.\<close>

lemma set_state_low:
  assumes "s < PJSIP_TSX_STATE_TERMINATED"
  shows "tsx_set_state env s src fl t = notify_user (tsx_state t) src fl (t\<lparr>tsx_state := s, tsx_states := tsx_states t @ [s]\<rparr>)"
  using assms by (auto simp: tsx_set_state_def Let_def tsx_state_order)

lemma pend_inv_low:
  "s < PJSIP_TSX_STATE_TERMINATED \<Longrightarrow> tsx_state t < PJSIP_TSX_STATE_TERMINATED \<Longrightarrow>
    pend_inv (t\<lparr>tsx_state := s, tsx_states := ss\<rparr>) = pend_inv t"
  by (auto simp: pend_defs)

text \<open>
  Where the transaction relies on its timeout timer: waiting for the first response, after a final one, and to go away
  once it has terminated.
\<close>

definition needs_timeout :: "pjsip_transaction \<Rightarrow> bool" where
  "needs_timeout t \<longleftrightarrow> tsx_state t = PJSIP_TSX_STATE_CALLING \<and> status_code t = 0
     \<or> tsx_state t \<in> {PJSIP_TSX_STATE_COMPLETED, PJSIP_TSX_STATE_CONFIRMED} \<and> 200 \<le> status_code t"

definition armed :: "pjsip_transaction \<Rightarrow> bool" where
  "armed t \<longleftrightarrow> (needs_timeout t \<longrightarrow> runs Timeout_Timer t) \<and> (tsx_state t = PJSIP_TSX_STATE_TERMINATED \<longrightarrow> expiring t)"

definition role_ok :: "pjsip_role \<Rightarrow> pjsip_tsx_state_e \<Rightarrow> bool" where
  "role_ok r s \<longleftrightarrow> \<not> (r = PJSIP_ROLE_UAC \<and> s = PJSIP_TSX_STATE_TRYING) \<and> \<not> (r = PJSIP_ROLE_UAS \<and> s = PJSIP_TSX_STATE_CALLING)"

definition stays :: "pjsip_transaction \<Rightarrow> pjsip_transaction \<Rightarrow> bool" where
  "stays t u \<longleftrightarrow> tsx_role u = tsx_role t \<and> method_id u = method_id t \<and> terminating u = terminating t
     \<and> other_grp_refs u = other_grp_refs t \<and> tsx_state u = tsx_state t \<and> pend_inv u"

definition handled :: "pjsip_transaction \<Rightarrow> pjsip_transaction \<Rightarrow> bool" where
  "handled t u \<longleftrightarrow> tsx_role u = tsx_role t \<and> method_id u = method_id t \<and> terminating u = terminating t
     \<and> other_grp_refs u = other_grp_refs t \<and> tsx_state t \<le> tsx_state u \<and> tsx_state u \<le> PJSIP_TSX_STATE_TERMINATED
     \<and> pend_inv u \<and> \<not> has_flag TSX_HAS_PENDING_DESTROY u \<and> armed u \<and> role_ok (tsx_role u) (tsx_state u)"

definition live_tsx :: "pjsip_transaction \<Rightarrow> bool" where
  "live_tsx t \<longleftrightarrow> pend_inv t \<and> tsx_state t < PJSIP_TSX_STATE_TERMINATED \<and> role_ok (tsx_role t) (tsx_state t)"

lemma no_destroy: "pend_inv u \<Longrightarrow> tsx_state u < PJSIP_TSX_STATE_TERMINATED \<Longrightarrow> \<not> has_flag TSX_HAS_PENDING_DESTROY u"
  by (meson pend_inv_def pend_core_def leD)

lemma stays_no_destroy: "live_tsx t \<Longrightarrow> stays t u \<Longrightarrow> \<not> has_flag TSX_HAS_PENDING_DESTROY u"
  by (rule no_destroy) (simp_all add: stays_def live_tsx_def)

lemma stays_refl: "live_tsx t \<Longrightarrow> stays t t"
  by (simp add: stays_def live_tsx_def)

lemma handled_stays: "live_tsx t \<Longrightarrow> stays t u \<Longrightarrow> armed u \<Longrightarrow> handled t u"
  using stays_no_destroy [of t u] by (simp add: handled_def stays_def live_tsx_def less_imp_le)

lemma handled_terminated:
  assumes "live_tsx t" and "stays t u"
  shows "handled t (tsx_set_state env PJSIP_TSX_STATE_TERMINATED src {} u)"
  using assms stays_no_destroy [OF assms] terminated_spec [of u, where env = env and src = src and fl = "{}"]
  by (simp add: handled_def stays_def live_tsx_def armed_def needs_timeout_def role_ok_def less_imp_le)

lemma handled_low:
  assumes "live_tsx t" and "stays t u" and "s < PJSIP_TSX_STATE_TERMINATED" and "tsx_state t \<le> s" and "role_ok (tsx_role t) s"
    and "s \<in> {PJSIP_TSX_STATE_CALLING, PJSIP_TSX_STATE_COMPLETED, PJSIP_TSX_STATE_CONFIRMED} \<Longrightarrow> runs Timeout_Timer u"
  shows "handled t (tsx_set_state env s src {} u)"
  using assms stays_no_destroy [OF assms(1,2)]
  by (auto simp: handled_def stays_def live_tsx_def armed_def needs_timeout_def set_state_low pend_inv_low)

lemma sendable_live:
  assumes "live_tsx t" and "stays t u"
  shows "sendable u"
proof -
  have u: "pend_inv u" "tsx_state u < PJSIP_TSX_STATE_TERMINATED" using assms by (simp_all add: live_tsx_def stays_def)
  then have "\<not> has_flag TSX_HAS_PENDING_DESTROY u" using no_destroy by blast
  then show ?thesis using u by (simp add: sendable_def pend_inv_def pend_core_def less_imp_le)
qed

lemma stays_frame [simp]:
  "stays t (tsx_schedule_timer e d i u) = stays t u" "stays t (tsx_cancel_timer e u) = stays t u"
  "stays t (restart_timeout d u) = stays t u" "stays t (td_add_ref td u) = stays t u" "stays t (td_dec_ref td u) = stays t u"
  "stays t (tpselector_ref k sel u) = stays t u" "stays t (tsx_set_status_code c u) = stays t u"
  "stays t (save_last_tx td u) = stays t u" "stays t (discard_last_tx td u) = stays t u"
  "stays t (tsx_resched_retransmission env u) = stays t u" "stays t (clear_flag TSX_HAS_PENDING_RESCHED u) = stays t u"
  "stays t (set_flag TSX_HAS_PENDING_RESCHED u) = stays t u" "stays t (start_retransmit d u) = stays t u"
  "stays t (u\<lparr>retransmit_count := n\<rparr>) = stays t u" "stays t (u\<lparr>tp_sel := sel\<rparr>) = stays t u"
  by (simp_all add: stays_def)

lemma stays_resched [simp]:
  "fl - {TSX_HAS_PENDING_RESCHED} = transport_flag u - {TSX_HAS_PENDING_RESCHED} \<Longrightarrow> stays t (u\<lparr>transport_flag := fl\<rparr>) = stays t u"
  by (simp add: stays_def)

lemma stays_count_flag [simp]: "stays t (u\<lparr>retransmit_count := n, transport_flag := f\<rparr>) = stays t (u\<lparr>transport_flag := f\<rparr>)"
proof -
  have "other_grp_refs (u\<lparr>retransmit_count := n, transport_flag := f\<rparr>) = other_grp_refs u" by (simp add: refs_defs runs_def)
  then show ?thesis by (simp add: stays_def)
qed

text \<open>After a send: an error, with which the handlers return, leaves a handled transaction, and a success the state.\<close>

lemma send_stays:
  assumes "env_ok env" and "live_tsx t" and "stays t u" and ok: "fst (tsx_send_msg env u td) = PJ_SUCCESS"
  defines "v \<equiv> snd (tsx_send_msg env u td)"
  shows "stays t v" and "runs Timeout_Timer u \<Longrightarrow> runs Timeout_Timer v" and "status_code v = status_code u"
proof -
  have s: "sent_ok u (tsx_send_msg env u td)" by (rule tsx_send_msg_spec [OF assms(1) sendable_live [OF assms(2,3)]])
  have u: "tsx_state u < PJSIP_TSX_STATE_TERMINATED" using assms(2,3) by (simp add: live_tsx_def stays_def)
  have v: "evolves u v" "pend_inv v" "tsx_state v = tsx_state u" using s u ok by (simp_all add: sent_ok_def v_def)
  show "stays t v" using v evolves_same [OF v(1)] assms(3) by (simp add: stays_def)
  show "runs Timeout_Timer v" if "runs Timeout_Timer u" using v(1,3) u that by (auto simp: evolves_def)
  show "status_code v = status_code u" using v(1,3) u by (auto simp: evolves_def)
qed

lemma send_handled:
  assumes "env_ok env" and "live_tsx t" and "stays t u" and "armed u"
  shows "handled t (snd (tsx_send_msg env u td))"
proof -
  let ?v = "snd (tsx_send_msg env u td)"
  have s: "sent_ok u (tsx_send_msg env u td)" by (rule tsx_send_msg_spec [OF assms(1) sendable_live [OF assms(2,3)]])
  have u: "tsx_state u < PJSIP_TSX_STATE_TERMINATED" using assms(2,3) by (simp add: live_tsx_def stays_def)
  have v: "evolves u ?v" "pend_inv ?v" "\<not> has_flag TSX_HAS_PENDING_DESTROY ?v" using s by (simp_all add: sent_ok_def)
  note e = evolves_same [OF v(1)]
  show ?thesis
  proof (cases "tsx_state ?v = tsx_state u")
    case True
    then have "runs Timeout_Timer u \<longrightarrow> runs Timeout_Timer ?v" "status_code ?v = status_code u" using v(1) u by (auto simp: evolves_def)
    then have "armed ?v" using assms(4) True u by (auto simp: armed_def needs_timeout_def)
    moreover have "stays t ?v" using v e True assms(3) by (simp add: stays_def)
    ultimately show ?thesis by (rule handled_stays [OF assms(2), rotated])
  next
    case False
    then have "tsx_state ?v = PJSIP_TSX_STATE_TERMINATED" "expiring ?v" using v(1) by (auto simp: evolves_def)
    then show ?thesis using v e u assms(3) by (simp add: handled_def stays_def armed_def needs_timeout_def role_ok_def less_imp_le)
  qed
qed

lemma armed_frame [simp]:
  "armed (tsx_cancel_timer Retransmit_Timer u) = armed u" "armed (td_add_ref td u) = armed u" "armed (td_dec_ref td u) = armed u"
  "armed (tpselector_ref k sel u) = armed u" "armed (save_last_tx td u) = armed u" "armed (discard_last_tx td u) = armed u"
  "armed (tsx_resched_retransmission env u) = armed u" "armed (clear_flag f u) = armed u" "armed (set_flag f u) = armed u"
  "armed (u\<lparr>retransmit_count := n\<rparr>) = armed u" "armed (u\<lparr>tp_sel := sel\<rparr>) = armed u" "armed (keep_ack env u) = armed u"
  "armed (tsx_schedule_timer Retransmit_Timer d i u) = armed u"
  by (simp_all add: armed_def needs_timeout_def tsx_resched_retransmission_def Let_def)

lemma armed_count_flag [simp]: "armed (u\<lparr>retransmit_count := n, transport_flag := f\<rparr>) = armed u"
  by (simp add: armed_def needs_timeout_def expiring_def runs_def)

lemma armed_restart [simp]: "armed (restart_timeout d u)"
  by (simp add: armed_def)

lemma retransmit_handled:
  assumes "env_ok env" and "live_tsx t" and "stays t u" and "armed u"
  shows "handled t (snd (tsx_retransmit env r u))"
proof (cases "r \<and> tm_running (retransmit_timer u) \<noteq> None \<or> last_tx u = None")
  case True
  then show ?thesis using handled_stays [OF assms(2-4)] by (auto simp: tsx_retransmit_def split: option.split)
next
  case False
  then obtain td where td: "last_tx u = Some td" by auto
  show ?thesis using False td assms by (auto simp: tsx_retransmit_def Let_def intro!: send_handled)
qed

section \<open>The client\<close>

lemma null_handled:
  assumes "env_ok env" and "live_tsx t" and "tsx_state t = PJSIP_TSX_STATE_NULL"
  shows "handled t (snd (tsx_on_state_null env t event))"
proof (cases "tsx_role t = PJSIP_ROLE_UAS")
  case True
  have "handled t (tsx_set_state env PJSIP_TSX_STATE_TRYING src {} t)" for src
    using assms(2,3) True by (intro handled_low stays_refl) (simp_all add: tsx_state_order role_ok_def)
  then show ?thesis using True by (simp add: tsx_on_state_null_def)
next
  case uac: False
  have a: "armed t" using assms(3) by (simp add: armed_def needs_timeout_def)
  show ?thesis
  proof (cases event)
    case (Ev_Tx_Msg td)
    define u where "u = save_last_tx td (discard_last_tx td t)"
    have u: "stays t u" "armed u" using assms(2) a by (simp_all add: u_def stays_refl)
    let ?r = "tsx_send_msg env u td"
    show ?thesis
    proof (cases "fst ?r = PJ_SUCCESS")
      case True
      note v = send_stays [OF assms(1,2) u(1) True]
      show ?thesis using True uac v(1) assms(2,3)
        by (auto simp: tsx_on_state_null_def Ev_Tx_Msg u_def [symmetric] Let_def role_ok_def tsx_state_order split: prod.split
            intro!: handled_low)
    next
      case False
      then show ?thesis using send_handled [OF assms(1,2) u, of td] uac
        by (cases ?r) (simp add: tsx_on_state_null_def Ev_Tx_Msg u_def [symmetric] Let_def)
    qed
  qed (use uac handled_stays [OF assms(2) stays_refl [OF assms(2)] a] in \<open>simp_all add: tsx_on_state_null_def\<close>)
qed


lemma stays_live: "live_tsx t \<Longrightarrow> stays t u \<Longrightarrow> live_tsx u"
  by (simp add: live_tsx_def stays_def)

lemma armed_early:
  assumes "tsx_state u \<in> {PJSIP_TSX_STATE_NULL, PJSIP_TSX_STATE_TRYING, PJSIP_TSX_STATE_PROCEEDING}
      \<or> tsx_state u = PJSIP_TSX_STATE_CALLING \<and> status_code u \<noteq> 0"
  shows "armed u"
  using assms by (auto simp: armed_def needs_timeout_def)

lemma handled_completed:
  assumes "live_tsx t" and "stays t u" and "tsx_state t \<le> PJSIP_TSX_STATE_COMPLETED"
  shows "handled t (restart_timeout d (keep_ack env (tsx_set_state env PJSIP_TSX_STATE_COMPLETED src {} u)))"
  using assms stays_no_destroy [OF assms(1,2)] by (auto simp: handled_def stays_def live_tsx_def set_state_low pend_inv_low role_ok_def tsx_state_order)

lemma send_ack_cases:
  assumes "env_ok env" and "live_tsx t" and "stays t u" and "armed u"
  shows "fst (send_ack env u) = PJ_SUCCESS \<Longrightarrow> stays t (snd (send_ack env u))"
    and "fst (send_ack env u) \<noteq> PJ_SUCCESS \<Longrightarrow> handled t (snd (send_ack env u))"
  using send_stays(1) [OF assms(1-3)] send_handled [OF assms] handled_stays [OF assms(2-4)] assms(3)
  by (auto simp: send_ack_def split: prod.splits if_splits)

lemma uac_failure_handled:
  assumes "env_ok env" and t: "live_tsx t" "tsx_state t \<in> {PJSIP_TSX_STATE_CALLING, PJSIP_TSX_STATE_PROCEEDING}"
    and u: "stays t u" "status_code u \<noteq> 0"
  shows "handled t (snd (uac_failure_response env u src))"
proof -
  let ?u = "tsx_cancel_timer Timeout_Timer (tsx_cancel_timer Retransmit_Timer u)"
  have "tsx_state u = tsx_state t" using u by (simp add: stays_def)
  then have "armed ?u" using t(2) u(2) by (intro armed_early) auto
  moreover have "stays t ?u" using u by simp
  ultimately have a: "fst (send_ack env ?u) = PJ_SUCCESS \<Longrightarrow> stays t (snd (send_ack env ?u))"
      "fst (send_ack env ?u) \<noteq> PJ_SUCCESS \<Longrightarrow> handled t (snd (send_ack env ?u))"
    using send_ack_cases [OF assms(1,2)] by blast+
  have "tsx_state t \<le> PJSIP_TSX_STATE_COMPLETED" using t(2) by (auto simp: tsx_state_order)
  then show ?thesis using a handled_completed [OF t(1)]
    by (cases "send_ack env ?u") (auto simp: uac_failure_response_def Let_def)
qed

lemma uac_success_handled:
  assumes t: "live_tsx t" "tsx_state t \<in> {PJSIP_TSX_STATE_CALLING, PJSIP_TSX_STATE_PROCEEDING}" and u: "stays t u"
  shows "handled t (snd (uac_success_response env u src))"
proof -
  have le: "tsx_state t \<le> PJSIP_TSX_STATE_COMPLETED" using t(2) by (auto simp: tsx_state_order)
  have "handled t (tsx_set_state env PJSIP_TSX_STATE_TERMINATED src {} (tsx_cancel_timer Timeout_Timer u))"
    using t u by (intro handled_terminated) simp_all
  moreover have "handled t (tsx_set_state env PJSIP_TSX_STATE_COMPLETED src {}
      (tsx_cancel_timer Retransmit_Timer (tsx_schedule_timer Timeout_Timer d TIMEOUT_TIMER (tsx_cancel_timer Timeout_Timer u))))" for d
    using t u le by (intro handled_low) (simp_all add: tsx_state_order role_ok_def)
  ultimately show ?thesis by (simp add: uac_success_response_def Let_def)
qed

lemma uac_response_handled:
  assumes "env_ok env" and t: "live_tsx t" "tsx_state t \<in> {PJSIP_TSX_STATE_CALLING, PJSIP_TSX_STATE_PROCEEDING}"
    and u: "stays t u" and code: "100 \<le> code"
  shows "handled t (snd (tsx_on_state_proceeding_uac env u (Ev_Rx_Msg (Rx_Response code))))"
proof -
  let ?u = "tsx_set_status_code code u"
  have u': "stays t ?u" "status_code ?u \<noteq> 0" using u code by (simp, simp add: tsx_set_status_code_def)
  have "tsx_state ?u = tsx_state t" using u by (simp add: stays_def)
  then have "armed ?u" using t(2) u'(2) by (intro armed_early) auto
  then have "handled t ?u" by (rule handled_stays [OF t(1) u'(1)])
  moreover have "handled t (tsx_set_state env PJSIP_TSX_STATE_PROCEEDING src {} ?u)" for src
    using t u' by (intro handled_low) (auto simp: tsx_state_order role_ok_def)
  ultimately show ?thesis
    using uac_success_handled [OF t u'(1)] uac_failure_handled [OF assms(1) t u']
    by (simp add: tsx_on_state_proceeding_uac_def Let_def)
qed

text \<open>What an event may find: the timeout timer runs if the transaction relies on it, unless it is that timer that fires.\<close>

definition due :: "pjsip_event \<Rightarrow> pjsip_transaction \<Rightarrow> bool" where
  "due event t \<longleftrightarrow> (armed t \<or> event = Ev_Timer Timeout_Timer) \<and> (\<forall>m. event = Ev_Rx_Msg m \<longrightarrow> rx_msg_ok m)"

lemma due_response: "due (Ev_Rx_Msg (Rx_Response code)) t \<Longrightarrow> 100 \<le> code"
  by (simp add: due_def PJSIP_MIN_STATUS_CODE_def)

lemma due_armed: "due event t \<Longrightarrow> event \<noteq> Ev_Timer Timeout_Timer \<Longrightarrow> armed t"
  by (simp add: due_def)

lemma due_handled: "live_tsx t \<Longrightarrow> due event t \<Longrightarrow> event \<noteq> Ev_Timer Timeout_Timer \<Longrightarrow> handled t t"
  by (simp add: handled_stays stays_refl due_armed)

lemma proceeding_uac_handled:
  assumes "env_ok env" and t: "live_tsx t" "tsx_state t = PJSIP_TSX_STATE_PROCEEDING" and "due event t"
  shows "handled t (snd (tsx_on_state_proceeding_uac env t event))"
proof (cases event)
  case (Ev_Timer e)
  have "handled t (tsx_set_state env PJSIP_TSX_STATE_TERMINATED src {} (tsx_set_status_code c t))" for src c
    using t by (intro handled_terminated) (simp_all add: stays_refl)
  moreover have "handled t (snd (tsx_retransmit env True t))"
    using t by (intro retransmit_handled assms stays_refl armed_early) simp_all
  ultimately show ?thesis using Ev_Timer by (cases e) (simp_all add: tsx_on_state_proceeding_uac_def)
next
  case (Ev_Tx_Msg td)
  then show ?thesis using assms due_handled [of t event] by (simp add: tsx_on_state_proceeding_uac_def)
next
  case (Ev_Rx_Msg m)
  then show ?thesis
    using assms due_handled [of t event] uac_response_handled [OF assms(1) t(1) _ stays_refl [OF t(1)]] due_response
    by (cases m) (auto simp: tsx_on_state_proceeding_uac_def)
qed

lemma calling_handled:
  assumes "env_ok env" and t: "live_tsx t" "tsx_state t = PJSIP_TSX_STATE_CALLING" and "due event t"
  shows "handled t (snd (tsx_on_state_calling env t event))"
proof (cases event)
  case (Ev_Timer e)
  have "handled t (tsx_set_state env PJSIP_TSX_STATE_TERMINATED src {}
      (tsx_set_status_code c (clear_flag TSX_HAS_PENDING_RESCHED (tsx_cancel_timer Retransmit_Timer t))))" for src c
    using t by (intro handled_terminated) (simp_all add: stays_refl)
  moreover have "handled t (snd (tsx_retransmit env True t))" if "armed t"
    using t that by (intro retransmit_handled assms stays_refl) simp_all
  ultimately show ?thesis using Ev_Timer due_armed [OF assms(4)] by (cases e) (simp_all add: tsx_on_state_calling_def Let_def)
next
  case (Ev_Tx_Msg td)
  then show ?thesis using assms due_handled [of t event] by (simp add: tsx_on_state_calling_def)
next
  case (Ev_Rx_Msg m)
  then show ?thesis
    using assms due_handled [of t event] stays_refl [OF t(1)] uac_response_handled [OF assms(1) t(1)] due_response
    by (cases m) (auto simp: tsx_on_state_calling_def Let_def)
qed

lemma completed_uac_handled:
  assumes "env_ok env" and t: "live_tsx t" and "due event t"
  shows "handled t (snd (tsx_on_state_completed_uac env t event))"
proof -
  have "handled t (tsx_set_state env PJSIP_TSX_STATE_TERMINATED src {} t)" for src
    using t by (intro handled_terminated stays_refl)
  moreover have "handled t (snd (tsx_retransmit env False t))" if "event \<noteq> Ev_Timer Timeout_Timer"
    using t due_armed [OF assms(3) that] by (intro retransmit_handled assms stays_refl)
  ultimately show ?thesis using due_handled [OF t assms(3)]
    by (auto simp: tsx_on_state_completed_uac_def split: pjsip_event.split tsx_timer_name.split pjsip_rx_msg.split)
qed

section \<open>The server\<close>

lemma uas_provisional_handled:
  assumes "live_tsx t" and "stays t u" and "tsx_state t \<le> PJSIP_TSX_STATE_PROCEEDING"
  shows "handled t (uas_provisional env u td)"
  using assms stays_no_destroy [OF assms(1,2)] by (auto simp: uas_provisional_def Let_def handled_def stays_def live_tsx_def set_state_low pend_inv_low role_ok_def
      armed_def needs_timeout_def tsx_state_order)

lemma uas_completed_handled:
  assumes "live_tsx t" and "stays t u" and "tsx_state t \<le> PJSIP_TSX_STATE_PROCEEDING"
  shows "handled t (uas_success env u td)" and "handled t (uas_failure env u td)"
proof -
  have comp: "handled t (tsx_set_state env PJSIP_TSX_STATE_COMPLETED src {} v)" if "stays t v" "runs Timeout_Timer v" for src v
    using assms that by (intro handled_low) (auto simp: tsx_state_order role_ok_def)
  have fin: "handled t (tsx_set_state env PJSIP_TSX_STATE_TERMINATED src {} (tsx_cancel_timer Retransmit_Timer u))" for src
    using assms by (intro handled_terminated) simp_all
  show "handled t (uas_success env u td)" using assms(2) fin by (auto simp: uas_success_def Let_def intro!: comp)
  show "handled t (uas_failure env u td)" using assms(2) by (auto simp: uas_failure_def Let_def intro!: comp)
qed

lemma proceeding_uas_handled:
  assumes "env_ok env" and t: "live_tsx t" "tsx_state t \<in> {PJSIP_TSX_STATE_TRYING, PJSIP_TSX_STATE_PROCEEDING}"
  shows "handled t (snd (tsx_on_state_proceeding_uas env t event))"
proof -
  have early: "armed u" if "stays t u" for u using that t(2) by (intro armed_early) (auto simp: stays_def)
  note refl = stays_refl [OF t(1)]
  have le: "tsx_state t \<le> PJSIP_TSX_STATE_PROCEEDING" using t(2) by (auto simp: tsx_state_order)
  show ?thesis
  proof (cases event)
    case (Ev_Timer e)
    have "handled t (tsx_set_state env PJSIP_TSX_STATE_TERMINATED src {} (tsx_set_status_code c t))" for src c
      using t refl by (intro handled_terminated) simp_all
    then show ?thesis using Ev_Timer retransmit_handled [OF assms(1) t(1) refl early [OF refl]]
      by (cases e) (simp_all add: tsx_on_state_proceeding_uas_def)
  next
    case (Ev_Rx_Msg m)
    have "stays t (set_flag TSX_HAS_PENDING_SEND t)" if "has_flag TSX_HAS_PENDING_TRANSPORT t"
      using t(1) that by (simp add: stays_def live_tsx_def pend_defs)
    then have "handled t (set_flag TSX_HAS_PENDING_SEND t)" if "has_flag TSX_HAS_PENDING_TRANSPORT t"
      using that handled_stays [OF t(1)] early by blast
    then show ?thesis using Ev_Rx_Msg send_handled [OF assms(1) t(1) refl early [OF refl]] handled_stays [OF t(1) refl early [OF refl]]
      by (simp add: tsx_on_state_proceeding_uas_def split: option.split)
  next
    case (Ev_Tx_Msg td)
    define u where "u = discard_last_tx td (tsx_set_status_code (td_code (env_tdata env td)) t)"
    have u: "stays t u" using refl by (simp add: u_def)
    obtain st v where r: "tsx_send_msg env u td = (st, v)" by fastforce
    have "handled t v" using send_handled [OF assms(1) t(1) u early [OF u], of td] r by simp
    moreover have "handled t (uas_provisional env v td)" "handled t (uas_success env v td)" "handled t (uas_failure env v td)"
      if "st = PJ_SUCCESS"
      using that send_stays(1) [OF assms(1) t(1) u, of td] r uas_provisional_handled [OF t(1) _ le] uas_completed_handled [OF t(1) _ le]
      by simp_all
    ultimately show ?thesis using Ev_Tx_Msg handled_stays [OF t(1) refl early [OF refl]]
      by (simp add: tsx_on_state_proceeding_uas_def u_def [symmetric] r Let_def)
  qed
qed

lemma trying_handled:
  assumes "env_ok env" and t: "live_tsx t" "tsx_state t = PJSIP_TSX_STATE_TRYING" "tsx_role t = PJSIP_ROLE_UAS"
  shows "handled t (snd (tsx_on_state_trying env t event))"
proof (cases "\<exists>td. event = Ev_Tx_Msg td")
  case True
  obtain st v where r: "tsx_on_state_proceeding_uas env t event = (st, v)" by fastforce
  have v: "handled t v" using proceeding_uas_handled [OF assms(1) t(1), of event] t(2) r by simp
  have "handled t (tsx_set_state env PJSIP_TSX_STATE_PROCEEDING src {} v)" if "tsx_state v = PJSIP_TSX_STATE_TRYING" for src
    using v that t by (intro handled_low) (auto simp: handled_def stays_def tsx_state_order role_ok_def)
  then show ?thesis using v True r by (auto simp: tsx_on_state_trying_def)
next
  case False
  have "handled t t" using t by (intro handled_stays stays_refl armed_early) simp_all
  then show ?thesis using False by (auto simp: tsx_on_state_trying_def split: pjsip_event.split)
qed

lemma completed_uas_handled:
  assumes "env_ok env" and t: "live_tsx t" "tsx_state t = PJSIP_TSX_STATE_COMPLETED" and "due event t"
  shows "handled t (snd (tsx_on_state_completed_uas env t event))"
proof -
  have fin: "handled t (tsx_set_state env PJSIP_TSX_STATE_TERMINATED src {} u)" if "stays t u" for src u
    using t that by (intro handled_terminated)
  have conf: "handled t (tsx_set_state env PJSIP_TSX_STATE_CONFIRMED src {} (restart_timeout d u))" if "stays t u" for src d u
    using t that by (intro handled_low) (simp_all add: tsx_state_order role_ok_def)
  have "handled t (snd (tsx_retransmit env r t))" if "event \<noteq> Ev_Timer Timeout_Timer" for r
    using t due_armed [OF assms(4) that] by (intro retransmit_handled assms stays_refl)
  then show ?thesis using due_handled [OF t(1) assms(4)] fin conf stays_refl [OF t(1)]
    by (auto simp: tsx_on_state_completed_uas_def Let_def split: pjsip_event.split tsx_timer_name.split pjsip_rx_msg.split)
qed

lemma confirmed_handled:
  assumes t: "live_tsx t" and "due event t"
  shows "handled t (snd (tsx_on_state_confirmed env t event))"
proof -
  have "handled t (tsx_set_state env PJSIP_TSX_STATE_TERMINATED src {} t)" for src
    using t by (intro handled_terminated stays_refl)
  then show ?thesis using due_handled [OF assms]
    by (auto simp: tsx_on_state_confirmed_def split: pjsip_event.split tsx_timer_name.split pjsip_rx_msg.split)
qed

section \<open>Every event\<close>

lemma run_handler_handled:
  assumes "env_ok env" and t: "live_tsx t" and "due event t"
  obtains st u where "run_handler env t event = Some (st, u)" and "handled t u"
proof -
  have r: "role_ok (tsx_role t) (tsx_state t)" "tsx_state t < PJSIP_TSX_STATE_TERMINATED" using t by (simp_all add: live_tsx_def)
  have "\<exists>su. run_handler env t event = Some su \<and> handled t (snd su)"
  proof (cases "tsx_state t")
    case PJSIP_TSX_STATE_NULL
    then show ?thesis using null_handled assms by (simp add: run_handler_def tsx_state_handler_def)
  next
    case PJSIP_TSX_STATE_CALLING
    then show ?thesis using calling_handled assms r by (cases "tsx_role t") (simp_all add: run_handler_def tsx_state_handler_def role_ok_def)
  next
    case PJSIP_TSX_STATE_TRYING
    then show ?thesis using trying_handled assms r by (cases "tsx_role t") (simp_all add: run_handler_def tsx_state_handler_def role_ok_def)
  next
    case PJSIP_TSX_STATE_PROCEEDING
    then show ?thesis using proceeding_uac_handled proceeding_uas_handled assms
      by (cases "tsx_role t") (simp_all add: run_handler_def tsx_state_handler_def del: split_paired_Ex)
  next
    case PJSIP_TSX_STATE_COMPLETED
    then show ?thesis using completed_uac_handled completed_uas_handled assms
      by (cases "tsx_role t") (simp_all add: run_handler_def tsx_state_handler_def del: split_paired_Ex)
  next
    case PJSIP_TSX_STATE_CONFIRMED
    then show ?thesis using confirmed_handled assms by (simp add: run_handler_def tsx_state_handler_def)
  qed (use r in \<open>simp_all add: tsx_state_order\<close>)
  then show ?thesis using that by auto
qed

end
