(* ===== verification/Sip_Tsx_Runs.thy ===== *)
theory Sip_Tsx_Runs
  imports Sip_Tsx_Handlers
begin

text \<open>
  Runs of the SIP transaction: the invariant that every step keeps, and what follows from it for states, references,
  timers and the end of a transaction.
\<close>

section \<open>The end of a transaction\<close>

text \<open>What is left of a destroyed transaction. Only a send that the transport still has to report keeps it.\<close>

definition destroyed_clean :: "pjsip_transaction \<Rightarrow> bool" where
  "destroyed_clean t \<longleftrightarrow> last_tx t = None \<and> tsx_transport t = None \<and> \<not> runs Retransmit_Timer t \<and> \<not> runs Timeout_Timer t
     \<and> \<not> has_flag TSX_HAS_PENDING_SEND t \<and> \<not> has_flag TSX_HAS_PENDING_RESCHED t \<and> \<not> registered t
     \<and> (has_flag TSX_HAS_PENDING_TRANSPORT t \<longrightarrow> has_flag TSX_HAS_PENDING_DESTROY t)"

lemma shutdown_frame [simp]:
  "tsx_state (tsx_shutdown env t) = tsx_state t" "tsx_role (tsx_shutdown env t) = tsx_role t"
  "method_id (tsx_shutdown env t) = method_id t" "terminating (tsx_shutdown env t)" "registered (tsx_shutdown env t) = registered t"
  "pending_tx (tsx_shutdown env t) = pending_tx t" "sends_out (tsx_shutdown env t) = sends_out t"
  "td_mod_data (tsx_shutdown env t) = td_mod_data t" "last_tx (tsx_shutdown env t) = None"
  "tsx_transport (tsx_shutdown env t) = None" "\<not> runs e (tsx_shutdown env t)"
  by (cases e; auto simp: tsx_shutdown_def tsx_update_transport_def Let_def split: option.split)+

lemma shutdown_flags [simp]:
  "transport_flag (tsx_shutdown env t) = transport_flag t - {TSX_HAS_PENDING_RESCHED, TSX_HAS_PENDING_SEND}
     \<union> (if has_flag TSX_HAS_PENDING_TRANSPORT t then {TSX_HAS_PENDING_DESTROY} else {})"
  by (auto simp: tsx_shutdown_def Let_def split: option.split)

lemma unregister_registered [simp]: "env_layer_up env \<Longrightarrow> \<not> registered (mod_tsx_layer_unregister_tsx env t)"
  by (simp add: mod_tsx_layer_unregister_tsx_def)

lemma destroyed_spec:
  fixes env src
  assumes "env_layer_up env" and "pend_core t"
  defines "t' \<equiv> tsx_set_state env PJSIP_TSX_STATE_DESTROYED src {} t"
  shows "destroyed_clean t'" "pend_inv t'" "terminating t'" "tsx_state t' = PJSIP_TSX_STATE_DESTROYED" "tsx_role t' = tsx_role t"
    "other_grp_refs t' = other_grp_refs t" "sends_out t' = sends_out t" "pending_tx t' = pending_tx t"
    "has_flag TSX_HAS_PENDING_DESTROY t' \<longleftrightarrow> has_flag TSX_HAS_PENDING_DESTROY t \<or> has_flag TSX_HAS_PENDING_TRANSPORT t"
  using assms(1,2) by (auto simp: t'_def tsx_set_state_def Let_def destroyed_clean_def pend_defs tsx_state_order)

text \<open>
  The invariant of a run, over the references \<open>base\<close> that are not the transaction's own. The counter never falls below
  what is held; it may end up one too high after a send that was pending when the transaction was destroyed.
\<close>

definition tsx_inv :: "int \<Rightarrow> pjsip_transaction \<Rightarrow> bool" where
  "tsx_inv base t \<longleftrightarrow> pend_inv t \<and> armed t \<and> role_ok (tsx_role t) (tsx_state t)
     \<and> (terminating t \<longleftrightarrow> tsx_state t = PJSIP_TSX_STATE_DESTROYED)
     \<and> (has_flag TSX_HAS_PENDING_DESTROY t \<longrightarrow> tsx_state t = PJSIP_TSX_STATE_DESTROYED)
     \<and> (tsx_state t = PJSIP_TSX_STATE_DESTROYED \<longrightarrow> destroyed_clean t)
     \<and> base \<le> other_grp_refs t
     \<and> (has_flag TSX_HAS_PENDING_DESTROY t \<and> sends_out t = 0 \<and> pending_tx t = None \<or> other_grp_refs t = base)"

text \<open>One step of a live transaction, or of one that has terminated and stays so.\<close>

definition steps :: "pjsip_transaction \<Rightarrow> pjsip_transaction \<Rightarrow> bool" where
  "steps t t' \<longleftrightarrow> tsx_role t' = tsx_role t \<and> terminating t' = terminating t \<and> other_grp_refs t' = other_grp_refs t
     \<and> tsx_state t \<le> tsx_state t' \<and> tsx_state t' \<le> PJSIP_TSX_STATE_TERMINATED
     \<and> pend_inv t' \<and> \<not> has_flag TSX_HAS_PENDING_DESTROY t' \<and> armed t' \<and> role_ok (tsx_role t) (tsx_state t')"

lemma steps_inv: "tsx_inv base t \<Longrightarrow> tsx_state t \<le> PJSIP_TSX_STATE_TERMINATED \<Longrightarrow> steps t t' \<Longrightarrow> tsx_inv base t'"
  by (auto simp: tsx_inv_def steps_def tsx_state_order)

lemma handled_steps: "handled t t' \<Longrightarrow> steps t t'"
  unfolding handled_def steps_def by (elim conjE) simp

lemma evolves_armed:
  assumes e: "evolves t u" and "armed t" and "\<not> has_flag TSX_HAS_PENDING_DESTROY u" and "pend_inv u"
    and "role_ok (tsx_role t) (tsx_state t)" and "tsx_state t \<le> PJSIP_TSX_STATE_TERMINATED"
  shows "steps t u"
proof (cases "tsx_state u = tsx_state t")
  case same: True
  show ?thesis
  proof (cases "tsx_state t = PJSIP_TSX_STATE_TERMINATED")
    case True
    then have "expiring u" using e assms(2) by (auto simp: evolves_def armed_def)
    then show ?thesis using same True assms evolves_same [OF e] by (simp add: steps_def armed_def needs_timeout_def)
  next
    case False
    then have "tsx_state t < PJSIP_TSX_STATE_TERMINATED" using assms(6) by simp
    then have "runs Timeout_Timer t \<longrightarrow> runs Timeout_Timer u" "status_code u = status_code t"
      using e same by (auto simp: evolves_def)
    then show ?thesis using same False assms evolves_same [OF e] by (auto simp: steps_def armed_def needs_timeout_def)
  qed
next
  case False
  then have "tsx_state u = PJSIP_TSX_STATE_TERMINATED" "expiring u" using e by (auto simp: evolves_def)
  then show ?thesis using assms evolves_same [OF e] by (simp add: steps_def armed_def needs_timeout_def role_ok_def)
qed

lemma steps_frame [simp]:
  "steps t (td_dec_ref td u) = steps t u" "steps t (td_add_ref td u) = steps t u"
  by (simp_all add: steps_def armed_def needs_timeout_def)

lemma steps_shift:
  assumes "steps t2 u" and "tsx_role t2 = tsx_role t" "terminating t2 = terminating t" "tsx_state t2 = tsx_state t"
    and "other_grp_refs t2 = other_grp_refs t + 1"
  shows "steps t (u\<lparr>grp_refs := grp_refs u - 1\<rparr>)"
proof -
  have "other_grp_refs (u\<lparr>grp_refs := grp_refs u - 1\<rparr>) = other_grp_refs u - 1" by (simp add: refs_defs)
  moreover have "pend_inv (u\<lparr>grp_refs := g\<rparr>) = pend_inv u" for g by (simp add: pend_defs)
  ultimately show ?thesis using assms by (simp add: steps_def armed_def needs_timeout_def)
qed

lemma inv_live: "tsx_inv base t \<Longrightarrow> tsx_state t < PJSIP_TSX_STATE_TERMINATED \<Longrightarrow> live_tsx t"
  by (simp add: tsx_inv_def live_tsx_def)

lemma steps_refl: "tsx_inv base t \<Longrightarrow> tsx_state t \<le> PJSIP_TSX_STATE_TERMINATED \<Longrightarrow> steps t t"
  by (auto simp: tsx_inv_def steps_def tsx_state_order)

lemma destroyed_inv:
  assumes "env_layer_up env" and "pend_core u" and "other_grp_refs u = base"
  shows "tsx_inv base (tsx_set_state env PJSIP_TSX_STATE_DESTROYED src {} u)"
  using destroyed_spec [OF assms(1,2), of src] assms(3)
  by (simp add: tsx_inv_def armed_def needs_timeout_def role_ok_def)

lemma state_cases:
  obtains "tsx_state t < PJSIP_TSX_STATE_TERMINATED" | "tsx_state t = PJSIP_TSX_STATE_TERMINATED" | "tsx_state t = PJSIP_TSX_STATE_DESTROYED"
  by (cases "tsx_state t") (auto simp: tsx_state_order)

section \<open>Steps\<close>

lemma event_step:
  assumes env: "env_ok env" and t: "tsx_inv base t" and event: "\<forall>e. event \<noteq> Ev_Timer e" "\<forall>m. event = Ev_Rx_Msg m \<longrightarrow> rx_msg_ok m"
    and run: "run_handler env t event = Some (st, u)"
  shows "steps t u \<or> u = t \<and> st \<noteq> PJ_SUCCESS"
proof (cases t rule: state_cases)
  case 1
  have "due event t" using t event by (simp add: due_def tsx_inv_def)
  then have "handled t u" using run_handler_handled [OF env inv_live [OF t 1]] run by fastforce
  then show ?thesis by (simp add: handled_steps)
qed (use run event in \<open>auto simp: run_handler_def tsx_state_handler_def tsx_on_state_terminated_def tsx_on_state_destroyed_def
      split: pjsip_event.splits\<close>)

text \<open>The transaction when a timer of it has been taken out of the heap.\<close>

definition fired :: "tsx_timer_name \<Rightarrow> pjsip_transaction \<Rightarrow> pjsip_transaction" where
  "fired e t = set_timer e \<lparr>tm_id = TIMER_INACTIVE, tm_running = None\<rparr> t"

lemma fired_frame [simp]:
  "tsx_state (fired e t) = tsx_state t" "tsx_role (fired e t) = tsx_role t" "terminating (fired e t) = terminating t"
  "method_id (fired e t) = method_id t" "status_code (fired e t) = status_code t" "transport_flag (fired e t) = transport_flag t"
  "runs e' (fired e t) \<longleftrightarrow> e' \<noteq> e \<and> runs e' t" "expiring (fired Retransmit_Timer t) = expiring t" "pend_inv (fired e t) = pend_inv t"
  "pend_core (fired e t) = pend_core t"
  by (cases e; cases e'; simp add: fired_def runs_def expiring_def pend_defs)+

lemma fired_refs: "runs e t \<Longrightarrow> other_grp_refs (fired e t) = other_grp_refs t + 1"
proof -
  assume r: "runs e t"
  have "grp_refs (fired e t) = grp_refs t" "pending_tx (fired e t) = pending_tx t" "sends_out (fired e t) = sends_out t"
    by (cases e; simp add: fired_def)+
  then show ?thesis using r by (cases e) (simp_all add: refs_defs)
qed

lemma gone_handled:
  assumes t: "live_tsx t"
  shows "handled t (transport_gone env disc t)"
proof (cases "disc \<and> method_id t = PJSIP_INVITE_METHOD \<and> tsx_role t = PJSIP_ROLE_UAS \<and> status_code t < 200
            \<and> \<not> has_flag TSX_HAS_PENDING_TRANSPORT t \<and> \<not> has_flag TSX_HAS_PENDING_DESTROY t")
  case True
  define u where "u = tsx_update_transport env None t"
  have u: "pend_inv u" "tsx_state u = tsx_state t" "\<not> has_flag TSX_HAS_PENDING_TRANSPORT u" "other_grp_refs u = other_grp_refs t"
    using True t update_transport_pend by (auto simp: u_def live_tsx_def)
  have r: "transport_gone env disc t = u\<lparr>transport_flag := {}, addr_len := 0, res_addr_transport := None, res_addr_len := 0\<rparr>"
    using True by (simp add: transport_gone_def u_def Let_def)
  have "pend_inv (transport_gone env disc t)" using u t unfolding r by (simp add: pend_defs live_tsx_def)
  moreover have "other_grp_refs (transport_gone env disc t) = other_grp_refs t" using u(4) unfolding r by (simp add: refs_defs runs_def)
  ultimately have "stays t (transport_gone env disc t)" using u(2) unfolding r by (simp add: stays_def u_def)
  moreover have "armed (transport_gone env disc t)"
    using True t u(2) unfolding r by (auto simp: armed_def needs_timeout_def live_tsx_def role_ok_def u_def)
  ultimately show ?thesis by (rule handled_stays [OF t])
next
  case False
  have off: "\<not> (disc \<and> method_id (tsx_update_transport env None t) = PJSIP_INVITE_METHOD
      \<and> tsx_role (tsx_update_transport env None t) = PJSIP_ROLE_UAS \<and> status_code (tsx_update_transport env None t) < 200
      \<and> \<not> has_flag TSX_HAS_PENDING_TRANSPORT (tsx_update_transport env None t)
      \<and> \<not> has_flag TSX_HAS_PENDING_DESTROY (tsx_update_transport env None t))"
    using False by simp
  define u where "u = (if status_code t < 200 then tsx_set_status_code PJSIP_SC_TSX_TRANSPORT_ERROR (tsx_update_transport env None t)
    else tsx_update_transport env None t)"
  define v where "v = tsx_set_state env PJSIP_TSX_STATE_TERMINATED Src_Transport_Error {NO_NOTIFY, NO_SCHEDULE_HANDLER} u"
  define w where "w = (case tsx_user v of None \<Rightarrow> v | Some user \<Rightarrow>
      if has_on_tsx_state user then note_it (On_Tsx_State (tsx_state t) (tsx_state v) Src_Transport_Error) v else v)"
  have r: "transport_gone env disc t = tsx_schedule_timer Timeout_Timer (Time_Val 0 0) TIMEOUT_TIMER w"
    unfolding transport_gone_def Let_def if_not_P [OF off] u_def v_def w_def by simp
  have u: "pend_inv u" "tsx_role u = tsx_role t" "method_id u = method_id t" "terminating u = terminating t"
      "other_grp_refs u = other_grp_refs t" "\<not> has_flag TSX_HAS_PENDING_DESTROY u"
    using t update_transport_pend no_destroy [of t] by (auto simp: u_def live_tsx_def)
  note v = terminated_spec [OF u(1), where env = env and src = Src_Transport_Error and fl = "{NO_NOTIFY, NO_SCHEDULE_HANDLER}", folded v_def]
  have o: "other_grp_refs v = other_grp_refs t" "\<not> runs Timeout_Timer v"
    using u(5) by (simp add: v_def, simp add: v_def tsx_set_state_def enter_terminated_def Let_def)
  have w: "pend_inv w" "tsx_state w = PJSIP_TSX_STATE_TERMINATED" "tsx_role w = tsx_role t" "method_id w = method_id t"
      "terminating w = terminating t" "other_grp_refs w = other_grp_refs t" "\<not> has_flag TSX_HAS_PENDING_DESTROY w" "\<not> runs Timeout_Timer w"
    using v(1-5,7) u(2-6) o by (simp_all add: w_def split: option.split)
  then have "expiring (tsx_schedule_timer Timeout_Timer (Time_Val 0 0) TIMEOUT_TIMER w)"
    by (simp add: expiring_def) (simp add: tsx_schedule_timer_def runs_def)
  then show ?thesis using w t unfolding r
    by (simp add: handled_def live_tsx_def armed_def needs_timeout_def role_ok_def less_imp_le)
qed

lemma timer_step:
  assumes env: "env_ok env" and t: "tsx_inv base t" and e: "runs e t" and fire: "tsx_timer_fire env e t = Some t'"
  shows "steps t t' \<or> tsx_state t = PJSIP_TSX_STATE_TERMINATED \<and> tsx_state t' = PJSIP_TSX_STATE_DESTROYED \<and> tsx_inv base t'"
proof -
  let ?t = "fired e t" and ?id = "tm_id (get_timer e t)"
  have up: "env_layer_up env" using env by (simp add: env_ok_def)
  have shift: "steps ?t u \<Longrightarrow> steps t (u\<lparr>grp_refs := grp_refs u - 1\<rparr>)" for u
    by (rule steps_shift [of ?t]) (simp_all add: fired_refs [OF e])
  have st: "tsx_state t \<noteq> PJSIP_TSX_STATE_DESTROYED"
    using t e by (cases e) (auto simp: tsx_inv_def destroyed_clean_def)
  have timer: "set_timer e ((get_timer e u)\<lparr>tm_id := TIMER_INACTIVE\<rparr>) u = ?t" "tm_id (get_timer e u) = ?id"
    if "u = set_timer e ((get_timer e t)\<lparr>tm_running := None\<rparr>) t" for u
    using that by (cases e; simp add: fired_def)+
  obtain u where u: "t' = u\<lparr>grp_refs := grp_refs u - 1\<rparr>"
    and cb: "(if ?id = TRANSPORT_ERR_TIMER \<or> ?id = TRANSPORT_DISC_TIMER
        then Some (if tsx_state t < PJSIP_TSX_STATE_TERMINATED then transport_gone env (?id = TRANSPORT_DISC_TIMER) ?t else ?t)
        else map_option snd (run_handler env ?t (Ev_Timer e))) = Some u"
  proof -
    have s: "tsx_state (set_timer e ((get_timer e t)\<lparr>tm_running := None\<rparr>) t) = tsx_state t" by (cases e) simp_all
    have n: "\<not> PJSIP_TSX_STATE_DESTROYED \<le> tsx_state t" using st by (cases "tsx_state t") (simp_all add: tsx_state_order)
    from fire obtain u where "t' = u\<lparr>grp_refs := grp_refs u - 1\<rparr>"
      "tsx_timer_callback env e (set_timer e ((get_timer e t)\<lparr>tm_running := None\<rparr>) t) = Some u"
      by (auto simp: tsx_timer_fire_def)
    then show thesis using that timer [OF refl] n s by (simp add: tsx_timer_callback_def Let_def cong: if_cong)
  qed
  show ?thesis
  proof (cases t rule: state_cases)
    case 1
    have live: "live_tsx ?t" using inv_live [OF t 1] by (simp add: live_tsx_def)
    have "due (Ev_Timer e) ?t"
      using t by (cases e) (simp_all add: due_def tsx_inv_def armed_def needs_timeout_def)
    then have "handled ?t u"
      using run_handler_handled [OF env live] gone_handled [OF live] cb 1 by (fastforce split: if_splits)
    then show ?thesis using shift u handled_steps by blast
  next
    case 2
    then have x: "expiring t" using t by (simp add: tsx_inv_def armed_def)
    show ?thesis
    proof (cases "?id = TRANSPORT_ERR_TIMER \<or> ?id = TRANSPORT_DISC_TIMER")
      case True
      then have "e = Retransmit_Timer" using x by (cases e) (auto simp: expiring_def)
      moreover have "u = ?t" using True cb 2 by simp
      moreover have "\<not> has_flag TSX_HAS_PENDING_DESTROY t" using t 2 by (auto simp: tsx_inv_def)
      ultimately have "steps ?t u" using t 2 x
        by (simp add: steps_def armed_def needs_timeout_def role_ok_def tsx_inv_def)
      then show ?thesis using shift u by blast
    next
      case False
      then have r: "u = tsx_set_state env PJSIP_TSX_STATE_DESTROYED (Src_Timer e) {} ?t"
        using cb 2 by (simp add: run_handler_def tsx_state_handler_def tsx_on_state_terminated_def)
      have "other_grp_refs ?t = base + 1" using t 2 fired_refs [OF e] by (auto simp: tsx_inv_def)
      then have "tsx_inv (base + 1) u" unfolding r using t by (intro destroyed_inv [OF up]) (simp_all add: tsx_inv_def pend_inv_def)
      moreover have "tsx_state u = PJSIP_TSX_STATE_DESTROYED" unfolding r using t
        by (intro destroyed_spec(4) [OF up]) (simp add: tsx_inv_def pend_inv_def)
      ultimately show ?thesis using 2 unfolding u
        by (auto simp: tsx_inv_def armed_def needs_timeout_def destroyed_clean_def pend_defs refs_defs)
    qed
  next
    case 3
    then show ?thesis using st by simp
  qed
qed

lemma transport_callback_step:
  fixes sent
  assumes env: "env_ok env" and t: "tsx_inv base t" and out: "sends_out t > 0"
  defines "t' \<equiv> transport_callback env sent t"
  shows "steps t t' \<or> tsx_state t = PJSIP_TSX_STATE_DESTROYED \<and> tsx_state t' = PJSIP_TSX_STATE_DESTROYED \<and> tsx_inv base t'"
proof -
  have up: "env_layer_up env" using env by (simp add: env_ok_def)
  define u where "u = clear_flag TSX_HAS_PENDING_TRANSPORT (t\<lparr>sends_out := sends_out t - 1\<rparr>)"
  have core: "pend_core t" using t by (simp add: tsx_inv_def pend_inv_def)
  then have p: "pending_tx t = None" "sends_out t = 1" using out by (auto simp: pend_core_def)
  have u: "tsx_state u = tsx_state t" "tsx_role u = tsx_role t" "terminating u = terminating t" "method_id u = method_id t"
      "sends_out u = 0" "pending_tx u = None" "\<not> has_flag TSX_HAS_PENDING_TRANSPORT u" "status_code u = status_code t"
      "transport_flag u = transport_flag t - {TSX_HAS_PENDING_TRANSPORT}" "last_tx u = last_tx t" "tsx_transport u = tsx_transport t"
      "registered u = registered t" "runs e u = runs e t" "expiring u = expiring t" for e
    using p by (simp_all add: u_def)
  have o: "other_grp_refs u = other_grp_refs t + 1" using p by (simp add: u_def refs_defs)
  have c: "pend_core u" using core p by (auto simp: u_def pend_core_def)
  define v where "v = (if tsx_state u < PJSIP_TSX_STATE_COMPLETED
      then tsx_schedule_timer Timeout_Timer (Time_Val 0 0) TRANSPORT_ERR_TIMER (tsx_cancel_timer Timeout_Timer (u\<lparr>transport_err := sent\<rparr>))
      else u\<lparr>transport_err := sent\<rparr>)"
  define w where "w = (if sent = PJ_SUCCESS then send_pending env tsx_send_msg u else v)"
  have r: "t' = (if sent = PJ_SUCCESS \<and> has_flag TSX_HAS_PENDING_DESTROY u
      then tsx_set_state env PJSIP_TSX_STATE_DESTROYED Src_Unknown {} u else w\<lparr>grp_refs := grp_refs w - 1\<rparr>)"
    using up by (simp add: t'_def transport_callback_def u_def v_def w_def Let_def)
  have v: "tsx_state v = tsx_state t" "other_grp_refs v = other_grp_refs u" "pend_core v" "transport_err v = sent"
      "transport_flag v = transport_flag u" "status_code v = status_code u" "tsx_role v = tsx_role u" "terminating v = terminating u"
    using u(1) c by (simp_all add: v_def pend_core_def)
  show ?thesis
  proof (cases "tsx_state t \<le> PJSIP_TSX_STATE_TERMINATED")
    case True
    have nd: "\<not> has_flag TSX_HAS_PENDING_DESTROY u" using t True by (auto simp: tsx_inv_def u_def tsx_state_order)
    have a: "armed u" using t by (simp add: tsx_inv_def armed_def needs_timeout_def u)
    have role: "role_ok (tsx_role u) (tsx_state u)" using t by (simp add: tsx_inv_def u)
    have "steps u w"
    proof (cases "sent = PJ_SUCCESS")
      case ok: True
      have "evolves u w" "pend_inv w" "\<not> has_flag TSX_HAS_PENDING_DESTROY w"
        using send_pending_spec [OF c _ u(7,5) nd, where env = env and send = tsx_send_msg] tsx_send_msg_spec [OF env] True ok
        by (simp_all add: w_def u)
      then show ?thesis using True a role by (intro evolves_armed) (simp_all add: u)
    next
      case False
      have "armed v" using a by (auto simp: v_def armed_def needs_timeout_def tsx_state_order)
      moreover have "pend_inv v" using v(3,4) False by (simp add: pend_inv_def waits_after_error_def)
      ultimately show ?thesis using False v True nd role u by (simp add: steps_def w_def)
    qed
    then have "steps t (w\<lparr>grp_refs := grp_refs w - 1\<rparr>)" by (rule steps_shift) (simp_all add: u o)
    then show ?thesis using r nd by simp
  next
    case False
    then have d: "tsx_state t = PJSIP_TSX_STATE_DESTROYED" by (cases t rule: state_cases) simp_all
    then have cl: "destroyed_clean t" and b: "other_grp_refs t = base" and tm: "terminating t" using t p by (auto simp: tsx_inv_def)
    show ?thesis
    proof (cases "sent = PJ_SUCCESS \<and> has_flag TSX_HAS_PENDING_DESTROY u")
      case True
      then have t': "t' = tsx_set_state env PJSIP_TSX_STATE_DESTROYED Src_Unknown {} u" using r by simp
      have "tsx_inv (base + 1) t'" unfolding t' using o b by (intro destroyed_inv [OF up c]) simp
      moreover have "tsx_state t' = PJSIP_TSX_STATE_DESTROYED" "has_flag TSX_HAS_PENDING_DESTROY t'" "sends_out t' = 0" "pending_tx t' = None"
        using destroyed_spec [OF up c, of Src_Unknown] True u unfolding t' by simp_all
      ultimately show ?thesis using d by (auto simp: tsx_inv_def)
    next
      case no: False
      have "w = (if sent = PJ_SUCCESS then u else u\<lparr>transport_err := sent\<rparr>)"
        using cl d by (simp add: w_def v_def send_pending_def destroyed_clean_def u Let_def tsx_state_order)
      then have w: "tsx_state w = PJSIP_TSX_STATE_DESTROYED" "destroyed_clean w" "pend_core w" "other_grp_refs w = base + 1" "terminating w"
        using cl d c o b tm by (simp_all add: destroyed_clean_def u pend_core_def)
      have "t' = w\<lparr>grp_refs := grp_refs w - 1\<rparr>" using r no by simp
      then show ?thesis using w d
        by (simp add: tsx_inv_def armed_def needs_timeout_def role_ok_def destroyed_clean_def pend_defs refs_defs tsx_state_order)
    qed
  qed
qed

lemma sent_step:
  fixes st
  assumes env: "env_ok env" and t: "tsx_inv base t" and td: "td_mod_data t td"
  defines "t' \<equiv> fst (send_msg_callback env st td t)"
  shows "steps t t' \<or> tsx_state t = PJSIP_TSX_STATE_DESTROYED \<and> tsx_state t' = PJSIP_TSX_STATE_DESTROYED \<and> tsx_inv base t'"
proof (cases "tsx_state t \<le> PJSIP_TSX_STATE_TERMINATED")
  case True
  have up: "env_layer_up env" using env by (simp add: env_ok_def)
  have nd: "\<not> has_flag TSX_HAS_PENDING_DESTROY t" using t True by (auto simp: tsx_inv_def tsx_state_order)
  have "called_ok t t' \<or> t' = t"
    using send_msg_callback_spec [OF _ True nd up, of st td] t by (simp add: tsx_inv_def t'_def)
  then show ?thesis
  proof
    assume "called_ok t t'"
    then have "steps t t'" using t True by (intro evolves_armed) (simp_all add: called_ok_def tsx_inv_def)
    then show ?thesis ..
  qed (use steps_refl [OF t True] in simp)
next
  case False
  have up: "env_layer_up env" using env by (simp add: env_ok_def)
  have d: "tsx_state t = PJSIP_TSX_STATE_DESTROYED" using False by (cases t rule: state_cases) simp_all
  have core: "pend_core t" using t by (simp add: tsx_inv_def pend_inv_def)
  then have p: "pending_tx t = Some td" "has_flag TSX_HAS_PENDING_TRANSPORT t" "sends_out t = 0" using td by (auto simp: pend_core_def)
  then have pd: "has_flag TSX_HAS_PENDING_DESTROY t" and b: "other_grp_refs t = base" and tm: "terminating t"
    using t d by (auto simp: tsx_inv_def destroyed_clean_def)
  define u where "u = t\<lparr>grp_refs := grp_refs t - 1, td_mod_data := (td_mod_data t)(td := False), pending_tx := None\<rparr>"
  have u: "pend_core u" "other_grp_refs u = base" "tsx_state u = PJSIP_TSX_STATE_DESTROYED" "has_flag TSX_HAS_PENDING_DESTROY u"
    using core p b d pd by (auto simp: u_def pend_core_def refs_defs runs_def)
  have res: "pend_core (set_flag f (clear_flag TSX_HAS_PENDING_TRANSPORT v))" if "pend_core v" "pending_tx v = None" "sends_out v = 0"
      "f = TSX_HAS_RESOLVED_SERVER" for f v
    using that by (auto simp: pend_core_def)
  obtain v src where r: "t' = tsx_set_state env PJSIP_TSX_STATE_DESTROYED src {} v" and v: "pend_core v" "other_grp_refs v = base"
  proof (cases "send_result st = PJ_SUCCESS")
    case True
    define w where "w = (if tsx_transport u \<noteq> cur_transport st then
                   (let tsx = tsx_update_transport env (cur_transport st) u;
                        tsx = tsx\<lparr>addr_len := send_addr_len st\<rparr>
                    in tsx\<lparr>is_reliable := (case tsx_transport tsx of None \<Rightarrow> False | Some tp \<Rightarrow> env_tp_reliable env tp)\<rparr>)
                 else u)"
    have w: "pend_core w" "other_grp_refs w = base" "pending_tx w = None" "sends_out w = 0" "has_flag TSX_HAS_PENDING_DESTROY w"
    proof -
      have x: "other_grp_refs (z\<lparr>addr_len := a, is_reliable := c\<rparr>) = other_grp_refs z" for z a c by (simp add: refs_defs runs_def)
      show "pend_core w" "other_grp_refs w = base" "pending_tx w = None" "sends_out w = 0" "has_flag TSX_HAS_PENDING_DESTROY w"
        using u p by (auto simp: w_def Let_def pend_core_def x u_def)
    qed
    have "t' = tsx_set_state env PJSIP_TSX_STATE_DESTROYED Src_Unknown {} (set_flag TSX_HAS_RESOLVED_SERVER (clear_flag TSX_HAS_PENDING_TRANSPORT w))"
      using True td up w(5) by (simp add: t'_def send_msg_callback_def sent_to_server_def u_def [symmetric] w_def [symmetric] Let_def)
    moreover have "pend_core (set_flag TSX_HAS_RESOLVED_SERVER (clear_flag TSX_HAS_PENDING_TRANSPORT w))" using res [OF w(1,3,4) refl] .
    ultimately show ?thesis using that w(2) by simp
  next
    case False
    define w where "w = (if cur_transport st = tsx_transport u then tsx_update_transport env None u else u)"
    define sc where "sc = (if send_result st \<in> {PJ_ERESOLVE, PJLIB_UTIL_EDNS_NXDOMAIN} then PJSIP_SC_BAD_GATEWAY
                      else PJSIP_SC_TSX_TRANSPORT_ERROR)"
    define x where "x = tsx_set_status_code sc
        (set_flag TSX_HAS_RESOLVED_SERVER (clear_flag TSX_HAS_PENDING_TRANSPORT (w\<lparr>transport_err := send_result st\<rparr>)))"
    have w: "pend_core w" "other_grp_refs w = base" "pending_tx w = None" "sends_out w = 0" "tsx_state w = PJSIP_TSX_STATE_DESTROYED"
        "has_flag TSX_HAS_PENDING_DESTROY w"
      using u p by (simp_all add: w_def pend_core_def u_def)
    then have "has_flag TSX_HAS_PENDING_DESTROY x" "tsx_state x = PJSIP_TSX_STATE_DESTROYED" by (simp_all add: x_def)
    then have "t' = tsx_set_state env PJSIP_TSX_STATE_DESTROYED Src_Transport_Error {} x"
      using False td up w(5,6) by (simp add: t'_def send_msg_callback_def server_failed_def u_def [symmetric] w_def [symmetric] sc_def
          x_def Let_def)
    moreover have "pend_core x" "other_grp_refs x = base" using w by (auto simp: x_def pend_core_def)
    ultimately show ?thesis using that by blast
  qed
  have "tsx_inv base t'" unfolding r by (rule destroyed_inv [OF up v])
  moreover have "tsx_state t' = PJSIP_TSX_STATE_DESTROYED" unfolding r by (rule destroyed_spec(4) [OF up v(1)])
  ultimately show ?thesis using d by simp
qed

text \<open>The operations of the user that change the transaction without a handler.\<close>

lemma disconnected_step:
  assumes t: "tsx_inv base t" and "tsx_transport t \<noteq> None" and "status \<noteq> PJ_SUCCESS"
  shows "steps t (tsx_tp_state_callback status t)"
proof -
  have le: "tsx_state t \<le> PJSIP_TSX_STATE_TERMINATED"
    using assms by (cases t rule: state_cases) (auto simp: tsx_inv_def destroyed_clean_def)
  have "pend_inv t" using t by (simp add: tsx_inv_def)
  then have "pend_inv (t\<lparr>transport_err := status\<rparr>)" using assms(3) by (simp add: pend_defs)
  then have "pend_inv (tsx_tp_state_callback status t)" by (simp add: tsx_tp_state_callback_def Let_def)
  moreover have "armed (tsx_tp_state_callback status t)"
    using t by (auto simp: tsx_inv_def armed_def needs_timeout_def tsx_tp_state_callback_def Let_def tsx_state_order)
  moreover have "\<not> has_flag TSX_HAS_PENDING_DESTROY t" using t le by (auto simp: tsx_inv_def tsx_state_order)
  ultimately show ?thesis using t le by (simp add: steps_def tsx_inv_def)
qed

lemma terminate_step:
  assumes t: "tsx_inv base t"
  shows "steps t (snd (pjsip_tsx_terminate env t code)) \<or> snd (pjsip_tsx_terminate env t code) = t"
proof (cases "tsx_state t < PJSIP_TSX_STATE_TERMINATED")
  case True
  have "stays t (tsx_set_status_code code t)" using stays_refl [OF inv_live [OF t True]] by simp
  then show ?thesis using handled_terminated [OF inv_live [OF t True]] handled_steps by (auto simp: pjsip_tsx_terminate_def)
qed (simp add: pjsip_tsx_terminate_def)

lemma stop_retransmit_inv: "tsx_inv base t \<Longrightarrow> tsx_inv base (snd (pjsip_tsx_stop_retransmit t))"
  by (auto simp: pjsip_tsx_stop_retransmit_def tsx_inv_def destroyed_clean_def)

lemma set_transport_inv: "tsx_inv base t \<Longrightarrow> tsx_inv base (snd (pjsip_tsx_set_transport t sel))"
  by (auto simp: pjsip_tsx_set_transport_def tsx_inv_def destroyed_clean_def Let_def)

lemma set_timeout_step:
  assumes t: "tsx_inv base t" and lo: "tsx_state t < PJSIP_TSX_STATE_TERMINATED"
  shows "steps t (snd (pjsip_tsx_set_timeout t ms))"
proof -
  have "handled t (restart_timeout d t)" for d
    using stays_refl [OF inv_live [OF t lo]] by (intro handled_stays [OF inv_live [OF t lo]]) simp_all
  then show ?thesis using steps_refl [OF t less_imp_le [OF lo]] handled_steps by (simp add: pjsip_tsx_set_timeout_def)
qed

lemma retransmit_no_state_step:
  assumes env: "env_ok env" and t: "tsx_inv base t" and lo: "tsx_state t < PJSIP_TSX_STATE_TERMINATED"
    and r: "pjsip_tsx_retransmit_no_state env t td = Some (status, t')"
  shows "steps t t'"
proof -
  note live = inv_live [OF t lo]
  have "handled t (snd (tsx_send_msg env u td'))" if "u = t \<or> u = td_add_ref td' t" for u td'
    using that t stays_refl [OF live] by (intro send_handled [OF env live]) (auto simp: tsx_inv_def)
  then have "steps t (snd (tsx_send_msg env u td'))" if "u = t \<or> u = td_add_ref td' t" for u td' using that handled_steps by blast
  then show ?thesis using r
    by (auto simp: pjsip_tsx_retransmit_no_state_def Let_def split: option.splits prod.splits if_splits) (metis snd_conv)+
qed

lemma handle_200resp_inv: "tsx_inv base t \<Longrightarrow> tsx_inv base (t\<lparr>handle_200resp := b\<rparr>)"
  by (auto simp: tsx_inv_def destroyed_clean_def pend_defs armed_def needs_timeout_def)

section \<open>Runs\<close>

lemma stop_retransmit_state [simp]: "tsx_state (snd (pjsip_tsx_stop_retransmit t)) = tsx_state t"
  by (simp add: pjsip_tsx_stop_retransmit_def)

lemma set_transport_state [simp]: "tsx_state (snd (pjsip_tsx_set_transport t sel)) = tsx_state t"
  by (simp add: pjsip_tsx_set_transport_def Let_def)

lemma steps_keep:
  assumes "tsx_inv base t" and "tsx_state t \<noteq> PJSIP_TSX_STATE_DESTROYED" and "steps t t'"
  shows "tsx_inv base t' \<and> tsx_state t \<le> tsx_state t'"
proof -
  have "tsx_state t \<le> PJSIP_TSX_STATE_TERMINATED" using assms(2) by (cases t rule: state_cases) simp_all
  then show ?thesis using steps_inv [OF assms(1) _ assms(3)] assms(3) by (simp add: steps_def)
qed

lemma steps_not_destroyed: "steps t t' \<Longrightarrow> tsx_state t \<noteq> PJSIP_TSX_STATE_DESTROYED"
  by (auto simp: steps_def tsx_state_order)

lemma keep_steps: "tsx_inv base t \<Longrightarrow> steps t t' \<Longrightarrow> tsx_inv base t' \<and> tsx_state t \<le> tsx_state t'"
  using steps_keep steps_not_destroyed by blast

lemma step_inv:
  assumes "tsx_step t env t'" and "env_ok env" and "tsx_inv base t"
  shows "tsx_inv base t' \<and> tsx_state t \<le> tsx_state t'"
  using assms
proof (cases rule: tsx_step.cases)
  case (step_send td status)
  consider td' st u where "run_handler env t (Ev_Tx_Msg td') = Some (st, u)" "t' = (if st = PJ_SUCCESS then td_dec_ref td' u else u)"
      | "t' = t"
    using step_send by (auto simp: pjsip_tsx_send_msg_def split: option.splits)
  then show ?thesis
  proof cases
    case 1
    then show ?thesis using event_step [OF assms(2,3) _ _ 1(1)] keep_steps [OF assms(3), of t'] assms(3) by auto
  qed (use assms(3) in simp)
next
  case (step_recv rdata)
  then show ?thesis using event_step [OF assms(2,3), of "Ev_Rx_Msg rdata"] keep_steps [OF assms(3), of t'] assms(3)
    by (auto simp: pjsip_tsx_recv_msg_def)
next
  case (step_timer e)
  then show ?thesis using timer_step [OF assms(2,3), of e t'] keep_steps [OF assms(3), of t']
    by (auto simp: runs_def tsx_state_order)
next
  case (step_sent td st)
  then show ?thesis using sent_step [OF assms(2,3), of td st] keep_steps [OF assms(3), of t'] by auto
next
  case (step_transport sent)
  then show ?thesis using transport_callback_step [OF assms(2,3), of sent] keep_steps [OF assms(3), of t'] by auto
next
  case (step_disconnected status)
  then show ?thesis using disconnected_step [OF assms(3)] keep_steps [OF assms(3), of t'] by auto
next
  case (step_terminate code)
  then show ?thesis using terminate_step [OF assms(3), of env code] keep_steps [OF assms(3), of t'] assms(3) by auto
next
  case step_stop_retransmit
  then show ?thesis using stop_retransmit_inv [OF assms(3)] by simp
next
  case (step_set_timeout ms)
  then show ?thesis using set_timeout_step [OF assms(3), of ms] keep_steps [OF assms(3), of t'] by auto
next
  case (step_set_transport sel)
  then show ?thesis using set_transport_inv [OF assms(3), of sel] by simp
next
  case (step_retransmit td status)
  then show ?thesis using retransmit_no_state_step [OF assms(2,3), of td] keep_steps [OF assms(3), of t'] by auto
next
  case (step_handle_200resp b)
  then show ?thesis using handle_200resp_inv [OF assms(3), of b] by simp
qed

text \<open>A transaction as the user gets it, with a group lock that had \<open>refs\<close> references, and the runs from there.\<close>

inductive tsx_created :: "int \<Rightarrow> pjsip_transaction \<Rightarrow> bool" where
  created_uac: "pjsip_tsx_create_uac2 env (tsx_create user refs tds tps sels) td method has_cseq dest key_exists = (PJ_SUCCESS, Some t) \<Longrightarrow>
     tsx_created refs t"
| created_uas: "pjsip_tsx_create_uas2 env (tsx_create user refs tds tps sels) rq = (PJ_SUCCESS, Some t) \<Longrightarrow> tsx_created refs t"

inductive tsx_run :: "pjsip_transaction \<Rightarrow> pjsip_transaction \<Rightarrow> bool" for t0 where
  run_start: "tsx_run t0 t0"
| run_step: "tsx_run t0 t \<Longrightarrow> env_ok env \<Longrightarrow> tsx_step t env t' \<Longrightarrow> tsx_run t0 t'"

lemma tsx_create_frame [simp]:
  "tsx_state (tsx_create user refs tds tps sels r m) = PJSIP_TSX_STATE_NULL" "tsx_role (tsx_create user refs tds tps sels r m) = r"
  "\<not> runs e (tsx_create user refs tds tps sels r m)" "other_grp_refs (tsx_create user refs tds tps sels r m) = refs"
  "pend_inv (tsx_create user refs tds tps sels r m)" "\<not> terminating (tsx_create user refs tds tps sels r m)"
  "transport_flag (tsx_create user refs tds tps sels r m) = {}"
  by (cases e; simp add: tsx_create_def runs_def refs_defs pend_defs)+

lemma created_inv:
  assumes "tsx_created refs t"
  shows "tsx_inv refs t"
proof -
  have low: "tsx_inv refs u" if "tsx_state u = PJSIP_TSX_STATE_NULL" "pend_inv u" "other_grp_refs u = refs" "\<not> terminating u"
      "transport_flag u = {}" for u
    using that by (simp add: tsx_inv_def armed_def needs_timeout_def role_ok_def)
  have fields: "pend_inv (u\<lparr>registered := b\<rparr>) = pend_inv u" "other_grp_refs (u\<lparr>registered := b\<rparr>) = other_grp_refs u"
      "pend_inv (u\<lparr>is_reliable := b, registered := c\<rparr>) = pend_inv u" "other_grp_refs (u\<lparr>is_reliable := b, registered := c\<rparr>) = other_grp_refs u"
      "pend_inv (u\<lparr>last_tx := l, is_reliable := b, registered := c\<rparr>) = pend_inv u"
      "other_grp_refs (u\<lparr>last_tx := l, is_reliable := b, registered := c\<rparr>) = other_grp_refs u"
      "pend_inv (u\<lparr>res_addr_transport := p, res_addr_len := n\<rparr>) = pend_inv u"
      "other_grp_refs (u\<lparr>res_addr_transport := p, res_addr_len := n\<rparr>) = other_grp_refs u"
      "pend_inv (u\<lparr>is_reliable := b, res_addr_transport := p, res_addr_len := n, registered := c\<rparr>) = pend_inv u"
      "other_grp_refs (u\<lparr>is_reliable := b, res_addr_transport := p, res_addr_len := n, registered := c\<rparr>) = other_grp_refs u"
      "pend_inv (u\<lparr>is_reliable := b, addr_len := n, registered := c\<rparr>) = pend_inv u"
      "other_grp_refs (u\<lparr>is_reliable := b, addr_len := n, registered := c\<rparr>) = other_grp_refs u" for u b c l n p
    by (simp_all add: pend_defs refs_defs runs_def)
  from assms show ?thesis
    by (cases rule: tsx_created.cases)
      (auto simp: pjsip_tsx_create_uac2_def pjsip_tsx_create_uas2_def mod_tsx_layer_register_tsx_def Let_def fields update_transport_pend
        split: if_splits option.splits intro!: low)
qed

lemma run_inv:
  assumes "tsx_created refs t0" and "tsx_run t0 t"
  shows "tsx_inv refs t"
  using assms(2) by induction (use created_inv [OF assms(1)] step_inv in blast)+

end
