(* ===== verification/Sip_Tsx_Rise.thy ===== *)
theory Sip_Tsx_Rise
  imports Sip_Tsx_Runs
begin

text \<open>
  The states of the SIP transaction within one event: whatever calls of \<^verbatim>\<open>tsx_set_state\<close> an event makes, in sends, callbacks and
  handlers, each is given a state that is at least the one before, which is what \<^verbatim>\<open>tsx_set_state\<close> asserts.
\<close>

section \<open>States that climb\<close>

text \<open>From \<open>t\<close> to \<open>u\<close> the transaction was given states, each at least the one before, and the last is the one it has.\<close>

definition climbs :: "pjsip_transaction \<Rightarrow> pjsip_transaction \<Rightarrow> bool" where
  "climbs t u \<longleftrightarrow> (\<exists>ss. tsx_states u = tsx_states t @ ss \<and> sorted (tsx_state t # ss) \<and> tsx_state u = last (tsx_state t # ss))"

lemma climbs_refl [simp]: "climbs t t"
  by (simp add: climbs_def)

lemma climbs_le: "climbs t u \<Longrightarrow> tsx_state t \<le> tsx_state u"
  by (auto simp: climbs_def)

lemma climbs_push:
  assumes "climbs t u" "tsx_state u \<le> s" "tsx_state v = s" "tsx_states v = tsx_states u @ [s]"
  shows "climbs t v"
proof -
  obtain ss where ss: "tsx_states u = tsx_states t @ ss" "sorted (tsx_state t # ss)" "tsx_state u = last (tsx_state t # ss)"
    using assms(1) by (auto simp: climbs_def)
  have "x \<le> last (tsx_state t # ss)" if "x \<in> set (tsx_state t # ss)" for x
    using ss(2) that by (metis in_set_conv_nth last_conv_nth length_greater_0_conv less_Suc_eq_le One_nat_def Suc_pred diff_less
        length_pos_if_in_set zero_less_one sorted_nth_mono)
  then have "\<forall>x\<in>set (tsx_state t # ss). x \<le> s" using ss(3) assms(2) by (metis order_trans)
  then have "sorted (tsx_state t # ss @ [s])" using ss(2) by (auto simp: sorted_append)
  then show ?thesis using ss(1) assms(3,4) by (auto simp: climbs_def intro!: exI [of _ "ss @ [s]"])
qed

lemma climbs_sorted: "climbs t u \<Longrightarrow> sorted (tsx_states t) \<Longrightarrow> tsx_states t \<noteq> [] \<Longrightarrow> last (tsx_states t) = tsx_state t
    \<Longrightarrow> sorted (tsx_states u) \<and> tsx_states u \<noteq> [] \<and> last (tsx_states u) = tsx_state u"
proof -
  assume c: "climbs t u" and s: "sorted (tsx_states t)" "tsx_states t \<noteq> []" "last (tsx_states t) = tsx_state t"
  obtain xs where xs: "tsx_states t = xs @ [tsx_state t]" using s(2,3) by (metis append_butlast_last_id)
  obtain ss where ss: "tsx_states u = tsx_states t @ ss" "sorted (tsx_state t # ss)" "tsx_state u = last (tsx_state t # ss)"
    using c by (auto simp: climbs_def)
  have "sorted (xs @ tsx_state t # ss)" using s(1) ss(2) unfolding xs by (fastforce simp: sorted_append)
  then show ?thesis using ss(1,3) xs by simp
qed

section \<open>Frame\<close>

lemma states_timers [simp]:
  "tsx_states (tsx_schedule_timer e d i t) = tsx_states t" "tsx_states (tsx_cancel_timer e t) = tsx_states t"
  "tsx_states (restart_timeout d t) = tsx_states t" "tsx_states (set_timer e m t) = tsx_states t" "tsx_state (set_timer e m t) = tsx_state t"
  by (cases e; simp add: tsx_schedule_timer_def tsx_cancel_timer_def restart_timeout_def)+

lemma states_small [simp]:
  "tsx_states (td_add_ref td t) = tsx_states t" "tsx_states (td_dec_ref td t) = tsx_states t"
  "tsx_states (tsx_set_status_code n t) = tsx_states t" "tsx_states (tpselector_ref k sel t) = tsx_states t"
  "tsx_states (mod_tsx_layer_unregister_tsx env t) = tsx_states t" "tsx_states (tsx_tp_state_callback st t) = tsx_states t"
  by (simp_all add: td_add_ref_def td_dec_ref_def tsx_set_status_code_def tpselector_ref_def mod_tsx_layer_unregister_tsx_def
      tsx_tp_state_callback_def Let_def split: option.split)

lemma states_mid [simp]:
  "tsx_states (tsx_update_transport env tp t) = tsx_states t" "tsx_states (notify_user p src fl t) = tsx_states t"
  "tsx_states (enter_terminated fl t) = tsx_states t" "tsx_states (tsx_resched_retransmission env t) = tsx_states t"
  "tsx_states (save_last_tx td t) = tsx_states t" "tsx_states (discard_last_tx td t) = tsx_states t"
  "tsx_states (start_retransmit d t) = tsx_states t" "tsx_states (keep_ack env t) = tsx_states t"
  by (simp_all add: tsx_update_transport_def notify_user_def enter_terminated_def tsx_resched_retransmission_def save_last_tx_def
      discard_last_tx_def start_retransmit_def keep_ack_def Let_def
      split: option.split event_src.split pjsip_rx_msg.split)

lemma states_shutdown [simp]: "tsx_states (tsx_shutdown env t) = tsx_states t"
  by (simp add: tsx_shutdown_def Let_def split: option.split)

lemma states_set_state [simp]:
  "tsx_states (tsx_set_state env s src fl t) = tsx_states t @ [s]" "tsx_state (tsx_set_state env s src fl t) = s"
  by (simp_all add: tsx_set_state_def Let_def)

lemma climbs_set_state: "climbs t0 t \<Longrightarrow> tsx_state t \<le> s \<Longrightarrow> climbs t0 (tsx_set_state env s src fl t)"
  by (rule climbs_push [of t0 t s]) simp_all

text \<open>A transaction that has climbed and is not about to be destroyed, as all sends find it.\<close>

definition ready :: "pjsip_transaction \<Rightarrow> pjsip_transaction \<Rightarrow> bool" where
  "ready t u \<longleftrightarrow> climbs t u \<and> tsx_state u \<le> PJSIP_TSX_STATE_TERMINATED \<and> \<not> has_flag TSX_HAS_PENDING_DESTROY u"

lemma ready_cong:
  assumes "tsx_states v = tsx_states u" "tsx_state v = tsx_state u" "has_flag TSX_HAS_PENDING_DESTROY v = has_flag TSX_HAS_PENDING_DESTROY u"
  shows "ready t v = ready t u"
  using assms by (simp add: ready_def climbs_def)

lemma ready_ops [simp]:
  "ready t (tsx_schedule_timer e d i u) = ready t u" "ready t (tsx_cancel_timer e u) = ready t u" "ready t (restart_timeout d u) = ready t u"
  "ready t (td_add_ref td u) = ready t u" "ready t (td_dec_ref td u) = ready t u" "ready t (tsx_set_status_code n u) = ready t u"
  "ready t (tpselector_ref k sel u) = ready t u" "ready t (tsx_tp_state_callback st u) = ready t u"
  "ready t (tsx_update_transport env tp u) = ready t u" "ready t (tsx_resched_retransmission env u) = ready t u"
  "ready t (save_last_tx td u) = ready t u" "ready t (discard_last_tx td u) = ready t u" "ready t (start_retransmit d u) = ready t u"
  "ready t (keep_ack env u) = ready t u"
  by (rule ready_cong; simp)+

lemma ready_fields [simp]:
  "ready t (u\<lparr>grp_refs := a\<rparr>) = ready t u" "ready t (u\<lparr>sends_out := b\<rparr>) = ready t u" "ready t (u\<lparr>tsx_log := c\<rparr>) = ready t u"
  "ready t (u\<lparr>pending_tx := d\<rparr>) = ready t u" "ready t (u\<lparr>last_tx := d\<rparr>) = ready t u" "ready t (u\<lparr>td_mod_data := e\<rparr>) = ready t u"
  "ready t (u\<lparr>is_reliable := g\<rparr>) = ready t u" "ready t (u\<lparr>addr_len := b\<rparr>) = ready t u" "ready t (u\<lparr>res_addr_transport := d\<rparr>) = ready t u"
  "ready t (u\<lparr>res_addr_len := b\<rparr>) = ready t u" "ready t (u\<lparr>transport_err := h\<rparr>) = ready t u" "ready t (u\<lparr>retransmit_count := b\<rparr>) = ready t u"
  "ready t (u\<lparr>tp_sel := d\<rparr>) = ready t u" "ready t (u\<lparr>handle_200resp := g\<rparr>) = ready t u"
  by (rule ready_cong; simp)+

lemma ready_flags [simp]:
  "TSX_HAS_PENDING_DESTROY \<notin> fl - transport_flag u \<Longrightarrow> ready t u \<Longrightarrow> ready t (u\<lparr>transport_flag := fl\<rparr>)"
  by (auto simp: ready_def climbs_def)

lemma ready_set_timer [simp]: "ready t (set_timer e m u) = ready t u"
  by (cases e; rule ready_cong; simp)

lemma ready_set_state:
  assumes "ready t u" "tsx_state u \<le> s" "s \<le> PJSIP_TSX_STATE_TERMINATED"
  shows "ready t (tsx_set_state env s src fl u)"
proof -
  have "s \<noteq> PJSIP_TSX_STATE_DESTROYED" using assms(3) by (auto simp: tsx_state_order)
  then have "\<not> has_flag TSX_HAS_PENDING_DESTROY (tsx_set_state env s src fl u)"
    using assms(1) by (simp add: ready_def tsx_set_state_def Let_def)
  then show ?thesis using assms climbs_set_state by (simp add: ready_def)
qed

lemma ready_terminated: "ready t u \<Longrightarrow> ready t (tsx_set_state env PJSIP_TSX_STATE_TERMINATED src fl u)"
  by (rule ready_set_state) (simp_all add: ready_def)

section \<open>Sends\<close>

lemma ready_send_on_transport: "send_on_transport env u td = (d, s, v) \<Longrightarrow> ready t u \<Longrightarrow> ready t v"
  by (auto simp: send_on_transport_def Let_def split: option.splits if_splits)

lemma ready_send_by:
  assumes "\<And>v. ready t v \<Longrightarrow> ready t (snd (send_stateless cb env v td))" "ready t u"
  shows "ready t (snd (tsx_send_msg_by cb env u td))"
  using assms ready_send_on_transport [of env u td]
  by (auto simp: tsx_send_msg_by_def Let_def ready_terminated split: prod.split option.split)

lemma ready_run_callbacks:
  assumes "\<And>st v. ready t v \<Longrightarrow> ready t (fst (cb st v))"
  shows "ready t u \<Longrightarrow> ready t (run_send_callbacks cb sts u)"
proof (induction sts arbitrary: u)
  case (Cons st sts)
  then show ?case using assms [of u st] by (auto simp: Let_def split: prod.split)
qed simp

lemma ready_stateless:
  assumes "\<And>st v. ready t v \<Longrightarrow> ready t (fst (cb env st td v))" "ready t u"
  shows "ready t (snd (send_stateless cb env u td))"
proof -
  obtain sts st where e: "env_endpt_send env td = (sts, st)" by fastforce
  have "ready t (run_send_callbacks (\<lambda>st. cb env st td) sts v)" if "ready t v" for v
    using ready_run_callbacks [of t "\<lambda>st. cb env st td"] assms(1) that by blast
  then show ?thesis using assms(2) by (simp add: send_stateless_def Let_def e)
qed

lemma ready_send_resolved: "ready t u \<Longrightarrow> ready t (snd (send_resolved env u td))"
  unfolding send_resolved_def by (rule ready_send_by) (rule ready_stateless; simp)

lemma ready_send_pending:
  assumes "\<And>v td. ready t v \<Longrightarrow> ready t (snd (send env v td))" "ready t u"
  shows "ready t (send_pending env send u)"
  using assms by (auto simp: send_pending_def Let_def split: option.split)

lemma ready_sent_to_server: "ready t u \<Longrightarrow> ready t (sent_to_server env st u)"
proof -
  assume u: "ready t u"
  have "ready t (send_pending env send_resolved v)" if "ready t v" for v
    using that ready_send_resolved by (intro ready_send_pending)
  moreover have "\<not> has_flag TSX_HAS_PENDING_DESTROY u" using u by (simp add: ready_def)
  ultimately show ?thesis using u by (simp add: sent_to_server_def Let_def)
qed

lemma ready_server_failed: "ready t u \<Longrightarrow> ready t (server_failed env st td u)"
proof -
  assume u: "ready t u"
  then have "\<not> has_flag TSX_HAS_PENDING_DESTROY u" by (simp add: ready_def)
  then show ?thesis using u by (simp add: server_failed_def Let_def ready_terminated)
qed

lemma ready_callback: "ready t u \<Longrightarrow> ready t (fst (send_msg_callback env st td u))"
  by (simp add: send_msg_callback_def Let_def ready_sent_to_server ready_server_failed)

lemma ready_send: "ready t u \<Longrightarrow> ready t (snd (tsx_send_msg env u td))"
  unfolding tsx_send_msg_def by (rule ready_send_by) (rule ready_stateless; simp add: ready_callback)

lemma ready_retransmit: "ready t u \<Longrightarrow> ready t (snd (tsx_retransmit env r u))"
  by (auto simp: tsx_retransmit_def Let_def ready_send split: option.split)

text \<open>The callback of the stateless sender reaches a transaction that was destroyed only to destroy it again.\<close>

lemma climbs_cong: "tsx_states v = tsx_states u \<Longrightarrow> tsx_state v = tsx_state u \<Longrightarrow> climbs t v = climbs t u"
  by (simp add: climbs_def)

lemma destroyed_callback:
  assumes "tsx_state t = PJSIP_TSX_STATE_DESTROYED" "has_flag TSX_HAS_PENDING_DESTROY t"
  shows "climbs t (fst (send_msg_callback env st td t))"
proof -
  have again: "climbs t (tsx_set_state env PJSIP_TSX_STATE_DESTROYED src {} v)"
    if "tsx_states v = tsx_states t" "tsx_state v = tsx_state t" for v src
    using climbs_set_state [of t v] climbs_cong [OF that] climbs_refl assms(1) that by simp
  have "climbs t (sent_to_server env st u)" "climbs t (server_failed env st td u)"
    if "tsx_states u = tsx_states t" "tsx_state u = tsx_state t" "transport_flag u = transport_flag t" for u
    using assms that again by (simp_all add: sent_to_server_def server_failed_def Let_def)
  then show ?thesis by (simp add: send_msg_callback_def Let_def)
qed

section \<open>Handlers\<close>

text \<open>A send that succeeds leaves the state of a live transaction, so what a handler sets after it is no lower.\<close>

lemma send_state:
  assumes "env_ok env" "live_tsx u" "tsx_send_msg env u td = (PJ_SUCCESS, v)"
  shows "tsx_state v = tsx_state u"
  using send_stays(1) [OF assms(1,2) stays_refl [OF assms(2)], of td] assms(3) by (simp add: stays_def)

lemma live_frame [simp]:
  "live_tsx (tsx_schedule_timer e d i u) = live_tsx u" "live_tsx (tsx_cancel_timer e u) = live_tsx u"
  "live_tsx (restart_timeout d u) = live_tsx u" "live_tsx (tsx_set_status_code n u) = live_tsx u"
  "live_tsx (save_last_tx td u) = live_tsx u" "live_tsx (discard_last_tx td u) = live_tsx u"
  "live_tsx (clear_flag TSX_HAS_PENDING_RESCHED u) = live_tsx u"
  by (simp_all add: live_tsx_def)

lemma null_ready:
  assumes "env_ok env" "live_tsx u" "tsx_state u = PJSIP_TSX_STATE_NULL" "ready t u"
  shows "ready t (snd (tsx_on_state_null env u event))"
proof (cases "tsx_role u = PJSIP_ROLE_UAC \<and> (\<exists>td. event = Ev_Tx_Msg td)")
  case True
  then obtain td where td: "event = Ev_Tx_Msg td" by blast
  let ?v = "save_last_tx td (discard_last_tx td u)"
  obtain st w where w: "tsx_send_msg env ?v td = (st, w)" by fastforce
  have r: "ready t w" using ready_send [of t ?v env td] assms(4) w by simp
  have "tsx_state w = PJSIP_TSX_STATE_NULL" if "st = PJ_SUCCESS" using send_state [OF assms(1) _ w [unfolded that]] assms(2,3) by simp
  then have "ready t (tsx_set_state env PJSIP_TSX_STATE_CALLING src {} x)" if "st = PJ_SUCCESS" "ready t x" "tsx_state x = tsx_state w" for x src
    using that by (intro ready_set_state) (simp_all add: tsx_state_order)
  then show ?thesis using True r by (simp add: tsx_on_state_null_def td w Let_def)
next
  case False
  have "ready t (tsx_set_state env PJSIP_TSX_STATE_TRYING src {} u)" for src
    using assms(3,4) by (intro ready_set_state) (simp_all add: tsx_state_order)
  then show ?thesis using False assms(4)
    by (cases "tsx_role u") (auto simp: tsx_on_state_null_def split: pjsip_event.split)
qed

lemma uac_failure_ready:
  assumes "env_ok env" "live_tsx u" "tsx_state u \<le> PJSIP_TSX_STATE_COMPLETED" "ready t u"
  shows "ready t (snd (uac_failure_response env u src))"
proof -
  let ?v = "tsx_cancel_timer Timeout_Timer (tsx_cancel_timer Retransmit_Timer u)"
  obtain st w where w: "send_ack env ?v = (st, w)" by fastforce
  have "ready t (snd (send_ack env ?v))" using assms(4) by (simp add: send_ack_def ready_send split: prod.split)
  then have "ready t w" using w by simp
  moreover have "tsx_state w \<le> PJSIP_TSX_STATE_COMPLETED" if "st = PJ_SUCCESS"
    using w that assms(2,3) send_state [OF assms(1), of ?v] by (auto simp: send_ack_def split: if_splits prod.splits)
  ultimately show ?thesis
    by (simp add: uac_failure_response_def w Let_def ready_set_state tsx_state_order)
qed

lemma uac_success_ready:
  "ready t u \<Longrightarrow> tsx_state u \<le> PJSIP_TSX_STATE_COMPLETED \<Longrightarrow> ready t (snd (uac_success_response env u src))"
  by (simp add: uac_success_response_def Let_def ready_terminated ready_set_state tsx_state_order)

lemma proceeding_uac_ready:
  assumes "env_ok env" "live_tsx u" "tsx_state u \<le> PJSIP_TSX_STATE_PROCEEDING" "ready t u"
  shows "ready t (snd (tsx_on_state_proceeding_uac env u event))"
proof -
  have c: "tsx_state u \<le> PJSIP_TSX_STATE_COMPLETED" using assms(3) by (simp add: tsx_state_order)
  have "ready t (tsx_set_state env PJSIP_TSX_STATE_PROCEEDING src {} (tsx_set_status_code n u))" for src n
    using assms(3,4) by (intro ready_set_state) (simp_all add: tsx_state_order)
  moreover have "ready t (snd (uac_failure_response env (tsx_set_status_code n u) src))" for n src
    using assms c by (intro uac_failure_ready) simp_all
  moreover have "ready t (snd (uac_success_response env (tsx_set_status_code n u) src))" for n src
    using assms c by (intro uac_success_ready) simp_all
  ultimately show ?thesis using assms(4) ready_retransmit [of t u env True] ready_terminated
    by (simp add: tsx_on_state_proceeding_uac_def Let_def split: pjsip_event.split pjsip_rx_msg.split tsx_timer_name.split)
qed

lemma calling_ready:
  assumes "env_ok env" "live_tsx u" "tsx_state u = PJSIP_TSX_STATE_CALLING" "ready t u"
  shows "ready t (snd (tsx_on_state_calling env u event))"
proof -
  have le: "PJSIP_TSX_STATE_CALLING \<le> PJSIP_TSX_STATE_PROCEEDING" by (simp add: tsx_state_order)
  have *: "ready t (snd (tsx_on_state_proceeding_uac env (v\<lparr>transport_flag := fl\<rparr>) ev))"
    if "live_tsx v" "tsx_state v = PJSIP_TSX_STATE_CALLING" "ready t v" "fl = transport_flag v - {TSX_HAS_PENDING_RESCHED}" for v fl ev
    unfolding that(4) using that(1-3) by (intro proceeding_uac_ready assms(1)) (auto simp: le)
  show ?thesis using assms(2-4) ready_retransmit [of t u env True]
    by (auto simp: tsx_on_state_calling_def Let_def ready_terminated * split: pjsip_event.split pjsip_rx_msg.split tsx_timer_name.split)
qed

lemma uas_ready:
  assumes "tsx_state v \<le> PJSIP_TSX_STATE_PROCEEDING" "ready t v"
  shows "ready t (uas_provisional env v td)" "ready t (uas_success env v td)" "ready t (uas_failure env v td)"
  using assms
  by (simp_all add: uas_provisional_def uas_success_def uas_failure_def Let_def ready_terminated ready_set_state tsx_state_order)

lemma proceeding_uas_ready:
  assumes "env_ok env" "live_tsx u" "tsx_state u \<le> PJSIP_TSX_STATE_PROCEEDING" "ready t u"
  shows "ready t (snd (tsx_on_state_proceeding_uas env u event))"
proof (cases event)
  case (Ev_Tx_Msg td)
  let ?v = "discard_last_tx td (tsx_set_status_code (td_code (env_tdata env td)) u)"
  obtain st w where w: "tsx_send_msg env ?v td = (st, w)" by fastforce
  have "ready t w" using ready_send [of t ?v env td] assms(4) w by simp
  moreover have "tsx_state w \<le> PJSIP_TSX_STATE_PROCEEDING" if "st = PJ_SUCCESS"
    using send_state [OF assms(1) _ w [unfolded that]] assms(2,3) by simp
  ultimately show ?thesis using assms(4)
    by (simp add: tsx_on_state_proceeding_uas_def Ev_Tx_Msg w Let_def uas_ready)
qed (use assms(4) ready_retransmit [of t u env True] ready_send [of t u env] ready_terminated in
    \<open>auto simp: tsx_on_state_proceeding_uas_def split: pjsip_rx_msg.split tsx_timer_name.split option.split\<close>)

lemma trying_ready:
  assumes "env_ok env" "live_tsx u" "tsx_state u = PJSIP_TSX_STATE_TRYING" "ready t u"
  shows "ready t (snd (tsx_on_state_trying env u event))"
proof -
  have "ready t (snd (tsx_on_state_proceeding_uas env u event))"
    using assms by (intro proceeding_uas_ready) (simp_all add: tsx_state_order)
  moreover have "ready t (tsx_set_state env PJSIP_TSX_STATE_PROCEEDING src {} v)" if "ready t v" "tsx_state v = PJSIP_TSX_STATE_TRYING" for v src
    using that by (intro ready_set_state) (simp_all add: tsx_state_order)
  ultimately show ?thesis using assms(4)
    by (auto simp: tsx_on_state_trying_def split: pjsip_event.split prod.split)
qed

lemma completed_ready:
  assumes "tsx_state u \<le> PJSIP_TSX_STATE_CONFIRMED" "ready t u"
  shows "ready t (snd (tsx_on_state_completed_uas env u event))" "ready t (snd (tsx_on_state_completed_uac env u event))"
    "ready t (snd (tsx_on_state_confirmed env u event))"
proof -
  have "ready t (tsx_set_state env PJSIP_TSX_STATE_CONFIRMED src {} v)" if "tsx_state v = tsx_state u" "ready t v" for v src
    using that assms(1) by (intro ready_set_state) (simp_all add: tsx_state_order)
  then show "ready t (snd (tsx_on_state_completed_uas env u event))" "ready t (snd (tsx_on_state_completed_uac env u event))"
    "ready t (snd (tsx_on_state_confirmed env u event))"
    using assms(2) ready_retransmit [OF assms(2)] ready_terminated
    by (auto simp: tsx_on_state_completed_uas_def tsx_on_state_completed_uac_def tsx_on_state_confirmed_def Let_def
        split: pjsip_event.split pjsip_rx_msg.split tsx_timer_name.split)
qed

lemma run_handler_ready:
  assumes "env_ok env" "live_tsx u" "ready t u" "run_handler env u event = Some (st, v)"
  shows "ready t v"
proof -
  have up: "tsx_state u = s \<Longrightarrow> s \<le> s' \<Longrightarrow> tsx_state u \<le> s'" for s s' by simp
  have "\<exists>h. tsx_state_handler (tsx_role u) (tsx_state u) = Some h \<and> v = snd (h env u event)"
    using assms(4) by (auto simp: run_handler_def)
  then show ?thesis
    using null_ready [OF assms(1,2) _ assms(3), of event] calling_ready [OF assms(1,2) _ assms(3), of event]
      trying_ready [OF assms(1,2) _ assms(3), of event] proceeding_uac_ready [OF assms(1,2) _ assms(3), of event]
      proceeding_uas_ready [OF assms(1,2) _ assms(3), of event] completed_ready [OF _ assms(3), of env event] assms(2)
    by (cases "tsx_state u") (auto simp: tsx_state_handler_def live_tsx_def tsx_state_order split: if_splits)
qed

section \<open>Steps\<close>

lemma inv_ready:
  assumes "tsx_inv base t" "tsx_state t \<le> PJSIP_TSX_STATE_TERMINATED"
  shows "ready t t"
  using assms by (auto simp: ready_def tsx_inv_def tsx_state_order)

lemma ready_climbs: "ready t u \<Longrightarrow> climbs t u"
  by (simp add: ready_def)

lemma event_climbs:
  assumes "env_ok env" "tsx_inv base t" "\<forall>e. event \<noteq> Ev_Timer e" "run_handler env t event = Some (st, u)"
  shows "climbs t u"
proof (cases t rule: state_cases)
  case 1
  then show ?thesis
    using run_handler_ready [OF assms(1) inv_live [OF assms(2) 1] inv_ready [OF assms(2)] assms(4)] ready_climbs by simp
qed (use assms(3,4) in \<open>auto simp: run_handler_def tsx_state_handler_def tsx_on_state_terminated_def tsx_on_state_destroyed_def
      split: pjsip_event.splits\<close>)

lemma fired_states [simp]: "tsx_states (fired e t) = tsx_states t"
  by (cases e; simp add: fired_def)

lemma gone_ready:
  assumes "ready t u"
  shows "ready t (transport_gone env disc u)"
proof -
  have fl: "ready t (v\<lparr>transport_flag := {}, addr_len := 0, res_addr_transport := None, res_addr_len := 0\<rparr>)" if "ready t v" for v
    using that by (simp add: ready_def climbs_def)
  show ?thesis using assms by (simp add: transport_gone_def Let_def ready_terminated fl split: option.split)
qed

lemma timer_climbs:
  assumes env: "env_ok env" and t: "tsx_inv base t" and fire: "tsx_timer_fire env e t = Some t'"
  shows "climbs t t'"
proof -
  let ?u = "set_timer e ((get_timer e t)\<lparr>tm_running := None\<rparr>) t" and ?f = "fired e t"
  have f: "set_timer e ((get_timer e ?u)\<lparr>tm_id := TIMER_INACTIVE\<rparr>) ?u = ?f" by (cases e) (simp_all add: fired_def)
  have s: "tsx_state ?u = tsx_state t" by (cases e) simp_all
  obtain v where v: "tsx_timer_callback env e ?u = Some v" "t' = v\<lparr>grp_refs := grp_refs v - 1\<rparr>"
    using fire by (auto simp: tsx_timer_fire_def)
  have rdy: "ready t ?f" if "tsx_state t \<le> PJSIP_TSX_STATE_TERMINATED"
    using inv_ready [OF t that] by (simp add: fired_def)
  consider "v = ?u" | "v = ?f" | b where "v = transport_gone env b ?f" "tsx_state t < PJSIP_TSX_STATE_TERMINATED"
    | st where "run_handler env ?f (Ev_Timer e) = Some (st, v)" "tsx_state t < PJSIP_TSX_STATE_DESTROYED"
    using v(1) f s by (auto simp: tsx_timer_callback_def Let_def not_le split: if_splits)
  then have "climbs t v"
  proof cases
    case 3
    then show ?thesis using gone_ready [OF rdy] ready_climbs by simp
  next
    case (4 st)
    then consider "tsx_state t < PJSIP_TSX_STATE_TERMINATED" | "tsx_state t = PJSIP_TSX_STATE_TERMINATED"
      by (cases t rule: state_cases) auto
    then show ?thesis
    proof cases
      case 1
      then have "live_tsx ?f" using inv_live [OF t] by (simp add: live_tsx_def)
      then show ?thesis using run_handler_ready [OF env _ rdy 4(1)] 1 ready_climbs by simp
    next
      case 2
      then have "v = tsx_set_state env PJSIP_TSX_STATE_DESTROYED (Src_Timer e) {} ?f"
        using 4(1) by (simp add: run_handler_def tsx_state_handler_def tsx_on_state_terminated_def)
      moreover have "climbs t ?f" by (simp add: climbs_def)
      ultimately show ?thesis using 2 climbs_set_state [of t ?f] by (simp add: tsx_state_order)
    qed
  qed (simp_all add: climbs_def)
  then show ?thesis unfolding v(2) by (simp add: climbs_def)
qed

lemma transport_callback_climbs:
  assumes env: "env_ok env" and t: "tsx_inv base t"
  shows "climbs t (transport_callback env sent t)"
proof (cases "tsx_state t \<le> PJSIP_TSX_STATE_TERMINATED")
  case True
  then have r: "ready t t" using inv_ready [OF t] by simp
  then have "\<not> has_flag TSX_HAS_PENDING_DESTROY t" by (simp add: ready_def)
  moreover have "ready t (send_pending env tsx_send_msg u)" if "ready t u" for u
    using that ready_send by (intro ready_send_pending)
  ultimately show ?thesis using r by (intro ready_climbs) (simp add: transport_callback_def Let_def)
next
  case False
  then have d: "tsx_state t = PJSIP_TSX_STATE_DESTROYED" by (cases t rule: state_cases) simp_all
  then have cl: "destroyed_clean t" using t by (simp add: tsx_inv_def)
  have again: "climbs t (tsx_set_state env PJSIP_TSX_STATE_DESTROYED src {} v)"
    if "tsx_states v = tsx_states t" "tsx_state v = tsx_state t" for v src
    using climbs_set_state [of t v] climbs_cong [OF that] climbs_refl d that by simp
  have same: "climbs t v" if "tsx_states v = tsx_states t" "tsx_state v = tsx_state t" for v
    using that by (simp add: climbs_def)
  show ?thesis using d cl
    by (auto simp: transport_callback_def Let_def destroyed_clean_def send_pending_def tsx_state_order intro: again same)
qed

lemma sent_climbs:
  assumes env: "env_ok env" and t: "tsx_inv base t" and td: "td_mod_data t td"
  shows "climbs t (fst (send_msg_callback env st td t))"
proof (cases "tsx_state t \<le> PJSIP_TSX_STATE_TERMINATED")
  case True
  then show ?thesis using ready_climbs ready_callback inv_ready [OF t] by blast
next
  case False
  then have d: "tsx_state t = PJSIP_TSX_STATE_DESTROYED" by (cases t rule: state_cases) simp_all
  have "has_flag TSX_HAS_PENDING_TRANSPORT t" using t td by (auto simp: tsx_inv_def pend_inv_def pend_core_def)
  then have "has_flag TSX_HAS_PENDING_DESTROY t" using t d by (simp add: tsx_inv_def destroyed_clean_def)
  then show ?thesis by (rule destroyed_callback [OF d])
qed

text \<open>Sending once more, and a new timeout, also for a transaction that has terminated.\<close>

lemma retransmit_no_state_climbs:
  assumes "tsx_inv base t" "tsx_state t \<le> PJSIP_TSX_STATE_TERMINATED" "pjsip_tsx_retransmit_no_state env t td = Some (status, t')"
  shows "climbs t t'"
proof -
  have r: "ready t (snd (tsx_send_msg env u d))" if "ready t u" for u d by (rule ready_send [OF that])
  then have "ready t t'" using assms(3) inv_ready [OF assms(1,2)] r [of t] r [of "td_add_ref d t" for d]
    by (auto simp: pjsip_tsx_retransmit_no_state_def Let_def split: option.splits prod.splits if_splits) (metis ready_ops(4) snd_conv)+
  then show ?thesis by (rule ready_climbs)
qed

lemma set_timeout_climbs: "climbs t (snd (pjsip_tsx_set_timeout t ms))"
  by (simp add: pjsip_tsx_set_timeout_def climbs_def)

lemma step_climbs:
  assumes "tsx_step t env t'" "env_ok env" "tsx_inv base t"
  shows "climbs t t'"
  using assms
proof (cases rule: tsx_step.cases)
  case (step_send td status)
  have "climbs t (td_dec_ref d u) = climbs t u" for d u by (simp add: climbs_def)
  then show ?thesis using step_send event_climbs [OF assms(2,3)] by (fastforce simp: pjsip_tsx_send_msg_def split: option.splits if_splits)
next
  case (step_recv rdata)
  then show ?thesis using event_climbs [OF assms(2,3)] by (auto simp: pjsip_tsx_recv_msg_def)
next
  case (step_timer e)
  then show ?thesis using timer_climbs [OF assms(2,3)] by blast
next
  case (step_sent td st)
  then show ?thesis using sent_climbs [OF assms(2,3)] by blast
next
  case (step_transport sent)
  then show ?thesis using transport_callback_climbs [OF assms(2,3)] by blast
next
  case (step_terminate code)
  have "climbs t (tsx_set_status_code code t)" by (simp add: climbs_def)
  then show ?thesis using step_terminate climbs_set_state [of t "tsx_set_status_code code t"]
    by (simp add: pjsip_tsx_terminate_def less_imp_le)
next
  case (step_retransmit td status)
  then show ?thesis using retransmit_no_state_climbs [OF assms(3)] by simp
next
  case (step_set_timeout ms)
  then show ?thesis using set_timeout_climbs by simp
qed (simp_all add: climbs_def pjsip_tsx_stop_retransmit_def pjsip_tsx_set_transport_def Let_def)

lemma created_states: "tsx_created refs t \<Longrightarrow> tsx_states t = [PJSIP_TSX_STATE_NULL] \<and> tsx_state t = PJSIP_TSX_STATE_NULL"
  by (cases rule: tsx_created.cases)
    (auto simp: pjsip_tsx_create_uac2_def pjsip_tsx_create_uas2_def mod_tsx_layer_register_tsx_def tsx_create_def Let_def
      split: if_splits option.splits prod.splits)

lemma run_states:
  assumes "tsx_created refs t0" "tsx_run t0 t"
  shows "sorted (tsx_states t) \<and> tsx_states t \<noteq> [] \<and> last (tsx_states t) = tsx_state t"
  using assms(2)
proof induction
  case run_start
  then show ?case using created_states [OF assms(1)] by simp
next
  case (run_step t env t')
  then show ?case using climbs_sorted [OF step_climbs [OF run_step(3,2) run_inv [OF assms(1) run_step(1)]]] by blast
qed

end
