(* ===== verification/Sip_Tsx_Props.thy ===== *)
theory Sip_Tsx_Props
  imports Sip_Tsx_Rise
begin

text \<open>
  What the model of the SIP transaction gives: properties of every run from a created transaction, and of single events, with a
  client transaction for an INVITE over UDP as the example of the witnesses.
\<close>

section \<open>An example\<close>

text \<open>
  The environment: configured timers, transport 3 for all, unreliable; message 1 is the INVITE and 2 the ACK. In \<open>ex_env\<close>
  the endpoint sends at once, in \<open>ex_slow\<close> the send stays pending.
\<close>

definition ex_env :: tsx_env where
  "ex_env = \<lparr>env_timers = \<lparr>t1_timer_val = Time_Val 0 1, t2_timer_val = Time_Val 0 8, t4_timer_val = Time_Val 0 10,
       td_timer_val = Time_Val 0 64, timeout_timer_val = Time_Val 0 64, cfg_t1 = 1, cfg_t2 = 8, cfg_t4 = 10, cfg_td = 64\<rparr>,
     env_layer_up = True, env_tdata = (\<lambda>_. \<lparr>td_is_response = False, td_code = 0, td_cseq_method = PJSIP_INVITE_METHOD\<rparr>),
     env_td_pending = (\<lambda>_. False), env_transport_send = (\<lambda>_ _. PJ_SUCCESS),
     env_endpt_send = (\<lambda>_. ([\<lparr>cur_transport = Some 3, send_cont = False, send_addr_len = 16, send_result = PJ_SUCCESS\<rparr>], PJ_SUCCESS)),
     env_create_ack = (PJ_SUCCESS, 2), env_tp_reliable = (\<lambda>_. False), env_tp_shutdown = (\<lambda>_. False)\<rparr>"

definition ex_slow :: tsx_env where
  "ex_slow = ex_env\<lparr>env_transport_send := (\<lambda>_ _. PJ_EPENDING)\<rparr>"

definition ex_user :: "pjsip_module option" where
  "ex_user = Some \<lparr>has_on_rx_response = True, has_on_tsx_state = True\<rparr>"

definition ex_tsx0 :: pjsip_transaction where
  "ex_tsx0 = the (snd (pjsip_tsx_create_uac2 ex_env (tsx_create ex_user 0 (\<lambda>_. 0) (\<lambda>_. 0) (\<lambda>_. 0)) 1 PJSIP_INVITE_METHOD True
     (PJ_SUCCESS, False) False))"

text \<open>The INVITE is sent, answered with 486 and acknowledged; the transaction times out and is destroyed.\<close>

definition ex_calling :: pjsip_transaction where
  "ex_calling = snd (the (pjsip_tsx_send_msg ex_env ex_tsx0 None))"

definition ex_completed :: pjsip_transaction where
  "ex_completed = the (pjsip_tsx_recv_msg ex_env ex_calling (Rx_Response 486))"

definition ex_terminated :: pjsip_transaction where
  "ex_terminated = the (tsx_timer_fire ex_env Timeout_Timer ex_completed)"

definition ex_destroyed :: pjsip_transaction where
  "ex_destroyed = the (tsx_timer_fire ex_env Timeout_Timer ex_terminated)"

text \<open>
  The ACK of the 486 and of its repetition meet a slow transport: the second waits for the first, and is on its way when
  the transaction is destroyed.
\<close>

definition ex_slow_completed :: pjsip_transaction where
  "ex_slow_completed = the (pjsip_tsx_recv_msg ex_slow ex_calling (Rx_Response 486))"

definition ex_slow_waiting :: pjsip_transaction where
  "ex_slow_waiting = the (pjsip_tsx_recv_msg ex_slow ex_slow_completed (Rx_Response 486))"

definition ex_slow_terminated :: pjsip_transaction where
  "ex_slow_terminated = snd (pjsip_tsx_terminate ex_slow ex_slow_waiting 487)"

definition ex_slow_resent :: pjsip_transaction where
  "ex_slow_resent = transport_callback ex_slow PJ_SUCCESS ex_slow_terminated"

definition ex_slow_destroyed :: pjsip_transaction where
  "ex_slow_destroyed = the (tsx_timer_fire ex_slow Timeout_Timer ex_slow_resent)"

definition ex_slow_reported :: pjsip_transaction where
  "ex_slow_reported = transport_callback ex_slow PJ_SUCCESS ex_slow_destroyed"

lemma ex_env_ok: "env_ok ex_env" "env_ok ex_slow"
  by (simp_all add: env_ok_def ex_env_def ex_slow_def)

lemma ex_created: "tsx_created 0 ex_tsx0"
proof -
  let ?c = "pjsip_tsx_create_uac2 ex_env (tsx_create ex_user 0 (\<lambda>_. 0) (\<lambda>_. 0) (\<lambda>_. 0)) 1 PJSIP_INVITE_METHOD True (PJ_SUCCESS, False) False"
  have "fst ?c = PJ_SUCCESS \<and> snd ?c \<noteq> None" by (simp add: pjsip_tsx_create_uac2_def ex_env_def mod_tsx_layer_register_tsx_def Let_def)
  then have "?c = (PJ_SUCCESS, Some ex_tsx0)" by (auto simp: ex_tsx0_def prod_eq_iff)
  then show ?thesis by (rule created_uac)
qed

text \<open>Steps by what they compute.\<close>

lemma sent_is_step:
  "\<not> Option.is_none (pjsip_tsx_send_msg env t td) \<Longrightarrow> tsx_step t env (snd (the (pjsip_tsx_send_msg env t td)))"
  by (rule step_send [of env t td "fst (the (pjsip_tsx_send_msg env t td))"]) (auto simp: Option.is_none_def)

lemma received_is_step: "rx_msg_ok m \<Longrightarrow> tsx_state t \<noteq> PJSIP_TSX_STATE_TERMINATED
    \<Longrightarrow> \<not> Option.is_none (pjsip_tsx_recv_msg env t m) \<Longrightarrow> tsx_step t env (the (pjsip_tsx_recv_msg env t m))"
  by (rule step_recv) (auto simp: Option.is_none_def)

lemma fired_is_step: "tm_running (get_timer e t) \<noteq> None \<Longrightarrow> \<not> Option.is_none (tsx_timer_fire env e t)
    \<Longrightarrow> tsx_step t env (the (tsx_timer_fire env e t))"
  by (rule step_timer) (auto simp: Option.is_none_def)

lemma ex_received: "tsx_step ex_calling ex_env ex_completed"
  unfolding ex_completed_def by (rule received_is_step) code_simp+

lemma ex_tsx_run: "tsx_run ex_tsx0 ex_calling" "tsx_run ex_tsx0 ex_completed" "tsx_run ex_tsx0 ex_terminated" "tsx_run ex_tsx0 ex_destroyed"
proof -
  note ok = ex_env_ok(1)
  show r1: "tsx_run ex_tsx0 ex_calling"
    unfolding ex_calling_def by (rule run_step [OF run_start ok sent_is_step]) code_simp
  show r2: "tsx_run ex_tsx0 ex_completed"
    unfolding ex_completed_def by (rule run_step [OF r1 ok received_is_step]) code_simp+
  show r3: "tsx_run ex_tsx0 ex_terminated"
    unfolding ex_terminated_def by (rule run_step [OF r2 ok fired_is_step]) code_simp+
  show "tsx_run ex_tsx0 ex_destroyed"
    unfolding ex_destroyed_def by (rule run_step [OF r3 ok fired_is_step]) code_simp+
qed

lemma ex_slow_run: "tsx_run ex_tsx0 ex_slow_destroyed" "tsx_run ex_tsx0 ex_slow_reported"
proof -
  note ok = ex_env_ok(2)
  have r2: "tsx_run ex_tsx0 ex_slow_completed"
    unfolding ex_slow_completed_def by (rule run_step [OF ex_tsx_run(1) ok received_is_step]) code_simp+
  have r3: "tsx_run ex_tsx0 ex_slow_waiting"
    unfolding ex_slow_waiting_def by (rule run_step [OF r2 ok received_is_step]) code_simp+
  have r4: "tsx_run ex_tsx0 ex_slow_terminated"
    unfolding ex_slow_terminated_def by (rule run_step [OF r3 ok step_terminate])
  have r5: "tsx_run ex_tsx0 ex_slow_resent"
    unfolding ex_slow_resent_def by (rule run_step [OF r4 ok step_transport]) code_simp
  show r6: "tsx_run ex_tsx0 ex_slow_destroyed"
    unfolding ex_slow_destroyed_def by (rule run_step [OF r5 ok fired_is_step]) code_simp+
  show "tsx_run ex_tsx0 ex_slow_reported"
    unfolding ex_slow_reported_def by (rule run_step [OF r6 ok step_transport]) code_simp
qed

lemma ex_states:
  "tsx_state ex_calling = PJSIP_TSX_STATE_CALLING" "tsx_state ex_completed = PJSIP_TSX_STATE_COMPLETED"
  "tsx_state ex_terminated = PJSIP_TSX_STATE_TERMINATED" "tsx_state ex_destroyed = PJSIP_TSX_STATE_DESTROYED"
  "status_code ex_completed = 486" "tsx_state ex_slow_reported = PJSIP_TSX_STATE_DESTROYED"
  by code_simp+

section \<open>Runs\<close>

text \<open>
C13. In every run no call of tsx_set_state is given a state below the one the transaction has,
within one event and from one event to the next, so that the condition it asserts on entry holds
each time: the states given so far are sorted, an event adds to them a sorted list that begins at
the state it found and ends at the state it leaves. The same holds when the timeout is set, or the
last message is sent once more by hand, on a transaction that has terminated, which runs leave
out; nothing is said of sending by hand on one that was destroyed.
\<close>

theorem tsx_state_only_rises:
  assumes "tsx_created refs t0" and "tsx_run t0 t" and "env_ok env"
    and "tsx_step t env t' \<or> tsx_state t = PJSIP_TSX_STATE_TERMINATED
      \<and> (t' = snd (pjsip_tsx_set_timeout t millisec) \<or> pjsip_tsx_retransmit_no_state env t td = Some (status, t'))"
  shows "tsx_state t \<le> tsx_state t' \<and> sorted (tsx_states t')
    \<and> (\<exists>ss. tsx_states t' = tsx_states t @ ss \<and> sorted (tsx_state t # ss) \<and> last (tsx_state t # ss) = tsx_state t')"
proof -
  note inv = run_inv [OF assms(1,2)]
  have "climbs t t'"
    using assms(4) step_climbs [OF _ assms(3) inv] retransmit_no_state_climbs [OF inv] set_timeout_climbs by auto
  then show ?thesis
    using climbs_sorted [of t t'] run_states [OF assms(1,2)] climbs_le [of t t'] unfolding climbs_def by metis
qed

theorem tsx_state_only_rises_witness:
  "tsx_state ex_calling \<le> tsx_state ex_completed \<and> sorted (tsx_states ex_completed)
    \<and> tsx_states ex_completed = [PJSIP_TSX_STATE_NULL, PJSIP_TSX_STATE_CALLING, PJSIP_TSX_STATE_COMPLETED]"
proof -
  have "tsx_states ex_completed = [PJSIP_TSX_STATE_NULL, PJSIP_TSX_STATE_CALLING, PJSIP_TSX_STATE_COMPLETED]" by code_simp
  then show ?thesis using tsx_state_only_rises [OF ex_created ex_tsx_run(1) ex_env_ok(1) disjI1 [OF ex_received]] by simp
qed

theorem tsx_handler_exists:
  assumes "tsx_created refs t0" and "tsx_run t0 t"
  shows "\<exists>status t'. run_handler env t event = Some (status, t')"
proof -
  have "role_ok (tsx_role t) (tsx_state t)" using run_inv [OF assms] by (simp add: tsx_inv_def)
  then have "tsx_state_handler (tsx_role t) (tsx_state t) \<noteq> None"
    by (cases "tsx_state t"; cases "tsx_role t") (simp_all add: tsx_state_handler_def role_ok_def)
  then show ?thesis by (auto simp: run_handler_def)
qed

theorem tsx_handler_exists_witness: "\<exists>status t'. run_handler ex_env ex_completed (Ev_Timer Timeout_Timer) = Some (status, t')"
  by (rule tsx_handler_exists [OF ex_created ex_tsx_run(2)])

text \<open>
C2. In every run from a created transaction, whatever its user, its peer, its timers and the
transport do, the reference counter of its group lock is at least what the transaction holds
(itself until it terminates, each running timer, each send to be reported) on top of the
references that others had, so it cannot be freed under a timer or a send; and it is exactly that
as long as the transaction was not destroyed while a send was pending.
\<close>

theorem tsx_holds_references:
  assumes "tsx_created refs t0" and "tsx_run t0 t"
  shows "refs + held_refs t \<le> grp_refs t \<and> (\<not> has_flag TSX_HAS_PENDING_DESTROY t \<longrightarrow> grp_refs t = refs + held_refs t)"
  using run_inv [OF assms] by (auto simp: tsx_inv_def other_grp_refs_def)

theorem tsx_holds_references_witness: "0 + held_refs ex_completed \<le> grp_refs ex_completed \<and> grp_refs ex_completed = 2"
proof -
  have "\<not> has_flag TSX_HAS_PENDING_DESTROY ex_completed" "held_refs ex_completed = 2" by code_simp+
  then show ?thesis using tsx_holds_references [OF ex_created ex_tsx_run(2)] by simp
qed

text \<open>
C8. In every run, a client transaction that waits for its first response, any transaction that has
a final response and is completed or confirmed, and any that has terminated, has its timeout timer
running: none waits for ever in those states.
\<close>

theorem tsx_relies_on_timeout:
  assumes "tsx_created refs t0" and "tsx_run t0 t"
    and "tsx_state t = PJSIP_TSX_STATE_CALLING \<and> status_code t = 0
      \<or> tsx_state t \<in> {PJSIP_TSX_STATE_COMPLETED, PJSIP_TSX_STATE_CONFIRMED} \<and> 200 \<le> status_code t
      \<or> tsx_state t = PJSIP_TSX_STATE_TERMINATED"
  shows "tm_running (timeout_timer t) \<noteq> None"
  using run_inv [OF assms(1,2)] assms(3)
  by (auto simp: tsx_inv_def armed_def needs_timeout_def expiring_def runs_def)

theorem tsx_relies_on_timeout_witness: "tm_running (timeout_timer ex_completed) \<noteq> None"
  by (rule tsx_relies_on_timeout [OF ex_created ex_tsx_run(2)]) (simp add: ex_states)

text \<open>
C32. A transaction that has terminated has its timeout timer running, and when that timer fires
the transaction is destroyed.
\<close>

theorem tsx_terminated_goes_away:
  assumes "tsx_created refs t0" and "tsx_run t0 t" and "tsx_state t = PJSIP_TSX_STATE_TERMINATED" and "env_ok env"
  shows "tm_running (timeout_timer t) \<noteq> None
    \<and> (\<exists>t'. tsx_timer_fire env Timeout_Timer t = Some t' \<and> tsx_state t' = PJSIP_TSX_STATE_DESTROYED)"
proof -
  have inv: "tsx_inv refs t" by (rule run_inv [OF assms(1,2)])
  then have x: "expiring t" using assms(3) by (simp add: tsx_inv_def armed_def)
  have "pend_core t" using inv by (simp add: tsx_inv_def pend_inv_def)
  then have "pend_core (t\<lparr>timeout_timer := tm\<rparr>)" for tm by (simp add: pend_core_def)
  then have "tsx_state (tsx_set_state env PJSIP_TSX_STATE_DESTROYED (Src_Timer Timeout_Timer) {} (t\<lparr>timeout_timer := tm\<rparr>))
      = PJSIP_TSX_STATE_DESTROYED" for tm
    using assms(4) by (intro destroyed_spec(4)) (simp_all add: env_ok_def)
  then show ?thesis using x assms(3)
    by (simp add: tsx_timer_fire_def tsx_timer_callback_def run_handler_def tsx_state_handler_def tsx_on_state_terminated_def
        expiring_def runs_def tsx_state_order Let_def)
qed

theorem tsx_terminated_goes_away_witness:
  "\<exists>t'. tsx_timer_fire ex_env Timeout_Timer ex_terminated = Some t' \<and> tsx_state t' = PJSIP_TSX_STATE_DESTROYED"
  using tsx_terminated_goes_away [OF ex_created ex_tsx_run(3) ex_states(3) ex_env_ok(1)] by simp

theorem tsx_destroyed_is_clean:
  assumes "tsx_created refs t0" and "tsx_run t0 t" and "tsx_state t = PJSIP_TSX_STATE_DESTROYED"
  shows "\<not> registered t \<and> terminating t \<and> last_tx t = None \<and> tsx_transport t = None
    \<and> tm_running (retransmit_timer t) = None \<and> tm_running (timeout_timer t) = None
    \<and> held_refs t = of_bool (pending_tx t \<noteq> None) + int (sends_out t)"
  using run_inv [OF assms(1,2)] assms(3) by (auto simp: tsx_inv_def destroyed_clean_def held_refs_def runs_def)

theorem tsx_destroyed_is_clean_witness: "\<not> registered ex_destroyed \<and> last_tx ex_destroyed = None \<and> tsx_transport ex_destroyed = None"
  using tsx_destroyed_is_clean [OF ex_created ex_tsx_run(4) ex_states(4)] by blast

theorem tsx_pending_destroy_leaks:
  "\<exists>t0 t. tsx_created 0 t0 \<and> tsx_run t0 t \<and> tsx_state t = PJSIP_TSX_STATE_DESTROYED \<and> held_refs t = 0 \<and> grp_refs t = 1"
proof -
  have "held_refs ex_slow_reported = 0" "grp_refs ex_slow_reported = 1" by code_simp+
  then show ?thesis using ex_created ex_slow_run(2) ex_states(6) by blast
qed

section \<open>Single events\<close>

text \<open>A send on a transport that takes the message at once or later.\<close>

lemma send_on_own_transport:
  assumes "tsx_transport u = Some tp" and "\<not> has_flag TSX_HAS_PENDING_TRANSPORT u" and "\<not> env_td_pending env td"
    and "env_transport_send env tp td \<in> {PJ_SUCCESS, PJ_EPENDING}"
  shows "\<exists>fl k n. tsx_send_msg env u td = (PJ_SUCCESS, (note_it (Sent_Transport tp td) u)\<lparr>transport_flag := fl, grp_refs := k, sends_out := n\<rparr>)"
proof (cases "env_transport_send env tp td = PJ_EPENDING")
  case True
  then show ?thesis using assms
    by (intro exI [of _ "insert TSX_HAS_PENDING_TRANSPORT (transport_flag u)"] exI [of _ "grp_refs u + 1"] exI [of _ "sends_out u + 1"])
      (simp add: tsx_send_msg_def tsx_send_msg_by_def send_on_transport_def Let_def)
next
  case False
  then show ?thesis using assms
    by (intro exI [of _ "transport_flag u"] exI [of _ "grp_refs u"] exI [of _ "sends_out u"])
      (simp add: tsx_send_msg_def tsx_send_msg_by_def send_on_transport_def Let_def)
qed

lemma cancel_log [simp]: "tsx_log (tsx_cancel_timer e t) = tsx_log t" "tsx_log (tsx_schedule_timer e d i t) = tsx_log t"
    "tsx_log (restart_timeout d t) = tsx_log t" "tsx_log (keep_ack env t) = tsx_log t"
    "tsx_log (tsx_set_status_code c t) = tsx_log t" "tsx_log (td_dec_ref td t) = tsx_log t"
  by (cases e; simp add: tsx_cancel_timer_def tsx_schedule_timer_def restart_timeout_def keep_ack_def tsx_set_status_code_def td_dec_ref_def
      Let_def split: option.split)+

lemma restart_timer [simp]: "timeout_timer (restart_timeout d t) = \<lparr>tm_id = TIMEOUT_TIMER, tm_running = Some d\<rparr>"
  by (simp add: restart_timeout_def tsx_schedule_timer_def tsx_cancel_timer_def)

lemma keep_ack_last: "method_id t = PJSIP_INVITE_METHOD \<Longrightarrow> last_tx (keep_ack env t) = Some (snd (env_create_ack env))"
  by (simp add: keep_ack_def Let_def)

lemma not_in_class: "300 \<le> code \<Longrightarrow> \<not> PJSIP_IS_STATUS_IN_CLASS code 100 \<and> \<not> PJSIP_IS_STATUS_IN_CLASS code 200"
  using div_le_mono [of 300 code 100] by (simp add: PJSIP_IS_STATUS_IN_CLASS_def)

lemma in_class_200: "200 \<le> code \<Longrightarrow> code < 300 \<Longrightarrow> \<not> PJSIP_IS_STATUS_IN_CLASS code 100 \<and> PJSIP_IS_STATUS_IN_CLASS code 200"
  using div_le_mono [of 200 code 100] div_le_mono [of code 299 100] by (simp add: PJSIP_IS_STATUS_IN_CLASS_def)

text \<open>
C14. A client INVITE transaction that is calling or proceeding, that has a transport with no send
pending and a user with both callbacks, answers a 3xx to 6xx response, when the ACK can be created
and the transport takes it, at once or later, by sending the ACK on its transport before the user
is told, keeps the ACK as the message to retransmit, stops retransmissions, and completes with
timer D (or none on a reliable transport) running. When the ACK cannot be created it does not
complete (sip_transaction.c:3217).
\<close>

theorem tsx_uac_failure_acked:
  assumes "tsx_role t = PJSIP_ROLE_UAC" and "method_id t = PJSIP_INVITE_METHOD"
    and "tsx_state t \<in> {PJSIP_TSX_STATE_CALLING, PJSIP_TSX_STATE_PROCEEDING}" and "300 \<le> code" and "code \<le> 699"
    and "env_create_ack env = (PJ_SUCCESS, ack)" and "tsx_transport t = Some tp" and "\<not> has_flag TSX_HAS_PENDING_TRANSPORT t"
    and "\<not> env_td_pending env ack" and "env_transport_send env tp ack \<in> {PJ_SUCCESS, PJ_EPENDING}"
    and "tsx_user t = Some \<lparr>has_on_rx_response = True, has_on_tsx_state = True\<rparr>"
  shows "\<exists>t'. pjsip_tsx_recv_msg env t (Rx_Response code) = Some t' \<and> tsx_state t' = PJSIP_TSX_STATE_COMPLETED
    \<and> status_code t' = code \<and> last_tx t' = Some ack \<and> tm_running (retransmit_timer t') = None
    \<and> timeout_timer t' = \<lparr>tm_id = TIMEOUT_TIMER, tm_running = Some (if is_reliable t then Time_Val 0 0 else td_timer_val (env_timers env))\<rparr>
    \<and> tsx_log t' = tsx_log t @ [Sent_Transport tp ack, On_Rx_Response code,
        On_Tsx_State (tsx_state t) PJSIP_TSX_STATE_COMPLETED (Src_Rx_Msg (Rx_Response code))]"
    (is "\<exists>t'. _ = Some t' \<and> ?ok t'")
proof -
  have resp: "?ok (snd (tsx_on_state_proceeding_uac env u (Ev_Rx_Msg (Rx_Response code))))"
    if u: "method_id u = PJSIP_INVITE_METHOD" "tsx_transport u = Some tp" "\<not> has_flag TSX_HAS_PENDING_TRANSPORT u"
      "tsx_user u = tsx_user t" "tsx_log u = tsx_log t" "tsx_state u = tsx_state t" "is_reliable u = is_reliable t" for u
  proof -
    let ?v = "tsx_cancel_timer Timeout_Timer (tsx_cancel_timer Retransmit_Timer (tsx_set_status_code code u))"
    have v: "tsx_transport ?v = Some tp" "\<not> has_flag TSX_HAS_PENDING_TRANSPORT ?v" using u by simp_all
    obtain fl k n where send: "tsx_send_msg env ?v ack
        = (PJ_SUCCESS, (note_it (Sent_Transport tp ack) ?v)\<lparr>transport_flag := fl, grp_refs := k, sends_out := n\<rparr>)"
      using send_on_own_transport [OF v assms(9,10)] by blast
    have n: "retransmit_timer (keep_ack env w) = retransmit_timer w" "retransmit_timer (restart_timeout d w) = retransmit_timer w" for w d
      by (simp_all add: restart_timeout_def tsx_schedule_timer_def tsx_cancel_timer_def)
    have "tm_running (retransmit_timer (tsx_cancel_timer Timeout_Timer (tsx_cancel_timer Retransmit_Timer w))) = None" for w
      by (simp add: tsx_cancel_timer_def)
    moreover have "tsx_on_state_proceeding_uac env u (Ev_Rx_Msg (Rx_Response code))
        = uac_failure_response env (tsx_set_status_code code u) (Src_Rx_Msg (Rx_Response code))"
      using assms(4,5) not_in_class [OF assms(4)] by (simp add: tsx_on_state_proceeding_uac_def Let_def)
    moreover have "status_code (tsx_set_status_code code w) = code" for w by (simp add: tsx_set_status_code_def)
    ultimately show ?thesis using u send assms(6,11)
      by (simp add: uac_failure_response_def send_ack_def Let_def set_state_low tsx_state_order notify_user_def keep_ack_last n
          completed_timeout_def)
  qed
  show ?thesis
  proof (cases "tsx_state t = PJSIP_TSX_STATE_CALLING")
    case True
    have "?ok (snd (tsx_on_state_calling env t (Ev_Rx_Msg (Rx_Response code))))"
      using resp assms(2,4,7,8) by (simp add: tsx_on_state_calling_def Let_def)
    then show ?thesis using True assms(1) by (simp add: pjsip_tsx_recv_msg_def run_handler_def tsx_state_handler_def)
  next
    case False
    then show ?thesis using resp [of t] assms(1-3,7,8) by (simp add: pjsip_tsx_recv_msg_def run_handler_def tsx_state_handler_def)
  qed
qed

theorem tsx_uac_failure_acked_witness:
  "\<exists>t'. pjsip_tsx_recv_msg ex_env ex_calling (Rx_Response 486) = Some t' \<and> tsx_state t' = PJSIP_TSX_STATE_COMPLETED
    \<and> last_tx t' = Some 2 \<and> Sent_Transport 3 2 \<in> set (tsx_log t')"
proof -
  have c: "tsx_role ex_calling = PJSIP_ROLE_UAC" "method_id ex_calling = PJSIP_INVITE_METHOD" "tsx_transport ex_calling = Some 3"
    "\<not> has_flag TSX_HAS_PENDING_TRANSPORT ex_calling" "tsx_user ex_calling = Some \<lparr>has_on_rx_response = True, has_on_tsx_state = True\<rparr>"
    by code_simp+
  have e: "env_create_ack ex_env = (PJ_SUCCESS, 2)" "\<not> env_td_pending ex_env 2" "env_transport_send ex_env 3 2 \<in> {PJ_SUCCESS, PJ_EPENDING}"
    by (simp_all add: ex_env_def)
  have "tsx_state ex_calling \<in> {PJSIP_TSX_STATE_CALLING, PJSIP_TSX_STATE_PROCEEDING}" "300 \<le> (486 :: nat)" "486 \<le> (699 :: nat)"
    by (simp_all add: ex_states)
  from tsx_uac_failure_acked [OF c(1,2) this e(1) c(3,4) e(2,3) c(5)] show ?thesis by fastforce
qed

theorem tsx_uac_success:
  assumes "tsx_role t = PJSIP_ROLE_UAC" and "tsx_state t \<in> {PJSIP_TSX_STATE_CALLING, PJSIP_TSX_STATE_PROCEEDING}"
    and "200 \<le> code" and "code < 300" and "tsx_user t = Some \<lparr>has_on_rx_response = True, has_on_tsx_state = True\<rparr>"
  shows "\<exists>s t'. s = (if method_id t = PJSIP_INVITE_METHOD then PJSIP_TSX_STATE_TERMINATED else PJSIP_TSX_STATE_COMPLETED)
    \<and> pjsip_tsx_recv_msg env t (Rx_Response code) = Some t' \<and> tsx_state t' = s \<and> status_code t' = code
    \<and> timeout_timer t' = \<lparr>tm_id = TIMEOUT_TIMER, tm_running = Some (if method_id t = PJSIP_INVITE_METHOD \<or> is_reliable t then Time_Val 0 0
        else t4_timer_val (env_timers env))\<rparr>
    \<and> tsx_log t' = tsx_log t @ [On_Rx_Response code, On_Tsx_State (tsx_state t) s (Src_Rx_Msg (Rx_Response code))]"
    (is "\<exists>s t'. _ s \<and> _ t' \<and> ?ok s t'")
proof -
  define s where "s = (if method_id t = PJSIP_INVITE_METHOD then PJSIP_TSX_STATE_TERMINATED else PJSIP_TSX_STATE_COMPLETED)"
  have resp: "?ok s (snd (tsx_on_state_proceeding_uac env u (Ev_Rx_Msg (Rx_Response code))))"
    if u: "method_id u = method_id t" "tsx_user u = tsx_user t" "tsx_log u = tsx_log t" "tsx_state u = tsx_state t"
      "is_reliable u = is_reliable t" for u
  proof -
    have "tsx_on_state_proceeding_uac env u (Ev_Rx_Msg (Rx_Response code))
        = uac_success_response env (tsx_set_status_code code u) (Src_Rx_Msg (Rx_Response code))"
      using in_class_200 [OF assms(3,4)] by (simp add: tsx_on_state_proceeding_uac_def Let_def)
    moreover have "status_code (tsx_set_status_code code w) = code" for w by (simp add: tsx_set_status_code_def)
    moreover have "timeout_timer (tsx_schedule_timer Timeout_Timer d i (tsx_cancel_timer Timeout_Timer w)) = \<lparr>tm_id = i, tm_running = Some d\<rparr>"
      "timeout_timer (tsx_cancel_timer Retransmit_Timer w) = timeout_timer w" for d i w
      by (simp_all add: tsx_schedule_timer_def tsx_cancel_timer_def)
    ultimately show ?thesis using u assms(5)
      by (auto simp: uac_success_response_def s_def Let_def tsx_set_state_def enter_terminated_def notify_user_def completed_timeout_def
          split: option.split)
  qed
  show ?thesis
  proof (cases "tsx_state t = PJSIP_TSX_STATE_CALLING")
    case True
    have "?ok s (snd (tsx_on_state_calling env t (Ev_Rx_Msg (Rx_Response code))))"
      using resp assms(3) by (simp add: tsx_on_state_calling_def Let_def)
    then show ?thesis using True assms(1) by (simp add: s_def pjsip_tsx_recv_msg_def run_handler_def tsx_state_handler_def)
  next
    case False
    then show ?thesis using resp [of t] assms(1,2) by (simp add: s_def pjsip_tsx_recv_msg_def run_handler_def tsx_state_handler_def)
  qed
qed

theorem tsx_uac_success_witness:
  "\<exists>t'. pjsip_tsx_recv_msg ex_env ex_calling (Rx_Response 200) = Some t' \<and> tsx_state t' = PJSIP_TSX_STATE_TERMINATED"
proof -
  have c: "tsx_role ex_calling = PJSIP_ROLE_UAC" "tsx_user ex_calling = Some \<lparr>has_on_rx_response = True, has_on_tsx_state = True\<rparr>"
    "method_id ex_calling = PJSIP_INVITE_METHOD"
    by code_simp+
  show ?thesis using tsx_uac_success [OF c(1) _ _ _ c(2), of 200 ex_env] c(3) ex_states(1) by auto
qed

text \<open>A response of a class the protocol does not have.\<close>

theorem tsx_unknown_class_stops_timers:
  assumes "tsx_role t = PJSIP_ROLE_UAC" and "tsx_state t = PJSIP_TSX_STATE_CALLING" and "700 \<le> code" and "code \<le> 999"
    and "tm_id (timeout_timer t) \<noteq> TIMER_INACTIVE"
  shows "\<exists>t'. pjsip_tsx_recv_msg env t (Rx_Response code) = Some t' \<and> tsx_state t' = PJSIP_TSX_STATE_CALLING
    \<and> tsx_log t' = tsx_log t \<and> tm_running (retransmit_timer t') = None \<and> tm_running (timeout_timer t') = None"
proof -
  have n: "tm_running (retransmit_timer (tsx_cancel_timer Timeout_Timer (tsx_cancel_timer Retransmit_Timer w))) = None"
    "tm_running (timeout_timer (tsx_cancel_timer Timeout_Timer w)) = None"
    "tm_id (timeout_timer (tsx_cancel_timer Retransmit_Timer w)) = tm_id (timeout_timer w)" for w
    by (simp_all add: tsx_cancel_timer_def)
  show ?thesis using assms not_in_class [of code] n
    by (simp add: pjsip_tsx_recv_msg_def run_handler_def tsx_state_handler_def tsx_on_state_calling_def tsx_on_state_proceeding_uac_def Let_def)
qed

theorem tsx_unknown_class_stops_timers_witness:
  "\<exists>t'. pjsip_tsx_recv_msg ex_env ex_calling (Rx_Response 799) = Some t' \<and> tsx_state t' = PJSIP_TSX_STATE_CALLING
    \<and> tm_running (timeout_timer t') = None"
proof -
  have c: "tsx_role ex_calling = PJSIP_ROLE_UAC" "tm_id (timeout_timer ex_calling) \<noteq> TIMER_INACTIVE" by code_simp+
  show ?thesis using tsx_unknown_class_stops_timers [OF c(1) ex_states(1) _ _ c(2), of 799 ex_env] by auto
qed

text \<open>The delay of retransmissions, while the shift stays within 32 bits.\<close>

theorem tsx_retransmission_backoff:
  assumes "2 ^ retransmit_count t * cfg_t1 (env_timers env) < 2 ^ 32" and "0 < cfg_t1 (env_timers env)"
  shows "retransmission_delay env t =
      (let t2 = cfg_t2 (env_timers env); backoff = 2 ^ retransmit_count t * cfg_t1 (env_timers env)
       in if tsx_role t = PJSIP_ROLE_UAC
          then (if 100 \<le> status_code t then t2
                else if method_id t = PJSIP_INVITE_METHOD then backoff else min backoff t2)
          else if status_code t < 200 then 60000 else min backoff t2)"
proof -
  let ?t1 = "cfg_t1 (env_timers env)"
  have "2 ^ retransmit_count t \<le> 2 ^ retransmit_count t * ?t1" using assms(2) by simp
  then have "2 ^ retransmit_count t < (2 :: nat) ^ 32" using assms(1) by (rule le_less_trans)
  then have "2 ^ retransmit_count t mod 2 ^ 32 = (2 :: nat) ^ retransmit_count t" by (rule mod_less)
  then have m: "u32_mul (2 ^ retransmit_count t mod 2 ^ 32) ?t1 = 2 ^ retransmit_count t * ?t1"
    using u32_mul_small [OF assms(1)] by (simp only:)
  show ?thesis
    unfolding retransmission_delay_def Let_def m by (auto simp: PJSIP_TSX_1XX_RETRANS_DELAY_def min_def)
qed

theorem tsx_retransmission_backoff_witness: "retransmission_delay ex_env (ex_calling\<lparr>retransmit_count := 6\<rparr>) = 64"
proof -
  have c: "tsx_role ex_calling = PJSIP_ROLE_UAC" "method_id ex_calling = PJSIP_INVITE_METHOD" "status_code ex_calling = 0"
    by code_simp+
  show ?thesis using tsx_retransmission_backoff [of "ex_calling\<lparr>retransmit_count := 6\<rparr>" ex_env] c by (simp add: ex_env_def)
qed

text \<open>A failed creation.\<close>

definition released :: "int \<Rightarrow> (nat \<Rightarrow> int) \<Rightarrow> (nat \<Rightarrow> int) \<Rightarrow> (nat \<Rightarrow> int) \<Rightarrow> pjsip_transaction \<Rightarrow> bool" where
  "released refs tds tps sels t \<longleftrightarrow> grp_refs t = refs \<and> td_refs t = tds \<and> tp_refs t = tps \<and> sel_refs t = sels
     \<and> last_tx t = None \<and> tsx_transport t = None \<and> terminating t \<and> \<not> registered t"

lemma cancel_counters [simp]:
  "td_refs (tsx_cancel_timer e u) = td_refs u" "tp_refs (tsx_cancel_timer e u) = tp_refs u" "sel_refs (tsx_cancel_timer e u) = sel_refs u"
  "td_refs (tsx_schedule_timer e d i u) = td_refs u" "tp_refs (tsx_schedule_timer e d i u) = tp_refs u"
  "sel_refs (tsx_schedule_timer e d i u) = sel_refs u" "tp_sel (tsx_schedule_timer e d i u) = tp_sel u" "tp_sel (tsx_cancel_timer e u) = tp_sel u"
  by (cases e; simp add: tsx_cancel_timer_def tsx_schedule_timer_def)+

lemma tp_state_counters [simp]:
  "td_refs (tsx_tp_state_callback st u) = td_refs u" "tp_refs (tsx_tp_state_callback st u) = tp_refs u"
  "sel_refs (tsx_tp_state_callback st u) = sel_refs u" "tp_sel (tsx_tp_state_callback st u) = tp_sel u"
  by (simp_all add: tsx_tp_state_callback_def Let_def)

lemma update_counters [simp]:
  "td_refs (tsx_update_transport env p u) = td_refs u" "sel_refs (tsx_update_transport env p u) = sel_refs u"
  "tp_sel (tsx_update_transport env p u) = tp_sel u"
  "tp_refs (tsx_update_transport env None u) = (case tsx_transport u of None \<Rightarrow> tp_refs u | Some q \<Rightarrow> (tp_refs u)(q := tp_refs u q - 1))"
  by (simp_all add: tsx_update_transport_def Let_def split: option.split)

lemma update_from_none:
  "tsx_transport u = None \<Longrightarrow> tp_refs (tsx_update_transport env (Some q) u) = (tp_refs u)(q := tp_refs u q + 1)"
  "tsx_transport (tsx_update_transport env (Some q) u) = Some q"
  by (simp_all add: tsx_update_transport_def Let_def split: option.split)

lemma shutdown_counters:
  assumes "tp_sel u = None" "\<not> terminating u" "pending_tx u = None" "sends_out u = 0"
  shows "td_refs (tsx_shutdown env u) = (case last_tx u of None \<Rightarrow> td_refs u | Some td \<Rightarrow> (td_refs u)(td := td_refs u td - 1))"
    and "tp_refs (tsx_shutdown env u) = (case tsx_transport u of None \<Rightarrow> tp_refs u | Some q \<Rightarrow> (tp_refs u)(q := tp_refs u q - 1))"
    and "sel_refs (tsx_shutdown env u) = sel_refs u" and "grp_refs (tsx_shutdown env u) = other_grp_refs u"
proof -
  have "other_grp_refs (tsx_shutdown env u) = other_grp_refs u" by simp
  then show "grp_refs (tsx_shutdown env u) = other_grp_refs u"
    unfolding other_grp_refs_def [of "tsx_shutdown env u"] held_refs_def using assms by simp
qed (use assms in \<open>simp_all add: tsx_shutdown_def tpselector_ref_def td_dec_ref_def Let_def split: option.split\<close>)

lemma create_counters [simp]:
  fixes user refs tds tps sels role meth
  defines "c \<equiv> tsx_create user refs tds tps sels role meth"
  shows "td_refs c = tds" "tp_refs c = tps" "sel_refs c = sels" "tp_sel c = None" "pending_tx c = None" "sends_out c = 0" "last_tx c = None"
    "tsx_transport c = None" "\<not> registered c"
  by (simp_all add: c_def tsx_create_def)

lemma other_addr [simp]:
  "other_grp_refs (u\<lparr>res_addr_transport := p, res_addr_len := n\<rparr>) = other_grp_refs u"
  "other_grp_refs (u\<lparr>addr_len := n, is_reliable := r\<rparr>) = other_grp_refs u"
  "other_grp_refs (u\<lparr>res_addr_transport := p, res_addr_len := n, is_reliable := r\<rparr>) = other_grp_refs u"
  "other_grp_refs (u\<lparr>last_tx := l, is_reliable := r\<rparr>) = other_grp_refs u"
  by (simp_all add: refs_defs runs_def)

lemma td_add_counters [simp]:
  "td_refs (td_add_ref td u) = (td_refs u)(td := td_refs u td + 1)" "tp_refs (td_add_ref td u) = tp_refs u"
  "sel_refs (td_add_ref td u) = sel_refs u" "tp_sel (td_add_ref td u) = tp_sel u"
  by (simp_all add: td_add_ref_def)

lemma shutdown_releases:
  fixes user refs tds tps sels role meth
  defines "c \<equiv> tsx_create user refs tds tps sels role meth"
  shows "released refs tds tps sels (tsx_shutdown env c)"
    and "released refs tds tps sels (tsx_shutdown env ((td_add_ref td c)\<lparr>last_tx := Some td\<rparr>))"
    and "released refs tds tps sels (tsx_shutdown env ((td_add_ref td c)\<lparr>last_tx := Some td, is_reliable := r\<rparr>))"
    and "released refs tds tps sels (tsx_shutdown env (c\<lparr>res_addr_transport := p, res_addr_len := n, is_reliable := r\<rparr>))"
    and "released refs tds tps sels (tsx_shutdown env
      (tsx_update_transport env (Some tp) (c\<lparr>res_addr_transport := p, res_addr_len := n\<rparr>)\<lparr>addr_len := n', is_reliable := r\<rparr>))"
  by (simp_all add: released_def c_def shutdown_counters update_from_none)

theorem tsx_failed_creation_releases:
  assumes "pjsip_tsx_create_uac2 env (tsx_create user refs tds tps sels) td meth has_cseq dest key_exists = (status, Some t)
      \<or> pjsip_tsx_create_uas2 env (tsx_create user refs tds tps sels) rq = (status, Some t)"
    and "status \<noteq> PJ_SUCCESS"
  shows "released refs tds tps sels t"
  using assms
  by (auto simp: pjsip_tsx_create_uac2_def pjsip_tsx_create_uas2_def mod_tsx_layer_register_tsx_def Let_def shutdown_releases
      split: if_splits option.splits)

theorem tsx_failed_creation_releases_witness:
  "\<exists>t. pjsip_tsx_create_uac2 ex_env (tsx_create ex_user 4 (\<lambda>_. 1) (\<lambda>_. 0) (\<lambda>_. 0)) 1 PJSIP_INVITE_METHOD True (PJ_SUCCESS, False) True
      = (PJ_EEXISTS, Some t) \<and> released 4 (\<lambda>_. 1) (\<lambda>_. 0) (\<lambda>_. 0) t"
proof -
  let ?c = "pjsip_tsx_create_uac2 ex_env (tsx_create ex_user 4 (\<lambda>_. 1) (\<lambda>_. 0) (\<lambda>_. 0)) 1 PJSIP_INVITE_METHOD True (PJ_SUCCESS, False) True"
  have "fst ?c = PJ_EEXISTS \<and> snd ?c \<noteq> None" by (simp add: pjsip_tsx_create_uac2_def ex_env_def mod_tsx_layer_register_tsx_def Let_def)
  then obtain t where c: "?c = (PJ_EEXISTS, Some t)" by (cases ?c) auto
  have "released 4 (\<lambda>_. 1) (\<lambda>_. 0) (\<lambda>_. 0) t" by (rule tsx_failed_creation_releases [OF disjI1 [OF c]]) simp
  then show ?thesis using c by blast
qed

theorem tsx_uas_ack_confirms:
  assumes "tsx_role t = PJSIP_ROLE_UAS" and "method_id t = PJSIP_INVITE_METHOD" and "tsx_state t = PJSIP_TSX_STATE_COMPLETED"
    and "tsx_user t = Some \<lparr>has_on_rx_response = r, has_on_tsx_state = True\<rparr>"
  shows "\<exists>t'. pjsip_tsx_recv_msg env t (Rx_Request PJSIP_ACK_METHOD) = Some t' \<and> tsx_state t' = PJSIP_TSX_STATE_CONFIRMED
    \<and> tm_running (retransmit_timer t') = None \<and> \<not> has_flag TSX_HAS_PENDING_RESCHED t'
    \<and> timeout_timer t' = \<lparr>tm_id = TIMEOUT_TIMER, tm_running = Some (if is_reliable t then Time_Val 0 0 else t4_timer_val (env_timers env))\<rparr>
    \<and> tsx_log t' = tsx_log t @ [On_Tsx_State PJSIP_TSX_STATE_COMPLETED PJSIP_TSX_STATE_CONFIRMED (Src_Rx_Msg (Rx_Request PJSIP_ACK_METHOD))]"
proof -
  have n: "retransmit_timer (restart_timeout d w) = retransmit_timer w" for d w
    by (simp add: restart_timeout_def tsx_schedule_timer_def tsx_cancel_timer_def)
  have "tm_running (retransmit_timer (tsx_cancel_timer Retransmit_Timer t)) = None" by (simp add: tsx_cancel_timer_def)
  then show ?thesis using assms n
    by (simp add: pjsip_tsx_recv_msg_def run_handler_def tsx_state_handler_def tsx_on_state_completed_uas_def Let_def set_state_low tsx_state_order
        notify_user_def)
qed

text \<open>A server transaction for an INVITE that was answered with 486, over the transport of the request.\<close>

definition ex_uas_env :: tsx_env where
  "ex_uas_env = ex_env\<lparr>env_tdata := (\<lambda>_. \<lparr>td_is_response = True, td_code = 486, td_cseq_method = PJSIP_INVITE_METHOD\<rparr>)\<rparr>"

definition ex_uas :: pjsip_transaction where
  "ex_uas = snd (the (pjsip_tsx_send_msg ex_uas_env (the (pjsip_tsx_recv_msg ex_uas_env (the (snd (pjsip_tsx_create_uas2 ex_uas_env
     (tsx_create ex_user 0 (\<lambda>_. 0) (\<lambda>_. 0) (\<lambda>_. 0))
     \<lparr>rq_is_request = True, rq_method = PJSIP_INVITE_METHOD, rq_has_cseq = True, rq_has_via = True, rq_cseq_matches = True,
      rq_key = PJ_SUCCESS, rq_key_exists = False, rq_res_addr = PJ_SUCCESS, rq_res_transport = Some 3, rq_res_addr_len = 16,
      rq_dst_reliable = False\<rparr>))) (Rx_Request PJSIP_INVITE_METHOD))) (Some 5)))"

theorem tsx_uas_ack_confirms_witness:
  "\<exists>t'. pjsip_tsx_recv_msg ex_uas_env ex_uas (Rx_Request PJSIP_ACK_METHOD) = Some t' \<and> tsx_state t' = PJSIP_TSX_STATE_CONFIRMED
    \<and> tm_running (retransmit_timer ex_uas) \<noteq> None \<and> tm_running (retransmit_timer t') = None"
proof -
  have c: "tsx_role ex_uas = PJSIP_ROLE_UAS" "method_id ex_uas = PJSIP_INVITE_METHOD" "tsx_state ex_uas = PJSIP_TSX_STATE_COMPLETED"
    "tsx_user ex_uas = Some \<lparr>has_on_rx_response = True, has_on_tsx_state = True\<rparr>" "tm_running (retransmit_timer ex_uas) \<noteq> None"
    by code_simp+
  show ?thesis using tsx_uas_ack_confirms [OF c(1-4), of ex_uas_env] c(5) by blast
qed

end
