(* ===== verification/Sip_Timers.thy ===== *)
theory Sip_Timers
  imports Sip_Tsx_Inv Timer_Heap_Runs
begin

text \<open>
  The timers of the SIP transaction on the timer heap. The locale \<open>timer_service\<close> states what the transaction relies on; its
  lemmas say that \<open>tsx_schedule_timer\<close> and \<open>tsx_cancel_timer\<close>, which change only the record of the transaction, are what
  the service does with the two entries. The heap of \<^verbatim>\<open>pjlib/src/pj/timer.c\<close> is an instance.
\<close>

section \<open>The interface\<close>

locale timer_service =
  fixes ok :: "'h \<Rightarrow> bool" and ready :: "'h \<Rightarrow> 'e \<Rightarrow> bool" and running :: "'h \<Rightarrow> 'e \<Rightarrow> bool" and ident :: "'h \<Rightarrow> 'e \<Rightarrow> int"
    and lock_of :: "'h \<Rightarrow> 'e \<Rightarrow> nat option" and refs :: "'h \<Rightarrow> nat \<Rightarrow> int"
    and sched :: "'h \<Rightarrow> 'e \<Rightarrow> pj_time_val \<Rightarrow> int \<Rightarrow> nat \<Rightarrow> 'h" and stop :: "'h \<Rightarrow> 'e \<Rightarrow> int \<Rightarrow> 'h"
  assumes sched_busy: "\<And>h e d i g. ok h \<Longrightarrow> ready h e \<Longrightarrow> running h e \<Longrightarrow> sched h e d i g = h"
    and sched_new: "\<And>h e d i g. ok h \<Longrightarrow> ready h e \<Longrightarrow> \<not> running h e \<Longrightarrow>
      ok (sched h e d i g) \<and> ready (sched h e d i g) e \<and> running (sched h e d i g) e \<and> ident (sched h e d i g) e = i
      \<and> lock_of (sched h e d i g) e = Some g \<and> refs (sched h e d i g) = (refs h)(g := refs h g + 1)"
    and sched_other: "\<And>h e d i g e'. ok h \<Longrightarrow> ready h e \<Longrightarrow> \<not> running h e \<Longrightarrow> e' \<noteq> e \<Longrightarrow>
      ready (sched h e d i g) e' = ready h e' \<and> running (sched h e d i g) e' = running h e'
      \<and> ident (sched h e d i g) e' = ident h e' \<and> (running h e' \<longrightarrow> lock_of (sched h e d i g) e' = lock_of h e')"
    and stop_running: "\<And>h e i g. ok h \<Longrightarrow> running h e \<Longrightarrow> lock_of h e = Some g \<Longrightarrow>
      ok (stop h e i) \<and> ready (stop h e i) e = ready h e \<and> \<not> running (stop h e i) e \<and> ident (stop h e i) e = i
      \<and> refs (stop h e i) = (refs h)(g := refs h g - 1)"
    and stop_idle: "\<And>h e i. ok h \<Longrightarrow> \<not> running h e \<Longrightarrow>
      ok (stop h e i) \<and> ready (stop h e i) e = ready h e \<and> \<not> running (stop h e i) e \<and> ident (stop h e i) e = ident h e
      \<and> refs (stop h e i) = refs h"
    and stop_other: "\<And>h e i e'. ok h \<Longrightarrow> e' \<noteq> e \<Longrightarrow>
      ready (stop h e i) e' = ready h e' \<and> running (stop h e i) e' = running h e' \<and> ident (stop h e i) e' = ident h e'
      \<and> (running h e' \<longrightarrow> lock_of (stop h e i) e' = lock_of h e')"
begin

text \<open>The service holds the timers of a transaction: \<open>ent\<close> are its entries, \<open>g\<close> its group lock, \<open>code\<close> the ids as integers.\<close>

definition holds :: "(tsx_timer_id \<Rightarrow> int) \<Rightarrow> nat \<Rightarrow> (tsx_timer_name \<Rightarrow> 'e) \<Rightarrow> 'h \<Rightarrow> pjsip_transaction \<Rightarrow> bool" where
  "holds code g ent h t \<longleftrightarrow> ok h \<and> ent Retransmit_Timer \<noteq> ent Timeout_Timer \<and> refs h g = grp_refs t
     \<and> (\<forall>n. ready h (ent n) \<and> (running h (ent n) \<longleftrightarrow> runs n t) \<and> (runs n t \<longrightarrow> lock_of h (ent n) = Some g)
          \<and> ident h (ent n) = code (tm_id (get_timer n t)))"

lemma ent_inj: "ent Retransmit_Timer \<noteq> ent Timeout_Timer \<Longrightarrow> ent m = ent n \<longleftrightarrow> m = n" for ent :: "tsx_timer_name \<Rightarrow> 'e"
  by (cases m; cases n) auto

lemma schedule_holds:
  assumes "holds code g ent h t"
  shows "holds code g ent (sched h (ent n) d (code i) g) (tsx_schedule_timer n d i t)"
proof (cases "runs n t")
  case True
  then have "tsx_schedule_timer n d i t = t" by (simp add: tsx_schedule_timer_def runs_def)
  moreover have "sched h (ent n) d (code i) g = h" using assms True by (intro sched_busy) (auto simp: holds_def)
  ultimately show ?thesis using assms by simp
next
  case False
  let ?h = "sched h (ent n) d (code i) g" and ?t = "tsx_schedule_timer n d i t"
  have h: "ok h" "ready h (ent n)" "\<not> running h (ent n)" and d: "ent Retransmit_Timer \<noteq> ent Timeout_Timer" using assms False by (auto simp: holds_def)
  note new = sched_new [OF h, where d = d and i = "code i" and g = g]
  have t: "grp_refs ?t = grp_refs t + 1" "tm_id (get_timer n ?t) = i" "m \<noteq> n \<Longrightarrow> get_timer m ?t = get_timer m t" for m
    using False by (cases n; cases m; simp add: tsx_schedule_timer_def runs_def)+
  have "ready ?h (ent m) \<and> (running ?h (ent m) \<longleftrightarrow> runs m ?t) \<and> (runs m ?t \<longrightarrow> lock_of ?h (ent m) = Some g)
      \<and> ident ?h (ent m) = code (tm_id (get_timer m ?t))" for m
  proof (cases "m = n")
    case True
    then show ?thesis using new t(2) by simp
  next
    case False
    then have "ent m \<noteq> ent n" using ent_inj [OF d] by simp
    from sched_other [OF h this, where d = d and i = "code i" and g = g] show ?thesis
      using False assms t(3) by (auto simp: holds_def)
  qed
  then show ?thesis using new assms t(1) d by (simp add: holds_def)
qed

lemma cancel_holds:
  assumes "holds code g ent h t"
  shows "holds code g ent (stop h (ent n) (code TIMER_INACTIVE)) (tsx_cancel_timer n t)"
proof -
  let ?h = "stop h (ent n) (code TIMER_INACTIVE)" and ?t = "tsx_cancel_timer n t"
  have h: "ok h" and d: "ent Retransmit_Timer \<noteq> ent Timeout_Timer" using assms by (auto simp: holds_def)
  have t: "m \<noteq> n \<Longrightarrow> get_timer m ?t = get_timer m t"
      "tm_id (get_timer n ?t) = (if runs n t then TIMER_INACTIVE else tm_id (get_timer n t))"
      "grp_refs ?t = (if runs n t then grp_refs t - 1 else grp_refs t)" for m
    by (cases n; cases m; simp add: tsx_cancel_timer_def runs_def)+
  have own: "ok ?h \<and> ready ?h (ent n) \<and> \<not> running ?h (ent n) \<and> ident ?h (ent n) = code (tm_id (get_timer n ?t)) \<and> refs ?h g = grp_refs ?t"
    using stop_running [OF h, of "ent n" g "code TIMER_INACTIVE"] stop_idle [OF h, of "ent n" "code TIMER_INACTIVE"] assms t(2,3)
    by (auto simp: holds_def)
  have "ready ?h (ent m) \<and> (running ?h (ent m) \<longleftrightarrow> runs m ?t) \<and> (runs m ?t \<longrightarrow> lock_of ?h (ent m) = Some g)
      \<and> ident ?h (ent m) = code (tm_id (get_timer m ?t))" for m
  proof (cases "m = n")
    case True
    then show ?thesis using own by simp
  next
    case False
    then have "ent m \<noteq> ent n" using ent_inj [OF d] by simp
    from stop_other [OF h this, of "code TIMER_INACTIVE"] show ?thesis using False assms t(1) by (auto simp: holds_def)
  qed
  then show ?thesis using own d by (simp add: holds_def)
qed

lemma restart_holds:
  "holds code g ent h t \<Longrightarrow>
    holds code g ent (sched (stop h (ent Timeout_Timer) (code TIMER_INACTIVE)) (ent Timeout_Timer) d (code TIMEOUT_TIMER) g) (restart_timeout d t)"
  unfolding restart_timeout_def by (intro schedule_holds cancel_holds)

end

section \<open>The timer heap\<close>

definition heap_ok :: "pj_timer_heap \<Rightarrow> bool" where
  "heap_ok h \<longleftrightarrow> th_inv h \<and> (\<forall>e. pj_timer_entry_running (th_entries h e) \<longrightarrow> e \<in> fst ` set_mset (active h))"

definition entry_ready :: "pj_timer_heap \<Rightarrow> nat \<Rightarrow> bool" where
  "entry_ready h e \<longleftrightarrow> te_cb (th_entries h e) \<noteq> 0"

definition entry_running :: "pj_timer_heap \<Rightarrow> nat \<Rightarrow> bool" where
  "entry_running h e \<longleftrightarrow> pj_timer_entry_running (th_entries h e)"

definition entry_ident :: "pj_timer_heap \<Rightarrow> nat \<Rightarrow> int" where
  "entry_ident h e = te_id (th_entries h e)"

definition entry_lock :: "pj_timer_heap \<Rightarrow> nat \<Rightarrow> nat option" where
  "entry_lock h e = dup_grp_lock (th_timer_dups h ! nat (timer_id (th_entries h e)))"

text \<open>The memory the heap gets when it has to grow is as large as it asks for, with whatever content.\<close>

definition heap_schedule :: "pj_timer_entry_dup \<Rightarrow> pj_time_val \<Rightarrow> pj_timer_heap \<Rightarrow> nat \<Rightarrow> pj_time_val \<Rightarrow> int \<Rightarrow> nat \<Rightarrow> pj_timer_heap" where
  "heap_schedule junk now h e d i g =
     snd (pj_timer_heap_schedule_w_grp_lock (True, True, True) (replicate (th_max_size h) junk) now h e d i (Some g))"

definition heap_cancel :: "pj_timer_heap \<Rightarrow> nat \<Rightarrow> int \<Rightarrow> pj_timer_heap" where
  "heap_cancel h e i = fst (pj_timer_heap_cancel_if_active h e i)"

lemmas entry_defs = entry_ready_def entry_running_def entry_ident_def

lemma running_slot:
  assumes "heap_ok h" and "entry_running h e"
  obtains x where "x \<in> set (live h)" "dup_entry (th_timer_dups h ! x) = e" "timer_id (th_entries h e) = int x"
proof -
  obtain t where "(e, t) \<in># active h" using assms by (auto simp: heap_ok_def entry_running_def)
  then obtain x where "x \<in> set (live h)" "dup_entry (th_timer_dups h ! x) = e" by (auto simp: active_iff)
  then show thesis using that running_id assms(1) unfolding heap_ok_def by metis
qed

lemma heap_schedule_spec:
  fixes junk and now d :: pj_time_val and i g e'
  assumes h: "heap_ok h" "entry_ready h e" "\<not> entry_running h e"
  defines "h' \<equiv> heap_schedule junk now h e d i g"
  shows "heap_ok h' \<and> entry_ready h' e \<and> entry_running h' e \<and> entry_ident h' e = i \<and> entry_lock h' e = Some g
      \<and> th_refs h' = (th_refs h)(g := th_refs h g + 1)"
    and "e' \<noteq> e \<Longrightarrow> entry_ready h' e' = entry_ready h e' \<and> entry_running h' e' = entry_running h e'
      \<and> entry_ident h' e' = entry_ident h e' \<and> (entry_running h e' \<longrightarrow> entry_lock h' e' = entry_lock h e')"
proof -
  have r: "h' = snd (schedule_w_grp_lock (True, True, True) (replicate (th_max_size h) junk) now h e d (Some i) (Some g))"
    by (simp add: h'_def heap_schedule_def pj_timer_heap_schedule_w_grp_lock_def)
  have inv: "th_inv h" using h by (simp add: heap_ok_def)
  note s = schedule_w_grp_lock_spec [OF inv _ h(2) [unfolded entry_ready_def] h(3) [unfolded entry_running_def],
      where mem = "replicate (th_max_size h) junk" and now = now and delay = d and set_id = "Some i" and grp = "Some g",
      folded r, OF length_replicate, simplified]
  have "heap_ok h'"
    unfolding heap_ok_def
  proof (intro conjI allI impI)
    fix e' assume "pj_timer_entry_running (th_entries h' e')"
    then show "e' \<in> fst ` set_mset (active h')" using s(3,5) h(1) by (cases "e' = e") (simp_all add: heap_ok_def)
  qed (rule s(2))
  then show "heap_ok h' \<and> entry_ready h' e \<and> entry_running h' e \<and> entry_ident h' e = i \<and> entry_lock h' e = Some g
      \<and> th_refs h' = (th_refs h)(g := th_refs h g + 1)"
    using s(4,9-12) h(2) by (simp add: entry_defs entry_lock_def)
  assume ne: "e' \<noteq> e"
  have "entry_lock h' e' = entry_lock h e'" if run: "entry_running h e'"
  proof -
    obtain x where x: "x \<in> set (live h)" "timer_id (th_entries h e') = int x" by (rule running_slot [OF h(1) run])
    then show ?thesis using s(5) [OF ne] s(13) [OF x(1)] by (simp add: entry_lock_def)
  qed
  then show "entry_ready h' e' = entry_ready h e' \<and> entry_running h' e' = entry_running h e'
      \<and> entry_ident h' e' = entry_ident h e' \<and> (entry_running h e' \<longrightarrow> entry_lock h' e' = entry_lock h e')"
    using s(5) [OF ne] by (simp add: entry_defs)
qed

lemma heap_cancel_running:
  fixes i e'
  assumes h: "heap_ok h" "entry_running h e"
  defines "h' \<equiv> heap_cancel h e i"
  shows "heap_ok h' \<and> entry_ready h' e = entry_ready h e \<and> \<not> entry_running h' e \<and> entry_ident h' e = i"
    and "entry_lock h e = Some g \<Longrightarrow> th_refs h' = (th_refs h)(g := th_refs h g - 1)"
    and "e' \<noteq> e \<Longrightarrow> entry_ready h' e' = entry_ready h e' \<and> entry_running h' e' = entry_running h e'
      \<and> entry_ident h' e' = entry_ident h e' \<and> (entry_running h e' \<longrightarrow> entry_lock h' e' = entry_lock h e')"
proof -
  have r: "h' = fst (cancel_timer h e (Some i))" by (simp add: h'_def heap_cancel_def pj_timer_heap_cancel_if_active_def)
  have inv: "th_inv h" using h by (simp add: heap_ok_def)
  obtain t where t: "(e, t) \<in># active h" using h by (auto simp: heap_ok_def entry_running_def)
  note c = cancel_timer_running(2-5,9-12) [OF inv t, where set_id = "Some i", folded r]
  have other: "e' \<in> fst ` set_mset (active h')" if ne: "e' \<noteq> e" and act: "e' \<in> fst ` set_mset (active h)" for e'
  proof -
    obtain u where "(e', u) \<in># active h" using act by auto
    then have "(e', u) \<in># active h'" using ne c(2) by (simp add: in_diff_count)
    then show ?thesis by force
  qed
  have ok: "heap_ok h'"
    unfolding heap_ok_def
  proof (intro conjI allI impI)
    fix e' assume e': "pj_timer_entry_running (th_entries h' e')"
    then have "e' \<noteq> e" using c(3) by (auto simp: pj_timer_entry_running_def)
    then show "e' \<in> fst ` set_mset (active h')" using e' c(4) h(1) other by (simp add: heap_ok_def)
  qed (rule c(1))
  then show "heap_ok h' \<and> entry_ready h' e = entry_ready h e \<and> \<not> entry_running h' e \<and> entry_ident h' e = i"
    using c(3,6,7) by (simp add: entry_defs pj_timer_entry_running_def)
  show "th_refs h' = (th_refs h)(g := th_refs h g - 1)" if "entry_lock h e = Some g"
    using c(8) that by (simp add: entry_lock_def)
  assume ne: "e' \<noteq> e"
  have "entry_lock h' e' = entry_lock h e'" if run: "entry_running h e'"
  proof -
    have "entry_running h' e'" using run c(4) [OF ne] by (simp add: entry_running_def)
    then obtain x where x: "x \<in> set (live h')" "timer_id (th_entries h' e') = int x" by (rule running_slot [OF ok])
    then show ?thesis using c(4) [OF ne] c(5) [OF x(1)] by (simp add: entry_lock_def)
  qed
  then show "entry_ready h' e' = entry_ready h e' \<and> entry_running h' e' = entry_running h e'
      \<and> entry_ident h' e' = entry_ident h e' \<and> (entry_running h e' \<longrightarrow> entry_lock h' e' = entry_lock h e')"
    using c(4) [OF ne] by (simp add: entry_defs)
qed

lemma heap_cancel_idle:
  assumes h: "heap_ok h" "\<not> entry_running h e"
  shows "heap_cancel h e i = upd_entry e (\<lambda>d. d\<lparr>timer_id := -1\<rparr>) h"
proof -
  have "e \<notin> fst ` set_mset (active h)" using assms active_running [of h e] by (force simp: heap_ok_def entry_running_def)
  then show ?thesis
    using cancel_timer_idle h(1) by (simp add: heap_cancel_def pj_timer_heap_cancel_if_active_def heap_ok_def)
qed

lemma heap_cancel_idle_spec:
  assumes h: "heap_ok h" "\<not> entry_running h e"
  shows "heap_ok (heap_cancel h e i) \<and> \<not> entry_running (heap_cancel h e i) e \<and> th_refs (heap_cancel h e i) = th_refs h
    \<and> entry_ready (heap_cancel h e i) e' = entry_ready h e' \<and> entry_ident (heap_cancel h e i) e' = entry_ident h e'
    \<and> (e' \<noteq> e \<longrightarrow> entry_running (heap_cancel h e i) e' = entry_running h e' \<and> entry_lock (heap_cancel h e i) e' = entry_lock h e')"
proof -
  let ?h = "upd_entry e (\<lambda>d. d\<lparr>timer_id := -1\<rparr>) h"
  have "e \<notin> fst ` set_mset (active h)" using assms active_running [of h e] by (force simp: heap_ok_def entry_running_def)
  then have "\<And>x. x \<in> set (live h) \<Longrightarrow> dup_entry (th_timer_dups h ! x) \<noteq> e" by (auto simp: active_def image_image)
  then have sa: "same_timers h ?h" by (simp add: same_timers_def upd_entry_def)
  have "heap_ok ?h" using h same_timers_inv [OF sa] same_timers_active [OF sa]
    by (auto simp: heap_ok_def upd_entry_def pj_timer_entry_running_def)
  then show ?thesis unfolding heap_cancel_idle [OF h]
    by (auto simp: entry_defs entry_lock_def upd_entry_def pj_timer_entry_running_def)
qed

interpretation heap_timers: timer_service heap_ok entry_ready entry_running entry_ident entry_lock th_refs
    "heap_schedule junk now" heap_cancel
  for junk now
proof (unfold_locales, goal_cases)
  case (1 h e d i g)
  then show ?case using timer_schedule_refused [of h e]
    by (simp add: heap_schedule_def pj_timer_heap_schedule_w_grp_lock_def entry_defs)
next
  case (2 h e d i g)
  then show ?case by (rule heap_schedule_spec(1))
next
  case (3 h e d i g e')
  then show ?case by (intro heap_schedule_spec(2))
next
  case (4 h e i g)
  then show ?case using heap_cancel_running(1,2) by simp
next
  case (5 h e i)
  then show ?case using heap_cancel_idle_spec [of h e i e] by simp
next
  case (6 h e i e')
  then show ?case using heap_cancel_running(3) heap_cancel_idle_spec [of h e i e'] by (cases "entry_running h e") simp_all
qed

section \<open>The transaction on the heap\<close>

text \<open>The integers of \<^verbatim>\<open>sip_transaction.c\<close> for the timer ids.\<close>

primrec timer_code :: "tsx_timer_id \<Rightarrow> int" where
  "timer_code TIMER_INACTIVE = 0"
| "timer_code RETRANSMIT_TIMER = 1"
| "timer_code TIMEOUT_TIMER = 2"
| "timer_code TRANSPORT_ERR_TIMER = 3"
| "timer_code TRANSPORT_DISC_TIMER = 4"

text \<open>The heap holds the timers of the transaction: entries \<open>ent\<close>, group lock \<open>g\<close>, which is the transaction's counter.\<close>

definition on_heap :: "nat \<Rightarrow> (tsx_timer_name \<Rightarrow> nat) \<Rightarrow> pj_timer_heap \<Rightarrow> pjsip_transaction \<Rightarrow> bool" where
  "on_heap g ent h t \<longleftrightarrow>
     th_inv h \<and> (\<forall>e. pj_timer_entry_running (th_entries h e) \<longrightarrow> e \<in> fst ` set_mset (active h))
     \<and> ent Retransmit_Timer \<noteq> ent Timeout_Timer \<and> th_refs h g = grp_refs t
     \<and> (\<forall>n. te_cb (th_entries h (ent n)) \<noteq> 0
          \<and> (pj_timer_entry_running (th_entries h (ent n)) \<longleftrightarrow> tm_running (get_timer n t) \<noteq> None)
          \<and> (tm_running (get_timer n t) \<noteq> None \<longrightarrow> entry_lock h (ent n) = Some g)
          \<and> te_id (th_entries h (ent n)) = timer_code (tm_id (get_timer n t)))"

lemma on_heap_holds: "on_heap g ent h t = heap_timers.holds timer_code g ent h t"
  by (auto simp: on_heap_def heap_timers.holds_def heap_ok_def entry_defs runs_def)

text \<open>
C15. Scheduling and cancelling the timers of a transaction on the timer heap of pjlib does to the
two entries, their ids and the group lock what the model of the transaction says: the record of
the transaction stays in agreement with the heap.
\<close>

theorem tsx_timers_on_heap:
  assumes "on_heap g ent h t"
  shows "on_heap g ent (snd (pj_timer_heap_schedule_w_grp_lock (True, True, True) (replicate (th_max_size h) junk) now h (ent n) delay
      (timer_code i) (Some g))) (tsx_schedule_timer n delay i t)
    \<and> on_heap g ent (fst (pj_timer_heap_cancel_if_active h (ent n) (timer_code TIMER_INACTIVE))) (tsx_cancel_timer n t)"
  using heap_timers.schedule_holds [of timer_code g ent h t junk now n delay i] heap_timers.cancel_holds [of timer_code g ent h t n] assms
  by (simp only: on_heap_holds heap_schedule_def heap_cancel_def simp_thms)

text \<open>A new transaction and a new heap.\<close>

definition ex_theap :: pj_timer_heap where
  "ex_theap = pj_timer_heap_create (ex_mem 2) (\<lambda>_. \<lparr>user_data = 0, te_id = 0, te_cb = 1, timer_id = -1\<rparr>) (\<lambda>_. 1) 0"

definition ex_ent :: "tsx_timer_name \<Rightarrow> nat" where
  "ex_ent n = (if n = Retransmit_Timer then 1 else 2)"

definition ex_new :: pjsip_transaction where
  "ex_new = tsx_create None 0 (\<lambda>_. 0) (\<lambda>_. 0) (\<lambda>_. 0) PJSIP_ROLE_UAC PJSIP_INVITE_METHOD"

theorem tsx_timers_on_heap_witness:
  "on_heap 7 ex_ent ex_theap ex_new
    \<and> on_heap 7 ex_ent (snd (pj_timer_heap_schedule_w_grp_lock (True, True, True) (replicate (th_max_size ex_theap) (ex_mem 2 ! 0))
        (Time_Val 1 0) ex_theap (ex_ent Timeout_Timer) (Time_Val 32 0) (timer_code TIMEOUT_TIMER) (Some 7)))
        (tsx_schedule_timer Timeout_Timer (Time_Val 32 0) TIMEOUT_TIMER ex_new)"
proof -
  have "th_inv ex_theap" unfolding ex_theap_def by (rule create_inv) (simp add: ex_mem_def)
  moreover have "get_timer n ex_new = \<lparr>tm_id = TIMER_INACTIVE, tm_running = None\<rparr>" for n by (cases n) (simp_all add: ex_new_def tsx_create_def)
  moreover have "th_entries ex_theap e = \<lparr>user_data = 0, te_id = 0, te_cb = 1, timer_id = -1\<rparr>" "th_refs ex_theap g = 1" for e g
    by (simp_all add: ex_theap_def pj_timer_heap_create_def)
  ultimately have h: "on_heap 7 ex_ent ex_theap ex_new"
    by (simp add: on_heap_def ex_ent_def pj_timer_entry_running_def) (simp add: ex_new_def tsx_create_def)
  then show ?thesis using tsx_timers_on_heap [OF h] by blast
qed

end
