(* ===== verification/Sip_Tsx_Key.thy ===== *)
theory Sip_Tsx_Key
  imports Pj_Hash Sip_Transaction
begin

text \<open>
  Methods (\<^verbatim>\<open>sip_msg.c\<close>) and the keys by which the transaction layer finds the transaction of a message (\<^verbatim>\<open>sip_transaction.c\<close>): the branch
  of the topmost Via for peers that follow RFC 3261, other parts of the message for older ones.
\<close>

section \<open>Methods\<close>

record pjsip_method =
  meth_id :: pjsip_method_e
  meth_name :: string

definition method_names :: "(pjsip_method_e \<times> string) list" where
  "method_names =
     [(PJSIP_INVITE_METHOD, ''INVITE''), (PJSIP_CANCEL_METHOD, ''CANCEL''), (PJSIP_ACK_METHOD, ''ACK''),
      (PJSIP_BYE_METHOD, ''BYE''), (PJSIP_REGISTER_METHOD, ''REGISTER''), (PJSIP_OPTIONS_METHOD, ''OPTIONS'')]"

text \<open>The first test of \<^verbatim>\<open>pjsip_method_init_np\<close>, of pointer and length, is a shortcut: equal pointers are equal strings.\<close>

fun method_init_loop :: "(pjsip_method_e \<times> string) list \<Rightarrow> string \<Rightarrow> pjsip_method" where
  "method_init_loop [] str = \<lparr>meth_id = PJSIP_OTHER_METHOD, meth_name = str\<rparr>"
| "method_init_loop ((i, name) # names) str =
     (if str = name \<or> pj_stricmp str name = 0 then \<lparr>meth_id = i, meth_name = name\<rparr> else method_init_loop names str)"

definition pjsip_method_init_np :: "string \<Rightarrow> pjsip_method" where
  "pjsip_method_init_np str = method_init_loop method_names str"

definition pjsip_method_set :: "pjsip_method_e \<Rightarrow> pjsip_method option" where
  "pjsip_method_set me = map_option (\<lambda>name. \<lparr>meth_id = me, meth_name = name\<rparr>) (map_of method_names me)"

primrec method_rank :: "pjsip_method_e \<Rightarrow> nat" where
  "method_rank PJSIP_INVITE_METHOD = 0"
| "method_rank PJSIP_CANCEL_METHOD = 1"
| "method_rank PJSIP_ACK_METHOD = 2"
| "method_rank PJSIP_BYE_METHOD = 3"
| "method_rank PJSIP_REGISTER_METHOD = 4"
| "method_rank PJSIP_OPTIONS_METHOD = 5"
| "method_rank PJSIP_OTHER_METHOD = 6"

definition pjsip_method_cmp :: "pjsip_method \<Rightarrow> pjsip_method \<Rightarrow> int" where
  "pjsip_method_cmp m1 m2 =
     (if meth_id m1 = meth_id m2
      then (if meth_id m1 \<noteq> PJSIP_OTHER_METHOD then 0 else pj_strcmp (meth_name m1) (meth_name m2))
      else if method_rank (meth_id m1) < method_rank (meth_id m2) then -1 else 1)"

section \<open>Keys\<close>

text \<open>What the key of a received message is made of; a header that is missing is \<open>None\<close>.\<close>

record via_hdr =
  branch_param :: string
  sent_by_host :: string
  sent_by_port :: int

record pjsip_rdata =
  rd_msg :: pjsip_rx_msg
  rd_via :: "via_hdr option"
  rd_cseq :: "(int \<times> pjsip_method) option"
  rd_from_tag :: "string option"
  rd_to :: bool
  rd_call_id :: "string option"

definition PJSIP_RFC3261_BRANCH_ID :: string where
  "PJSIP_RFC3261_BRANCH_ID = ''z9hG4bK''"

definition PJSIP_RFC3261_BRANCH_LEN :: nat where
  "PJSIP_RFC3261_BRANCH_LEN = 7"

definition role_char :: "pjsip_role \<Rightarrow> char" where
  "role_char role = (if role = PJSIP_ROLE_UAC then CHR ''c'' else CHR ''s'')"

definition key_method :: "pjsip_method \<Rightarrow> string" where
  "key_method m =
     (if meth_id m \<noteq> PJSIP_INVITE_METHOD \<and> meth_id m \<noteq> PJSIP_ACK_METHOD then meth_name m @ ''$'' else [])"

text \<open>
  The number of CSeq and the port are printed as \<^verbatim>\<open>unsigned long\<close>. The second result of both functions is the key they write, and
  \<open>key_2543_size\<close> and \<open>key_3261_size\<close> are the sizes of the memory they allocate for it. \<open>None\<close>: a null pointer is followed, of a
  message without Call-ID in the first function, and of one without Via in \<open>pjsip_tsx_create_key\<close>.
\<close>

definition key_2543_size :: "pjsip_method \<Rightarrow> string \<Rightarrow> string \<Rightarrow> string \<Rightarrow> nat" where
  "key_2543_size m tag cid host = length (meth_name m) + 11 + length tag + length cid + length host + 11 + 16"

definition create_tsx_key_2543 :: "pjsip_role \<Rightarrow> pjsip_method \<Rightarrow> pjsip_rdata \<Rightarrow> (pj_status \<times> string) option" where
  "create_tsx_key_2543 role m rdata =
     (case rd_via rdata of
        None \<Rightarrow> Some (PJSIP_EMISSINGHDR, [])
      | Some via \<Rightarrow>
          (case rd_cseq rdata of
             None \<Rightarrow> Some (PJSIP_EMISSINGHDR, [])
           | Some (cseq, _) \<Rightarrow>
               (case rd_from_tag rdata of
                  None \<Rightarrow> Some (PJSIP_EMISSINGHDR, [])
                | Some tag \<Rightarrow>
                    (case rd_call_id rdata of
                       None \<Rightarrow> None
                     | Some cid \<Rightarrow>
                         Some (PJ_SUCCESS,
                           [role_char role] @ ''$'' @ key_method m @ pj_utoa (word_of_int cseq) @ ''$'' @ tag @ ''$''
                           @ cid @ ''$'' @ sent_by_host via @ '':'' @ pj_utoa (word_of_int (sent_by_port via))
                           @ ''$'' @ [NUL])))))"

definition key_3261_size :: "pjsip_method \<Rightarrow> string \<Rightarrow> nat" where
  "key_3261_size m branch = length branch + length (meth_name m) + 4"

definition create_tsx_key_3261 :: "pjsip_role \<Rightarrow> pjsip_method \<Rightarrow> string \<Rightarrow> pj_status \<times> string" where
  "create_tsx_key_3261 role m branch = (PJ_SUCCESS, [role_char role] @ ''$'' @ key_method m @ branch)"

definition pjsip_tsx_create_key :: "pjsip_role \<Rightarrow> pjsip_method \<Rightarrow> pjsip_rdata \<Rightarrow> (pj_status \<times> string) option" where
  "pjsip_tsx_create_key role m rdata =
     (case rd_via rdata of
        None \<Rightarrow> None
      | Some via \<Rightarrow>
          if pj_strnicmp (branch_param via) PJSIP_RFC3261_BRANCH_ID PJSIP_RFC3261_BRANCH_LEN = 0
          then Some (create_tsx_key_3261 role m (branch_param via))
          else create_tsx_key_2543 role m rdata)"

text \<open>The transport manager drops messages without these headers before any module sees them.\<close>

definition basic_headers :: "pjsip_rdata \<Rightarrow> bool" where
  "basic_headers rdata \<longleftrightarrow>
     \<not> (rd_call_id rdata = None \<or> rd_call_id rdata = Some [] \<or> rd_from_tag rdata = None \<or> \<not> rd_to rdata
        \<or> rd_via rdata = None \<or> rd_cseq rdata = None)"

section \<open>Lemmas\<close>

definition same_method :: "pjsip_method \<Rightarrow> pjsip_method \<Rightarrow> bool" where
  "same_method m1 m2 \<longleftrightarrow> map pj_tolower (key_method m1) = map pj_tolower (key_method m2)"

text \<open>Methods without the separator in their names: equal parts of keys mean equal names, or INVITE and ACK.\<close>

lemma same_method_iff:
  "same_method m1 m2 \<longleftrightarrow>
     (meth_id m1 \<in> {PJSIP_INVITE_METHOD, PJSIP_ACK_METHOD} \<and> meth_id m2 \<in> {PJSIP_INVITE_METHOD, PJSIP_ACK_METHOD}
      \<or> meth_id m1 \<notin> {PJSIP_INVITE_METHOD, PJSIP_ACK_METHOD} \<and> meth_id m2 \<notin> {PJSIP_INVITE_METHOD, PJSIP_ACK_METHOD}
        \<and> map pj_tolower (meth_name m1) = map pj_tolower (meth_name m2))"
  by (auto simp: same_method_def key_method_def)

lemma tolower_dollar [simp]: "pj_tolower c = CHR ''$'' \<longleftrightarrow> c = CHR ''$''"
proof -
  have "byte CHR ''$'' = 36" by (simp add: byte_def)
  then have "pj_tolower c = CHR ''$'' \<longleftrightarrow> byte (pj_tolower c) = 36" "c = CHR ''$'' \<longleftrightarrow> byte c = 36"
    by (metis byte_inject)+
  then show ?thesis by (auto simp: byte_pj_tolower)
qed

lemma tolower_self [simp]: "pj_tolower CHR ''$'' = CHR ''$''" "pj_tolower CHR ''c'' = CHR ''c''" "pj_tolower CHR ''s'' = CHR ''s''"
  by (simp_all add: pj_tolower_def byte_def)

lemma tolower_role_char [simp]: "pj_tolower (role_char r) = role_char r" "role_char r = role_char r' \<longleftrightarrow> r = r'"
  by (cases r; cases r'; simp add: role_char_def)+

lemma map_tolower_mem: "CHR ''$'' \<in> set (map pj_tolower s) \<longleftrightarrow> CHR ''$'' \<in> set s"
proof
  assume "CHR ''$'' \<in> set (map pj_tolower s)"
  then obtain c where "c \<in> set s" "pj_tolower c = CHR ''$''" by (metis imageE list.set_map)
  then show "CHR ''$'' \<in> set s" by (simp only: tolower_dollar)
next
  assume "CHR ''$'' \<in> set s"
  then have "pj_tolower CHR ''$'' \<in> set (map pj_tolower s)" by (simp only: list.set_map imageI)
  then show "CHR ''$'' \<in> set (map pj_tolower s)" by (simp only: tolower_self)
qed

lemma dollar_split:
  assumes "a1 @ d # b1 = a2 @ d # b2" "d \<notin> set a1" "d \<notin> set a2"
  shows "a1 = a2 \<and> b1 = b2"
  using assms by (induction a1 arbitrary: a2) (auto simp: Cons_eq_append_conv append_eq_Cons_conv split: if_splits)

text \<open>Branches that start with the magic cookie; no case matters in it.\<close>

definition has_cookie :: "string \<Rightarrow> bool" where
  "has_cookie s \<longleftrightarrow> map pj_tolower (take PJSIP_RFC3261_BRANCH_LEN s) = map pj_tolower PJSIP_RFC3261_BRANCH_ID"

lemma cookie_test: "pj_strnicmp s PJSIP_RFC3261_BRANCH_ID PJSIP_RFC3261_BRANCH_LEN = 0 \<longleftrightarrow> has_cookie s"
proof -
  have ok: "key_ok PJSIP_RFC3261_BRANCH_ID" "take PJSIP_RFC3261_BRANCH_LEN PJSIP_RFC3261_BRANCH_ID = PJSIP_RFC3261_BRANCH_ID"
    by (simp_all add: key_ok_def PJSIP_RFC3261_BRANCH_ID_def PJSIP_RFC3261_BRANCH_LEN_def)
  show ?thesis using pj_strnicmp_0_right [of PJSIP_RFC3261_BRANCH_LEN PJSIP_RFC3261_BRANCH_ID s] ok by (simp add: has_cookie_def)
qed

lemma cookie_dollar: "CHR ''$'' \<notin> set (map pj_tolower PJSIP_RFC3261_BRANCH_ID)"
  unfolding map_tolower_mem by (simp add: PJSIP_RFC3261_BRANCH_ID_def)

text \<open>A branch with the cookie is no method name, separator and rest, unless the name has the cookie.\<close>

lemma cookie_no_method:
  assumes "has_cookie b" "map pj_tolower b = map pj_tolower (name @ ''$'' @ rest)"
  shows "has_cookie name"
proof -
  have c: "take PJSIP_RFC3261_BRANCH_LEN (map pj_tolower (name @ ''$'' @ rest)) = map pj_tolower PJSIP_RFC3261_BRANCH_ID"
    using assms by (metis has_cookie_def take_map)
  show ?thesis
  proof (cases "PJSIP_RFC3261_BRANCH_LEN \<le> length name")
    case True
    then show ?thesis using c by (simp add: has_cookie_def take_map)
  next
    case False
    then have "take PJSIP_RFC3261_BRANCH_LEN (map pj_tolower (name @ ''$'' @ rest))
        = map pj_tolower name @ CHR ''$'' # take (PJSIP_RFC3261_BRANCH_LEN - length name - 1) (map pj_tolower rest)"
      by (cases "PJSIP_RFC3261_BRANCH_LEN - length name") simp_all
    then show ?thesis using c cookie_dollar by (metis in_set_conv_decomp)
  qed
qed

lemma key_parts:
  assumes "map pj_tolower (key_method m1 @ b1) = map pj_tolower (key_method m2 @ b2)"
    and "CHR ''$'' \<notin> set (meth_name m1) \<union> set (meth_name m2)" "has_cookie b1" "has_cookie b2"
    and "\<not> has_cookie (meth_name m1)" "\<not> has_cookie (meth_name m2)"
  shows "same_method m1 m2 \<and> map pj_tolower b1 = map pj_tolower b2"
proof -
  have d: "CHR ''$'' \<notin> set (map pj_tolower s)" if "CHR ''$'' \<notin> set s" for s using that by (simp only: map_tolower_mem not_False_eq_True)
  have "key_method m1 = [] \<longleftrightarrow> key_method m2 = []"
    using assms(1,5,6) cookie_no_method [OF assms(3), of "meth_name m2" b2] cookie_no_method [OF assms(4), of "meth_name m1" b1]
    by (auto simp: key_method_def split: if_splits)
  then show ?thesis
    using assms(1) dollar_split [OF _ d d, of "meth_name m1" "map pj_tolower b1" "meth_name m2" "map pj_tolower b2"] assms(2)
    by (auto simp: key_method_def same_method_def split: if_splits)
qed

section \<open>Properties\<close>

text \<open>A request with the given branch.\<close>

definition new_request :: "string \<Rightarrow> pjsip_rdata" where
  "new_request b = \<lparr>rd_msg = Rx_Request PJSIP_INVITE_METHOD, rd_via = Some \<lparr>branch_param = b, sent_by_host = ''h'', sent_by_port = 5060\<rparr>,
     rd_cseq = None, rd_from_tag = None, rd_to = True, rd_call_id = None\<rparr>"

text \<open>
C26. The keys made for two messages whose branches begin with the cookie of RFC 3261, and whose
method names have no $ (the parser takes none) and do not begin with the cookie, are equal up to
case exactly when the roles are the same, the branches are equal up to case, and the methods are
equal up to case or both among INVITE and ACK: the rule of RFC 3261 for matching messages to
transactions.
\<close>

theorem tsx_key_match:
  assumes "rd_via rd1 = Some v1" "pj_strnicmp (branch_param v1) PJSIP_RFC3261_BRANCH_ID PJSIP_RFC3261_BRANCH_LEN = 0"
    and "rd_via rd2 = Some v2" "pj_strnicmp (branch_param v2) PJSIP_RFC3261_BRANCH_ID PJSIP_RFC3261_BRANCH_LEN = 0"
    and "CHR ''$'' \<notin> set (meth_name m1) \<union> set (meth_name m2)"
    and "pj_strnicmp (meth_name m1) PJSIP_RFC3261_BRANCH_ID PJSIP_RFC3261_BRANCH_LEN \<noteq> 0"
    and "pj_strnicmp (meth_name m2) PJSIP_RFC3261_BRANCH_ID PJSIP_RFC3261_BRANCH_LEN \<noteq> 0"
  shows "\<exists>k1 k2. pjsip_tsx_create_key r1 m1 rd1 = Some (PJ_SUCCESS, k1) \<and> pjsip_tsx_create_key r2 m2 rd2 = Some (PJ_SUCCESS, k2)
    \<and> (map pj_tolower k1 = map pj_tolower k2 \<longleftrightarrow>
        r1 = r2 \<and> map pj_tolower (branch_param v1) = map pj_tolower (branch_param v2)
        \<and> (if meth_id m1 \<in> {PJSIP_INVITE_METHOD, PJSIP_ACK_METHOD} then meth_id m2 \<in> {PJSIP_INVITE_METHOD, PJSIP_ACK_METHOD}
           else meth_id m2 \<notin> {PJSIP_INVITE_METHOD, PJSIP_ACK_METHOD} \<and> map pj_tolower (meth_name m1) = map pj_tolower (meth_name m2)))"
proof -
  let ?k = "\<lambda>r m v. [role_char r] @ ''$'' @ key_method m @ branch_param v"
  have k: "pjsip_tsx_create_key r1 m1 rd1 = Some (PJ_SUCCESS, ?k r1 m1 v1)" "pjsip_tsx_create_key r2 m2 rd2 = Some (PJ_SUCCESS, ?k r2 m2 v2)"
    using assms(1-4) by (simp_all add: pjsip_tsx_create_key_def create_tsx_key_3261_def)
  have "map pj_tolower (?k r1 m1 v1) = map pj_tolower (?k r2 m2 v2) \<longleftrightarrow>
      r1 = r2 \<and> same_method m1 m2 \<and> map pj_tolower (branch_param v1) = map pj_tolower (branch_param v2)"
    using key_parts [of m1 "branch_param v1" m2 "branch_param v2"] assms(2,4-7) by (auto simp: cookie_test same_method_def)
  then show ?thesis unfolding same_method_iff using k by (intro exI conjI) auto
qed

theorem tsx_key_match_witness:
  "\<exists>ki ka kc. pjsip_tsx_create_key PJSIP_ROLE_UAS (pjsip_method_init_np ''INVITE'') (new_request ''z9hG4bKa1'') = Some (PJ_SUCCESS, ki)
     \<and> pjsip_tsx_create_key PJSIP_ROLE_UAS (pjsip_method_init_np ''ACK'') (new_request ''Z9HG4BKA1'') = Some (PJ_SUCCESS, ka)
     \<and> pjsip_tsx_create_key PJSIP_ROLE_UAS (pjsip_method_init_np ''CANCEL'') (new_request ''z9hG4bKa1'') = Some (PJ_SUCCESS, kc)
     \<and> map pj_tolower ki = map pj_tolower ka \<and> map pj_tolower ki \<noteq> map pj_tolower kc"
proof -
  let ?i = "pjsip_method_init_np ''INVITE''" and ?a = "pjsip_method_init_np ''ACK''" and ?c = "pjsip_method_init_np ''CANCEL''"
  have m: "?i = \<lparr>meth_id = PJSIP_INVITE_METHOD, meth_name = ''INVITE''\<rparr>" "?a = \<lparr>meth_id = PJSIP_ACK_METHOD, meth_name = ''ACK''\<rparr>"
    "?c = \<lparr>meth_id = PJSIP_CANCEL_METHOD, meth_name = ''CANCEL''\<rparr>" by code_simp+
  have b: "map pj_tolower ''z9hG4bKa1'' = map pj_tolower ''Z9HG4BKA1''" by code_simp
  have c: "pj_strnicmp ''z9hG4bKa1'' PJSIP_RFC3261_BRANCH_ID PJSIP_RFC3261_BRANCH_LEN = 0"
    "pj_strnicmp ''Z9HG4BKA1'' PJSIP_RFC3261_BRANCH_ID PJSIP_RFC3261_BRANCH_LEN = 0"
    "pj_strnicmp ''INVITE'' PJSIP_RFC3261_BRANCH_ID PJSIP_RFC3261_BRANCH_LEN \<noteq> 0"
    "pj_strnicmp ''ACK'' PJSIP_RFC3261_BRANCH_ID PJSIP_RFC3261_BRANCH_LEN \<noteq> 0"
    "pj_strnicmp ''CANCEL'' PJSIP_RFC3261_BRANCH_ID PJSIP_RFC3261_BRANCH_LEN \<noteq> 0" by code_simp+
  have v: "rd_via (new_request b) = Some \<lparr>branch_param = b, sent_by_host = ''h'', sent_by_port = 5060\<rparr>" for b by (simp add: new_request_def)
  show ?thesis
    unfolding m
    using tsx_key_match [OF v _ v, of "''z9hG4bKa1''" "''Z9HG4BKA1''" "\<lparr>meth_id = PJSIP_INVITE_METHOD, meth_name = ''INVITE''\<rparr>"
          "\<lparr>meth_id = PJSIP_ACK_METHOD, meth_name = ''ACK''\<rparr>" PJSIP_ROLE_UAS PJSIP_ROLE_UAS]
      tsx_key_match [OF v _ v, of "''z9hG4bKa1''" "''z9hG4bKa1''" "\<lparr>meth_id = PJSIP_INVITE_METHOD, meth_name = ''INVITE''\<rparr>"
          "\<lparr>meth_id = PJSIP_CANCEL_METHOD, meth_name = ''CANCEL''\<rparr>" PJSIP_ROLE_UAS PJSIP_ROLE_UAS] b
    by (auto simp: c)
qed

lemma utoa_small: "0 \<le> i \<Longrightarrow> i < 10 ^ k \<Longrightarrow> k > 0 \<Longrightarrow> i < 2 ^ 64 \<Longrightarrow> length (pj_utoa (word_of_int i)) \<le> k"
  by (rule length_pj_utoa) (simp_all add: unat_of_int_u64 nat_less_iff)

theorem tsx_key_fits_memory:
  assumes "rd_via rdata = Some via" "rd_cseq rdata = Some (cseq, cm)" "rd_from_tag rdata = Some tag" "rd_call_id rdata = Some cid"
    and "0 \<le> cseq" "cseq < 2 ^ 31" "0 \<le> sent_by_port via" "sent_by_port via < 2 ^ 16"
  shows "\<exists>key. create_tsx_key_2543 role m rdata = Some (PJ_SUCCESS, key) \<and> length key \<le> key_2543_size m tag cid (sent_by_host via)
    \<and> length (snd (create_tsx_key_3261 role m branch)) \<le> key_3261_size m branch"
  using assms utoa_small [of cseq 10] utoa_small [of "sent_by_port via" 5]
  by (simp add: create_tsx_key_2543_def create_tsx_key_3261_def key_2543_size_def key_3261_size_def key_method_def)

text \<open>A request of a peer that does not follow RFC 3261.\<close>

definition old_bye :: pjsip_rdata where
  "old_bye = \<lparr>rd_msg = Rx_Request PJSIP_BYE_METHOD, rd_via = Some \<lparr>branch_param = ''1'', sent_by_host = ''h'', sent_by_port = 65535\<rparr>,
     rd_cseq = Some (2147483647, pjsip_method_init_np ''BYE''), rd_from_tag = Some ''t'', rd_to = True, rd_call_id = Some ''c''\<rparr>"

theorem tsx_key_fits_memory_witness:
  "\<exists>key. create_tsx_key_2543 PJSIP_ROLE_UAS (pjsip_method_init_np ''BYE'') old_bye = Some (PJ_SUCCESS, key)
     \<and> key = ''s$BYE$2147483647$t$c$h:65535$'' @ [NUL] \<and> length key \<le> 44"
proof -
  have "key_2543_size (pjsip_method_init_np ''BYE'') ''t'' ''c'' ''h'' = 44"
    "create_tsx_key_2543 PJSIP_ROLE_UAS (pjsip_method_init_np ''BYE'') old_bye = Some (PJ_SUCCESS, ''s$BYE$2147483647$t$c$h:65535$'' @ [NUL])"
    by code_simp+
  then show ?thesis
    using tsx_key_fits_memory [of old_bye "\<lparr>branch_param = ''1'', sent_by_host = ''h'', sent_by_port = 65535\<rparr>" 2147483647
        "pjsip_method_init_np ''BYE''" "''t''" "''c''" PJSIP_ROLE_UAS "pjsip_method_init_np ''BYE''" "''''"]
    by (simp add: old_bye_def)
qed

text \<open>Keys of the two kinds differ: one ends with a null, the other with the branch.\<close>

lemma map_tolower_last: "s \<noteq> [] \<Longrightarrow> last (map pj_tolower s) = NUL \<longleftrightarrow> last s = NUL"
  by (simp add: last_map)

lemma key_kinds_differ:
  assumes "create_tsx_key_2543 r1 m1 rdata = Some (PJ_SUCCESS, k1)" "NUL \<notin> set branch"
  shows "norm True k1 \<noteq> norm True (snd (create_tsx_key_3261 r2 m2 branch))"
proof
  let ?k2 = "snd (create_tsx_key_3261 r2 m2 branch)"
  assume eq: "norm True k1 = norm True ?k2"
  have k1: "k1 \<noteq> []" "last k1 = NUL" using assms(1) by (auto simp: create_tsx_key_2543_def split: option.splits)
  have k2: "?k2 \<noteq> []" by (simp add: create_tsx_key_3261_def)
  have "last ?k2 = NUL" using eq k1 k2 map_tolower_last by (metis norm_def)
  then have "last (''$'' @ key_method m2 @ branch) = NUL" by (simp add: create_tsx_key_3261_def)
  moreover have "last (''$'' @ key_method m2 @ branch) \<in> set (''$'' @ [last (''$'' @ key_method m2)] @ branch)"
    by (cases branch rule: rev_cases) simp_all
  ultimately have "last (''$'' @ key_method m2) = NUL" using assms(2) by auto
  then show False by (simp add: key_method_def split: if_splits)
qed

theorem tsx_key_needs_cookie:
  assumes "rd_via rdata = Some via" "pj_strnicmp (branch_param via) PJSIP_RFC3261_BRANCH_ID PJSIP_RFC3261_BRANCH_LEN \<noteq> 0"
    and "NUL \<notin> set (branch_param via)" "pjsip_tsx_create_key PJSIP_ROLE_UAC m rdata = Some (PJ_SUCCESS, key)"
  shows "norm True key \<noteq> norm True (snd (create_tsx_key_3261 PJSIP_ROLE_UAC m (branch_param via)))"
  using assms by (intro key_kinds_differ) (simp_all add: pjsip_tsx_create_key_def)

theorem tsx_key_needs_cookie_witness:
  "\<exists>key. pjsip_tsx_create_key PJSIP_ROLE_UAC (pjsip_method_init_np ''BYE'') old_bye = Some (PJ_SUCCESS, key)
     \<and> norm True key \<noteq> norm True (snd (create_tsx_key_3261 PJSIP_ROLE_UAC (pjsip_method_init_np ''BYE'') ''1''))"
proof -
  let ?via = "\<lparr>branch_param = ''1'', sent_by_host = ''h'', sent_by_port = 65535\<rparr>"
  have "pj_strnicmp ''1'' PJSIP_RFC3261_BRANCH_ID PJSIP_RFC3261_BRANCH_LEN \<noteq> 0"
    "map_option fst (pjsip_tsx_create_key PJSIP_ROLE_UAC (pjsip_method_init_np ''BYE'') old_bye) = Some PJ_SUCCESS" by code_simp+
  then show ?thesis
    using tsx_key_needs_cookie [of old_bye ?via "pjsip_method_init_np ''BYE''"] by (auto simp: old_bye_def)
qed

end
