(* ===== verification/Sip_Tsx_Reg.thy ===== *)
theory Sip_Tsx_Reg
  imports Sip_Tsx_Runs
begin

text \<open>
  When a transaction takes itself out of the table of its layer: on entering the state Destroyed, and a second time if the
  send it had to wait for comes back after that. Nothing else a transaction does touches its registration.
\<close>

section \<open>Frame\<close>

definition obs :: "pjsip_transaction \<Rightarrow> bool \<times> nat \<times> bool" where
  "obs t = (registered t, unreg_calls t, has_flag TSX_HAS_PENDING_DESTROY t)"

abbreviation lingers :: "pjsip_transaction \<Rightarrow> bool" where
  "lingers t \<equiv> has_flag TSX_HAS_PENDING_DESTROY t"

named_theorems obs_frame \<open>functions that keep registration\<close>

lemma obs_update [obs_frame]:
  "obs (t\<lparr>grp_refs := a\<rparr>) = obs t" "obs (t\<lparr>sends_out := b\<rparr>) = obs t" "obs (t\<lparr>tsx_log := c\<rparr>) = obs t"
  "obs (t\<lparr>pending_tx := d\<rparr>) = obs t" "obs (t\<lparr>last_tx := d\<rparr>) = obs t" "obs (t\<lparr>td_mod_data := e\<rparr>) = obs t"
  "obs (t\<lparr>tsx_state := f\<rparr>) = obs t" "obs (t\<lparr>is_reliable := g\<rparr>) = obs t" "obs (t\<lparr>addr_len := b\<rparr>) = obs t"
  "obs (t\<lparr>res_addr_transport := d\<rparr>) = obs t" "obs (t\<lparr>res_addr_len := b\<rparr>) = obs t" "obs (t\<lparr>transport_err := h\<rparr>) = obs t"
  "obs (t\<lparr>retransmit_count := b\<rparr>) = obs t" "obs (t\<lparr>status_code := b\<rparr>) = obs t" "obs (t\<lparr>tp_sel := d\<rparr>) = obs t"
  "obs (t\<lparr>td_refs := i\<rparr>) = obs t" "obs (t\<lparr>tp_refs := i\<rparr>) = obs t" "obs (t\<lparr>sel_refs := i\<rparr>) = obs t"
  "obs (t\<lparr>tsx_transport := d\<rparr>) = obs t" "obs (t\<lparr>retransmit_timer := j\<rparr>) = obs t" "obs (t\<lparr>timeout_timer := j\<rparr>) = obs t"
  "obs (t\<lparr>tsx_states := k\<rparr>) = obs t" "obs (t\<lparr>handle_200resp := g\<rparr>) = obs t"
  by (simp_all add: obs_def)

lemma obs_flags [obs_frame]:
  "(TSX_HAS_PENDING_DESTROY \<in> fl) = lingers t \<Longrightarrow> obs (t\<lparr>transport_flag := fl\<rparr>) = obs t"
  by (simp add: obs_def)

lemma obs_set_timer [obs_frame]: "obs (set_timer e m t) = obs t"
  by (cases e) (simp_all add: obs_def)

lemma obs_small [obs_frame]:
  "obs (td_add_ref td t) = obs t" "obs (td_dec_ref td t) = obs t" "obs (tsx_schedule_timer e d i t) = obs t"
  "obs (tsx_cancel_timer e t) = obs t" "obs (tsx_set_status_code n t) = obs t" "obs (tpselector_ref k sel t) = obs t"
  by (simp_all add: td_add_ref_def td_dec_ref_def tsx_schedule_timer_def tsx_cancel_timer_def tsx_set_status_code_def
      tpselector_ref_def obs_frame split: option.splits)

lemma obs_tp_state [obs_frame]: "obs (tsx_tp_state_callback st t) = obs t"
  by (simp add: tsx_tp_state_callback_def Let_def obs_frame)

lemma obs_mid [obs_frame]:
  "obs (tsx_update_transport env tp t) = obs t" "obs (notify_user p src fl t) = obs t" "obs (enter_terminated fl t) = obs t"
  "obs (tsx_resched_retransmission env t) = obs t" "obs (save_last_tx td t) = obs t" "obs (discard_last_tx td t) = obs t"
  "obs (restart_timeout d t) = obs t" "obs (start_retransmit d t) = obs t" "obs (keep_ack env t) = obs t"
  by (simp_all add: tsx_update_transport_def notify_user_def enter_terminated_def tsx_resched_retransmission_def save_last_tx_def
      discard_last_tx_def restart_timeout_def start_retransmit_def keep_ack_def Let_def obs_frame
      split: option.splits event_src.splits pjsip_rx_msg.splits)

lemma obs_set_state [obs_frame]: "s \<noteq> PJSIP_TSX_STATE_DESTROYED \<Longrightarrow> obs (tsx_set_state env s src fl t) = obs t"
  by (simp add: tsx_set_state_def Let_def obs_frame)

lemma obs_if [obs_frame]: "obs (if b then t else u) = (if b then obs t else obs u)"
  by simp

lemma obs_send_on_transport [obs_frame]: "obs (snd (snd (send_on_transport env t td))) = obs t"
  by (simp add: send_on_transport_def Let_def obs_frame split: option.splits)

text \<open>Sending, while no destruction is pending.\<close>

lemma lingers_obs: "lingers t \<longleftrightarrow> snd (snd (obs t))"
  by (simp add: obs_def)

lemma obs_run_callbacks:
  assumes "\<And>st t. \<not> lingers t \<Longrightarrow> obs (fst (cb st t)) = obs t"
  shows "\<not> lingers t \<Longrightarrow> obs (run_send_callbacks cb sts t) = obs t"
proof (induction sts arbitrary: t)
  case (Cons st sts)
  have "obs (fst (cb st t)) = obs t" using assms Cons.prems by simp
  moreover from this have "\<not> lingers (fst (cb st t))" using Cons.prems by (simp add: lingers_obs)
  ultimately show ?case using Cons.IH by (auto simp: Let_def split: prod.splits)
qed simp

lemma obs_send_stateless:
  assumes "\<And>st t. \<not> lingers t \<Longrightarrow> obs (fst (cb env st td t)) = obs t" and "\<not> lingers t"
  shows "obs (snd (send_stateless cb env t td)) = obs t"
proof -
  define u where "u = note_it (Sent_Endpoint td) (set_flag TSX_HAS_PENDING_TRANSPORT
    ((td_add_ref td t)\<lparr>td_mod_data := (td_mod_data (td_add_ref td t))(td := True), pending_tx := Some td,
                       grp_refs := grp_refs (td_add_ref td t) + 1\<rparr>))"
  have u: "obs u = obs t" unfolding u_def by (simp add: obs_frame)
  then have "\<not> lingers u" using assms(2) by (simp add: lingers_obs)
  then have "obs (run_send_callbacks (\<lambda>st. cb env st td) called u) = obs t" for called
    using obs_run_callbacks [of "\<lambda>st. cb env st td"] assms(1) u by simp
  then show ?thesis
    by (simp add: send_stateless_def Let_def obs_frame u_def split: prod.splits)
qed

lemma obs_send_by:
  assumes "\<And>st td t. \<not> lingers t \<Longrightarrow> obs (fst (cb env st td t)) = obs t" and "\<not> lingers t"
  shows "obs (snd (tsx_send_msg_by cb env t td)) = obs t"
proof -
  obtain r st u where s: "send_on_transport env t td = (r, st, u)" by (metis prod_cases3)
  have u: "obs u = obs t" using obs_send_on_transport [of env t td] by (simp add: s)
  then have "\<not> lingers u" using assms(2) by (simp add: lingers_obs)
  then show ?thesis
    using u obs_send_stateless [of cb env td u] assms(1)
    by (simp add: tsx_send_msg_by_def Let_def obs_frame s split: option.splits)
qed

lemma obs_send_resolved: "\<not> lingers t \<Longrightarrow> obs (snd (send_resolved env t td)) = obs t"
  unfolding send_resolved_def by (rule obs_send_by) simp_all

lemma obs_send_pending:
  assumes "\<And>t td. \<not> lingers t \<Longrightarrow> obs (snd (send env t td)) = obs t" and "\<not> lingers t"
  shows "obs (send_pending env send t) = obs t"
proof -
  have "obs (snd (send env (clear_flag TSX_HAS_PENDING_SEND t) td)) = obs t" for td
    using assms by (simp add: obs_frame)
  then show ?thesis by (simp add: send_pending_def Let_def obs_frame split: option.splits)
qed

lemma obs_send_msg_callback:
  assumes "\<not> lingers t"
  shows "obs (fst (send_msg_callback env st td t)) = obs t"
proof -
  define u where "u = t\<lparr>grp_refs := grp_refs t - 1, td_mod_data := (td_mod_data t)(td := False), pending_tx := None\<rparr>"
  have u: "obs u = obs t" "\<not> lingers u" using assms by (simp_all add: u_def obs_frame)
  have "obs (sent_to_server env st u) = obs u"
  proof -
    have "obs (send_pending env send_resolved w) = obs u" if "obs w = obs u" for w
      using obs_send_pending [of send_resolved env w] obs_send_resolved that u(2) by (simp add: lingers_obs)
    then show ?thesis
      using u(2) by (simp add: sent_to_server_def Let_def obs_frame)
  qed
  moreover have "obs (server_failed env st td u) = obs u"
    using u(2) by (simp add: server_failed_def Let_def obs_frame)
  ultimately show ?thesis using u by (simp add: send_msg_callback_def u_def Let_def)
qed

lemma obs_tsx_send_msg: "\<not> lingers t \<Longrightarrow> obs (snd (tsx_send_msg env t td)) = obs t"
  unfolding tsx_send_msg_def by (rule obs_send_by) (simp_all add: obs_send_msg_callback)

section \<open>Handlers\<close>

lemma obs_retransmit:
  assumes "\<not> lingers t"
  shows "obs (snd (tsx_retransmit env resched t)) = obs t" "pjsip_tsx_retransmit_no_state env t td = Some (status, t') \<Longrightarrow> obs t' = obs t"
proof -
  have send: "obs (snd (tsx_send_msg env u td)) = obs t" if "obs u = obs t" for u td
    using obs_tsx_send_msg [of u env td] that assms by (simp add: lingers_obs)
  show "obs (snd (tsx_retransmit env resched t)) = obs t"
    by (simp add: tsx_retransmit_def Let_def send obs_frame split: option.splits)
  show "obs t' = obs t" if r: "pjsip_tsx_retransmit_no_state env t td = Some (status, t')"
  proof -
    obtain d u where u: "u = t \<or> u = td_add_ref d t" and t': "t' = snd (tsx_send_msg env u d) \<or> t' = td_dec_ref d (snd (tsx_send_msg env u d))"
      using r by (auto simp: pjsip_tsx_retransmit_no_state_def Let_def split: option.splits prod.splits if_splits) (metis snd_conv)+
    have "obs u = obs t" using u obs_small(1) by metis
    then show ?thesis using t' send obs_small(2) by metis
  qed
qed

lemma obs_responses [obs_frame]:
  "obs (snd (uac_success_response env t src)) = obs t" "obs (uas_provisional env t td) = obs t"
  "obs (uas_success env t td) = obs t" "obs (uas_failure env t td) = obs t"
  by (simp_all add: uac_success_response_def uas_provisional_def uas_success_def uas_failure_def Let_def obs_frame)

lemma obs_uac_failure:
  assumes "\<not> lingers t"
  shows "obs (snd (uac_failure_response env t src)) = obs t"
proof -
  let ?u = "tsx_cancel_timer Timeout_Timer (tsx_cancel_timer Retransmit_Timer t)"
  have u: "obs ?u = obs t" by (simp add: obs_frame)
  then have "obs (snd (send_ack env ?u)) = obs t"
    using obs_tsx_send_msg [of ?u env] assms by (simp add: send_ack_def lingers_obs split: prod.splits)
  then show ?thesis
    by (cases "send_ack env ?u") (simp add: uac_failure_response_def Let_def obs_frame)
qed

lemma obs_proceeding_uac:
  assumes "\<not> lingers t"
  shows "obs (snd (tsx_on_state_proceeding_uac env t ev)) = obs t"
proof -
  have "obs (snd (uac_failure_response env (tsx_set_status_code n t) src)) = obs t" for n src
    using obs_uac_failure [of "tsx_set_status_code n t" env src] assms by (simp add: obs_frame)
  then show ?thesis
    using obs_retransmit(1) [OF assms]
    by (simp add: tsx_on_state_proceeding_uac_def Let_def obs_frame
        split: pjsip_event.splits pjsip_rx_msg.splits tsx_timer_name.splits)
qed

lemma obs_calling:
  assumes "\<not> lingers t"
  shows "obs (snd (tsx_on_state_calling env t ev)) = obs t"
proof -
  have "obs (snd (tsx_on_state_proceeding_uac env u ev)) = obs t" if "obs u = obs t" for u ev
    using obs_proceeding_uac [of u env ev] that assms by (simp add: lingers_obs)
  then show ?thesis
    using obs_retransmit(1) [OF assms]
    by (simp add: tsx_on_state_calling_def Let_def obs_frame
        split: pjsip_event.splits pjsip_rx_msg.splits tsx_timer_name.splits)
qed

lemma obs_null:
  assumes "\<not> lingers t"
  shows "obs (snd (tsx_on_state_null env t ev)) = obs t"
proof -
  have "obs (snd (let (status, tsx) = tsx_send_msg env (save_last_tx td (discard_last_tx td t)) td
      in if status \<noteq> PJ_SUCCESS then (status, tsx)
         else (let tsx = restart_timeout d tsx; tsx = (if \<not> is_reliable tsx then start_retransmit d' tsx else tsx)
               in (PJ_SUCCESS, tsx_set_state env PJSIP_TSX_STATE_CALLING (Src_Tx_Msg td) {} tsx)))) = obs t" for td d d'
    using obs_tsx_send_msg [of "save_last_tx td (discard_last_tx td t)" env td] assms
    by (cases "tsx_send_msg env (save_last_tx td (discard_last_tx td t)) td") (simp add: lingers_obs Let_def obs_frame)
  then show ?thesis
    by (simp add: tsx_on_state_null_def Let_def obs_frame split: pjsip_event.splits)
qed

lemma obs_proceeding_uas:
  assumes "\<not> lingers t"
  shows "obs (snd (tsx_on_state_proceeding_uas env t ev)) = obs t"
proof -
  have tx: "obs u = obs t" if "tsx_send_msg env (discard_last_tx td (tsx_set_status_code n t)) td = (st, u)" for td n st u
    using obs_tsx_send_msg [of "discard_last_tx td (tsx_set_status_code n t)" env td] assms that by (simp add: lingers_obs obs_frame)
  show ?thesis
    using obs_retransmit(1) [OF assms] obs_tsx_send_msg [OF assms]
    by (auto simp: tsx_on_state_proceeding_uas_def Let_def obs_frame tx
        split: pjsip_event.splits tsx_timer_name.splits option.splits prod.splits)
qed

lemma obs_others:
  assumes "\<not> lingers t"
  shows "obs (snd (tsx_on_state_trying env t ev)) = obs t" "obs (snd (tsx_on_state_completed_uas env t ev)) = obs t"
    "obs (snd (tsx_on_state_completed_uac env t ev)) = obs t" "obs (snd (tsx_on_state_confirmed env t ev)) = obs t"
    "obs (snd (tsx_on_state_destroyed env t ev)) = obs t"
proof -
  show "obs (snd (tsx_on_state_trying env t ev)) = obs t"
    using obs_proceeding_uas [OF assms, of env ev]
    by (auto simp: tsx_on_state_trying_def Let_def obs_frame split: pjsip_event.splits prod.splits)
  show "obs (snd (tsx_on_state_completed_uas env t ev)) = obs t" "obs (snd (tsx_on_state_completed_uac env t ev)) = obs t"
    "obs (snd (tsx_on_state_confirmed env t ev)) = obs t" "obs (snd (tsx_on_state_destroyed env t ev)) = obs t"
    using obs_retransmit(1) [OF assms]
    by (simp_all add: tsx_on_state_completed_uas_def tsx_on_state_completed_uac_def tsx_on_state_confirmed_def
        tsx_on_state_destroyed_def Let_def obs_frame split: pjsip_event.splits pjsip_rx_msg.splits tsx_timer_name.splits)
qed

lemmas obs_handlers = obs_null obs_calling obs_proceeding_uac obs_proceeding_uas obs_others

text \<open>What entering Destroyed does.\<close>

definition unregistered :: "pjsip_transaction \<Rightarrow> pjsip_transaction \<Rightarrow> bool" where
  "unregistered t t' \<longleftrightarrow> \<not> registered t' \<and> unreg_calls t' = unreg_calls t + 1 \<and> tsx_state t' = PJSIP_TSX_STATE_DESTROYED"

lemma obs_calls: "obs u = obs t \<Longrightarrow> unreg_calls u = unreg_calls t"
  by (simp add: obs_def)

lemmas calls_frame = obs_small [THEN obs_calls] obs_mid [THEN obs_calls]

lemma calls_shutdown [simp]: "unreg_calls (tsx_shutdown env t) = unreg_calls t"
  by (simp add: tsx_shutdown_def Let_def calls_frame split: option.splits)

lemma destroy_unregisters:
  assumes "env_layer_up env"
  shows "unregistered t (tsx_set_state env PJSIP_TSX_STATE_DESTROYED src fl t)"
proof -
  have "unreg_calls (notify_user p src fl (t\<lparr>tsx_state := s, tsx_states := ss\<rparr>)) = unreg_calls t" for p s ss
    using obs_mid(2) [of p src fl "t\<lparr>tsx_state := s, tsx_states := ss\<rparr>"] by (simp add: obs_def)
  then show ?thesis
    using assms by (simp add: unregistered_def tsx_set_state_def Let_def mod_tsx_layer_unregister_tsx_def)
qed

lemma calls_run_handler:
  assumes "\<not> lingers t" "env_layer_up env" "run_handler env t ev = Some (st, t')"
  shows "obs t' = obs t \<or> (tsx_state t = PJSIP_TSX_STATE_TERMINATED \<and> unregistered t t')"
proof (cases "tsx_state t = PJSIP_TSX_STATE_TERMINATED")
  case True
  then show ?thesis
    using assms destroy_unregisters [OF assms(2)]
    by (auto simp: run_handler_def tsx_state_handler_def tsx_on_state_terminated_def split: pjsip_event.splits)
next
  case False
  obtain h where "tsx_state_handler (tsx_role t) (tsx_state t) = Some h" "h env t ev = (st, t')"
    using assms(3) by (auto simp: run_handler_def)
  then have "obs (snd (h env t ev)) = obs t"
    using False obs_handlers [OF assms(1), of env ev]
    by (auto simp: tsx_state_handler_def split: pjsip_tsx_state_e.splits if_splits)
  then show ?thesis using \<open>h env t ev = (st, t')\<close> by simp
qed

lemma obs_transport_gone: "obs (transport_gone env b t) = obs t \<or> lingers t"
  by (auto simp: transport_gone_def Let_def obs_frame split: option.splits)

lemma calls_timer:
  assumes "\<not> lingers t" "env_layer_up env" "tsx_timer_fire env e t = Some t'"
  shows "obs t' = obs t \<or> (tsx_state t = PJSIP_TSX_STATE_TERMINATED \<and> unregistered t t')"
proof -
  let ?u = "set_timer e ((get_timer e t)\<lparr>tm_running := None\<rparr>) t"
  let ?v = "set_timer e ((get_timer e ?u)\<lparr>tm_id := TIMER_INACTIVE\<rparr>) ?u"
  have v: "obs ?v = obs t" "tsx_state ?v = tsx_state t" "obs ?u = obs t"
    by (cases e; simp add: obs_frame)+
  then have lv: "\<not> lingers ?v" "unreg_calls ?v = unreg_calls t" using assms(1) by (simp_all add: obs_def)
  obtain w where w: "tsx_timer_callback env e ?u = Some w" "t' = w\<lparr>grp_refs := grp_refs w - 1\<rparr>"
    using assms(3) by (auto simp: tsx_timer_fire_def)
  then consider "w = ?u" | b where "w = transport_gone env b ?v" | "w = ?v" | st where "run_handler env ?v (Ev_Timer e) = Some (st, w)"
    by (auto simp: tsx_timer_callback_def Let_def split: if_splits)
  then have "obs w = obs t \<or> (tsx_state t = PJSIP_TSX_STATE_TERMINATED \<and> unregistered t w)"
  proof cases
    case (2 b)
    then show ?thesis using obs_transport_gone [of env b ?v] v(1) lv(1) by simp
  next
    case (4 st)
    then show ?thesis using calls_run_handler [OF lv(1) assms(2) 4] v lv(2) by (simp add: unregistered_def)
  qed (use v in simp_all)
  then show ?thesis using w(2) by (auto simp: obs_frame unregistered_def)
qed

lemma obs_terminate: "obs (snd (pjsip_tsx_terminate env t code)) = obs t"
  by (simp add: pjsip_tsx_terminate_def obs_frame)

lemma obs_user_ops:
  "obs (snd (pjsip_tsx_stop_retransmit t)) = obs t" "obs (snd (pjsip_tsx_set_timeout t ms)) = obs t"
  "obs (snd (pjsip_tsx_set_transport t sel)) = obs t"
  by (simp_all add: pjsip_tsx_stop_retransmit_def pjsip_tsx_set_timeout_def pjsip_tsx_set_transport_def Let_def obs_frame)

lemma obs_transport_callback:
  assumes "\<not> lingers t"
  shows "obs (transport_callback env sent t) = obs t"
proof -
  have "obs (send_pending env tsx_send_msg u) = obs t" if "obs u = obs t" for u
    using obs_send_pending [of tsx_send_msg env u] obs_tsx_send_msg that assms by (simp add: lingers_obs)
  then show ?thesis using assms by (simp add: transport_callback_def Let_def obs_frame)
qed

text \<open>
  A step that takes the transaction out of the table leads from Terminated to Destroyed, unless the transaction lingers
  in Destroyed already.
\<close>

lemma calls_step:
  assumes step: "tsx_step t env t'" and up: "env_layer_up env" and lin: "\<not> lingers t"
  shows "obs t' = obs t \<or> (unregistered t t' \<and> tsx_state t = PJSIP_TSX_STATE_TERMINATED)"
  using step
proof (cases rule: tsx_step.cases)
  case (step_send td status)
  then consider d u where "run_handler env t (Ev_Tx_Msg d) = Some (status, u)" "t' = (if status = PJ_SUCCESS then td_dec_ref d u else u)"
    | "t' = t"
    by (auto simp: pjsip_tsx_send_msg_def split: option.splits)
  then show ?thesis
  proof cases
    case (1 d u)
    then show ?thesis using calls_run_handler [OF lin up 1(1)] by (auto simp: obs_frame unregistered_def calls_frame)
  qed simp
next
  case (step_recv rdata)
  then obtain st where "run_handler env t (Ev_Rx_Msg rdata) = Some (st, t')" by (auto simp: pjsip_tsx_recv_msg_def)
  then show ?thesis using calls_run_handler [OF lin up] by blast
next
  case (step_timer entry)
  then show ?thesis using calls_timer [OF lin up] by blast
next
  case (step_transport sent)
  then show ?thesis using obs_transport_callback [OF lin] by simp
next
  case (step_disconnected status)
  then show ?thesis by (simp add: obs_frame)
next
  case (step_retransmit td status)
  then show ?thesis using obs_retransmit(2) [OF lin] by blast
qed (simp_all add: obs_send_msg_callback [OF lin] obs_terminate obs_user_ops obs_frame)

text \<open>A transaction of the layer is registered as long as it is not destroyed.\<close>

definition reg_inv :: "int \<Rightarrow> pjsip_transaction \<Rightarrow> bool" where
  "reg_inv base t \<longleftrightarrow> tsx_inv base t \<and> (registered t \<longleftrightarrow> tsx_state t \<noteq> PJSIP_TSX_STATE_DESTROYED)"

lemma top_state: "PJSIP_TSX_STATE_DESTROYED \<le> s \<longleftrightarrow> s = PJSIP_TSX_STATE_DESTROYED"
  by (cases s) (simp_all add: tsx_state_order)

lemma reg_step:
  assumes step: "tsx_step t env t'" and env: "env_ok env" and inv: "reg_inv base t"
  shows "reg_inv base t'"
    and "unreg_calls t' \<noteq> unreg_calls t \<Longrightarrow> tsx_state t' = PJSIP_TSX_STATE_DESTROYED \<and> (registered t \<or> lingers t)"
    and "registered t' \<Longrightarrow> registered t \<and> unreg_calls t' = unreg_calls t"
    and "registered t \<Longrightarrow> \<not> registered t' \<Longrightarrow> unreg_calls t' \<noteq> unreg_calls t"
proof -
  have t: "tsx_inv base t" and R: "registered t \<longleftrightarrow> tsx_state t \<noteq> PJSIP_TSX_STATE_DESTROYED"
    using inv by (simp_all add: reg_inv_def)
  have t': "tsx_inv base t'" "tsx_state t \<le> tsx_state t'" using step_inv [OF step env t] by simp_all
  have up: "env_layer_up env" using env by (simp add: env_ok_def)
  have clean: "\<not> registered t'" if "tsx_state t' = PJSIP_TSX_STATE_DESTROYED"
    using t'(1) that by (simp add: tsx_inv_def destroyed_clean_def)
  have rise: "tsx_state t' = PJSIP_TSX_STATE_DESTROYED" if "tsx_state t = PJSIP_TSX_STATE_DESTROYED"
    using t'(2) that top_state by simp
  have lin: "tsx_state t = PJSIP_TSX_STATE_DESTROYED" if "lingers t" using t that by (simp add: tsx_inv_def)
  have calls: "obs t' = obs t \<or> (unregistered t t' \<and> tsx_state t = PJSIP_TSX_STATE_TERMINATED)" if "\<not> lingers t"
    by (rule calls_step [OF step up that])
  show "reg_inv base t'"
    unfolding reg_inv_def using t'(1) clean rise lin R calls by (cases "lingers t") (auto simp: obs_def unregistered_def)
  show "tsx_state t' = PJSIP_TSX_STATE_DESTROYED \<and> (registered t \<or> lingers t)" if "unreg_calls t' \<noteq> unreg_calls t"
    using that lin rise R calls by (cases "lingers t") (auto simp: obs_def unregistered_def)
  show "registered t \<and> unreg_calls t' = unreg_calls t" if "registered t'"
    using that clean lin rise R calls by (cases "lingers t") (auto simp: obs_def unregistered_def)
  show "unreg_calls t' \<noteq> unreg_calls t" if "registered t" "\<not> registered t'"
    using that lin R calls by (cases "lingers t") (auto simp: obs_def unregistered_def)
qed

lemma created_reg_inv:
  assumes "tsx_created refs t"
  shows "reg_inv refs t" "registered t" "tsx_state t = PJSIP_TSX_STATE_NULL"
proof -
  show "registered t" "tsx_state t = PJSIP_TSX_STATE_NULL"
    using assms
    by (cases; auto simp: pjsip_tsx_create_uac2_def pjsip_tsx_create_uas2_def mod_tsx_layer_register_tsx_def Let_def
        split: if_splits option.splits prod.splits)+
  then show "reg_inv refs t" using created_inv [OF assms] by (simp add: reg_inv_def)
qed

end
