(* ===== verification/Sip_Tsx_Layer.thy ===== *)
theory Sip_Tsx_Layer
  imports Sip_Tsx_Key Sip_Tsx_Reg
begin

text \<open>
  The transaction layer of \<^verbatim>\<open>sip_transaction.c\<close>: the module \<^verbatim>\<open>mod_tsx_layer\<close> with its hash table of transactions, which finds the
  transaction of a received message and passes the message on. The table is the one of \<open>Pj_Hash\<close>, its values are addresses;
  \<open>tl_obj\<close> is the memory, \<open>None\<close> where no transaction is or is any more, and \<open>tl_key\<close> the field \<^verbatim>\<open>transaction_key\<close> of each, whose hash
  (\<^verbatim>\<open>PRECALC_HASH\<close>) is calculated when it is set.
\<close>

section \<open>Model\<close>

record tsx_layer =
  tl_htable :: "nat pj_hash_table"
  tl_obj :: "nat \<rightharpoonup> pjsip_transaction"
  tl_key :: "nat \<Rightarrow> string"

definition PJSIP_SC_SERVICE_UNAVAILABLE :: nat where
  "PJSIP_SC_SERVICE_UNAVAILABLE = 503"

abbreviation find_key :: "tsx_layer \<Rightarrow> string \<Rightarrow> nat option" where
  "find_key L key \<equiv> pj_hash_get_lower (tl_htable L) key (Some (length key)) 0"

text \<open>
  The layer's part in registration: the table. That the entry comes from the pool of the transaction, so that there is memory for
  it, is the first argument of \<open>pj_hash_set_lower\<close>.
\<close>

definition layer_register_tsx :: "tsx_layer \<Rightarrow> nat \<Rightarrow> pj_status \<times> tsx_layer" where
  "layer_register_tsx L i =
     (let key = tl_key L i
      in case find_key L key of
           Some _ \<Rightarrow> (PJ_EEXISTS, L)
         | None \<Rightarrow>
             (PJ_SUCCESS,
              L\<lparr>tl_htable := the (pj_hash_set_lower True (tl_htable L) key (Some (length key)) (fst (pj_hash_calc_tolower 0 key)) (Some i))\<rparr>))"

definition layer_unregister_tsx :: "tsx_layer \<Rightarrow> nat \<Rightarrow> tsx_layer" where
  "layer_unregister_tsx L i =
     (let key = tl_key L i
      in L\<lparr>tl_htable := the (pj_hash_set_lower False (tl_htable L) key (Some (length key)) (fst (pj_hash_calc_tolower 0 key)) None)\<rparr>)"

definition pjsip_tsx_layer_get_tsx_count :: "tsx_layer \<Rightarrow> nat" where
  "pjsip_tsx_layer_get_tsx_count L = pj_hash_count (tl_htable L)"

definition set_obj :: "tsx_layer \<Rightarrow> nat \<Rightarrow> pjsip_transaction \<Rightarrow> tsx_layer" where
  "set_obj L i t = L\<lparr>tl_obj := (tl_obj L)(i \<mapsto> t)\<rparr>"

text \<open>
  \<^verbatim>\<open>find_tsx\<close>: the address found, and the reference to the group lock the caller gets with \<^verbatim>\<open>add_ref\<close>; locking has no effect here. An address
  without a transaction is \<open>None\<close>: its reference counter would be written through a pointer to freed memory.
\<close>

definition find_tsx :: "tsx_layer \<Rightarrow> string \<Rightarrow> bool \<Rightarrow> (nat option \<times> tsx_layer) option" where
  "find_tsx L key add_ref =
     (case find_key L key of
        None \<Rightarrow> Some (None, L)
      | Some i \<Rightarrow>
          (case tl_obj L i of
             None \<Rightarrow> None
           | Some t \<Rightarrow>
               (let t = t\<lparr>grp_refs := grp_refs t + 1\<rparr>;
                    t = (if \<not> add_ref then t\<lparr>grp_refs := grp_refs t - 1\<rparr> else t)
                in Some (Some i, set_obj L i t))))"

definition pjsip_tsx_layer_find_tsx :: "tsx_layer \<Rightarrow> string \<Rightarrow> (nat option \<times> tsx_layer) option" where
  "pjsip_tsx_layer_find_tsx L key = find_tsx L key False"

definition pjsip_tsx_layer_find_tsx2 :: "tsx_layer \<Rightarrow> string \<Rightarrow> bool \<Rightarrow> (nat option \<times> tsx_layer) option" where
  "pjsip_tsx_layer_find_tsx2 L key add_ref = find_tsx L key add_ref"

text \<open>
  What becomes of the layer when the transaction at an address changes from \<open>t\<close> to \<open>t'\<close>: if it has called
  \<^verbatim>\<open>mod_tsx_layer_unregister_tsx\<close>, its key is taken out of the table.
\<close>

definition tsx_changed :: "tsx_layer \<Rightarrow> nat \<Rightarrow> pjsip_transaction \<Rightarrow> pjsip_transaction \<Rightarrow> tsx_layer" where
  "tsx_changed L i t t' =
     (let L = set_obj L i t' in if unreg_calls t' \<noteq> unreg_calls t then layer_unregister_tsx L i else L)"

text \<open>
  The dispatch of a received message, for both directions. \<open>None\<close> is memory the code should not touch: no CSeq or Via header, a key that was
  not set, or an address in the table that has no transaction. The reference taken for the time of the call is dropped behind it. The
  first result tells the endpoint whether the message was consumed.
\<close>

definition dispatch :: "pjsip_role \<Rightarrow> tsx_env \<Rightarrow> tsx_layer \<Rightarrow> pjsip_rdata \<Rightarrow> (bool \<times> tsx_layer) option" where
  "dispatch role env L rdata =
     (case rd_cseq rdata of
        None \<Rightarrow> None
      | Some (_, m) \<Rightarrow>
          (case pjsip_tsx_create_key role m rdata of
             None \<Rightarrow> None
           | Some (status, key) \<Rightarrow>
               if status \<noteq> PJ_SUCCESS then None
               else
                 (case find_key L key of
                    None \<Rightarrow> Some (False, L)
                  | Some i \<Rightarrow>
                      (case tl_obj L i of
                         None \<Rightarrow> None
                       | Some t \<Rightarrow>
                           if tsx_state t = PJSIP_TSX_STATE_TERMINATED then Some (False, L)
                           else
                             map_option (\<lambda>t'. (True, tsx_changed L i t (t'\<lparr>grp_refs := grp_refs t' - 1\<rparr>)))
                               (pjsip_tsx_recv_msg env (t\<lparr>grp_refs := grp_refs t + 1\<rparr>) (rd_msg rdata))))))"

definition mod_tsx_layer_on_rx_request :: "tsx_env \<Rightarrow> tsx_layer \<Rightarrow> pjsip_rdata \<Rightarrow> (bool \<times> tsx_layer) option" where
  "mod_tsx_layer_on_rx_request env L rdata = dispatch PJSIP_ROLE_UAS env L rdata"

definition mod_tsx_layer_on_rx_response :: "tsx_env \<Rightarrow> tsx_layer \<Rightarrow> pjsip_rdata \<Rightarrow> (bool \<times> tsx_layer) option" where
  "mod_tsx_layer_on_rx_response env L rdata = dispatch PJSIP_ROLE_UAC env L rdata"

text \<open>
  The creation of transactions, at an address that is free, as the layer sees it: the key is set, registration finds it in the table
  or not, and a transaction that is returned to the caller is entered. A transaction whose creation fails is gone.
\<close>

definition enter_created :: "tsx_layer \<Rightarrow> nat \<Rightarrow> string \<Rightarrow> pj_status \<times> pjsip_transaction option \<Rightarrow> pj_status \<times> tsx_layer" where
  "enter_created L i key r =
     (case r of
        (PJ_SUCCESS, Some t) \<Rightarrow> (PJ_SUCCESS, snd (layer_register_tsx (set_obj (L\<lparr>tl_key := (tl_key L)(i := key)\<rparr>) i t) i))
      | (status, _) \<Rightarrow> (status, L))"

definition layer_create_uac ::
    "tsx_env \<Rightarrow> tsx_layer \<Rightarrow> nat \<Rightarrow> (pjsip_role \<Rightarrow> pjsip_method_e \<Rightarrow> pjsip_transaction) \<Rightarrow> nat \<Rightarrow> pjsip_method \<Rightarrow> bool
      \<Rightarrow> pj_status \<times> bool \<Rightarrow> string \<Rightarrow> pj_status \<times> tsx_layer" where
  "layer_create_uac env L i create tdata m has_cseq dest branch =
     (let key = snd (create_tsx_key_3261 PJSIP_ROLE_UAC m branch)
      in enter_created L i key (pjsip_tsx_create_uac2 env create tdata (meth_id m) has_cseq dest (find_key L key \<noteq> None)))"

text \<open>The branch of a request that has none: the cookie, two characters, and a unique string.\<close>

definition new_branch :: "string \<Rightarrow> string" where
  "new_branch guid = PJSIP_RFC3261_BRANCH_ID @ ''Pj'' @ guid"

text \<open>For a server transaction, \<open>None\<close> is a null pointer that is followed: the key of an older peer's request without Call-ID.\<close>
definition layer_create_uas ::
    "tsx_env \<Rightarrow> tsx_layer \<Rightarrow> nat \<Rightarrow> (pjsip_role \<Rightarrow> pjsip_method_e \<Rightarrow> pjsip_transaction) \<Rightarrow> pjsip_rdata \<Rightarrow> pjsip_method
      \<Rightarrow> uas_request \<Rightarrow> (pj_status \<times> tsx_layer) option" where
  "layer_create_uas env L i create rdata m rq =
     (case rd_msg rdata of
        Rx_Response _ \<Rightarrow> Some (PJSIP_ENOTREQUESTMSG, L)
      | Rx_Request _ \<Rightarrow>
          if meth_id m = PJSIP_ACK_METHOD then Some (PJ_EINVALIDOP, L)
          else
            (case rd_cseq rdata of
               None \<Rightarrow> Some (PJSIP_EMISSINGHDR, L)
             | Some (_, cm) \<Rightarrow>
                 (case pjsip_tsx_create_key PJSIP_ROLE_UAS m rdata of
                    None \<Rightarrow>
                      if rd_via rdata = None then Some (PJSIP_EMISSINGHDR, L)
                      else if pjsip_method_cmp m cm \<noteq> 0 then Some (PJSIP_EINVALIDHDR, L)
                      else None
                  | Some (status, key) \<Rightarrow>
                      Some (enter_created L i key
                        (pjsip_tsx_create_uas2 env create
                           (rq\<lparr>rq_is_request := True, rq_method := meth_id m, rq_has_cseq := True, rq_has_via := True,
                               rq_cseq_matches := (pjsip_method_cmp m cm = 0), rq_key := status,
                               rq_key_exists := (find_key L key \<noteq> None)\<rparr>))))))"

text \<open>
  \<^verbatim>\<open>mod_tsx_layer_stop\<close>: the next entry is looked up before the current one is removed. \<open>None\<close> as above, or a loop that does not end.
\<close>

partial_function (option) stop_loop :: "tsx_env \<Rightarrow> tsx_layer \<Rightarrow> nat pj_hash_iterator option \<Rightarrow> tsx_layer option" where
  "stop_loop env L it =
     (case it of
        None \<Rightarrow> Some L
      | Some it \<Rightarrow>
          (let i = pj_hash_this it; it' = pj_hash_next (tl_htable L) it
           in case tl_obj L i of
                None \<Rightarrow> None
              | Some t \<Rightarrow>
                  (let t = snd (pjsip_tsx_terminate env t PJSIP_SC_SERVICE_UNAVAILABLE);
                       t = mod_tsx_layer_unregister_tsx env t;
                       L = (if env_layer_up env then layer_unregister_tsx L i else L);
                       t = tsx_shutdown env t
                   in stop_loop env (set_obj L i t) it')))"

declare stop_loop.simps [code]

definition mod_tsx_layer_stop :: "tsx_env \<Rightarrow> tsx_layer \<Rightarrow> tsx_layer option" where
  "mod_tsx_layer_stop env L = stop_loop env L (pj_hash_first (tl_htable L))"

definition mod_tsx_layer_unload :: "tsx_layer \<Rightarrow> pj_status" where
  "mod_tsx_layer_unload L = (if pj_hash_count (tl_htable L) \<noteq> 0 then PJ_EBUSY else PJ_SUCCESS)"

text \<open>The table is made for \<^verbatim>\<open>pjsip_cfg()->tsx.max_count\<close> transactions.\<close>

definition layer_init :: "u32 \<Rightarrow> tsx_layer option" where
  "layer_init max_count = map_option (\<lambda>ht. \<lparr>tl_htable = ht, tl_obj = Map.empty, tl_key = (\<lambda>_. [])\<rparr>) (pj_hash_create max_count)"

section \<open>A table of addresses\<close>

text \<open>
  Lemmas for a client that enters objects under keys of their own: \<open>points\<close> says that the table leads to objects with the key
  asked for, \<open>reaches\<close> that it leads to all objects it should.
\<close>

context keyed_table
begin

definition points :: "'t \<Rightarrow> ('v \<Rightarrow> 'k) \<Rightarrow> ('v \<Rightarrow> bool) \<Rightarrow> bool" where
  "points t key P \<longleftrightarrow> (\<forall>n i. abs t n = Some i \<longrightarrow> nrm (key i) = n \<and> P i)"

definition reaches :: "'t \<Rightarrow> ('v \<Rightarrow> 'k) \<Rightarrow> ('v \<Rightarrow> bool) \<Rightarrow> bool" where
  "reaches t key P \<longleftrightarrow> (\<forall>i. P i \<longrightarrow> abs t (nrm (key i)) = Some i)"

lemma points_get: "inv t \<Longrightarrow> points t key P \<Longrightarrow> get t k = Some i \<Longrightarrow> nrm (key i) = nrm k \<and> P i"
  by (simp add: points_def get_law)

lemma points_put:
  "inv t \<Longrightarrow> ok (key i) \<Longrightarrow> points t key P \<Longrightarrow> points (put t (key i) i) key (\<lambda>j. P j \<or> j = i)"
  using put_law by (auto simp: points_def)

lemma points_del:
  "inv t \<Longrightarrow> points t key P \<Longrightarrow> points (del t (key i)) key (\<lambda>j. P j \<and> j \<noteq> i)"
  using del_law by (auto simp: points_def split: if_splits)

lemma points_mono: "points t key P \<Longrightarrow> (\<And>i. P i \<Longrightarrow> Q i \<and> key' i = key i) \<Longrightarrow> points t key' Q"
  by (simp add: points_def)

lemma reaches_put:
  "inv t \<Longrightarrow> ok (key i) \<Longrightarrow> get t (key i) = None \<Longrightarrow> reaches t key P \<Longrightarrow> reaches (put t (key i) i) key (\<lambda>j. P j \<or> j = i)"
  using put_law by (auto simp: reaches_def get_law)

lemma reaches_del:
  "inv t \<Longrightarrow> P i \<Longrightarrow> reaches t key P \<Longrightarrow> reaches (del t (key i)) key (\<lambda>j. P j \<and> j \<noteq> i)"
  using del_law by (auto simp: reaches_def) (metis option.inject)

lemma reaches_mono: "reaches t key P \<Longrightarrow> (\<And>i. Q i \<Longrightarrow> P i \<and> key' i = key i) \<Longrightarrow> reaches t key' Q"
  by (simp add: reaches_def)

lemma reaches_inj: "reaches t key P \<Longrightarrow> P i \<Longrightarrow> P j \<Longrightarrow> nrm (key i) = nrm (key j) \<Longrightarrow> i = j"
  unfolding reaches_def by (metis option.inject)

end

section \<open>Invariant\<close>

abbreviation live_at :: "tsx_layer \<Rightarrow> nat \<Rightarrow> bool" where
  "live_at L i \<equiv> \<exists>t. tl_obj L i = Some t \<and> registered t"

definition layer_inv :: "tsx_layer \<Rightarrow> bool" where
  "layer_inv L \<longleftrightarrow> ht_inv True (tl_htable L) \<and> lower_table.points (tl_htable L) (tl_key L) (live_at L)
     \<and> (\<forall>i t. tl_obj L i = Some t \<longrightarrow> key_ok (tl_key L i) \<and> (\<exists>base \<ge> 0. reg_inv base t))"

definition layer_full :: "tsx_layer \<Rightarrow> bool" where
  "layer_full L \<longleftrightarrow> lower_table.reaches (tl_htable L) (tl_key L) (live_at L)"

lemma set_obj_simps [simp]:
  "tl_htable (set_obj L i t) = tl_htable L" "tl_key (set_obj L i t) = tl_key L" "tl_obj (set_obj L i t) = (tl_obj L)(i \<mapsto> t)"
  by (simp_all add: set_obj_def)

lemma unregister_simps [simp]: "tl_obj (layer_unregister_tsx L i) = tl_obj L" "tl_key (layer_unregister_tsx L i) = tl_key L"
  by (simp_all add: layer_unregister_tsx_def Let_def)

text \<open>A step of one transaction, with what \<open>reg_step\<close> says of it.\<close>

definition lawful :: "pjsip_transaction \<Rightarrow> pjsip_transaction \<Rightarrow> bool" where
  "lawful t t' \<longleftrightarrow> (\<exists>base \<ge> 0. reg_inv base t')
     \<and> (registered t' \<longrightarrow> registered t \<and> unreg_calls t' = unreg_calls t)
     \<and> (registered t \<and> \<not> registered t' \<longrightarrow> unreg_calls t' \<noteq> unreg_calls t)
     \<and> (unreg_calls t' \<noteq> unreg_calls t \<longrightarrow> registered t \<or> lingers t)"

lemma layer_invD:
  assumes "layer_inv L"
  shows "ht_inv True (tl_htable L)" "lower_table.points (tl_htable L) (tl_key L) (live_at L)"
    "tl_obj L i = Some t \<Longrightarrow> key_ok (tl_key L i)" "tl_obj L i = Some t \<Longrightarrow> \<exists>base \<ge> 0. reg_inv base t"
  using assms by (auto simp: layer_inv_def)

lemma changed_layer:
  assumes inv: "layer_inv L" and t: "tl_obj L i = Some t" and lawful: "lawful t t'"
  defines "L' \<equiv> tsx_changed L i t t'"
  shows "layer_inv L'" and "layer_full L \<Longrightarrow> \<not> lingers t \<Longrightarrow> layer_full L'"
proof -
  note D = layer_invD [OF inv]
  have objs: "tl_obj L' = (tl_obj L)(i \<mapsto> t')" "tl_key L' = tl_key L" by (auto simp: L'_def tsx_changed_def Let_def)
  have rest: "\<forall>j u. tl_obj L' j = Some u \<longrightarrow> key_ok (tl_key L' j) \<and> (\<exists>base \<ge> 0. reg_inv base u)"
    using D(3,4) t lawful by (auto simp: objs lawful_def)
  show "layer_inv L'"
  proof (cases "unreg_calls t' = unreg_calls t")
    case True
    then have "registered t' = registered t" using lawful by (auto simp: lawful_def)
    then have "lower_table.points (tl_htable L) (tl_key L') (live_at L')"
      using t by (intro lower_table.points_mono [OF D(2)]) (auto simp: objs)
    moreover have "tl_htable L' = tl_htable L" using True by (simp add: L'_def tsx_changed_def)
    ultimately show ?thesis using D(1) rest by (simp add: layer_inv_def)
  next
    case False
    then have "\<not> registered t'" using lawful by (auto simp: lawful_def)
    have tab: "tl_htable L' = the (pj_hash_set_lower False (tl_htable L) (tl_key L i) (Some (length (tl_key L i)))
        (fst (pj_hash_calc_tolower 0 (tl_key L i))) None)"
      using False by (simp add: L'_def tsx_changed_def layer_unregister_tsx_def Let_def)
    have "lower_table.points (tl_htable L') (tl_key L') (live_at L')"
      unfolding tab
      by (rule lower_table.points_mono [OF lower_table.points_del [OF D(1,2)]]) (auto simp: objs)
    then show ?thesis using lower_table.del_law [OF D(1)] rest by (simp add: layer_inv_def tab)
  qed
  assume full: "layer_full L" and "\<not> lingers t"
  show "layer_full L'"
  proof (cases "unreg_calls t' = unreg_calls t")
    case True
    then have "registered t' \<longrightarrow> registered t" using lawful by (auto simp: lawful_def)
    moreover have "tl_htable L' = tl_htable L" using True by (simp add: L'_def tsx_changed_def)
    ultimately show ?thesis
      unfolding layer_full_def using t
      by (simp only:) (rule lower_table.reaches_mono [OF full [unfolded layer_full_def]], auto simp: objs split: if_splits)
  next
    case False
    then have r: "registered t" "\<not> registered t'" using lawful \<open>\<not> lingers t\<close> by (auto simp: lawful_def)
    have tab: "tl_htable L' = the (pj_hash_set_lower False (tl_htable L) (tl_key L i) (Some (length (tl_key L i)))
        (fst (pj_hash_calc_tolower 0 (tl_key L i))) None)"
      using False by (simp add: L'_def tsx_changed_def layer_unregister_tsx_def Let_def)
    have "live_at L i" using t r by simp
    note del = lower_table.reaches_del [OF D(1), of "live_at L" i, OF this full [unfolded layer_full_def]]
    show ?thesis
      unfolding layer_full_def tab
      by (rule lower_table.reaches_mono [OF del]) (use r in \<open>auto simp: objs split: if_splits\<close>)
  qed
qed

lemma step_lawful:
  assumes "tsx_step t env t'" "env_ok env" "reg_inv base t" "base \<ge> 0"
  shows "lawful t t'"
  using reg_step [OF assms(1-3)] assms(4) unfolding lawful_def by blast

section \<open>Creation and dispatch\<close>

lemma reg_inv_refs: "reg_inv (base + k) (t\<lparr>grp_refs := grp_refs t + k\<rparr>) \<longleftrightarrow> reg_inv base t"
proof -
  let ?u = "t\<lparr>grp_refs := grp_refs t + k\<rparr>"
  have "pend_inv ?u = pend_inv t" "armed ?u = armed t" "destroyed_clean ?u = destroyed_clean t" "other_grp_refs ?u = other_grp_refs t + k"
    by (simp_all add: pend_defs armed_def needs_timeout_def destroyed_clean_def refs_defs runs_def expiring_def)
  then show ?thesis by (simp add: reg_inv_def tsx_inv_def)
qed

lemma create_needs_free_key:
  "pjsip_tsx_create_uac2 env create td m c dest ex = (PJ_SUCCESS, Some t) \<Longrightarrow> \<not> ex"
  "pjsip_tsx_create_uas2 env create rq = (PJ_SUCCESS, Some t) \<Longrightarrow> \<not> rq_key_exists rq"
  by (auto simp: pjsip_tsx_create_uac2_def pjsip_tsx_create_uas2_def mod_tsx_layer_register_tsx_def Let_def split: if_splits prod.splits)

lemma enter_created_layer:
  assumes inv: "layer_inv L" and free: "tl_obj L i = None" and key: "key_ok key" "find_key L key = None"
    and t: "tsx_created refs t" "refs \<ge> 0"
  defines "L' \<equiv> snd (enter_created L i key (PJ_SUCCESS, Some t))"
  shows "layer_inv L'" and "layer_full L \<Longrightarrow> layer_full L'"
    and "tl_obj L' = (tl_obj L)(i \<mapsto> t)" and "find_key L' key = Some i"
proof -
  note D = layer_invD [OF inv] and C = created_reg_inv [OF t(1)]
  let ?key = "(tl_key L)(i := key)"
  have objs: "tl_obj L' = (tl_obj L)(i \<mapsto> t)" "tl_key L' = ?key"
    and tab: "tl_htable L' = the (pj_hash_set_lower True (tl_htable L) (?key i) (Some (length (?key i))) (fst (pj_hash_calc_tolower 0 (?key i))) (Some i))"
    using key(2) by (simp_all add: L'_def enter_created_def layer_register_tsx_def Let_def)
  have ok: "key_ok (?key i)" using key(1) by simp
  have pts: "lower_table.points (tl_htable L) ?key (live_at L)"
    by (rule lower_table.points_mono [OF D(2)]) (use free in auto)
  have "lower_table.points (tl_htable L') (tl_key L') (live_at L')"
    unfolding tab objs
    by (rule lower_table.points_mono [OF lower_table.points_put [OF D(1) ok pts]]) (use free C in auto)
  then show "layer_inv L'"
    using lower_table.put_law [OF D(1) ok] D(3,4) C(1) t(2) key(1) by (auto simp: layer_inv_def tab objs)
  show "find_key L' key = Some i"
    using lower_table.get_put [OF D(1) ok, of i key] by (simp add: tab)
  show "layer_full L'" if full: "layer_full L"
  proof -
    have "lower_table.reaches (tl_htable L) ?key (live_at L)"
      by (rule lower_table.reaches_mono [OF full [unfolded layer_full_def]]) (use free in auto)
    note put = lower_table.reaches_put [OF D(1) ok _ this]
    show ?thesis
      unfolding layer_full_def tab objs
      by (rule lower_table.reaches_mono [OF put]) (use key(2) in \<open>auto split: if_splits\<close>)
  qed
qed (simp add: L'_def enter_created_def layer_register_tsx_def Let_def split: option.splits)

lemma enter_created_fails: "\<not> (\<exists>t. r = (PJ_SUCCESS, Some t)) \<Longrightarrow> snd (enter_created L i key r) = L"
  by (auto simp: enter_created_def split: pj_status.splits option.splits prod.splits)

lemma headers_give_key:
  assumes "basic_headers rdata"
  obtains n m key where "rd_cseq rdata = Some (n, m)" "pjsip_tsx_create_key role m rdata = Some (PJ_SUCCESS, key)"
proof -
  obtain n m via tag where h: "rd_cseq rdata = Some (n, m)" "rd_via rdata = Some via" "rd_from_tag rdata = Some tag"
    using assms by (auto simp: basic_headers_def)
  then show thesis
    using that by (cases "pj_strnicmp (branch_param via) PJSIP_RFC3261_BRANCH_ID PJSIP_RFC3261_BRANCH_LEN = 0")
      (use assms in \<open>auto simp: pjsip_tsx_create_key_def create_tsx_key_3261_def create_tsx_key_2543_def basic_headers_def\<close>)
qed

text \<open>A message that is consumed goes to a transaction with its key, in one step of that transaction.\<close>

lemma dispatch_cases:
  assumes inv: "layer_inv L" and rd: "basic_headers rdata" "rx_msg_ok (rd_msg rdata)" and env: "env_ok env"
  obtains (pass) "dispatch role env L rdata = Some (False, L)"
    | (take) m n key i t t' where "rd_cseq rdata = Some (n, m)" "pjsip_tsx_create_key role m rdata = Some (PJ_SUCCESS, key)"
      "find_key L key = Some i" "tl_obj L i = Some t" "registered t" "tsx_state t \<noteq> PJSIP_TSX_STATE_TERMINATED" "lawful t t'"
      "dispatch role env L rdata = Some (True, tsx_changed L i t t')"
proof -
  obtain n m key where h: "rd_cseq rdata = Some (n, m)" and key: "pjsip_tsx_create_key role m rdata = Some (PJ_SUCCESS, key)"
    using headers_give_key [OF rd(1)] by blast
  note D = layer_invD [OF inv]
  show thesis
  proof (cases "find_key L key")
    case None
    then show thesis using pass h key by (simp add: dispatch_def)
  next
    case (Some i)
    then obtain t where t: "tl_obj L i = Some t" "registered t" using lower_table.points_get [OF D(1,2)] by blast
    show thesis
    proof (cases "tsx_state t = PJSIP_TSX_STATE_TERMINATED")
      case True
      then show thesis using pass h key Some t by (simp add: dispatch_def)
    next
      case False
      obtain base where base: "base \<ge> 0" "reg_inv base t" using D(4) t(1) by blast
      let ?u = "t\<lparr>grp_refs := grp_refs t + 1\<rparr>"
      have u: "reg_inv (base + 1) ?u" using base reg_inv_refs by blast
      then have "role_ok (tsx_role ?u) (tsx_state ?u)" by (simp add: reg_inv_def tsx_inv_def)
      then have "tsx_state_handler (tsx_role ?u) (tsx_state ?u) \<noteq> None"
        by (cases "tsx_state t"; cases "tsx_role t") (simp_all add: tsx_state_handler_def role_ok_def)
      then obtain u' where u': "pjsip_tsx_recv_msg env ?u (rd_msg rdata) = Some u'"
        by (cases "pjsip_tsx_recv_msg env ?u (rd_msg rdata)") (auto simp: pjsip_tsx_recv_msg_def run_handler_def)
      have step: "tsx_step ?u env u'" by (rule step_recv [OF _ rd(2) u']) (use False in simp)
      let ?t' = "u'\<lparr>grp_refs := grp_refs u' - 1\<rparr>"
      have "lawful ?u u'" by (rule step_lawful [OF step env u]) (use base in simp)
      moreover have "reg_inv base ?t'" using reg_inv_refs [of "base + 1" "-1" u'] reg_step(1) [OF step env u] by simp
      ultimately have "lawful t ?t'" using base(1) by (auto simp: lawful_def)
      then show thesis using take [OF h key Some t False] h key Some t False u' by (simp add: dispatch_def)
    qed
  qed
qed

lemma registered_stays: "reg_inv base t \<Longrightarrow> registered t \<Longrightarrow> \<not> lingers t"
  by (auto simp: reg_inv_def tsx_inv_def)

lemma dispatch_inv:
  assumes "layer_inv L" "basic_headers rdata" "rx_msg_ok (rd_msg rdata)" "env_ok env"
    and "dispatch role env L rdata = Some (taken, L')"
  shows "layer_inv L' \<and> (layer_full L \<longrightarrow> layer_full L')"
proof (cases rule: dispatch_cases [OF assms(1-4), of role])
  case (2 m n key i t t')
  then have "\<not> lingers t" using layer_invD(4) [OF assms(1)] registered_stays by blast
  then show ?thesis using changed_layer [OF assms(1) 2(4,7)] 2(8) assms(5) by auto
qed (use assms in auto)

section \<open>Runs\<close>

text \<open>
  What can happen to the layer. The flag of a step is set when a transaction that was destroyed while a send was pending is called
  back. A transaction goes when the last reference to its group lock does. The parser lets no null into a branch, a tag, a host or a
  method, and none into the identifier of a call.
\<close>

definition chars_ok :: "pjsip_rdata \<Rightarrow> bool" where
  "chars_ok rdata \<longleftrightarrow>
     (case rd_via rdata of None \<Rightarrow> True | Some via \<Rightarrow> NUL \<notin> set (branch_param via) \<union> set (sent_by_host via))
     \<and> (case rd_from_tag rdata of None \<Rightarrow> True | Some tag \<Rightarrow> NUL \<notin> set tag)
     \<and> (case rd_call_id rdata of None \<Rightarrow> False | Some cid \<Rightarrow> NUL \<notin> set cid)"

inductive layer_step :: "bool \<Rightarrow> tsx_layer \<Rightarrow> tsx_layer \<Rightarrow> bool" where
  layer_tsx: "tl_obj L i = Some t \<Longrightarrow> env_ok env \<Longrightarrow> tsx_step t env t' \<Longrightarrow> layer_step (lingers t) L (tsx_changed L i t t')"
| layer_uac: "tl_obj L i = None \<Longrightarrow> refs \<ge> 0 \<Longrightarrow> NUL \<notin> set (meth_name m) \<union> set branch \<Longrightarrow>
     layer_create_uac env L i (tsx_create user refs tds tps sels) td m has_cseq dest branch = (status, L') \<Longrightarrow> layer_step False L L'"
| layer_uas: "tl_obj L i = None \<Longrightarrow> refs \<ge> 0 \<Longrightarrow> NUL \<notin> set (meth_name m) \<Longrightarrow> chars_ok rdata \<Longrightarrow>
     layer_create_uas env L i (tsx_create user refs tds tps sels) rdata m rq = Some (status, L') \<Longrightarrow> layer_step False L L'"
| layer_request: "basic_headers rdata \<Longrightarrow> rx_msg_ok (rd_msg rdata) \<Longrightarrow> env_ok env \<Longrightarrow>
     mod_tsx_layer_on_rx_request env L rdata = Some (taken, L') \<Longrightarrow> layer_step False L L'"
| layer_response: "basic_headers rdata \<Longrightarrow> rx_msg_ok (rd_msg rdata) \<Longrightarrow> env_ok env \<Longrightarrow>
     mod_tsx_layer_on_rx_response env L rdata = Some (taken, L') \<Longrightarrow> layer_step False L L'"
| layer_free: "tl_obj L i = Some t \<Longrightarrow> grp_refs t = 0 \<Longrightarrow> layer_step False L (L\<lparr>tl_obj := (tl_obj L)(i := None)\<rparr>)"

inductive layer_run :: "bool \<Rightarrow> tsx_layer \<Rightarrow> bool" where
  layer_start: "layer_init max_count = Some L \<Longrightarrow> layer_run False L"
| layer_next: "layer_run late L \<Longrightarrow> layer_step late' L L' \<Longrightarrow> layer_run (late \<or> late') L'"

lemma key_ok_append: "NUL \<notin> set a \<Longrightarrow> key_ok b \<Longrightarrow> key_ok (a @ b)" and key_ok_clean: "NUL \<notin> set a \<Longrightarrow> key_ok a"
  by (auto simp: key_ok_def butlast_append dest: in_set_butlastD)

lemma key_ok_keys:
  "NUL \<notin> set (meth_name m) \<union> set branch \<Longrightarrow> key_ok (snd (create_tsx_key_3261 role m branch))"
  "chars_ok rdata \<Longrightarrow> NUL \<notin> set (meth_name m) \<Longrightarrow> create_tsx_key_2543 role m rdata = Some (status, key) \<Longrightarrow> key_ok key"
proof -
  have d: "NUL \<notin> set (pj_utoa v)" for v
    using pj_utoa_digits [of NUL v] by (auto simp: pj_isdigit_def byte_def)
  have r: "role_char role \<noteq> NUL" by (simp add: role_char_def)
  have m: "NUL \<notin> set (key_method m)" if "NUL \<notin> set (meth_name m)" using that by (simp add: key_method_def)
  show "key_ok (snd (create_tsx_key_3261 role m branch))" if "NUL \<notin> set (meth_name m) \<union> set branch"
    unfolding create_tsx_key_3261_def snd_conv by (rule key_ok_clean) (use that r m in simp)
  show "key_ok key" if ok: "chars_ok rdata" and name: "NUL \<notin> set (meth_name m)"
    and k: "create_tsx_key_2543 role m rdata = Some (status, key)"
  proof -
    have "key_ok ([role_char role] @ ''$'' @ key_method m @ pj_utoa c @ ''$'' @ tag @ ''$'' @ cid @ ''$'' @ host @ '':''
        @ pj_utoa p @ ''$'' @ [NUL])" if "NUL \<notin> set tag" "NUL \<notin> set cid" "NUL \<notin> set host" for c p tag cid host
      using r m [OF name] d that by (intro key_ok_append) (simp_all add: key_ok_Cons)
    moreover have "key_ok []" by (simp add: key_ok_def)
    ultimately show ?thesis
      using ok k by (auto simp: create_tsx_key_2543_def chars_ok_def split: option.splits)
  qed
qed

lemma key_ok_create:
  assumes "chars_ok rdata" "NUL \<notin> set (meth_name m)" "pjsip_tsx_create_key role m rdata = Some (status, key)"
  shows "key_ok key"
proof -
  obtain via where "rd_via rdata = Some via" using assms(3) by (auto simp: pjsip_tsx_create_key_def split: option.splits)
  then show ?thesis
    using key_ok_keys(1) [of m "branch_param via" role] key_ok_keys(2) [OF assms(1,2), of role] assms
    by (auto simp: pjsip_tsx_create_key_def chars_ok_def split: if_splits)
qed

lemma registered_alive:
  assumes "reg_inv base t" "base \<ge> 0" "registered t"
  shows "grp_refs t > 0"
proof -
  have "\<not> terminating t" "base \<le> other_grp_refs t" using assms by (auto simp: reg_inv_def tsx_inv_def)
  moreover from this have "held_refs t \<ge> 1" by (simp add: held_refs_def)
  ultimately show ?thesis using assms(2) by (simp add: other_grp_refs_def)
qed

lemma layer_step_inv:
  assumes "layer_step late L L'" "layer_inv L"
  shows "layer_inv L' \<and> (layer_full L \<and> \<not> late \<longrightarrow> layer_full L')"
  using assms
proof (cases rule: layer_step.cases)
  case (layer_tsx i t env t')
  obtain base where "base \<ge> 0" "reg_inv base t" using layer_invD(4) [OF assms(2) layer_tsx(3)] by blast
  then have "lawful t t'" using step_lawful layer_tsx by blast
  then show ?thesis using changed_layer [OF assms(2) layer_tsx(3)] layer_tsx(1,2) by blast
next
  case (layer_uac i refs m branch env user tds tps sels td has_cseq dest status)
  let ?key = "snd (create_tsx_key_3261 PJSIP_ROLE_UAC m branch)"
  let ?r = "pjsip_tsx_create_uac2 env (tsx_create user refs tds tps sels) td (meth_id m) has_cseq dest (find_key L ?key \<noteq> None)"
  have L': "L' = snd (enter_created L i ?key ?r)" using layer_uac(5) by (simp add: layer_create_uac_def Let_def)
  show ?thesis
  proof (cases "\<exists>t. ?r = (PJ_SUCCESS, Some t)")
    case True
    then obtain t where t: "?r = (PJ_SUCCESS, Some t)" by blast
    note e = enter_created_layer [OF assms(2) layer_uac(2) key_ok_keys(1) [OF layer_uac(4)] _ created_uac [OF t] layer_uac(3)]
    show ?thesis using e(1,2) create_needs_free_key(1) [OF t] unfolding L' t by simp
  qed (use L' enter_created_fails assms(2) in auto)
next
  case (layer_uas i refs m rdata env user tds tps sels rq status)
  show ?thesis
  proof (cases "L' = L")
    case False
    then obtain n cm status' key where h: "rd_cseq rdata = Some (n, cm)" "pjsip_tsx_create_key PJSIP_ROLE_UAS m rdata = Some (status', key)"
      and e: "enter_created L i key
        (pjsip_tsx_create_uas2 env (tsx_create user refs tds tps sels)
           (rq\<lparr>rq_is_request := True, rq_method := meth_id m, rq_has_cseq := True, rq_has_via := True,
               rq_cseq_matches := (pjsip_method_cmp m cm = 0), rq_key := status', rq_key_exists := (find_key L key \<noteq> None)\<rparr>)) = (status, L')"
        (is "enter_created L i key ?r = _")
      using layer_uas(6)
      by (auto simp: layer_create_uas_def split: pjsip_rx_msg.splits if_splits option.splits prod.splits)
    have L': "L' = snd (enter_created L i key ?r)" using e by simp
    have "key_ok key" by (rule key_ok_create [OF layer_uas(5,4) h(2)])
    moreover obtain t where t: "?r = (PJ_SUCCESS, Some t)" using False L' enter_created_fails by blast
    moreover have "find_key L key = None" using create_needs_free_key(2) [OF t] by simp
    ultimately show ?thesis
      using enter_created_layer(1,2) [OF assms(2) layer_uas(2) _ _ created_uas [OF t] layer_uas(3)] unfolding L' t by simp
  qed (use assms(2) in auto)
next
  case (layer_request rdata env taken)
  then show ?thesis using dispatch_inv [OF assms(2)] by (auto simp: mod_tsx_layer_on_rx_request_def)
next
  case (layer_response rdata env taken)
  then show ?thesis using dispatch_inv [OF assms(2)] by (auto simp: mod_tsx_layer_on_rx_response_def)
next
  case (layer_free i t)
  obtain base where "base \<ge> 0" "reg_inv base t" using layer_invD(4) [OF assms(2) layer_free(3)] by blast
  then have "\<not> registered t" using registered_alive layer_free(4) by fastforce
  then have "live_at L' = live_at L" using layer_free by (auto simp: fun_eq_iff)
  then show ?thesis using assms(2) unfolding layer_inv_def layer_full_def layer_free(2) by auto
qed

lemma layer_run_inv:
  assumes "layer_run late L"
  shows "layer_inv L \<and> (\<not> late \<longrightarrow> layer_full L)"
  using assms
proof (induction rule: layer_run.induct)
  case (layer_start max_count L)
  obtain ht where ht: "pj_hash_create max_count = Some ht" "L = \<lparr>tl_htable = ht, tl_obj = Map.empty, tl_key = (\<lambda>_. [])\<rparr>"
    using layer_start by (auto simp: layer_init_def)
  have "max_count \<le> 2 ^ 31" using ht(1) table_size_loop_stuck [of max_count] by (auto simp: pj_hash_create_def not_less [symmetric])
  then have "ht_inv True ht" "ht_abs True ht = Map.empty" using pj_hash_create_inv [of max_count True] ht(1) by (metis option.inject)+
  then show ?case by (simp add: ht(2) layer_inv_def layer_full_def lower_table.points_def lower_table.reaches_def)
next
  case (layer_next late L late' L')
  then show ?case using layer_step_inv by blast
qed

section \<open>Shutdown\<close>

definition shut :: "tsx_env \<Rightarrow> pjsip_transaction \<Rightarrow> pjsip_transaction" where
  "shut env t = tsx_shutdown env (mod_tsx_layer_unregister_tsx env (snd (pjsip_tsx_terminate env t PJSIP_SC_SERVICE_UNAVAILABLE)))"

abbreviation in_table :: "tsx_layer \<Rightarrow> nat \<Rightarrow> bool" where
  "in_table L i \<equiv> i \<in> ran (ht_abs True (tl_htable L))"

lemma stop_loop_empties:
  assumes "env_layer_up env" "ht_inv True (tl_htable L)" "lower_table.points (tl_htable L) (tl_key L) (\<lambda>i. tl_obj L i \<noteq> None)"
  shows "\<exists>L'. stop_loop env L (pj_hash_first (tl_htable L)) = Some L' \<and> ht_count (tl_htable L') = 0
    \<and> (\<forall>i. tl_obj L' i = (if in_table L i then map_option (shut env) (tl_obj L i) else tl_obj L i))"
  using assms(2,3)
proof (induction "ht_count (tl_htable L)" arbitrary: L rule: less_induct)
  case less
  note inv = less.prems(1) and pts = less.prems(2)
  show ?case
  proof (cases "pj_hash_first (tl_htable L)")
    case None
    then have "ht_abs True (tl_htable L) = Map.empty" by (rule first_none [OF inv])
    then show ?thesis using None ht_count_abs(2) [OF inv] by (subst stop_loop.simps) simp
  next
    case (Some it)
    define i where "i = pj_hash_this it"
    define n where "n = norm True (he_key (hd (snd it)))"
    have n: "ht_abs True (tl_htable L) n = Some i" using first_in_table [OF inv Some] by (simp add: n_def i_def)
    then obtain t where t: "norm True (tl_key L i) = n" "tl_obj L i = Some t" using pts by (auto simp: lower_table.points_def)
    define L1 where "L1 = set_obj (layer_unregister_tsx L i) i (shut env t)"
    have L1: "tl_obj L1 = (tl_obj L)(i \<mapsto> shut env t)" "tl_key L1 = tl_key L"
      and tab: "tl_htable L1 = the (pj_hash_set_lower False (tl_htable L) (tl_key L i) (Some (length (tl_key L i))) (fst (pj_hash_calc_tolower 0 (tl_key L i))) None)"
      by (simp_all add: L1_def layer_unregister_tsx_def Let_def)
    note del = lower_table.del_law [OF inv, of "tl_key L i", folded tab]
    have "tl_htable L1 = the (hash_set False (tl_htable L) (tl_key L i) (Some (length (tl_key L i))) (key_hash (tl_key L i) 0 True) None False True)"
      by (simp add: tab pj_hash_set_lower_def precalculated_hash)
    then have first: "pj_hash_first (tl_htable L1) = pj_hash_next (tl_htable L) it"
      using first_after_del [OF inv Some, of "key_hash (tl_key L i) 0 True" "tl_key L i" False False] t(1) by (simp add: n_def)
    have "lower_table.points (tl_htable L1) (tl_key L1) (\<lambda>i. tl_obj L1 i \<noteq> None)"
      unfolding tab by (rule lower_table.points_mono [OF lower_table.points_del [OF inv pts]]) (auto simp: L1)
    moreover have "ht_count (tl_htable L) > 0" using n ht_count_abs [OF inv] by (auto simp: card_gt_0_iff)
    then have "ht_count (tl_htable L1) < ht_count (tl_htable L)"
      using lower_table.cnt_del [OF inv, of "tl_key L i", folded tab] n t(1) lower_table.get_law [OF inv] by (simp add: pj_hash_count_def)
    ultimately obtain L' where L': "stop_loop env L1 (pj_hash_next (tl_htable L) it) = Some L'" "ht_count (tl_htable L') = 0"
      "\<forall>j. tl_obj L' j = (if in_table L1 j then map_option (shut env) (tl_obj L1 j) else tl_obj L1 j)"
      using less.hyps [of L1] del first by auto
    have "in_table L1 j \<longleftrightarrow> in_table L j \<and> j \<noteq> i" for j
      using del t(1) pts n by (auto simp: ran_def lower_table.points_def) (metis option.inject)
    moreover have "in_table L i" using n by (auto simp: ran_def)
    moreover have "stop_loop env L (pj_hash_first (tl_htable L)) = Some L'"
      using L'(1) Some t(2) assms(1) by (subst stop_loop.simps) (simp add: i_def [symmetric] L1_def shut_def Let_def)
    ultimately show ?thesis using L'(2,3) L1 t(2) by auto
  qed
qed

end
