(* ===== verification/Sip_Tsx_Layer_Props.thy ===== *)
theory Sip_Tsx_Layer_Props
  imports Sip_Tsx_Layer Sip_Tsx_Props
begin

text \<open>
  What the model of the transaction layer gives: properties of every run of the layer and of its operations, with a table that
  holds the client transaction of \<open>Sip_Tsx_Props\<close> as the example of the witnesses.
\<close>

section \<open>Lemmas\<close>

text \<open>A method as the parser delivers it, with the usual spelling of a known name.\<close>

definition parsed_method :: "pjsip_method \<Rightarrow> bool" where
  "parsed_method m \<longleftrightarrow> pjsip_method_init_np (meth_name m) = m"

lemma parsed_method_name:
  assumes "parsed_method m" "meth_id m \<noteq> PJSIP_OTHER_METHOD"
  shows "map_of method_names (meth_id m) = Some (meth_name m)"
proof -
  define m' where "m' = pjsip_method_init_np (meth_name m)"
  have "meth_id m' \<noteq> PJSIP_OTHER_METHOD \<longrightarrow> map_of method_names (meth_id m') = Some (meth_name m')"
    by (simp add: m'_def pjsip_method_init_np_def method_names_def)
  then show ?thesis using assms by (simp add: parsed_method_def m'_def)
qed

lemma parsed_method_eq:
  assumes "parsed_method m1" "parsed_method m2" "pjsip_method_cmp m1 m2 = 0"
  shows "m1 = m2"
proof -
  have i: "meth_id m1 = meth_id m2" using assms(3) by (auto simp: pjsip_method_cmp_def split: if_splits)
  have "meth_name m1 = meth_name m2"
  proof (cases "meth_id m1 = PJSIP_OTHER_METHOD")
    case True
    then show ?thesis using assms(3) i by (simp add: pjsip_method_cmp_def pj_strcmp_0)
  next
    case False
    then show ?thesis using parsed_method_name [OF assms(1)] parsed_method_name [OF assms(2)] i by simp
  qed
  then show ?thesis using i by simp
qed

lemma cookie_of_new_branch: "pj_strnicmp (new_branch guid) PJSIP_RFC3261_BRANCH_ID PJSIP_RFC3261_BRANCH_LEN = 0"
  unfolding cookie_test by (simp add: has_cookie_def new_branch_def PJSIP_RFC3261_BRANCH_LEN_def PJSIP_RFC3261_BRANCH_ID_def)

lemma terminate_state:
  "PJSIP_TSX_STATE_TERMINATED \<le> tsx_state (snd (pjsip_tsx_terminate env t PJSIP_SC_SERVICE_UNAVAILABLE))"
  by (auto simp: pjsip_tsx_terminate_def PJSIP_SC_SERVICE_UNAVAILABLE_def tsx_set_state_def Let_def not_less)

text \<open>A message whose key leads to a transaction that has not terminated is delivered to it.\<close>

lemma dispatch_delivers:
  assumes inv: "layer_inv L" and rd: "basic_headers rdata" "rx_msg_ok (rd_msg rdata)" and env: "env_ok env"
    and key: "rd_cseq rdata = Some (n, m)" "pjsip_tsx_create_key role m rdata = Some (PJ_SUCCESS, key)"
    and i: "find_key L key = Some i" "tl_obj L i = Some t" "tsx_state t \<noteq> PJSIP_TSX_STATE_TERMINATED"
  shows "\<exists>u. pjsip_tsx_recv_msg env (t\<lparr>grp_refs := grp_refs t + 1\<rparr>) (rd_msg rdata) = Some u
    \<and> dispatch role env L rdata = Some (True, tsx_changed L i t (u\<lparr>grp_refs := grp_refs u - 1\<rparr>))"
proof (cases rule: dispatch_cases [OF inv rd env, of role])
  case 1
  then show ?thesis using key i by (auto simp: dispatch_def split: option.splits)
next
  case (2 m' n' key' i' t0 t')
  then show ?thesis using key i by (auto simp: dispatch_def)
qed

lemma changed_obj [simp]: "tl_obj (tsx_changed L i t t') = (tl_obj L)(i \<mapsto> t')"
  by (simp add: tsx_changed_def Let_def)

section \<open>Properties\<close>

text \<open>
C31. In every run of the transaction layer, finding a transaction by a key gives none and changes
nothing, or gives one that is in memory, registered, referenced, and has that key up to case,
whose reference counter rises by one if the caller asked for a reference.
\<close>

theorem layer_finds_live:
  assumes "layer_run late L"
  shows "\<exists>found L'. pjsip_tsx_layer_find_tsx2 L key add_ref = Some (found, L') \<and>
    (case found of
       None \<Rightarrow> L' = L
     | Some i \<Rightarrow> (\<exists>t. tl_obj L i = Some t \<and> registered t \<and> grp_refs t > 0 \<and> map pj_tolower (tl_key L i) = map pj_tolower key
         \<and> L' = set_obj L i (t\<lparr>grp_refs := grp_refs t + of_bool add_ref\<rparr>)))"
proof -
  have inv: "layer_inv L" using layer_run_inv [OF assms] by simp
  note D = layer_invD [OF inv]
  show ?thesis
  proof (cases "find_key L key")
    case (Some i)
    then obtain t where t: "norm True (tl_key L i) = norm True key" "tl_obj L i = Some t" "registered t"
      using lower_table.points_get [OF D(1,2)] by blast
    moreover have "grp_refs t > 0" using D(4) [OF t(2)] registered_alive t(3) by blast
    ultimately show ?thesis
      using Some by (simp add: pjsip_tsx_layer_find_tsx2_def find_tsx_def norm_def Let_def)
  qed (simp add: pjsip_tsx_layer_find_tsx2_def find_tsx_def)
qed

text \<open>
C3. In every run of the transaction layer, a received message with the basic headers is dispatched
without touching memory that is not there: its key is made, and what the table has under it is a
transaction in memory that is registered and referenced. The message is left to other modules when
there is none or it has terminated; otherwise that transaction receives it, no other changes, and
the layer stays well-formed.
\<close>

theorem layer_dispatch_total:
  assumes "layer_run late L" "basic_headers rdata" "rx_msg_ok (rd_msg rdata)" "env_ok env"
  shows "\<exists>n m key. rd_cseq rdata = Some (n, m) \<and> pjsip_tsx_create_key role m rdata = Some (PJ_SUCCESS, key) \<and>
    (case find_key L key of
       None \<Rightarrow> dispatch role env L rdata = Some (False, L)
     | Some i \<Rightarrow>
         (\<exists>t. tl_obj L i = Some t \<and> registered t \<and> grp_refs t > 0 \<and>
           (if tsx_state t = PJSIP_TSX_STATE_TERMINATED then dispatch role env L rdata = Some (False, L)
            else \<exists>u L'. pjsip_tsx_recv_msg env (t\<lparr>grp_refs := grp_refs t + 1\<rparr>) (rd_msg rdata) = Some u
              \<and> dispatch role env L rdata = Some (True, L') \<and> layer_inv L'
              \<and> tl_obj L' = (tl_obj L)(i \<mapsto> u\<lparr>grp_refs := grp_refs u - 1\<rparr>))))"
proof -
  have inv: "layer_inv L" using layer_run_inv [OF assms(1)] by simp
  note D = layer_invD [OF inv]
  obtain n m key where h: "rd_cseq rdata = Some (n, m)" "pjsip_tsx_create_key role m rdata = Some (PJ_SUCCESS, key)"
    using headers_give_key [OF assms(2)] by blast
  show ?thesis
  proof (cases "find_key L key")
    case None
    then show ?thesis using h by (simp add: dispatch_def)
  next
    case (Some i)
    then obtain t where t: "tl_obj L i = Some t" "registered t" using lower_table.points_get [OF D(1,2)] by blast
    have alive: "grp_refs t > 0" using D(4) [OF t(1)] registered_alive t(2) by blast
    show ?thesis
    proof (cases "tsx_state t = PJSIP_TSX_STATE_TERMINATED")
      case True
      then show ?thesis using h Some t alive by (simp add: dispatch_def)
    next
      case False
      obtain u where u: "pjsip_tsx_recv_msg env (t\<lparr>grp_refs := grp_refs t + 1\<rparr>) (rd_msg rdata) = Some u"
        and d: "dispatch role env L rdata = Some (True, tsx_changed L i t (u\<lparr>grp_refs := grp_refs u - 1\<rparr>))"
        using dispatch_delivers [OF inv assms(2-4) h Some t(1) False] by blast
      have "layer_inv (tsx_changed L i t (u\<lparr>grp_refs := grp_refs u - 1\<rparr>))" using dispatch_inv [OF inv assms(2-4) d] by simp
      then show ?thesis using h Some t alive u d False by auto
    qed
  qed
qed

text \<open>
C12. In every run of the transaction layer in which no transaction is called back after it was
destroyed with a send pending, each registered transaction is found under its key, no two have the
same key up to case, and the count of the layer is the number of registered transactions.
\<close>

theorem layer_keys_unique:
  assumes "layer_run False L" "tl_obj L i = Some t" "registered t"
  shows "find_key L (tl_key L i) = Some i
    \<and> (\<forall>j u. tl_obj L j = Some u \<longrightarrow> registered u \<longrightarrow> map pj_tolower (tl_key L j) = map pj_tolower (tl_key L i) \<longrightarrow> j = i)
    \<and> pjsip_tsx_layer_get_tsx_count L = card {j. \<exists>u. tl_obj L j = Some u \<and> registered u}"
proof -
  have inv: "layer_inv L" and full: "lower_table.reaches (tl_htable L) (tl_key L) (live_at L)"
    using layer_run_inv [OF assms(1)] by (simp_all add: layer_full_def)
  note D = layer_invD [OF inv]
  have live: "live_at L i" using assms by simp
  have "find_key L (tl_key L i) = Some i" using full live lower_table.get_law [OF D(1)] by (simp add: lower_table.reaches_def)
  moreover have "j = i" if "live_at L j" "norm True (tl_key L j) = norm True (tl_key L i)" for j
    using lower_table.reaches_inj [OF full that(1) live that(2)] .
  moreover have "dom (ht_abs True (tl_htable L)) = (\<lambda>j. norm True (tl_key L j)) ` {j. live_at L j}"
  proof -
    have "n \<in> (\<lambda>j. norm True (tl_key L j)) ` {j. live_at L j}" if "ht_abs True (tl_htable L) n = Some j" for n j
      using that D(2) unfolding lower_table.points_def by blast
    then show ?thesis using full unfolding lower_table.reaches_def by blast
  qed
  moreover have "inj_on (\<lambda>j. norm True (tl_key L j)) {j. live_at L j}"
    using lower_table.reaches_inj [OF full] by (auto intro!: inj_onI)
  ultimately show ?thesis
    using lower_table.cnt_law [OF D(1)] card_image [of "\<lambda>j. norm True (tl_key L j)" "{j. live_at L j}"]
    by (auto simp: pjsip_tsx_layer_get_tsx_count_def norm_def)
qed

text \<open>
C23. Stopping the transaction layer, in whatever state a run has brought it to, returns: the loop
that removes the entry it is at visits every entry. The table is then empty, so that unloading
succeeds; each transaction it had is out of the table, terminated, and has released its message,
transport and timers; no other is touched.
\<close>

theorem layer_stop_empties:
  assumes "layer_run late L" "env_layer_up env"
  shows "\<exists>L'. mod_tsx_layer_stop env L = Some L' \<and> pjsip_tsx_layer_get_tsx_count L' = 0 \<and> mod_tsx_layer_unload L' = PJ_SUCCESS
    \<and> (\<forall>i t. tl_obj L i = Some t \<longrightarrow> find_key L (tl_key L i) = Some i \<longrightarrow>
         (\<exists>t'. tl_obj L' i = Some t' \<and> \<not> registered t' \<and> terminating t' \<and> tsx_state t' \<ge> PJSIP_TSX_STATE_TERMINATED
            \<and> last_tx t' = None \<and> tsx_transport t' = None \<and> \<not> runs Timeout_Timer t' \<and> \<not> runs Retransmit_Timer t'))
    \<and> (\<forall>i. find_key L (tl_key L i) \<noteq> Some i \<longrightarrow> tl_obj L' i = tl_obj L i)"
proof -
  have inv: "layer_inv L" using layer_run_inv [OF assms(1)] by simp
  note D = layer_invD [OF inv]
  have "lower_table.points (tl_htable L) (tl_key L) (\<lambda>i. tl_obj L i \<noteq> None)"
    by (rule lower_table.points_mono [OF D(2)]) auto
  then obtain L' where L': "mod_tsx_layer_stop env L = Some L'" "ht_count (tl_htable L') = 0"
      "\<forall>i. tl_obj L' i = (if in_table L i then map_option (shut env) (tl_obj L i) else tl_obj L i)"
    using stop_loop_empties [OF assms(2) D(1)] by (auto simp: mod_tsx_layer_stop_def)
  have tab: "find_key L (tl_key L i) = Some i \<longleftrightarrow> in_table L i" for i
  proof -
    have "norm True (tl_key L i) = n" if "ht_abs True (tl_htable L) n = Some i" for n
      using that D(2) unfolding lower_table.points_def by blast
    then show ?thesis using lower_table.get_law [OF D(1)] by (auto simp: ran_def)
  qed
  have "\<not> registered (shut env t) \<and> terminating (shut env t) \<and> tsx_state (shut env t) \<ge> PJSIP_TSX_STATE_TERMINATED
      \<and> last_tx (shut env t) = None \<and> tsx_transport (shut env t) = None \<and> \<not> runs e (shut env t)" for t e
    using assms(2) by (simp add: shut_def terminate_state)
  then show ?thesis using L' by (auto simp: tab pjsip_tsx_layer_get_tsx_count_def mod_tsx_layer_unload_def pj_hash_count_def)
qed

text \<open>
  The layer later in the same run, with the transaction at \<open>i\<close> in memory all the time: its key is the same, and as long as it has not
  terminated the table has it.
\<close>

inductive layer_later :: "nat \<Rightarrow> tsx_layer \<Rightarrow> tsx_layer \<Rightarrow> bool" for i L where
  later_now: "layer_later i L L"
| later_step: "layer_later i L L1 \<Longrightarrow> layer_step False L1 L2 \<Longrightarrow> tl_obj L2 i \<noteq> None \<Longrightarrow> layer_later i L L2"

lemma changed_key [simp]: "tl_key (tsx_changed L i t t') = tl_key L"
  by (simp add: tsx_changed_def Let_def)

lemma created_key: "tl_obj L j = None \<Longrightarrow> tl_obj L i \<noteq> None \<Longrightarrow> enter_created L j key r = (status, L') \<Longrightarrow> tl_key L' i = tl_key L i"
  by (auto simp: enter_created_def layer_register_tsx_def Let_def split: pj_status.splits option.splits prod.splits)

lemma dispatch_key: "dispatch role env L rdata = Some (taken, L') \<Longrightarrow> tl_key L' = tl_key L"
  by (auto simp: dispatch_def split: option.splits if_splits prod.splits)

lemma step_key:
  assumes "layer_step late L L'" "tl_obj L i \<noteq> None"
  shows "tl_key L' i = tl_key L i"
  using assms
proof (cases rule: layer_step.cases)
  case (layer_uac j refs m branch env user tds tps sels td has_cseq dest status)
  then show ?thesis using created_key [OF layer_uac(2) assms(2)] by (simp add: layer_create_uac_def Let_def)
next
  case (layer_uas j refs m rdata env user tds tps sels rq status)
  then show ?thesis using created_key [OF layer_uas(2) assms(2)]
    by (auto simp: layer_create_uas_def split: pjsip_rx_msg.splits if_splits option.splits prod.splits)
qed (simp_all add: mod_tsx_layer_on_rx_request_def mod_tsx_layer_on_rx_response_def dispatch_key)

lemma later_run:
  assumes "layer_later i L L2" "layer_run False L" "tl_obj L i \<noteq> None"
  shows "layer_run False L2 \<and> tl_obj L2 i \<noteq> None \<and> tl_key L2 i = tl_key L i"
  using assms(1)
proof induction
  case (later_step L1 L2)
  then show ?case using layer_next [of False L1 False L2] step_key [of False L1 L2 i] by simp
qed (use assms in simp)

lemma later_finds:
  assumes "layer_run False L" "tl_obj L i \<noteq> None" "layer_later i L L2" "tl_obj L2 i = Some t" "tsx_state t < PJSIP_TSX_STATE_TERMINATED"
  shows "layer_inv L2" "find_key L2 (tl_key L i) = Some i"
proof -
  have run: "layer_run False L2" "tl_key L2 i = tl_key L i" using later_run [OF assms(3,1,2)] by simp_all
  show inv: "layer_inv L2" using layer_run_inv [OF run(1)] by simp
  obtain base where "reg_inv base t" using layer_invD(4) [OF inv assms(4)] by blast
  then have "registered t" using assms(5) by (auto simp: reg_inv_def tsx_state_order)
  moreover have "layer_full L2" using layer_run_inv [OF run(1)] by simp
  ultimately have "find_key L2 (tl_key L2 i) = Some i"
    using assms(4) lower_table.get_law [OF layer_invD(1) [OF inv]] by (simp add: layer_full_def lower_table.reaches_def)
  then show "find_key L2 (tl_key L i) = Some i" by (simp only: run(2))
qed

lemma later_delivers:
  assumes "layer_run False L" "tl_obj L i \<noteq> None" "layer_later i L L2" "tl_obj L2 i = Some t" "tsx_state t < PJSIP_TSX_STATE_TERMINATED"
    and "basic_headers rdata" "rx_msg_ok (rd_msg rdata)" "env_ok env" "rd_cseq rdata = Some (n, m)"
    and "pjsip_tsx_create_key role m rdata = Some (PJ_SUCCESS, tl_key L i)"
  shows "\<exists>u L3. pjsip_tsx_recv_msg env (t\<lparr>grp_refs := grp_refs t + 1\<rparr>) (rd_msg rdata) = Some u
    \<and> dispatch role env L2 rdata = Some (True, L3) \<and> tl_obj L3 = (tl_obj L2)(i \<mapsto> u\<lparr>grp_refs := grp_refs u - 1\<rparr>)"
proof -
  have "tsx_state t \<noteq> PJSIP_TSX_STATE_TERMINATED" using assms(5) by auto
  then show ?thesis
    using dispatch_delivers [OF later_finds(1) [OF assms(1-5)] assms(6-10) later_finds(2) [OF assms(1-5)] assms(4)] by fastforce
qed

lemma create_success:
  "pjsip_tsx_create_uac2 env create td meth c dest ex = (PJ_SUCCESS, r) \<Longrightarrow> r \<noteq> None"
  "pjsip_tsx_create_uas2 env create rq = (PJ_SUCCESS, r) \<Longrightarrow> r \<noteq> None"
  by (auto simp: pjsip_tsx_create_uac2_def pjsip_tsx_create_uas2_def mod_tsx_layer_register_tsx_def Let_def split: if_splits prod.splits)

lemma create_uas_guards: "pjsip_tsx_create_uas2 env create rq = (PJ_SUCCESS, r) \<Longrightarrow> rq_key rq = PJ_SUCCESS \<and> rq_cseq_matches rq"
  by (auto simp: pjsip_tsx_create_uas2_def mod_tsx_layer_register_tsx_def Let_def split: if_splits prod.splits)

lemma enter_created_success: "enter_created L i key r = (PJ_SUCCESS, L') \<Longrightarrow> (\<And>r'. r = (PJ_SUCCESS, r') \<Longrightarrow> r' \<noteq> None) \<Longrightarrow> \<exists>t. r = (PJ_SUCCESS, Some t)"
  by (cases r; cases "fst r") (auto simp: enter_created_def)

lemma enter_created_at: "enter_created L i key (PJ_SUCCESS, Some t) = (PJ_SUCCESS, L') \<Longrightarrow> tl_obj L' i = Some t \<and> tl_key L' i = key"
  by (auto simp: enter_created_def layer_register_tsx_def Let_def split: option.splits)

lemma create_uas_again:
  "pjsip_tsx_create_uas2 env create rq = (PJ_SUCCESS, r) \<Longrightarrow>
   \<exists>r'. pjsip_tsx_create_uas2 env create' (rq\<lparr>rq_key_exists := True\<rparr>) = (PJ_EEXISTS, r')"
  by (auto simp: pjsip_tsx_create_uas2_def mod_tsx_layer_register_tsx_def Let_def split: if_splits prod.splits)

lemma create_uas_success:
  assumes "layer_create_uas env L i create rdata m rq = Some (PJ_SUCCESS, L')" "rd_cseq rdata = Some (n, cm)"
  obtains key t where "pjsip_tsx_create_key PJSIP_ROLE_UAS m rdata = Some (PJ_SUCCESS, key)" "pjsip_method_cmp m cm = 0"
    "enter_created L i key (PJ_SUCCESS, Some t) = (PJ_SUCCESS, L')"
    "pjsip_tsx_create_uas2 env create
       (rq\<lparr>rq_is_request := True, rq_method := meth_id m, rq_has_cseq := True, rq_has_via := True,
           rq_cseq_matches := (pjsip_method_cmp m cm = 0), rq_key := PJ_SUCCESS, rq_key_exists := (find_key L key \<noteq> None)\<rparr>) = (PJ_SUCCESS, Some t)"
    "\<And>L1 j create'. find_key L1 key \<noteq> None \<Longrightarrow> layer_create_uas env L1 j create' rdata m rq = Some (PJ_EEXISTS, L1)"
proof -
  obtain st key where key: "pjsip_tsx_create_key PJSIP_ROLE_UAS m rdata = Some (st, key)"
    and req: "\<exists>rm. rd_msg rdata = Rx_Request rm" "meth_id m \<noteq> PJSIP_ACK_METHOD"
    and e: "enter_created L i key
        (pjsip_tsx_create_uas2 env create
           (rq\<lparr>rq_is_request := True, rq_method := meth_id m, rq_has_cseq := True, rq_has_via := True,
               rq_cseq_matches := (pjsip_method_cmp m cm = 0), rq_key := st, rq_key_exists := (find_key L key \<noteq> None)\<rparr>)) = (PJ_SUCCESS, L')"
        (is "enter_created L i key (pjsip_tsx_create_uas2 env create ?rq) = _")
    using assms by (auto simp: layer_create_uas_def split: pjsip_rx_msg.splits if_splits option.splits prod.splits)
  obtain t where t: "pjsip_tsx_create_uas2 env create ?rq = (PJ_SUCCESS, Some t)"
    using enter_created_success [OF e] create_success(2) by blast
  then have st: "st = PJ_SUCCESS" "pjsip_method_cmp m cm = 0" using create_uas_guards [OF t] by simp_all
  have "layer_create_uas env L1 j create' rdata m rq = Some (PJ_EEXISTS, L1)" if "find_key L1 key \<noteq> None" for L1 j create'
  proof -
    obtain r' where "pjsip_tsx_create_uas2 env create' (?rq\<lparr>rq_key_exists := True\<rparr>) = (PJ_EEXISTS, r')"
      using create_uas_again [OF t] by blast
    then show ?thesis using that key req assms(2) by (auto simp: layer_create_uas_def enter_created_def)
  qed
  then show thesis using that key e t st by simp
qed

text \<open>
C25. In a run in which no transaction is called back after it was destroyed with a send pending: a
response whose topmost Via has the branch that was generated for a request, and whose CSeq has its
method, at any later time at which the client transaction created for that request is in memory
and has not terminated, is given to pjsip_tsx_recv_msg of that transaction, with a reference held
for the call, is consumed, and changes no other transaction.
\<close>

theorem layer_response_reaches_client:
  assumes "layer_run False L" "tl_obj L i = None" "refs \<ge> 0" "NUL \<notin> set (meth_name m) \<union> set guid"
    and "layer_create_uac env L i (tsx_create user refs tds tps sels) td m has_cseq dest (new_branch guid) = (PJ_SUCCESS, L')"
    and "layer_later i L' L2" "tl_obj L2 i = Some t" "tsx_state t < PJSIP_TSX_STATE_TERMINATED" "env_ok env'"
    and "basic_headers rdata" "rx_msg_ok (rd_msg rdata)" "rd_via rdata = Some via" "branch_param via = new_branch guid" "rd_cseq rdata = Some (n, m)"
  shows "\<exists>u L3. pjsip_tsx_recv_msg env' (t\<lparr>grp_refs := grp_refs t + 1\<rparr>) (rd_msg rdata) = Some u
    \<and> mod_tsx_layer_on_rx_response env' L2 rdata = Some (True, L3) \<and> tl_obj L3 = (tl_obj L2)(i \<mapsto> u\<lparr>grp_refs := grp_refs u - 1\<rparr>)"
proof -
  let ?key = "snd (create_tsx_key_3261 PJSIP_ROLE_UAC m (new_branch guid))"
  let ?r = "pjsip_tsx_create_uac2 env (tsx_create user refs tds tps sels) td (meth_id m) has_cseq dest (find_key L ?key \<noteq> None)"
  have e: "enter_created L i ?key ?r = (PJ_SUCCESS, L')" using assms(5) by (simp add: layer_create_uac_def Let_def)
  then obtain t1 where t1: "?r = (PJ_SUCCESS, Some t1)" using enter_created_success [OF e] create_success(1) by blast
  have obj: "tl_obj L' i \<noteq> None" "tl_key L' i = ?key" using enter_created_at [OF e [unfolded t1]] by simp_all
  have "NUL \<notin> set (meth_name m) \<union> set (new_branch guid)" using assms(4) by (auto simp: new_branch_def PJSIP_RFC3261_BRANCH_ID_def)
  then have "layer_step False L L'" by (rule layer_uac [OF assms(2,3) _ assms(5)])
  from layer_next [OF assms(1) this] have run: "layer_run False L'" by simp
  have key: "pjsip_tsx_create_key PJSIP_ROLE_UAC m rdata = Some (PJ_SUCCESS, tl_key L' i)"
    using assms(12,13) cookie_of_new_branch by (simp add: obj(2) pjsip_tsx_create_key_def create_tsx_key_3261_def)
  show ?thesis
    using later_delivers [OF run obj(1) assms(6,7,8,10,11,9,14) key] by (simp add: mod_tsx_layer_on_rx_response_def)
qed

text \<open>
C24. In a run in which no transaction is called back after it was destroyed with a send pending:
when a server transaction has been created for a request and is in memory and not terminated at
some later time, the same request received again then, of an RFC 3261 peer or an older one, is
given to pjsip_tsx_recv_msg of that transaction, is consumed, and changes no other, and a second
attempt to create a transaction for it is refused because the key exists.
\<close>

theorem layer_no_duplicate_server:
  assumes "layer_run False L" "tl_obj L i = None" "refs \<ge> 0" "chars_ok rdata" "NUL \<notin> set (meth_name m)"
    and "layer_create_uas env L i (tsx_create user refs tds tps sels) rdata m rq = Some (PJ_SUCCESS, L')"
    and "layer_later i L' L2" "tl_obj L2 i = Some t" "tsx_state t < PJSIP_TSX_STATE_TERMINATED" "env_ok env'"
    and "basic_headers rdata" "rx_msg_ok (rd_msg rdata)" "rd_cseq rdata = Some (n, cm)" "parsed_method m" "parsed_method cm"
  shows "(\<exists>u L3. pjsip_tsx_recv_msg env' (t\<lparr>grp_refs := grp_refs t + 1\<rparr>) (rd_msg rdata) = Some u
      \<and> mod_tsx_layer_on_rx_request env' L2 rdata = Some (True, L3) \<and> tl_obj L3 = (tl_obj L2)(i \<mapsto> u\<lparr>grp_refs := grp_refs u - 1\<rparr>))
    \<and> layer_create_uas env L2 j create rdata m rq = Some (PJ_EEXISTS, L2)"
proof -
  obtain key t1 where key: "pjsip_tsx_create_key PJSIP_ROLE_UAS m rdata = Some (PJ_SUCCESS, key)" "pjsip_method_cmp m cm = 0"
    and e: "enter_created L i key (PJ_SUCCESS, Some t1) = (PJ_SUCCESS, L')"
    and again: "\<And>L1 j create'. find_key L1 key \<noteq> None \<Longrightarrow> layer_create_uas env L1 j create' rdata m rq = Some (PJ_EEXISTS, L1)"
    by (rule create_uas_success [OF assms(6,13)], rule that)
  have cm: "cm = m" using parsed_method_eq [OF assms(14,15) key(2)] by simp
  have obj: "tl_obj L' i \<noteq> None" "tl_key L' i = key" using enter_created_at [OF e] by simp_all
  have "layer_step False L L'" by (rule layer_uas [OF assms(2-3,5,4,6)])
  from layer_next [OF assms(1) this] have run: "layer_run False L'" by simp
  have "find_key L2 key = Some i" using later_finds(2) [OF run obj(1) assms(7-9)] obj(2) by simp
  then have "layer_create_uas env L2 j create rdata m rq = Some (PJ_EEXISTS, L2)" by (intro again) simp
  then show ?thesis
    using later_delivers [OF run obj(1) assms(7-9,11,12,10,13), of PJSIP_ROLE_UAS] key(1) obj(2) cm
    by (simp add: mod_tsx_layer_on_rx_request_def)
qed

section \<open>A transaction called back after its end\<close>

text \<open>
  The INVITE of \<open>Sip_Tsx_Props\<close> with its branch, as a client transaction of the layer, and a response to it.
\<close>

definition ex_method :: pjsip_method where
  "ex_method = \<lparr>meth_id = PJSIP_INVITE_METHOD, meth_name = ''INVITE''\<rparr>"

definition ex_key :: string where
  "ex_key = snd (create_tsx_key_3261 PJSIP_ROLE_UAC ex_method (new_branch ''1''))"

abbreviation ex_create :: "tsx_layer \<Rightarrow> nat \<Rightarrow> pj_status \<times> tsx_layer" where
  "ex_create L i \<equiv> layer_create_uac ex_env L i (tsx_create ex_user 0 (\<lambda>_. 0) (\<lambda>_. 0) (\<lambda>_. 0)) 1 ex_method True (PJ_SUCCESS, False) (new_branch ''1'')"

lemma ex_create_layer:
  assumes "layer_run late L" "tl_obj L i = None" "find_key L ex_key = None"
  obtains L' where "ex_create L i = (PJ_SUCCESS, L')" "layer_run late L'" "tl_obj L' = (tl_obj L)(i \<mapsto> ex_tsx0)"
    "tl_key L' = (tl_key L)(i := ex_key)" "find_key L' ex_key = Some i"
proof -
  let ?c = "pjsip_tsx_create_uac2 ex_env (tsx_create ex_user 0 (\<lambda>_. 0) (\<lambda>_. 0) (\<lambda>_. 0)) 1 PJSIP_INVITE_METHOD True (PJ_SUCCESS, False) False"
  have "fst ?c = PJ_SUCCESS \<and> snd ?c \<noteq> None" by (simp add: pjsip_tsx_create_uac2_def ex_env_def mod_tsx_layer_register_tsx_def Let_def)
  then have c: "?c = (PJ_SUCCESS, Some ex_tsx0)" by (auto simp: ex_tsx0_def prod_eq_iff)
  define L' where "L' = snd (enter_created L i ex_key (PJ_SUCCESS, Some ex_tsx0))"
  have n: "NUL \<notin> set (meth_name ex_method) \<union> set (new_branch ''1'')"
    by (simp add: ex_method_def new_branch_def PJSIP_RFC3261_BRANCH_ID_def)
  have k: "key_ok ex_key" unfolding ex_key_def by (rule key_ok_keys(1) [OF n])
  have eq: "ex_create L i = (PJ_SUCCESS, L')"
    using assms(3) c by (simp add: layer_create_uac_def Let_def ex_key_def [symmetric] ex_method_def [THEN arg_cong, of meth_id] L'_def enter_created_def)
  have inv: "layer_inv L" using layer_run_inv [OF assms(1)] by simp
  note new = enter_created_layer [OF inv assms(2) k assms(3) ex_created, folded L'_def]
  have "layer_step False L L'" by (rule layer_uac [OF assms(2) _ n eq]) simp
  from layer_next [OF assms(1) this] have run: "layer_run late L'" by simp
  have keys: "tl_key L' = (tl_key L)(i := ex_key)"
    by (simp add: L'_def enter_created_def layer_register_tsx_def Let_def split: option.splits)
  show thesis by (rule that [OF eq run new(3) keys new(4)]) simp_all
qed

lemma ex_layer_empty:
  obtains L where "layer_run False L" "tl_obj L = Map.empty" "\<forall>key. find_key L key = None"
proof -
  obtain ht :: "nat pj_hash_table" where ht: "pj_hash_create 15 = Some ht" "ht_inv True ht" "ht_abs True ht = Map.empty"
    using pj_hash_create_inv [of 15 True] by auto
  define L0 where "L0 = \<lparr>tl_htable = ht, tl_obj = Map.empty, tl_key = (\<lambda>_. [])\<rparr>"
  have run: "layer_run False L0" by (rule layer_start [of 15]) (simp add: layer_init_def ht(1) L0_def)
  show thesis by (rule that [OF run]) (use lower_table.get_law [OF ht(2)] ht(3) in \<open>simp_all add: L0_def\<close>)
qed

lemma ex_layer:
  obtains L where "layer_run False L" "tl_obj L = [1 \<mapsto> ex_tsx0]" "tl_key L 1 = ex_key" "find_key L ex_key = Some 1"
proof -
  obtain L where L: "layer_run False L" "tl_obj L = Map.empty" "\<forall>key. find_key L key = None" by (rule ex_layer_empty)
  show thesis by (rule ex_create_layer [OF L(1), of 1]) (use L in \<open>auto intro: that\<close>)
qed

text \<open>A run of one transaction in the layer: the table stays, or loses its key.\<close>

lemma layer_follows:
  assumes "tsx_run t t'" "layer_run late L" "tl_obj L i = Some t"
  obtains late' L' where "layer_run late' L'" "tl_obj L' = (tl_obj L)(i \<mapsto> t')" "tl_key L' = tl_key L"
proof -
  have "\<exists>late' L'. layer_run late' L' \<and> tl_obj L' = (tl_obj L)(i \<mapsto> t') \<and> tl_key L' = tl_key L"
    using assms(1)
  proof (induction rule: tsx_run.induct)
    case run_start
    have "tl_obj L = (tl_obj L)(i \<mapsto> t)" using assms(3) by auto
    then show ?case using assms(2) by metis
  next
    case (run_step u env u')
    then obtain late' L' where L': "layer_run late' L'" "tl_obj L' = (tl_obj L)(i \<mapsto> u)" "tl_key L' = tl_key L" by blast
    have "layer_run (late' \<or> lingers u) (tsx_changed L' i u u')"
      by (rule layer_next [OF L'(1)], rule layer_tsx [OF _ run_step(2,3)]) (simp add: L'(2))
    moreover have "tl_key (tsx_changed L' i u u') = tl_key L" using L'(3) by (simp add: tsx_changed_def Let_def)
    ultimately show ?case using L'(2) by (intro exI [of _ "late' \<or> lingers u"] exI [of _ "tsx_changed L' i u u'"]) simp
  qed
  then show thesis using that by blast
qed

theorem layer_evicts_newer:
  "\<exists>late L t. layer_run late L \<and> tl_obj L 2 = Some t \<and> registered t \<and> tsx_state t = PJSIP_TSX_STATE_NULL
    \<and> find_key L (tl_key L 2) = None \<and> (\<exists>u. tl_obj L 1 = Some u \<and> unreg_calls u = 2)"
proof -
  obtain L1 where L1: "layer_run False L1" "tl_obj L1 = [1 \<mapsto> ex_tsx0]" "tl_key L1 1 = ex_key" by (rule ex_layer)
  obtain late2 L2 where L2: "layer_run late2 L2" "tl_obj L2 = [1 \<mapsto> ex_slow_destroyed]" "tl_key L2 = tl_key L1"
    by (rule layer_follows [OF ex_slow_run(1) L1(1), of 1]) (use L1(2) in auto)
  have inv2: "layer_inv L2" using layer_run_inv [OF L2(1)] by simp
  have gone: "\<not> registered ex_slow_destroyed" by code_simp
  have "find_key L2 ex_key = None"
    using lower_table.points_get [OF layer_invD(1,2) [OF inv2], of ex_key] L2(2) gone by (cases "find_key L2 ex_key") (auto split: if_splits)
  then obtain L3 where L3: "layer_run late2 L3" "tl_obj L3 = (tl_obj L2)(2 \<mapsto> ex_tsx0)" "tl_key L3 = (tl_key L2)(2 := ex_key)"
    using ex_create_layer [OF L2(1), of 2] L2(2) by auto
  have o: "tl_obj L3 1 = Some ex_slow_destroyed" using L3(2) L2(2) by simp
  define L4 where "L4 = tsx_changed L3 1 ex_slow_destroyed ex_slow_reported"
  have "tsx_step ex_slow_destroyed ex_slow ex_slow_reported"
    unfolding ex_slow_reported_def by (rule step_transport) code_simp
  then have run: "layer_run (late2 \<or> lingers ex_slow_destroyed) L4"
    unfolding L4_def by (rule layer_next [OF L3(1) layer_tsx [OF o ex_env_ok(2)]])
  have calls: "unreg_calls ex_slow_reported = 2" "unreg_calls ex_slow_destroyed = 1" by code_simp+
  have inv3: "ht_inv True (tl_htable L3)" using layer_invD(1) layer_run_inv [OF L3(1)] by blast
  have k: "tl_key L3 1 = ex_key" "tl_key L4 2 = ex_key" using L3(3) L2(3) L1(3) by (simp_all add: L4_def tsx_changed_def Let_def)
  have "find_key L4 ex_key = None"
    using lower_table.get_del [OF inv3, of ex_key ex_key] k(1) calls by (simp add: L4_def tsx_changed_def layer_unregister_tsx_def Let_def)
  moreover have "tl_obj L4 2 = Some ex_tsx0" "tl_obj L4 1 = Some ex_slow_reported" using L3(2) by (simp_all add: L4_def)
  moreover have "registered ex_tsx0" "tsx_state ex_tsx0 = PJSIP_TSX_STATE_NULL" using created_reg_inv [OF ex_created] by simp_all
  ultimately show ?thesis using run k(2) calls(1) by metis
qed

section \<open>Witnesses\<close>

definition ex_rdata :: "pjsip_rx_msg \<Rightarrow> pjsip_rdata" where
  "ex_rdata msg = \<lparr>rd_msg = msg, rd_via = Some \<lparr>branch_param = new_branch ''1'', sent_by_host = ''h'', sent_by_port = 5060\<rparr>,
     rd_cseq = Some (1, ex_method), rd_from_tag = Some ''t'', rd_to = True, rd_call_id = Some ''c''\<rparr>"

lemma ex_rdata_ok:
  "basic_headers (ex_rdata msg)" "rd_cseq (ex_rdata msg) = Some (1, ex_method)" "rd_msg (ex_rdata msg) = msg" "chars_ok (ex_rdata msg)"
  "rd_via (ex_rdata msg) = Some \<lparr>branch_param = new_branch ''1'', sent_by_host = ''h'', sent_by_port = 5060\<rparr>"
  by (simp_all add: ex_rdata_def basic_headers_def chars_ok_def new_branch_def PJSIP_RFC3261_BRANCH_ID_def)

lemma ex_rdata_key: "pjsip_tsx_create_key PJSIP_ROLE_UAC ex_method (ex_rdata msg) = Some (PJ_SUCCESS, ex_key)"
  using cookie_of_new_branch [of "''1''"] by (simp add: pjsip_tsx_create_key_def ex_rdata_def ex_key_def create_tsx_key_3261_def)

lemma ex_rx_ok: "rx_msg_ok (Rx_Response 486)" "rx_msg_ok (Rx_Request PJSIP_INVITE_METHOD)"
  by (simp_all add: PJSIP_MIN_STATUS_CODE_def PJSIP_MAX_STATUS_CODE_def)

lemma ex_registered: "registered ex_tsx0" "tsx_state ex_tsx0 = PJSIP_TSX_STATE_NULL"
  using created_reg_inv [OF ex_created] by simp_all

theorem layer_finds_live_witness:
  "\<exists>L L'. layer_run False L \<and> pjsip_tsx_layer_find_tsx2 L ex_key True = Some (Some 1, L')
     \<and> tl_obj L' 1 = Some (ex_tsx0\<lparr>grp_refs := grp_refs ex_tsx0 + 1\<rparr>)"
proof -
  obtain L where L: "layer_run False L" "tl_obj L = [1 \<mapsto> ex_tsx0]" "find_key L ex_key = Some 1" using ex_layer by metis
  show ?thesis
    using layer_finds_live [OF L(1), of ex_key True] L
    by (auto simp: pjsip_tsx_layer_find_tsx2_def find_tsx_def split: option.splits intro!: exI [of _ L])
qed

theorem layer_dispatch_total_witness:
  "\<exists>L L'. layer_run False L \<and> dispatch PJSIP_ROLE_UAC ex_env L (ex_rdata (Rx_Response 486)) = Some (True, L') \<and> layer_inv L'"
proof -
  obtain L where L: "layer_run False L" "tl_obj L = [1 \<mapsto> ex_tsx0]" "find_key L ex_key = Some 1" using ex_layer by metis
  show ?thesis
    using layer_dispatch_total [OF L(1) ex_rdata_ok(1) _ ex_env_ok(1), of "Rx_Response 486" PJSIP_ROLE_UAC]
      L ex_rdata_key ex_registered(2) ex_rx_ok(1)
    by (auto simp: ex_rdata_ok(2,3))
qed

theorem layer_keys_unique_witness:
  "\<exists>L. layer_run False L \<and> find_key L (tl_key L 1) = Some 1 \<and> pjsip_tsx_layer_get_tsx_count L = 1"
proof -
  obtain L where L: "layer_run False L" "tl_obj L = [1 \<mapsto> ex_tsx0]" "tl_key L 1 = ex_key" "find_key L ex_key = Some 1" by (rule ex_layer)
  have "{j. \<exists>u. tl_obj L j = Some u \<and> registered u} = {1}"
    unfolding L(2) using ex_registered(1) by (simp add: set_eq_iff)
  then have c: "card {j. \<exists>u. tl_obj L j = Some u \<and> registered u} = 1" by (metis is_singletonI is_singleton_altdef)
  have "tl_obj L 1 = Some ex_tsx0" by (simp add: L(2))
  note u = layer_keys_unique [OF L(1) this ex_registered(1), unfolded c]
  show ?thesis by (rule exI [of _ L], intro conjI L(1) u [THEN conjunct1] u [THEN conjunct2, THEN conjunct2])
qed

theorem layer_stop_empties_witness:
  "\<exists>L L' t. layer_run False L \<and> find_key L ex_key = Some 1 \<and> mod_tsx_layer_stop ex_env L = Some L'
     \<and> mod_tsx_layer_unload L' = PJ_SUCCESS \<and> tl_obj L' 1 = Some t \<and> terminating t"
proof -
  obtain L where L: "layer_run False L" "tl_obj L = [1 \<mapsto> ex_tsx0]" "tl_key L 1 = ex_key" "find_key L ex_key = Some 1" by (rule ex_layer)
  have "env_layer_up ex_env" by (simp add: ex_env_def)
  from layer_stop_empties [OF L(1) this] obtain L' where "mod_tsx_layer_stop ex_env L = Some L'" "mod_tsx_layer_unload L' = PJ_SUCCESS"
    and "\<exists>t'. tl_obj L' 1 = Some t' \<and> terminating t'" using L(2-4) by (metis fun_upd_same)
  then show ?thesis using L(1,4) by blast
qed

text \<open>The response comes when the INVITE has been sent.\<close>

theorem layer_response_reaches_client_witness:
  "\<exists>L L' L2 L3 u. layer_run False L \<and> ex_create L 1 = (PJ_SUCCESS, L') \<and> layer_later 1 L' L2 \<and> tl_obj L2 1 = Some ex_calling
     \<and> mod_tsx_layer_on_rx_response ex_env L2 (ex_rdata (Rx_Response 486)) = Some (True, L3)
     \<and> tl_obj L3 1 = Some u \<and> tsx_state u = PJSIP_TSX_STATE_COMPLETED"
proof -
  obtain L where L: "layer_run False L" "tl_obj L = Map.empty" "find_key L ex_key = None" using ex_layer_empty by metis
  obtain L' where L': "ex_create L 1 = (PJ_SUCCESS, L')" "tl_obj L' = [1 \<mapsto> ex_tsx0]"
    using ex_create_layer [OF L(1) _ L(3), of 1] L(2) by auto
  define L2 where "L2 = tsx_changed L' 1 ex_tsx0 ex_calling"
  have n: "\<not> lingers ex_tsx0" by code_simp
  have "tsx_step ex_tsx0 ex_env ex_calling" unfolding ex_calling_def by (rule sent_is_step) code_simp
  then have "layer_step (lingers ex_tsx0) L' L2"
    unfolding L2_def by (rule layer_tsx [rotated 2]) (simp_all add: L'(2) ex_env_ok(1))
  then have later: "layer_later 1 L' L2" using n by (intro later_step [OF later_now]) (simp_all add: L2_def)
  have obj: "tl_obj L2 1 = Some ex_calling" by (simp add: L2_def)
  have m: "NUL \<notin> set (meth_name ex_method) \<union> set ''1''" by (simp add: ex_method_def)
  have lt: "tsx_state ex_calling < PJSIP_TSX_STATE_TERMINATED" by (simp add: ex_states tsx_state_order)
  have "tl_obj L 1 = None" by (simp add: L(2))
  from layer_response_reaches_client [OF L(1) this _ m L'(1) later obj lt ex_env_ok(1) ex_rdata_ok(1) _ ex_rdata_ok(5) _ ex_rdata_ok(2), of "Rx_Response 486"]
  obtain u L3 where u: "pjsip_tsx_recv_msg ex_env (ex_calling\<lparr>grp_refs := grp_refs ex_calling + 1\<rparr>) (Rx_Response 486) = Some u"
    and L3: "mod_tsx_layer_on_rx_response ex_env L2 (ex_rdata (Rx_Response 486)) = Some (True, L3)"
      "tl_obj L3 = (tl_obj L2)(1 \<mapsto> u\<lparr>grp_refs := grp_refs u - 1\<rparr>)"
    using ex_rx_ok(1) by (auto simp: ex_rdata_ok(3))
  have "map_option tsx_state (pjsip_tsx_recv_msg ex_env (ex_calling\<lparr>grp_refs := grp_refs ex_calling + 1\<rparr>) (Rx_Response 486))
      = Some PJSIP_TSX_STATE_COMPLETED" by code_simp
  then have "tsx_state u = PJSIP_TSX_STATE_COMPLETED" using u by simp
  then have "tsx_state (u\<lparr>grp_refs := grp_refs u - 1\<rparr>) = PJSIP_TSX_STATE_COMPLETED" by simp
  moreover have "tl_obj L3 1 = Some (u\<lparr>grp_refs := grp_refs u - 1\<rparr>)" using L3(2) by simp
  ultimately show ?thesis using L(1) L'(1) later obj L3(1) by blast
qed

definition ex_rq :: uas_request where
  "ex_rq = \<lparr>rq_is_request = True, rq_method = PJSIP_INVITE_METHOD, rq_has_cseq = True, rq_has_via = True, rq_cseq_matches = True,
     rq_key = PJ_SUCCESS, rq_key_exists = False, rq_res_addr = PJ_SUCCESS, rq_res_transport = None, rq_res_addr_len = 0, rq_dst_reliable = False\<rparr>"

theorem layer_no_duplicate_server_witness:
  "\<exists>L L' L''. layer_run False L
     \<and> layer_create_uas ex_env L 1 (tsx_create ex_user 0 (\<lambda>_. 0) (\<lambda>_. 0) (\<lambda>_. 0)) (ex_rdata (Rx_Request PJSIP_INVITE_METHOD)) ex_method ex_rq
         = Some (PJ_SUCCESS, L')
     \<and> mod_tsx_layer_on_rx_request ex_env L' (ex_rdata (Rx_Request PJSIP_INVITE_METHOD)) = Some (True, L'')
     \<and> layer_create_uas ex_env L' 2 (tsx_create ex_user 0 (\<lambda>_. 0) (\<lambda>_. 0) (\<lambda>_. 0)) (ex_rdata (Rx_Request PJSIP_INVITE_METHOD)) ex_method ex_rq
         = Some (PJ_EEXISTS, L')"
proof -
  let ?rd = "ex_rdata (Rx_Request PJSIP_INVITE_METHOD)" and ?c = "tsx_create ex_user 0 (\<lambda>_. 0) (\<lambda>_. 0) (\<lambda>_. 0)"
  obtain L where L: "layer_run False L" "tl_obj L = Map.empty" "\<forall>key. find_key L key = None" using ex_layer_empty by metis
  obtain L' t where L': "layer_create_uas ex_env L 1 ?c ?rd ex_method ex_rq = Some (PJ_SUCCESS, L')"
    and t: "tl_obj L' 1 = Some t" "tsx_state t < PJSIP_TSX_STATE_TERMINATED"
  proof -
    have "fst (pjsip_tsx_create_uas2 ex_env ?c ex_rq) = PJ_SUCCESS \<and> snd (pjsip_tsx_create_uas2 ex_env ?c ex_rq) \<noteq> None"
      by (simp add: pjsip_tsx_create_uas2_def ex_rq_def mod_tsx_layer_register_tsx_def Let_def)
    then obtain t where t: "pjsip_tsx_create_uas2 ex_env ?c ex_rq = (PJ_SUCCESS, Some t)" by (auto simp: prod_eq_iff)
    obtain key where "pjsip_tsx_create_key PJSIP_ROLE_UAS ex_method ?rd = Some (PJ_SUCCESS, key)"
      using headers_give_key [OF ex_rdata_ok(1), of "Rx_Request PJSIP_INVITE_METHOD" PJSIP_ROLE_UAS] by (auto simp: ex_rdata_ok(2))
    moreover have "pjsip_method_cmp ex_method ex_method = 0" "meth_id ex_method = PJSIP_INVITE_METHOD"
      by (simp_all add: pjsip_method_cmp_def ex_method_def)
    ultimately have "layer_create_uas ex_env L 1 ?c ?rd ex_method ex_rq = Some (enter_created L 1 key (PJ_SUCCESS, Some t))"
      using t L(3) by (simp add: layer_create_uas_def ex_rdata_ok(2,3) ex_rq_def)
    moreover obtain L' where e: "enter_created L 1 key (PJ_SUCCESS, Some t) = (PJ_SUCCESS, L')" by (simp add: enter_created_def)
    moreover have "tsx_state t < PJSIP_TSX_STATE_TERMINATED" using created_reg_inv(3) [OF created_uas [OF t]] by (simp add: tsx_state_order)
    ultimately show thesis using that enter_created_at [OF e] by simp
  qed
  have m: "NUL \<notin> set (meth_name ex_method)" "parsed_method ex_method" by code_simp+
  have "tl_obj L 1 = None" by (simp add: L(2))
  from layer_no_duplicate_server [OF L(1) this _ ex_rdata_ok(4) m(1) L' later_now t ex_env_ok(1) ex_rdata_ok(1) _ ex_rdata_ok(2) m(2) m(2), of 2 ?c]
  show ?thesis using ex_rx_ok(2) L(1) L' by (auto simp: ex_rdata_ok(3))
qed

end
