(* ===== verification/Stun_Tsx.thy ===== *)
theory Stun_Tsx
  imports Pj_Prelude
begin

text \<open>
  The STUN client transaction, \<^verbatim>\<open>pjnath/src/pjnath/stun_transaction.c\<close>: it sends a request, sends it again when the timer goes off,
  and completes with the response or when it has waited long enough. The timer heap takes an entry out (\<open>Ev_Pop\<close>) before it calls its
  callback (\<open>Ev_Fire\<close>), and other threads may get the group lock in between; \<open>pending\<close> counts the callbacks that are still to come.
  What the heap and the sender answer are arguments of a step. What leaves the transaction is in its log.
\<close>

section \<open>Model\<close>

definition PJNATH_ERRNO_START :: int where
  "PJNATH_ERRNO_START = 370000"

definition PJ_STATUS_FROM_STUN_CODE :: "nat \<Rightarrow> pj_status" where
  "PJ_STATUS_FROM_STUN_CODE code = PJ_OTHER (PJNATH_ERRNO_START + int code)"

definition PJNATH_EINSTUNMSGTYPE :: pj_status where
  "PJNATH_EINSTUNMSGTYPE = PJ_OTHER (PJNATH_ERRNO_START + 3)"

definition PJNATH_ESTUNTIMEDOUT :: pj_status where
  "PJNATH_ESTUNTIMEDOUT = PJ_OTHER (PJNATH_ERRNO_START + 4)"

definition PJNATH_ESTUNDESTROYED :: pj_status where
  "PJNATH_ESTUNDESTROYED = PJ_OTHER (PJNATH_ERRNO_START + 60)"

definition PJ_STUN_MAX_TRANSMIT_COUNT :: nat where
  "PJ_STUN_MAX_TRANSMIT_COUNT = 7"

definition PJ_STUN_TIMEOUT_VALUE :: int where
  "PJ_STUN_TIMEOUT_VALUE = 16 * 100"

definition PJ_STUN_IS_SUCCESS_RESPONSE :: "u16 \<Rightarrow> bool" where
  "PJ_STUN_IS_SUCCESS_RESPONSE msg_type \<longleftrightarrow> msg_type AND 0x0110 = 0x0100"

definition PJ_STUN_IS_ERROR_RESPONSE :: "u16 \<Rightarrow> bool" where
  "PJ_STUN_IS_ERROR_RESPONSE msg_type \<longleftrightarrow> msg_type AND 0x0110 = 0x0110"

datatype 'p stun_out = Out_Schedule pj_time_val | Out_Send "'p option" | Out_Complete pj_status | Out_Destroy

text \<open>A timer: the id of the entry, the delay it is in the heap with, the callbacks to come.\<close>

record stun_timer =
  timer_active :: bool
  armed :: "pj_time_val option"
  pending :: nat

record 'p stun_tsx =
  on_complete :: bool
  on_destroy :: bool
  tsx_complete :: bool
  require_retransmit :: bool
  rto_msec :: nat
  retransmit_timer :: stun_timer
  transmit_count :: nat
  retransmit_time :: pj_time_val
  destroy_timer :: stun_timer
  last_pkt :: "'p option"
  stun_log :: "'p stun_out list"

text \<open>
  The client must give a function that sends; whether it also gives one to call on completion and one to destroy the
  transaction are the first two arguments.
\<close>

definition pj_stun_client_tsx_create :: "bool \<Rightarrow> bool \<Rightarrow> nat \<Rightarrow> 'p stun_tsx" where
  "pj_stun_client_tsx_create has_complete has_destroy rto =
     \<lparr>on_complete = has_complete, on_destroy = has_destroy, tsx_complete = False, require_retransmit = False, rto_msec = rto,
      retransmit_timer = \<lparr>timer_active = False, armed = None, pending = 0\<rparr>, transmit_count = 0, retransmit_time = Time_Val 0 0,
      destroy_timer = \<lparr>timer_active = False, armed = None, pending = 0\<rparr>, last_pkt = None, stun_log = []\<rparr>"

definition emit :: "'p stun_out \<Rightarrow> 'p stun_tsx \<Rightarrow> 'p stun_tsx" where
  "emit x t = t\<lparr>stun_log := stun_log t @ [x]\<rparr>"

text \<open>The calls of the timer heap: scheduling an entry that is in the heap is refused; only an entry that is in the heap can be cancelled.\<close>

definition schedule_timer :: "pj_status \<Rightarrow> stun_timer \<Rightarrow> pj_time_val \<Rightarrow> pj_status \<times> stun_timer" where
  "schedule_timer ss e delay =
     (if armed e \<noteq> None then (PJ_EINVALIDOP, e)
      else if ss = PJ_SUCCESS then (PJ_SUCCESS, e\<lparr>armed := Some delay, timer_active := True\<rparr>) else (ss, e))"

definition cancel_if_active :: "stun_timer \<Rightarrow> stun_timer" where
  "cancel_if_active e = (if armed e \<noteq> None then e\<lparr>armed := None, timer_active := False\<rparr> else e)"

definition schedule_retransmit :: "pj_status \<Rightarrow> 'p stun_tsx \<Rightarrow> pj_status \<times> 'p stun_tsx" where
  "schedule_retransmit ss t =
     (let (status, e) = schedule_timer ss (retransmit_timer t) (retransmit_time t)
      in if status \<noteq> PJ_SUCCESS then (status, t\<lparr>retransmit_timer := e\<lparr>timer_active := False\<rparr>\<rparr>)
         else (status, emit (Out_Schedule (retransmit_time t)) (t\<lparr>retransmit_timer := e\<rparr>)))"

definition cancel_retransmit :: "'p stun_tsx \<Rightarrow> 'p stun_tsx" where
  "cancel_retransmit t = t\<lparr>retransmit_timer := cancel_if_active (retransmit_timer t)\<rparr>"

text \<open>The delay until the next transmission, or until the transaction gives up.\<close>

definition next_time :: "'p stun_tsx \<Rightarrow> pj_time_val" where
  "next_time t =
     (if transmit_count t = 0 then Time_Val 0 (int (rto_msec t))
      else if transmit_count t < PJ_STUN_MAX_TRANSMIT_COUNT - 1 then
        (let msec = u32_mul (to_u32 (PJ_TIME_VAL_MSEC (retransmit_time t))) 2
         in Time_Val (int (msec div 1000)) (int (msec mod 1000)))
      else Time_Val (PJ_STUN_TIMEOUT_VALUE div 1000) (PJ_STUN_TIMEOUT_VALUE mod 1000))"

text \<open>The message goes out; \<open>sr\<close> is what \<^verbatim>\<open>on_send_msg\<close> returns.\<close>

definition send_packet :: "pj_status \<Rightarrow> bool \<Rightarrow> 'p stun_tsx \<Rightarrow> pj_status \<times> 'p stun_tsx" where
  "send_packet sr mod_count t =
     (let t = (if mod_count then t\<lparr>transmit_count := transmit_count t + 1\<rparr> else t);
          t = emit (Out_Send (last_pkt t)) t;
          status = (if sr = PJ_EPENDING \<or> sr = PJ_EBUSY then PJ_SUCCESS else sr);
          t = (if status = PJNATH_ESTUNDESTROYED then t
               else if status \<noteq> PJ_SUCCESS \<and> (mod_count \<or> status = PJ_EINVALIDOP) then cancel_retransmit t else t)
      in (status, t))"

definition tsx_transmit_msg :: "pj_status \<Rightarrow> pj_status \<Rightarrow> 'p stun_tsx \<Rightarrow> bool \<Rightarrow> pj_status \<times> 'p stun_tsx" where
  "tsx_transmit_msg ss sr t mod_count =
     (if \<not> (\<not> timer_active (retransmit_timer t) \<or> \<not> require_retransmit t \<or> \<not> mod_count) then (PJ_EBUSY, t)
      else if require_retransmit t \<and> mod_count then
        (let (status, t) = schedule_retransmit ss (t\<lparr>retransmit_time := next_time t\<rparr>)
         in if status \<noteq> PJ_SUCCESS then (status, t) else send_packet sr mod_count t)
      else send_packet sr mod_count t)"

definition pj_stun_client_tsx_send_msg :: "pj_status \<Rightarrow> pj_status \<Rightarrow> 'p stun_tsx \<Rightarrow> bool \<Rightarrow> 'p \<Rightarrow> pj_status \<times> 'p stun_tsx" where
  "pj_stun_client_tsx_send_msg ss sr t retransmit pkt =
     (if timer_active (retransmit_timer t) then (PJ_EBUSY, t)
      else
        (let t = t\<lparr>last_pkt := Some pkt, require_retransmit := retransmit\<rparr>;
             (status, t) =
               (if \<not> retransmit then
                  (let timeout = u32_mul (rto_msec t) 16
                   in schedule_retransmit ss (t\<lparr>transmit_count := PJ_STUN_MAX_TRANSMIT_COUNT,
                        retransmit_time := Time_Val (int (timeout div 1000)) (int (timeout mod 1000))\<rparr>))
                else (PJ_SUCCESS, t))
         in if status \<noteq> PJ_SUCCESS then (status, t)
            else
              (let (status, t) = tsx_transmit_msg ss sr t True
               in if status \<noteq> PJ_SUCCESS then (status, cancel_retransmit t) else (PJ_SUCCESS, t))))"

definition complete_with :: "pj_status \<Rightarrow> 'p stun_tsx \<Rightarrow> 'p stun_tsx" where
  "complete_with status t =
     (if \<not> tsx_complete t then
        (let t = t\<lparr>tsx_complete := True\<rparr> in if on_complete t then emit (Out_Complete status) t else t)
      else t)"

definition inactive :: "'p stun_tsx \<Rightarrow> 'p stun_tsx" where
  "inactive t = t\<lparr>retransmit_timer := (retransmit_timer t)\<lparr>timer_active := False\<rparr>\<rparr>"

definition retransmit_timer_callback :: "pj_status \<Rightarrow> pj_status \<Rightarrow> 'p stun_tsx \<Rightarrow> 'p stun_tsx" where
  "retransmit_timer_callback ss sr t =
     (if transmit_count t \<ge> PJ_STUN_MAX_TRANSMIT_COUNT then complete_with PJNATH_ESTUNTIMEDOUT (inactive t)
      else
        (let (status, t) = tsx_transmit_msg ss sr (inactive t) True
         in if status \<noteq> PJ_SUCCESS then complete_with status (inactive t) else t))"

definition pj_stun_client_tsx_retransmit :: "pj_status \<Rightarrow> pj_status \<Rightarrow> 'p stun_tsx \<Rightarrow> bool \<Rightarrow> pj_status \<times> 'p stun_tsx" where
  "pj_stun_client_tsx_retransmit ss sr t mod_count =
     (if timer_active (destroy_timer t) then (PJ_SUCCESS, t)
      else tsx_transmit_msg ss sr (if mod_count then cancel_retransmit t else t) mod_count)"

definition pj_stun_client_tsx_schedule_destroy :: "pj_status \<Rightarrow> 'p stun_tsx \<Rightarrow> pj_time_val \<Rightarrow> pj_status \<times> 'p stun_tsx" where
  "pj_stun_client_tsx_schedule_destroy ss t delay =
     (if \<not> on_destroy t then (PJ_EINVAL, t)
      else
        (let t = cancel_retransmit (t\<lparr>destroy_timer := cancel_if_active (destroy_timer t)\<rparr>);
             (status, e) = schedule_timer ss (destroy_timer t) delay
         in if status \<noteq> PJ_SUCCESS then (status, t)
            else (PJ_SUCCESS, emit (Out_Schedule delay) (t\<lparr>destroy_timer := e, on_complete := False\<rparr>))))"

definition pj_stun_client_tsx_stop :: "'p stun_tsx \<Rightarrow> 'p stun_tsx" where
  "pj_stun_client_tsx_stop t = (let t = cancel_retransmit t in t\<lparr>destroy_timer := cancel_if_active (destroy_timer t)\<rparr>)"

definition destroy_timer_callback :: "'p stun_tsx \<Rightarrow> 'p stun_tsx" where
  "destroy_timer_callback t = emit Out_Destroy (t\<lparr>destroy_timer := (destroy_timer t)\<lparr>timer_active := False\<rparr>\<rparr>)"

definition pj_stun_client_tsx_is_complete :: "'p stun_tsx \<Rightarrow> bool" where
  "pj_stun_client_tsx_is_complete t = tsx_complete t"

text \<open>\<open>err_code\<close>: the code of the ERROR-CODE attribute of the message, when there is one.\<close>

definition pj_stun_client_tsx_on_rx_msg :: "'p stun_tsx \<Rightarrow> u16 \<Rightarrow> nat option \<Rightarrow> pj_status \<times> 'p stun_tsx" where
  "pj_stun_client_tsx_on_rx_msg t msg_type err_code =
     (if \<not> PJ_STUN_IS_SUCCESS_RESPONSE msg_type \<and> \<not> PJ_STUN_IS_ERROR_RESPONSE msg_type then (PJNATH_EINSTUNMSGTYPE, t)
      else
        (let t = cancel_retransmit t
         in case err_code of
              None \<Rightarrow> (PJ_SUCCESS, complete_with PJ_SUCCESS t)
            | Some code \<Rightarrow>
                if code \<le> 200 then (PJ_SUCCESS, t)
                else (PJ_SUCCESS, complete_with (PJ_STATUS_FROM_STUN_CODE code) t)))"

section \<open>Steps and runs\<close>

datatype 'p stun_event =
    Ev_Send bool 'p | Ev_Retransmit bool | Ev_Rx u16 "nat option" | Ev_Pop | Ev_Fire
  | Ev_Schedule_Destroy pj_time_val | Ev_Stop | Ev_Pop_Destroy | Ev_Fire_Destroy

definition pop_timer :: "stun_timer \<Rightarrow> stun_timer" where
  "pop_timer e = (if armed e \<noteq> None then e\<lparr>armed := None, pending := pending e + 1\<rparr> else e)"

fun stun_step :: "pj_status \<Rightarrow> pj_status \<Rightarrow> 'p stun_event \<Rightarrow> 'p stun_tsx \<Rightarrow> 'p stun_tsx" where
  "stun_step ss sr (Ev_Send r p) t = snd (pj_stun_client_tsx_send_msg ss sr t r p)"
| "stun_step ss sr (Ev_Retransmit m) t = snd (pj_stun_client_tsx_retransmit ss sr t m)"
| "stun_step ss sr (Ev_Rx ty c) t = snd (pj_stun_client_tsx_on_rx_msg t ty c)"
| "stun_step ss sr Ev_Pop t = t\<lparr>retransmit_timer := pop_timer (retransmit_timer t)\<rparr>"
| "stun_step ss sr Ev_Fire t =
     (if pending (retransmit_timer t) = 0 then t
      else retransmit_timer_callback ss sr (t\<lparr>retransmit_timer := (retransmit_timer t)\<lparr>pending := pending (retransmit_timer t) - 1\<rparr>\<rparr>))"
| "stun_step ss sr (Ev_Schedule_Destroy d) t = snd (pj_stun_client_tsx_schedule_destroy ss t d)"
| "stun_step ss sr Ev_Stop t = pj_stun_client_tsx_stop t"
| "stun_step ss sr Ev_Pop_Destroy t = t\<lparr>destroy_timer := pop_timer (destroy_timer t)\<rparr>"
| "stun_step ss sr Ev_Fire_Destroy t =
     (if pending (destroy_timer t) = 0 then t
      else destroy_timer_callback (t\<lparr>destroy_timer := (destroy_timer t)\<lparr>pending := pending (destroy_timer t) - 1\<rparr>\<rparr>))"

fun stun_run :: "(pj_status \<times> pj_status \<times> 'p stun_event) list \<Rightarrow> 'p stun_tsx \<Rightarrow> 'p stun_tsx" where
  "stun_run [] t = t"
| "stun_run ((ss, sr, e) # es) t = stun_run es (stun_step ss sr e t)"

section \<open>One completion\<close>

fun is_completion :: "'p stun_out \<Rightarrow> bool" where
  "is_completion (Out_Complete st) = True"
| "is_completion _ = False"

fun is_sending :: "'p stun_out \<Rightarrow> bool" where
  "is_sending (Out_Send p) = True"
| "is_sending _ = False"

definition completions :: "'p stun_tsx \<Rightarrow> nat" where
  "completions t = length (filter is_completion (stun_log t))"

definition sendings :: "'p stun_tsx \<Rightarrow> nat" where
  "sendings t = length (filter is_sending (stun_log t))"

named_theorems stun_simps \<open>what the operations keep\<close>

lemma emit_simps [stun_simps]:
  "completions (emit x t) = completions t + (if is_completion x then 1 else 0)"
  "sendings (emit x t) = sendings t + (if is_sending x then 1 else 0)"
  "on_complete (emit x t) = on_complete t" "tsx_complete (emit x t) = tsx_complete t" "require_retransmit (emit x t) = require_retransmit t"
  "rto_msec (emit x t) = rto_msec t" "retransmit_timer (emit x t) = retransmit_timer t" "transmit_count (emit x t) = transmit_count t"
  "retransmit_time (emit x t) = retransmit_time t" "destroy_timer (emit x t) = destroy_timer t" "last_pkt (emit x t) = last_pkt t"
  "stun_log (emit x t) = stun_log t @ [x]"
  by (simp_all add: emit_def completions_def sendings_def)

lemma log_frame:
  "stun_log t' = stun_log t \<Longrightarrow> completions t' = completions t" "stun_log t' = stun_log t \<Longrightarrow> sendings t' = sendings t"
  by (simp_all add: completions_def sendings_def)

definition same_completion :: "'p stun_tsx \<Rightarrow> 'p stun_tsx \<Rightarrow> bool" where
  "same_completion t t' \<longleftrightarrow> completions t' = completions t \<and> tsx_complete t' = tsx_complete t \<and> (on_complete t' \<longrightarrow> on_complete t)"

lemma same_trans: "same_completion t u \<Longrightarrow> same_completion u v \<Longrightarrow> same_completion t v"
  by (simp add: same_completion_def)

lemma same_log:
  "stun_log t' = stun_log t \<Longrightarrow> tsx_complete t' = tsx_complete t \<Longrightarrow> on_complete t' = on_complete t \<Longrightarrow> same_completion t t'"
  by (simp add: same_completion_def completions_def)

lemma same_emit: "same_completion t u \<Longrightarrow> \<not> is_completion x \<Longrightarrow> same_completion t (emit x u)"
  by (simp add: same_completion_def stun_simps)

lemma cancel_same: "same_completion t (cancel_retransmit t)"
  by (rule same_log) (simp_all add: cancel_retransmit_def)

lemma schedule_same: "same_completion t (snd (schedule_retransmit ss t))"
  by (auto simp: schedule_retransmit_def case_prod_beta intro!: same_emit same_log)

lemma send_same: "same_completion t (snd (send_packet sr m t))"
proof -
  let ?u = "emit (Out_Send (last_pkt (if m then t\<lparr>transmit_count := transmit_count t + 1\<rparr> else t))) (if m then t\<lparr>transmit_count := transmit_count t + 1\<rparr> else t)"
  have u: "same_completion t ?u" by (intro same_emit same_log) simp_all
  have "snd (send_packet sr m t) \<in> {?u, cancel_retransmit ?u}" by (simp add: send_packet_def Let_def)
  then show ?thesis using u same_trans [OF u cancel_same] by (elim insertE emptyE) simp_all
qed

lemma transmit_same: "same_completion t (snd (tsx_transmit_msg ss sr t m))"
proof -
  have s: "same_completion t (snd (schedule_retransmit ss (t\<lparr>retransmit_time := x\<rparr>)))" for x
    using same_trans [OF _ schedule_same, of t "t\<lparr>retransmit_time := x\<rparr>" ss] by (simp add: same_log)
  show ?thesis
  proof (cases "timer_active (retransmit_timer t) \<and> require_retransmit t \<and> m")
    case True
    then show ?thesis by (simp add: tsx_transmit_msg_def same_log)
  next
    case free: False
    show ?thesis
    proof (cases "require_retransmit t \<and> m")
      case True
      obtain st u where x: "schedule_retransmit ss (t\<lparr>retransmit_time := next_time t\<rparr>) = (st, u)" by fastforce
      then have "same_completion t u" using s [of "next_time t"] by simp
      then show ?thesis using free True x same_trans [OF _ send_same, of t u] by (simp add: tsx_transmit_msg_def)
    next
      case False
      then have "tsx_transmit_msg ss sr t m = send_packet sr m t" using free by (auto simp: tsx_transmit_msg_def)
      then show ?thesis using send_same by simp
    qed
  qed
qed

lemma send_msg_same: "same_completion t (snd (pj_stun_client_tsx_send_msg ss sr t r p))"
proof (cases "timer_active (retransmit_timer t)")
  case True
  then show ?thesis by (simp add: pj_stun_client_tsx_send_msg_def same_log)
next
  case False
  define t1 where "t1 = t\<lparr>last_pkt := Some p, require_retransmit := r\<rparr>"
  define x where "x = (if \<not> r then
      (let timeout = u32_mul (rto_msec t1) 16
       in schedule_retransmit ss (t1\<lparr>transmit_count := PJ_STUN_MAX_TRANSMIT_COUNT,
            retransmit_time := Time_Val (int (timeout div 1000)) (int (timeout mod 1000))\<rparr>))
    else (PJ_SUCCESS, t1))"
  have e: "pj_stun_client_tsx_send_msg ss sr t r p = (if fst x \<noteq> PJ_SUCCESS then x
      else (let (status, t) = tsx_transmit_msg ss sr (snd x) True in if status \<noteq> PJ_SUCCESS then (status, cancel_retransmit t) else (PJ_SUCCESS, t)))"
    using False unfolding pj_stun_client_tsx_send_msg_def by (simp add: t1_def [symmetric] x_def [symmetric] case_prod_beta Let_def)
  have t1: "same_completion t t1" by (rule same_log) (simp_all add: t1_def)
  have x: "same_completion t (snd x)"
    using t1 same_trans [OF _ schedule_same, of t] by (auto simp: x_def Let_def t1_def intro!: same_trans [OF same_log schedule_same])
  show ?thesis
    using same_trans [OF x transmit_same] same_trans [OF same_trans [OF x transmit_same] cancel_same] x by (simp add: e case_prod_beta)
qed

definition once :: "'p stun_tsx \<Rightarrow> bool" where
  "once t \<longleftrightarrow> completions t \<le> (if tsx_complete t then 1 else 0)"

lemma same_once: "same_completion t t' \<Longrightarrow> once t \<Longrightarrow> once t'"
  by (simp add: same_completion_def once_def)

lemma complete_once: "once t \<Longrightarrow> once (complete_with st t)"
  by (cases "tsx_complete t") (simp_all add: once_def complete_with_def Let_def completions_def emit_def)

lemma callback_once:
  assumes "once t"
  shows "once (retransmit_timer_callback ss sr t)"
proof -
  have i: "once u \<Longrightarrow> once (inactive u)" for u :: "'a stun_tsx"
    using same_once [OF same_log, of "inactive u" u] by (simp add: inactive_def)
  have "once (snd (tsx_transmit_msg ss sr (inactive t) True))" by (rule same_once [OF transmit_same i [OF assms]])
  then show ?thesis using assms by (auto simp: retransmit_timer_callback_def case_prod_beta Let_def intro!: complete_once i)
qed

lemma stop_same: "same_completion t (t\<lparr>destroy_timer := e\<rparr>)" "same_completion t (t\<lparr>retransmit_timer := e\<rparr>)"
  by (auto intro: same_log)

lemma step_once:
  assumes "once t"
  shows "once (stun_step ss sr e t)"
proof (cases e)
  case (Ev_Send r p)
  then show ?thesis using same_once [OF send_msg_same assms] by simp
next
  case (Ev_Retransmit m)
  have "same_completion t (if m then cancel_retransmit t else t)" by (simp add: cancel_same same_log)
  then show ?thesis using Ev_Retransmit assms same_once [OF same_trans [OF _ transmit_same] assms] by (simp add: pj_stun_client_tsx_retransmit_def)
next
  case (Ev_Rx ty c)
  then show ?thesis using assms same_once [OF cancel_same assms] complete_once
    by (auto simp: pj_stun_client_tsx_on_rx_msg_def Let_def split: option.splits)
next
  case Ev_Fire
  then show ?thesis using assms same_once [OF stop_same(2) assms] by (auto intro!: callback_once)
next
  case (Ev_Schedule_Destroy d)
  let ?t1 = "cancel_retransmit (t\<lparr>destroy_timer := cancel_if_active (destroy_timer t)\<rparr>)"
  have 1: "once ?t1" by (rule same_once [OF same_trans [OF stop_same(1) cancel_same] assms])
  then have "once (emit (Out_Schedule d) (?t1\<lparr>destroy_timer := x, on_complete := False\<rparr>))" for x
    by (simp add: once_def emit_def completions_def)
  then show ?thesis using 1 assms Ev_Schedule_Destroy by (simp add: pj_stun_client_tsx_schedule_destroy_def case_prod_beta Let_def)
next
  case Ev_Stop
  then show ?thesis using same_once [OF same_trans [OF cancel_same stop_same(1)] assms] by (simp add: pj_stun_client_tsx_stop_def Let_def)
next
  case Ev_Fire_Destroy
  have "same_completion t (emit Out_Destroy (t\<lparr>destroy_timer := x\<rparr>))" for x by (intro same_emit stop_same) simp
  then show ?thesis using assms same_once [OF _ assms] Ev_Fire_Destroy by (simp add: destroy_timer_callback_def)
qed (use same_once [OF stop_same(1) assms] same_once [OF stop_same(2) assms] in simp_all)

section \<open>Waiting\<close>

definition msec_val :: "nat \<Rightarrow> pj_time_val" where
  "msec_val n = Time_Val (int (n div 1000)) (int (n mod 1000))"

lemma msec_val_MSEC: "PJ_TIME_VAL_MSEC (msec_val n) = int n"
proof -
  have "int (n div 1000) * 1000 + int (n mod 1000) = int (n div 1000 * 1000 + n mod 1000)" by (simp only: of_nat_add of_nat_mult of_nat_numeral)
  also have "\<dots> = int n" by (simp only: div_mult_mod_eq)
  finally show ?thesis by (simp only: PJ_TIME_VAL_MSEC_def msec_val_def pj_time_val.sel)
qed

lemma next_time_doubles:
  assumes "0 < transmit_count t" "transmit_count t < 6" "PJ_TIME_VAL_MSEC (retransmit_time t) = int n" "2 * n < 2 ^ 32"
  shows "next_time t = msec_val (2 * n)"
proof -
  have "u32_mul (to_u32 (PJ_TIME_VAL_MSEC (retransmit_time t))) 2 = 2 * n"
    using assms(3,4) by (simp add: to_u32_id u32_mul_small mult.commute)
  then show ?thesis using assms(1,2) by (simp add: next_time_def PJ_STUN_MAX_TRANSMIT_COUNT_def msec_val_def Let_def)
qed

text \<open>The state of a transaction that waits with \<open>k\<close> transmissions behind it.\<close>

definition waiting :: "nat \<Rightarrow> pj_time_val \<Rightarrow> 'p \<Rightarrow> 'p stun_out list \<Rightarrow> 'p stun_tsx \<Rightarrow> bool" where
  "waiting k d p log t \<longleftrightarrow> on_complete t \<and> \<not> tsx_complete t \<and> require_retransmit t \<and> armed (retransmit_timer t) = Some d
     \<and> pending (retransmit_timer t) = 0 \<and> timer_active (retransmit_timer t) \<and> transmit_count t = k \<and> retransmit_time t = d
     \<and> last_pkt t = Some p \<and> stun_log t = log"

definition sent_ok :: "pj_status \<Rightarrow> bool" where
  "sent_ok sr \<longleftrightarrow> sr \<in> {PJ_SUCCESS, PJ_EPENDING, PJ_EBUSY}"

lemma sent_ok_not_destroyed: "sent_ok sr \<Longrightarrow> (if sr = PJ_EPENDING \<or> sr = PJ_EBUSY then PJ_SUCCESS else sr) = PJ_SUCCESS"
  by (auto simp: sent_ok_def)

lemma waiting_start:
  assumes "sent_ok sr"
  shows "waiting 1 (Time_Val 0 (int r)) p [Out_Schedule (Time_Val 0 (int r)), Out_Send (Some p)] (stun_step PJ_SUCCESS sr (Ev_Send True p) (pj_stun_client_tsx_create True od r))"
  using sent_ok_not_destroyed [OF assms]
  by (simp add: waiting_def pj_stun_client_tsx_create_def pj_stun_client_tsx_send_msg_def tsx_transmit_msg_def schedule_retransmit_def
      schedule_timer_def send_packet_def next_time_def PJNATH_ESTUNDESTROYED_def emit_def Let_def)

lemma waiting_fire:
  assumes "waiting k d p log t" "sent_ok sr" "k < 7" "next_time t = d'"
  shows "waiting (k + 1) d' p (log @ [Out_Schedule d', Out_Send (Some p)]) (stun_step PJ_SUCCESS sr Ev_Fire (stun_step PJ_SUCCESS sr Ev_Pop t))"
proof -
  have n: "next_time (t\<lparr>retransmit_timer := x\<rparr>) = next_time t" for x by (simp add: next_time_def)
  show ?thesis
    using assms(1,3) n assms(4) sent_ok_not_destroyed [OF assms(2)]
    by (simp add: waiting_def retransmit_timer_callback_def pop_timer_def PJ_STUN_MAX_TRANSMIT_COUNT_def inactive_def tsx_transmit_msg_def
        schedule_retransmit_def schedule_timer_def send_packet_def PJNATH_ESTUNDESTROYED_def emit_def Let_def)
qed

lemma waiting_gives_up:
  assumes "waiting 7 d p log t"
  shows "stun_log (stun_step PJ_SUCCESS sr Ev_Fire (stun_step PJ_SUCCESS sr Ev_Pop t)) = log @ [Out_Complete PJNATH_ESTUNTIMEDOUT]"
    and "tsx_complete (stun_step PJ_SUCCESS sr Ev_Fire (stun_step PJ_SUCCESS sr Ev_Pop t))"
  using assms
  by (simp_all add: waiting_def retransmit_timer_callback_def pop_timer_def PJ_STUN_MAX_TRANSMIT_COUNT_def inactive_def complete_with_def emit_def Let_def)

text \<open>A request that is not to be sent again has one timer, from its only transmission on.\<close>

lemma sent_once:
  fixes p :: 'p and od
  assumes "0 < rto" "rto < 2 ^ 26" "sent_ok sr"
  defines "t \<equiv> stun_run [(PJ_SUCCESS, sr, Ev_Send False p), (PJ_SUCCESS, sr, Ev_Pop), (PJ_SUCCESS, sr, Ev_Fire)] (pj_stun_client_tsx_create True od rto)"
  shows "tsx_complete t \<and> stun_log t = [Out_Schedule (msec_val (16 * rto)), Out_Send (Some p), Out_Complete PJNATH_ESTUNTIMEDOUT]"
proof -
  have "u32_mul rto 16 = 16 * rto" using assms(2) by (simp add: u32_mul_small mult.commute)
  then show ?thesis using sent_ok_not_destroyed [OF assms(3)]
    by (simp add: t_def pj_stun_client_tsx_create_def pj_stun_client_tsx_send_msg_def tsx_transmit_msg_def schedule_retransmit_def
        schedule_timer_def send_packet_def PJNATH_ESTUNDESTROYED_def emit_def pop_timer_def retransmit_timer_callback_def inactive_def
        complete_with_def PJ_STUN_MAX_TRANSMIT_COUNT_def msec_val_def Let_def)
qed

section \<open>Silence\<close>

text \<open>No timer of the transaction runs and no callback is on its way.\<close>

definition idle :: "'p stun_tsx \<Rightarrow> bool" where
  "idle t \<longleftrightarrow> armed (retransmit_timer t) = None \<and> pending (retransmit_timer t) = 0"

fun client_call :: "'p stun_event \<Rightarrow> bool" where
  "client_call (Ev_Send r p) = True"
| "client_call (Ev_Retransmit m) = True"
| "client_call _ = False"

fun is_rx :: "'p stun_event \<Rightarrow> bool" where
  "is_rx (Ev_Rx ty c) = True"
| "is_rx _ = False"

definition silent :: "'p stun_tsx \<Rightarrow> 'p stun_tsx \<Rightarrow> bool" where
  "silent t t' \<longleftrightarrow> completions t' = completions t \<and> sendings t' = sendings t \<and> tsx_complete t' = tsx_complete t"

lemma idle_cancel: "idle t \<Longrightarrow> cancel_retransmit t = t"
  by (simp add: idle_def cancel_retransmit_def cancel_if_active_def)

lemma idle_step:
  assumes "idle t" "\<not> client_call e" "is_rx e \<longrightarrow> tsx_complete t"
  shows "idle (stun_step ss sr e t) \<and> silent t (stun_step ss sr e t)"
proof (cases e)
  case (Ev_Rx ty c)
  then show ?thesis using assms idle_cancel [OF assms(1)]
    by (auto simp: pj_stun_client_tsx_on_rx_msg_def complete_with_def silent_def Let_def split: option.splits)
next
  case (Ev_Schedule_Destroy d)
  let ?t1 = "t\<lparr>destroy_timer := cancel_if_active (destroy_timer t)\<rparr>"
  have "idle ?t1" using assms(1) by (simp add: idle_def)
  then show ?thesis using Ev_Schedule_Destroy idle_cancel [of ?t1] assms(1)
    by (auto simp: pj_stun_client_tsx_schedule_destroy_def idle_def silent_def emit_def completions_def sendings_def case_prod_beta Let_def)
next
  case Ev_Stop
  then show ?thesis using assms(1) idle_cancel [OF assms(1)]
    by (simp add: pj_stun_client_tsx_stop_def idle_def silent_def completions_def sendings_def)
qed (use assms in \<open>auto simp: idle_def silent_def completions_def sendings_def pop_timer_def destroy_timer_callback_def emit_def\<close>)

lemma idle_run:
  assumes "idle t" "\<forall>(ss, sr, e) \<in> set es. \<not> client_call e \<and> (is_rx e \<longrightarrow> tsx_complete t)"
  shows "silent t (stun_run es t)"
  using assms
proof (induction es arbitrary: t)
  case (Cons x es)
  obtain ss sr e where x: "x = (ss, sr, e)" by (cases x)
  have s: "idle (stun_step ss sr e t) \<and> silent t (stun_step ss sr e t)" using idle_step [OF Cons.prems(1)] Cons.prems(2) x by auto
  moreover have "tsx_complete (stun_step ss sr e t) = tsx_complete t" using s by (simp add: silent_def)
  ultimately show ?case using Cons.IH [of "stun_step ss sr e t"] Cons.prems(2) x by (auto simp: silent_def)
qed (simp add: silent_def)

section \<open>Properties\<close>

text \<open>
C16. Whatever the client, the network and the timers do, in any order and with any failures, a
STUN client transaction, with or without the callbacks of its user, reports its completion at most
once, and is marked complete when it has.
\<close>

theorem stun_completes_once:
  "completions (stun_run es (pj_stun_client_tsx_create oc od rto)) \<le> 1
    \<and> (completions (stun_run es (pj_stun_client_tsx_create oc od rto)) = 1 \<longrightarrow> tsx_complete (stun_run es (pj_stun_client_tsx_create oc od rto)))"
proof -
  have "once t \<Longrightarrow> once (stun_run es t)" for t :: "'a stun_tsx"
    by (induction es t rule: stun_run.induct) (simp_all add: step_once)
  moreover have "once (pj_stun_client_tsx_create oc od rto)" by (simp add: once_def completions_def pj_stun_client_tsx_create_def)
  ultimately have "once (stun_run es (pj_stun_client_tsx_create oc od rto))" .
  then show ?thesis by (simp add: once_def split: if_splits)
qed

theorem stun_completes_once_witness:
  "tsx_complete (stun_run [(PJ_SUCCESS, PJ_SUCCESS, Ev_Send True (0 :: nat)), (PJ_SUCCESS, PJ_SUCCESS, Ev_Rx 0x0101 None)] (pj_stun_client_tsx_create True True 100))"
proof -
  let ?t = "stun_run [(PJ_SUCCESS, PJ_SUCCESS, Ev_Send True (0 :: nat)), (PJ_SUCCESS, PJ_SUCCESS, Ev_Rx 0x0101 None)] (pj_stun_client_tsx_create True True 100)"
  have "PJ_STUN_IS_SUCCESS_RESPONSE 0x0101" by (simp add: PJ_STUN_IS_SUCCESS_RESPONSE_def)
  then have "completions ?t = 1"
    by (simp add: pj_stun_client_tsx_create_def pj_stun_client_tsx_send_msg_def tsx_transmit_msg_def schedule_retransmit_def
      schedule_timer_def send_packet_def next_time_def PJNATH_ESTUNDESTROYED_def emit_def pj_stun_client_tsx_on_rx_msg_def
      cancel_retransmit_def cancel_if_active_def complete_with_def completions_def Let_def)
  then show ?thesis using stun_completes_once [THEN conjunct2] by blast
qed

text \<open>
C19. A request whose sends are accepted, whose timers can be scheduled and fire each time, with a
round trip estimate of 1 ms to 2^26 ms, and that is never answered, times out: with retransmission
on it is sent seven times, with delays that double from the estimate on and a last wait of 1600
ms, and with retransmission off once, with a wait of 16 times the estimate; then the time-out is
reported and the transaction complete.
\<close>

theorem stun_times_out:
  assumes "0 < rto" "rto < 2 ^ 26" "sent_ok sr"
  shows "let pop = (PJ_SUCCESS, sr, Ev_Pop); fire = (PJ_SUCCESS, sr, Ev_Fire);
      run = (\<lambda>retransmit n. stun_run ((PJ_SUCCESS, sr, Ev_Send retransmit p) # concat (replicate n [pop, fire])) (pj_stun_client_tsx_create True od rto))
    in tsx_complete (run True 7) \<and> stun_log (run True 7) =
        concat (map (\<lambda>d. [Out_Schedule d, Out_Send (Some p)])
          [Time_Val 0 (int rto), msec_val (2 * rto), msec_val (4 * rto), msec_val (8 * rto), msec_val (16 * rto), msec_val (32 * rto), Time_Val 1 600])
        @ [Out_Complete PJNATH_ESTUNTIMEDOUT]
      \<and> tsx_complete (run False 1) \<and> stun_log (run False 1) = [Out_Schedule (msec_val (16 * rto)), Out_Send (Some p), Out_Complete PJNATH_ESTUNTIMEDOUT]"
proof -
  define f where "f t = stun_step PJ_SUCCESS sr Ev_Fire (stun_step PJ_SUCCESS sr Ev_Pop t)" for t :: "'a stun_tsx"
  define out where "out d = [Out_Schedule d, Out_Send (Some p)]" for d
  define t1 where "t1 = stun_step PJ_SUCCESS sr (Ev_Send True p) (pj_stun_client_tsx_create True od rto)"
  have w1: "waiting 1 (Time_Val 0 (int rto)) p (out (Time_Val 0 (int rto))) t1"
    unfolding out_def t1_def by (rule waiting_start [OF assms(3)])
  have step: "waiting k' (msec_val m) p (log @ out (msec_val m)) (f t)"
    if "waiting k d p log t" "PJ_TIME_VAL_MSEC d = int n" "0 < k" "k < 6" "m < 2 ^ 32" "m = 2 * n" "k' = k + 1" for k k' d m n log t
    using that unfolding f_def out_def that(6,7) by (intro waiting_fire [OF that(1) assms(3)] next_time_doubles) (simp_all add: waiting_def)
  have "PJ_TIME_VAL_MSEC (Time_Val 0 (int rto)) = int rto" by (simp add: PJ_TIME_VAL_MSEC_def)
  then have w2: "waiting 2 (msec_val (2 * rto)) p (out (Time_Val 0 (int rto)) @ out (msec_val (2 * rto))) (f t1)"
    by (rule step [OF w1]) (use assms(2) in simp_all)
  have w3: "waiting 3 (msec_val (4 * rto)) p ((out (Time_Val 0 (int rto)) @ out (msec_val (2 * rto))) @ out (msec_val (4 * rto))) (f (f t1))"
    by (rule step [OF w2 msec_val_MSEC]) (use assms(2) in simp_all)
  have w4: "waiting 4 (msec_val (8 * rto)) p (((out (Time_Val 0 (int rto)) @ out (msec_val (2 * rto))) @ out (msec_val (4 * rto))) @ out (msec_val (8 * rto))) (f (f (f t1)))"
    by (rule step [OF w3 msec_val_MSEC]) (use assms(2) in simp_all)
  have w5: "waiting 5 (msec_val (16 * rto)) p ((((out (Time_Val 0 (int rto)) @ out (msec_val (2 * rto))) @ out (msec_val (4 * rto))) @ out (msec_val (8 * rto))) @ out (msec_val (16 * rto))) (f (f (f (f t1))))"
    by (rule step [OF w4 msec_val_MSEC]) (use assms(2) in simp_all)
  have w6: "waiting 6 (msec_val (32 * rto)) p (((((out (Time_Val 0 (int rto)) @ out (msec_val (2 * rto))) @ out (msec_val (4 * rto))) @ out (msec_val (8 * rto))) @ out (msec_val (16 * rto))) @ out (msec_val (32 * rto))) (f (f (f (f (f t1)))))"
    by (rule step [OF w5 msec_val_MSEC]) (use assms(2) in simp_all)
  have "next_time t = Time_Val 1 600" if "waiting 6 d p log t" for d log t
    using that by (simp add: waiting_def next_time_def PJ_STUN_MAX_TRANSMIT_COUNT_def PJ_STUN_TIMEOUT_VALUE_def)
  then have "waiting 7 (Time_Val 1 600) p (log @ out (Time_Val 1 600)) (f t)" if "waiting 6 d p log t" for d log t
    using waiting_fire [OF that assms(3)] that by (simp add: f_def out_def)
  note w7 = this [OF w6]
  have "stun_run ((PJ_SUCCESS, sr, Ev_Send True p) # concat (replicate 7 [(PJ_SUCCESS, sr, Ev_Pop), (PJ_SUCCESS, sr, Ev_Fire)]))
      (pj_stun_client_tsx_create True od rto) = f (f (f (f (f (f (f t1))))))"
  proof -
    have r: "replicate 7 x = [x, x, x, x, x, x, x]" for x :: "(pj_status \<times> pj_status \<times> 'a stun_event) list" by (simp add: numeral_nat)
    have e: "stun_run ((PJ_SUCCESS, sr, Ev_Pop) # (PJ_SUCCESS, sr, Ev_Fire) # es) t = stun_run es (f t)" for es t
      by (simp only: f_def stun_run.simps)
    show ?thesis
      by (simp only: r concat.simps append_Cons append_Nil append_Nil2 e t1_def [symmetric] stun_run.simps(2) [of PJ_SUCCESS sr "Ev_Send True p"] stun_run.simps(1))
  qed
  moreover have "replicate 1 x = [x]" for x :: "(pj_status \<times> pj_status \<times> 'a stun_event) list" by simp
  ultimately show ?thesis
    unfolding Let_def using waiting_gives_up [OF w7, of sr, folded f_def] sent_once [OF assms, of p od]
    by (simp only: concat.simps append_Nil2) (simp add: out_def)
qed

lemma idle_after_rx:
  assumes "PJ_STUN_IS_SUCCESS_RESPONSE ty \<or> PJ_STUN_IS_ERROR_RESPONSE ty" "pending (retransmit_timer t) = 0"
  shows "idle (snd (pj_stun_client_tsx_on_rx_msg t ty c))"
  using assms by (auto simp: pj_stun_client_tsx_on_rx_msg_def idle_def cancel_retransmit_def cancel_if_active_def complete_with_def emit_def Let_def
      split: option.splits)

text \<open>
C39. A response, success or with an error code above 200, completes the transaction with the
status it stands for when it has not completed yet, and when no callback of the retransmission
timer is on its way nothing is sent or reported afterwards unless the client asks for it.
\<close>

theorem stun_response_completes:
  assumes "PJ_STUN_IS_SUCCESS_RESPONSE ty \<or> PJ_STUN_IS_ERROR_RESPONSE ty" "\<forall>code. c = Some code \<longrightarrow> 200 < code" "pending (retransmit_timer t) = 0"
    "pj_stun_client_tsx_on_rx_msg t ty c = (st, t')"
  shows "st = PJ_SUCCESS \<and> tsx_complete t'
    \<and> (\<not> tsx_complete t \<and> on_complete t \<longrightarrow>
         stun_log t' = stun_log t @ [Out_Complete (case c of None \<Rightarrow> PJ_SUCCESS | Some code \<Rightarrow> PJ_STATUS_FROM_STUN_CODE code)])
    \<and> (tsx_complete t \<longrightarrow> stun_log t' = stun_log t)
    \<and> (\<forall>es. (\<forall>(ss, sr, e) \<in> set es. \<not> client_call e) \<longrightarrow> sendings (stun_run es t') = sendings t' \<and> completions (stun_run es t') = completions t')"
proof -
  have i: "idle t'" using idle_after_rx [OF assms(1,3), of c] assms(4) by simp
  have r: "st = PJ_SUCCESS \<and> t' = complete_with (case c of None \<Rightarrow> PJ_SUCCESS | Some code \<Rightarrow> PJ_STATUS_FROM_STUN_CODE code) (cancel_retransmit t)"
    using assms(1,2,4) by (auto simp: pj_stun_client_tsx_on_rx_msg_def Let_def split: option.splits if_splits)
  then have c: "tsx_complete t'" by (simp add: complete_with_def emit_def Let_def cancel_retransmit_def)
  have "silent t' (stun_run es t')" if "\<forall>(ss, sr, e) \<in> set es. \<not> client_call e" for es
    using idle_run [OF i, of es] that c by auto
  then show ?thesis using r c by (auto simp: silent_def complete_with_def emit_def Let_def cancel_retransmit_def)
qed


theorem stun_sends_after_response:
  "let ok = PJ_SUCCESS; t = stun_run [(ok, ok, Ev_Send True p), (ok, ok, Ev_Pop), (ok, ok, Ev_Rx 0x0101 None), (ok, ok, Ev_Fire)] (pj_stun_client_tsx_create True True 100)
   in stun_log t = [Out_Schedule (Time_Val 0 100), Out_Send (Some p), Out_Complete PJ_SUCCESS, Out_Schedule (Time_Val 0 200), Out_Send (Some p)]
      \<and> armed (retransmit_timer t) = Some (Time_Val 0 200)"
proof -
  have "PJ_STUN_IS_SUCCESS_RESPONSE 0x0101" by (simp add: PJ_STUN_IS_SUCCESS_RESPONSE_def)
  then show ?thesis
    by (simp add: pj_stun_client_tsx_create_def pj_stun_client_tsx_send_msg_def tsx_transmit_msg_def schedule_retransmit_def
      schedule_timer_def send_packet_def next_time_def PJNATH_ESTUNDESTROYED_def emit_def pop_timer_def retransmit_timer_callback_def inactive_def
      pj_stun_client_tsx_on_rx_msg_def cancel_retransmit_def cancel_if_active_def complete_with_def PJ_STUN_MAX_TRANSMIT_COUNT_def
      PJ_TIME_VAL_MSEC_def u32_mul_def to_u32_def Let_def)
qed

section \<open>Instances\<close>

lemma ex_types: "PJ_STUN_IS_SUCCESS_RESPONSE 0x0101" "PJ_STUN_IS_ERROR_RESPONSE 0x0111"
  by (simp_all add: PJ_STUN_IS_SUCCESS_RESPONSE_def PJ_STUN_IS_ERROR_RESPONSE_def)

definition ex_stun :: "nat stun_tsx" where
  "ex_stun = stun_step PJ_SUCCESS PJ_SUCCESS (Ev_Send True 7) (pj_stun_client_tsx_create True True 100)"

lemma ex_stun_waiting: "waiting 1 (Time_Val 0 100) 7 [Out_Schedule (Time_Val 0 100), Out_Send (Some 7)] ex_stun"
  using waiting_start [of PJ_SUCCESS 100 "7 :: nat"] by (simp add: ex_stun_def sent_ok_def del: stun_step.simps)

theorem stun_times_out_witness:
  "last (stun_log (stun_run ((PJ_SUCCESS, PJ_SUCCESS, Ev_Send True (7 :: nat))
      # concat (replicate 7 [(PJ_SUCCESS, PJ_SUCCESS, Ev_Pop), (PJ_SUCCESS, PJ_SUCCESS, Ev_Fire)])) (pj_stun_client_tsx_create True True 500)))
    = Out_Complete PJNATH_ESTUNTIMEDOUT \<and> msec_val (32 * 500) = Time_Val 16 0
    \<and> stun_log (stun_run ((PJ_SUCCESS, PJ_SUCCESS, Ev_Send False (7 :: nat))
      # concat (replicate 1 [(PJ_SUCCESS, PJ_SUCCESS, Ev_Pop), (PJ_SUCCESS, PJ_SUCCESS, Ev_Fire)])) (pj_stun_client_tsx_create True True 500))
    = [Out_Schedule (Time_Val 8 0), Out_Send (Some 7), Out_Complete PJNATH_ESTUNTIMEDOUT]"
  using stun_times_out [of 500 PJ_SUCCESS "7 :: nat" True] by (simp only: Let_def) (simp add: sent_ok_def msec_val_def del: stun_run.simps)

theorem stun_response_completes_witness:
  "\<exists>t'. pj_stun_client_tsx_on_rx_msg ex_stun 0x0111 (Some 401) = (PJ_SUCCESS, t') \<and> last (stun_log t') = Out_Complete (PJ_OTHER 370401)
    \<and> sendings (stun_run [(PJ_SUCCESS, PJ_SUCCESS, Ev_Pop), (PJ_SUCCESS, PJ_SUCCESS, Ev_Fire)] t') = sendings t'"
proof -
  obtain st t' where r: "pj_stun_client_tsx_on_rx_msg ex_stun 0x0111 (Some 401) = (st, t')" by fastforce
  have w: "pending (retransmit_timer ex_stun) = 0" "\<not> tsx_complete ex_stun" "on_complete ex_stun" using ex_stun_waiting by (simp_all add: waiting_def)
  show ?thesis
    using stun_response_completes [OF disjI2 [OF ex_types(2)] _ w(1) r] r w(2,3) by (auto simp: PJ_STATUS_FROM_STUN_CODE_def PJNATH_ERRNO_START_def simp del: stun_run.simps)
qed


end
