(* ===== verification/Spec2Isabelle.thy ===== *)
theory Spec2Isabelle
  imports Pj_Prelude Pj_String Pj_Hash Pj_List Pj_Pool Pj_Caching_Pool Base64 Rtp Jbuf_Playout Circ_Buf Delay_Buf
    Timer_Heap_Runs Sip_Tsx_Props Sip_Timers Sip_Tsx_Layer_Props Stun_Tsx
begin

text \<open>
  The core of PJSIP, the communication library under \<^verbatim>\<open>src/pjproject\<close> that the iOS telephone of this repository is built on.
  The application, in Swift and Objective-C, drives a call through PJSUA; below it, PJSIP signals it (\<^verbatim>\<open>pjsip/\<close>), PJMEDIA carries its
  sound (\<^verbatim>\<open>pjmedia/\<close>), PJNATH traverses NATs and PJLIB isolates them from the system. Modelled here are the parts in C that keep the
  state a call depends on while it runs:

  \<^item> strings, the hash table and linked lists, \<^verbatim>\<open>pjlib/src/pj/string.c\<close>, \<^verbatim>\<open>pjlib/src/pj/hash.c\<close> and \<^verbatim>\<open>pjlib/include/pj/list_i.h\<close>;
  \<^item> memory pools and the factory that recycles them, \<^verbatim>\<open>pjlib/src/pj/pool.c\<close>, \<^verbatim>\<open>pool_buf.c\<close> and \<^verbatim>\<open>pool_caching.c\<close>;
  \<^item> Base64, \<^verbatim>\<open>pjlib-util/src/pjlib-util/base64.c\<close>;
  \<^item> the timer heap, \<^verbatim>\<open>pjlib/src/pj/timer.c\<close>, on which every protocol timer of the library runs;
  \<^item> the SIP transaction, \<^verbatim>\<open>pjsip/src/pjsip/sip_transaction.c\<close>, client of the timer heap and of the transports;
  \<^item> the transaction layer of the same file, which finds the transaction of a received message, client of the hash table;
  \<^item> the RTP session, \<^verbatim>\<open>pjmedia/src/pjmedia/rtp.c\<close>, which makes and reads packets and follows sequence numbers;
  \<^item> the jitter buffer, \<^verbatim>\<open>pjmedia/src/pjmedia/jbuf.c\<close>, which puts the frames of those packets into the order of play;
  \<^item> the circular buffer of samples, \<^verbatim>\<open>pjmedia/include/pjmedia/circbuf.h\<close>, and the delay buffer between two clocks, \<^verbatim>\<open>pjmedia/src/pjmedia/delaybuf.c\<close>;
  \<^item> the STUN client transaction, \<^verbatim>\<open>pjnath/src/pjnath/stun_transaction.c\<close>, which repeats a request until it is answered.
\<close>

section \<open>Theories\<close>

text \<open>
  \<open>Pj_Prelude\<close>: the status codes, machine integers, \<^verbatim>\<open>pj_time_val\<close> with its order and arithmetic, lemmas on lists and maps.

  \<open>Pj_String\<close>: \<^verbatim>\<open>pj_str_t\<close> as a list of characters, comparison, search, tokens, trimming, copying into memory of given size, and the conversions
  between digits and 64 bit integers. Theorems: numbers printed are read back; \<^verbatim>\<open>pj_strtol2\<close> is exact or reports the bound it exceeds; tokens.

  \<open>Pj_Hash\<close>: the table as a list of chains, a power of two of them, with 32 bit hashes; the loop that finds that power has no fuel but is a
  partial function, \<open>None\<close> when it runs for ever. The locale \<open>keyed_table\<close> is what a client relies on, interpreted for exact keys and for keys
  without case. Theorems: the table is a map, with its count and its iteration.

  \<open>Pj_List\<close>: the links of all nodes as a store, each operation of \<^verbatim>\<open>list_i.h\<close> as its assignments in order; the three loops have no fuel but are
  partial functions, \<open>None\<close> when they run for ever. Theorems: any sequence of operations does to the rings of the store what its
  specification does to lists of nodes; on such stores the loops end with the size, the node and the first match.

  \<open>Pj_Pool\<close>: \<^verbatim>\<open>pj_pool_t\<close> with its blocks as integers for addresses, sizes as \<^verbatim>\<open>pj_size_t\<close> with its wrap-around, one definition for each function; what the
  factory answers is the argument \<open>balloc\<close>, what it is asked is a result. Theorems: areas that were allocated do not overlap, are aligned and lie in a
  block; allocation succeeds when the factory does; reset and destruction give every block back once; two defects.
  \<open>Pj_Caching_Pool\<close>: \<^verbatim>\<open>pj_caching_pool\<close> with its lists of used and free pools, over \<open>Pj_Pool\<close> and the default policy, which keeps the size used.
  Theorems: the counters are the sums they stand for in all runs and pools do not overlap; a pool that is released is
  handed out again; destroying the factory frees everything.

  \<open>Base64\<close>: the encoder and the decoder with its search for valid characters, over \<open>u8\<close>. Theorems: round trip, the bounds of the output, and
  invalid characters, which are skipped but at the end; a defect there.

  \<open>Rtp\<close>: header fields and flags as words and booleans, \<^verbatim>\<open>pjmedia_rtp_encode_rtp\<close>, \<^verbatim>\<open>pjmedia_rtp_decode_rtp2\<close> on an array of bytes with
  reads outside as a result of their own, \<^verbatim>\<open>pjmedia_rtp_session_update2\<close> and \<^verbatim>\<open>pjmedia_rtp_seq_update\<close> with integer promotion and
  wrap-around. Theorems: decoding what was encoded gives it back; decoding stays inside the buffer; a session follows the
  extended sequence number of a sender across wrap-arounds; probation, resynchronisation; two defects.

  \<open>Jbuf_Framelist\<close>: the ring of slots with its parallel arrays (\<^verbatim>\<open>jb_framelist_t\<close>), one definition for each \<^verbatim>\<open>jb_framelist_\<close> function; its
  abstraction, a list of optional frames from an origin, and the refinement of every operation. \<open>Jbuf\<close>: \<^verbatim>\<open>pjmedia_jbuf\<close> and every
  operation on it, the prefetch and both discard algorithms; loops carry fuel, which is the number of slots, and the theorems show that it
  is enough. \<open>Jbuf_Playout\<close>: totality of put, get, peek and remove, the invariant, and runs: what is played comes in order and is what was put.

  \<open>Circ_Buf\<close>: \<^verbatim>\<open>pjmedia_circ_buf\<close> with the two regions of samples and of space, copies with their length in bytes as \<^verbatim>\<open>unsigned\<close>, reads and writes outside as
  \<open>None\<close>. The locale \<open>bounded_queue\<close> states what a queue of samples does, with the circular buffer as interpretation. Theorems: every run is a run of the queue; what is
  read is what was written, in order; copying and packing; a defect. \<open>Delay_Buf\<close>: \<^verbatim>\<open>pjmedia_delay_buf\<close> over \<open>Circ_Buf\<close>, with the drift handler WSOLA as the locale
  \<open>wsola_contract\<close>, interpreted for the null implementation in \<^verbatim>\<open>wsola.c\<close>. Theorems: no operation reads or writes outside the buffer and every get gives a frame;
  a plain delay buffer is a window over the newest samples; two defects.

  \<open>Stun_Tsx\<close>: \<^verbatim>\<open>pj_stun_client_tsx\<close> with its two timers, each with the callbacks that were popped off the heap and have not run yet, and a log of
  what it sends, schedules and reports; runs of any events. Theorems: the transaction reports at most once; without an answer it sends seven times, with
  doubling delays, or once when retransmission is off, and times out; an answer completes it and nothing is sent any more; two defects around provisional answers and late callbacks.

  \<open>Timer_Heap\<close>: \<^verbatim>\<open>pj_timer_heap_t\<close> with the array of slots, the index from ids to slots that doubles as the free list, the copies of
  the entries (\<^verbatim>\<open>PJ_TIMER_USE_COPY\<close>), group locks as counters; one definition for each function. \<open>Timer_Heap_Inv\<close>: heap order, index,
  free list and the specification of \<open>remove_node\<close>; \<open>Timer_Heap_Ops\<close>: schedule, cancel and one round of poll as operations on the
  multiset of running timers; \<open>Timer_Heap_Poll\<close>: the locale \<open>expiry_queue\<close>, a queue that fires what is due in order, with the heap as
  interpretation, and the poll loop, whose fuel is the limit of timers per poll; \<open>Timer_Heap_Runs\<close>: runs of any client.

  \<open>Sip_Transaction\<close>: \<^verbatim>\<open>pjsip_transaction\<close> as a record, the ten state handlers and their two tables, sending with its pending and
  retry flags, the callbacks \<^verbatim>\<open>send_msg_callback\<close>, \<^verbatim>\<open>transport_callback\<close>, \<^verbatim>\<open>tsx_tp_state_callback\<close> and \<^verbatim>\<open>tsx_timer_callback\<close>, creation,
  termination and destruction, and the step relation \<open>tsx_step\<close> of everything that may happen to a transaction. \<open>Sip_Tsx_Inv\<close>: the frame
  of each small step, the references held, pending sends, and what sending guarantees. \<open>Sip_Tsx_Handlers\<close>: every handler, on every event,
  leaves a transaction in order. \<open>Sip_Tsx_Runs\<close>: the invariant of all runs. \<open>Sip_Tsx_Rise\<close>: the states that \<^verbatim>\<open>tsx_set_state\<close> is given within one
  event; the field \<open>tsx_states\<close>, which the code does not have, lists them. \<open>Sip_Tsx_Props\<close>: the properties, with an example run.
  \<open>Sip_Tsx_Reg\<close>: how a transaction registers and unregisters: what each of its steps does to \<open>registered\<close> and \<open>unreg_calls\<close>. \<open>Sip_Tsx_Key\<close>: methods and
  the keys of transactions, which keys are equal, and that they fit the memory allocated. \<open>Sip_Tsx_Layer\<close>: the layer as its table, the memory of
  transactions and their keys; registration, lookup, creation, dispatch and stopping, the step relation \<open>layer_step\<close> of everything
  that may happen to the layer, with a flag for late callbacks, and the invariant of its runs, over the lemmas of \<open>keyed_table\<close>.
  \<open>Sip_Tsx_Layer_Props\<close>: the properties: no dangling entries, unique keys, where messages go, now and at any later state of the layer
  (\<open>layer_later\<close>), and the emptying of the table; a defect.

  \<open>Sip_Timers\<close>: the locale \<open>timer_service\<close>, what a transaction expects of its two timers, its lemmas on the model of the
  transaction, and the timer heap as interpretation.
\<close>

section \<open>Bounds and conventions\<close>

text \<open>
  C pointers to messages, transports, entries and locks are numbers; absent ones are \<open>None\<close>. Unsigned and signed integers of C that the code
  wraps or shifts are words or have the wrap-around written out; counters that the code cannot overflow in practice (reference
  counters, statistics) are mathematical integers. Failed allocations, reads outside an array and null function pointers are results of the
  definitions that can meet them. \<^verbatim>\<open>PJ_ASSERT_RETURN\<close> is modelled as the early return it is; \<^verbatim>\<open>pj_assert\<close>, which production builds
  leave out, is not modelled, and several of the asserted conditions are proved instead (the state of a transaction only rises, no
  handler is missing). Log output and locks are left out: each operation runs alone, and concurrency shows as the order of steps.

  What surrounds a component is an argument of its definitions: the bytes of a packet, the content of fresh memory, the callbacks of timers, the
  answers of transports and of the endpoint (\<open>tsx_env\<close>), the blocks that \<^verbatim>\<open>malloc\<close> gives (\<open>grants\<close>: aligned and apart from all blocks that are held), the drift handler of
  the delay buffer. The hypotheses on them are few. \<open>env_ok\<close>: the transaction layer is not being shut
  down, and a stateless send that fails has not called back (\<^verbatim>\<open>sip_util.c\<close> reports an error either way, not both). In \<open>tsx_step\<close>: the parser
  has checked the range of status codes, lets no null character into the parts of a message that go into keys (\<open>chars_ok\<close>), a transport that disconnects gives a reason, and the user does not restart the timeout of, or
  resend by hand on, a transaction that has terminated; the user may set \<^verbatim>\<open>handle_200resp\<close> at any time.

  Some theorems bound what they speak of. The runs of a pool have sizes and increments below \<open>2^62\<close>: far above, the rounding of a size wraps, and the
  areas are no longer apart (\<open>pool_alloc_wraps\<close>). The runs of the timer heap have memory for every heap that grows, and do not initialise a running entry: a heap that
  cannot grow leaves an entry marked running that is not in it (\<open>timer_schedule_no_memory\<close>). The equality of transaction keys is that of branches with the
  cookie of RFC 3261 and of methods that are tokens, which have no \<open>$\<close>, the separator of the key. The theorems on which transaction of
  the layer a message reaches are about runs without a late callback, the defect of \<open>layer_evicts_newer\<close>. The contract of the drift handler is proved
  for the null implementation, which \<^verbatim>\<open>wsola.c\<close> has for builds without WSOLA; for the others it is a hypothesis.
\<close>

section \<open>Not modelled\<close>

text \<open>
  The pools of most models are still a parameter: an allocation succeeds or fails. \<open>Pj_Pool\<close> leaves out the contents of memory (clearing and wiping), names and the forwarding functions
  of \<^verbatim>\<open>pool_i.h\<close>; \<open>Pj_Caching_Pool\<close> the status dump and the signatures of \<^verbatim>\<open>PJ_SAFE_POOL\<close>; \<open>Base64\<close> takes lengths below \<open>2^29\<close>, where \<^verbatim>\<open>int\<close> does not overflow; \<open>Delay_Buf\<close> leaves out destruction,
  and of WSOLA the two implementations that stretch and shrink speech, which are signal processing; \<open>Stun_Tsx\<close> leaves out user data, and the content of messages but type and error code.

  Of the modelled files: destruction and dumping of the timer heap, statistics in floating point of the jitter buffer, \<^verbatim>\<open>pj_strtof\<close>, the functions that
  duplicate strings and \<^verbatim>\<open>pj_stricmp_alnum\<close> of the strings, and strings of \<open>2^32\<close> characters and more; and of \<^verbatim>\<open>sip_transaction.c\<close> the registration of the module, dumping, the
  failure to get a pool or a lock in \<^verbatim>\<open>tsx_create\<close>, and that of the timer heap to get memory in \<^verbatim>\<open>tsx_schedule_timer\<close>. The rest of
  PJLIB (system, sockets), the rest of PJLIB-UTIL, the other files of PJMEDIA (SDP, RTCP, streams, devices, codecs), the rest of PJNATH, the SIP
  parser, transports, dialogs and invite sessions, PJSUA, the applications and the vendored libraries are outside: they are input and output, signal
  processing, glue, or components for later stages (SDP negotiation, dialogs and the invite session).
\<close>

end
